(* ===== verification/Prelude.thy ===== *)
theory Prelude
  imports
    Main
    "HOL-Library.AList"
    "HOL-Library.Word"
    "HOL-Library.Multiset"
    "HOL-Library.Char_ord"
    "HOL-Library.List_Lexorder"
begin

text \<open>
  Shared vocabulary of the development.

  \<^item> The status codes of \<^verbatim>\<open>src/src/common/utils/StatusCodeDetails.h\<close>, grouped as the header groups
    them, and the result type of a fallible function (\<open>Inl\<close> the error).
  \<^item> Ordered maps (\<^verbatim>\<open>std::map\<close>): strictly sorted association lists with the operations the code
    uses; unordered maps are plain association lists updated by \<^const>\<open>AList.update\<close>, so that a
    statement over every such list is a statement over every iteration order.
  \<^item> Operations as state transformers, with an outcome and the sequencing of the source.
  \<^item> Collections of lemmas used by the component theories.
\<close>

section \<open>Collections\<close>

named_theorems omap_simps "lookup and well-formedness of ordered maps"
named_theorems alist_simps "lookup in unordered maps"

section \<open>Status codes\<close>

datatype CommonCode =
    kInvalidArg | kDataCorruption | kAuthenticationFail | kKVStoreNotFound | kKVStoreGetError
  | kKVStoreSetError | kUnknown

datatype TransactionCode =
    kFailed | kConflict | kThrottled | kTooOld | kNetworkError | kCanceled | kMaybeCommitted
  | kRetryable | kResourceConstrained | kProcessBehind | kFutureVersion

datatype MgmtdCode =
    kNotPrimary | kNodeNotFound | kHeartbeatFail | kClusterIdMismatch | kRegisterFail
  | kInvalidRoutingInfoVersion | kInvalidConfigVersion | kInvalidChainTable
  | kInvalidChainTableVersion | kHeartbeatVersionStale | kClientSessionVersionStale | kInvalidTag
  | kChainNotFound | kNodeTypeMismatch | kExtendClientSessionMismatch | kClientSessionNotFound
  | kNotAdmin | kTargetNotFound | kTargetExisted

datatype StorageCode =
    kChunkMetadataNotFound | kChunkMetadataGetError | kChunkMetadataSetError | kChunkNotCommit
  | kChunkNotClean | kChunkStaleUpdate | kChunkMissingUpdate | kChunkCommittedUpdate
  | kChunkReadFailed | kChunkWriteFailed | kChunkAdvanceUpdate | kChunkSizeMismatch
  | kChunkNotReadyToRemove | kChunkStaleCommit | kChunkOpenFailed | kPunchHoleFailed
  | kChunkInvalidChunkSize | kChunkStoreInitFailed | kMetaStoreInvalidIterator
  | kMetaStoreOpenFailed | kTargetOffline | kTargetStateInvalid
  | kNoSuccessorTarget | kNoSuccessorAddr | kChecksumMismatch | kChainVersionMismatch
  | kChunkVersionMismatch

datatype StorageClientCode = kRoutingError | kRoutingVersionMismatch | kNoSpace | kNotInitialized

datatype status =
    Common CommonCode
  | Transaction TransactionCode
  | Mgmtd MgmtdCode
  | Storage StorageCode
  | StorageClient StorageClientCode

type_synonym 'a result = "status + 'a"

text \<open>
  The outcome of an operation that may abort the process (a FATAL log or undefined behaviour in a
  release build) or that is still retrying.
\<close>

datatype 'a outcome = Ret 'a | Err status | Crash | Pending

fun obind :: "'a outcome \<Rightarrow> ('a \<Rightarrow> 'b outcome) \<Rightarrow> 'b outcome" where
  "obind (Ret x) f = f x"
| "obind (Err e) f = Err e"
| "obind Crash f = Crash"
| "obind Pending f = Pending"

definition of_option :: "'a option \<Rightarrow> 'a outcome" where
  "of_option x = (case x of None \<Rightarrow> Crash | Some y \<Rightarrow> Ret y)"

definition of_result :: "'a result \<Rightarrow> 'a outcome" where
  "of_result x = (case x of Inl e \<Rightarrow> Err e | Inr y \<Rightarrow> Ret y)"

lemma of_option_simps [simp]: "of_option None = Crash" "of_option (Some y) = Ret y"
  by (simp_all add: of_option_def)

lemma of_result_simps [simp]: "of_result (Inl e) = Err e" "of_result (Inr y) = Ret y"
  by (simp_all add: of_result_def)

lemma obind_eq_Ret: "obind x f = Ret y \<longleftrightarrow> (\<exists>z. x = Ret z \<and> f z = Ret y)"
  by (cases x) auto

section \<open>Loops as folds\<close>

lemma foldl_invariant:
  assumes "P s" and "\<And>s x. x \<in> set xs \<Longrightarrow> P s \<Longrightarrow> P (f s x)"
  shows "P (foldl f s xs)"
  using assms by (induction xs arbitrary: s) auto

text \<open>A loop whose body may abort the process: None is the abort.\<close>

fun ofold :: "('a \<Rightarrow> 's \<Rightarrow> 's option) \<Rightarrow> 'a list \<Rightarrow> 's \<Rightarrow> 's option" where
  "ofold f [] s = Some s"
| "ofold f (x # xs) s = Option.bind (f x s) (ofold f xs)"

lemma ofold_invariant:
  assumes "P s" and "\<And>x s. x \<in> set xs \<Longrightarrow> P s \<Longrightarrow> \<exists>s'. f x s = Some s' \<and> P s'"
  shows "\<exists>s'. ofold f xs s = Some s' \<and> P s'"
  using assms
proof (induction xs arbitrary: s)
  case (Cons x xs)
  obtain s' where "f x s = Some s'" "P s'"
    using Cons.prems(1) Cons.prems(2) [of x s] by auto
  with Cons.IH [of s'] Cons.prems(2) show ?case by auto
qed simp

lemma ofold_total: "ofold (\<lambda>x s. Some (f x s)) xs s = Some (fold f xs s)"
  by (induction xs arbitrary: s) auto

section \<open>Ordered maps\<close>

type_synonym ('k, 'v) omap = "('k \<times> 'v) list"

definition omap_wf :: "('k::linorder, 'v) omap \<Rightarrow> bool" where
  "omap_wf m \<longleftrightarrow> sorted_wrt (<) (map fst m)"

fun omap_put :: "'k::linorder \<Rightarrow> 'v \<Rightarrow> ('k, 'v) omap \<Rightarrow> ('k, 'v) omap" where
  "omap_put k v [] = [(k, v)]"
| "omap_put k v ((k', v') # m) =
     (if k < k' then (k, v) # (k', v') # m
      else if k = k' then (k, v) # m
      else (k', v') # omap_put k v m)"

definition omap_erase :: "'k \<Rightarrow> ('k, 'v) omap \<Rightarrow> ('k, 'v) omap" where
  "omap_erase k m = filter (\<lambda>e. fst e \<noteq> k) m"

definition lower_bound :: "'k::linorder \<Rightarrow> ('k, 'v) omap \<Rightarrow> ('k, 'v) omap" where
  "lower_bound k m = dropWhile (\<lambda>e. fst e < k) m"

definition upper_bound :: "'k::linorder \<Rightarrow> ('k, 'v) omap \<Rightarrow> ('k, 'v) omap" where
  "upper_bound k m = dropWhile (\<lambda>e. fst e \<le> k) m"

text \<open>\<^verbatim>\<open>m.rbegin()\<close>: the entry with the largest key, if there is one.\<close>

definition rbegin :: "('k, 'v) omap \<Rightarrow> ('k \<times> 'v) option" where
  "rbegin m = (if m = [] then None else Some (last m))"

lemma omap_wf_Nil [simp, omap_simps]: "omap_wf []"
  by (simp add: omap_wf_def)

lemma omap_wf_Cons [omap_simps]:
  "omap_wf ((k, v) # m) \<longleftrightarrow> (\<forall>k' \<in> fst ` set m. k < k') \<and> omap_wf m"
  by (auto simp: omap_wf_def)

lemma map_of_omap_put [simp, omap_simps]: "map_of (omap_put k v m) = (map_of m)(k \<mapsto> v)"
  by (induction m) (auto simp: fun_eq_iff)

lemma keys_omap_put [simp, omap_simps]: "fst ` set (omap_put k v m) = insert k (fst ` set m)"
proof -
  have "dom (map_of (omap_put k v m)) = insert k (dom (map_of m))"
    by simp
  then show ?thesis
    by (simp only: dom_map_of_conv_image_fst)
qed

lemma omap_wf_put [simp, intro, omap_simps]: "omap_wf m \<Longrightarrow> omap_wf (omap_put k v m)"
proof (induction m)
  case (Cons e m)
  show ?case
  proof (cases e)
    case (Pair k' v')
    with Cons have gt: "\<forall>x \<in> fst ` set m. k' < x" and wf: "omap_wf m"
      by (auto simp: omap_wf_Cons)
    consider "k < k'" | "k = k'" | "k' < k"
      by (rule linorder_cases)
    then show ?thesis
    proof cases
      case 1
      with gt have "\<forall>x \<in> fst ` set m. k < x"
        by (blast intro: less_trans)
      with 1 Pair Cons.prems show ?thesis
        by (simp add: omap_wf_Cons)
    next
      case 2
      with Pair Cons.prems show ?thesis by (simp add: omap_wf_Cons)
    next
      case 3
      then have "omap_put k v (e # m) = (k', v') # omap_put k v m"
        using Pair by auto
      moreover have "\<forall>x \<in> fst ` set (omap_put k v m). k' < x"
        using 3 gt by simp
      ultimately show ?thesis
        using Cons.IH [OF wf] by (simp only: omap_wf_Cons)
    qed
  qed
qed (simp add: omap_wf_Cons)

lemma omap_put_not_Nil [simp]: "omap_put k v m \<noteq> []"
  by (cases "(k, v, m)" rule: omap_put.cases) (auto split: if_splits)

lemma map_of_omap_erase [simp, omap_simps]: "map_of (omap_erase k m) = (map_of m)(k := None)"
  by (induction m) (auto simp: omap_erase_def fun_eq_iff)

lemma omap_wf_erase [simp, intro, omap_simps]: "omap_wf m \<Longrightarrow> omap_wf (omap_erase k m)"
  by (induction m) (auto simp: omap_erase_def omap_wf_Cons)

lemma omap_wf_distinct: "omap_wf m \<Longrightarrow> distinct (map fst m)"
  by (auto simp: omap_wf_def strict_sorted_iff)

lemma omap_wf_map_of: "omap_wf m \<Longrightarrow> (k, v) \<in> set m \<longleftrightarrow> map_of m k = Some v"
  by (simp add: omap_wf_distinct)

lemma omap_wf_filter [simp, intro]: "omap_wf m \<Longrightarrow> omap_wf (filter P m)"
  by (simp add: omap_wf_def sorted_wrt_map sorted_wrt_filter)

lemma map_of_filter_key: "map_of (filter (\<lambda>e. P (fst e)) m) k = (if P k then map_of m k else None)"
  by (induction m) auto

lemma sorted_wrt_unique_set:
  assumes "set xs = set ys" and "sorted_wrt R xs" and "sorted_wrt R ys"
    and asym: "\<And>x y. R x y \<Longrightarrow> \<not> R y x"
  shows "xs = ys"
  using assms(1-3)
proof (induction xs arbitrary: ys)
  case (Cons x xs)
  then obtain y ys' where ys: "ys = y # ys'" by (cases ys) auto
  have "x = y"
    using Cons.prems asym unfolding ys by (metis list.set_intros(1) set_ConsD sorted_wrt.simps(2))
  moreover have "x \<notin> set xs" "y \<notin> set ys'"
    using Cons.prems(2,3) asym unfolding ys by auto
  ultimately have "set xs = set ys'"
    using Cons.prems(1) unfolding ys by auto
  with Cons \<open>x = y\<close> show ?case unfolding ys by auto
qed simp

lemma omap_eqI:
  assumes "omap_wf m" and "omap_wf m'" and "map_of m = map_of m'"
  shows "m = m'"
proof -
  have "set m = set m'"
    using assms omap_wf_map_of [OF assms(1)] omap_wf_map_of [OF assms(2)] by auto
  moreover have "sorted_wrt (\<lambda>x y. fst x < fst y) m" "sorted_wrt (\<lambda>x y. fst x < fst y) m'"
    using assms(1,2) by (simp_all add: omap_wf_def sorted_wrt_map)
  ultimately show ?thesis
    by (rule sorted_wrt_unique_set) simp
qed

lemma lower_bound_filter: "omap_wf m \<Longrightarrow> lower_bound k m = filter (\<lambda>e. k \<le> fst e) m"
proof (induction m)
  case (Cons e m)
  have gt: "\<forall>x \<in> set m. fst e < fst x" and wf: "omap_wf m"
    using Cons.prems by (cases e, auto simp: omap_wf_Cons)+
  show ?case
  proof (cases "fst e < k")
    case True
    with Cons.IH [OF wf] show ?thesis by (simp add: lower_bound_def)
  next
    case False
    then have "filter (\<lambda>e. k \<le> fst e) m = m"
      using gt by (intro filter_True) (meson le_less_trans less_imp_le not_less)
    with False show ?thesis by (simp add: lower_bound_def not_less)
  qed
qed (simp add: lower_bound_def)

lemma upper_bound_filter: "omap_wf m \<Longrightarrow> upper_bound k m = filter (\<lambda>e. k < fst e) m"
proof (induction m)
  case (Cons e m)
  have gt: "\<forall>x \<in> set m. fst e < fst x" and wf: "omap_wf m"
    using Cons.prems by (cases e, auto simp: omap_wf_Cons)+
  show ?case
  proof (cases "fst e \<le> k")
    case True
    with Cons.IH [OF wf] show ?thesis by (simp add: upper_bound_def)
  next
    case False
    then have "filter (\<lambda>e. k < fst e) m = m"
      using gt by (intro filter_True) (meson less_trans not_le)
    with False show ?thesis by (simp add: upper_bound_def not_le)
  qed
qed (simp add: upper_bound_def)

lemma rbegin_greatest:
  assumes "omap_wf m" and "rbegin m = Some (k, v)"
  shows rbegin_lookup: "map_of m k = Some v"
    and rbegin_max: "k' \<in> fst ` set m \<Longrightarrow> k' \<le> k"
proof -
  define init where "init = butlast m"
  from assms(2) have "m \<noteq> []" and "last m = (k, v)"
    by (auto simp: rbegin_def split: if_splits)
  then have m: "m = init @ [(k, v)]"
    unfolding init_def by (metis append_butlast_last_id)
  then have "(k, v) \<in> set m"
    by simp
  with assms(1) show "map_of m k = Some v"
    by (simp add: omap_wf_map_of)
  have "\<forall>x \<in> fst ` set init. x < k"
    using assms(1) by (simp add: m omap_wf_def sorted_wrt_append)
  then show "k' \<in> fst ` set m \<Longrightarrow> k' \<le> k"
    by (auto simp: m less_imp_le)
qed

section \<open>Unordered maps\<close>

lemmas alist_lookup [alist_simps] = update_conv' delete_conv'

lemmas alist_distinct [simp, intro, alist_simps] = distinct_update distinct_delete

lemma keys_alist_update [simp, alist_simps]:
  "fst ` set (AList.update k v m) = insert k (fst ` set m)"
  by (metis dom_map_of_conv_image_fst dom_fun_upd option.discI update_conv')

text \<open>The elements of a list over a map, by their keys.\<close>

fun put_by :: "('a \<Rightarrow> 'k) \<Rightarrow> 'a list \<Rightarrow> ('k \<rightharpoonup> 'a) \<Rightarrow> 'k \<rightharpoonup> 'a" where
  "put_by g [] m = m"
| "put_by g (x # xs) m = put_by g xs (m(g x \<mapsto> x))"

lemma put_by_map_add: "put_by g xs m = m ++ map_of (rev (map (\<lambda>x. (g x, x)) xs))"
proof (induction xs arbitrary: m)
  case (Cons x xs)
  then show ?case by (simp del: fun_upd_apply)
qed simp

lemma put_by_idem: "put_by g xs (put_by g xs m) = put_by g xs m"
  unfolding put_by_map_add by (simp add: map_add_def fun_eq_iff split: option.split)

lemma put_by_other: "k \<notin> g ` set xs \<Longrightarrow> put_by g xs m k = m k"
  by (induction xs arbitrary: m) auto

lemma put_by_in: "k \<in> g ` set xs \<Longrightarrow> \<exists>x \<in> set xs. g x = k \<and> put_by g xs m k = Some x"
proof (induction xs arbitrary: m)
  case (Cons x xs)
  then show ?case
    by (cases "k \<in> g ` set xs") (auto simp: put_by_other)
qed simp

section \<open>Operations as state transformers\<close>

type_synonym ('s, 'a) action = "'s \<Rightarrow> 'a outcome \<times> 's"

definition ret :: "'a \<Rightarrow> ('s, 'a) action" where
  "ret x s = (Ret x, s)"

definition fail :: "status \<Rightarrow> ('s, 'a) action" where
  "fail e s = (Err e, s)"

definition crash :: "('s, 'a) action" where
  "crash s = (Crash, s)"

definition sbind :: "('s, 'a) action \<Rightarrow> ('a \<Rightarrow> ('s, 'b) action) \<Rightarrow> ('s, 'b) action" where
  "sbind m f s =
     (case m s of
        (Ret x, s') \<Rightarrow> f x s'
      | (Err e, s') \<Rightarrow> (Err e, s')
      | (Crash, s') \<Rightarrow> (Crash, s')
      | (Pending, s') \<Rightarrow> (Pending, s'))"

text \<open>\<^verbatim>\<open>CO_RETURN_ON_ERROR\<close>.\<close>

definition try_result :: "'a result \<Rightarrow> ('s, 'a) action" where
  "try_result r s = (of_result r, s)"

definition try_outcome :: "'a outcome \<Rightarrow> ('s, 'a) action" where
  "try_outcome r s = (r, s)"

definition gets :: "('s \<Rightarrow> 'a) \<Rightarrow> ('s, 'a) action" where
  "gets f s = (Ret (f s), s)"

definition when_error :: "bool \<Rightarrow> status \<Rightarrow> ('s, unit) action" where
  "when_error b e s = (if b then Err e else Ret (), s)"

text \<open>A function with a result that runs as a part of an operation.\<close>

definition run_result :: "('s \<Rightarrow> 'a result \<times> 's) \<Rightarrow> ('s, 'a) action" where
  "run_result m s = (case m s of (r, s') \<Rightarrow> (of_result r, s'))"

definition modify :: "('s \<Rightarrow> 's) \<Rightarrow> ('s, unit) action" where
  "modify f s = (Ret (), f s)"

text \<open>A property of the state that an operation keeps however it ends.\<close>

definition keeps :: "('s \<Rightarrow> bool) \<Rightarrow> ('s, 'a) action \<Rightarrow> bool" where
  "keeps P m \<longleftrightarrow> (\<forall>s. P s \<longrightarrow> P (snd (m s)))"

lemma keepsD: "keeps P m \<Longrightarrow> P s \<Longrightarrow> P (snd (m s))"
  by (simp add: keeps_def)

lemma keeps_sbind [intro]:
  assumes "keeps P m" "\<And>x. keeps P (f x)"
  shows "keeps P (sbind m f)"
  unfolding keeps_def
proof (intro allI impI)
  fix s assume "P s"
  then show "P (snd (sbind m f s))"
    using keepsD [OF assms(1), of s] keepsD [OF assms(2)]
    by (auto simp: sbind_def split: prod.splits outcome.splits)
qed

lemma keeps_basic [simp, intro]:
  "keeps P (ret x)" "keeps P (fail e)" "keeps P crash" "keeps P (try_result r)" "keeps P (try_outcome o')"
  "keeps P (gets f)" "keeps P (when_error b e)"
  by (simp_all add: keeps_def ret_def fail_def crash_def try_result_def try_outcome_def gets_def when_error_def)

lemma keeps_modify: "(\<And>s. P s \<Longrightarrow> P (f s)) \<Longrightarrow> keeps P (modify f)"
  by (simp add: keeps_def modify_def)

lemma keeps_arg: "(\<And>a. keeps P (f a)) \<Longrightarrow> keeps P (\<lambda>st. f st st)"
  by (simp add: keeps_def)

lemma keeps_finally:
  assumes "keeps P m" "keeps P n"
  shows "keeps P (\<lambda>st. case m st of (r, st') \<Rightarrow> (r, if b then st' else snd (n st')))"
  unfolding keeps_def
proof (intro allI impI)
  fix st assume "P st"
  then have "P (snd (m st))" "P (snd (n (snd (m st))))" using assms by (simp_all add: keeps_def)
  then show "P (snd (case m st of (r, st') \<Rightarrow> (r, if b then st' else snd (n st'))))" by (cases "m st") simp
qed

lemma sbind_cases:
  assumes "sbind m f s = (r, s')"
  obtains x s1 where "m s = (Ret x, s1)" "f x s1 = (r, s')"
  | e where "m s = (Err e, s')" "r = Err e"
  | "m s = (Crash, s')" "r = Crash"
  | "m s = (Pending, s')" "r = Pending"
  using assms by (auto simp: sbind_def split: prod.splits outcome.splits)

end
