(* ===== verification/Byte_Keys.thy ===== *)
theory Byte_Keys
  imports Prelude "HOL-Library.Sublist"
begin

text \<open>
  Keys of the key-value store as byte strings, ordered bytewise. The serialiser of integers and
  short strings (\<^verbatim>\<open>src/src/common/utils/SerDeser.h\<close>), the key prefixes
  (\<^verbatim>\<open>src/src/common/kv/KeyPrefix.h\<close>) and the end of a prefix range
  (\<^verbatim>\<open>TransactionHelper\<close> in \<^verbatim>\<open>src/src/common/kv/ITransaction.cc\<close>). The host is little-endian, so
  \<^verbatim>\<open>Serializer::put\<close> of an integer appends its bytes from the lowest to the highest, and the
  byte swap \<^verbatim>\<open>folly::Endian::big64\<close> before it reverses them.
\<close>

section \<open>Definitions\<close>

fun le_bytes :: "nat \<Rightarrow> nat \<Rightarrow> string" where
  "le_bytes 0 n = []"
| "le_bytes (Suc k) n = char_of (n mod 256) # le_bytes k (n div 256)"

fun le_value :: "string \<Rightarrow> nat" where
  "le_value [] = 0"
| "le_value (c # cs) = of_char c + 256 * le_value cs"

definition put32 :: "32 word \<Rightarrow> string" where
  "put32 w = le_bytes 4 (unat w)"

definition put64 :: "64 word \<Rightarrow> string" where
  "put64 w = le_bytes 8 (unat w)"

definition put_big64 :: "64 word \<Rightarrow> string" where
  "put_big64 w = rev (le_bytes 8 (unat w))"

definition putShortString :: "string \<Rightarrow> string" where
  "putShortString s = char_of (length s) # s"

text \<open>A deserialiser consumes a prefix of its input; \<^verbatim>\<open>CHECK_BUFFER_LENGTH\<close> fails with
  \<^verbatim>\<open>kDataCorruption\<close> when the input is too short.\<close>

definition getRaw :: "nat \<Rightarrow> string \<Rightarrow> (string \<times> string) result" where
  "getRaw n s = (if n > length s then Inl (Common kDataCorruption) else Inr (take n s, drop n s))"

definition get32 :: "string \<Rightarrow> (32 word \<times> string) result" where
  "get32 s = (case getRaw 4 s of Inl e \<Rightarrow> Inl e | Inr (b, rest) \<Rightarrow> Inr (of_nat (le_value b), rest))"

definition get64 :: "string \<Rightarrow> (64 word \<times> string) result" where
  "get64 s = (case getRaw 8 s of Inl e \<Rightarrow> Inl e | Inr (b, rest) \<Rightarrow> Inr (of_nat (le_value b), rest))"

definition get_big64 :: "string \<Rightarrow> (64 word \<times> string) result" where
  "get_big64 s = (case getRaw 8 s of Inl e \<Rightarrow> Inl e | Inr (b, rest) \<Rightarrow> Inr (of_nat (le_value (rev b)), rest))"

definition getShortString :: "string \<Rightarrow> (string \<times> string) result" where
  "getShortString s =
     (case s of [] \<Rightarrow> Inl (Common kDataCorruption) | c # cs \<Rightarrow> getRaw (of_char c) cs)"

definition keyAfter :: "string \<Rightarrow> string" where
  "keyAfter k = k @ [CHR 0x00]"

function prefixListEndKey :: "string \<Rightarrow> string" where
  "prefixListEndKey endKey =
     (if endKey = [] then []
      else if last endKey \<noteq> CHR 0xFF
      then butlast endKey @ [char_of (of_char (last endKey) + 1 :: nat)]
      else prefixListEndKey (butlast endKey))"
  by pat_completeness auto
termination
  by (relation "measure length") auto

section \<open>Bytes of integers\<close>

lemma length_le_bytes [simp]: "length (le_bytes k n) = k"
  by (induction k arbitrary: n) auto

lemma le_value_bytes: "le_value (le_bytes k n) = n mod 256 ^ k"
proof (induction k arbitrary: n)
  case (Suc k)
  have "n mod 256 + 256 * (n div 256 mod 256 ^ k) = n mod (256 * 256 ^ k)"
    by (simp add: mod_mult2_eq)
  then show ?case
    by (simp add: Suc of_char_of)
qed simp

lemma unat_lt32: "unat (w :: 32 word) < 256 ^ 4"
  using unsigned_less [of w, where ?'a = nat] by simp

lemma unat_lt64: "unat (w :: 64 word) < 256 ^ 8"
  using unsigned_less [of w, where ?'a = nat] by simp

lemma getRaw_append: "length b = n \<Longrightarrow> getRaw n (b @ rest) = Inr (b, rest)"
  by (simp add: getRaw_def)

lemma of_nat_unat_eq: "of_nat (unat w) = (w :: 'a::len word)"
  by simp

lemma of_nat_le_value:
  "of_nat (le_value (le_bytes 4 (unat w))) = (w :: 32 word)"
  "of_nat (le_value (le_bytes 8 (unat v))) = (v :: 64 word)"
  by (simp_all only: le_value_bytes mod_less [OF unat_lt32] mod_less [OF unat_lt64] of_nat_unat_eq)

lemma get_put:
  "get32 (put32 w @ rest) = Inr (w, rest)"
  "get64 (put64 v @ rest) = Inr (v, rest)"
  "get_big64 (put_big64 v @ rest) = Inr (v, rest)"
  unfolding get32_def get64_def get_big64_def put32_def put64_def put_big64_def
  by (subst getRaw_append, simp, simp only: sum.case prod.case of_nat_le_value rev_rev_ident)+

lemma length_put [simp]: "length (put32 w) = 4" "length (put64 v) = 8" "length (put_big64 v) = 8"
  by (simp_all add: put32_def put64_def put_big64_def)

lemma get_put_short_string:
  "length s < 128 \<Longrightarrow> getShortString (putShortString s @ rest) = Inr (s, rest)"
  by (simp add: getShortString_def putShortString_def getRaw_def of_char_of)

lemma put_injective:
  shows put32_inj: "put32 w = put32 w' \<Longrightarrow> w = w'"
    and put64_inj: "put64 v = put64 v' \<Longrightarrow> v = v'"
    and put_big64_inj: "put_big64 v = put_big64 v' \<Longrightarrow> v = v'"
proof -
  show "w = w'" if "put32 w = put32 w'"
    using arg_cong [OF that, of "\<lambda>s. get32 (s @ [])"] by (simp only: get_put sum.inject prod.inject)
  show "v = v'" if "put64 v = put64 v'"
    using arg_cong [OF that, of "\<lambda>s. get64 (s @ [])"] by (simp only: get_put sum.inject prod.inject)
  show "v = v'" if "put_big64 v = put_big64 v'"
    using arg_cong [OF that, of "\<lambda>s. get_big64 (s @ [])"] by (simp only: get_put sum.inject prod.inject)
qed

section \<open>The byte order\<close>

lemma char_less_iff: "c < d \<longleftrightarrow> of_char c < (of_char d :: nat)"
  by (simp add: less_char_def)

lemma less_append_same: "p @ s < p @ t \<longleftrightarrow> s < (t :: string)"
  by (induction p) auto

lemma less_snoc:
  "length xs = length ys \<Longrightarrow> xs @ [x] < ys @ [y] \<longleftrightarrow> xs < ys \<or> xs = ys \<and> x < (y :: 'a::linorder)"
  by (induction xs ys rule: list_induct2) auto

lemma less_div_mod: "a < b \<longleftrightarrow> a div d < b div d \<or> a div d = b div d \<and> a mod d < b mod (d :: nat)"
proof (cases "a div d" "b div d" rule: linorder_cases)
  case less
  then show ?thesis
    using div_le_mono [of b a d] by (auto simp: not_less [symmetric])
next
  case equal
  then have "a = d * (b div d) + a mod d" "b = d * (b div d) + b mod d"
    by (metis mult_div_mod_eq, simp)
  then have "a < b \<longleftrightarrow> a mod d < b mod d"
    by linarith
  with equal show ?thesis by simp
next
  case greater
  then show ?thesis
    using div_le_mono [of a b d] by (auto simp: not_less [symmetric])
qed

lemma rev_le_bytes_less:
  "a < 256 ^ k \<Longrightarrow> b < 256 ^ k \<Longrightarrow> rev (le_bytes k a) < rev (le_bytes k b) \<longleftrightarrow> a < b"
proof (induction k arbitrary: a b)
  case (Suc k)
  have dv: "a div 256 < 256 ^ k" "b div 256 < 256 ^ k"
    using Suc.prems by (simp_all add: less_mult_imp_div_less mult.commute)
  have eq: "le_bytes k (a div 256) = le_bytes k (b div 256) \<longleftrightarrow> a div 256 = b div 256"
    using dv le_value_bytes [of k "a div 256"] le_value_bytes [of k "b div 256"] by (metis mod_less)
  have "a < b \<longleftrightarrow> a div 256 < b div 256 \<or> a div 256 = b div 256 \<and> a mod 256 < b mod 256"
    by (rule less_div_mod)
  then show ?case
    using Suc.IH [OF dv] by (simp add: less_snoc eq char_less_iff of_char_of)
qed simp

lemma put_big64_less: "put_big64 v < put_big64 w \<longleftrightarrow> v < w"
  using rev_le_bytes_less [OF unat_lt64 unat_lt64, of v w] by (simp add: put_big64_def word_less_nat_alt)

section \<open>Prefix ranges\<close>

lemma le_append_same: "p @ s \<le> p @ t \<longleftrightarrow> s \<le> (t :: string)"
  by (induction p) auto

lemma of_char_le: "of_char c \<le> (255 :: nat)"
  by (rule less_Suc_eq_le [THEN iffD1]) simp

lemma char_eqI: "of_char c = (of_char d :: nat) \<Longrightarrow> c = d"
  by simp

lemma succ_char:
  assumes "c \<noteq> CHR 0xFF"
  shows "of_char (char_of (of_char c + 1 :: nat)) = (of_char c + 1 :: nat)"
proof -
  have "of_char c \<noteq> (255 :: nat)"
    using assms char_eqI [of c "CHR 0xFF"] by auto
  with of_char_le [of c] show ?thesis
    by (simp add: of_char_of)
qed

lemma between_succ:
  assumes "c \<noteq> CHR 0xFF"
  shows "(d < char_of (of_char c + 1 :: nat)) \<longleftrightarrow> d \<le> c"
  using succ_char [OF assms] by (simp add: less_char_def less_eq_char_def less_Suc_eq_le)

lemma single_le: "[c] \<le> x # xs \<longleftrightarrow> c \<le> (x :: 'a::linorder)"
  by (simp add: le_less [of c x])

lemma Cons_between:
  "x # q \<le> y # ys \<and> y # ys < x # r \<longleftrightarrow> x = y \<and> q \<le> ys \<and> ys < (r :: 'a::linorder list)"
  by auto

lemma range_step:
  assumes "\<And>x. x < d \<longleftrightarrow> x \<le> c"
  shows "q @ [c] \<le> k \<and> k < q @ [d :: 'a::linorder] \<longleftrightarrow> prefix (q @ [c]) k"
proof (induction q arbitrary: k)
  case Nil
  show ?case
  proof (cases k)
    case (Cons x xs)
    have "[c] \<le> x # xs \<and> x # xs < [d] \<longleftrightarrow> c \<le> x \<and> x \<le> c"
      unfolding single_le by (simp add: assms)
    also have "\<dots> \<longleftrightarrow> c = x"
      by auto
    finally show ?thesis
      unfolding Cons append_Nil by (simp only: Cons_prefix_Cons Nil_prefix simp_thms)
  qed simp
next
  case (Cons x q)
  show ?case
  proof (cases k)
    case k: (Cons y ys)
    show ?thesis
      unfolding k append_Cons Cons_between Cons_prefix_Cons Cons.IH ..
  qed simp
qed

lemma range_top:
  assumes "\<And>k. r \<le> k \<and> k < e \<longleftrightarrow> prefix r k"
  shows "r @ [CHR 0xFF] \<le> k \<and> k < e \<longleftrightarrow> prefix (r @ [CHR 0xFF]) k"
proof
  assume k: "r @ [CHR 0xFF] \<le> k \<and> k < e"
  have "r \<le> r @ [CHR 0xFF]"
    using le_append_same [of r "[]"] by simp
  with k assms [of k] obtain t where t: "k = r @ t"
    by (metis order_trans prefixE)
  with k have "[CHR 0xFF] \<le> t"
    by (simp add: le_append_same)
  then obtain c u where "t = c # u" "CHR 0xFF \<le> c"
    by (cases t) auto
  moreover from this(2) have "c = CHR 0xFF"
    using of_char_le [of c] by (intro char_eqI) (simp add: less_eq_char_def of_char_of)
  ultimately show "prefix (r @ [CHR 0xFF]) k"
    by (simp add: t)
next
  assume "prefix (r @ [CHR 0xFF]) k"
  then obtain u where u: "k = r @ CHR 0xFF # u"
    by (auto elim: prefixE)
  then have "prefix r k"
    by simp
  with assms [of k] u show "r @ [CHR 0xFF] \<le> k \<and> k < e"
    by (simp add: le_append_same)
qed

declare prefixListEndKey.simps [simp del]

lemma prefix_range_key:
  assumes "\<exists>c \<in> set p. c \<noteq> CHR 0xFF"
  shows "p \<le> k \<and> k < prefixListEndKey p \<longleftrightarrow> prefix p k"
  using assms
proof (induction p arbitrary: k rule: rev_induct)
  case (snoc c q)
  show ?case
  proof (cases "c = CHR 0xFF")
    case True
    with snoc.prems have "\<exists>c \<in> set q. c \<noteq> CHR 0xFF" by auto
    from range_top [OF snoc.IH [OF this], of k] True show ?thesis
      by (simp add: prefixListEndKey.simps [of "q @ [CHR 0xFF]"])
  next
    case False
    with range_step [OF between_succ [OF False], of q k] show ?thesis
      by (simp add: prefixListEndKey.simps [of "q @ [c]"])
  qed
qed simp

text \<open>
  The range of a prefix. For a prefix that does not consist of the byte 0xff only, a key
  starts with the prefix exactly if it lies between the prefix and \<open>prefixListEndKey\<close>.
\<close>

lemma prefixListEndKey_range:
  assumes "\<exists>c \<in> set p. c \<noteq> CHR 0xFF"
  shows "p \<le> k \<and> k < prefixListEndKey p \<longleftrightarrow> prefix p k"
  by (rule prefix_range_key [OF assms])

end
