(* ===== verification/Mem_Kv.thy ===== *)
theory Mem_Kv
  imports Byte_Keys
begin

text \<open>
  The in-memory multi-version key-value store \<^verbatim>\<open>src/src/common/kv/mem/MemKV.h\<close>: every key maps
  committed versions to values (None is a deletion). A commit checks that nothing the transaction
  has read was changed after its read version and then writes all changes at a new version.
\<close>

section \<open>Definitions\<close>

record KeySelector =
  ks_key :: string
  ks_inclusive :: bool

record VersionstampedKV =
  vs_key :: string
  vs_value :: string
  vs_onKey :: bool
  vs_offset :: "32 word"

type_synonym versions = "(int, string option) omap"

record MemKV =
  mem_map :: "(string, versions) omap"
  mem_version :: int

definition memKvDefaultLimit :: nat where
  "memKvDefaultLimit = 25"

text \<open>\<^verbatim>\<open>upper_bound(readVersion)\<close> and one step back.\<close>

definition version_read :: "versions \<Rightarrow> int \<Rightarrow> string option" where
  "version_read vs readVersion =
     (let before = takeWhile (\<lambda>e. fst e \<le> readVersion) vs
      in if before = [] then None else snd (last before))"

definition mem_get :: "MemKV \<Rightarrow> string \<Rightarrow> int \<Rightarrow> string option" where
  "mem_get mem key readVersion =
     (case map_of (mem_map mem) key of None \<Rightarrow> None | Some vs \<Rightarrow> version_read vs readVersion)"

fun range_loop :: "(string, versions) omap \<Rightarrow> nat \<Rightarrow> int \<Rightarrow> (string \<times> string) list \<Rightarrow> (string \<times> string) list \<times> bool" where
  "range_loop [] limit readVersion kvs = (kvs, False)"
| "range_loop ((k, vs) # es) limit readVersion kvs =
     (if length kvs < limit then
        range_loop es limit readVersion
          (case version_read vs readVersion of None \<Rightarrow> kvs | Some v \<Rightarrow> kvs @ [(k, v)])
      else (kvs, True))"

definition mem_getRange ::
  "MemKV \<Rightarrow> KeySelector \<Rightarrow> KeySelector \<Rightarrow> int \<Rightarrow> int \<Rightarrow> (string \<times> string) list \<times> bool" where
  "mem_getRange mem b e limit readVersion =
     (let lim = (if limit < 1 then memKvDefaultLimit else nat limit)
      in if ks_key b > ks_key e \<or> (ks_key b = ks_key e \<and> \<not> (ks_inclusive b \<and> ks_inclusive e)) then ([], False)
         else
           let from_begin = (if ks_inclusive b then lower_bound (ks_key b) (mem_map mem)
                             else upper_bound (ks_key b) (mem_map mem));
               entries = takeWhile (\<lambda>x. if ks_inclusive e then fst x \<le> ks_key e else fst x < ks_key e) from_begin
           in range_loop entries lim readVersion [])"

text \<open>The version stamp is the commit version and a sequence number, both big-endian.\<close>

definition stamp_bytes :: "int \<Rightarrow> 16 word \<Rightarrow> string" where
  "stamp_bytes version seq = rev (le_bytes 8 (nat (version mod 2 ^ 64))) @ rev (le_bytes 2 (unat seq))"

text \<open>
  A stamp that does not fit is a FATAL log. The source adds in 32 bits: where that sum wraps the check passes
  and the copy is out of bounds, which is None as well.
\<close>

definition stamp_into :: "string \<Rightarrow> 32 word \<Rightarrow> string \<Rightarrow> string option" where
  "stamp_into stamp offset str =
     (if unat offset + 10 > length str then None
      else Some (take (unat offset) str @ stamp @ drop (unat offset + 10) str))"

definition put_version :: "string \<Rightarrow> int \<Rightarrow> string option \<Rightarrow> (string, versions) omap \<Rightarrow> (string, versions) omap" where
  "put_version k version x m =
     omap_put k (omap_put version x (case map_of m k of None \<Rightarrow> [] | Some vs \<Rightarrow> vs)) m"

fun apply_stamped ::
  "int \<Rightarrow> 16 word \<Rightarrow> VersionstampedKV list \<Rightarrow> (string, versions) omap \<Rightarrow> (string, versions) omap option" where
  "apply_stamped version seq [] m = Some m"
| "apply_stamped version seq (c # cs) m =
     (let stamp = stamp_bytes version seq
      in if vs_onKey c then
           (case stamp_into stamp (vs_offset c) (vs_key c) of
              None \<Rightarrow> None
            | Some k \<Rightarrow> if map_of m k \<noteq> None then None
                else apply_stamped version (seq + 1) cs (put_version k version (Some (vs_value c)) m))
         else
           (case stamp_into stamp (vs_offset c) (vs_value c) of
              None \<Rightarrow> None
            | Some v \<Rightarrow> apply_stamped version (seq + 1) cs (put_version (vs_key c) version (Some v) m)))"

definition newer :: "versions \<Rightarrow> int \<Rightarrow> bool" where
  "newer vs readVersion \<longleftrightarrow> dropWhile (\<lambda>e. fst e \<le> readVersion) vs \<noteq> []"

definition key_conflict :: "MemKV \<Rightarrow> int \<Rightarrow> string \<Rightarrow> bool" where
  "key_conflict mem readVersion k =
     (case map_of (mem_map mem) k of None \<Rightarrow> False | Some vs \<Rightarrow> newer vs readVersion)"

definition range_conflict :: "MemKV \<Rightarrow> int \<Rightarrow> string \<times> string \<Rightarrow> bool" where
  "range_conflict mem readVersion r =
     list_ex (\<lambda>(k, vs). newer vs readVersion)
       (takeWhile (\<lambda>x. fst x < snd r) (lower_bound (fst r) (mem_map mem)))"

definition put_conflict :: "int \<Rightarrow> string \<Rightarrow> (string, versions) omap \<Rightarrow> (string, versions) omap" where
  "put_conflict version k m =
     put_version k version
       (case map_of m k of None \<Rightarrow> None | Some vs \<Rightarrow> (case rbegin vs of None \<Rightarrow> None | Some (_, x) \<Rightarrow> x)) m"

definition mem_commit ::
  "MemKV \<Rightarrow> int \<Rightarrow> string list \<Rightarrow> (string \<times> string) list \<Rightarrow> (string \<times> string option) list \<Rightarrow>
   VersionstampedKV list \<Rightarrow> string list \<Rightarrow> (int \<times> MemKV) outcome" where
  "mem_commit mem readVersion readKeys readRanges changes stamped writeConflicts =
     (if changes = [] \<and> stamped = [] \<and> writeConflicts = [] then Ret (-1, mem)
      else if readVersion < 0 then Err (Transaction kFailed)
      else if list_ex (key_conflict mem readVersion) readKeys then Err (Transaction kConflict)
      else if list_ex (range_conflict mem readVersion) readRanges then Err (Transaction kConflict)
      else
        let version = mem_version mem + 1
        in case apply_stamped version 0 stamped (mem_map mem) of
             None \<Rightarrow> Crash
           | Some m \<Rightarrow>
               let m1 = fold (\<lambda>(k, x). put_version k version x) changes m;
                   m2 = fold (put_conflict version) writeConflicts m1
               in Ret (version, mem\<lparr>mem_map := m2, mem_version := version\<rparr>))"

definition mem_restore :: "int \<Rightarrow> MemKV \<Rightarrow> MemKV" where
  "mem_restore version mem =
     \<lparr>mem_map = filter (\<lambda>(k, vs). vs \<noteq> [])
        (map (\<lambda>(k, vs). (k, takeWhile (\<lambda>e. fst e < version + 1) vs)) (mem_map mem)),
      mem_version = version\<rparr>"

definition mem_clear :: "MemKV \<Rightarrow> MemKV" where
  "mem_clear mem = \<lparr>mem_map = [], mem_version = 0\<rparr>"

section \<open>Reading a version\<close>

lemma version_read_Nil [simp]: "version_read [] v = None"
  by (simp add: version_read_def)

lemma version_read_Cons:
  "version_read ((w, x) # vs) v =
     (if w \<le> v then (if takeWhile (\<lambda>e. fst e \<le> v) vs = [] then x else version_read vs v) else None)"
  by (simp add: version_read_def Let_def)

lemma version_read_latest:
  assumes "omap_wf vs" and "\<forall>w \<in> fst ` set vs. w \<le> version"
  shows "version_read (omap_put version x vs) v = (if version \<le> v then x else version_read vs v)"
  using assms
proof (induction vs)
  case (Cons e vs)
  obtain w y where e: "e = (w, y)" by fastforce
  have wf: "omap_wf vs" and gt: "\<forall>u \<in> fst ` set vs. w < u" and le: "w \<le> version"
    using Cons.prems by (auto simp: e omap_wf_Cons)
  show ?case
  proof (cases "w = version")
    case True
    with gt Cons.prems(2) have "vs = []"
      by (cases vs) (auto simp: e)
    with True show ?thesis
      by (simp add: e version_read_Cons)
  next
    case False
    with le have lt: "w < version" by simp
    have IH: "version_read (omap_put version x vs) v = (if version \<le> v then x else version_read vs v)"
      using Cons.IH [OF wf] Cons.prems(2) by simp
    have "takeWhile (\<lambda>e. fst e \<le> v) (omap_put version x vs) = [] \<longleftrightarrow>
        (takeWhile (\<lambda>e. fst e \<le> v) vs = [] \<and> \<not> version \<le> v)"
    proof (cases vs)
      case (Cons f fs)
      then have "fst f \<le> version"
        using Cons.prems(2) by (simp add: e)
      then show ?thesis
        unfolding Cons by (cases f) (auto split: if_splits)
    qed simp
    with lt IH show ?thesis
      by (auto simp: e version_read_Cons)
  qed
qed (simp add: version_read_Cons)

lemma version_read_not_newer:
  assumes "\<not> newer vs r" and "r \<le> v"
  shows "version_read vs v = version_read vs r"
proof -
  have "\<forall>e \<in> set vs. fst e \<le> r"
    using assms(1) by (simp add: newer_def)
  then have tw: "takeWhile (\<lambda>e. fst e \<le> r) vs = vs" "takeWhile (\<lambda>e. fst e \<le> v) vs = vs"
    using assms(2) by (auto simp: takeWhile_eq_all_conv)
  show ?thesis
    unfolding version_read_def tw ..
qed

section \<open>Well-formed stores\<close>

definition map_wf :: "int \<Rightarrow> (string, versions) omap \<Rightarrow> bool" where
  "map_wf version m \<longleftrightarrow> omap_wf m \<and>
     (\<forall>k vs. map_of m k = Some vs \<longrightarrow> omap_wf vs \<and> (\<forall>w \<in> fst ` set vs. w \<le> version))"

definition mem_wf :: "MemKV \<Rightarrow> bool" where
  "mem_wf mem \<longleftrightarrow> map_wf (mem_version mem) (mem_map mem)"

definition map_read :: "(string, versions) omap \<Rightarrow> string \<Rightarrow> int \<Rightarrow> string option" where
  "map_read m k v = (case map_of m k of None \<Rightarrow> None | Some vs \<Rightarrow> version_read vs v)"

lemma mem_get_map_read: "mem_get mem k v = map_read (mem_map mem) k v"
  by (simp add: mem_get_def map_read_def)

lemma map_wf_mono: "map_wf w m \<Longrightarrow> w \<le> v \<Longrightarrow> map_wf v m"
  unfolding map_wf_def by (metis order_trans)

lemma mem_wf_next: "mem_wf mem \<Longrightarrow> map_wf (mem_version mem + 1) (mem_map mem)"
  unfolding mem_wf_def by (erule map_wf_mono) linarith

lemma map_wf_versions:
  assumes "map_wf version m"
  shows "omap_wf (case map_of m k of None \<Rightarrow> [] | Some vs \<Rightarrow> vs)"
    and "\<forall>w \<in> fst ` set (case map_of m k of None \<Rightarrow> [] | Some vs \<Rightarrow> vs). w \<le> version"
proof -
  have "omap_wf vs \<and> (\<forall>w \<in> fst ` set vs. w \<le> version)" if "map_of m k = Some vs" for vs
    using assms that unfolding map_wf_def by blast
  then show "omap_wf (case map_of m k of None \<Rightarrow> [] | Some vs \<Rightarrow> vs)"
    and "\<forall>w \<in> fst ` set (case map_of m k of None \<Rightarrow> [] | Some vs \<Rightarrow> vs). w \<le> version"
    by (cases "map_of m k"; simp)+
qed

lemma put_version_wf:
  assumes "map_wf version m"
  shows "map_wf version (put_version k version x m)"
proof -
  let ?vs = "case map_of m k of None \<Rightarrow> [] | Some vs \<Rightarrow> vs"
  have "omap_wf ?vs" "\<forall>w \<in> fst ` set ?vs. w \<le> version"
    by (rule map_wf_versions [OF assms])+
  then have new: "omap_wf (omap_put version x ?vs)" "\<forall>w \<in> fst ` set (omap_put version x ?vs). w \<le> version"
    by (simp_all only: omap_wf_put keys_omap_put) simp
  have old: "omap_wf m" "\<And>k' vs. map_of m k' = Some vs \<Longrightarrow> omap_wf vs \<and> (\<forall>w \<in> fst ` set vs. w \<le> version)"
    using assms unfolding map_wf_def by blast+
  show ?thesis
    unfolding map_wf_def put_version_def
  proof (intro conjI allI impI)
    fix k' vs
    assume "map_of (omap_put k (omap_put version x ?vs) m) k' = Some vs"
    then have "vs = omap_put version x ?vs \<or> map_of m k' = Some vs"
      by (simp split: if_splits)
    with new old show "omap_wf vs" and "\<forall>w \<in> fst ` set vs. w \<le> version"
      by blast+
  qed (rule omap_wf_put [OF old(1)])
qed

lemma map_read_put_version:
  assumes "map_wf version m"
  shows "map_read (put_version k version x m) k' v =
    (if k' = k \<and> version \<le> v then x else map_read m k' v)"
proof -
  let ?vs = "case map_of m k of None \<Rightarrow> [] | Some vs \<Rightarrow> vs"
  have "omap_wf ?vs" "\<forall>w \<in> fst ` set ?vs. w \<le> version"
    by (rule map_wf_versions [OF assms])+
  then have "version_read (omap_put version x ?vs) v = (if version \<le> v then x else version_read ?vs v)"
    by (rule version_read_latest)
  then show ?thesis
    by (auto simp: map_read_def put_version_def split: option.splits)
qed

lemma fold_put_version_wf:
  "map_wf version m \<Longrightarrow> map_wf version (fold (\<lambda>(k, x). put_version k version x) cs m)"
  by (induction cs arbitrary: m) (auto simp: put_version_wf)

lemma map_read_fold_put_version:
  assumes "map_wf version m" and "distinct (map fst cs)"
  shows "map_read (fold (\<lambda>(k, x). put_version k version x) cs m) k v =
    (case map_of cs k of Some x \<Rightarrow> if version \<le> v then x else map_read m k v | None \<Rightarrow> map_read m k v)"
  using assms
proof (induction cs arbitrary: m)
  case (Cons c cs)
  obtain k1 x1 where c: "c = (k1, x1)" by fastforce
  have "map_of cs k1 = None"
    using Cons.prems(2) by (simp add: c map_of_eq_None_iff)
  then show ?case
    using Cons.IH [OF put_version_wf [OF Cons.prems(1)], of k1 x1] Cons.prems
    by (auto simp: c map_read_put_version split: option.splits)
qed simp

section \<open>Commits\<close>

text \<open>Later states of a store: the version grows and no committed version changes.\<close>

definition mem_extends :: "MemKV \<Rightarrow> MemKV \<Rightarrow> bool" where
  "mem_extends mem mem' \<longleftrightarrow> mem_version mem \<le> mem_version mem' \<and>
     (\<forall>k v. v \<le> mem_version mem \<longrightarrow> mem_get mem' k v = mem_get mem k v)"

lemma mem_extends_refl: "mem_extends mem mem"
  by (simp add: mem_extends_def)

lemma mem_extends_trans: "mem_extends a b \<Longrightarrow> mem_extends b c \<Longrightarrow> mem_extends a c"
  by (simp add: mem_extends_def)

lemma apply_stamped_ok:
  assumes "map_wf version m" and "apply_stamped version seq cs m = Some m'"
  shows "map_wf version m' \<and> (\<forall>k v. v < version \<longrightarrow> map_read m' k v = map_read m k v)"
  using assms
proof (induction cs arbitrary: seq m)
  case (Cons c cs)
  then obtain k x where step: "apply_stamped version (seq + 1) cs (put_version k version x m) = Some m'"
    by (auto simp: Let_def split: if_splits option.splits)
  from Cons.IH [OF put_version_wf [OF Cons.prems(1)] step] Cons.prems(1) show ?case
    by (simp add: map_read_put_version)
qed simp

lemma put_conflict_ok:
  assumes "map_wf version m"
  shows "map_wf version (put_conflict version k m)"
    and "v < version \<Longrightarrow> map_read (put_conflict version k m) k' v = map_read m k' v"
  using assms by (simp_all add: put_conflict_def put_version_wf map_read_put_version)

lemma fold_put_conflict_ok:
  "map_wf version m \<Longrightarrow> map_wf version (fold (put_conflict version) ks m) \<and>
     (\<forall>k v. v < version \<longrightarrow> map_read (fold (put_conflict version) ks m) k v = map_read m k v)"
  by (induction ks arbitrary: m) (simp_all add: put_conflict_ok)

lemma map_read_fold_old:
  assumes "map_wf version m" and "v < version"
  shows "map_read (fold (\<lambda>(k, x). put_version k version x) cs m) k v = map_read m k v"
  using assms(1)
proof (induction cs arbitrary: m)
  case (Cons c cs)
  obtain k1 x1 where c: "c = (k1, x1)" by fastforce
  show ?case
    using Cons.IH [OF put_version_wf [OF Cons.prems], of k1 x1] Cons.prems assms(2)
    by (simp add: c map_read_put_version)
qed simp

lemma mem_commit_extends:
  assumes "mem_wf mem" and "mem_commit mem rv rks rrs changes stamped wcs = Ret (ver, mem')"
  shows "mem_wf mem' \<and> mem_extends mem mem'"
proof (cases "changes = [] \<and> stamped = [] \<and> wcs = []")
  case True
  with assms show ?thesis
    by (simp add: mem_commit_def mem_extends_refl)
next
  case False
  let ?v = "mem_version mem + 1"
  have wf: "map_wf ?v (mem_map mem)"
    by (rule mem_wf_next [OF assms(1)])
  from False assms(2) obtain m where m: "apply_stamped ?v 0 stamped (mem_map mem) = Some m"
    and mem': "mem' = mem\<lparr>mem_map := fold (put_conflict ?v) wcs
      (fold (\<lambda>(k, x). put_version k ?v x) changes m), mem_version := ?v\<rparr>"
    by (auto simp: mem_commit_def Let_def split: if_splits option.splits)
  from apply_stamped_ok [OF wf m] have m_ok: "map_wf ?v m" "\<And>k v. v < ?v \<Longrightarrow> map_read m k v = map_read (mem_map mem) k v"
    by blast+
  let ?m1 = "fold (\<lambda>(k, x). put_version k ?v x) changes m"
  have m1: "map_wf ?v ?m1"
    by (rule fold_put_version_wf [OF m_ok(1)])
  show ?thesis
    using fold_put_conflict_ok [OF m1, of wcs] map_read_fold_old [OF m_ok(1)] m_ok(2)
    by (simp add: mem' mem_wf_def mem_extends_def mem_get_map_read)
qed

lemma takeWhile_sorted:
  assumes "omap_wf m" and "\<And>a b. a < b \<Longrightarrow> P b \<Longrightarrow> P a"
  shows "takeWhile (\<lambda>e. P (fst e)) m = filter (\<lambda>e. P (fst e)) m"
  using assms(1)
proof (induction m)
  case (Cons e m)
  have gt: "\<forall>x \<in> set m. fst e < fst x" and wf: "omap_wf m"
    using Cons.prems by (cases e, auto simp: omap_wf_Cons)+
  show ?case
  proof (cases "P (fst e)")
    case False
    with gt assms(2) have "filter (\<lambda>e. P (fst e)) m = []"
      unfolding filter_empty_conv by blast
    with False show ?thesis by simp
  qed (use Cons.IH [OF wf] in simp)
qed simp

lemma range_conflict_iff:
  assumes "omap_wf (mem_map mem)"
  shows "range_conflict mem rv r \<longleftrightarrow> (\<exists>k. fst r \<le> k \<and> k < snd r \<and> key_conflict mem rv k)"
proof -
  have eq: "takeWhile (\<lambda>x. fst x < snd r) (lower_bound (fst r) (mem_map mem)) =
      filter (\<lambda>x. fst x < snd r) (filter (\<lambda>x. fst r \<le> fst x) (mem_map mem))"
    unfolding lower_bound_filter [OF assms]
    by (rule takeWhile_sorted) (use assms in auto)
  have "range_conflict mem rv r \<longleftrightarrow>
      (\<exists>k vs. (k, vs) \<in> set (mem_map mem) \<and> fst r \<le> k \<and> k < snd r \<and> newer vs rv)"
    unfolding range_conflict_def eq list_ex_iff by auto
  also have "\<dots> \<longleftrightarrow> (\<exists>k vs. map_of (mem_map mem) k = Some vs \<and> fst r \<le> k \<and> k < snd r \<and> newer vs rv)"
    by (simp only: omap_wf_map_of [OF assms])
  also have "\<dots> \<longleftrightarrow> (\<exists>k. fst r \<le> k \<and> k < snd r \<and> key_conflict mem rv k)"
    by (auto simp: key_conflict_def split: option.splits)
  finally show ?thesis .
qed

lemma no_key_conflict:
  assumes "\<not> key_conflict mem rv k" and "rv \<le> v"
  shows "mem_get mem k v = mem_get mem k rv"
proof (cases "map_of (mem_map mem) k")
  case (Some vs)
  with assms(1) have "\<not> newer vs rv"
    by (simp add: key_conflict_def)
  from version_read_not_newer [OF this assms(2)] Some show ?thesis
    by (simp add: mem_get_def)
qed (simp add: mem_get_def)

lemma mem_commit_writes:
  assumes "mem_wf mem" and "distinct (map fst changes)" and "changes \<noteq> []"
    and c: "mem_commit mem rv rks rrs changes [] [] = Ret (ver, mem')"
  shows "ver = mem_version mem + 1" and "mem_version mem' = ver"
    and "mem_get mem' k ver = (case map_of changes k of Some x \<Rightarrow> x | None \<Rightarrow> mem_get mem k ver)"
    and "k \<in> set rks \<Longrightarrow> \<not> key_conflict mem rv k"
    and "r \<in> set rrs \<Longrightarrow> fst r \<le> k \<Longrightarrow> k < snd r \<Longrightarrow> \<not> key_conflict mem rv k"
proof -
  let ?v = "mem_version mem + 1"
  have wf: "map_wf ?v (mem_map mem)" and owf: "omap_wf (mem_map mem)"
    using mem_wf_next [OF assms(1)] by (simp_all add: map_wf_def)
  have mem': "mem' = mem\<lparr>mem_map := fold (\<lambda>(k, x). put_version k ?v x) changes (mem_map mem), mem_version := ?v\<rparr>"
    and ver: "ver = ?v" and no: "\<not> list_ex (key_conflict mem rv) rks" "\<not> list_ex (range_conflict mem rv) rrs"
    using c assms(3) by (auto simp: mem_commit_def Let_def split: if_splits)
  show "ver = mem_version mem + 1" "mem_version mem' = ver"
    by (simp_all add: ver mem')
  show "mem_get mem' k ver = (case map_of changes k of Some x \<Rightarrow> x | None \<Rightarrow> mem_get mem k ver)"
    by (simp add: mem' ver mem_get_map_read map_read_fold_put_version [OF wf assms(2)] split: option.splits)
  show "\<not> key_conflict mem rv k" if "k \<in> set rks"
    using no(1) that by (auto simp: list_ex_iff)
  show "\<not> key_conflict mem rv k" if "r \<in> set rrs" "fst r \<le> k" "k < snd r"
    using no(2) that range_conflict_iff [OF owf] by (auto simp: list_ex_iff)
qed

section \<open>Ranges\<close>

text \<open>The keys and values that are visible at a version, in key order.\<close>

definition live :: "int \<Rightarrow> (string, versions) omap \<Rightarrow> (string, string) omap" where
  "live v es = List.map_filter (\<lambda>(k, vs). map_option (Pair k) (version_read vs v)) es"

definition mem_contents :: "MemKV \<Rightarrow> int \<Rightarrow> (string, string) omap" where
  "mem_contents mem v = live v (mem_map mem)"

definition in_range :: "KeySelector \<Rightarrow> KeySelector \<Rightarrow> string \<Rightarrow> bool" where
  "in_range b e k \<longleftrightarrow> (if ks_inclusive b then ks_key b \<le> k else ks_key b < k) \<and>
     (if ks_inclusive e then k \<le> ks_key e else k < ks_key e)"

lemma live_simps [simp]:
  "live v [] = []"
  "live v ((k, vs) # es) = (case version_read vs v of None \<Rightarrow> live v es | Some x \<Rightarrow> (k, x) # live v es)"
  by (simp_all add: live_def map_filter_simps split: option.splits)

lemma keys_live: "(k, x) \<in> set (live v es) \<Longrightarrow> \<exists>vs. (k, vs) \<in> set es"
  by (auto simp: live_def List.map_filter_def)

lemma omap_wf_live: "omap_wf es \<Longrightarrow> omap_wf (live v es)"
proof (induction es)
  case (Cons e es)
  obtain k vs where e: "e = (k, vs)" by fastforce
  with Cons have "omap_wf (live v es)" "\<forall>k' \<in> fst ` set (live v es). k < k'"
    using keys_live [of _ _ v es] by (fastforce simp: omap_wf_Cons)+
  then show ?case
    by (simp add: e omap_wf_Cons split: option.split)
qed simp

lemma map_of_live:
  "distinct (map fst es) \<Longrightarrow> map_of (live v es) k = (case map_of es k of None \<Rightarrow> None | Some vs \<Rightarrow> version_read vs v)"
proof (induction es)
  case (Cons e es)
  obtain k' vs where e: "e = (k', vs)" by fastforce
  have "map_of (live v es) k' = None"
    using Cons.prems keys_live [of k' _ v es] by (force simp: e map_of_eq_None_iff)
  with Cons show ?case
    by (auto simp: e split: option.splits)
qed simp

lemma live_filter: "live v (filter (\<lambda>e. P (fst e)) es) = filter (\<lambda>e. P (fst e)) (live v es)"
  by (induction es) (auto split: option.splits)

lemma mem_contents_wf: "mem_wf mem \<Longrightarrow> omap_wf (mem_contents mem v)"
  by (simp add: mem_contents_def omap_wf_live mem_wf_def map_wf_def)

lemma map_of_mem_contents: "mem_wf mem \<Longrightarrow> map_of (mem_contents mem v) k = mem_get mem k v"
  by (simp add: mem_contents_def map_of_live omap_wf_distinct mem_wf_def map_wf_def mem_get_def)

text \<open>A page of a result list: its first entries up to a limit, with a flag that may say
  that there is more only when the limit is reached, and must say so when entries are cut off.\<close>

definition is_page :: "nat \<Rightarrow> 'a list \<Rightarrow> 'a list \<times> bool \<Rightarrow> bool" where
  "is_page lim r p \<longleftrightarrow> fst p = take lim r \<and> (if snd p then lim \<le> length r else length r \<le> lim)"

definition range_limit :: "int \<Rightarrow> nat" where
  "range_limit limit = (if limit < 1 then memKvDefaultLimit else nat limit)"

lemma range_loop_live:
  assumes "length kvs \<le> limit"
  shows "is_page limit (kvs @ live v es) (range_loop es limit v kvs)"
  using assms
proof (induction es arbitrary: kvs)
  case (Cons e es)
  obtain k vs where e: "e = (k, vs)" by fastforce
  show ?case
  proof (cases "length kvs < limit")
    case True
    let ?kvs = "case version_read vs v of None \<Rightarrow> kvs | Some x \<Rightarrow> kvs @ [(k, x)]"
    have "length ?kvs \<le> limit"
      using True by (simp split: option.split)
    from Cons.IH [OF this] True show ?thesis
      by (simp add: e split: option.splits)
  next
    case False
    with Cons.prems show ?thesis by (simp add: e is_page_def)
  qed
qed (simp add: is_page_def)

lemma mem_getRange_page:
  assumes "mem_wf mem"
  shows "is_page (range_limit limit) (filter (\<lambda>x. in_range b e (fst x)) (mem_contents mem v))
    (mem_getRange mem b e limit v)"
proof (cases "ks_key b > ks_key e \<or> (ks_key b = ks_key e \<and> \<not> (ks_inclusive b \<and> ks_inclusive e))")
  case True
  then have "\<not> in_range b e k" for k
    by (auto simp: in_range_def)
  with True show ?thesis
    by (simp add: mem_getRange_def Let_def is_page_def)
next
  case False
  let ?m = "mem_map mem"
  have wf: "omap_wf ?m"
    using assms(1) by (simp add: mem_wf_def map_wf_def)
  let ?b = "\<lambda>k. if ks_inclusive b then ks_key b \<le> k else ks_key b < k"
  let ?e = "\<lambda>k. if ks_inclusive e then k \<le> ks_key e else k < ks_key e"
  have "(if ks_inclusive b then lower_bound (ks_key b) ?m else upper_bound (ks_key b) ?m) = filter (\<lambda>x. ?b (fst x)) ?m"
    by (simp add: lower_bound_filter [OF wf] upper_bound_filter [OF wf])
  moreover have "takeWhile (\<lambda>x. ?e (fst x)) (filter (\<lambda>x. ?b (fst x)) ?m) =
      filter (\<lambda>x. ?e (fst x)) (filter (\<lambda>x. ?b (fst x)) ?m)"
    by (rule takeWhile_sorted) (use wf in auto)
  moreover have "filter (\<lambda>x. ?e (fst x)) (filter (\<lambda>x. ?b (fst x)) ?m) = filter (\<lambda>x. in_range b e (fst x)) ?m"
    by (auto simp: in_range_def intro: filter_cong)
  ultimately have "mem_getRange mem b e limit v = range_loop (filter (\<lambda>x. in_range b e (fst x)) ?m) (range_limit limit) v []"
    using False by (simp only: mem_getRange_def range_limit_def Let_def if_False)
  then show ?thesis
    using range_loop_live [of "[]" "range_limit limit" v "filter (\<lambda>x. in_range b e (fst x)) ?m"]
    by (simp add: mem_contents_def live_filter [of v "in_range b e", symmetric])
qed

section \<open>Optimistic concurrency control\<close>

lemma mem_get_current:
  assumes "mem_wf mem" and "mem_version mem \<le> v"
  shows "mem_get mem k v = mem_get mem k (mem_version mem)"
proof (rule no_key_conflict [OF _ assms(2)])
  have "\<forall>w \<in> fst ` set vs. w \<le> mem_version mem" if "map_of (mem_map mem) k = Some vs" for vs
    using assms(1) that unfolding mem_wf_def map_wf_def by blast
  then show "\<not> key_conflict mem (mem_version mem) k"
    by (simp add: key_conflict_def newer_def split: option.split)
qed

text \<open>A write conflict stores the newest value once more.\<close>

lemma map_read_put_conflict:
  assumes "map_wf version m"
  shows "map_read (put_conflict version k m) k' version = map_read m k' version"
proof -
  have "version_read vs version = (case rbegin vs of None \<Rightarrow> None | Some (_, x) \<Rightarrow> x)" if "map_of m k = Some vs" for vs
  proof -
    have all: "takeWhile (\<lambda>e. fst e \<le> version) vs = vs"
      using assms that unfolding map_wf_def by (auto simp: takeWhile_eq_all_conv)
    show ?thesis unfolding version_read_def rbegin_def Let_def all by (simp split: prod.split)
  qed
  then have "put_conflict version k m = put_version k version (map_read m k version) m"
    by (simp add: put_conflict_def map_read_def split: option.split)
  then show ?thesis by (simp add: map_read_put_version [OF assms])
qed

lemma map_read_fold_put_conflict:
  "map_wf version m \<Longrightarrow> map_read (fold (put_conflict version) ks m) k version = map_read m k version"
  by (induction ks arbitrary: m) (simp_all add: put_conflict_ok map_read_put_conflict)

text \<open>
  C26: a commit of \<open>MemKV\<close> that succeeds is serialisable at its commit version. A commit
  without changes, stamped changes and write conflicts returns the version -1 and checks and changes
  nothing. Any other one takes the next version: every key the transaction has read, alone or in a
  range, still has the value it had at the read version; the new version holds the changes on top of the
  stamped changes on top of the last version, and write conflicts do not alter a value; and no earlier
  version is altered.
\<close>

theorem mem_commit_serialises:
  assumes "mem_wf mem" and "distinct (map fst changes)"
    and c: "mem_commit mem rv rks rrs changes stamped wcs = Ret (ver, mem')" and "rv \<le> mem_version mem"
  shows "if changes = [] \<and> stamped = [] \<and> wcs = [] then ver = -1 \<and> mem' = mem
    else mem_wf mem' \<and> ver = mem_version mem + 1 \<and> mem_version mem' = ver \<and>
      (\<forall>k. k \<in> set rks \<or> (\<exists>r \<in> set rrs. fst r \<le> k \<and> k < snd r) \<longrightarrow>
         mem_get mem k (mem_version mem) = mem_get mem k rv) \<and>
      (\<exists>m. apply_stamped ver 0 stamped (mem_map mem) = Some m \<and>
         (\<forall>k. mem_get mem' k ver = (case map_of changes k of Some x \<Rightarrow> x | None \<Rightarrow> map_read m k ver))) \<and>
      (\<forall>k v. v \<le> mem_version mem \<longrightarrow> mem_get mem' k v = mem_get mem k v)"
proof (cases "changes = [] \<and> stamped = [] \<and> wcs = []")
  case True
  then show ?thesis using c by (simp add: mem_commit_def)
next
  case False
  let ?v = "mem_version mem + 1"
  have owf: "omap_wf (mem_map mem)" using mem_wf_next [OF assms(1)] by (simp add: map_wf_def)
  note c' = c [unfolded mem_commit_def if_not_P [OF False]]
  have no: "\<not> rv < 0" "\<not> list_ex (key_conflict mem rv) rks" "\<not> list_ex (range_conflict mem rv) rrs"
    using c' by (simp_all split: if_splits)
  note c'' = c' [unfolded if_not_P [OF no(1)] if_not_P [OF no(2)] if_not_P [OF no(3)] Let_def]
  obtain m where m: "apply_stamped ?v 0 stamped (mem_map mem) = Some m"
    using c'' by (cases "apply_stamped ?v 0 stamped (mem_map mem)") simp_all
  have ver: "ver = ?v" and mem': "mem' = mem\<lparr>mem_map := fold (put_conflict ?v) wcs
      (fold (\<lambda>(k, x). put_version k ?v x) changes m), mem_version := ?v\<rparr>"
    using c'' unfolding m by auto
  have wf: "map_wf ?v m" using apply_stamped_ok [OF mem_wf_next [OF assms(1)] m] by simp
  have new: "mem_get mem' k ver = (case map_of changes k of Some x \<Rightarrow> x | None \<Rightarrow> map_read m k ver)" for k
    using map_read_fold_put_conflict [OF fold_put_version_wf [OF wf]] map_read_fold_put_version [OF wf assms(2)]
    by (simp add: mem' ver mem_get_map_read split: option.split)
  have "\<not> key_conflict mem rv k" if "k \<in> set rks \<or> (\<exists>r \<in> set rrs. fst r \<le> k \<and> k < snd r)" for k
    using that no(2,3) range_conflict_iff [OF owf] by (auto simp: list_ex_iff)
  then have reads: "\<forall>k. k \<in> set rks \<or> (\<exists>r \<in> set rrs. fst r \<le> k \<and> k < snd r) \<longrightarrow>
      mem_get mem k (mem_version mem) = mem_get mem k rv"
    using no_key_conflict [OF _ assms(4)] by blast
  have ext: "mem_wf mem'" "\<forall>k v. v \<le> mem_version mem \<longrightarrow> mem_get mem' k v = mem_get mem k v"
    using mem_commit_extends [OF assms(1) c] by (simp_all add: mem_extends_def)
  have stamps: "\<exists>m. apply_stamped ver 0 stamped (mem_map mem) = Some m \<and>
      (\<forall>k. mem_get mem' k ver = (case map_of changes k of Some x \<Rightarrow> x | None \<Rightarrow> map_read m k ver))"
    by (rule exI [of _ m]) (use m new ver in simp)
  show ?thesis
    unfolding if_not_P [OF False] by (intro conjI ext reads stamps ver) (simp add: mem' ver)
qed

definition sample_mem :: MemKV where
  "sample_mem = \<lparr>mem_map = [(''a'', [(1, Some ''x'')]), (''c'', [(1, Some ''y''), (2, None)])], mem_version = 2\<rparr>"

lemma sample_mem_wf: "mem_wf sample_mem"
  by (auto simp: mem_wf_def map_wf_def sample_mem_def omap_wf_def)

theorem mem_commit_serialises_witness:
  "\<exists>mem'. mem_commit sample_mem 1 [''a''] [(''d'', ''e'')] [(''a'', Some ''z'')] [] [] = Ret (3, mem') \<and>
     mem_get mem' ''a'' 3 = Some ''z'' \<and> mem_get mem' ''a'' 2 = Some ''x''"
proof -
  have "\<not> key_conflict sample_mem 1 ''a''" "\<not> range_conflict sample_mem 1 (''d'', ''e'')"
    by code_simp+
  then obtain mem' where c: "mem_commit sample_mem 1 [''a''] [(''d'', ''e'')] [(''a'', Some ''z'')] [] [] = Ret (3, mem')"
    by (simp add: mem_commit_def sample_mem_def)
  have s: "mem_version sample_mem = 2" "mem_get sample_mem ''a'' 2 = Some ''x''"
    by code_simp+
  have "mem_get mem' ''a'' 3 = Some ''z'' \<and> mem_get mem' ''a'' 2 = Some ''x''"
    using mem_commit_serialises [OF sample_mem_wf _ c] by (auto simp: s)
  with c show ?thesis by blast
qed

end
