(* ===== verification/Mem_Transaction.thy ===== *)
theory Mem_Transaction
  imports Mem_Kv
begin

text \<open>
  The transactions over the in-memory store, \<^verbatim>\<open>src/src/common/kv/mem/MemTransaction.h\<close>: reads at a
  read version with the transaction's own changes on top, the sets of keys and ranges it has read,
  and the commit. The store is an argument of every operation that reads it; a fault that the fault
  injection returns is an argument of the operations that have an injection point.

  The last sections run several transactions interleaved on one store and show that the committed
  ones are serialisable.
\<close>

section \<open>Definitions\<close>

type_synonym changes = "(string, string option) omap"
type_synonym kvs = "(string \<times> string) list"

record MemTransaction =
  tx_canceled :: bool
  tx_readVersion :: int
  tx_commitVersion :: int
  tx_readKeys :: "string list"
  tx_readRanges :: "(string \<times> string) list"
  tx_changes :: changes
  tx_versionstamped :: "VersionstampedKV list"
  tx_writeConflicts :: "string list"

definition MemTransaction_of :: "MemKV \<Rightarrow> MemTransaction" where
  "MemTransaction_of mem = \<lparr>tx_canceled = False, tx_readVersion = mem_version mem, tx_commitVersion = -1,
     tx_readKeys = [], tx_readRanges = [], tx_changes = [], tx_versionstamped = [], tx_writeConflicts = []\<rparr>"

definition tx_cancel :: "MemTransaction \<Rightarrow> MemTransaction" where
  "tx_cancel t = t\<lparr>tx_canceled := True\<rparr>"

definition tx_reset :: "MemTransaction \<Rightarrow> MemTransaction" where
  "tx_reset t = t\<lparr>tx_readVersion := -1, tx_commitVersion := -1, tx_canceled := False, tx_readKeys := [],
     tx_readRanges := [], tx_changes := [], tx_versionstamped := [], tx_writeConflicts := []\<rparr>"

definition tx_setReadVersion :: "int \<Rightarrow> MemTransaction \<Rightarrow> MemTransaction" where
  "tx_setReadVersion version t = (if version \<ge> 0 then t\<lparr>tx_readVersion := version\<rparr> else t)"

text \<open>\<^verbatim>\<open>readVersion()\<close> fixes the read version when there is none yet; its value is the field afterwards.\<close>

definition fix_readVersion :: "MemKV \<Rightarrow> MemTransaction \<Rightarrow> MemTransaction" where
  "fix_readVersion mem t = (if tx_readVersion t < 0 then t\<lparr>tx_readVersion := mem_version mem\<rparr> else t)"

definition tx_addReadConflict :: "string \<Rightarrow> MemTransaction \<Rightarrow> MemTransaction result" where
  "tx_addReadConflict key t =
     (if tx_canceled t then Inl (Transaction kCanceled)
      else if map_of (tx_changes t) key \<noteq> None then Inr t
      else Inr (t\<lparr>tx_readKeys := List.insert key (tx_readKeys t)\<rparr>))"

definition tx_addReadConflictRange :: "string \<Rightarrow> string \<Rightarrow> MemTransaction \<Rightarrow> MemTransaction result" where
  "tx_addReadConflictRange b e t =
     (if tx_canceled t then Inl (Transaction kCanceled)
      else Inr (t\<lparr>tx_readRanges := tx_readRanges t @ [(b, e)]\<rparr>))"

definition tx_set :: "string \<Rightarrow> string \<Rightarrow> MemTransaction \<Rightarrow> MemTransaction result" where
  "tx_set key val t =
     (if tx_canceled t then Inl (Transaction kCanceled)
      else Inr (t\<lparr>tx_changes := omap_put key (Some val) (tx_changes t)\<rparr>))"

definition tx_clear :: "string \<Rightarrow> MemTransaction \<Rightarrow> MemTransaction result" where
  "tx_clear key t =
     (if tx_canceled t then Inl (Transaction kCanceled)
      else Inr (t\<lparr>tx_changes := omap_put key None (tx_changes t)\<rparr>))"

definition tx_setVersionstampedKey :: "string \<Rightarrow> 32 word \<Rightarrow> string \<Rightarrow> MemTransaction \<Rightarrow> MemTransaction result" where
  "tx_setVersionstampedKey key offset val t =
     (if tx_canceled t then Inl (Transaction kCanceled)
      else if unat offset + 10 > length key then Inl (Common kInvalidArg)
      else Inr (t\<lparr>tx_versionstamped := tx_versionstamped t @
        [\<lparr>vs_key = key, vs_value = val, vs_onKey = True, vs_offset = offset\<rparr>]\<rparr>))"

definition tx_setVersionstampedValue :: "string \<Rightarrow> string \<Rightarrow> 32 word \<Rightarrow> MemTransaction \<Rightarrow> MemTransaction result" where
  "tx_setVersionstampedValue key val offset t =
     (if tx_canceled t then Inl (Transaction kCanceled)
      else if unat offset + 10 > length val then Inl (Common kInvalidArg)
      else Inr (t\<lparr>tx_versionstamped := tx_versionstamped t @
        [\<lparr>vs_key = key, vs_value = val, vs_onKey = False, vs_offset = offset\<rparr>]\<rparr>))"

definition tx_get :: "MemKV \<Rightarrow> bool \<Rightarrow> string \<Rightarrow> MemTransaction \<Rightarrow> string option outcome \<times> MemTransaction" where
  "tx_get mem snapshot key t =
     (if tx_canceled t then (Err (Transaction kCanceled), t)
      else case map_of (tx_changes t) key of
        Some x \<Rightarrow> (Ret x, t)
      | None \<Rightarrow>
          let t1 = (if snapshot then t else t\<lparr>tx_readKeys := List.insert key (tx_readKeys t)\<rparr>);
              t2 = fix_readVersion mem t1
          in (Ret (mem_get mem key (tx_readVersion t2)), t2))"

text \<open>
  The merge of the stored pairs with the changes. The three loops of the code are one recursion: the
  second and the third are its first two equations. A change ends the merge when it is past the end
  selector or, when the store has more, past the last stored pair.
\<close>

definition pushChange :: "string \<times> string option \<Rightarrow> kvs" where
  "pushChange c = (case snd c of None \<Rightarrow> [] | Some v \<Rightarrow> [(fst c, v)])"

fun merge_changes :: "kvs \<Rightarrow> changes \<Rightarrow> kvs" where
  "merge_changes [] cs = concat (map pushChange cs)"
| "merge_changes os [] = os"
| "merge_changes (x # os) (c # cs) =
     (if fst x < fst c then x # merge_changes os (c # cs)
      else if fst x > fst c then pushChange c @ merge_changes (x # os) cs
      else pushChange c @ merge_changes os cs)"

definition changeEnded :: "KeySelector \<Rightarrow> kvs \<times> bool \<Rightarrow> string \<Rightarrow> bool" where
  "changeEnded e origin k \<longleftrightarrow>
     (if ks_inclusive e then k > ks_key e else k \<ge> ks_key e) \<or>
     (snd origin \<and> k > fst (last (fst origin)))"

definition merged_range :: "changes \<Rightarrow> KeySelector \<Rightarrow> KeySelector \<Rightarrow> kvs \<times> bool \<Rightarrow> kvs" where
  "merged_range ch b e origin =
     (let from_begin = lower_bound (ks_key b) ch;
          changeIt = (if from_begin \<noteq> [] \<and> \<not> ks_inclusive b then tl from_begin else from_begin)
      in if changeIt \<noteq> [] then merge_changes (fst origin) (takeWhile (\<lambda>c. \<not> changeEnded e origin (fst c)) changeIt)
         else fst origin)"

definition tx_getRange ::
  "MemKV \<Rightarrow> bool \<Rightarrow> KeySelector \<Rightarrow> KeySelector \<Rightarrow> int \<Rightarrow> MemTransaction \<Rightarrow> (kvs \<times> bool) outcome \<times> MemTransaction" where
  "tx_getRange mem snapshot b e limit t =
     (if tx_canceled t then (Err (Transaction kCanceled), t)
      else
        let t1 = fix_readVersion mem t;
            origin = mem_getRange mem b e (2 ^ 31 - 1) (tx_readVersion t1);
            kvs = merged_range (tx_changes t1) b e origin;
            lim = (if limit < 1 then memKvDefaultLimit else nat limit);
            cut = lim < length kvs;
            kvs' = (if cut then take lim kvs else kvs);
            hasMore = (cut \<or> snd origin);
            rangeBegin = (if ks_inclusive b then ks_key b else keyAfter (ks_key b))
        in if hasMore \<and> kvs' = [] then (Crash, t1)
           else
             let rangeEnd = (if hasMore then keyAfter (fst (last kvs'))
                             else if ks_inclusive e then keyAfter (ks_key e) else ks_key e)
             in (Ret (kvs', hasMore),
                 if snapshot then t1 else t1\<lparr>tx_readRanges := tx_readRanges t1 @ [(rangeBegin, rangeEnd)]\<rparr>))"

text \<open>
  The fault of a commit, if one is injected, is \<open>(status, after)\<close>: the error returned, and whether the
  commit is performed first.
\<close>

definition tx_commit ::
  "(status \<times> bool) option \<Rightarrow> MemKV \<Rightarrow> MemTransaction \<Rightarrow> unit outcome \<times> MemKV \<times> MemTransaction" where
  "tx_commit fault mem t =
     (case fault of
        Some (e, False) \<Rightarrow> (Err e, mem, t)
      | _ \<Rightarrow>
          if tx_canceled t then (Err (Transaction kCanceled), mem, t)
          else
            let t1 = fix_readVersion mem t;
                r = mem_commit mem (tx_readVersion t1) (tx_readKeys t1) (tx_readRanges t1) (tx_changes t1)
                      (tx_versionstamped t1) (tx_writeConflicts t1)
            in case r of
                 Crash \<Rightarrow> (Crash, mem, t1)
               | Pending \<Rightarrow> (Pending, mem, t1)
               | Err e \<Rightarrow> (case fault of Some (f, _) \<Rightarrow> (Err f, mem, t1) | None \<Rightarrow> (Err e, mem, t1))
               | Ret (version, m) \<Rightarrow>
                   (case fault of Some (f, _) \<Rightarrow> (Err f, m, t1)
                    | None \<Rightarrow> (Ret (), m, t1\<lparr>tx_commitVersion := version\<rparr>)))"

definition tx_checkConflictSet :: "string list \<Rightarrow> string list \<Rightarrow> bool \<Rightarrow> MemTransaction \<Rightarrow> bool" where
  "tx_checkConflictSet readConflict writeConflict exactly t \<longleftrightarrow>
     list_all (\<lambda>k. k \<in> set (tx_readKeys t)) readConflict \<and>
     list_all (\<lambda>k. k \<in> fst ` set (tx_changes t)) writeConflict \<and>
     (exactly \<longrightarrow> list_all (\<lambda>k. k \<in> set readConflict) (tx_readKeys t) \<and>
        list_all (\<lambda>c. fst c \<in> set writeConflict) (tx_changes t))"

definition tx_checkConflict :: "MemTransaction \<Rightarrow> MemTransaction \<Rightarrow> bool" where
  "tx_checkConflict txn1 txn2 =
     list_ex (\<lambda>c. fst c \<in> set (tx_readKeys txn2) \<or>
       list_ex (\<lambda>r. fst r \<le> fst c \<and> fst c < snd r) (tx_readRanges txn2)) (tx_changes txn1)"

section \<open>Reading one's own writes\<close>

text \<open>The contents a transaction sees: the stored pairs with its changes on top.\<close>

definition apply_change :: "string \<times> string option \<Rightarrow> (string, string) omap \<Rightarrow> (string, string) omap" where
  "apply_change c kv = (case snd c of None \<Rightarrow> omap_erase (fst c) kv | Some v \<Rightarrow> omap_put (fst c) v kv)"

definition overlay :: "(string, string) omap \<Rightarrow> changes \<Rightarrow> (string, string) omap" where
  "overlay kv ch = fold apply_change ch kv"

lemma apply_change_wf: "omap_wf kv \<Longrightarrow> omap_wf (apply_change c kv)"
  by (simp add: apply_change_def omap_wf_put omap_wf_erase split: option.split)

lemma map_of_apply_change: "map_of (apply_change c kv) = (map_of kv)(fst c := snd c)"
  by (simp add: apply_change_def split: option.split)

lemma overlay_wf: "omap_wf kv \<Longrightarrow> omap_wf (overlay kv ch)"
  unfolding overlay_def by (induction ch arbitrary: kv) (simp_all add: apply_change_wf)

lemma map_of_overlay:
  "distinct (map fst ch) \<Longrightarrow> map_of (overlay kv ch) k = (case map_of ch k of Some x \<Rightarrow> x | None \<Rightarrow> map_of kv k)"
proof (induction ch arbitrary: kv)
  case (Cons c ch)
  have "map_of ch (fst c) = None"
    using Cons.prems by (simp add: map_of_eq_None_iff)
  moreover have "map_of (overlay kv (c # ch)) k = (case map_of ch k of Some x \<Rightarrow> x | None \<Rightarrow> map_of (apply_change c kv) k)"
    using Cons by (simp add: overlay_def)
  ultimately show ?case
    by (cases c) (simp add: map_of_apply_change split: option.split)
qed (simp add: overlay_def)

lemma concat_pushChange_keys: "k \<in> fst ` set (concat (map pushChange cs)) \<Longrightarrow> k \<in> fst ` set cs"
  by (auto simp: pushChange_def split: option.splits intro: rev_image_eqI)

lemma merge_changes_keys: "k \<in> fst ` set (merge_changes os cs) \<Longrightarrow> k \<in> fst ` set os \<union> fst ` set cs"
proof (induction os cs rule: merge_changes.induct)
  case (1 cs)
  then show ?case using concat_pushChange_keys [of k cs] by simp
next
  case (3 x os c cs)
  then show ?case by (auto simp: pushChange_def split: if_splits option.splits)
qed simp

lemma omap_wf_less: "omap_wf ((k, v) # m) \<Longrightarrow> map_of m k = None"
  by (auto simp: omap_wf_Cons map_of_eq_None_iff)

lemma map_of_pushChange: "map_of (pushChange c @ m) k = (if fst c = k \<and> snd c \<noteq> None then snd c else map_of m k)"
  by (simp add: pushChange_def split: option.split)

lemma map_of_concat_pushChange:
  "omap_wf cs \<Longrightarrow> map_of (concat (map pushChange cs)) k = (case map_of cs k of Some x \<Rightarrow> x | None \<Rightarrow> None)"
proof (induction cs)
  case (Cons c cs)
  obtain k' x where c: "c = (k', x)" by fastforce
  have "omap_wf cs" "map_of cs k' = None"
    using Cons.prems omap_wf_less [of k' x cs] by (simp_all add: c omap_wf_Cons)
  with Cons.IH show ?case
    by (simp add: c map_of_pushChange del: map_of_append split: option.split)
qed simp

lemma omap_wf_pushChange: "omap_wf m \<Longrightarrow> \<forall>k \<in> fst ` set m. fst c < k \<Longrightarrow> omap_wf (pushChange c @ m)"
  by (simp add: pushChange_def omap_wf_Cons split: option.split)

lemma omap_wf_concat_pushChange: "omap_wf cs \<Longrightarrow> omap_wf (concat (map pushChange cs))"
proof (induction cs)
  case (Cons c cs)
  have "omap_wf cs" "\<forall>k \<in> fst ` set cs. fst c < k"
    using Cons.prems by (cases c; simp add: omap_wf_Cons)+
  with Cons.IH concat_pushChange_keys [of _ cs] show ?case
    by (simp only: list.map concat.simps) (blast intro: omap_wf_pushChange)
qed simp

lemma omap_wf_head: "omap_wf (c # cs) \<Longrightarrow> omap_wf cs \<and> (\<forall>k \<in> fst ` set cs. fst c < k) \<and> map_of cs (fst c) = None"
  by (cases c) (simp add: omap_wf_Cons map_of_eq_None_iff, blast)

lemma merge_changes_wf: "omap_wf os \<Longrightarrow> omap_wf cs \<Longrightarrow> omap_wf (merge_changes os cs)"
proof (induction os cs rule: merge_changes.induct)
  case (1 cs)
  then show ?case by (simp add: omap_wf_concat_pushChange)
next
  case (3 x os c cs)
  note x = omap_wf_head [OF 3(4)] and c = omap_wf_head [OF 3(5)]
  consider "fst x < fst c" | "fst c < fst x" | "fst c = fst x" by (rule linorder_cases)
  then show ?case
  proof cases
    case 1
    have "\<forall>k \<in> fst ` set (merge_changes os (c # cs)). fst x < k"
      using merge_changes_keys [of _ os "c # cs"] x c 1 by fastforce
    with 1 3(1) 3(5) x show ?thesis
      by (cases x) (simp add: omap_wf_Cons)
  next
    case 2
    have "\<forall>k \<in> fst ` set (merge_changes (x # os) cs). fst c < k"
      using merge_changes_keys [of _ "x # os" cs] x c 2 by fastforce
    moreover have "\<not> fst x < fst c"
      using 2 by simp
    ultimately show ?thesis
      using 2 3(2,4) c by (simp add: omap_wf_pushChange)
  next
    case 3: 3
    have "\<forall>k \<in> fst ` set (merge_changes os cs). fst c < k"
      using merge_changes_keys [of _ os cs] x c 3 by fastforce
    with 3 \<open>\<lbrakk>\<not> fst x < fst c; \<not> fst c < fst x; omap_wf os; omap_wf cs\<rbrakk> \<Longrightarrow> omap_wf (merge_changes os cs)\<close> x c show ?thesis
      by (simp add: omap_wf_pushChange)
  qed
qed simp

lemma map_of_merge_changes:
  "omap_wf os \<Longrightarrow> omap_wf cs \<Longrightarrow>
     map_of (merge_changes os cs) k = (case map_of cs k of Some x \<Rightarrow> x | None \<Rightarrow> map_of os k)"
proof (induction os cs rule: merge_changes.induct)
  case (1 cs)
  then show ?case by (simp add: map_of_concat_pushChange split: option.split)
next
  case (3 x os c cs)
  note x = omap_wf_head [OF 3(4)] and c = omap_wf_head [OF 3(5)]
  have no_c: "map_of os (fst c) = None" if "fst c \<le> fst x"
    using x that by (fastforce simp: map_of_eq_None_iff)
  have no_x: "map_of cs (fst x) = None" if "fst x \<le> fst c"
    using c that by (fastforce simp: map_of_eq_None_iff)
  consider "fst x < fst c" | "fst c < fst x" | "fst c = fst x" by (rule linorder_cases)
  then show ?case
  proof cases
    case 1
    with 3(1,5) x no_x show ?thesis
      by (cases x; cases c) (auto split: option.split)
  next
    case 2
    then have "\<not> fst x < fst c" by simp
    with 2 3(2,4) c no_c show ?thesis
      by (cases x; cases c) (auto simp: map_of_pushChange simp del: map_of_append split: option.split)
  next
    case 3: 3
    with \<open>\<lbrakk>\<not> fst x < fst c; \<not> fst c < fst x; omap_wf os; omap_wf cs\<rbrakk> \<Longrightarrow>
        map_of (merge_changes os cs) k = (case map_of cs k of Some x \<Rightarrow> x | None \<Rightarrow> map_of os k)\<close> x c no_c
    show ?thesis
      by (cases x; cases c) (auto simp: map_of_pushChange simp del: map_of_append split: option.split)
  qed
qed simp

lemma merge_changes_overlay: "omap_wf os \<Longrightarrow> omap_wf cs \<Longrightarrow> merge_changes os cs = overlay os cs"
  by (rule omap_eqI)
    (simp_all add: fun_eq_iff merge_changes_wf overlay_wf map_of_merge_changes map_of_overlay omap_wf_distinct)

text \<open>
  The changes from an exclusive begin are those after its key only if the first change from the key
  on is a change of that key; then and for an inclusive begin a range is read correctly.
\<close>

definition begin_ok :: "KeySelector \<Rightarrow> changes \<Rightarrow> bool" where
  "begin_ok b ch \<longleftrightarrow> ks_inclusive b \<or>
     (case lower_bound (ks_key b) ch of [] \<Rightarrow> True | c # _ \<Rightarrow> fst c = ks_key b)"

lemma changes_from_begin:
  assumes "omap_wf ch" and "begin_ok b ch"
  defines "fb \<equiv> lower_bound (ks_key b) ch"
  shows "(if fb \<noteq> [] \<and> \<not> ks_inclusive b then tl fb else fb) =
    filter (\<lambda>c. if ks_inclusive b then ks_key b \<le> fst c else ks_key b < fst c) ch"
proof (cases "ks_inclusive b")
  case False
  have fb: "fb = filter (\<lambda>c. ks_key b \<le> fst c) ch"
    unfolding fb_def by (rule lower_bound_filter [OF assms(1)])
  then have up: "filter (\<lambda>c. ks_key b < fst c) ch = filter (\<lambda>c. ks_key b < fst c) fb"
    by (auto intro: filter_cong)
  show ?thesis
  proof (cases fb)
    case (Cons c cs)
    have "omap_wf (c # cs)" "fst c = ks_key b"
      using assms(1,2) False Cons by (simp_all add: fb_def [symmetric] begin_ok_def fb [symmetric])
        (metis fb omap_wf_filter Cons)
    then have "filter (\<lambda>c. ks_key b < fst c) (c # cs) = cs"
      using omap_wf_head [of c cs] by (simp add: filter_id_conv)
    with False Cons up show ?thesis by simp
  qed (use False up in simp)
qed (use lower_bound_filter [OF assms(1)] in \<open>simp add: fb_def\<close>)

lemma takeWhile_in_range:
  assumes "omap_wf ch"
  shows "takeWhile (\<lambda>c. \<not> changeEnded e (os, False) (fst c))
      (filter (\<lambda>c. if ks_inclusive b then ks_key b \<le> fst c else ks_key b < fst c) ch) =
    filter (\<lambda>c. in_range b e (fst c)) ch"
proof -
  let ?f = "filter (\<lambda>c. if ks_inclusive b then ks_key b \<le> fst c else ks_key b < fst c) ch"
  have "takeWhile (\<lambda>c. \<not> changeEnded e (os, False) (fst c)) ?f =
      filter (\<lambda>c. \<not> changeEnded e (os, False) (fst c)) ?f"
    by (rule takeWhile_sorted) (use assms in \<open>auto simp: changeEnded_def split: if_splits\<close>)
  also have "\<dots> = filter (\<lambda>c. in_range b e (fst c)) ch"
    by (auto simp: changeEnded_def in_range_def not_less not_le intro: filter_cong)
  finally show ?thesis .
qed

lemma overlay_filter:
  assumes "omap_wf kv" and "omap_wf ch"
  shows "overlay (filter (\<lambda>x. P (fst x)) kv) (filter (\<lambda>c. P (fst c)) ch) = filter (\<lambda>x. P (fst x)) (overlay kv ch)"
  using assms
  by (intro omap_eqI)
    (simp_all add: fun_eq_iff overlay_wf map_of_filter_key map_of_overlay omap_wf_distinct split: option.split)

lemma merged_range_overlay:
  assumes "omap_wf kv" and "omap_wf ch" and "begin_ok b ch"
  shows "merged_range ch b e (filter (\<lambda>x. in_range b e (fst x)) kv, False) =
    filter (\<lambda>x. in_range b e (fst x)) (overlay kv ch)"
proof -
  let ?os = "filter (\<lambda>x. in_range b e (fst x)) kv"
  let ?cs = "filter (\<lambda>c. in_range b e (fst c)) ch"
  let ?from = "filter (\<lambda>c. if ks_inclusive b then ks_key b \<le> fst c else ks_key b < fst c) ch"
  have tw: "takeWhile (\<lambda>c. \<not> changeEnded e (?os, False) (fst c)) ?from = ?cs"
    by (rule takeWhile_in_range [OF assms(2)])
  have "?from = [] \<Longrightarrow> ?cs = []"
    using tw by (simp only: takeWhile.simps)
  then have "merged_range ch b e (?os, False) = merge_changes ?os ?cs"
    unfolding merged_range_def Let_def changes_from_begin [OF assms(2,3)] fst_conv tw
    by (cases ?os) simp_all
  also have "\<dots> = overlay ?os ?cs"
    by (rule merge_changes_overlay) (simp_all add: assms)
  finally show ?thesis
    by (simp only: overlay_filter [OF assms(1,2), of "in_range b e"])
qed

text \<open>The store has fewer keys than a range read can return.\<close>

definition mem_small :: "MemKV \<Rightarrow> bool" where
  "mem_small mem \<longleftrightarrow> length (mem_map mem) < 2 ^ 31 - 1"

lemma length_mem_contents: "length (mem_contents mem v) \<le> length (mem_map mem)"
  unfolding mem_contents_def live_def List.map_filter_def by (simp add: le_trans [OF length_filter_le])

lemma mem_getRange_all:
  assumes "mem_wf mem" and "mem_small mem"
  shows "mem_getRange mem b e (2 ^ 31 - 1) v = (filter (\<lambda>x. in_range b e (fst x)) (mem_contents mem v), False)"
proof -
  let ?r = "filter (\<lambda>x. in_range b e (fst x)) (mem_contents mem v)"
  have "length ?r < 2 ^ 31 - 1"
    using length_filter_le [of _ "mem_contents mem v"] length_mem_contents [of mem v] assms(2)
    unfolding mem_small_def by (meson le_less_trans)
  moreover have "range_limit (2 ^ 31 - 1) = 2 ^ 31 - 1"
    by (simp add: range_limit_def)
  ultimately show ?thesis
    using mem_getRange_page [OF assms(1), of "2 ^ 31 - 1" b e v]
    by (cases "mem_getRange mem b e (2 ^ 31 - 1) v") (auto simp: is_page_def)
qed

definition range_page :: "int \<Rightarrow> kvs \<Rightarrow> kvs \<times> bool" where
  "range_page limit r = (take (range_limit limit) r, range_limit limit < length r)"

lemma range_limit_pos: "0 < range_limit limit"
  by (simp add: range_limit_def memKvDefaultLimit_def)

definition visible :: "MemKV \<Rightarrow> MemTransaction \<Rightarrow> (string, string) omap" where
  "visible mem t = overlay (mem_contents mem (tx_readVersion (fix_readVersion mem t))) (tx_changes t)"

definition range_end :: "KeySelector \<Rightarrow> kvs \<times> bool \<Rightarrow> string" where
  "range_end e p = (if snd p then keyAfter (fst (last (fst p)))
     else if ks_inclusive e then keyAfter (ks_key e) else ks_key e)"

lemma fix_readVersion_fields [simp]:
  "tx_changes (fix_readVersion mem t) = tx_changes t"
  "tx_readKeys (fix_readVersion mem t) = tx_readKeys t"
  "tx_readRanges (fix_readVersion mem t) = tx_readRanges t"
  "tx_canceled (fix_readVersion mem t) = tx_canceled t"
  "tx_versionstamped (fix_readVersion mem t) = tx_versionstamped t"
  "tx_writeConflicts (fix_readVersion mem t) = tx_writeConflicts t"
  by (simp_all add: fix_readVersion_def)

lemma tx_getRange_page:
  fixes e :: KeySelector and limit :: int
  assumes "mem_wf mem" and "mem_small mem" and "omap_wf (tx_changes t)" and "\<not> tx_canceled t"
    and "begin_ok b (tx_changes t)"
  defines "p \<equiv> range_page limit (filter (\<lambda>x. in_range b e (fst x)) (visible mem t))"
  shows "tx_getRange mem snapshot b e limit t =
    (Ret p, let t1 = fix_readVersion mem t
            in if snapshot then t1
               else t1\<lparr>tx_readRanges := tx_readRanges t1 @
                 [(if ks_inclusive b then ks_key b else keyAfter (ks_key b), range_end e p)]\<rparr>)"
proof -
  let ?r = "filter (\<lambda>x. in_range b e (fst x)) (visible mem t)"
  have m: "merged_range (tx_changes (fix_readVersion mem t)) b e
      (mem_getRange mem b e (2 ^ 31 - 1) (tx_readVersion (fix_readVersion mem t))) = ?r"
    unfolding mem_getRange_all [OF assms(1,2)] visible_def
    using merged_range_overlay [OF mem_contents_wf [OF assms(1)] assms(3,5)] by simp
  have s: "snd (mem_getRange mem b e (2 ^ 31 - 1) (tx_readVersion (fix_readVersion mem t))) = False"
    by (simp only: mem_getRange_all [OF assms(1,2)] snd_conv)
  have "take (range_limit limit) ?r \<noteq> []" if "range_limit limit < length ?r"
    using that range_limit_pos [of limit] by auto
  then show ?thesis
    unfolding tx_getRange_def Let_def m s range_limit_def [symmetric] p_def range_page_def range_end_def
    using assms(4) by auto
qed

lemma less_keyAfter: "k < keyAfter x \<longleftrightarrow> k \<le> (x :: string)"
  unfolding keyAfter_def
proof (induction k arbitrary: x)
  case Nil
  show ?case by (cases x) simp_all
next
  case (Cons c k)
  show ?case
  proof (cases x)
    case Nil
    then show ?thesis by (simp add: char_less_iff)
  next
    case (Cons d x')
    then show ?thesis
      using Cons.IH [of x'] by (simp only: append_Cons Cons_less_Cons Cons_le_Cons)
  qed
qed

lemma keyAfter_le: "keyAfter x \<le> k \<longleftrightarrow> (x :: string) < k"
  using less_keyAfter [of k x] by (meson not_le)

lemma omap_split_at: "omap_wf r \<Longrightarrow> r = filter (\<lambda>x. fst x \<le> k) r @ filter (\<lambda>x. k < fst x) r"
proof (induction r)
  case (Cons x r)
  note x = omap_wf_head [OF Cons.prems]
  show ?case
  proof (cases "fst x \<le> k")
    case False
    with x have "filter (\<lambda>x. fst x \<le> k) r = []" "filter (\<lambda>x. k < fst x) r = r"
      by (force simp: filter_empty_conv filter_id_conv)+
    with False show ?thesis by simp
  qed (use Cons.IH x in auto)
qed simp

lemma filter_upto_take:
  assumes "omap_wf r" and "0 < n" and "n \<le> length r"
  shows "filter (\<lambda>x. fst x \<le> fst (last (take n r))) r = take n r"
proof -
  obtain ys z where t: "take n r = ys @ [z]"
    using assms(2,3) by (cases "take n r" rule: rev_cases) auto
  have "sorted_wrt (\<lambda>x y. fst x < fst y) ((ys @ [z]) @ drop n r)"
    using assms(1) unfolding t [symmetric] by (simp add: omap_wf_def sorted_wrt_map)
  then have lt: "\<forall>y \<in> set ys. fst y < fst z" and gt: "\<forall>y \<in> set (drop n r). fst z < fst y"
    by (simp_all add: sorted_wrt_append)
  have "filter (\<lambda>x. fst x \<le> fst z) (ys @ [z]) = ys @ [z]"
    by (rule filter_True) (use lt in \<open>auto simp: less_imp_le\<close>)
  moreover have "filter (\<lambda>x. fst x \<le> fst z) (drop n r) = []"
    using gt unfolding filter_empty_conv by (meson not_le)
  ultimately have "filter (\<lambda>x. fst x \<le> fst z) ((ys @ [z]) @ drop n r) = ys @ [z]"
    by (simp only: filter_append append_Nil2)
  then show ?thesis
    unfolding t [symmetric] append_take_drop_id by (simp add: t)
qed

lemma in_range_end: "in_range b e k \<Longrightarrow> k < (if ks_inclusive e then keyAfter (ks_key e) else ks_key e)"
  by (simp add: in_range_def less_keyAfter split: if_splits)

text \<open>
  C28: a range read that is not a snapshot, in a transaction that is not cancelled, from an inclusive
  begin or from an exclusive one at or after which the first change of the transaction, if any, is one
  of the begin key itself, returns the first pairs of the range of what the transaction sees, its own
  changes included, up to the limit, and says whether there are more. It adds one range to the read set,
  which is exactly the part of the range that was looked at: all of it, or the part up to the last pair
  returned when there are more. So a key that appears in an empty or short answer later is a conflict.
  The store has fewer keys than a range read can return.
\<close>

theorem getRange_reads_own_writes:
  assumes "mem_wf mem" and "mem_small mem" and "omap_wf (tx_changes t)" and "\<not> tx_canceled t"
    and "begin_ok b (tx_changes t)"
    and p: "p = range_page limit (filter (\<lambda>x. in_range b e (fst x)) (visible mem t))"
  shows "\<exists>t' lo hi. tx_getRange mem False b e limit t = (Ret p, t') \<and>
    tx_changes t' = tx_changes t \<and> tx_readRanges t' = tx_readRanges t @ [(lo, hi)] \<and>
    (\<forall>k. lo \<le> k \<and> k < hi \<longleftrightarrow> in_range b e k \<and> (snd p \<longrightarrow> k \<le> fst (last (fst p))))"
proof -
  let ?r = "filter (\<lambda>x. in_range b e (fst x)) (visible mem t)"
  let ?lo = "if ks_inclusive b then ks_key b else keyAfter (ks_key b)" and ?hi = "range_end e p"
  have "in_range b e (fst (last (fst p)))" if "snd p"
  proof -
    have "range_limit limit < length ?r" using that by (simp add: p range_page_def)
    then have "take (range_limit limit) ?r \<noteq> []" using range_limit_pos [of limit] by (metis gr_implies_not0 length_0_conv take_eq_Nil)
    then have "last (take (range_limit limit) ?r) \<in> set ?r" by (rule in_set_takeD [OF last_in_set])
    then show ?thesis by (simp add: p range_page_def)
  qed
  then have "?lo \<le> k \<and> k < ?hi \<longleftrightarrow> in_range b e k \<and> (snd p \<longrightarrow> k \<le> fst (last (fst p)))" for k
    by (cases "snd p"; cases "ks_inclusive e")
      (auto simp: in_range_def range_end_def keyAfter_le less_keyAfter)
  moreover let ?t' = "(fix_readVersion mem t)\<lparr>tx_readRanges := tx_readRanges t @ [(?lo, ?hi)]\<rparr>"
  have "tx_getRange mem False b e limit t = (Ret p, ?t')"
    using tx_getRange_page [OF assms(1-5), of False e limit] by (simp only: p Let_def if_False fix_readVersion_fields)
  moreover have "tx_changes ?t' = tx_changes t" "tx_readRanges ?t' = tx_readRanges t @ [(?lo, ?hi)]" by simp_all
  ultimately show ?thesis by blast
qed

definition sample_txn :: MemTransaction where
  "sample_txn = (MemTransaction_of sample_mem)\<lparr>tx_changes := [(''b'', Some ''own''), (''c'', Some ''new'')]\<rparr>"

theorem getRange_reads_own_writes_witness:
  "\<exists>t' lo hi. tx_getRange sample_mem False \<lparr>ks_key = ''a'', ks_inclusive = True\<rparr> \<lparr>ks_key = ''d'', ks_inclusive = False\<rparr> 2 sample_txn =
      (Ret ([(''a'', ''x''), (''b'', ''own'')], True), t') \<and>
    tx_readRanges t' = [(lo, hi)] \<and> lo \<le> ''ab'' \<and> ''ab'' < hi \<and> \<not> ''c'' < hi"
proof -
  let ?b = "\<lparr>ks_key = ''a'', ks_inclusive = True\<rparr>" and ?e = "\<lparr>ks_key = ''d'', ks_inclusive = False\<rparr>"
  have h: "mem_small sample_mem" "omap_wf (tx_changes sample_txn)" "\<not> tx_canceled sample_txn" "begin_ok ?b (tx_changes sample_txn)"
    by (simp_all add: mem_small_def sample_mem_def sample_txn_def MemTransaction_of_def begin_ok_def omap_wf_def)
  have p: "([(''a'', ''x''), (''b'', ''own'')], True) =
      range_page 2 (filter (\<lambda>x. in_range ?b ?e (fst x)) (visible sample_mem sample_txn))" by code_simp
  have "tx_readRanges sample_txn = []" by code_simp
  moreover have "in_range ?b ?e ''ab''" "in_range ?b ?e ''c''" "''ab'' \<le> ''b''" "\<not> ''c'' \<le> ''b''" "''a'' \<le> ''c''" by code_simp+
  moreover obtain t' lo hi where t': "tx_getRange sample_mem False ?b ?e 2 sample_txn = (Ret ([(''a'', ''x''), (''b'', ''own'')], True), t')"
    "tx_readRanges t' = tx_readRanges sample_txn @ [(lo, hi)]"
    and c: "\<forall>k. lo \<le> k \<and> k < hi \<longleftrightarrow> in_range ?b ?e k \<and> k \<le> ''b''"
    using getRange_reads_own_writes [OF sample_mem_wf h p] by auto
  moreover have "lo \<le> ''ab''" "''ab'' < hi" "\<not> (lo \<le> ''c'' \<and> ''c'' < hi)" using c calculation by blast+
  moreover have "lo \<le> ''c''" using \<open>lo \<le> ''ab''\<close> by (rule order_trans) code_simp
  ultimately show ?thesis by auto
qed

text \<open>
  A range read from an exclusive begin can miss a write of its own transaction. The first change
  at or after the begin key is skipped even when it is a change of another key: with one stored key
  \<open>a\<close> and a write of \<open>b\<close>, the range after \<open>a\<close> comes back empty.
\<close>

lemma getRange_exclusive_misses_own_write:
  "fst (tx_getRange sample_mem False \<lparr>ks_key = ''a'', ks_inclusive = False\<rparr> \<lparr>ks_key = ''c'', ks_inclusive = False\<rparr> 0 sample_txn) =
     Ret ([], False) \<and>
   filter (\<lambda>x. in_range \<lparr>ks_key = ''a'', ks_inclusive = False\<rparr> \<lparr>ks_key = ''c'', ks_inclusive = False\<rparr> (fst x))
     (visible sample_mem sample_txn) = [(''b'', ''own'')]"
proof
  let ?b = "\<lparr>ks_key = ''a'', ks_inclusive = False\<rparr>" and ?e = "\<lparr>ks_key = ''c'', ks_inclusive = False\<rparr>"
  have t: "fix_readVersion sample_mem sample_txn = sample_txn" "tx_readVersion sample_txn = 2" "\<not> tx_canceled sample_txn"
    by (simp_all add: fix_readVersion_def sample_txn_def MemTransaction_of_def sample_mem_def)
  have "filter (\<lambda>x. in_range ?b ?e (fst x)) (mem_contents sample_mem 2) = []"
    by code_simp
  then have origin: "mem_getRange sample_mem ?b ?e (2 ^ 31 - 1) 2 = ([], False)"
    using mem_getRange_all [OF sample_mem_wf, of ?b ?e 2] by (simp add: mem_small_def sample_mem_def)
  have merged: "merged_range (tx_changes sample_txn) ?b ?e ([], False) = []"
    by code_simp
  show "fst (tx_getRange sample_mem False ?b ?e 0 sample_txn) = Ret ([], False)"
    unfolding tx_getRange_def Let_def t origin merged by (simp add: t)
  show "filter (\<lambda>x. in_range ?b ?e (fst x)) (visible sample_mem sample_txn) = [(''b'', ''own'')]"
    by code_simp
qed

end
