(* ===== verification/Serializability.thy ===== *)
theory Serializability
  imports Mem_Transaction
begin

text \<open>
  Transactions of the in-memory store interleaved by several clients. A client is a program over the
  transaction interface of \<^verbatim>\<open>src/src/common/kv/ITransaction.h\<close>; a step of the system performs one
  operation of one client, or commits it, on the operations of theory Mem_Transaction. A commit
  that fails resets the transaction and runs the program again. Range reads of the programs have an
  inclusive begin; snapshot reads and version stamps, which ask for no isolation, are left out.
\<close>

section \<open>Programs and the system\<close>

datatype 'a prog =
    Done 'a
  | Get string "string option \<Rightarrow> 'a prog"
  | GetRange string KeySelector int "kvs \<times> bool \<Rightarrow> 'a prog"
  | Put string string "'a prog"
  | Clear string "'a prog"

abbreviation from_key :: "string \<Rightarrow> KeySelector" where
  "from_key k \<equiv> \<lparr>ks_key = k, ks_inclusive = True\<rparr>"

record 'a client =
  cl_prog :: "'a prog"
  cl_rest :: "'a prog"
  cl_txn :: MemTransaction

definition client_step :: "MemKV \<Rightarrow> 'a client \<Rightarrow> 'a client" where
  "client_step mem c = (case cl_rest c of
     Done a \<Rightarrow> c
   | Get k f \<Rightarrow> (case tx_get mem False k (cl_txn c) of
       (Ret x, t) \<Rightarrow> c\<lparr>cl_rest := f x, cl_txn := t\<rparr> | (_, t) \<Rightarrow> c\<lparr>cl_txn := t\<rparr>)
   | GetRange k e n f \<Rightarrow> (case tx_getRange mem False (from_key k) e n (cl_txn c) of
       (Ret p, t) \<Rightarrow> c\<lparr>cl_rest := f p, cl_txn := t\<rparr> | (_, t) \<Rightarrow> c\<lparr>cl_txn := t\<rparr>)
   | Put k v p \<Rightarrow> (case tx_set k v (cl_txn c) of Inr t \<Rightarrow> c\<lparr>cl_rest := p, cl_txn := t\<rparr> | Inl _ \<Rightarrow> c)
   | Clear k p \<Rightarrow> (case tx_clear k (cl_txn c) of Inr t \<Rightarrow> c\<lparr>cl_rest := p, cl_txn := t\<rparr> | Inl _ \<Rightarrow> c))"

text \<open>
  The log of a system holds the committed updates in commit order, and the committed read-only
  transactions with their read versions.
\<close>

record 'a system =
  sys_mem :: MemKV
  sys_clients :: "'a client option list"
  sys_log :: "('a prog \<times> 'a) list"
  sys_reads :: "('a prog \<times> 'a \<times> int) list"

datatype 'a event = Start "'a prog" | Step nat | Commit nat

definition client_commit :: "nat \<Rightarrow> 'a client \<Rightarrow> 'a \<Rightarrow> 'a system \<Rightarrow> 'a system" where
  "client_commit i c a s = (case tx_commit None (sys_mem s) (cl_txn c) of
     (Ret _, mem, t) \<Rightarrow>
       (let s1 = s\<lparr>sys_mem := mem, sys_clients := (sys_clients s)[i := None]\<rparr>
        in if tx_changes t = [] then s1\<lparr>sys_reads := sys_reads s @ [(cl_prog c, a, tx_readVersion t)]\<rparr>
           else s1\<lparr>sys_log := sys_log s @ [(cl_prog c, a)]\<rparr>)
   | (_, mem, t) \<Rightarrow> s\<lparr>sys_clients := (sys_clients s)[i := Some (c\<lparr>cl_rest := cl_prog c, cl_txn := tx_reset t\<rparr>)]\<rparr>)"

fun sys_step :: "'a system \<Rightarrow> 'a event \<Rightarrow> 'a system" where
  "sys_step s (Start p) =
     s\<lparr>sys_clients := sys_clients s @ [Some \<lparr>cl_prog = p, cl_rest = p, cl_txn = MemTransaction_of (sys_mem s)\<rparr>]\<rparr>"
| "sys_step s (Step i) =
     (if i < length (sys_clients s)
      then (case sys_clients s ! i of
              Some c \<Rightarrow> s\<lparr>sys_clients := (sys_clients s)[i := Some (client_step (sys_mem s) c)]\<rparr>
            | None \<Rightarrow> s)
      else s)"
| "sys_step s (Commit i) =
     (if i < length (sys_clients s)
      then (case sys_clients s ! i of
              Some c \<Rightarrow> (case cl_rest c of Done a \<Rightarrow> client_commit i c a s | _ \<Rightarrow> s)
            | None \<Rightarrow> s)
      else s)"

definition sys_init :: "MemKV \<Rightarrow> 'a system" where
  "sys_init mem = \<lparr>sys_mem = mem, sys_clients = [], sys_log = [], sys_reads = []\<rparr>"

definition sys_run :: "MemKV \<Rightarrow> 'a event list \<Rightarrow> 'a system" where
  "sys_run mem es = foldl sys_step (sys_init mem) es"

section \<open>Serial execution\<close>

text \<open>
  A program run alone on the contents of the store. The flag of a range read says that there may be
  more: it may be set whenever the limit is reached.
\<close>

inductive serial :: "'a prog \<Rightarrow> (string, string) omap \<Rightarrow> 'a \<Rightarrow> (string, string) omap \<Rightarrow> bool" where
  serial_Done: "serial (Done a) kv a kv"
| serial_Get: "serial (f (map_of kv k)) kv a kv' \<Longrightarrow> serial (Get k f) kv a kv'"
| serial_GetRange:
    "is_page (range_limit n) (filter (\<lambda>x. in_range (from_key k) e (fst x)) kv) p \<Longrightarrow>
       serial (f p) kv a kv' \<Longrightarrow> serial (GetRange k e n f) kv a kv'"
| serial_Put: "serial p (omap_put k v kv) a kv' \<Longrightarrow> serial (Put k v p) kv a kv'"
| serial_Clear: "serial p (omap_erase k kv) a kv' \<Longrightarrow> serial (Clear k p) kv a kv'"

inductive_cases serial_DoneE: "serial (Done a) kv b kv'"

fun serial_log :: "('a prog \<times> 'a) list \<Rightarrow> (string, string) omap \<Rightarrow> (string, string) omap \<Rightarrow> bool" where
  "serial_log [] kv kv' \<longleftrightarrow> kv = kv'"
| "serial_log ((p, a) # l) kv kv' \<longleftrightarrow> (\<exists>kv1. serial p kv a kv1 \<and> serial_log l kv1 kv')"

lemma serial_log_append: "serial_log (l @ l') kv kv' \<longleftrightarrow> (\<exists>kv1. serial_log l kv kv1 \<and> serial_log l' kv1 kv')"
  by (induction l kv kv' rule: serial_log.induct) auto

section \<open>Ranges that agree\<close>

lemma page_agree:
  assumes r: "omap_wf r" "\<forall>x \<in> set r. in_range b e (fst x)"
    and r': "omap_wf r'" "\<forall>x \<in> set r'. in_range b e (fst x)"
    and agree: "\<And>k. in_range b e k \<Longrightarrow> k < range_end e (range_page n r) \<Longrightarrow> map_of r k = map_of r' k"
  shows "is_page (range_limit n) r' (range_page n r)"
proof -
  have none: "map_of r k = None" "map_of r' k = None" if "\<not> in_range b e k" for k
    using that r(2) r'(2) by (auto simp: map_of_eq_None_iff)
  show ?thesis
  proof (cases "range_limit n < length r")
    case False
    then have "map_of r k = map_of r' k" for k
      using agree [of k] in_range_end [of b e k] none [of k]
      by (cases "in_range b e k") (simp_all add: range_page_def range_end_def)
    then have "r' = r"
      using omap_eqI [OF r(1) r'(1)] by (simp add: fun_eq_iff)
    with False show ?thesis
      by (simp add: is_page_def range_page_def)
  next
    case True
    let ?t = "take (range_limit n) r"
    let ?k = "fst (last ?t)"
    have t: "filter (\<lambda>x. fst x \<le> ?k) r = ?t"
      by (rule filter_upto_take [OF r(1) range_limit_pos]) (use True in simp)
    have "map_of (filter (\<lambda>x. fst x \<le> ?k) r) k = map_of (filter (\<lambda>x. fst x \<le> ?k) r') k" for k
      using agree [of k] none [of k] True
      by (cases "in_range b e k")
        (simp_all add: map_of_filter_key [of "\<lambda>x. x \<le> ?k"] range_page_def range_end_def less_keyAfter)
    then have "filter (\<lambda>x. fst x \<le> ?k) r = filter (\<lambda>x. fst x \<le> ?k) r'"
      using r(1) r'(1) by (intro omap_eqI) (auto simp: fun_eq_iff)
    with t omap_split_at [OF r'(1), of ?k] have "r' = ?t @ filter (\<lambda>x. ?k < fst x) r'"
      by simp
    moreover have "length ?t = range_limit n"
      using True by simp
    ultimately have "take (range_limit n) r' = ?t \<and> range_limit n \<le> length r'"
      by (metis append_eq_conv_conj le_add1 length_append)
    with True show ?thesis
      by (simp add: is_page_def range_page_def)
  qed
qed

section \<open>The invariant of a client\<close>

definition was_read :: "MemTransaction \<Rightarrow> string \<Rightarrow> bool" where
  "was_read t k \<longleftrightarrow> k \<in> set (tx_readKeys t) \<or> (\<exists>r \<in> set (tx_readRanges t). fst r \<le> k \<and> k < snd r)"

definition agrees :: "MemKV \<Rightarrow> MemTransaction \<Rightarrow> (string, string) omap \<Rightarrow> bool" where
  "agrees mem t kv \<longleftrightarrow> (\<forall>k. was_read t k \<longrightarrow> map_of kv k = mem_get mem k (tx_readVersion t))"

text \<open>
  Whatever contents agree with what the transaction has read, the rest of the program on top of the
  changes completes an execution of the whole program.
\<close>

definition continues :: "MemKV \<Rightarrow> 'a client \<Rightarrow> bool" where
  "continues mem c \<longleftrightarrow> (\<forall>kv a kv'. omap_wf kv \<longrightarrow> agrees mem (cl_txn c) kv \<longrightarrow>
     serial (cl_rest c) (overlay kv (tx_changes (cl_txn c))) a kv' \<longrightarrow> serial (cl_prog c) kv a kv')"

definition txn_ok :: "int \<Rightarrow> MemKV \<Rightarrow> MemTransaction \<Rightarrow> bool" where
  "txn_ok v0 mem t \<longleftrightarrow> \<not> tx_canceled t \<and> omap_wf (tx_changes t) \<and> tx_versionstamped t = [] \<and>
     tx_writeConflicts t = [] \<and> tx_readVersion t \<le> mem_version mem \<and>
     (if tx_readVersion t < 0 then tx_readKeys t = [] \<and> tx_readRanges t = [] else v0 \<le> tx_readVersion t)"

definition client_ok :: "int \<Rightarrow> MemKV \<Rightarrow> 'a client \<Rightarrow> bool" where
  "client_ok v0 mem c \<longleftrightarrow> txn_ok v0 mem (cl_txn c) \<and> continues mem c"

lemma not_read: "tx_readKeys t = [] \<Longrightarrow> tx_readRanges t = [] \<Longrightarrow> \<not> was_read t k"
  by (simp add: was_read_def)

lemma client_ok_extends:
  assumes "client_ok v0 mem c" and "mem_extends mem mem'"
  shows "client_ok v0 mem' c"
proof -
  have "txn_ok v0 mem (cl_txn c)" and cont: "continues mem c"
    using assms(1) by (simp_all add: client_ok_def)
  then have "agrees mem' (cl_txn c) kv = agrees mem (cl_txn c) kv" for kv
    using assms(2) by (simp add: agrees_def txn_ok_def mem_extends_def)
  with assms show ?thesis
    by (simp add: client_ok_def continues_def txn_ok_def mem_extends_def)
qed

lemma client_ok_new:
  assumes "tx_changes t = []" and "txn_ok v0 mem t"
  shows "client_ok v0 mem \<lparr>cl_prog = p, cl_rest = p, cl_txn = t\<rparr>"
  using assms by (simp add: client_ok_def continues_def overlay_def)

text \<open>One operation: the reads it adds determine its result on any contents that agree.\<close>

lemma client_okI:
  assumes "client_ok v0 mem c" and "txn_ok v0 mem t"
    and "\<And>kv. agrees mem t kv \<Longrightarrow> agrees mem (cl_txn c) kv"
    and "\<And>kv a kv'. omap_wf kv \<Longrightarrow> agrees mem t kv \<Longrightarrow> serial p (overlay kv (tx_changes t)) a kv' \<Longrightarrow>
      serial (cl_rest c) (overlay kv (tx_changes (cl_txn c))) a kv'"
  shows "client_ok v0 mem (c\<lparr>cl_rest := p, cl_txn := t\<rparr>)"
  using assms by (simp add: client_ok_def continues_def)

lemma fix_readVersion_commute:
  "fix_readVersion mem (t\<lparr>tx_readKeys := ks\<rparr>) = (fix_readVersion mem t)\<lparr>tx_readKeys := ks\<rparr>"
  by (simp add: fix_readVersion_def)

lemma was_read_fix [simp]: "was_read (fix_readVersion mem t) k = was_read t k"
  by (simp add: was_read_def)

lemma agrees_fix:
  assumes "txn_ok v0 mem t" and "agrees mem (fix_readVersion mem t) kv"
  shows "agrees mem t kv"
proof (cases "tx_readVersion t < 0")
  case True
  with assms(1) not_read [of t] show ?thesis
    by (simp add: agrees_def txn_ok_def)
qed (use assms(2) in \<open>simp add: fix_readVersion_def\<close>)

lemma txn_ok_fix:
  assumes "txn_ok v0 mem t" and "0 \<le> v0" and "v0 \<le> mem_version mem"
  shows "txn_ok v0 mem (fix_readVersion mem t)"
    and "v0 \<le> tx_readVersion (fix_readVersion mem t)" "tx_readVersion (fix_readVersion mem t) \<le> mem_version mem"
  using assms by (auto simp: txn_ok_def fix_readVersion_def split: if_splits)

lemma client_step_Get:
  assumes c: "client_ok v0 mem c" and v: "0 \<le> v0" "v0 \<le> mem_version mem" and rest: "cl_rest c = Get k f"
  shows "client_ok v0 mem (client_step mem c)"
proof -
  let ?t = "cl_txn c"
  have ok: "txn_ok v0 mem ?t" and "\<not> tx_canceled ?t" and d: "distinct (map fst (tx_changes ?t))"
    using c by (simp_all add: client_ok_def txn_ok_def omap_wf_distinct)
  show ?thesis
  proof (cases "map_of (tx_changes ?t) k")
    case (Some x)
    then have step: "client_step mem c = c\<lparr>cl_rest := f x, cl_txn := ?t\<rparr>"
      using rest \<open>\<not> tx_canceled ?t\<close> by (simp add: client_step_def tx_get_def)
    have "map_of (overlay kv (tx_changes ?t)) k = x" for kv
      by (simp add: map_of_overlay [OF d] Some)
    then show ?thesis
      unfolding step using ok by (intro client_okI [OF c]) (simp_all add: rest serial_Get)
  next
    case None
    let ?u = "fix_readVersion mem ?t"
    let ?t' = "?u\<lparr>tx_readKeys := List.insert k (tx_readKeys ?u)\<rparr>"
    let ?x = "mem_get mem k (tx_readVersion ?u)"
    have step: "client_step mem c = c\<lparr>cl_rest := f ?x, cl_txn := ?t'\<rparr>"
      using rest None \<open>\<not> tx_canceled ?t\<close>
      by (simp add: client_step_def tx_get_def Let_def fix_readVersion_commute)
    have agr: "agrees mem ?u kv \<and> map_of kv k = ?x" if "agrees mem ?t' kv" for kv
      using that by (auto simp: agrees_def was_read_def)
    have "txn_ok v0 mem ?t'"
      using txn_ok_fix [OF ok v] v(1) by (simp add: txn_ok_def)
    then show ?thesis
      unfolding step
    proof (rule client_okI [OF c])
      show "agrees mem ?t kv" if "agrees mem ?t' kv" for kv
        using agr [OF that] agrees_fix [OF ok] by blast
      show "serial (cl_rest c) (overlay kv (tx_changes ?t)) a kv'"
        if "agrees mem ?t' kv" "serial (f ?x) (overlay kv (tx_changes ?t')) a kv'" for kv a kv'
        using that(2) agr [OF that(1)] by (simp add: rest serial_Get map_of_overlay [OF d] None)
    qed
  qed
qed

lemma client_step_GetRange:
  assumes c: "client_ok v0 mem c" and v: "0 \<le> v0" "v0 \<le> mem_version mem" and rest: "cl_rest c = GetRange k e n f"
    and mem: "mem_wf mem" "mem_small mem"
  shows "client_ok v0 mem (client_step mem c)"
proof -
  let ?t = "cl_txn c"
  let ?u = "fix_readVersion mem ?t"
  let ?b = "from_key k"
  let ?r = "\<lambda>kv. filter (\<lambda>x. in_range ?b e (fst x)) (overlay kv (tx_changes ?t))"
  let ?S = "mem_contents mem (tx_readVersion ?u)"
  let ?p = "range_page n (?r ?S)"
  let ?t' = "?u\<lparr>tx_readRanges := tx_readRanges ?u @ [(k, range_end e ?p)]\<rparr>"
  have ok: "txn_ok v0 mem ?t" and t: "\<not> tx_canceled ?t" "omap_wf (tx_changes ?t)"
    using c by (simp_all add: client_ok_def txn_ok_def)
  have "begin_ok ?b (tx_changes ?t)"
    by (simp add: begin_ok_def)
  from tx_getRange_page [OF mem t(2,1) this, of False e n]
  have step: "client_step mem c = c\<lparr>cl_rest := f ?p, cl_txn := ?t'\<rparr>"
    by (simp add: client_step_def rest Let_def visible_def)
  have "txn_ok v0 mem ?t'"
    using txn_ok_fix [OF ok v] v(1) by (simp add: txn_ok_def)
  then show ?thesis
    unfolding step
  proof (rule client_okI [OF c])
    show "agrees mem ?t kv" if "agrees mem ?t' kv" for kv
      by (rule agrees_fix [OF ok]) (use that in \<open>auto simp: agrees_def was_read_def\<close>)
    show "serial (cl_rest c) (overlay kv (tx_changes ?t)) a kv'"
      if kv: "omap_wf kv" "agrees mem ?t' kv" and s: "serial (f ?p) (overlay kv (tx_changes ?t')) a kv'" for kv a kv'
    proof -
      have "map_of kv x = map_of ?S x" if "in_range ?b e x" "x < range_end e ?p" for x
        using kv(2) that by (simp add: agrees_def was_read_def in_range_def map_of_mem_contents [OF mem(1)])
      then have "is_page (range_limit n) (?r kv) ?p"
        using kv(1) t(2) mem_contents_wf [OF mem(1)]
        by (intro page_agree [where b = ?b and e = e])
          (auto simp: overlay_wf map_of_filter_key [of "in_range ?b e"] map_of_overlay omap_wf_distinct split: option.split)
      with s show ?thesis
        unfolding rest by (intro serial_GetRange) simp_all
    qed
  qed
qed

lemma overlay_put:
  assumes "omap_wf kv" and "omap_wf ch"
  shows "overlay kv (omap_put k (Some v) ch) = omap_put k v (overlay kv ch)"
    and "overlay kv (omap_put k None ch) = omap_erase k (overlay kv ch)"
  using assms
  by (auto intro!: omap_eqI simp: fun_eq_iff overlay_wf map_of_overlay omap_wf_distinct)

lemma client_step_change:
  assumes c: "client_ok v0 mem c" and rest: "cl_rest c = Put k v p \<or> cl_rest c = Clear k p"
  shows "client_ok v0 mem (client_step mem c)"
proof -
  let ?t = "cl_txn c"
  have ok: "txn_ok v0 mem ?t" and t: "\<not> tx_canceled ?t" "omap_wf (tx_changes ?t)"
    using c by (simp_all add: client_ok_def txn_ok_def)
  from rest show ?thesis
  proof
    assume rest: "cl_rest c = Put k v p"
    then have step: "client_step mem c = c\<lparr>cl_rest := p, cl_txn := ?t\<lparr>tx_changes := omap_put k (Some v) (tx_changes ?t)\<rparr>\<rparr>"
      by (simp add: client_step_def tx_set_def t)
    show ?thesis
      unfolding step by (rule client_okI [OF c])
        (use ok t in \<open>simp_all add: txn_ok_def agrees_def was_read_def rest serial_Put overlay_put\<close>)
  next
    assume rest: "cl_rest c = Clear k p"
    then have step: "client_step mem c = c\<lparr>cl_rest := p, cl_txn := ?t\<lparr>tx_changes := omap_put k None (tx_changes ?t)\<rparr>\<rparr>"
      by (simp add: client_step_def tx_clear_def t)
    show ?thesis
      unfolding step by (rule client_okI [OF c])
        (use ok t in \<open>simp_all add: txn_ok_def agrees_def was_read_def rest serial_Clear overlay_put\<close>)
  qed
qed

lemma client_step_ok:
  assumes "client_ok v0 mem c" and "0 \<le> v0" and "v0 \<le> mem_version mem" and "mem_wf mem" and "mem_small mem"
  shows "client_ok v0 mem (client_step mem c)"
proof (cases "cl_rest c")
  case (Done a)
  with assms(1) show ?thesis by (simp add: client_step_def)
qed (use client_step_Get [OF assms(1-3)] client_step_GetRange [OF assms(1-3) _ assms(4,5)]
    client_step_change [OF assms(1)] in blast)+

section \<open>Commits\<close>

lemma mem_contents_extends:
  assumes "mem_wf mem" and "mem_wf mem'" and "mem_extends mem mem'" and "v \<le> mem_version mem"
  shows "mem_contents mem' v = mem_contents mem v"
  using assms
  by (intro omap_eqI) (simp_all add: mem_contents_wf fun_eq_iff map_of_mem_contents mem_extends_def)

lemma client_serial:
  assumes "client_ok v0 mem c" and "cl_rest c = Done a" and "mem_wf mem"
    and "agrees mem (cl_txn c) (mem_contents mem v)"
  shows "serial (cl_prog c) (mem_contents mem v) a (overlay (mem_contents mem v) (tx_changes (cl_txn c)))"
  using assms by (simp add: client_ok_def continues_def mem_contents_wf serial_Done)

lemma commit_update:
  assumes c: "client_ok v0 mem c" and v: "0 \<le> v0" "v0 \<le> mem_version mem" and rest: "cl_rest c = Done a"
    and mem: "mem_wf mem" and ch: "tx_changes (cl_txn c) \<noteq> []"
    and r: "tx_commit None mem (cl_txn c) = (Ret u, mem', t')"
  shows "mem_wf mem' \<and> mem_extends mem mem' \<and> mem_version mem' = mem_version mem + 1 \<and>
    serial (cl_prog c) (mem_contents mem (mem_version mem)) a (mem_contents mem' (mem_version mem'))"
proof -
  let ?t = "cl_txn c"
  let ?u = "fix_readVersion mem ?t"
  have ok: "txn_ok v0 mem ?t" and d: "omap_wf (tx_changes ?t)"
    using c by (simp_all add: client_ok_def txn_ok_def)
  have rv: "tx_readVersion ?u \<le> mem_version mem"
    by (rule txn_ok_fix(3) [OF ok v])
  from r ok obtain ver where m: "mem_commit mem (tx_readVersion ?u) (tx_readKeys ?t) (tx_readRanges ?t) (tx_changes ?t) [] [] = Ret (ver, mem')"
    by (auto simp: tx_commit_def txn_ok_def Let_def split: outcome.splits prod.splits)
  have x: "mem_wf mem'" "mem_extends mem mem'"
    using mem_commit_extends [OF mem m] by blast+
  note w = mem_commit_writes [OF mem omap_wf_distinct [OF d] ch m]
  have "agrees mem ?u (mem_contents mem (mem_version mem))"
    using w(4,5) no_key_conflict [OF _ rv] unfolding agrees_def was_read_def map_of_mem_contents [OF mem]
    by (metis fix_readVersion_fields(2,3))
  then have s: "serial (cl_prog c) (mem_contents mem (mem_version mem)) a (overlay (mem_contents mem (mem_version mem)) (tx_changes ?t))"
    by (intro client_serial [OF c rest mem] agrees_fix [OF ok])
  have "mem_contents mem' ver = overlay (mem_contents mem (mem_version mem)) (tx_changes ?t)"
    using w(1) w(3) mem_get_current [OF mem, of ver] x(1) mem d
    by (intro omap_eqI) (auto simp: overlay_wf mem_contents_wf fun_eq_iff map_of_mem_contents map_of_overlay
        omap_wf_distinct split: option.split)
  with s x w(1,2) show ?thesis by simp
qed

lemma commit_read_only:
  assumes c: "client_ok v0 mem c" and v: "0 \<le> v0" "v0 \<le> mem_version mem" and rest: "cl_rest c = Done a"
    and mem: "mem_wf mem" and ch: "tx_changes (cl_txn c) = []"
    and r: "tx_commit None mem (cl_txn c) = (Ret u, mem', t')"
  shows "mem' = mem \<and> tx_changes t' = [] \<and> v0 \<le> tx_readVersion t' \<and> tx_readVersion t' \<le> mem_version mem \<and>
    serial (cl_prog c) (mem_contents mem (tx_readVersion t')) a (mem_contents mem (tx_readVersion t'))"
proof -
  let ?t = "cl_txn c"
  let ?u = "fix_readVersion mem ?t"
  have ok: "txn_ok v0 mem ?t"
    using c by (simp add: client_ok_def)
  have t': "t' = ?u\<lparr>tx_commitVersion := -1\<rparr>" and "mem' = mem"
    using r ok ch by (auto simp: tx_commit_def txn_ok_def mem_commit_def)
  have "agrees mem ?u (mem_contents mem (tx_readVersion ?u))"
    by (simp add: agrees_def map_of_mem_contents [OF mem])
  then have "serial (cl_prog c) (mem_contents mem (tx_readVersion ?u)) a (overlay (mem_contents mem (tx_readVersion ?u)) (tx_changes ?t))"
    by (intro client_serial [OF c rest mem] agrees_fix [OF ok])
  with txn_ok_fix [OF ok v] \<open>mem' = mem\<close> show ?thesis
    by (simp add: t' ch overlay_def)
qed

section \<open>The invariant of the system\<close>

definition history_ok :: "MemKV \<Rightarrow> ('a prog \<times> 'a) list \<Rightarrow> MemKV \<Rightarrow> bool" where
  "history_ok m0 l mem \<longleftrightarrow> mem_version mem = mem_version m0 + int (length l) \<and>
     (\<forall>i \<le> length l. serial_log (take i l) (mem_contents m0 (mem_version m0)) (mem_contents mem (mem_version m0 + int i)))"

definition reads_ok :: "MemKV \<Rightarrow> ('a prog \<times> 'a \<times> int) list \<Rightarrow> MemKV \<Rightarrow> bool" where
  "reads_ok m0 rs mem \<longleftrightarrow> (\<forall>(p, a, v) \<in> set rs. mem_version m0 \<le> v \<and> v \<le> mem_version mem \<and>
     serial p (mem_contents mem v) a (mem_contents mem v))"

definition sys_ok :: "MemKV \<Rightarrow> 'a system \<Rightarrow> bool" where
  "sys_ok m0 s \<longleftrightarrow> mem_wf (sys_mem s) \<and> mem_version m0 \<le> mem_version (sys_mem s) \<and>
     (\<forall>c. Some c \<in> set (sys_clients s) \<longrightarrow> client_ok (mem_version m0) (sys_mem s) c) \<and>
     history_ok m0 (sys_log s) (sys_mem s) \<and> reads_ok m0 (sys_reads s) (sys_mem s)"

lemma history_ok_append:
  assumes h: "history_ok m0 l mem" and wf: "mem_wf mem" "mem_wf mem'" and x: "mem_extends mem mem'"
    and ver: "mem_version mem' = mem_version mem + 1"
    and s: "serial p (mem_contents mem (mem_version mem)) a (mem_contents mem' (mem_version mem'))"
  shows "history_ok m0 (l @ [(p, a)]) mem'"
proof -
  let ?c0 = "mem_contents m0 (mem_version m0)"
  have len: "mem_version mem = mem_version m0 + int (length l)"
    using h by (simp add: history_ok_def)
  have old: "serial_log (take i l) ?c0 (mem_contents mem' (mem_version m0 + int i))" if "i \<le> length l" for i
    using h that mem_contents_extends [OF wf x, of "mem_version m0 + int i"] len
    by (simp add: history_ok_def)
  have new: "serial_log (l @ [(p, a)]) ?c0 (mem_contents mem' (mem_version mem'))"
    using old [of "length l"] s len mem_contents_extends [OF wf x, of "mem_version mem"]
    by (auto simp: serial_log_append)
  have "serial_log (take i (l @ [(p, a)])) ?c0 (mem_contents mem' (mem_version m0 + int i))"
    if "i \<le> length (l @ [(p, a)])" for i
  proof (cases "i \<le> length l")
    case False
    with that have "i = length l + 1" by simp
    with new show ?thesis by (simp add: ver len ac_simps)
  qed (use old in simp)
  then show ?thesis
    by (simp add: history_ok_def ver len)
qed

lemma reads_ok_extends:
  assumes "reads_ok m0 rs mem" and "mem_wf mem" "mem_wf mem'" and "mem_extends mem mem'"
  shows "reads_ok m0 rs mem'"
  using assms(1) mem_contents_extends [OF assms(2-4)] assms(4)
  unfolding reads_ok_def mem_extends_def by fastforce

lemma clients_update:
  "Some c' \<in> set (cs[i := x]) \<Longrightarrow> Some c' = x \<or> Some c' \<in> set cs"
  using set_update_subset_insert [of cs i x] by auto

lemma txn_ok_reset:
  assumes "0 \<le> mem_version mem"
  shows "txn_ok v0 mem (tx_reset t)"
  using assms by (simp add: txn_ok_def tx_reset_def)

lemma client_commit_ok:
  assumes s: "sys_ok m0 s" and v0: "0 \<le> mem_version m0" and c: "Some c \<in> set (sys_clients s)"
    and rest: "cl_rest c = Done a"
  shows "sys_ok m0 (client_commit i c a s)"
proof -
  let ?mem = "sys_mem s" and ?v0 = "mem_version m0"
  have mem: "mem_wf ?mem" "?v0 \<le> mem_version ?mem" and cs: "\<And>c. Some c \<in> set (sys_clients s) \<Longrightarrow> client_ok ?v0 ?mem c"
    and h: "history_ok m0 (sys_log s) ?mem" and rs: "reads_ok m0 (sys_reads s) ?mem"
    using s by (simp_all add: sys_ok_def)
  obtain r mem' t where tx: "tx_commit None ?mem (cl_txn c) = (r, mem', t)"
    by (metis prod_cases3)
  note ok = cs [OF c]
  show ?thesis
  proof (cases "\<exists>u. r = Ret u")
    case False
    then have "client_commit i c a s = s\<lparr>sys_clients := (sys_clients s)[i := Some (c\<lparr>cl_rest := cl_prog c, cl_txn := tx_reset t\<rparr>)]\<rparr>"
      using tx by (cases r) (simp_all add: client_commit_def)
    moreover have "client_ok ?v0 ?mem (c\<lparr>cl_rest := cl_prog c, cl_txn := tx_reset t\<rparr>)"
      using client_ok_new [of "tx_reset t" ?v0 ?mem "cl_prog c"] txn_ok_reset [of ?mem ?v0 t] mem(2) v0
      by (simp add: tx_reset_def client_ok_def continues_def)
    ultimately show ?thesis
      using mem h rs cs by (auto simp: sys_ok_def dest!: clients_update)
  next
    case True
    then obtain u where r: "tx_commit None ?mem (cl_txn c) = (Ret u, mem', t)"
      using tx by auto
    have tch: "tx_changes t = tx_changes (cl_txn c)"
      using r by (auto simp: tx_commit_def Let_def split: if_splits outcome.splits)
    show ?thesis
    proof (cases "tx_changes (cl_txn c) = []")
      case True
      note ro = commit_read_only [OF ok v0 mem(2) rest mem(1) True r]
      have "reads_ok m0 (sys_reads s @ [(cl_prog c, a, tx_readVersion t)]) ?mem"
        using rs ro by (simp add: reads_ok_def)
      with ro r h cs mem show ?thesis
        by (auto simp: sys_ok_def client_commit_def tch True dest!: clients_update)
    next
      case False
      note up = commit_update [OF ok v0 mem(2) rest mem(1) False r]
      have "history_ok m0 (sys_log s @ [(cl_prog c, a)]) mem'"
        using up by (intro history_ok_append [OF h mem(1)]) blast+
      moreover have "reads_ok m0 (sys_reads s) mem'"
        using up by (intro reads_ok_extends [OF rs mem(1)]) simp_all
      moreover have "client_ok ?v0 mem' c'" if "Some c' \<in> set (sys_clients s)" for c'
        using client_ok_extends [OF cs [OF that]] up by blast
      ultimately show ?thesis
        using r up mem(2) by (auto simp: sys_ok_def client_commit_def tch False dest!: clients_update)
    qed
  qed
qed

lemma length_omap_put: "length m \<le> length (omap_put k v m)"
  by (induction k v m rule: omap_put.induct) auto

lemma length_put_version: "length m \<le> length (put_version k v x m)"
  by (simp add: put_version_def length_omap_put)

lemma length_fold_mono:
  assumes "\<And>x m. length m \<le> length (f x m)"
  shows "length m \<le> length (fold f xs m)"
  by (induction xs arbitrary: m) (auto intro: le_trans [OF assms])

lemma length_apply_stamped: "apply_stamped v seq cs m = Some m' \<Longrightarrow> length m \<le> length m'"
proof (induction cs arbitrary: seq m)
  case (Cons c cs)
  then obtain k x where "apply_stamped v (seq + 1) cs (put_version k v x m) = Some m'"
    by (auto simp: Let_def split: if_splits option.splits)
  from Cons.IH [OF this] length_put_version show ?case
    by (rule le_trans [rotated])
qed simp

lemma mem_commit_length:
  assumes "mem_commit mem rv rks rrs changes stamped wcs = Ret (ver, mem')"
  shows "length (mem_map mem) \<le> length (mem_map mem')"
proof (cases "changes = [] \<and> stamped = [] \<and> wcs = []")
  case False
  let ?v = "mem_version mem + 1"
  from False assms obtain m where m: "apply_stamped ?v 0 stamped (mem_map mem) = Some m"
    and mem': "mem_map mem' = fold (put_conflict ?v) wcs (fold (\<lambda>(k, x). put_version k ?v x) changes m)"
    by (auto simp: mem_commit_def Let_def split: if_splits option.splits)
  have "length m \<le> length (fold (\<lambda>(k, x). put_version k ?v x) changes m)"
    by (rule length_fold_mono) (auto simp: length_put_version)
  moreover have "length m' \<le> length (fold (put_conflict ?v) wcs m')" for m'
    by (rule length_fold_mono) (auto simp: put_conflict_def length_put_version)
  ultimately show ?thesis
    unfolding mem' using length_apply_stamped [OF m] by (meson le_trans)
qed (use assms in \<open>simp add: mem_commit_def\<close>)

lemma tx_commit_length:
  "tx_commit None mem t = (r, mem', t') \<Longrightarrow> length (mem_map mem) \<le> length (mem_map mem')"
  using mem_commit_length
  by (fastforce simp: tx_commit_def Let_def split: if_splits outcome.splits prod.splits)

lemma sys_step_length: "length (mem_map (sys_mem s)) \<le> length (mem_map (sys_mem (sys_step s e)))"
proof (cases e)
  case (Commit i)
  then show ?thesis
    using tx_commit_length
    by (auto simp: client_commit_def Let_def split: option.split prog.split prod.split outcome.split)
qed (auto split: option.split)

lemma sys_step_ok:
  assumes "sys_ok m0 s" and "0 \<le> mem_version m0" and "mem_small (sys_mem s)"
  shows "sys_ok m0 (sys_step s e)"
proof (cases e)
  case (Start p)
  have "txn_ok (mem_version m0) (sys_mem s) (MemTransaction_of (sys_mem s))"
    using assms(1,2) by (simp add: txn_ok_def MemTransaction_of_def sys_ok_def)
  then have "client_ok (mem_version m0) (sys_mem s)
      \<lparr>cl_prog = p, cl_rest = p, cl_txn = MemTransaction_of (sys_mem s)\<rparr>"
    by (intro client_ok_new) (simp_all add: MemTransaction_of_def)
  with assms(1) Start show ?thesis
    by (simp add: sys_ok_def)
next
  case (Step i)
  have "sys_ok m0 (s\<lparr>sys_clients := (sys_clients s)[i := Some (client_step (sys_mem s) c)]\<rparr>)"
    if "i < length (sys_clients s)" "sys_clients s ! i = Some c" for c
  proof -
    have "Some c \<in> set (sys_clients s)"
      using that nth_mem by fastforce
    then have "client_ok (mem_version m0) (sys_mem s) (client_step (sys_mem s) c)"
      using assms by (intro client_step_ok) (simp_all add: sys_ok_def)
    with assms(1) show ?thesis
      by (auto simp: sys_ok_def dest!: clients_update)
  qed
  with assms(1) Step show ?thesis
    by (simp split: option.split)
next
  case (Commit i)
  have "sys_ok m0 (client_commit i c a s)"
    if "i < length (sys_clients s)" "sys_clients s ! i = Some c" "cl_rest c = Done a" for c a
    using client_commit_ok [OF assms(1,2) _ that(3)] that(1,2) nth_mem by fastforce
  with assms(1) Commit show ?thesis
    by (simp split: option.split prog.split)
qed

lemma sys_run_ok:
  assumes "mem_wf m0" and "0 \<le> mem_version m0"
  shows "mem_small (sys_mem (sys_run m0 es)) \<Longrightarrow> sys_ok m0 (sys_run m0 es)"
proof (induction es rule: rev_induct)
  case Nil
  with assms show ?case
    by (simp add: sys_run_def sys_init_def sys_ok_def history_ok_def reads_ok_def)
next
  case (snoc e es)
  have run: "sys_run m0 (es @ [e]) = sys_step (sys_run m0 es) e"
    by (simp add: sys_run_def)
  with snoc.prems have "mem_small (sys_mem (sys_run m0 es))"
    using sys_step_length [of "sys_run m0 es" e] by (simp add: mem_small_def)
  then show ?case
    unfolding run using snoc.IH assms(2) by (intro sys_step_ok)
qed

section \<open>Serialisability\<close>

text \<open>
  C24: any interleaving of transactions over the in-memory store is serialisable. The updates that
  commit behave as if they had run one after the other in the order of their commit versions, from the
  initial contents to the current ones with every version in between, and every read-only transaction
  that commits behaves as if it had run alone at its read version. The transactions consist of reads of
  keys and of ranges from an inclusive begin, of writes and of clears; snapshot reads, stamped writes
  and ranges from an exclusive begin are not among them. The store has
  fewer keys than a range read can return.
\<close>

theorem transactions_serialisable:
  assumes "mem_wf m0" and "0 \<le> mem_version m0" and "mem_small (sys_mem (sys_run m0 es))"
  shows "let s = sys_run m0 es; mem = sys_mem s; v0 = mem_version m0
    in mem_version mem = v0 + int (length (sys_log s)) \<and>
       (\<forall>i \<le> length (sys_log s).
          serial_log (take i (sys_log s)) (mem_contents m0 v0) (mem_contents mem (v0 + int i))) \<and>
       (\<forall>(p, a, v) \<in> set (sys_reads s). v0 \<le> v \<and> v \<le> mem_version mem \<and>
          serial p (mem_contents mem v) a (mem_contents mem v))"
  using sys_run_ok [OF assms] unfolding sys_ok_def history_ok_def reads_ok_def Let_def by blast

definition sample_prog :: "unit prog" where
  "sample_prog = Get ''x'' (\<lambda>old. Put ''x'' (case old of None \<Rightarrow> ''1'' | Some v \<Rightarrow> v @ ''1'') (Done ()))"

definition sample_events :: "unit event list" where
  "sample_events = [Start sample_prog, Start sample_prog, Step 0, Step 1, Step 0, Commit 0, Step 1,
     Commit 1, Step 1, Step 1, Commit 1]"

definition empty_mem :: MemKV where
  "empty_mem = \<lparr>mem_map = [], mem_version = 0\<rparr>"

theorem transactions_serialisable_witness:
  "length (sys_log (sys_run empty_mem sample_events)) = 2 \<and>
   serial_log (sys_log (sys_run empty_mem sample_events)) [] [(''x'', ''11'')]"
proof -
  let ?s = "sys_run empty_mem sample_events"
  have wf: "mem_wf empty_mem" "0 \<le> mem_version empty_mem"
    by (simp_all add: empty_mem_def mem_wf_def map_wf_def)
  have len: "length (sys_log ?s) = 2" and c0: "mem_contents empty_mem (mem_version empty_mem) = []"
    and c: "mem_contents (sys_mem ?s) 2 = [(''x'', ''11'')]" and one: "length (mem_map (sys_mem ?s)) = 1"
    by code_simp+
  have "mem_small (sys_mem ?s)"
    by (simp add: mem_small_def one)
  from transactions_serialisable [OF wf this]
  have "serial_log (take 2 (sys_log ?s)) (mem_contents empty_mem (mem_version empty_mem))
      (mem_contents (sys_mem ?s) (mem_version empty_mem + int 2))"
    unfolding Let_def len by blast
  moreover have "mem_version empty_mem + int 2 = 2"
    by (simp add: empty_mem_def)
  ultimately show ?thesis
    using len c0 c by simp
qed

end
