(* ===== verification/App_Info.thy ===== *)
theory App_Info
  imports Prelude
begin

text \<open>
  Application data shared by all services (\<^verbatim>\<open>src/src/common/app/AppInfo.h\<close> and \<^verbatim>\<open>AppInfo.cc\<close>): tags,
  service groups, and release versions. A release version packs its fields into the struct of
  an older format; the cluster manager compares release versions to decide which process may
  take over the lease, so their order matters. A FATAL log (an unknown major version) is None.
\<close>

section \<open>Definitions\<close>

type_synonym NodeId = "32 word"

datatype AddressType = TCP | RDMA | IPoIB | LOCAL | UNIX

record Address =
  addr_ip :: "32 word"
  addr_port :: "16 word"
  addr_type :: AddressType

record ServiceGroupInfo =
  sg_services :: "string list"
  sg_endpoints :: "Address list"

record TagPair =
  tag_key :: string
  tag_value :: string

record ReleaseVersion =
  rv_majorVersion :: "8 word"
  rv_minorVersion :: "8 word"
  rv_patchVersion :: "8 word"
  rv_commitHashShort :: "32 word"
  rv_buildTimeInSeconds :: "64 word"
  rv_buildPipelineId :: "32 word"

definition default_ReleaseVersion :: ReleaseVersion where
  "default_ReleaseVersion = \<lparr>rv_majorVersion = 1, rv_minorVersion = 0, rv_patchVersion = 0,
     rv_commitHashShort = 0, rv_buildTimeInSeconds = 0, rv_buildPipelineId = 0\<rparr>"

definition getIsReleaseVersion :: "ReleaseVersion \<Rightarrow> bool option" where
  "getIsReleaseVersion rv =
     (if rv_majorVersion rv = 0 then Some True
      else if rv_majorVersion rv = 1 then Some (rv_minorVersion rv \<noteq> 0)
      else None)"

definition getTagDate :: "ReleaseVersion \<Rightarrow> 32 word option" where
  "getTagDate rv =
     (if rv_majorVersion rv = 0 then Some 230626
      else if rv_majorVersion rv = 1 then Some (ucast (drop_bit 32 (rv_buildTimeInSeconds rv)))
      else None)"

definition getPatchVersion :: "ReleaseVersion \<Rightarrow> 32 word option" where
  "getPatchVersion rv =
     (if rv_majorVersion rv = 0 then Some (ucast (rv_patchVersion rv))
      else if rv_majorVersion rv = 1 then Some (ucast (rv_buildTimeInSeconds rv))
      else None)"

definition setIsReleaseVersion :: "ReleaseVersion \<Rightarrow> bool \<Rightarrow> ReleaseVersion" where
  "setIsReleaseVersion rv b = rv\<lparr>rv_minorVersion := (if b then 1 else 0)\<rparr>"

definition setTagDate :: "ReleaseVersion \<Rightarrow> 32 word \<Rightarrow> ReleaseVersion option" where
  "setTagDate rv tagDate = map_option (\<lambda>pv. rv\<lparr>rv_buildTimeInSeconds :=
     push_bit 32 (ucast tagDate) + ucast pv\<rparr>) (getPatchVersion rv)"

definition setPatchVersion :: "ReleaseVersion \<Rightarrow> 32 word \<Rightarrow> ReleaseVersion option" where
  "setPatchVersion rv patchVersion = map_option (\<lambda>td. rv\<lparr>rv_buildTimeInSeconds :=
     push_bit 32 (ucast td) + ucast patchVersion\<rparr>) (getTagDate rv)"

definition ReleaseVersion_of ::
  "bool \<Rightarrow> 32 word \<Rightarrow> 16 word \<Rightarrow> 32 word \<Rightarrow> 32 word \<Rightarrow> ReleaseVersion option" where
  "ReleaseVersion_of isReleaseVersion tagDate patchVersion pipelineId commitHashShort =
     (let rv = setIsReleaseVersion default_ReleaseVersion isReleaseVersion
      in case setTagDate rv tagDate of
           None \<Rightarrow> None
         | Some rv1 \<Rightarrow> (case setPatchVersion rv1 (ucast patchVersion) of
             None \<Rightarrow> None
           | Some rv2 \<Rightarrow> Some (rv2\<lparr>rv_buildPipelineId := pipelineId,
                                   rv_commitHashShort := commitHashShort\<rparr>)))"

datatype strong_ordering = Less | Equal | Greater

definition cmp3 :: "'a::linorder \<Rightarrow> 'a \<Rightarrow> strong_ordering" where
  "cmp3 x y = (if x < y then Less else if x = y then Equal else Greater)"

text \<open>The \<^verbatim>\<open>CMP\<close> macro: the first comparison that is not equal decides.\<close>

fun first_cmp :: "strong_ordering list \<Rightarrow> strong_ordering" where
  "first_cmp [] = Equal"
| "first_cmp (c # cs) = (if c \<noteq> Equal then c else first_cmp cs)"

definition ReleaseVersion_cmp :: "ReleaseVersion \<Rightarrow> ReleaseVersion \<Rightarrow> strong_ordering option" where
  "ReleaseVersion_cmp a b =
     (if rv_majorVersion a \<noteq> rv_majorVersion b then Some (cmp3 (rv_majorVersion a) (rv_majorVersion b))
      else if rv_majorVersion a = 0 then
        Some (first_cmp [cmp3 (rv_majorVersion a) (rv_majorVersion b),
          cmp3 (rv_minorVersion a) (rv_minorVersion b),
          cmp3 (rv_patchVersion a) (rv_patchVersion b),
          cmp3 (rv_buildPipelineId a) (rv_buildPipelineId b),
          cmp3 (rv_buildTimeInSeconds a) (rv_buildTimeInSeconds b),
          cmp3 (rv_commitHashShort a) (rv_commitHashShort b)])
      else (case (getTagDate a, getTagDate b, getIsReleaseVersion a, getIsReleaseVersion b,
                  getPatchVersion a, getPatchVersion b) of
          (Some ta, Some tb, Some ra, Some rb, Some pa, Some pb) \<Rightarrow>
            Some (first_cmp [cmp3 ta tb, cmp3 (\<not> ra) (\<not> rb), cmp3 pa pb])
        | _ \<Rightarrow> None))"

definition ReleaseVersion_eq :: "ReleaseVersion \<Rightarrow> ReleaseVersion \<Rightarrow> bool option" where
  "ReleaseVersion_eq a b =
     (if rv_majorVersion a \<noteq> rv_majorVersion b then Some False
      else if rv_majorVersion a = 0 then Some (rv_commitHashShort a = rv_commitHashShort b \<and>
        rv_majorVersion a = rv_majorVersion b \<and> rv_minorVersion a = rv_minorVersion b \<and>
        rv_patchVersion a = rv_patchVersion b \<and>
        rv_buildTimeInSeconds a = rv_buildTimeInSeconds b \<and>
        rv_buildPipelineId a = rv_buildPipelineId b)
      else if rv_majorVersion a = 1 then Some (getTagDate a = getTagDate b \<and>
        getIsReleaseVersion a = getIsReleaseVersion b \<and> getPatchVersion a = getPatchVersion b)
      else None)"

record FbsAppInfo =
  app_nodeId :: NodeId
  app_hostname :: string
  app_pid :: "32 word"
  app_serviceGroups :: "ServiceGroupInfo list"
  app_releaseVersion :: ReleaseVersion
  app_podname :: string

fun findTag_from :: "nat \<Rightarrow> TagPair list \<Rightarrow> string \<Rightarrow> int" where
  "findTag_from i [] tag = -1"
| "findTag_from i (t # ts) tag = (if tag_key t = tag then int i else findTag_from (Suc i) ts tag)"

definition findTag :: "TagPair list \<Rightarrow> string \<Rightarrow> int" where
  "findTag tags tag = findTag_from 0 tags tag"

fun removeTag :: "TagPair list \<Rightarrow> string \<Rightarrow> bool \<times> TagPair list" where
  "removeTag [] tag = (False, [])"
| "removeTag (t # ts) tag =
     (if tag_key t = tag then (True, ts) else (case removeTag ts tag of (b, ts') \<Rightarrow> (b, t # ts')))"

definition kDisabledTagKey :: string where
  "kDisabledTagKey = ''Disable''"

fun extractAddresses :: "ServiceGroupInfo list \<Rightarrow> string \<Rightarrow> AddressType option \<Rightarrow> Address list" where
  "extractAddresses [] serviceName ty = []"
| "extractAddresses (g # gs) serviceName ty =
     (if serviceName \<in> set (sg_services g)
      then filter (\<lambda>a. ty = None \<or> addr_type a = the ty) (sg_endpoints g)
      else []) @ extractAddresses gs serviceName ty"

section \<open>Tags\<close>

lemma findTag_from_ge: "findTag_from i ts tag = -1 \<or> int i \<le> findTag_from i ts tag"
  by (induction ts arbitrary: i) (force simp: le_less)+

lemma findTag_missing: "findTag ts tag = -1 \<longleftrightarrow> tag \<notin> tag_key ` set ts"
proof -
  have "findTag_from i ts tag = -1 \<longleftrightarrow> tag \<notin> tag_key ` set ts" for i
    by (induction ts arbitrary: i) auto
  then show ?thesis
    by (simp add: findTag_def)
qed

lemma removeTag_fst: "fst (removeTag ts tag) \<longleftrightarrow> tag \<in> tag_key ` set ts"
  by (induction ts) (auto split: prod.splits)

lemma removeTag_snd:
  "distinct (map tag_key ts) \<Longrightarrow> snd (removeTag ts tag) = filter (\<lambda>t. tag_key t \<noteq> tag) ts"
proof (induction ts)
  case (Cons t ts)
  then have "tag_key t \<notin> tag_key ` set ts" by simp
  then have "filter (\<lambda>t'. tag_key t' \<noteq> tag_key t) ts = ts"
    by (intro filter_True) (metis imageI)
  with Cons show ?case
    by (auto split: prod.splits)
qed simp

section \<open>The order of release versions\<close>

lemma first_cmp_Cons3: "first_cmp (cmp3 x y # cs) = (if x < y then Less else if x = y then first_cmp cs else Greater)"
  by (auto simp: cmp3_def)

text \<open>What a release version is compared by, as a list of numbers compared lexicographically.\<close>

definition release_key :: "ReleaseVersion \<Rightarrow> nat list" where
  "release_key rv = unat (rv_majorVersion rv) #
     (if rv_majorVersion rv = 0 then [unat (rv_minorVersion rv), unat (rv_patchVersion rv),
        unat (rv_buildPipelineId rv), unat (rv_buildTimeInSeconds rv), unat (rv_commitHashShort rv)]
      else [unat (rv_buildTimeInSeconds rv) div 2 ^ 32, if rv_minorVersion rv = 0 then 1 else 0,
        unat (rv_buildTimeInSeconds rv) mod 2 ^ 32])"

lemma unat_high: "unat (ucast (drop_bit 32 (w :: 64 word)) :: 32 word) = unat w div 2 ^ 32"
proof -
  have "unat w < 2 ^ 64"
    using unsigned_less [of w, where ?'a = nat] by simp
  then have "unat w div 2 ^ 32 < 2 ^ 32"
    by (intro less_mult_imp_div_less) simp
  moreover have "unat (drop_bit 32 w) = unat w div 2 ^ 32"
    using \<open>unat w < 2 ^ 64\<close> by (simp only: unsigned_drop_bit_eq) (simp add: drop_bit_eq_div take_bit_eq_mod)
  ultimately show ?thesis
    by (simp add: unsigned_ucast_eq take_bit_eq_mod del: drop_bit_eq_div)
qed

lemma unat_low: "unat (ucast (w :: 64 word) :: 32 word) = unat w mod 2 ^ 32"
  by (simp add: unsigned_ucast_eq take_bit_eq_mod)

lemma cmp3_unat: "cmp3 (unat x) (unat y) = cmp3 x (y :: 'a::len word)"
  by (simp add: cmp3_def word_less_nat_alt word_unat_eq_iff)

lemma cmp3_Cons: "cmp3 (x # xs) (y # ys) = first_cmp [cmp3 x y, cmp3 xs (ys :: 'a::linorder list)]"
  by (auto simp: cmp3_def)

lemma first_cmp_nested: "first_cmp [c, first_cmp cs] = first_cmp (c # cs)"
  by (cases c; cases "first_cmp cs") auto

lemma cmp3_lists:
  "cmp3 [] ([] :: nat list) = Equal"
  "cmp3 (x # xs) (y # ys) = first_cmp [cmp3 x y, cmp3 xs (ys :: nat list)]"
  by (simp_all add: cmp3_Cons) (simp add: cmp3_def)

lemma cmp3_flag: "cmp3 (if x then 1 else (0::nat)) (if y then 1 else 0) = cmp3 x y"
  by (auto simp: cmp3_def)

lemma cmp3_getters:
  assumes "rv_majorVersion a = 1" and "rv_majorVersion b = 1"
  shows "cmp3 (the (getTagDate a)) (the (getTagDate b)) =
      cmp3 (unat (rv_buildTimeInSeconds a) div 2 ^ 32) (unat (rv_buildTimeInSeconds b) div 2 ^ 32)"
    and "cmp3 (the (getPatchVersion a)) (the (getPatchVersion b)) =
      cmp3 (unat (rv_buildTimeInSeconds a) mod 2 ^ 32) (unat (rv_buildTimeInSeconds b) mod 2 ^ 32)"
  unfolding getTagDate_def getPatchVersion_def assms
  by (simp only: cmp3_unat [where 'a = 32, symmetric] unat_high one_neq_zero if_False if_True refl option.sel)
    (simp only: cmp3_unat [where 'a = 32, symmetric] unat_low one_neq_zero if_False if_True refl option.sel)

lemma cmp3_refl [simp]: "cmp3 x x = Equal"
  by (simp add: cmp3_def)

lemma cmp3_Equal: "cmp3 x y = Equal \<longleftrightarrow> x = y"
  by (simp add: cmp3_def)

text \<open>
  Release versions are totally ordered. For the known formats (major version 0 or 1) the
  three-way comparison is the lexicographic comparison of the keys and equality is equality of
  the keys, so the comparison is total, transitive and consistent with equality; it never
  reaches the fatal branch.
\<close>

lemma ReleaseVersion_order:
  assumes "rv_majorVersion a \<in> {0, 1}" and "rv_majorVersion b \<in> {0, 1}"
  shows "ReleaseVersion_cmp a b = Some (cmp3 (release_key a) (release_key b)) \<and>
    ReleaseVersion_eq a b = Some (release_key a = release_key b)"
proof -
  consider "rv_majorVersion a = 0" "rv_majorVersion b = 1" | "rv_majorVersion a = 1" "rv_majorVersion b = 0"
    | "rv_majorVersion a = 0" "rv_majorVersion b = 0" | "rv_majorVersion a = 1" "rv_majorVersion b = 1"
    using assms by auto
  then show ?thesis
  proof cases
    case 3
    then show ?thesis
      by (auto simp: ReleaseVersion_cmp_def ReleaseVersion_eq_def release_key_def cmp3_lists cmp3_unat
          first_cmp_nested word_unat_eq_iff [symmetric])
  next
    case 4
    then obtain ta tb pa pb where get: "getTagDate a = Some ta" "getTagDate b = Some tb"
        "getPatchVersion a = Some pa" "getPatchVersion b = Some pb"
      by (auto simp: getTagDate_def getPatchVersion_def)
    have rel: "getIsReleaseVersion a = Some (rv_minorVersion a \<noteq> 0)"
        "getIsReleaseVersion b = Some (rv_minorVersion b \<noteq> 0)"
      using 4 by (simp_all add: getIsReleaseVersion_def)
    from 4 show ?thesis
      using cmp3_getters [OF 4]
      by (simp add: ReleaseVersion_cmp_def ReleaseVersion_eq_def get rel release_key_def cmp3_lists
          first_cmp_nested cmp3_flag) (auto simp: cmp3_Equal [symmetric])
  qed (auto simp: ReleaseVersion_cmp_def ReleaseVersion_eq_def release_key_def cmp3_def)
qed

lemma unat_pack:
  "unat (push_bit 32 (ucast (t :: 32 word)) + ucast (p :: 32 word) :: 64 word) = unat t * 2 ^ 32 + unat p"
proof -
  have "unat t < 2 ^ 32" "unat p < 2 ^ 32"
    using unsigned_less [of t, where ?'a = nat] unsigned_less [of p, where ?'a = nat] by simp_all
  then have "unat t * 2 ^ 32 + unat p < 2 ^ 64"
    by simp
  moreover have "push_bit 32 (ucast t) + ucast p = (of_nat (unat t * 2 ^ 32 + unat p) :: 64 word)"
    by (simp add: push_bit_eq_mult)
  ultimately show ?thesis
    by (simp only: unsigned_of_nat) (simp add: take_bit_eq_mod)
qed

lemma pack_getters:
  "ucast (drop_bit 32 (push_bit 32 (ucast (t :: 32 word)) + ucast (p :: 32 word) :: 64 word)) = t"
  "ucast (push_bit 32 (ucast (t :: 32 word)) + ucast (p :: 32 word) :: 64 word) = p"
proof -
  have p: "unat p mod 2 ^ 32 = unat p" "unat p div 2 ^ 32 = 0"
    using unsigned_less [of p, where ?'a = nat] by simp_all
  show "ucast (drop_bit 32 (push_bit 32 (ucast t) + ucast p :: 64 word)) = t"
    using p by (simp add: word_unat_eq_iff [where 'a = 32] unat_high unat_pack del: unsigned_ucast_eq)
  show "ucast (push_bit 32 (ucast t) + ucast p :: 64 word) = p"
    using p by (simp add: word_unat_eq_iff [where 'a = 32] unat_low unat_pack del: unsigned_ucast_eq)
qed

text \<open>
  The packed fields of a release version can be read back. The constructor never reaches the
  fatal branch, and the getters return the release flag, tag date and patch version it was given.
\<close>

lemma ReleaseVersion_roundtrip:
  "\<exists>rv. ReleaseVersion_of rel tagDate patch pipeline commit = Some rv \<and>
     getIsReleaseVersion rv = Some rel \<and> getTagDate rv = Some tagDate \<and>
     getPatchVersion rv = Some (ucast patch) \<and>
     rv_buildPipelineId rv = pipeline \<and> rv_commitHashShort rv = commit"
proof -
  have "ucast (drop_bit 32 (push_bit 32 (ucast tagDate) :: 64 word)) = tagDate"
    using pack_getters(1) [of tagDate 0] by simp
  then show ?thesis
    by (simp add: ReleaseVersion_of_def setTagDate_def setPatchVersion_def setIsReleaseVersion_def
        default_ReleaseVersion_def getIsReleaseVersion_def
        getTagDate_def getPatchVersion_def Let_def pack_getters del: drop_bit_eq_div push_bit_eq_mult)
qed

end
