(* ===== verification/Ring_Buffer.thy ===== *)
theory Ring_Buffer
  imports Prelude
begin

text \<open>
  The ring buffer \<^verbatim>\<open>src/src/common/utils/SimpleRingBuffer.h\<close> that keeps the last status changes of
  a node (\<^verbatim>\<open>src/src/mgmtd/service/NodeInfoWrapper.h\<close>). A slot is None while no object lives in
  its bytes. \<open>head\<close> and \<open>tail\<close> are \<^verbatim>\<open>size_t\<close> counters that only grow; a position is reduced
  modulo the capacity when it is turned into an address.
\<close>

section \<open>Definitions\<close>

record 'a SimpleRingBuffer =
  rb_cap :: "64 word"
  rb_head :: "64 word"
  rb_tail :: "64 word"
  rb_slots :: "'a option list"

definition rb_new :: "64 word \<Rightarrow> 'a SimpleRingBuffer" where
  "rb_new capacity = \<lparr>rb_cap = capacity, rb_head = 0, rb_tail = 0,
     rb_slots = replicate (unat capacity) None\<rparr>"

definition rb_addr :: "'a SimpleRingBuffer \<Rightarrow> 64 word \<Rightarrow> nat" where
  "rb_addr rb pos = unat (pos mod rb_cap rb)"

definition rb_empty :: "'a SimpleRingBuffer \<Rightarrow> bool" where
  "rb_empty rb \<longleftrightarrow> rb_head rb = rb_tail rb"

definition rb_full :: "'a SimpleRingBuffer \<Rightarrow> bool" where
  "rb_full rb \<longleftrightarrow> rb_head rb = rb_tail rb + rb_cap rb"

definition rb_push :: "'a \<Rightarrow> 'a SimpleRingBuffer \<Rightarrow> bool \<times> 'a SimpleRingBuffer" where
  "rb_push v rb =
     (if rb_full rb then (False, rb)
      else (True, rb\<lparr>rb_slots := (rb_slots rb)[rb_addr rb (rb_head rb) := Some v],
                     rb_head := rb_head rb + 1\<rparr>))"

definition rb_pop :: "'a SimpleRingBuffer \<Rightarrow> bool \<times> 'a SimpleRingBuffer" where
  "rb_pop rb =
     (if rb_empty rb then (False, rb)
      else (True, rb\<lparr>rb_slots := (rb_slots rb)[rb_addr rb (rb_tail rb) := None],
                     rb_tail := rb_tail rb + 1\<rparr>))"

text \<open>
  Iterating from \<^verbatim>\<open>begin()\<close> to \<^verbatim>\<open>end()\<close>: \<^verbatim>\<open>operator++\<close> reduces the position modulo the capacity,
  \<^verbatim>\<open>operator==\<close> compares the positions. The loop need not end; None is a loop that does not end
  or reads a slot without an object.
\<close>

definition iter_next :: "'a SimpleRingBuffer \<Rightarrow> 64 word \<Rightarrow> 64 word" where
  "iter_next rb pos = (pos + 1) mod rb_cap rb"

partial_function (option) rb_iterate ::
  "'a SimpleRingBuffer \<Rightarrow> 64 word \<Rightarrow> 64 word \<Rightarrow> 'a list option" where
  "rb_iterate rb pos last_pos =
     (if pos = last_pos then Some []
      else case rb_slots rb ! rb_addr rb pos of
          None \<Rightarrow> None
        | Some v \<Rightarrow> Option.bind (rb_iterate rb (iter_next rb pos) last_pos) (\<lambda>vs. Some (v # vs)))"

definition rb_to_vector :: "'a SimpleRingBuffer \<Rightarrow> 'a list option" where
  "rb_to_vector rb = rb_iterate rb (rb_tail rb) (rb_head rb)"

text \<open>\<^verbatim>\<open>NodeInfoWrapper::recordStatusChange\<close> on its buffer.\<close>

definition rb_record :: "'a \<Rightarrow> 'a SimpleRingBuffer \<Rightarrow> 'a SimpleRingBuffer" where
  "rb_record v rb = (let rb' = (if rb_full rb then snd (rb_pop rb) else rb) in snd (rb_push v rb'))"

section \<open>Bounded queues\<close>

text \<open>
  What the node wrapper relies on. The invariant carries the number of pushes that may still
  happen before the counters wrap.
\<close>

locale bounded_queue =
  fixes inv :: "nat \<Rightarrow> 'q \<Rightarrow> bool"
    and contents :: "'q \<Rightarrow> 'v list"
    and capacity :: "'q \<Rightarrow> nat"
    and full :: "'q \<Rightarrow> bool"
    and push :: "'v \<Rightarrow> 'q \<Rightarrow> bool \<times> 'q"
    and pop :: "'q \<Rightarrow> bool \<times> 'q"
  assumes capacity_pos: "inv n q \<Longrightarrow> 0 < capacity q"
    and full_iff: "inv n q \<Longrightarrow> full q \<longleftrightarrow> length (contents q) = capacity q"
    and length_le: "inv n q \<Longrightarrow> length (contents q) \<le> capacity q"
    and push_ok: "inv (Suc n) q \<Longrightarrow> \<not> full q \<Longrightarrow>
      fst (push v q) \<and> inv n (snd (push v q)) \<and> capacity (snd (push v q)) = capacity q \<and>
      contents (snd (push v q)) = contents q @ [v]"
    and pop_ok: "inv n q \<Longrightarrow> contents q \<noteq> [] \<Longrightarrow>
      fst (pop q) \<and> inv n (snd (pop q)) \<and> capacity (snd (pop q)) = capacity q \<and>
      contents (snd (pop q)) = tl (contents q)"
begin

lemma record_one:
  assumes "inv (Suc n) q" and q': "q' = snd (push v (if full q then snd (pop q) else q))"
  shows "inv n q' \<and> capacity q' = capacity q \<and>
    contents q' = (if full q then tl (contents q) else contents q) @ [v]"
proof (cases "full q")
  case True
  with assms(1) have len: "length (contents q) = capacity q" and ne: "contents q \<noteq> []"
    using full_iff capacity_pos by fastforce+
  from pop_ok [OF assms(1) ne] have p: "inv (Suc n) (snd (pop q))" "capacity (snd (pop q)) = capacity q"
      "contents (snd (pop q)) = tl (contents q)"
    by simp_all
  moreover have "\<not> full (snd (pop q))"
    using p len ne full_iff [OF p(1)] by (cases "contents q") auto
  ultimately show ?thesis
    using True push_ok by (simp add: q')
next
  case False
  then show ?thesis
    using assms(1) push_ok by (simp add: q')
qed

lemma last_entries_step:
  assumes "length xs \<le> c" and "0 < c"
  shows "(if length xs = c then tl xs else xs) @ [v] = drop (length xs + 1 - c) (xs @ [v])"
  using assms by (cases "length xs = c") (auto simp: drop_Suc Suc_diff_le)

lemma record_history:
  assumes "inv (length vs) q"
  defines "rec \<equiv> \<lambda>v p. snd (push v (if full p then snd (pop p) else p))"
  shows "inv 0 (fold rec vs q) \<and>
    contents (fold rec vs q) = drop (length (contents q) + length vs - capacity q) (contents q @ vs)"
  using assms(1)
proof (induction vs arbitrary: q)
  case (Cons v vs)
  let ?c = "contents q" and ?k = "capacity q"
  have inv: "inv (Suc (length vs)) q"
    using Cons.prems by simp
  from record_one [OF inv, of "rec v q" v] have
    r: "inv (length vs) (rec v q)" "capacity (rec v q) = ?k"
       "contents (rec v q) = drop (length ?c + 1 - ?k) (?c @ [v])"
    using last_entries_step [OF length_le [OF inv] capacity_pos [OF inv]]
    by (simp_all add: rec_def full_iff [OF inv])
  from Cons.IH [OF r(1)] show ?case
    using length_le [OF inv] capacity_pos [OF inv]
    by (cases "length ?c = ?k") (auto simp: r drop_append Suc_diff_le)
qed (use length_le in simp)

end

section \<open>The ring buffer is a bounded queue\<close>

definition rb_contents :: "'a SimpleRingBuffer \<Rightarrow> 'a list" where
  "rb_contents rb = map (\<lambda>i. the (rb_slots rb ! (i mod unat (rb_cap rb)))) [unat (rb_tail rb)..<unat (rb_head rb)]"

definition rb_inv :: "nat \<Rightarrow> 'a SimpleRingBuffer \<Rightarrow> bool" where
  "rb_inv n rb \<longleftrightarrow> 0 < unat (rb_cap rb) \<and> length (rb_slots rb) = unat (rb_cap rb) \<and>
     unat (rb_tail rb) \<le> unat (rb_head rb) \<and> unat (rb_head rb) \<le> unat (rb_tail rb) + unat (rb_cap rb) \<and>
     unat (rb_head rb) + n < 2 ^ 64 \<and>
     (\<forall>i \<in> {unat (rb_tail rb)..<unat (rb_head rb)}. rb_slots rb ! (i mod unat (rb_cap rb)) \<noteq> None)"

lemma unat_Suc64: "unat (w :: 64 word) + 1 < 2 ^ 64 \<Longrightarrow> unat (w + 1) = Suc (unat w)"
  by (simp add: unat_word_ariths)

lemma mod_neq_within:
  assumes "i < j" and "j < i + c"
  shows "i mod c \<noteq> j mod (c :: nat)"
proof
  assume "i mod c = j mod c"
  then have "c dvd j - i"
    using assms(1) by (metis less_imp_le mod_eq_dvd_iff_nat)
  then show False
    using assms by (auto dest!: dvd_imp_le)
qed

lemma rb_addr_nat: "rb_addr rb pos = unat pos mod unat (rb_cap rb)"
  by (simp add: rb_addr_def unat_mod_distrib)

lemma rb_full_iff:
  assumes "rb_inv n rb"
  shows "rb_full rb \<longleftrightarrow> unat (rb_head rb) = unat (rb_tail rb) + unat (rb_cap rb)"
proof -
  have lt: "unat (rb_cap rb) < 2 ^ 64" "unat (rb_head rb) < 2 ^ 64"
    using unsigned_less [of "rb_cap rb", where ?'a = nat] unsigned_less [of "rb_head rb", where ?'a = nat]
    by simp_all
  have "unat (rb_tail rb + rb_cap rb) = (unat (rb_tail rb) + unat (rb_cap rb)) mod 2 ^ 64"
    by (simp add: unat_word_ariths)
  with assms lt show ?thesis
    by (auto simp: rb_full_def rb_inv_def word_unat_eq_iff [of "rb_head rb"] mod_if le_mod_geq)
qed

lemma rb_push_ok:
  assumes "rb_inv (Suc n) rb" and "\<not> rb_full rb"
  shows "fst (rb_push v rb) \<and> rb_inv n (snd (rb_push v rb)) \<and>
    rb_cap (snd (rb_push v rb)) = rb_cap rb \<and> rb_contents (snd (rb_push v rb)) = rb_contents rb @ [v]"
proof -
  let ?t = "unat (rb_tail rb)" and ?h = "unat (rb_head rb)" and ?c = "unat (rb_cap rb)"
  have w: "0 < ?c" "length (rb_slots rb) = ?c" "?t \<le> ?h" "?h < ?t + ?c" "?h + Suc n < 2 ^ 64"
    and live: "\<And>i. ?t \<le> i \<Longrightarrow> i < ?h \<Longrightarrow> rb_slots rb ! (i mod ?c) \<noteq> None"
    using assms rb_full_iff [OF assms(1)] by (auto simp: rb_inv_def)
  have suc: "unat (rb_head rb + 1) = Suc ?h"
    using w by (intro unat_Suc64) simp
  have other: "i mod ?c \<noteq> ?h mod ?c" if "?t \<le> i" "i < ?h" for i
    using that w by (intro mod_neq_within) auto
  have slot: "(rb_slots rb)[?h mod ?c := Some v] ! (i mod ?c) =
      (if i = ?h then Some v else rb_slots rb ! (i mod ?c))" if "?t \<le> i" "i < Suc ?h" for i
    using that w other [of i] by (auto simp: less_Suc_eq)
  have "rb_inv n (snd (rb_push v rb))"
    using assms(2) w live slot by (auto simp: rb_push_def rb_inv_def rb_addr_nat suc less_Suc_eq)
  moreover have "rb_contents (snd (rb_push v rb)) = rb_contents rb @ [v]"
    using assms(2) w slot by (auto simp: rb_push_def rb_contents_def rb_addr_nat suc)
  ultimately show ?thesis
    using assms(2) by (simp add: rb_push_def)
qed

lemma rb_pop_ok:
  assumes "rb_inv n rb" and "rb_contents rb \<noteq> []"
  shows "fst (rb_pop rb) \<and> rb_inv n (snd (rb_pop rb)) \<and>
    rb_cap (snd (rb_pop rb)) = rb_cap rb \<and> rb_contents (snd (rb_pop rb)) = tl (rb_contents rb)"
proof -
  let ?t = "unat (rb_tail rb)" and ?h = "unat (rb_head rb)" and ?c = "unat (rb_cap rb)"
  have lt: "?t < ?h"
    using assms by (simp add: rb_contents_def)
  then have ne: "\<not> rb_empty rb"
    by (auto simp: rb_empty_def)
  have w: "0 < ?c" "length (rb_slots rb) = ?c" "?h \<le> ?t + ?c" "?h + n < 2 ^ 64"
    using assms(1) by (auto simp: rb_inv_def)
  have suc: "unat (rb_tail rb + 1) = Suc ?t"
    using w lt by (intro unat_Suc64) simp
  have slot: "(rb_slots rb)[?t mod ?c := None] ! (i mod ?c) = rb_slots rb ! (i mod ?c)"
    if "Suc ?t \<le> i" "i < ?h" for i
    using that w mod_neq_within [of ?t i ?c] by simp
  have "rb_inv n (snd (rb_pop rb))"
    using ne assms(1) lt w slot by (auto simp: rb_pop_def rb_inv_def rb_addr_nat suc)
  moreover have "rb_contents (snd (rb_pop rb)) = tl (rb_contents rb)"
    using ne lt slot by (auto simp: rb_pop_def rb_contents_def rb_addr_nat suc upt_conv_Cons [OF lt] map_tl)
  ultimately show ?thesis
    using ne by (simp add: rb_pop_def)
qed

interpretation rbq: bounded_queue rb_inv rb_contents "\<lambda>rb. unat (rb_cap rb)" rb_full rb_push rb_pop
proof
  fix n and q :: "'b SimpleRingBuffer" and v :: 'b
  show "0 < unat (rb_cap q)" if "rb_inv n q"
    using that by (simp add: rb_inv_def)
  show "rb_full q \<longleftrightarrow> length (rb_contents q) = unat (rb_cap q)" if "rb_inv n q"
    using that rb_full_iff [OF that] by (auto simp: rb_contents_def rb_inv_def)
  show "length (rb_contents q) \<le> unat (rb_cap q)" if "rb_inv n q"
    using that by (auto simp: rb_contents_def rb_inv_def)
  show "fst (rb_push v q) \<and> rb_inv n (snd (rb_push v q)) \<and>
      unat (rb_cap (snd (rb_push v q))) = unat (rb_cap q) \<and> rb_contents (snd (rb_push v q)) = rb_contents q @ [v]"
    if "rb_inv (Suc n) q" and "\<not> rb_full q"
    using rb_push_ok [OF that, of v] by simp
  show "fst (rb_pop q) \<and> rb_inv n (snd (rb_pop q)) \<and>
      unat (rb_cap (snd (rb_pop q))) = unat (rb_cap q) \<and> rb_contents (snd (rb_pop q)) = tl (rb_contents q)"
    if "rb_inv n q" and "rb_contents q \<noteq> []"
    using rb_pop_ok [OF that] by simp
qed

lemma rb_record_eq: "(\<lambda>v p. snd (rb_push v (if rb_full p then snd (rb_pop p) else p))) = rb_record"
  by (simp add: fun_eq_iff rb_record_def Let_def)

lemma rb_inv_new: "0 < capacity \<Longrightarrow> n < 2 ^ 64 \<Longrightarrow> rb_inv n (rb_new capacity)"
  by (simp add: rb_inv_def rb_new_def word_gt_0 unat_gt_0)

text \<open>
  The buffer of status changes keeps the most recent entries. Starting from an empty buffer
  of any positive capacity, recording a sequence of entries (fewer than \<open>2^64\<close>) leaves exactly
  the last ones, at most as many as the capacity, in the order they were recorded.
\<close>

lemma rb_record_history:
  assumes "0 < capacity" and "length vs < 2 ^ 64"
  shows "rb_contents (fold rb_record vs (rb_new capacity)) = drop (length vs - unat capacity) vs"
  using rbq.record_history [OF rb_inv_new [OF assms], unfolded rb_record_eq]
  by (simp add: rb_contents_def [of "rb_new capacity"]) (simp add: rb_new_def)

section \<open>Iteration\<close>

lemma rb_iterate_below_cap:
  assumes "rb_inv n rb" and "unat (rb_head rb) < unat (rb_cap rb)"
    and "unat (rb_tail rb) \<le> unat pos" and "unat pos \<le> unat (rb_head rb)"
  shows "rb_iterate rb pos (rb_head rb) =
    Some (map (\<lambda>i. the (rb_slots rb ! (i mod unat (rb_cap rb)))) [unat pos..<unat (rb_head rb)])"
  using assms(3,4)
proof (induction "unat (rb_head rb) - unat pos" arbitrary: pos)
  case 0
  then have "pos = rb_head rb"
    by (simp add: word_unat_eq_iff)
  then show ?case
    by (simp add: rb_iterate.simps)
next
  case (Suc k)
  then have lt: "unat pos < unat (rb_head rb)"
    by simp
  have small: "unat pos + 1 < 2 ^ 64"
    using lt assms(1) by (simp add: rb_inv_def)
  have next_pos: "unat (iter_next rb pos) = Suc (unat pos)"
    using lt assms(2) unat_Suc64 [OF small] by (simp add: iter_next_def unat_mod_distrib)
  obtain v where v: "rb_slots rb ! (unat pos mod unat (rb_cap rb)) = Some v"
    using assms(1) Suc.prems lt unfolding rb_inv_def by (metis atLeastLessThan_iff not_None_eq)
  have "rb_iterate rb (iter_next rb pos) (rb_head rb) = Some (map
      (\<lambda>i. the (rb_slots rb ! (i mod unat (rb_cap rb)))) [Suc (unat pos)..<unat (rb_head rb)])"
    using Suc.hyps(1) [of "iter_next rb pos"] Suc.hyps(2) Suc.prems lt next_pos by simp
  moreover have "pos \<noteq> rb_head rb"
    using lt by auto
  ultimately show ?case
    using v lt by (simp add: rb_iterate.simps [of rb pos] rb_addr_nat upt_conv_Cons [OF lt])
qed

lemma rb_iterate_diverges:
  assumes "0 < rb_cap rb" and "rb_cap rb \<le> last_pos"
  shows "pos < rb_cap rb \<Longrightarrow> rb_iterate rb pos last_pos \<noteq> Some vs"
proof (induction vs arbitrary: pos)
  case Nil
  with assms show ?case
    by (auto simp: rb_iterate.simps [of rb pos] split: option.splits bind_splits)
next
  case (Cons v vs)
  have "iter_next rb pos < rb_cap rb"
    using assms(1) by (simp add: iter_next_def word_mod_less_divisor)
  from Cons.IH [OF this] show ?case
    by (auto simp: rb_iterate.simps [of rb pos] split: option.splits bind_splits)
qed

text \<open>
  Reading the status changes returns exactly the recorded entries as long as fewer entries
  than the capacity were ever recorded. Once the write counter has reached the capacity and the
  buffer is not empty, the iteration does not return: \<^verbatim>\<open>operator++\<close> reduces the position modulo the
  capacity, but the end position is the unreduced counter.
\<close>

lemma rb_to_vector_returns_iff:
  assumes "rb_inv n rb"
  shows "rb_to_vector rb =
    (if unat (rb_head rb) < unat (rb_cap rb) then Some (rb_contents rb)
     else if rb_empty rb then Some [] else None)"
proof (cases "unat (rb_head rb) < unat (rb_cap rb)")
  case True
  with assms rb_iterate_below_cap [of n rb "rb_tail rb"] show ?thesis
    by (simp add: rb_to_vector_def rb_contents_def rb_inv_def)
next
  case False
  have "0 < rb_cap rb" "rb_cap rb \<le> rb_head rb"
    using False assms by (auto simp: rb_inv_def word_le_nat_alt word_gt_0)
  then have "rb_iterate rb (iter_next rb (rb_tail rb)) (rb_head rb) = None"
    using rb_iterate_diverges [of rb "rb_head rb" "iter_next rb (rb_tail rb)"]
    by (auto simp: iter_next_def word_mod_less_divisor)
  with False show ?thesis
    by (auto simp: rb_to_vector_def rb_empty_def rb_iterate.simps [of rb "rb_tail rb"] split: option.splits)
qed

end
