(* ===== verification/Mgmtd_Types.thy ===== *)
theory Mgmtd_Types
  imports App_Info Ring_Buffer
begin

text \<open>
  The data of the cluster manager: the enumerations and strong typedefs of
  \<^verbatim>\<open>src/src/fbs/mgmtd/MgmtdTypes.h\<close> and the structs of \<^verbatim>\<open>src/src/fbs/mgmtd\<close> and
  \<^verbatim>\<open>src/src/common/app/AppInfo.h\<close> that its state is made of. A strong typedef of a
  \<open>w\<close>-bit unsigned integer is a \<open>w word\<close>; times are microseconds as integers.
\<close>

section \<open>Enumerations and identifiers\<close>

datatype PublicTargetState = PS_INVALID | PS_SERVING | PS_LASTSRV | PS_SYNCING | PS_WAITING | PS_OFFLINE

datatype LocalTargetState = LS_INVALID | LS_UPTODATE | LS_ONLINE | LS_OFFLINE

datatype NodeStatus =
  PRIMARY_MGMTD | HEARTBEAT_CONNECTED | HEARTBEAT_CONNECTING | HEARTBEAT_FAILED | DISABLED

datatype NodeType = MGMTD | META | STORAGE | CLIENT | FUSE

datatype SetTagMode = REPLACE | UPSERT | REMOVE

datatype ConfigStatus = CS_NORMAL | CS_DIRTY | CS_FAILED | CS_UNKNOWN | CS_STALE

type_synonym TargetId = "64 word"
type_synonym HeartbeatVersion = "64 word"
type_synonym RoutingInfoVersion = "64 word"
type_synonym ConfigVersion = "64 word"
type_synonym ClientSessionVersion = "64 word"
type_synonym ChainVersion = "32 word"
type_synonym ChainTableId = "32 word"
type_synonym ChainTableVersion = "32 word"
type_synonym ChainId = "32 word"

type_synonym UtcTime = int
type_synonym SteadyTime = int

text \<open>\<^verbatim>\<open>nextVersion\<close> adds one at the width of its argument.\<close>

definition nextVersion :: "'a::len word \<Rightarrow> 'a word" where
  "nextVersion v = v + 1"

section \<open>Targets and chains\<close>

record ChainTargetInfo =
  cti_targetId :: TargetId
  cti_publicState :: PublicTargetState

text \<open>\<^verbatim>\<open>ChainTargetInfoEx\<close> derives from \<^verbatim>\<open>ChainTargetInfo\<close>; the record extension keeps that.\<close>

record ChainTargetInfoEx = ChainTargetInfo +
  cti_localState :: LocalTargetState

record ChainInfo =
  ci_chainId :: ChainId
  ci_chainVersion :: ChainVersion
  ci_targets :: "ChainTargetInfo list"
  ci_preferredTargetOrder :: "TargetId list"

record ChainSetting =
  cs_chainId :: ChainId
  cs_targets :: "TargetId list"
  cs_setPreferredTargetOrder :: bool

record ChainTable =
  ct_chainTableId :: ChainTableId
  ct_chainTableVersion :: ChainTableVersion
  ct_chains :: "ChainId list"
  ct_desc :: string

record LocalTargetInfo =
  lti_targetId :: TargetId
  lti_localState :: LocalTargetState
  lti_diskIndex :: "32 word option"
  lti_usedSize :: "64 word"
  lti_chainVersion :: ChainVersion
  lti_lowSpace :: bool

text \<open>\<^verbatim>\<open>flat::TargetInfo\<close>: what the routing info says of one target.\<close>

record TargetInfo =
  ti_targetId :: TargetId
  ti_publicState :: PublicTargetState
  ti_localState :: LocalTargetState
  ti_chainId :: ChainId
  ti_nodeId :: "NodeId option"
  ti_diskIndex :: "32 word option"
  ti_usedSize :: "64 word"

definition empty_TargetInfo :: TargetInfo where
  "empty_TargetInfo = \<lparr>ti_targetId = 0, ti_publicState = PS_INVALID, ti_localState = LS_INVALID,
     ti_chainId = 0, ti_nodeId = None, ti_diskIndex = None, ti_usedSize = 0\<rparr>"

section \<open>Nodes\<close>

record NodeInfo =
  ni_app :: FbsAppInfo
  ni_type :: NodeType
  ni_status :: NodeStatus
  ni_lastHeartbeatTs :: UtcTime
  ni_tags :: "TagPair list"
  ni_configVersion :: ConfigVersion
  ni_configStatus :: ConfigStatus

record PersistentNodeInfo =
  pn_nodeId :: NodeId
  pn_type :: NodeType
  pn_serviceGroups :: "ServiceGroupInfo list"
  pn_tags :: "TagPair list"
  pn_hostname :: string

definition toNode :: "PersistentNodeInfo \<Rightarrow> NodeInfo" where
  "toNode pn = \<lparr>
     ni_app = \<lparr>app_nodeId = pn_nodeId pn, app_hostname = pn_hostname pn, app_pid = 0,
       app_serviceGroups = pn_serviceGroups pn, app_releaseVersion = default_ReleaseVersion, app_podname = []\<rparr>,
     ni_type = pn_type pn,
     ni_status = (if findTag (pn_tags pn) kDisabledTagKey = -1 then HEARTBEAT_CONNECTING else DISABLED),
     ni_lastHeartbeatTs = 0, ni_tags = pn_tags pn, ni_configVersion = 0, ni_configStatus = CS_NORMAL\<rparr>"

definition toPersistentNode :: "NodeInfo \<Rightarrow> PersistentNodeInfo" where
  "toPersistentNode node = \<lparr>pn_nodeId = app_nodeId (ni_app node), pn_type = ni_type node,
     pn_serviceGroups = app_serviceGroups (ni_app node), pn_tags = ni_tags node,
     pn_hostname = app_hostname (ni_app node)\<rparr>"

record NodeStatusChange =
  nsc_status :: NodeStatus
  nsc_time :: UtcTime

text \<open>\<^verbatim>\<open>WithTimestamp\<close>: a value and the steady time of its last update; the wrappers extend it.\<close>

record NodeInfoWrapper =
  nw_base :: NodeInfo
  nw_ts :: SteadyTime
  nw_version :: HeartbeatVersion
  nw_statusChanges :: "NodeStatusChange SimpleRingBuffer"

definition kStatusChangeCount :: "64 word" where
  "kStatusChangeCount = 100"

definition NodeInfoWrapper_of :: "NodeInfo \<Rightarrow> SteadyTime \<Rightarrow> NodeInfoWrapper" where
  "NodeInfoWrapper_of info ts = \<lparr>nw_base = info, nw_ts = ts, nw_version = 0,
     nw_statusChanges = rb_new kStatusChangeCount\<rparr>"

definition recordStatusChange :: "NodeStatus \<Rightarrow> UtcTime \<Rightarrow> NodeInfoWrapper \<Rightarrow> NodeInfoWrapper" where
  "recordStatusChange status now nw = nw\<lparr>nw_statusChanges :=
     rb_record \<lparr>nsc_status = status, nsc_time = now\<rparr> (nw_statusChanges nw)\<rparr>"

record TargetInfoW =
  tw_base :: TargetInfo
  tw_ts :: SteadyTime
  tw_locationInitLoaded :: bool
  tw_persistedNodeId :: "NodeId option"
  tw_persistedDiskIndex :: "32 word option"
  tw_importantInfoChangedTime :: SteadyTime

text \<open>The two constructors of the wrapper; both read the steady clock for the default of
  \<^verbatim>\<open>importantInfoChangedTime\<close>.\<close>

definition TargetInfoW_of :: "TargetInfo \<Rightarrow> SteadyTime \<Rightarrow> SteadyTime \<Rightarrow> TargetInfoW" where
  "TargetInfoW_of info ts steadyNow = \<lparr>tw_base = info, tw_ts = ts, tw_locationInitLoaded = False,
     tw_persistedNodeId = None, tw_persistedDiskIndex = None, tw_importantInfoChangedTime = steadyNow\<rparr>"

section \<open>Configurations, leases, sessions\<close>

record ConfigInfo =
  cfg_configVersion :: ConfigVersion
  cfg_content :: string
  cfg_desc :: string

record MgmtdLeaseInfo =
  li_primary :: PersistentNodeInfo
  li_leaseStart :: UtcTime
  li_leaseEnd :: UtcTime
  li_releaseVersion :: ReleaseVersion

text \<open>\<^verbatim>\<open>mgmtd::LeaseInfo\<close>: the lease as this process knows it.\<close>

record LeaseInfo =
  lease_lease :: "MgmtdLeaseInfo option"
  lease_bootstrapping :: bool

record ClientSessionData =
  csd_universalId :: string
  csd_description :: string
  csd_serviceGroups :: "ServiceGroupInfo list"
  csd_releaseVersion :: ReleaseVersion

record FlatClientSession =
  fcs_clientId :: string
  fcs_configVersion :: ConfigVersion
  fcs_start :: UtcTime
  fcs_lastExtend :: UtcTime
  fcs_universalId :: string
  fcs_description :: string
  fcs_serviceGroups :: "ServiceGroupInfo list"
  fcs_releaseVersion :: ReleaseVersion
  fcs_configStatus :: ConfigStatus
  fcs_type :: NodeType
  fcs_clientStart :: UtcTime

record ClientSession =
  cls_base :: FlatClientSession
  cls_ts :: SteadyTime
  cls_clientSessionVersion :: ClientSessionVersion

text \<open>What a client receives: \<^verbatim>\<open>flat::RoutingInfo\<close>.\<close>

record FlatRoutingInfo =
  fri_routingInfoVersion :: RoutingInfoVersion
  fri_bootstrapping :: bool
  fri_nodes :: "(NodeId \<times> NodeInfo) list"
  fri_chainTables :: "(ChainTableId \<times> (ChainTableVersion, ChainTable) omap) list"
  fri_chains :: "(ChainId \<times> ChainInfo) list"
  fri_targets :: "(TargetId \<times> TargetInfo) list"

end
