(* ===== verification/Chain_Update.thy ===== *)
theory Chain_Update
  imports Mgmtd_Types
begin

text \<open>
  How the cluster manager recomputes a replication chain
  (\<^verbatim>\<open>src/src/mgmtd/service/updateChain.cc\<close>). A chain is a list of targets; each target has a public
  state, which the manager decides, and a local state, which the storage service reports.
  \<open>generateNewChain\<close> is the state machine of the design notes; the other three functions are
  the administrator's operations. Loops are folds over the vector the code iterates, and the
  map of vectors is a function from public states to lists (an absent key is an empty vector).
\<close>

section \<open>Definitions\<close>

type_synonym TargetsByPs = "PublicTargetState \<Rightarrow> ChainTargetInfoEx list"

definition dispatch :: "TargetsByPs \<Rightarrow> ChainTargetInfoEx \<Rightarrow> PublicTargetState \<Rightarrow> TargetsByPs" where
  "dispatch m ti ps = m(ps := m ps @ [ti\<lparr>cti_publicState := ps\<rparr>])"

definition is_up :: "LocalTargetState \<Rightarrow> bool" where
  "is_up ls \<longleftrightarrow> ls = LS_ONLINE \<or> ls = LS_UPTODATE"

definition group_step :: "TargetsByPs \<Rightarrow> ChainTargetInfoEx \<Rightarrow> TargetsByPs" where
  "group_step m ti = m(cti_publicState ti := m (cti_publicState ti) @ [ti])"

definition serving_step :: "TargetsByPs \<Rightarrow> ChainTargetInfoEx \<Rightarrow> TargetsByPs" where
  "serving_step m ti =
     (if is_up (cti_localState ti) then dispatch m ti PS_SERVING
      else if m PS_LASTSRV = [] then dispatch m ti PS_LASTSRV
      else dispatch m ti PS_OFFLINE)"

definition lastsrv_step :: "TargetsByPs \<Rightarrow> ChainTargetInfoEx \<Rightarrow> TargetsByPs" where
  "lastsrv_step m ti =
     (if m PS_SERVING = [] then
        (if is_up (cti_localState ti) then dispatch m ti PS_SERVING else dispatch m ti PS_LASTSRV)
      else dispatch m ti PS_OFFLINE)"

definition syncing_step :: "TargetsByPs \<Rightarrow> ChainTargetInfoEx \<Rightarrow> TargetsByPs" where
  "syncing_step m ti =
     (if cti_localState ti = LS_UPTODATE then dispatch m ti PS_SERVING
      else if cti_localState ti = LS_ONLINE then
        (if m PS_SERVING \<noteq> [] then dispatch m ti PS_SYNCING else dispatch m ti PS_WAITING)
      else dispatch m ti PS_OFFLINE)"

text \<open>The loops over the WAITING and over the OFFLINE targets have the same body.\<close>

definition waiting_step :: "TargetsByPs \<Rightarrow> ChainTargetInfoEx \<Rightarrow> TargetsByPs" where
  "waiting_step m ti =
     (if m PS_SERVING \<noteq> [] \<and> m PS_SYNCING = [] \<and> cti_localState ti = LS_ONLINE
      then dispatch m ti PS_SYNCING
      else if is_up (cti_localState ti) then dispatch m ti PS_WAITING
      else dispatch m ti PS_OFFLINE)"

definition drop_lastsrv :: "TargetsByPs \<Rightarrow> TargetsByPs" where
  "drop_lastsrv m =
     (if m PS_SERVING \<noteq> []
      then (foldl (\<lambda>m' ti. dispatch m' ti PS_OFFLINE) m (m PS_LASTSRV))(PS_LASTSRV := [])
      else m)"

definition generateNewChain :: "ChainTargetInfoEx list \<Rightarrow> ChainTargetInfoEx list" where
  "generateNewChain oldTargets =
     (let old = foldl group_step (\<lambda>_. []) oldTargets;
          m1 = foldl serving_step (\<lambda>_. []) (old PS_SERVING);
          m2 = foldl lastsrv_step m1 (old PS_LASTSRV);
          m3 = foldl syncing_step m2 (old PS_SYNCING);
          m4 = foldl waiting_step m3 (old PS_WAITING);
          m5 = foldl waiting_step m4 (old PS_OFFLINE);
          m6 = drop_lastsrv m5
      in concat (map m6 [PS_SERVING, PS_LASTSRV, PS_SYNCING, PS_WAITING, PS_OFFLINE]))"

text \<open>
  \<^verbatim>\<open>rotateAsPreferredOrder\<close>: \<^verbatim>\<open>oldMapping\<close> is a map in which the last position of an id wins, and
  its \<^verbatim>\<open>operator[]\<close> yields position 0 and the state INVALID for an id that is absent. Reading
  \<^verbatim>\<open>oldTargets\<close> past its end is undefined behaviour, the result None.
\<close>

definition oldMapping :: "ChainTargetInfoEx list \<Rightarrow> TargetId \<rightharpoonup> nat \<times> ChainTargetInfoEx" where
  "oldMapping oldTargets =
     foldl (\<lambda>m (i, t). m(cti_targetId t \<mapsto> (i, t))) Map.empty (enumerate 0 oldTargets)"

fun rotate_loop :: "ChainTargetInfoEx list \<Rightarrow> nat \<Rightarrow> TargetId list \<Rightarrow> ChainTargetInfoEx list option" where
  "rotate_loop oldTargets i [] = Some oldTargets"
| "rotate_loop oldTargets i (tid # tids) =
     (let (oldPos, oldState) = (case oldMapping oldTargets tid of
            Some (p, t) \<Rightarrow> (p, cti_publicState t) | None \<Rightarrow> (0, PS_INVALID))
      in if oldPos = i then rotate_loop oldTargets (Suc i) tids
         else if oldState \<noteq> PS_SERVING then Some oldTargets
         else if i < length oldTargets then
           Some (take i oldTargets @ drop (Suc i) oldTargets @
             [(oldTargets ! i)\<lparr>cti_publicState := PS_OFFLINE, cti_localState := LS_OFFLINE\<rparr>])
         else None)"

definition rotateAsPreferredOrder ::
  "ChainTargetInfoEx list \<Rightarrow> TargetId list \<Rightarrow> ChainTargetInfoEx list option" where
  "rotateAsPreferredOrder oldTargets preferredOrder = rotate_loop oldTargets 0 preferredOrder"

definition rotateLastSrv :: "ChainTargetInfoEx list \<Rightarrow> ChainTargetInfoEx list" where
  "rotateLastSrv oldTargets =
     (if length oldTargets < 2 \<or> cti_publicState (oldTargets ! 0) \<noteq> PS_LASTSRV then oldTargets
      else let newTargets = drop 1 oldTargets @ [oldTargets ! 0]
           in (newTargets ! 0)\<lparr>cti_publicState := PS_LASTSRV\<rparr> #
              map (\<lambda>t. t\<lparr>cti_publicState := PS_OFFLINE\<rparr>) (drop 1 newTargets))"

text \<open>\<^verbatim>\<open>shutdownChain\<close>: None is the process abort (a FATAL log) on an INVALID public state.\<close>

definition shutdown_target :: "ChainTargetInfo \<Rightarrow> ChainTargetInfo option" where
  "shutdown_target ti =
     (case cti_publicState ti of
        PS_SERVING \<Rightarrow> Some (ti\<lparr>cti_publicState := PS_LASTSRV\<rparr>)
      | PS_WAITING \<Rightarrow> Some (ti\<lparr>cti_publicState := PS_OFFLINE\<rparr>)
      | PS_SYNCING \<Rightarrow> Some (ti\<lparr>cti_publicState := PS_OFFLINE\<rparr>)
      | PS_LASTSRV \<Rightarrow> Some ti
      | PS_OFFLINE \<Rightarrow> Some ti
      | PS_INVALID \<Rightarrow> None)"

fun shutdownChain :: "ChainTargetInfo list \<Rightarrow> ChainTargetInfo list option" where
  "shutdownChain [] = Some []"
| "shutdownChain (ti # tis) =
     (case shutdown_target ti of
        None \<Rightarrow> None
      | Some ti' \<Rightarrow> map_option ((#) ti') (shutdownChain tis))"

text \<open>The two constructors of \<^verbatim>\<open>ChainTargetInfoEx\<close> and the conversion to \<^verbatim>\<open>TargetInfo\<close>.\<close>

definition ChainTargetInfoEx_of :: "ChainTargetInfo \<Rightarrow> LocalTargetState \<Rightarrow> ChainTargetInfoEx" where
  "ChainTargetInfoEx_of cti ls =
     \<lparr>cti_targetId = cti_targetId cti, cti_publicState = cti_publicState cti, cti_localState = ls\<rparr>"

definition fromTargetInfo :: "TargetInfo \<Rightarrow> ChainTargetInfoEx" where
  "fromTargetInfo ti =
     \<lparr>cti_targetId = ti_targetId ti, cti_publicState = ti_publicState ti, cti_localState = ti_localState ti\<rparr>"

definition toTargetInfo :: "ChainTargetInfoEx \<Rightarrow> TargetInfo" where
  "toTargetInfo cti = empty_TargetInfo\<lparr>ti_targetId := cti_targetId cti,
     ti_publicState := cti_publicState cti, ti_localState := cti_localState cti\<rparr>"

section \<open>Dispatching loops\<close>

text \<open>
  Every loop of \<open>generateNewChain\<close> hands each target to exactly one vector and relabels it.
  That is the contract of a loop body; what follows from it is proved once.
\<close>

abbreviation relabel :: "PublicTargetState \<Rightarrow> ChainTargetInfoEx \<Rightarrow> ChainTargetInfoEx" where
  "relabel ps t \<equiv> t\<lparr>cti_publicState := ps\<rparr>"

definition key :: "ChainTargetInfoEx \<Rightarrow> TargetId \<times> LocalTargetState" where
  "key t = (cti_targetId t, cti_localState t)"

abbreviation chain_order :: "PublicTargetState list" where
  "chain_order \<equiv> [PS_SERVING, PS_LASTSRV, PS_SYNCING, PS_WAITING, PS_OFFLINE]"

definition flatten :: "TargetsByPs \<Rightarrow> ChainTargetInfoEx list" where
  "flatten m = concat (map m chain_order)"

definition labelled :: "TargetsByPs \<Rightarrow> bool" where
  "labelled m \<longleftrightarrow> (\<forall>ps. \<forall>t \<in> set (m ps). cti_publicState t = ps) \<and> m PS_INVALID = []"

lemma flatten_empty: "flatten (\<lambda>_. []) = []"
  by (simp add: flatten_def)

lemma key_relabel [simp]: "key (relabel ps t) = key t"
  by (simp add: key_def)

lemma dispatch_apply [simp]:
  "dispatch m t ps q = (if q = ps then m ps @ [relabel ps t] else m q)"
  by (simp add: dispatch_def)

lemma key_flatten_dispatch:
  assumes "ps \<noteq> PS_INVALID"
  shows "mset (map key (flatten (dispatch m t ps))) = add_mset (key t) (mset (map key (flatten m)))"
  using assms by (cases ps) (auto simp: flatten_def)

lemma labelled_dispatch: "labelled m \<Longrightarrow> ps \<noteq> PS_INVALID \<Longrightarrow> labelled (dispatch m t ps)"
  by (auto simp: labelled_def)

locale dispatch_loop =
  fixes body :: "TargetsByPs \<Rightarrow> ChainTargetInfoEx \<Rightarrow> TargetsByPs"
  assumes dispatches: "\<exists>ps. ps \<noteq> PS_INVALID \<and> body m t = dispatch m t ps"
begin

lemma loop_keys:
  "mset (map key (flatten (foldl body m ts))) = mset (map key ts) + mset (map key (flatten m))"
proof (induction ts arbitrary: m)
  case (Cons t ts)
  obtain ps where "ps \<noteq> PS_INVALID" and "body m t = dispatch m t ps"
    using dispatches by blast
  then have "mset (map key (flatten (body m t))) = add_mset (key t) (mset (map key (flatten m)))"
    by (simp add: key_flatten_dispatch del: mset_map)
  with Cons.IH [of "body m t"] show ?case
    by (simp del: mset_map)
qed simp

lemma loop_labelled: "labelled m \<Longrightarrow> labelled (foldl body m ts)"
  by (rule foldl_invariant [of labelled]) (metis dispatches labelled_dispatch)+

lemma loop_extends: "\<exists>new. foldl body m ts ps = m ps @ new"
proof (induction ts arbitrary: m)
  case (Cons t ts)
  obtain qs where "body m t = dispatch m t qs"
    using dispatches by blast
  then have "\<exists>new. body m t ps = m ps @ new"
    by simp
  with Cons.IH [of "body m t"] show ?case
    by (metis append.assoc foldl_Cons)
qed simp

end

interpretation serving: dispatch_loop serving_step
  by unfold_locales (auto simp: serving_step_def intro: exI [of _ PS_SERVING] exI [of _ PS_LASTSRV]
      exI [of _ PS_OFFLINE])

interpretation lastsrv: dispatch_loop lastsrv_step
  by unfold_locales (auto simp: lastsrv_step_def intro: exI [of _ PS_SERVING] exI [of _ PS_LASTSRV]
      exI [of _ PS_OFFLINE])

interpretation syncing: dispatch_loop syncing_step
  by unfold_locales (auto simp: syncing_step_def intro: exI [of _ PS_SERVING] exI [of _ PS_SYNCING]
      exI [of _ PS_WAITING] exI [of _ PS_OFFLINE])

interpretation waiting: dispatch_loop waiting_step
  by unfold_locales (auto simp: waiting_step_def intro: exI [of _ PS_SYNCING] exI [of _ PS_WAITING]
      exI [of _ PS_OFFLINE])

lemmas loop_keys = serving.loop_keys lastsrv.loop_keys syncing.loop_keys waiting.loop_keys
lemmas loop_labelled =
  serving.loop_labelled lastsrv.loop_labelled syncing.loop_labelled waiting.loop_labelled

interpretation demote: dispatch_loop "\<lambda>m t. dispatch m t PS_OFFLINE"
  by unfold_locales (auto intro: exI [of _ PS_OFFLINE])

section \<open>The groups a chain update builds\<close>

definition by_ps :: "PublicTargetState \<Rightarrow> ChainTargetInfoEx list \<Rightarrow> ChainTargetInfoEx list" where
  "by_ps ps ts = filter (\<lambda>t. cti_publicState t = ps) ts"

definition grp1 :: "ChainTargetInfoEx list \<Rightarrow> TargetsByPs" where
  "grp1 ts = foldl serving_step (\<lambda>_. []) (by_ps PS_SERVING ts)"

definition grp2 :: "ChainTargetInfoEx list \<Rightarrow> TargetsByPs" where
  "grp2 ts = foldl lastsrv_step (grp1 ts) (by_ps PS_LASTSRV ts)"

definition grp3 :: "ChainTargetInfoEx list \<Rightarrow> TargetsByPs" where
  "grp3 ts = foldl syncing_step (grp2 ts) (by_ps PS_SYNCING ts)"

definition grp5 :: "ChainTargetInfoEx list \<Rightarrow> TargetsByPs" where
  "grp5 ts = foldl waiting_step (grp3 ts) (by_ps PS_WAITING ts @ by_ps PS_OFFLINE ts)"

lemma group_loop: "foldl group_step m ts ps = m ps @ by_ps ps ts"
  by (induction ts arbitrary: m) (auto simp: group_step_def by_ps_def)

lemma generateNewChain_groups: "generateNewChain ts = flatten (drop_lastsrv (grp5 ts))"
  by (simp add: generateNewChain_def Let_def group_loop grp1_def grp2_def grp3_def grp5_def flatten_def)

lemma by_ps_partition:
  "mset (filter (\<lambda>t. cti_publicState t \<noteq> PS_INVALID) ts) =
     mset (by_ps PS_SERVING ts) + mset (by_ps PS_LASTSRV ts) + mset (by_ps PS_SYNCING ts) +
     mset (by_ps PS_WAITING ts) + mset (by_ps PS_OFFLINE ts)"
proof (induction ts)
  case (Cons t ts)
  then show ?case by (cases "cti_publicState t") (auto simp: by_ps_def)
qed (simp add: by_ps_def)

lemma grp5_keys:
  "mset (map key (flatten (grp5 ts))) =
     image_mset key (mset (filter (\<lambda>t. cti_publicState t \<noteq> PS_INVALID) ts))"
  unfolding by_ps_partition grp5_def grp3_def grp2_def grp1_def loop_keys flatten_empty
  by (simp add: ac_simps)

lemma demote_other: "ps \<noteq> PS_OFFLINE \<Longrightarrow> foldl (\<lambda>m t. dispatch m t PS_OFFLINE) m ts ps = m ps"
  by (induction ts arbitrary: m) auto

lemma demote_offline:
  "foldl (\<lambda>m t. dispatch m t PS_OFFLINE) m ts PS_OFFLINE = m PS_OFFLINE @ map (relabel PS_OFFLINE) ts"
  by (induction ts arbitrary: m) auto

lemma drop_lastsrv_apply:
  "drop_lastsrv m ps =
     (if m PS_SERVING = [] then m ps
      else if ps = PS_LASTSRV then []
      else if ps = PS_OFFLINE then m PS_OFFLINE @ map (relabel PS_OFFLINE) (m PS_LASTSRV)
      else m ps)"
  by (simp add: drop_lastsrv_def demote_other demote_offline)

lemma drop_lastsrv_keys:
  "mset (map key (flatten (drop_lastsrv m))) = mset (map key (flatten m))"
  by (simp add: flatten_def drop_lastsrv_apply image_mset.compositionality comp_def ac_simps)

lemma grp5_labelled: "labelled (grp5 ts)"
  unfolding grp5_def grp3_def grp2_def grp1_def
  by (intro loop_labelled) (simp add: labelled_def)

lemma drop_lastsrv_labelled: "labelled m \<Longrightarrow> labelled (drop_lastsrv m)"
  by (auto simp: labelled_def drop_lastsrv_apply)

lemma by_ps_flatten:
  assumes "labelled m" and "ps \<noteq> PS_INVALID"
  shows "by_ps ps (flatten m) = m ps"
proof -
  have "filter (\<lambda>t. cti_publicState t = ps) (m qs) = (if qs = ps then m qs else [])" for qs
    using assms(1) by (auto simp: labelled_def filter_empty_conv intro!: filter_True)
  with assms(2) show ?thesis
    by (cases ps) (auto simp: by_ps_def flatten_def)
qed

lemma by_ps_generateNewChain:
  "ps \<noteq> PS_INVALID \<Longrightarrow> by_ps ps (generateNewChain ts) = drop_lastsrv (grp5 ts) ps"
  by (simp add: generateNewChain_groups by_ps_flatten drop_lastsrv_labelled grp5_labelled)

text \<open>
  C1: a chain update neither loses nor duplicates a target, and it never alters a target's
  identity or reported local state: the new chain holds the same (id, local state) pairs, with
  multiplicity, as the old targets whose public state is valid. A target whose public state is
  INVALID is dropped (the code only asserts that there is none).
\<close>

theorem generateNewChain_targets:
  "mset (map key (generateNewChain ts)) =
     mset (map key (filter (\<lambda>t. cti_publicState t \<noteq> PS_INVALID) ts))"
  by (simp add: generateNewChain_groups drop_lastsrv_keys grp5_keys del: mset_map) simp

section \<open>What each loop leaves in each group\<close>

abbreviation up :: "ChainTargetInfoEx \<Rightarrow> bool" where
  "up t \<equiv> is_up (cti_localState t)"

abbreviation in_sync :: "ChainTargetInfoEx \<Rightarrow> bool" where
  "in_sync t \<equiv> cti_localState t = LS_UPTODATE"

abbreviation online :: "ChainTargetInfoEx \<Rightarrow> bool" where
  "online t \<equiv> cti_localState t = LS_ONLINE"

lemma serving_loop_serving:
  "foldl serving_step m ts PS_SERVING = m PS_SERVING @ map (relabel PS_SERVING) (filter up ts)"
  by (induction ts arbitrary: m) (auto simp: serving_step_def)

lemma serving_loop_lastsrv:
  "foldl serving_step m ts PS_LASTSRV =
     m PS_LASTSRV @ (if m PS_LASTSRV = [] then map (relabel PS_LASTSRV) (take 1 (filter (Not \<circ> up) ts)) else [])"
  by (induction ts arbitrary: m) (auto simp: serving_step_def)

lemma serving_loop_rest:
  "ps \<in> {PS_SYNCING, PS_WAITING} \<Longrightarrow> foldl serving_step m ts ps = m ps"
  by (induction ts arbitrary: m) (auto simp: serving_step_def)

lemma lastsrv_loop_serving:
  "foldl lastsrv_step m ts PS_SERVING =
     m PS_SERVING @ (if m PS_SERVING = [] then map (relabel PS_SERVING) (take 1 (filter up ts)) else [])"
  by (induction ts arbitrary: m) (auto simp: lastsrv_step_def)

lemma lastsrv_loop_lastsrv:
  "foldl lastsrv_step m ts PS_LASTSRV =
     m PS_LASTSRV @ (if m PS_SERVING = [] then map (relabel PS_LASTSRV) (takeWhile (Not \<circ> up) ts) else [])"
  by (induction ts arbitrary: m) (auto simp: lastsrv_step_def)

lemma lastsrv_loop_rest:
  "ps \<in> {PS_SYNCING, PS_WAITING} \<Longrightarrow> foldl lastsrv_step m ts ps = m ps"
  by (induction ts arbitrary: m) (auto simp: lastsrv_step_def)

lemma syncing_loop_serving:
  "foldl syncing_step m ts PS_SERVING = m PS_SERVING @ map (relabel PS_SERVING) (filter in_sync ts)"
  by (induction ts arbitrary: m) (auto simp: syncing_step_def)

lemma syncing_loop_lastsrv: "foldl syncing_step m ts PS_LASTSRV = m PS_LASTSRV"
  by (induction ts arbitrary: m) (auto simp: syncing_step_def)

lemma syncing_loop_syncing:
  "foldl syncing_step m ts PS_SYNCING =
     m PS_SYNCING @ map (relabel PS_SYNCING)
       (filter online (if m PS_SERVING \<noteq> [] then ts else dropWhile (Not \<circ> in_sync) ts))"
  by (induction ts arbitrary: m) (auto simp: syncing_step_def)

lemma syncing_loop_waiting:
  "foldl syncing_step m ts PS_WAITING =
     m PS_WAITING @ map (relabel PS_WAITING)
       (filter online (if m PS_SERVING \<noteq> [] then [] else takeWhile (Not \<circ> in_sync) ts))"
  by (induction ts arbitrary: m) (auto simp: syncing_step_def)

lemma waiting_loop_rest:
  "ps \<in> {PS_SERVING, PS_LASTSRV} \<Longrightarrow> foldl waiting_step m ts ps = m ps"
  by (induction ts arbitrary: m) (auto simp: waiting_step_def)

lemma waiting_loop_syncing:
  "foldl waiting_step m ts PS_SYNCING =
     m PS_SYNCING @ (if m PS_SERVING \<noteq> [] \<and> m PS_SYNCING = []
       then map (relabel PS_SYNCING) (take 1 (filter online ts)) else [])"
  by (induction ts arbitrary: m) (auto simp: waiting_step_def)

lemma waiting_loop_offline:
  "foldl waiting_step m ts PS_OFFLINE = m PS_OFFLINE @ map (relabel PS_OFFLINE) (filter (Not \<circ> up) ts)"
  by (induction ts arbitrary: m) (auto simp: waiting_step_def is_up_def)

lemmas loop_groups =
  serving_loop_serving serving_loop_lastsrv serving_loop_rest
  lastsrv_loop_serving lastsrv_loop_lastsrv lastsrv_loop_rest
  syncing_loop_serving syncing_loop_lastsrv syncing_loop_syncing syncing_loop_waiting
  waiting_loop_rest waiting_loop_syncing waiting_loop_offline

lemma take1_filter_Nil: "take (Suc 0) (filter P xs) = [] \<longleftrightarrow> (\<forall>x \<in> set xs. \<not> P x)"
  by (metis filter_empty_conv list.distinct(1) take_Suc take_eq_Nil)

lemma grp_serving:
  "grp2 ts PS_SERVING = map (relabel PS_SERVING)
     (filter up (by_ps PS_SERVING ts) @
      (if filter up (by_ps PS_SERVING ts) = [] then take 1 (filter up (by_ps PS_LASTSRV ts)) else []))"
  "grp3 ts PS_SERVING = grp2 ts PS_SERVING @
     map (relabel PS_SERVING) (filter in_sync (by_ps PS_SYNCING ts))"
  "grp5 ts PS_SERVING = grp3 ts PS_SERVING"
  by (simp_all add: grp1_def grp2_def grp3_def grp5_def loop_groups del: foldl_append)

lemma serving_after:
  "by_ps PS_SERVING (generateNewChain ts) = map (relabel PS_SERVING)
     (filter up (by_ps PS_SERVING ts) @
      (if filter up (by_ps PS_SERVING ts) = [] then take 1 (filter up (by_ps PS_LASTSRV ts)) else []) @
      filter in_sync (by_ps PS_SYNCING ts))"
  by (simp add: by_ps_generateNewChain drop_lastsrv_apply grp_serving)

lemma lastsrv_after:
  "by_ps PS_LASTSRV (generateNewChain ts) =
     (if by_ps PS_SERVING (generateNewChain ts) = []
      then map (relabel PS_LASTSRV) (take 1 (by_ps PS_SERVING ts) @ by_ps PS_LASTSRV ts)
      else [])"
proof (cases "grp5 ts PS_SERVING = []")
  case True
  then have g2: "grp2 ts PS_SERVING = []"
    by (simp add: grp_serving(2,3))
  then have nS: "\<forall>t \<in> set (by_ps PS_SERVING ts). \<not> up t"
    and nL: "\<forall>t \<in> set (by_ps PS_LASTSRV ts). \<not> up t"
    by (auto simp: grp_serving(1) filter_empty_conv take1_filter_Nil split: if_splits)
  have "filter (Not \<circ> up) (by_ps PS_SERVING ts) = by_ps PS_SERVING ts"
    and tw: "takeWhile (Not \<circ> up) (by_ps PS_LASTSRV ts) = by_ps PS_LASTSRV ts"
    and "grp1 ts PS_SERVING = []"
    using nS nL by (auto simp: takeWhile_eq_all_conv grp1_def loop_groups filter_empty_conv)
  then have "grp2 ts PS_LASTSRV =
      map (relabel PS_LASTSRV) (take 1 (by_ps PS_SERVING ts) @ by_ps PS_LASTSRV ts)"
    by (simp add: grp2_def grp1_def loop_groups tw del: takeWhile_eq_all_conv)
  moreover have "grp5 ts PS_LASTSRV = grp2 ts PS_LASTSRV"
    by (simp add: grp5_def grp3_def loop_groups del: foldl_append)
  ultimately show ?thesis
    using True by (simp add: by_ps_generateNewChain drop_lastsrv_apply)
next
  case False
  then show ?thesis by (simp add: by_ps_generateNewChain drop_lastsrv_apply)
qed

text \<open>
  C2: exactly who holds the authoritative data after an update. The SERVING targets of the new
  chain are, in this order: the old SERVING targets that are up, in their old order; if there is
  none of these, the first old LASTSRV target that is up; and the old SYNCING targets that
  report UPTODATE. So no WAITING or OFFLINE target starts to serve, and a LASTSRV target does so
  only when no serving replica is left. There are LASTSRV targets only when nobody serves, and
  then they are the first old SERVING target followed by the old LASTSRV targets.
\<close>

theorem generateNewChain_authority:
  "by_ps PS_SERVING (generateNewChain ts) = map (relabel PS_SERVING)
     (filter up (by_ps PS_SERVING ts) @
      (if filter up (by_ps PS_SERVING ts) = [] then take 1 (filter up (by_ps PS_LASTSRV ts)) else []) @
      filter in_sync (by_ps PS_SYNCING ts)) \<and>
   by_ps PS_LASTSRV (generateNewChain ts) =
     (if by_ps PS_SERVING (generateNewChain ts) = []
      then map (relabel PS_LASTSRV) (take 1 (by_ps PS_SERVING ts) @ by_ps PS_LASTSRV ts)
      else [])"
  by (rule conjI [OF serving_after lastsrv_after])

section \<open>Repeating the update\<close>

text \<open>
  The chains updater calls \<open>generateNewChain\<close> periodically. While the reported local states do
  not change, the first call leaves a settled chain, the second a stable one, and a stable
  chain is a fixed point.
\<close>

definition settled :: "ChainTargetInfoEx list \<Rightarrow> bool" where
  "settled ts \<longleftrightarrow>
     ts = concat (map (\<lambda>ps. by_ps ps ts) chain_order) \<and>
     (\<forall>t \<in> set (by_ps PS_SERVING ts). up t) \<and>
     (\<forall>t \<in> set (by_ps PS_LASTSRV ts). \<not> up t) \<and>
     (\<forall>t \<in> set (by_ps PS_SYNCING ts). online t) \<and>
     (\<forall>t \<in> set (by_ps PS_WAITING ts). up t) \<and>
     (by_ps PS_SERVING ts \<noteq> [] \<longrightarrow> by_ps PS_LASTSRV ts = []) \<and>
     (by_ps PS_SERVING ts = [] \<longrightarrow> by_ps PS_SYNCING ts = [])"

definition stable :: "ChainTargetInfoEx list \<Rightarrow> bool" where
  "stable ts \<longleftrightarrow> settled ts \<and>
     (\<forall>t \<in> set (by_ps PS_OFFLINE ts). \<not> up t) \<and>
     (by_ps PS_SERVING ts \<noteq> [] \<and> by_ps PS_SYNCING ts = [] \<longrightarrow>
        (\<forall>t \<in> set (by_ps PS_WAITING ts). \<not> online t))"

lemma flatten_by_ps: "flatten m = concat (map (\<lambda>ps. by_ps ps (flatten m)) chain_order)" if "labelled m"
  using that by (simp add: by_ps_flatten) (simp add: flatten_def)

lemma generateNewChain_ordered:
  "generateNewChain ts = concat (map (\<lambda>ps. by_ps ps (generateNewChain ts)) chain_order)"
  unfolding generateNewChain_groups
  by (rule flatten_by_ps) (intro drop_lastsrv_labelled grp5_labelled)

lemma relabel_by_ps [simp]: "map (relabel ps) (by_ps ps ts) = by_ps ps ts"
  by (induction ts) (auto simp: by_ps_def)

lemma waiting_loop_waiting:
  "set (foldl waiting_step m ts PS_WAITING) \<subseteq> set (m PS_WAITING) \<union> relabel PS_WAITING ` {t \<in> set ts. up t}"
proof (induction ts arbitrary: m)
  case (Cons t ts)
  from Cons.IH [of "waiting_step m t"] show ?case
    by (auto simp: waiting_step_def split: if_splits)
qed simp

lemma waiting_loop_no_recruit:
  "m PS_SERVING = [] \<or> m PS_SYNCING \<noteq> [] \<or> (\<forall>t \<in> set ts. \<not> online t) \<Longrightarrow>
   foldl waiting_step m ts PS_WAITING = m PS_WAITING @ map (relabel PS_WAITING) (filter up ts)"
  by (induction ts arbitrary: m) (auto simp: waiting_step_def is_up_def)

lemma serving_loop_offline:
  "set (foldl serving_step m ts PS_OFFLINE) \<subseteq> set (m PS_OFFLINE) \<union> relabel PS_OFFLINE ` {t \<in> set ts. \<not> up t}"
proof (induction ts arbitrary: m)
  case (Cons t ts)
  from Cons.IH [of "serving_step m t"] show ?case
    by (auto simp: serving_step_def split: if_splits)
qed simp

lemma lastsrv_loop_offline:
  "set (foldl lastsrv_step m ts PS_OFFLINE) \<subseteq> set (m PS_OFFLINE) \<union> relabel PS_OFFLINE ` set ts"
proof (induction ts arbitrary: m)
  case (Cons t ts)
  from Cons.IH [of "lastsrv_step m t"] show ?case
    by (auto simp: lastsrv_step_def split: if_splits)
qed simp

lemma lastsrv_loop_offline_idle:
  "m PS_SERVING = [] \<Longrightarrow> \<forall>t \<in> set ts. \<not> up t \<Longrightarrow> foldl lastsrv_step m ts PS_OFFLINE = m PS_OFFLINE"
  by (induction ts arbitrary: m) (auto simp: lastsrv_step_def)

lemma syncing_loop_offline:
  "\<forall>t \<in> set ts. online t \<Longrightarrow> foldl syncing_step m ts PS_OFFLINE = m PS_OFFLINE"
  by (induction ts arbitrary: m) (auto simp: syncing_step_def)

lemma grp_syncing:
  "grp3 ts PS_SYNCING = map (relabel PS_SYNCING)
     (filter online (if grp2 ts PS_SERVING \<noteq> [] then by_ps PS_SYNCING ts
                     else dropWhile (Not \<circ> in_sync) (by_ps PS_SYNCING ts)))"
  "grp5 ts PS_SYNCING = grp3 ts PS_SYNCING @
     (if grp3 ts PS_SERVING \<noteq> [] \<and> grp3 ts PS_SYNCING = []
      then map (relabel PS_SYNCING) (take 1 (filter online (by_ps PS_WAITING ts @ by_ps PS_OFFLINE ts)))
      else [])"
  by (simp_all add: grp5_def grp3_def grp2_def grp1_def loop_groups del: foldl_append filter_append)

lemma grp_waiting:
  "grp3 ts PS_WAITING = map (relabel PS_WAITING)
     (filter online (if grp2 ts PS_SERVING \<noteq> [] then [] else takeWhile (Not \<circ> in_sync) (by_ps PS_SYNCING ts)))"
  by (simp add: grp3_def grp2_def grp1_def loop_groups)

lemma grp_waiting_set:
  "set (grp5 ts PS_WAITING) \<subseteq> set (grp3 ts PS_WAITING) \<union>
     relabel PS_WAITING ` {t \<in> set (by_ps PS_WAITING ts @ by_ps PS_OFFLINE ts). up t}"
  unfolding grp5_def by (rule waiting_loop_waiting)

lemma grp5_syncing_online: "t \<in> set (grp5 ts PS_SYNCING) \<Longrightarrow> online t"
  by (auto simp: grp_syncing dest!: in_set_takeD split: if_splits)

lemma grp5_syncing_needs_serving:
  assumes "grp5 ts PS_SERVING = []"
  shows "grp5 ts PS_SYNCING = []"
proof -
  have "grp3 ts PS_SERVING = []" and "grp2 ts PS_SERVING = []"
    and "filter in_sync (by_ps PS_SYNCING ts) = []"
    using assms by (simp_all add: grp_serving(2,3))
  moreover from this(3) have dw: "dropWhile (Not \<circ> in_sync) (by_ps PS_SYNCING ts) = []"
    by (auto simp: filter_empty_conv)
  ultimately show ?thesis
    by (simp add: grp_syncing dw del: dropWhile_eq_Nil_conv)
qed

lemma grp5_waiting_up: "t \<in> set (grp5 ts PS_WAITING) \<Longrightarrow> up t"
  using grp_waiting_set [of ts] by (auto simp: grp_waiting is_up_def split: if_splits)

lemma grp5_serving_up: "t \<in> set (grp5 ts PS_SERVING) \<Longrightarrow> up t"
  by (auto simp: grp_serving is_up_def dest!: in_set_takeD split: if_splits)

lemma lastsrv_down:
  "t \<in> set (by_ps PS_LASTSRV (generateNewChain ts)) \<Longrightarrow> \<not> up t"
  unfolding lastsrv_after
  by (auto simp: serving_after filter_empty_conv take1_filter_Nil
      dest: in_set_takeD split: if_splits)

lemma after_groups:
  "by_ps PS_SERVING (generateNewChain ts) = grp5 ts PS_SERVING"
  "by_ps PS_SYNCING (generateNewChain ts) = grp5 ts PS_SYNCING"
  "by_ps PS_WAITING (generateNewChain ts) = grp5 ts PS_WAITING"
  "by_ps PS_OFFLINE (generateNewChain ts) = grp5 ts PS_OFFLINE @
     (if grp5 ts PS_SERVING = [] then [] else map (relabel PS_OFFLINE) (grp5 ts PS_LASTSRV))"
  by (simp_all add: by_ps_generateNewChain drop_lastsrv_apply)

lemma settled_generateNewChain: "settled (generateNewChain ts)"
  unfolding settled_def
proof (intro conjI)
  show "generateNewChain ts = concat (map (\<lambda>ps. by_ps ps (generateNewChain ts)) chain_order)"
    by (rule generateNewChain_ordered)
  show "\<forall>t \<in> set (by_ps PS_LASTSRV (generateNewChain ts)). \<not> up t"
    using lastsrv_down by blast
  show "by_ps PS_SERVING (generateNewChain ts) \<noteq> [] \<longrightarrow> by_ps PS_LASTSRV (generateNewChain ts) = []"
    by (simp add: lastsrv_after)
qed (auto simp: after_groups grp5_syncing_needs_serving
    dest: grp5_serving_up grp5_syncing_online grp5_waiting_up)

lemma relabel_filter_by_ps [simp]: "map (relabel ps) (filter P (by_ps ps ts)) = filter P (by_ps ps ts)"
  by (induction ts) (auto simp: by_ps_def)

lemma settled_grp_serving:
  assumes "settled ts"
  shows "grp2 ts PS_SERVING = by_ps PS_SERVING ts" and "grp3 ts PS_SERVING = by_ps PS_SERVING ts"
proof -
  have "filter up (by_ps PS_SERVING ts) = by_ps PS_SERVING ts" "filter up (by_ps PS_LASTSRV ts) = []"
    and nI: "filter in_sync (by_ps PS_SYNCING ts) = []"
    using assms by (auto simp: settled_def filter_empty_conv)
  then show g2: "grp2 ts PS_SERVING = by_ps PS_SERVING ts"
    by (simp add: grp_serving(1))
  show "grp3 ts PS_SERVING = by_ps PS_SERVING ts"
    by (simp add: grp_serving(2) g2 nI)
qed

lemma settled_grp_syncing:
  assumes "settled ts"
  shows "grp3 ts PS_SYNCING = by_ps PS_SYNCING ts" and "grp3 ts PS_WAITING = []"
proof -
  have "filter online (by_ps PS_SYNCING ts) = by_ps PS_SYNCING ts"
    and "by_ps PS_SERVING ts = [] \<longrightarrow> by_ps PS_SYNCING ts = []"
    using assms by (auto simp: settled_def)
  then show "grp3 ts PS_SYNCING = by_ps PS_SYNCING ts" and "grp3 ts PS_WAITING = []"
    by (auto simp: grp_syncing(1) grp_waiting settled_grp_serving [OF assms])
qed

lemma settled_grp3_offline:
  assumes "settled ts"
  shows "grp3 ts PS_OFFLINE = []"
proof -
  have up: "{t \<in> set (by_ps PS_SERVING ts). \<not> up t} = {}"
    using assms by (auto simp: settled_def)
  have one: "grp1 ts PS_OFFLINE = []"
    using serving_loop_offline [of "\<lambda>_. []" "by_ps PS_SERVING ts"] by (simp add: up grp1_def)
  have "grp2 ts PS_OFFLINE = grp1 ts PS_OFFLINE"
  proof (cases "by_ps PS_SERVING ts = []")
    case True
    then show ?thesis
      using assms by (simp add: grp2_def grp1_def lastsrv_loop_offline_idle settled_def)
  next
    case False
    then show ?thesis
      using assms by (simp add: grp2_def settled_def)
  qed
  with one show ?thesis
    using assms by (simp add: grp3_def syncing_loop_offline settled_def)
qed

lemma grp5_offline:
  "grp5 ts PS_OFFLINE = grp3 ts PS_OFFLINE @
     map (relabel PS_OFFLINE) (filter (Not \<circ> up) (by_ps PS_WAITING ts @ by_ps PS_OFFLINE ts))"
  by (simp add: grp5_def waiting_loop_offline del: foldl_append)

lemma settled_grp5_offline_down:
  assumes "settled ts" and "t \<in> set (grp5 ts PS_OFFLINE)"
  shows "\<not> up t"
  using assms by (auto simp: grp5_offline settled_grp3_offline)

lemma settled_lastsrv_down:
  assumes "settled ts" and "t \<in> set (grp5 ts PS_LASTSRV)"
  shows "\<not> up t"
proof -
  have "grp5 ts PS_LASTSRV = grp2 ts PS_LASTSRV"
    by (simp add: grp5_def grp3_def loop_groups del: foldl_append)
  with assms show ?thesis
    by (auto simp: grp2_def grp1_def loop_groups dest: set_takeWhileD in_set_takeD split: if_splits)
qed

lemma settled_grp5_lastsrv:
  assumes "settled ts" and "by_ps PS_SERVING ts \<noteq> []"
  shows "grp5 ts PS_LASTSRV = []"
proof -
  have "filter (Not \<circ> up) (by_ps PS_SERVING ts) = []" and "by_ps PS_LASTSRV ts = []"
    using assms by (auto simp: settled_def filter_empty_conv)
  then show ?thesis
    by (simp add: grp5_def grp3_def grp2_def grp1_def loop_groups del: foldl_append)
qed

lemma stable_generateNewChain:
  assumes "settled ts"
  shows "stable (generateNewChain ts)"
proof -
  have "\<forall>t \<in> set (grp5 ts PS_WAITING). \<not> online t"
    if "grp5 ts PS_SERVING \<noteq> []" and "grp5 ts PS_SYNCING = []"
  proof -
    have "take (Suc 0) (filter online (by_ps PS_WAITING ts @ by_ps PS_OFFLINE ts)) = []"
      using that by (auto simp: grp_syncing(2) grp_serving(3) simp del: take_eq_Nil filter_append)
    then show ?thesis
      using grp_waiting_set [of ts] by (auto simp: take1_filter_Nil settled_grp_syncing [OF assms] simp del: take_eq_Nil filter_append)
  qed
  with assms show ?thesis
    by (auto simp: stable_def settled_generateNewChain after_groups
        dest: settled_grp5_offline_down settled_lastsrv_down)
qed

lemma generateNewChain_stable:
  assumes "stable ts"
  shows "generateNewChain ts = ts"
proof -
  have s: "settled ts" and off: "filter (Not \<circ> up) (by_ps PS_OFFLINE ts) = by_ps PS_OFFLINE ts"
    and off': "filter up (by_ps PS_OFFLINE ts) = []"
    and off_on: "\<forall>t \<in> set (by_ps PS_OFFLINE ts). \<not> online t"
    using assms by (auto simp: stable_def filter_empty_conv is_up_def)
  have w: "filter up (by_ps PS_WAITING ts) = by_ps PS_WAITING ts" "filter (Not \<circ> up) (by_ps PS_WAITING ts) = []"
    using s by (auto simp: settled_def filter_empty_conv)
  have quiet: "by_ps PS_SERVING ts = [] \<or> by_ps PS_SYNCING ts \<noteq> [] \<or>
      (\<forall>t \<in> set (by_ps PS_WAITING ts @ by_ps PS_OFFLINE ts). \<not> online t)"
    using assms off_on by (auto simp: stable_def)
  then have W: "by_ps PS_WAITING (generateNewChain ts) = by_ps PS_WAITING ts"
    by (subst after_groups, subst grp5_def, subst waiting_loop_no_recruit)
      (auto simp: settled_grp_serving [OF s] settled_grp_syncing [OF s] w off')
  have S: "by_ps PS_SERVING (generateNewChain ts) = by_ps PS_SERVING ts"
    by (simp add: after_groups grp_serving(3) settled_grp_serving [OF s])
  have Y: "by_ps PS_SYNCING (generateNewChain ts) = by_ps PS_SYNCING ts"
    using quiet by (auto simp: after_groups grp_syncing(2) settled_grp_serving [OF s] settled_grp_syncing [OF s]
        filter_empty_conv)
  have L: "by_ps PS_LASTSRV (generateNewChain ts) = by_ps PS_LASTSRV ts"
    using s by (auto simp: lastsrv_after S settled_def)
  have "grp5 ts PS_SERVING \<noteq> [] \<Longrightarrow> grp5 ts PS_LASTSRV = []"
    using settled_grp5_lastsrv [OF s] by (simp add: grp_serving(3) settled_grp_serving [OF s])
  then have F: "by_ps PS_OFFLINE (generateNewChain ts) = by_ps PS_OFFLINE ts"
    by (auto simp: after_groups grp5_offline settled_grp3_offline [OF s] w off)
  have "ts = concat (map (\<lambda>ps. by_ps ps ts) chain_order)"
    using s by (simp add: settled_def)
  with generateNewChain_ordered [of ts] show ?thesis
    by (simp add: S L Y W F)
qed

lemma by_ps_head:
  assumes "by_ps ps (generateNewChain ts) = h # rest" and "ps = PS_SERVING \<or> ps = PS_LASTSRV"
  shows "\<exists>rest'. generateNewChain ts = h # rest'"
proof -
  have "by_ps PS_SERVING (generateNewChain ts) = []" if "ps = PS_LASTSRV"
    using assms(1) that by (auto simp: lastsrv_after split: if_splits)
  with assms show ?thesis
    using generateNewChain_ordered [of ts] by auto
qed

lemma in_by_ps: "t \<in> set (by_ps ps ts) \<longleftrightarrow> t \<in> set ts \<and> cti_publicState t = ps"
  by (auto simp: by_ps_def)

lemma serves_iff:
  "by_ps PS_SERVING (generateNewChain ts) \<noteq> [] \<longleftrightarrow>
     (\<exists>t \<in> set ts. (cti_publicState t \<in> {PS_SERVING, PS_LASTSRV} \<and> up t) \<or>
        (cti_publicState t = PS_SYNCING \<and> in_sync t))"
  by (auto simp: serving_after filter_empty_conv take1_filter_Nil in_by_ps simp del: take_eq_Nil)

lemma length_grp3_syncing: "length (grp3 ts PS_SYNCING) \<le> length (by_ps PS_SYNCING ts)"
  by (simp add: grp_syncing(1) le_trans [OF length_filter_le length_dropWhile_le])

text \<open>
  C3: a chain does not lose its authoritative data. If the old chain has a SERVING or LASTSRV
  target, the new chain is not empty and its head is SERVING and up when some SERVING or LASTSRV
  target is up or some SYNCING target reports UPTODATE, and otherwise LASTSRV and down.
\<close>

theorem generateNewChain_head:
  assumes "\<exists>t \<in> set ts. cti_publicState t \<in> {PS_SERVING, PS_LASTSRV}"
  shows "\<exists>h rest. generateNewChain ts = h # rest \<and>
    (if \<exists>t \<in> set ts. (cti_publicState t \<in> {PS_SERVING, PS_LASTSRV} \<and> up t) \<or>
          (cti_publicState t = PS_SYNCING \<and> in_sync t)
     then cti_publicState h = PS_SERVING \<and> up h
     else cti_publicState h = PS_LASTSRV \<and> \<not> up h)"
proof (cases "by_ps PS_SERVING (generateNewChain ts) = []")
  case True
  have "take 1 (by_ps PS_SERVING ts) @ by_ps PS_LASTSRV ts \<noteq> []"
    using assms by (auto simp: by_ps_def filter_empty_conv)
  with True obtain h rest where h: "by_ps PS_LASTSRV (generateNewChain ts) = h # rest"
    by (cases "by_ps PS_LASTSRV (generateNewChain ts)") (auto simp: lastsrv_after)
  moreover from h have "cti_publicState h = PS_LASTSRV" and "\<not> up h"
    using in_by_ps [of h PS_LASTSRV "generateNewChain ts"] lastsrv_down [of h ts] by auto
  ultimately show ?thesis
    using by_ps_head [OF h] True serves_iff [of ts] by auto
next
  case False
  then obtain h rest where h: "by_ps PS_SERVING (generateNewChain ts) = h # rest"
    by (cases "by_ps PS_SERVING (generateNewChain ts)") auto
  moreover from h have "cti_publicState h = PS_SERVING" and "up h"
    using in_by_ps [of h PS_SERVING "generateNewChain ts"] grp5_serving_up [of h ts]
    by (auto simp: after_groups)
  ultimately show ?thesis
    using by_ps_head [OF h] False serves_iff [of ts] by auto
qed

theorem generateNewChain_head_witness:
  "\<exists>h rest. generateNewChain
      [\<lparr>cti_targetId = 1, cti_publicState = PS_SERVING, cti_localState = LS_OFFLINE\<rparr>] = h # rest"
proof -
  have "\<exists>t \<in> set [\<lparr>cti_targetId = 1, cti_publicState = PS_SERVING, cti_localState = LS_OFFLINE\<rparr>].
      cti_publicState t \<in> {PS_SERVING, PS_LASTSRV}"
    by simp
  from generateNewChain_head [OF this] show ?thesis by blast
qed

text \<open>
  C4: the shape of every chain an update produces. The targets are ordered SERVING, LASTSRV,
  SYNCING, WAITING, OFFLINE; SERVING and LASTSRV targets never coexist; there is a SYNCING
  target only if there is a SERVING one to sync from, and at most one SYNCING target is added.
  SERVING and WAITING targets are up, LASTSRV targets are down and SYNCING targets are ONLINE.
\<close>

theorem generateNewChain_shape:
  "settled (generateNewChain ts) \<and>
   length (by_ps PS_SYNCING (generateNewChain ts)) \<le> max 1 (length (by_ps PS_SYNCING ts))"
  using length_grp3_syncing [of ts]
  by (auto simp: settled_generateNewChain after_groups grp_syncing(2))

text \<open>
  C5: the update converges. While the local states do not change, at most two updates change
  the chain: every later one returns the chain it was given.
\<close>

theorem generateNewChain_converges:
  "generateNewChain (generateNewChain (generateNewChain ts)) = generateNewChain (generateNewChain ts)"
  by (intro generateNewChain_stable stable_generateNewChain settled_generateNewChain)

section \<open>The operations of the administrator\<close>

lemma oldMapping_snoc:
  "oldMapping (ts @ [t]) = (oldMapping ts)(cti_targetId t \<mapsto> (length ts, t))"
  by (simp add: oldMapping_def enumerate_append_eq)

lemma oldMapping_SomeD:
  "oldMapping ts tid = Some (p, t) \<Longrightarrow> p < length ts \<and> ts ! p = t \<and> cti_targetId t = tid"
proof (induction ts rule: rev_induct)
  case (snoc x xs)
  then show ?case
    by (cases "cti_targetId x = tid") (auto simp: oldMapping_snoc nth_append)
qed (simp add: oldMapping_def)

lemma oldMapping_distinct:
  assumes "distinct (map cti_targetId ts)" and "p < length ts"
  shows "oldMapping ts (cti_targetId (ts ! p)) = Some (p, ts ! p)"
  using assms
proof (induction ts rule: rev_induct)
  case (snoc x xs)
  then show ?case
    by (cases "p = length xs")
      (auto simp: oldMapping_snoc nth_append less_Suc_eq dest: nth_mem [of p xs] intro: rev_image_eqI)
qed simp

lemma mismatch_Cons:
  "length (takeWhile (\<lambda>(a, b). a = b) (zip (drop i xs) (y # ys))) =
     (if i < length xs \<and> xs ! i = y
      then Suc (length (takeWhile (\<lambda>(a, b). a = b) (zip (drop (Suc i) xs) ys))) else 0)"
  by (cases "i < length xs") (auto simp: Cons_nth_drop_Suc [symmetric])

lemma rotate_loop_correct:
  fixes ts defines "ids \<equiv> map cti_targetId ts"
  assumes "distinct ids" and "set tids \<subseteq> set ids" and "i + length tids \<le> length ts"
  shows "rotate_loop ts i tids =
    (let n = length (takeWhile (\<lambda>(a, b). a = b) (zip (drop i ids) tids))
     in if n = length tids \<or> (\<exists>t \<in> set ts. cti_targetId t = tids ! n \<and> cti_publicState t \<noteq> PS_SERVING)
        then Some ts
        else Some (take (i + n) ts @ drop (Suc (i + n)) ts @
           [(ts ! (i + n))\<lparr>cti_publicState := PS_OFFLINE, cti_localState := LS_OFFLINE\<rparr>]))"
  using assms(3,4)
proof (induction tids arbitrary: i)
  case (Cons tid tids)
  then obtain p where p: "p < length ts" "tid = cti_targetId (ts ! p)"
    by (auto simp: ids_def in_set_conv_nth)
  then have m: "oldMapping ts tid = Some (p, ts ! p)"
    using assms(2) oldMapping_distinct by (auto simp: ids_def)
  have eq: "ids ! i = tid \<longleftrightarrow> p = i" if "i < length ts"
    using p that assms(2) nth_eq_iff_index_eq [of ids i p] by (auto simp: ids_def)
  have uniq: "t = ts ! p" if "t \<in> set ts" "cti_targetId t = tid" for t
    using that p assms(2) by (metis (no_types, lifting) distinct_map ids_def inj_on_def nth_mem)
  have len: "length ids = length ts"
    by (simp add: ids_def)
  show ?case
  proof (cases "p = i")
    case True
    with Cons.IH [of "Suc i"] Cons.prems m eq show ?thesis
      by (auto simp: mismatch_Cons len Let_def)
  next
    case False
    with Cons.prems m eq uniq p show ?thesis
      by (auto simp: mismatch_Cons len Let_def)
  qed
qed simp

text \<open>
  C17: rotating a chain towards its preferred order. For a chain with distinct targets and a
  preferred order over these targets, let \<open>n\<close> be the first position at which the two differ. If
  they agree, or if the target preferred at \<open>n\<close> is not SERVING, the chain is unchanged;
  otherwise exactly the target at \<open>n\<close> is taken out, set to OFFLINE and appended, so that the
  part that agrees stays in place and the preferred target keeps serving. No read is out of
  bounds.
\<close>

theorem rotateAsPreferredOrder_correct:
  assumes "distinct (map cti_targetId ts)" and "set pref \<subseteq> set (map cti_targetId ts)"
    and "length pref \<le> length ts"
  shows "rotateAsPreferredOrder ts pref =
    (let n = length (takeWhile (\<lambda>(a, b). a = b) (zip (map cti_targetId ts) pref))
     in if n = length pref \<or> (\<exists>t \<in> set ts. cti_targetId t = pref ! n \<and> cti_publicState t \<noteq> PS_SERVING)
        then Some ts
        else Some (take n ts @ drop (Suc n) ts @
           [(ts ! n)\<lparr>cti_publicState := PS_OFFLINE, cti_localState := LS_OFFLINE\<rparr>]))"
  using rotate_loop_correct [of ts pref 0] assms by (auto simp: rotateAsPreferredOrder_def Let_def)

theorem rotateAsPreferredOrder_correct_witness:
  "rotateAsPreferredOrder
     [\<lparr>cti_targetId = 1, cti_publicState = PS_SERVING, cti_localState = LS_UPTODATE\<rparr>,
      \<lparr>cti_targetId = 2, cti_publicState = PS_SERVING, cti_localState = LS_UPTODATE\<rparr>] [2, 1] =
   Some [\<lparr>cti_targetId = 2, cti_publicState = PS_SERVING, cti_localState = LS_UPTODATE\<rparr>,
      \<lparr>cti_targetId = 1, cti_publicState = PS_OFFLINE, cti_localState = LS_OFFLINE\<rparr>]"
  using rotateAsPreferredOrder_correct [of
      "[\<lparr>cti_targetId = 1, cti_publicState = PS_SERVING, cti_localState = LS_UPTODATE\<rparr>,
        \<lparr>cti_targetId = 2, cti_publicState = PS_SERVING, cti_localState = LS_UPTODATE\<rparr>]" "[2, 1]"]
  by simp

lemma rotateLastSrv_Cons:
  "cti_publicState h = PS_LASTSRV \<Longrightarrow>
   rotateLastSrv (h # t # ts) = relabel PS_LASTSRV t # map (relabel PS_OFFLINE) (ts @ [h])"
  by (simp add: rotateLastSrv_def)




lemma shutdown_target_Some:
  "shutdown_target ti = Some ti' \<Longrightarrow>
     cti_targetId ti' = cti_targetId ti \<and>
     cti_publicState ti' = (if cti_publicState ti \<in> {PS_SERVING, PS_LASTSRV} then PS_LASTSRV else PS_OFFLINE)"
  by (auto simp: shutdown_target_def split: PublicTargetState.splits)

lemma shutdownChain_Some:
  "shutdownChain tis = Some tis' \<Longrightarrow>
     list_all2 (\<lambda>ti ti'. cti_targetId ti' = cti_targetId ti \<and>
       cti_publicState ti' = (if cti_publicState ti \<in> {PS_SERVING, PS_LASTSRV} then PS_LASTSRV else PS_OFFLINE)) tis tis'"
  by (induction tis arbitrary: tis') (auto split: option.splits dest: shutdown_target_Some)

lemma shutdownChain_defined:
  "(\<exists>tis'. shutdownChain tis = Some tis') \<longleftrightarrow> (\<forall>ti \<in> set tis. cti_publicState ti \<noteq> PS_INVALID)"
  by (induction tis) (auto simp: shutdown_target_def split: PublicTargetState.splits)

lemma shutdownChain_lastsrv:
  assumes "shutdownChain ts = Some ts'" and "t' \<in> set ts'"
  shows "cti_publicState t' \<in> {PS_LASTSRV, PS_OFFLINE} \<and> (cti_publicState t' = PS_LASTSRV \<longrightarrow>
    (\<exists>t \<in> set ts. cti_targetId t = cti_targetId t' \<and> cti_publicState t \<in> {PS_SERVING, PS_LASTSRV}))"
proof -
  obtain i where i: "i < length ts'" "t' = ts' ! i"
    using assms(2) by (auto simp: in_set_conv_nth)
  then have "ts ! i \<in> set ts" and "cti_targetId t' = cti_targetId (ts ! i)" and
    "cti_publicState t' =
       (if cti_publicState (ts ! i) \<in> {PS_SERVING, PS_LASTSRV} then PS_LASTSRV else PS_OFFLINE)"
    using shutdownChain_Some [OF assms(1)] by (auto simp: list_all2_conv_all_nth)
  then show ?thesis
    by (auto split: if_splits)
qed

text \<open>
  C19: shutting a chain down keeps its targets and their order and fails only on an INVALID
  public state; afterwards, whatever local states are reported, the next update lets only such
  targets serve as were SERVING or LASTSRV before the shutdown. A replica that was not in sync
  at that moment cannot become the authoritative one.
\<close>

theorem shutdownChain_safe:
  assumes "\<forall>t \<in> set ts. cti_publicState t \<noteq> PS_INVALID"
  shows "\<exists>ts'. shutdownChain ts = Some ts' \<and> map cti_targetId ts' = map cti_targetId ts \<and>
    (\<forall>t \<in> set (by_ps PS_SERVING
         (generateNewChain (map (\<lambda>ti. ChainTargetInfoEx_of ti (ls (cti_targetId ti))) ts'))).
       \<exists>t0 \<in> set ts. cti_targetId t0 = cti_targetId t \<and> cti_publicState t0 \<in> {PS_SERVING, PS_LASTSRV})"
proof -
  obtain ts' where ts': "shutdownChain ts = Some ts'"
    using assms shutdownChain_defined by blast
  have "map cti_targetId ts' = map cti_targetId ts"
    using shutdownChain_Some [OF ts'] by (auto simp: list_all2_conv_all_nth intro: nth_equalityI)
  moreover have "\<exists>t0 \<in> set ts. cti_targetId t0 = cti_targetId t \<and> cti_publicState t0 \<in> {PS_SERVING, PS_LASTSRV}"
    if "t \<in> set (by_ps PS_SERVING
         (generateNewChain (map (\<lambda>ti. ChainTargetInfoEx_of ti (ls (cti_targetId ti))) ts')))" for t
    using that shutdownChain_lastsrv [OF ts']
    by (fastforce simp: serving_after in_by_ps ChainTargetInfoEx_of_def dest: in_set_takeD split: if_splits)
  ultimately show ?thesis
    using ts' by blast
qed

theorem shutdownChain_safe_witness:
  "\<exists>ts'. shutdownChain [\<lparr>cti_targetId = 1, cti_publicState = PS_SERVING\<rparr>,
       \<lparr>cti_targetId = 2, cti_publicState = PS_SYNCING\<rparr>] = Some ts' \<and> map cti_targetId ts' = [1, 2]"
proof -
  have "\<forall>t \<in> set [\<lparr>cti_targetId = 1, cti_publicState = PS_SERVING\<rparr>,
       \<lparr>cti_targetId = 2, cti_publicState = PS_SYNCING\<rparr>]. cti_publicState t \<noteq> PS_INVALID"
    by simp
  from shutdownChain_safe [OF this, of "\<lambda>_. LS_ONLINE"] show ?thesis by auto
qed

section \<open>What the three changes have in common\<close>

lemma ids_of_keys: "map cti_targetId ts = map fst (map key ts)"
  by (simp add: key_def)

lemma generateNewChain_ids:
  assumes "\<forall>t \<in> set ts. cti_publicState t \<noteq> PS_INVALID"
  shows "mset (map cti_targetId (generateNewChain ts)) = mset (map cti_targetId ts)"
proof -
  have f: "filter (\<lambda>t. cti_publicState t \<noteq> PS_INVALID) ts = ts"
    using assms by simp
  have "mset (map key (generateNewChain ts)) = mset (map key ts)"
    by (simp add: generateNewChain_groups drop_lastsrv_keys grp5_keys f del: mset_map) simp
  then show ?thesis
    unfolding ids_of_keys mset_map [of fst] by simp
qed

lemma generateNewChain_valid: "t \<in> set (generateNewChain ts) \<Longrightarrow> cti_publicState t \<noteq> PS_INVALID"
  using drop_lastsrv_labelled [OF grp5_labelled, of ts]
  by (auto simp: generateNewChain_groups flatten_def labelled_def)

lemma rotate_move_ids:
  assumes "n < length ts"
  shows "mset (map cti_targetId (take n ts @ drop (Suc n) ts @
    [(ts ! n)\<lparr>cti_publicState := PS_OFFLINE, cti_localState := LS_OFFLINE\<rparr>])) = mset (map cti_targetId ts)"
proof -
  have "mset (map cti_targetId ts) = mset (map cti_targetId (take n ts @ ts ! n # drop (Suc n) ts))"
    using id_take_nth_drop [OF assms] by simp
  then show ?thesis by simp
qed

lemma rotateAsPreferredOrder_ids:
  assumes "distinct (map cti_targetId ts)" and "distinct pref" and "set pref \<subseteq> set (map cti_targetId ts)"
  shows "\<exists>ts'. rotateAsPreferredOrder ts pref = Some ts' \<and>
    mset (map cti_targetId ts') = mset (map cti_targetId ts) \<and>
    (\<forall>t \<in> set ts'. cti_publicState t = PS_OFFLINE \<or> t \<in> set ts)"
proof -
  have len: "length pref \<le> length ts"
    using assms by (metis card_mono distinct_card finite_set length_map)
  let ?n = "length (takeWhile (\<lambda>(a, b). a = b) (zip (map cti_targetId ts) pref))"
  have n: "?n < length ts" if "?n \<noteq> length pref"
    using that len length_takeWhile_le [of "\<lambda>(a, b). a = b" "zip (map cti_targetId ts) pref"] by simp
  show ?thesis
    using rotate_loop_correct [of ts pref 0] assms(1,3) len n rotate_move_ids [of ?n ts]
    by (auto simp: rotateAsPreferredOrder_def Let_def dest: in_set_takeD in_set_dropD)
qed

text \<open>The head of an updated chain is authoritative, also after the move towards the preferred order.\<close>

lemma generateNewChain_head_state:
  assumes "\<exists>t \<in> set ts. cti_publicState t \<in> {PS_SERVING, PS_LASTSRV}"
  shows "generateNewChain ts \<noteq> []" "cti_publicState (hd (generateNewChain ts)) \<in> {PS_SERVING, PS_LASTSRV}"
proof -
  obtain ps h rest where ps: "ps \<in> {PS_SERVING, PS_LASTSRV}" "by_ps ps (generateNewChain ts) = h # rest"
  proof (cases "by_ps PS_SERVING (generateNewChain ts)")
    case Nil
    have "take 1 (by_ps PS_SERVING ts) @ by_ps PS_LASTSRV ts \<noteq> []"
      using assms by (auto simp: by_ps_def filter_empty_conv)
    with Nil obtain h rest where "by_ps PS_LASTSRV (generateNewChain ts) = h # rest"
      by (cases "by_ps PS_LASTSRV (generateNewChain ts)") (auto simp: lastsrv_after)
    then show ?thesis using that by blast
  qed (use that in blast)
  moreover have "cti_publicState h = ps" using ps(2) in_by_ps [of h ps "generateNewChain ts"] by simp
  ultimately show "generateNewChain ts \<noteq> []" "cti_publicState (hd (generateNewChain ts)) \<in> {PS_SERVING, PS_LASTSRV}"
    using by_ps_head [OF ps(2)] by auto
qed

lemma last_serving:
  assumes "generateNewChain ts \<noteq> []" "cti_publicState (last (generateNewChain ts)) = PS_SERVING"
  shows "\<forall>t \<in> set (generateNewChain ts). cti_publicState t = PS_SERVING"
proof -
  let ?g = "generateNewChain ts"
  let ?rest = "concat (map (\<lambda>ps. by_ps ps ?g) (tl chain_order))"
  have g: "?g = by_ps PS_SERVING ?g @ ?rest"
    using generateNewChain_ordered [of ts] by simp
  have "?rest = []"
  proof (rule ccontr)
    assume "?rest \<noteq> []"
    then have "last ?g \<in> set ?rest" using g by (metis last_appendR last_in_set)
    then show False using assms(2) by (auto simp: in_by_ps)
  qed
  then show ?thesis using g in_by_ps by (metis append_Nil2)
qed

lemma rotateAsPreferredOrder_head:
  assumes "distinct (map cti_targetId ts)" "distinct pref" "set pref \<subseteq> set (map cti_targetId ts)" "ts \<noteq> []"
    and all: "\<forall>t \<in> set ts. cti_publicState t = PS_SERVING" and run: "rotateAsPreferredOrder ts pref = Some ts'"
  shows "ts' \<noteq> [] \<and> cti_publicState (hd ts') = PS_SERVING"
proof -
  define zs where "zs = zip (map cti_targetId ts) pref"
  define n where "n = length (takeWhile (\<lambda>(a, b). a = b) zs)"
  have len: "length pref \<le> length ts" using assms(1-3) by (metis card_mono distinct_card finite_set length_map)
  have r: "ts' = (if n = length pref then ts
      else (take n ts @ drop (Suc n) ts) @ [(ts ! n)\<lparr>cti_publicState := PS_OFFLINE, cti_localState := LS_OFFLINE\<rparr>])"
    using rotate_loop_correct [of ts pref 0] assms(1,3) all len run
    by (auto simp: rotateAsPreferredOrder_def Let_def n_def zs_def split: if_splits)
  show ?thesis
  proof (cases "n = length pref")
    case True
    then show ?thesis using r all assms(4) by simp
  next
    case False
    have lz: "length zs = length pref" using len by (simp add: zs_def)
    have "n \<le> length pref" unfolding n_def lz [symmetric] by (rule length_takeWhile_le)
    then have n: "n < length pref" "n < length zs" "n < length ts" using False len lz by simp_all
    have "\<not> (case zs ! n of (a, b) \<Rightarrow> a = b)"
      unfolding n_def by (rule nth_length_takeWhile) (use n(2) in \<open>simp only: n_def\<close>)
    then have ne: "cti_targetId (ts ! n) \<noteq> pref ! n" using n by (simp add: zs_def)
    obtain t where t: "t \<in> set ts" "cti_targetId t = pref ! n" using assms(3) nth_mem [OF n(1)] by auto
    have "set ts = set (take n ts @ ts ! n # drop (Suc n) ts)" using id_take_nth_drop [OF n(3)] by simp
    then have k: "t \<in> set (take n ts @ drop (Suc n) ts)" "set (take n ts @ drop (Suc n) ts) \<subseteq> set ts" using t ne by auto
    then obtain x xs where "take n ts @ drop (Suc n) ts = x # xs" by (cases "take n ts @ drop (Suc n) ts") auto
    then show ?thesis using r False k(2) all by auto
  qed
qed

lemma rotateLastSrv_ids: "mset (map cti_targetId (rotateLastSrv ts)) = mset (map cti_targetId ts)"
proof (cases "length ts < 2 \<or> cti_publicState (ts ! 0) \<noteq> PS_LASTSRV")
  case False
  then obtain h t us where "ts = h # t # us"
    by (cases ts rule: list.exhaust; cases "tl ts") auto
  with False show ?thesis
    by (simp add: rotateLastSrv_Cons image_mset.compositionality comp_def)
qed (auto simp: rotateLastSrv_def)

lemma rotateLastSrv_valid:
  "t \<in> set (rotateLastSrv ts) \<Longrightarrow> cti_publicState t \<in> {PS_LASTSRV, PS_OFFLINE} \<or> t \<in> set ts"
  by (auto simp: rotateLastSrv_def Let_def split: if_splits)

end
