(* ===== verification/Routing_Info.thy ===== *)
theory Routing_Info
  imports Chain_Update
begin

text \<open>
  The cluster manager's routing info (\<^verbatim>\<open>src/src/mgmtd/service/RoutingInfo.h\<close> and
  \<^verbatim>\<open>RoutingInfo.cc\<close>). The chains list their targets with a public state, and the private map of
  targets repeats that state beside the chain id; the invariant says that the two agree. The
  result None of an operation is an abort of the process (a FATAL log). The steady clock is an
  argument.
\<close>

section \<open>Definitions\<close>

type_synonym NodeMap = "(NodeId \<times> NodeInfoWrapper) list"
type_synonym ChainTableMap = "(ChainTableId \<times> (ChainTableVersion, ChainTable) omap) list"
type_synonym ChainMap = "(ChainId \<times> ChainInfo) list"
type_synonym TargetMap = "(TargetId \<times> TargetInfoW) list"

record RoutingInfo =
  ri_routingInfoChanged :: bool
  ri_routingInfoVersion :: RoutingInfoVersion
  ri_nodeMap :: NodeMap
  ri_chainTables :: ChainTableMap
  ri_chains :: ChainMap
  ri_newBornChains :: "(ChainId \<times> SteadyTime) list"
  ri_orphanTargetsByTargetId :: "(TargetId \<times> TargetInfo) list"
  ri_orphanTargetsByNodeId :: "(NodeId \<times> TargetId list) list"
  ri_targets :: TargetMap

definition makeTargetInfo :: "ChainId \<Rightarrow> ChainTargetInfo \<Rightarrow> TargetInfo" where
  "makeTargetInfo chainId info = empty_TargetInfo\<lparr>ti_targetId := cti_targetId info,
     ti_publicState := cti_publicState info, ti_localState := LS_OFFLINE, ti_chainId := chainId\<rparr>"

definition getChain :: "RoutingInfo \<Rightarrow> ChainId \<Rightarrow> ChainInfo option" where
  "getChain ri cid = map_of (ri_chains ri) cid"

text \<open>\<^verbatim>\<open>targets[tid]\<close> creates an entry for an unknown id (the log before it aborts debug builds only).\<close>

definition updateTarget ::
  "TargetId \<Rightarrow> SteadyTime \<Rightarrow> (TargetInfoW \<Rightarrow> TargetInfoW option) \<Rightarrow> RoutingInfo \<Rightarrow> RoutingInfo option" where
  "updateTarget tid steadyNow func ri =
     (let ti = (case map_of (ri_targets ri) tid of
            Some ti \<Rightarrow> ti | None \<Rightarrow> TargetInfoW_of empty_TargetInfo steadyNow steadyNow)
      in map_option (\<lambda>ti'. ri\<lparr>ri_targets := AList.update tid ti' (ri_targets ri)\<rparr>) (func ti))"

definition set_public_state :: "SteadyTime \<Rightarrow> ChainTargetInfo \<Rightarrow> TargetInfoW \<Rightarrow> TargetInfoW option" where
  "set_public_state now cti ti =
     Some (ti\<lparr>tw_base := (tw_base ti)\<lparr>ti_publicState := cti_publicState cti\<rparr>, tw_ts := now\<rparr>)"

definition apply_chain :: "SteadyTime \<Rightarrow> ChainInfo \<Rightarrow> RoutingInfo \<Rightarrow> RoutingInfo option" where
  "apply_chain now chain ri =
     (case getChain ri (ci_chainId chain) of
        None \<Rightarrow> None
      | Some oldChain \<Rightarrow>
          ofold (\<lambda>cti. updateTarget (cti_targetId cti) now (set_public_state now cti)) (ci_targets chain)
            (ri\<lparr>ri_chains := AList.update (ci_chainId chain) chain (ri_chains ri)\<rparr>))"

definition applyChainTargetChanges :: "ChainInfo list \<Rightarrow> SteadyTime \<Rightarrow> RoutingInfo \<Rightarrow> RoutingInfo option" where
  "applyChainTargetChanges changedChains now = ofold (apply_chain now) changedChains"

text \<open>
  \<^verbatim>\<open>localUpdateTargets\<close>: \<open>ignore_stale\<close> is the setting \<^verbatim>\<open>heartbeat_ignore_stale_targets\<close>.
\<close>

definition local_update ::
  "NodeId \<Rightarrow> bool \<Rightarrow> SteadyTime \<Rightarrow> LocalTargetInfo \<Rightarrow> RoutingInfo \<Rightarrow> TargetInfoW \<Rightarrow> TargetInfoW option" where
  "local_update nodeId ignore_stale steadyNow lti ri ti =
     (let base = tw_base ti;
          shouldIgnore =
            (if lti_chainVersion lti = 0 \<or> \<not> ignore_stale then Some False
             else map_option (\<lambda>chain. ci_chainVersion chain > lti_chainVersion lti) (getChain ri (ti_chainId base)))
      in case shouldIgnore of
           None \<Rightarrow> None
         | Some True \<Rightarrow> Some ti
         | Some False \<Rightarrow>
             let ti1 = ti\<lparr>tw_ts := steadyNow\<rparr>;
                 importantInfoChanged =
                   (ti_localState base \<noteq> lti_localState lti \<or> ti_nodeId base \<noteq> Some nodeId);
                 ti2 = (if importantInfoChanged then ti1\<lparr>tw_importantInfoChangedTime := steadyNow\<rparr> else ti1)
             in Some (ti2\<lparr>tw_base := base\<lparr>ti_localState := lti_localState lti, ti_nodeId := Some nodeId,
                  ti_diskIndex := lti_diskIndex lti, ti_usedSize := lti_usedSize lti\<rparr>\<rparr>))"

definition add_orphan :: "NodeId \<Rightarrow> LocalTargetInfo \<Rightarrow> RoutingInfo \<Rightarrow> RoutingInfo" where
  "add_orphan nodeId lti ri =
     (let tid = lti_targetId lti;
          orphans = (case map_of (ri_orphanTargetsByNodeId ri) nodeId of None \<Rightarrow> [] | Some s \<Rightarrow> s);
          ti = empty_TargetInfo\<lparr>ti_targetId := tid, ti_localState := lti_localState lti,
                 ti_nodeId := Some nodeId, ti_diskIndex := lti_diskIndex lti, ti_usedSize := lti_usedSize lti\<rparr>
      in ri\<lparr>ri_orphanTargetsByNodeId :=
               AList.update nodeId (List.insert tid orphans) (ri_orphanTargetsByNodeId ri),
            ri_orphanTargetsByTargetId := AList.update tid ti (ri_orphanTargetsByTargetId ri)\<rparr>)"

definition clear_orphans :: "NodeId \<Rightarrow> RoutingInfo \<Rightarrow> RoutingInfo" where
  "clear_orphans nodeId ri =
     (let orphans = (case map_of (ri_orphanTargetsByNodeId ri) nodeId of None \<Rightarrow> [] | Some s \<Rightarrow> s)
      in ri\<lparr>ri_orphanTargetsByTargetId := fold AList.delete orphans (ri_orphanTargetsByTargetId ri),
            ri_orphanTargetsByNodeId := AList.update nodeId [] (ri_orphanTargetsByNodeId ri)\<rparr>)"

definition local_update_target ::
  "NodeId \<Rightarrow> bool \<Rightarrow> SteadyTime \<Rightarrow> LocalTargetInfo \<Rightarrow> RoutingInfo \<Rightarrow> RoutingInfo option" where
  "local_update_target nodeId ignore_stale steadyNow lti ri =
     (if map_of (ri_targets ri) (lti_targetId lti) \<noteq> None
      then updateTarget (lti_targetId lti) steadyNow (local_update nodeId ignore_stale steadyNow lti ri) ri
      else Some (add_orphan nodeId lti ri))"

definition localUpdateTargets ::
  "NodeId \<Rightarrow> LocalTargetInfo list \<Rightarrow> bool \<Rightarrow> SteadyTime \<Rightarrow> RoutingInfo \<Rightarrow> RoutingInfo option" where
  "localUpdateTargets nodeId targets ignore_stale steadyNow ri =
     ofold (local_update_target nodeId ignore_stale steadyNow) targets (clear_orphans nodeId ri)"

definition eraseOrphanTarget :: "TargetId \<Rightarrow> RoutingInfo \<Rightarrow> RoutingInfo option" where
  "eraseOrphanTarget tid ri =
     (case map_of (ri_orphanTargetsByTargetId ri) tid of
        None \<Rightarrow> Some ri
      | Some oti \<Rightarrow>
          (case ti_nodeId oti of
             None \<Rightarrow> None
           | Some nodeId \<Rightarrow>
               (case map_of (ri_orphanTargetsByNodeId ri) nodeId of
                  None \<Rightarrow> None
                | Some s \<Rightarrow>
                    if tid \<notin> set s then None
                    else let s' = removeAll tid s
                         in Some (ri\<lparr>
                           ri_orphanTargetsByNodeId :=
                             (if s' = [] then AList.delete nodeId (ri_orphanTargetsByNodeId ri)
                              else AList.update nodeId s' (ri_orphanTargetsByNodeId ri)),
                           ri_orphanTargetsByTargetId := AList.delete tid (ri_orphanTargetsByTargetId ri)\<rparr>))))"

definition insertNewTarget :: "ChainId \<Rightarrow> ChainTargetInfo \<Rightarrow> SteadyTime \<Rightarrow> RoutingInfo \<Rightarrow> RoutingInfo option" where
  "insertNewTarget cid cti steadyNow ri =
     (let tid = cti_targetId cti
      in if map_of (ri_targets ri) tid \<noteq> None then None
         else eraseOrphanTarget tid (ri\<lparr>ri_targets :=
                AList.update tid (TargetInfoW_of (makeTargetInfo cid cti) steadyNow steadyNow) (ri_targets ri)\<rparr>))"

definition insertNewChain :: "ChainInfo \<Rightarrow> SteadyTime \<Rightarrow> RoutingInfo \<Rightarrow> RoutingInfo option" where
  "insertNewChain chain createdTime ri =
     (let cid = ci_chainId chain
      in if map_of (ri_chains ri) cid \<noteq> None then None
         else map_option
           (\<lambda>ri'. ri'\<lparr>ri_newBornChains := AList.update cid createdTime (ri_newBornChains ri')\<rparr>)
           (ofold (\<lambda>t. insertNewTarget cid t createdTime) (ci_targets chain)
              (ri\<lparr>ri_chains := AList.update cid chain (ri_chains ri)\<rparr>)))"

definition removeTarget :: "ChainId \<Rightarrow> TargetId \<Rightarrow> RoutingInfo \<Rightarrow> RoutingInfo option" where
  "removeTarget cid tid ri =
     (case map_of (ri_targets ri) tid of
        None \<Rightarrow> None
      | Some ti \<Rightarrow>
          if ti_publicState (tw_base ti) \<noteq> PS_OFFLINE then None
          else if (case map_of (ri_chains ri) cid of
                     None \<Rightarrow> False | Some chain \<Rightarrow> tid \<in> cti_targetId ` set (ci_targets chain)) then None
          else Some (ri\<lparr>ri_targets := AList.delete tid (ri_targets ri)\<rparr>))"

definition reset_routing ::
  "SteadyTime \<Rightarrow> RoutingInfoVersion \<Rightarrow> NodeMap \<Rightarrow> ChainTableMap \<Rightarrow> ChainMap \<Rightarrow> TargetMap \<Rightarrow>
   RoutingInfo \<Rightarrow> RoutingInfo" where
  "reset_routing steadyNow version allNodes allChainTables allChains allTargets ri =
     ri\<lparr>ri_nodeMap := map (\<lambda>(id, sn). (id, NodeInfoWrapper_of (nw_base sn) steadyNow)) allNodes,
        ri_chainTables := allChainTables,
        ri_chains := allChains,
        ri_targets := allTargets,
        ri_routingInfoVersion := version,
        ri_newBornChains := map (\<lambda>(cid, _). (cid, steadyNow)) allChains,
        ri_orphanTargetsByTargetId := [],
        ri_orphanTargetsByNodeId := []\<rparr>"

text \<open>The initial value: the default member initialisers.\<close>

definition initial_RoutingInfo :: RoutingInfo where
  "initial_RoutingInfo = \<lparr>ri_routingInfoChanged = False, ri_routingInfoVersion = 1, ri_nodeMap = [],
     ri_chainTables = [], ri_chains = [], ri_newBornChains = [], ri_orphanTargetsByTargetId = [],
     ri_orphanTargetsByNodeId = [], ri_targets = []\<rparr>"

section \<open>The invariant\<close>

definition chain_ids :: "ChainInfo \<Rightarrow> TargetId list" where
  "chain_ids c = map cti_targetId (ci_targets c)"

text \<open>Chains and targets agree: every target of a chain is in the map of targets with that chain's
  id and the same public state, and every entry of the map belongs to its chain.\<close>

definition coherent :: "(ChainId \<rightharpoonup> ChainInfo) \<Rightarrow> (TargetId \<rightharpoonup> TargetInfoW) \<Rightarrow> bool" where
  "coherent C T \<longleftrightarrow>
     (\<forall>cid c. C cid = Some c \<longrightarrow> ci_chainId c = cid \<and> distinct (chain_ids c) \<and>
        (\<forall>cti \<in> set (ci_targets c). \<exists>tw. T (cti_targetId cti) = Some tw \<and>
           ti_chainId (tw_base tw) = cid \<and> ti_publicState (tw_base tw) = cti_publicState cti)) \<and>
     (\<forall>tid tw. T tid = Some tw \<longrightarrow> ti_targetId (tw_base tw) = tid \<and>
        (\<exists>c. C (ti_chainId (tw_base tw)) = Some c \<and> tid \<in> set (chain_ids c)))"

text \<open>An orphan is not a target, and the index by node covers it.\<close>

definition orphans_ok ::
  "(TargetId \<rightharpoonup> TargetInfo) \<Rightarrow> (NodeId \<rightharpoonup> TargetId list) \<Rightarrow> (TargetId \<rightharpoonup> TargetInfoW) \<Rightarrow> bool" where
  "orphans_ok P N T \<longleftrightarrow>
     (\<forall>tid ti. P tid = Some ti \<longrightarrow> T tid = None \<and>
        (\<exists>n s. ti_nodeId ti = Some n \<and> N n = Some s \<and> tid \<in> set s))"

definition ri_maps_wf :: "RoutingInfo \<Rightarrow> bool" where
  "ri_maps_wf ri \<longleftrightarrow> distinct (map fst (ri_nodeMap ri)) \<and> distinct (map fst (ri_chainTables ri)) \<and>
     distinct (map fst (ri_chains ri)) \<and> distinct (map fst (ri_newBornChains ri)) \<and>
     distinct (map fst (ri_orphanTargetsByTargetId ri)) \<and>
     distinct (map fst (ri_orphanTargetsByNodeId ri)) \<and> distinct (map fst (ri_targets ri))"

text \<open>New chains are chains.\<close>

definition newborn_ok :: "(ChainId \<rightharpoonup> SteadyTime) \<Rightarrow> (ChainId \<rightharpoonup> ChainInfo) \<Rightarrow> bool" where
  "newborn_ok B C \<longleftrightarrow> (\<forall>cid. C cid = None \<longrightarrow> B cid = None)"

lemma newborn_ok_simps [simp]:
  "newborn_ok (\<lambda>x. None) C"
  "newborn_ok B C \<Longrightarrow> newborn_ok B (C(cid \<mapsto> c))"
  "newborn_ok B C \<Longrightarrow> newborn_ok (B(cid \<mapsto> t)) (C(cid \<mapsto> c))"
  "newborn_ok B C \<Longrightarrow> newborn_ok (B(cid := None)) C"
  by (auto simp: newborn_ok_def)

text \<open>No target is in the state INVALID, and the preferred order lists targets of the chain, each once.\<close>

definition chain_valid :: "ChainInfo \<Rightarrow> bool" where
  "chain_valid c \<longleftrightarrow> (\<forall>cti \<in> set (ci_targets c). cti_publicState cti \<noteq> PS_INVALID) \<and>
     distinct (ci_preferredTargetOrder c) \<and> set (ci_preferredTargetOrder c) \<subseteq> set (chain_ids c)"

definition ri_wf :: "RoutingInfo \<Rightarrow> bool" where
  "ri_wf ri \<longleftrightarrow> ri_maps_wf ri \<and> newborn_ok (map_of (ri_newBornChains ri)) (map_of (ri_chains ri)) \<and>
     (\<forall>cid c. map_of (ri_chains ri) cid = Some c \<longrightarrow> chain_valid c) \<and>
     coherent (map_of (ri_chains ri)) (map_of (ri_targets ri)) \<and>
     orphans_ok (map_of (ri_orphanTargetsByTargetId ri)) (map_of (ri_orphanTargetsByNodeId ri))
       (map_of (ri_targets ri))"

lemma coherent_chainD:
  assumes "coherent C T" and "C cid = Some c"
  shows "ci_chainId c = cid" and "distinct (chain_ids c)"
    and "cti \<in> set (ci_targets c) \<Longrightarrow> \<exists>tw. T (cti_targetId cti) = Some tw \<and>
      ti_chainId (tw_base tw) = cid \<and> ti_publicState (tw_base tw) = cti_publicState cti"
  using assms unfolding coherent_def by blast+

lemma coherent_chain_ids:
  assumes "coherent C T" and "C cid = Some c" and "tid \<in> set (chain_ids c)"
  shows "\<exists>tw. T tid = Some tw \<and> ti_chainId (tw_base tw) = cid"
proof -
  obtain cti where "cti \<in> set (ci_targets c)" and "tid = cti_targetId cti"
    using assms(3) by (auto simp: chain_ids_def)
  with coherent_chainD(3) [OF assms(1,2)] show ?thesis by blast
qed

lemma coherent_targetD:
  assumes "coherent C T" and "T tid = Some tw"
  shows "ti_targetId (tw_base tw) = tid"
    and "\<exists>c. C (ti_chainId (tw_base tw)) = Some c \<and> tid \<in> set (chain_ids c)"
  using assms unfolding coherent_def by blast+

text \<open>Replacing one chain by another over the same targets, with the states copied to the map.\<close>

definition with_state :: "SteadyTime \<Rightarrow> ChainTargetInfo \<Rightarrow> TargetInfoW \<Rightarrow> TargetInfoW" where
  "with_state now cti ti = ti\<lparr>tw_base := (tw_base ti)\<lparr>ti_publicState := cti_publicState cti\<rparr>, tw_ts := now\<rparr>"

definition set_states ::
  "SteadyTime \<Rightarrow> ChainTargetInfo list \<Rightarrow> (TargetId \<rightharpoonup> TargetInfoW) \<Rightarrow> (TargetId \<rightharpoonup> TargetInfoW)" where
  "set_states now ctis T = (\<lambda>tid. case map_of (map (\<lambda>cti. (cti_targetId cti, cti)) ctis) tid of
     None \<Rightarrow> T tid | Some cti \<Rightarrow> map_option (with_state now cti) (T tid))"

lemma with_state_simps [simp]:
  "ti_targetId (tw_base (with_state now cti tw)) = ti_targetId (tw_base tw)"
  "ti_chainId (tw_base (with_state now cti tw)) = ti_chainId (tw_base tw)"
  "ti_publicState (tw_base (with_state now cti tw)) = cti_publicState cti"
  "ti_localState (tw_base (with_state now cti tw)) = ti_localState (tw_base tw)"
  by (simp_all add: with_state_def)

lemma map_of_ctis:
  assumes "distinct (map cti_targetId ctis)" and "cti \<in> set ctis"
  shows "map_of (map (\<lambda>cti. (cti_targetId cti, cti)) ctis) (cti_targetId cti) = Some cti"
  using assms by (intro map_of_is_SomeI) (auto simp: comp_def)

lemma map_of_ctis_None:
  "map_of (map (\<lambda>cti. (cti_targetId cti, cti)) ctis) tid = None \<longleftrightarrow> tid \<notin> cti_targetId ` set ctis"
  by (simp add: map_of_eq_None_iff image_image)

lemma set_states_SomeD:
  assumes "set_states now ctis T tid = Some tw"
  shows "\<exists>tw0. T tid = Some tw0 \<and> ti_targetId (tw_base tw) = ti_targetId (tw_base tw0) \<and>
    ti_chainId (tw_base tw) = ti_chainId (tw_base tw0)"
  using assms by (auto simp: set_states_def split: option.splits)

lemma set_states_None: "set_states now ctis T tid = None \<longleftrightarrow> T tid = None"
  by (auto simp: set_states_def split: option.splits)

lemma coherent_set_chain:
  assumes "coherent C T" and "ci_chainId c' = cid" and "distinct (chain_ids c')"
    and here: "\<And>cti. cti \<in> set (ci_targets c') \<Longrightarrow> \<exists>tw. T' (cti_targetId cti) = Some tw \<and>
      ti_chainId (tw_base tw) = cid \<and> ti_publicState (tw_base tw) = cti_publicState cti"
    and only: "\<And>tid tw. T' tid = Some tw \<Longrightarrow> ti_chainId (tw_base tw) = cid \<Longrightarrow>
      ti_targetId (tw_base tw) = tid \<and> tid \<in> set (chain_ids c')"
    and other: "\<And>tid tw. ti_chainId (tw_base tw) \<noteq> cid \<Longrightarrow> T' tid = Some tw \<longleftrightarrow> T tid = Some tw"
  shows "coherent (C(cid \<mapsto> c')) T'"
  unfolding coherent_def
proof (intro conjI allI impI ballI)
  fix d k
  assume k: "(C(cid \<mapsto> c')) d = Some k"
  show "ci_chainId k = d" and "distinct (chain_ids k)"
    using k assms(2,3) coherent_chainD(1,2) [OF assms(1), of d k] by (cases "d = cid"; simp)+
  fix cti
  assume cti: "cti \<in> set (ci_targets k)"
  show "\<exists>tw. T' (cti_targetId cti) = Some tw \<and>
      ti_chainId (tw_base tw) = d \<and> ti_publicState (tw_base tw) = cti_publicState cti"
  proof (cases "d = cid")
    case True
    with k cti here show ?thesis by simp
  next
    case False
    with k have "C d = Some k" by simp
    from coherent_chainD(3) [OF assms(1) this cti] other False show ?thesis by blast
  qed
next
  fix tid tw
  assume tw: "T' tid = Some tw"
  show "ti_targetId (tw_base tw) = tid"
    and "\<exists>k. (C(cid \<mapsto> c')) (ti_chainId (tw_base tw)) = Some k \<and> tid \<in> set (chain_ids k)"
    using only [OF tw] other [of tw tid] tw coherent_targetD [OF assms(1), of tid tw]
    by (cases "ti_chainId (tw_base tw) = cid"; simp)+
qed

lemma coherent_replace:
  assumes "coherent C T" and c: "C cid = Some c" and "ci_chainId c' = cid"
    and "distinct (chain_ids c')" and ids: "set (chain_ids c') = set (chain_ids c)"
  shows "coherent (C(cid \<mapsto> c')) (set_states now (ci_targets c') T)"
proof (rule coherent_set_chain [OF assms(1,3,4)])
  fix cti
  assume cti: "cti \<in> set (ci_targets c')"
  then have "cti_targetId cti \<in> set (chain_ids c)"
    unfolding ids [symmetric] by (simp add: chain_ids_def)
  from coherent_chain_ids [OF assms(1) c this]
  show "\<exists>tw. set_states now (ci_targets c') T (cti_targetId cti) = Some tw \<and>
      ti_chainId (tw_base tw) = cid \<and> ti_publicState (tw_base tw) = cti_publicState cti"
    using map_of_ctis [of "ci_targets c'" cti] assms(4) cti by (auto simp: set_states_def chain_ids_def)
next
  fix tid tw
  assume "set_states now (ci_targets c') T tid = Some tw" and "ti_chainId (tw_base tw) = cid"
  with set_states_SomeD obtain tw0 where "T tid = Some tw0" "ti_chainId (tw_base tw0) = cid"
      "ti_targetId (tw_base tw) = ti_targetId (tw_base tw0)"
    by metis
  with coherent_targetD [OF assms(1) this(1)] c
  show "ti_targetId (tw_base tw) = tid \<and> tid \<in> set (chain_ids c')"
    by (simp add: ids)
next
  fix tid and tw :: TargetInfoW
  assume tw: "ti_chainId (tw_base tw) \<noteq> cid"
  have "T tid = Some tw0 \<Longrightarrow> tid \<in> set (chain_ids c') \<Longrightarrow> ti_chainId (tw_base tw0) = cid" for tw0
    using coherent_chain_ids [OF assms(1) c, of tid] ids by auto
  then show "set_states now (ci_targets c') T tid = Some tw \<longleftrightarrow> T tid = Some tw"
    using tw map_of_ctis_None [of "ci_targets c'" tid]
    by (cases "tid \<in> set (chain_ids c')") (auto simp: set_states_def chain_ids_def split: option.splits)
qed

section \<open>Applying chain changes\<close>

abbreviation put_chains :: "ChainInfo list \<Rightarrow> (ChainId \<rightharpoonup> ChainInfo) \<Rightarrow> ChainId \<rightharpoonup> ChainInfo" where
  "put_chains \<equiv> put_by ci_chainId"

lemma updateTarget_known:
  "map_of (ri_targets ri) tid = Some ti \<Longrightarrow>
   updateTarget tid now f ri = map_option (\<lambda>ti'. ri\<lparr>ri_targets := AList.update tid ti' (ri_targets ri)\<rparr>) (f ti)"
  by (simp add: updateTarget_def)

lemma set_public_state_eq: "set_public_state now cti ti = Some (with_state now cti ti)"
  by (simp add: set_public_state_def with_state_def)

lemma set_states_Cons:
  assumes "cti_targetId cti \<notin> cti_targetId ` set ctis" and "T (cti_targetId cti) = Some tw"
  shows "set_states now (cti # ctis) T = set_states now ctis (T(cti_targetId cti \<mapsto> with_state now cti tw))"
proof
  fix tid
  have "map_of (map (\<lambda>cti. (cti_targetId cti, cti)) ctis) (cti_targetId cti) = None"
    unfolding map_of_ctis_None using assms(1) .
  with assms(2) show "set_states now (cti # ctis) T tid = set_states now ctis (T(cti_targetId cti \<mapsto> with_state now cti tw)) tid"
    by (simp add: set_states_def fun_upd_def split: option.split)
qed

lemma apply_targets:
  assumes "distinct (map cti_targetId ctis)" and "\<forall>cti \<in> set ctis. map_of (ri_targets ri) (cti_targetId cti) \<noteq> None"
    and "distinct (map fst (ri_targets ri))"
  shows "\<exists>ts. ofold (\<lambda>cti. updateTarget (cti_targetId cti) now (set_public_state now cti)) ctis ri =
      Some (ri\<lparr>ri_targets := ts\<rparr>) \<and> map_of ts = set_states now ctis (map_of (ri_targets ri)) \<and>
      distinct (map fst ts)"
  using assms
proof (induction ctis arbitrary: ri)
  case Nil
  show ?case
    using Nil(3) by (intro exI [of _ "ri_targets ri"]) (simp add: set_states_def)
next
  case (Cons cti ctis)
  then obtain tw where tw: "map_of (ri_targets ri) (cti_targetId cti) = Some tw" by auto
  let ?ri = "ri\<lparr>ri_targets := AList.update (cti_targetId cti) (with_state now cti tw) (ri_targets ri)\<rparr>"
  have "updateTarget (cti_targetId cti) now (set_public_state now cti) ri = Some ?ri"
    by (simp add: updateTarget_known [OF tw] set_public_state_eq)
  moreover have "\<forall>c \<in> set ctis. map_of (ri_targets ?ri) (cti_targetId c) \<noteq> None"
    using Cons.prems(2) by (simp add: update_conv')
  moreover have "distinct (map fst (ri_targets ?ri))"
    using Cons.prems(3) by (simp add: distinct_update)
  ultimately show ?case
    using Cons.IH [of ?ri] Cons.prems(1) set_states_Cons [of cti ctis "map_of (ri_targets ri)" tw now] tw
    by (auto simp: update_conv' fun_upd_def)
qed

definition chain_change_ok :: "RoutingInfo \<Rightarrow> ChainInfo \<Rightarrow> bool" where
  "chain_change_ok ri c' \<longleftrightarrow> (\<exists>c. map_of (ri_chains ri) (ci_chainId c') = Some c \<and>
     distinct (chain_ids c') \<and> set (chain_ids c') = set (chain_ids c)) \<and> chain_valid c'"

lemma apply_chain_correct:
  assumes "ri_wf ri" and "chain_change_ok ri c'"
  shows "\<exists>ts. apply_chain now c' ri = Some (ri\<lparr>ri_chains := AList.update (ci_chainId c') c' (ri_chains ri),
      ri_targets := ts\<rparr>) \<and> map_of ts = set_states now (ci_targets c') (map_of (ri_targets ri)) \<and>
      distinct (map fst ts)"
proof -
  obtain c where c: "map_of (ri_chains ri) (ci_chainId c') = Some c"
      "distinct (chain_ids c')" "set (chain_ids c') = set (chain_ids c)"
    using assms(2) by (auto simp: chain_change_ok_def)
  let ?ri = "ri\<lparr>ri_chains := AList.update (ci_chainId c') c' (ri_chains ri)\<rparr>"
  have "map_of (ri_targets ri) (cti_targetId cti) \<noteq> None" if "cti \<in> set (ci_targets c')" for cti
  proof -
    have "coherent (map_of (ri_chains ri)) (map_of (ri_targets ri))" and "cti_targetId cti \<in> set (chain_ids c)"
      using assms(1) that c(3) by (auto simp: ri_wf_def chain_ids_def)
    then show ?thesis
      using coherent_chain_ids c(1) by fastforce
  qed
  then show ?thesis
    using apply_targets [of "ci_targets c'" ?ri now] c assms(1)
    by (auto simp: apply_chain_def getChain_def chain_ids_def ri_wf_def ri_maps_wf_def)
qed

lemma ri_wf_replace:
  assumes "ri_wf ri" and "chain_change_ok ri c'"
    and "map_of ts = set_states now (ci_targets c') (map_of (ri_targets ri))" and "distinct (map fst ts)"
  shows "ri_wf (ri\<lparr>ri_chains := AList.update (ci_chainId c') c' (ri_chains ri), ri_targets := ts\<rparr>)"
  using assms coherent_replace [of "map_of (ri_chains ri)" "map_of (ri_targets ri)" "ci_chainId c'" _ c' now]
  by (auto simp: ri_wf_def ri_maps_wf_def chain_change_ok_def update_conv' distinct_update orphans_ok_def
      set_states_None split: if_splits)

lemma chain_change_ok_apply:
  assumes "chain_change_ok ri c'" and "chain_change_ok ri d"
  shows "chain_change_ok (ri\<lparr>ri_chains := AList.update (ci_chainId c') c' (ri_chains ri), ri_targets := ts\<rparr>) d"
  using assms by (auto simp: chain_change_ok_def update_conv')

lemma applyChainTargetChanges_correct:
  assumes "ri_wf ri" and "\<forall>c \<in> set cs. chain_change_ok ri c"
  shows "\<exists>C T. applyChainTargetChanges cs now ri = Some (ri\<lparr>ri_chains := C, ri_targets := T\<rparr>) \<and>
    ri_wf (ri\<lparr>ri_chains := C, ri_targets := T\<rparr>) \<and>
    map_of C = put_chains cs (map_of (ri_chains ri))"
  using assms
proof (induction cs arbitrary: ri)
  case Nil
  then show ?case
    by (intro exI [of _ "ri_chains ri"] exI [of _ "ri_targets ri"]) (simp add: applyChainTargetChanges_def)
next
  case (Cons c cs)
  let ?C = "AList.update (ci_chainId c) c (ri_chains ri)"
  have c: "chain_change_ok ri c"
    using Cons.prems by simp
  obtain ts where ts: "apply_chain now c ri = Some (ri\<lparr>ri_chains := ?C, ri_targets := ts\<rparr>)"
      "map_of ts = set_states now (ci_targets c) (map_of (ri_targets ri))" "distinct (map fst ts)"
    using apply_chain_correct [OF Cons.prems(1) c] by blast
  let ?ri = "ri\<lparr>ri_chains := ?C, ri_targets := ts\<rparr>"
  have "ri_wf ?ri"
    by (rule ri_wf_replace [OF Cons.prems(1) c ts(2,3)])
  moreover have "\<forall>d \<in> set cs. chain_change_ok ?ri d"
    using Cons.prems(2) chain_change_ok_apply [OF c] by simp
  ultimately obtain C T where
    r: "applyChainTargetChanges cs now ?ri = Some (?ri\<lparr>ri_chains := C, ri_targets := T\<rparr>)"
       "ri_wf (?ri\<lparr>ri_chains := C, ri_targets := T\<rparr>)"
       "map_of C = put_chains cs (map_of (ri_chains ?ri))"
    using Cons.IH [of ?ri] by blast
  from r(3) have "map_of C = put_chains (c # cs) (map_of (ri_chains ri))"
    by (simp add: update_conv')
  then show ?case
    using r(1,2) by (intro exI [of _ C] exI [of _ T]) (simp add: applyChainTargetChanges_def ts(1))
qed

section \<open>Reports from storage nodes\<close>

lemma coherent_same_place:
  assumes "coherent C T" and "T tid = Some tw"
    and "ti_targetId (tw_base tw') = ti_targetId (tw_base tw)" "ti_chainId (tw_base tw') = ti_chainId (tw_base tw)"
      "ti_publicState (tw_base tw') = ti_publicState (tw_base tw)"
  shows "coherent C (T(tid \<mapsto> tw'))"
  using assms unfolding coherent_def by (auto; metis option.sel)

text \<open>A change of a target that keeps its place: its id, its chain and its public state.\<close>

lemma ri_wf_same_place:
  assumes "ri_wf ri" and tw: "map_of (ri_targets ri) tid = Some tw"
    and "ti_targetId (tw_base tw') = ti_targetId (tw_base tw)" "ti_chainId (tw_base tw') = ti_chainId (tw_base tw)"
      "ti_publicState (tw_base tw') = ti_publicState (tw_base tw)"
  shows "ri_wf (ri\<lparr>ri_targets := AList.update tid tw' (ri_targets ri)\<rparr>)"
proof -
  have "coherent (map_of (ri_chains ri)) (map_of (ri_targets ri))"
    using assms(1) by (simp add: ri_wf_def)
  note coh = coherent_same_place [OF this tw assms(3-5)]
  have "orphans_ok P N T \<Longrightarrow> T tid = Some tw \<Longrightarrow> orphans_ok P N (T(tid \<mapsto> tw'))" for P N T
    unfolding orphans_ok_def by (metis fun_upd_other option.distinct(1))
  with assms(1) tw coh show ?thesis
    by (simp add: ri_wf_def ri_maps_wf_def update_conv' distinct_update)
qed

definition same_place :: "TargetInfoW \<Rightarrow> TargetInfoW \<Rightarrow> bool" where
  "same_place tw tw' \<longleftrightarrow> ti_targetId (tw_base tw') = ti_targetId (tw_base tw) \<and>
     ti_chainId (tw_base tw') = ti_chainId (tw_base tw) \<and> ti_publicState (tw_base tw') = ti_publicState (tw_base tw)"

definition touches :: "(TargetInfoW \<Rightarrow> TargetInfoW option) \<Rightarrow> bool" where
  "touches f \<longleftrightarrow> (\<forall>tw. \<exists>tw'. f tw = Some tw' \<and> same_place tw tw')"

lemma touch_one:
  assumes "ri_wf ri" and "map_of (ri_targets ri) tid = Some tw" and "touches f"
  shows "\<exists>tw'. f tw = Some tw' \<and> updateTarget tid now f ri = Some (ri\<lparr>ri_targets := AList.update tid tw' (ri_targets ri)\<rparr>) \<and>
    ri_wf (ri\<lparr>ri_targets := AList.update tid tw' (ri_targets ri)\<rparr>)"
proof -
  obtain tw' where "f tw = Some tw'" "same_place tw tw'"
    using assms(3) by (auto simp: touches_def)
  with ri_wf_same_place [OF assms(1,2), of tw'] show ?thesis
    by (simp add: updateTarget_known [OF assms(2)] same_place_def)
qed

text \<open>A loop that touches known targets only changes the map of targets, and keeps its keys.\<close>

lemma touch_targets:
  assumes "ri_wf ri" and "\<forall>x \<in> set xs. map_of (ri_targets ri) (g x) \<noteq> None" and "\<And>x. touches (f x)"
  shows "\<exists>T. ofold (\<lambda>x. updateTarget (g x) now (f x)) xs ri = Some (ri\<lparr>ri_targets := T\<rparr>) \<and>
    ri_wf (ri\<lparr>ri_targets := T\<rparr>) \<and> dom (map_of T) = dom (map_of (ri_targets ri))"
  using assms(1,2)
proof (induction xs arbitrary: ri)
  case Nil
  then show ?case by (intro exI [of _ "ri_targets ri"]) simp
next
  case (Cons x xs)
  then obtain tw where tw: "map_of (ri_targets ri) (g x) = Some tw" by auto
  obtain tw' where tw': "updateTarget (g x) now (f x) ri = Some (ri\<lparr>ri_targets := AList.update (g x) tw' (ri_targets ri)\<rparr>)"
      "ri_wf (ri\<lparr>ri_targets := AList.update (g x) tw' (ri_targets ri)\<rparr>)"
    using touch_one [OF Cons.prems(1) tw assms(3)] by blast
  have "\<forall>y \<in> set xs. map_of (ri_targets (ri\<lparr>ri_targets := AList.update (g x) tw' (ri_targets ri)\<rparr>)) (g y) \<noteq> None"
    using Cons.prems(2) by (simp add: update_conv')
  from Cons.IH [OF tw'(2) this] obtain T where
    "ofold (\<lambda>x. updateTarget (g x) now (f x)) xs (ri\<lparr>ri_targets := AList.update (g x) tw' (ri_targets ri)\<rparr>) =
       Some (ri\<lparr>ri_targets := T\<rparr>)"
    "ri_wf (ri\<lparr>ri_targets := T\<rparr>)" "dom (map_of T) = dom ((map_of (ri_targets ri))(g x \<mapsto> tw'))"
    by (auto simp: update_conv' fun_upd_def)
  with tw'(1) tw show ?case
    by (intro exI [of _ T]) (simp add: insert_absorb domI)
qed

lemma local_update_place:
  assumes "local_update nodeId ign now lti ri ti = Some ti'"
  shows "ti_targetId (tw_base ti') = ti_targetId (tw_base ti)" "ti_chainId (tw_base ti') = ti_chainId (tw_base ti)"
    "ti_publicState (tw_base ti') = ti_publicState (tw_base ti)"
  using assms by (auto simp: local_update_def Let_def split: if_splits option.splits bool.splits)

lemma local_update_defined:
  assumes "coherent (map_of (ri_chains ri)) T" and "T tid = Some ti"
  shows "\<exists>ti'. local_update nodeId ign now lti ri ti = Some ti'"
  using coherent_targetD(2) [OF assms]
  by (auto simp: local_update_def Let_def getChain_def split: bool.splits)

text \<open>What a report leaves alone: everything but the targets' local data and the orphans.\<close>

definition same_outside_targets :: "RoutingInfo \<Rightarrow> RoutingInfo \<Rightarrow> bool" where
  "same_outside_targets ri ri' \<longleftrightarrow> ri_chains ri' = ri_chains ri \<and> ri_nodeMap ri' = ri_nodeMap ri \<and>
     ri_routingInfoVersion ri' = ri_routingInfoVersion ri \<and> ri_chainTables ri' = ri_chainTables ri \<and>
     ri_newBornChains ri' = ri_newBornChains ri \<and> ri_routingInfoChanged ri' = ri_routingInfoChanged ri"

lemma map_of_fold_delete:
  "map_of (fold AList.delete ks al) = (\<lambda>k. if k \<in> set ks then None else map_of al k)"
  by (induction ks arbitrary: al) (auto simp: delete_conv' fun_eq_iff)

lemma distinct_fold_delete: "distinct (map fst al) \<Longrightarrow> distinct (map fst (fold AList.delete ks al))"
  by (induction ks arbitrary: al) (auto simp: distinct_delete)

lemma orphans_okD:
  assumes "orphans_ok P N T" and "P tid = Some ti"
  shows "T tid = None" and "\<exists>n s. ti_nodeId ti = Some n \<and> N n = Some s \<and> tid \<in> set s"
  using assms unfolding orphans_ok_def by blast+

lemma orphans_ok_clear:
  assumes "orphans_ok P N T"
  shows "orphans_ok (\<lambda>k. if k \<in> set (case N n of None \<Rightarrow> [] | Some s \<Rightarrow> s) then None else P k) (N(n \<mapsto> [])) T"
  unfolding orphans_ok_def
proof (intro allI impI conjI)
  fix tid ti
  assume "(if tid \<in> set (case N n of None \<Rightarrow> [] | Some s \<Rightarrow> s) then None else P tid) = Some ti"
  then have ti: "P tid = Some ti" "tid \<notin> set (case N n of None \<Rightarrow> [] | Some s \<Rightarrow> s)"
    by (simp_all split: if_splits)
  show "T tid = None"
    by (rule orphans_okD(1) [OF assms ti(1)])
  obtain m s where "ti_nodeId ti = Some m" "N m = Some s" "tid \<in> set s"
    using orphans_okD(2) [OF assms ti(1)] by blast
  moreover from this ti(2) have "m \<noteq> n" by auto
  ultimately show "\<exists>m s. ti_nodeId ti = Some m \<and> (N(n \<mapsto> [])) m = Some s \<and> tid \<in> set s"
    by auto
qed

lemma orphans_ok_add:
  assumes "orphans_ok P N T" and "T tid = None" and "ti_nodeId ti = Some n"
  shows "orphans_ok (P(tid \<mapsto> ti)) (N(n \<mapsto> List.insert tid (case N n of None \<Rightarrow> [] | Some s \<Rightarrow> s))) T"
  unfolding orphans_ok_def
proof (intro allI impI conjI)
  fix k ki
  assume ki: "(P(tid \<mapsto> ti)) k = Some ki"
  let ?N = "N(n \<mapsto> List.insert tid (case N n of None \<Rightarrow> [] | Some s \<Rightarrow> s))"
  show "T k = None"
    using ki assms(2) orphans_okD(1) [OF assms(1), of k] by (simp split: if_splits)
  show "\<exists>m s. ti_nodeId ki = Some m \<and> ?N m = Some s \<and> k \<in> set s"
  proof (cases "k = tid")
    case True
    with ki assms(3) show ?thesis by simp
  next
    case False
    with ki obtain m s where "ti_nodeId ki = Some m" "N m = Some s" "k \<in> set s"
      using orphans_okD(2) [OF assms(1), of k ki] by auto
    then show ?thesis by (cases "m = n") auto
  qed
qed

lemma clear_orphans_wf:
  assumes "ri_wf ri"
  shows "ri_wf (clear_orphans nodeId ri) \<and> same_outside_targets ri (clear_orphans nodeId ri)"
  using assms orphans_ok_clear [of "map_of (ri_orphanTargetsByTargetId ri)" "map_of (ri_orphanTargetsByNodeId ri)"
      "map_of (ri_targets ri)" nodeId]
  by (simp add: ri_wf_def ri_maps_wf_def clear_orphans_def Let_def distinct_update distinct_fold_delete
      map_of_fold_delete update_conv' same_outside_targets_def)

lemma add_orphan_wf:
  assumes "ri_wf ri" and "map_of (ri_targets ri) (lti_targetId lti) = None"
  shows "ri_wf (add_orphan nodeId lti ri) \<and> same_outside_targets ri (add_orphan nodeId lti ri)"
proof -
  let ?ti = "empty_TargetInfo\<lparr>ti_targetId := lti_targetId lti, ti_localState := lti_localState lti,
     ti_nodeId := Some nodeId, ti_diskIndex := lti_diskIndex lti, ti_usedSize := lti_usedSize lti\<rparr>"
  show ?thesis
    using assms orphans_ok_add [of "map_of (ri_orphanTargetsByTargetId ri)" "map_of (ri_orphanTargetsByNodeId ri)"
        "map_of (ri_targets ri)" "lti_targetId lti" ?ti nodeId]
    by (simp add: ri_wf_def ri_maps_wf_def add_orphan_def Let_def distinct_update update_conv'
        same_outside_targets_def)
qed

lemma local_update_target_wf:
  assumes "ri_wf ri"
  shows "\<exists>ri'. local_update_target nodeId ign now lti ri = Some ri' \<and> ri_wf ri' \<and> same_outside_targets ri ri'"
proof (cases "map_of (ri_targets ri) (lti_targetId lti)")
  case None
  then show ?thesis
    using add_orphan_wf [OF assms None] by (simp add: local_update_target_def)
next
  case (Some ti)
  let ?tid = "lti_targetId lti"
  have coh: "coherent (map_of (ri_chains ri)) (map_of (ri_targets ri))"
    using assms by (simp add: ri_wf_def)
  obtain ti' where ti': "local_update nodeId ign now lti ri ti = Some ti'"
    using local_update_defined [OF coh Some] by blast
  have "ri_wf (ri\<lparr>ri_targets := AList.update ?tid ti' (ri_targets ri)\<rparr>)"
    by (rule ri_wf_same_place [OF assms Some local_update_place [OF ti']])
  then show ?thesis
    using Some ti' by (simp add: local_update_target_def updateTarget_known same_outside_targets_def)
qed

lemma localUpdateTargets_wf:
  assumes "ri_wf ri"
  shows "\<exists>ri'. localUpdateTargets nodeId ltis ign now ri = Some ri' \<and> ri_wf ri' \<and> same_outside_targets ri ri'"
  unfolding localUpdateTargets_def
proof (rule ofold_invariant [where P = "\<lambda>r. ri_wf r \<and> same_outside_targets ri r"])
  fix lti r
  assume "ri_wf r \<and> same_outside_targets ri r"
  then show "\<exists>r'. local_update_target nodeId ign now lti r = Some r' \<and> ri_wf r' \<and> same_outside_targets ri r'"
    using local_update_target_wf [of r nodeId ign now lti] by (fastforce simp: same_outside_targets_def)
qed (rule clear_orphans_wf [OF assms])

section \<open>New and removed targets\<close>

lemma orphans_ok_erase:
  assumes "orphans_ok P N T"
  shows "\<And>ti. P tid = Some ti \<Longrightarrow> \<exists>n s. ti_nodeId ti = Some n \<and> N n = Some s \<and> tid \<in> set s \<and>
    orphans_ok (P(tid := None)) (if removeAll tid s = [] then N(n := None) else N(n \<mapsto> removeAll tid s)) T"
proof -
  fix ti
  assume "P tid = Some ti"
  from orphans_okD(2) [OF assms this] obtain n s where n: "ti_nodeId ti = Some n" "N n = Some s" "tid \<in> set s"
    by blast
  let ?N = "if removeAll tid s = [] then N(n := None) else N(n \<mapsto> removeAll tid s)"
  have "orphans_ok (P(tid := None)) ?N T"
    unfolding orphans_ok_def
  proof (intro allI impI conjI)
    fix k ki
    assume "(P(tid := None)) k = Some ki"
    then have k: "k \<noteq> tid" "P k = Some ki"
      by (simp_all split: if_splits)
    show "T k = None"
      by (rule orphans_okD(1) [OF assms k(2)])
    obtain m r where m: "ti_nodeId ki = Some m" "N m = Some r" "k \<in> set r"
      using orphans_okD(2) [OF assms k(2)] by blast
    have "k \<in> set (removeAll tid s)" if "m = n"
      using that m n k(1) by simp
    then have "removeAll tid s \<noteq> [] \<or> m \<noteq> n"
      by (metis empty_iff list.set(1))
    with m n k(1) show "\<exists>m r. ti_nodeId ki = Some m \<and> ?N m = Some r \<and> k \<in> set r"
      by (intro exI [of _ m]) auto
  qed
  with n show "\<exists>n s. ti_nodeId ti = Some n \<and> N n = Some s \<and> tid \<in> set s \<and>
    orphans_ok (P(tid := None)) (if removeAll tid s = [] then N(n := None) else N(n \<mapsto> removeAll tid s)) T"
    by blast
qed

definition orphan_maps_ok :: "RoutingInfo \<Rightarrow> (TargetId \<rightharpoonup> TargetInfoW) \<Rightarrow> bool" where
  "orphan_maps_ok ri T \<longleftrightarrow> orphans_ok (map_of (ri_orphanTargetsByTargetId ri)) (map_of (ri_orphanTargetsByNodeId ri)) T \<and>
     distinct (map fst (ri_orphanTargetsByTargetId ri)) \<and> distinct (map fst (ri_orphanTargetsByNodeId ri))"

lemma eraseOrphanTarget_ok:
  assumes "orphan_maps_ok ri T"
  shows "\<exists>P N. eraseOrphanTarget tid ri =
      Some (ri\<lparr>ri_orphanTargetsByTargetId := P, ri_orphanTargetsByNodeId := N\<rparr>) \<and>
    orphan_maps_ok (ri\<lparr>ri_orphanTargetsByTargetId := P, ri_orphanTargetsByNodeId := N\<rparr>) T \<and>
    map_of P = (map_of (ri_orphanTargetsByTargetId ri))(tid := None)"
proof (cases "map_of (ri_orphanTargetsByTargetId ri) tid")
  case None
  then show ?thesis
    using assms by (intro exI [of _ "ri_orphanTargetsByTargetId ri"] exI [of _ "ri_orphanTargetsByNodeId ri"])
      (auto simp: eraseOrphanTarget_def)
next
  case (Some ti)
  from assms have "orphans_ok (map_of (ri_orphanTargetsByTargetId ri)) (map_of (ri_orphanTargetsByNodeId ri)) T"
    by (simp add: orphan_maps_ok_def)
  from orphans_ok_erase [OF this Some] obtain n s where
    n: "ti_nodeId ti = Some n" "map_of (ri_orphanTargetsByNodeId ri) n = Some s" "tid \<in> set s"
      "orphans_ok ((map_of (ri_orphanTargetsByTargetId ri))(tid := None))
        (if removeAll tid s = [] then (map_of (ri_orphanTargetsByNodeId ri))(n := None)
         else (map_of (ri_orphanTargetsByNodeId ri))(n \<mapsto> removeAll tid s)) T"
    by blast
  let ?P = "AList.delete tid (ri_orphanTargetsByTargetId ri)"
  let ?N = "if removeAll tid s = [] then AList.delete n (ri_orphanTargetsByNodeId ri)
    else AList.update n (removeAll tid s) (ri_orphanTargetsByNodeId ri)"
  have "eraseOrphanTarget tid ri = Some (ri\<lparr>ri_orphanTargetsByTargetId := ?P, ri_orphanTargetsByNodeId := ?N\<rparr>)"
    using Some n(1-3) by (simp add: eraseOrphanTarget_def Let_def)
  moreover have "map_of ?P = (map_of (ri_orphanTargetsByTargetId ri))(tid := None)"
    by (simp add: delete_conv')
  moreover have "orphan_maps_ok (ri\<lparr>ri_orphanTargetsByTargetId := ?P, ri_orphanTargetsByNodeId := ?N\<rparr>) T"
    using n(4) assms
    by (cases "removeAll tid s = []") (auto simp: orphan_maps_ok_def delete_conv' update_conv' distinct_delete distinct_update)
  ultimately show ?thesis by blast
qed

lemma orphans_ok_new_target: "orphans_ok P N T \<Longrightarrow> P tid = None \<Longrightarrow> orphans_ok P N (T(tid \<mapsto> tw))"
  unfolding orphans_ok_def by (metis fun_upd_other option.distinct(1))

lemma orphans_ok_less_targets: "orphans_ok P N T \<Longrightarrow> orphans_ok P N (T(tid := None))"
  unfolding orphans_ok_def by (metis fun_upd_apply)

abbreviation new_target :: "ChainId \<Rightarrow> SteadyTime \<Rightarrow> ChainTargetInfo \<Rightarrow> TargetInfoW" where
  "new_target cid now cti \<equiv> TargetInfoW_of (makeTargetInfo cid cti) now now"

lemma new_target_simps [simp]:
  "ti_targetId (tw_base (new_target cid now cti)) = cti_targetId cti"
  "ti_chainId (tw_base (new_target cid now cti)) = cid"
  "ti_publicState (tw_base (new_target cid now cti)) = cti_publicState cti"
  by (simp_all add: TargetInfoW_of_def makeTargetInfo_def)

lemma insertNewTarget_ok:
  assumes "orphan_maps_ok ri (map_of (ri_targets ri))" and "map_of (ri_targets ri) (cti_targetId cti) = None"
  shows "\<exists>P N. insertNewTarget cid cti now ri = Some (ri\<lparr>
      ri_targets := AList.update (cti_targetId cti) (new_target cid now cti) (ri_targets ri),
      ri_orphanTargetsByTargetId := P, ri_orphanTargetsByNodeId := N\<rparr>) \<and>
    orphan_maps_ok (ri\<lparr>ri_orphanTargetsByTargetId := P, ri_orphanTargetsByNodeId := N\<rparr>)
      ((map_of (ri_targets ri))(cti_targetId cti \<mapsto> new_target cid now cti))"
proof -
  let ?tid = "cti_targetId cti"
  let ?ri = "ri\<lparr>ri_targets := AList.update ?tid (new_target cid now cti) (ri_targets ri)\<rparr>"
  have "orphan_maps_ok ?ri (map_of (ri_targets ri))"
    using assms(1) by (simp add: orphan_maps_ok_def)
  from eraseOrphanTarget_ok [OF this, of ?tid] obtain P N where
    e: "eraseOrphanTarget ?tid ?ri = Some (?ri\<lparr>ri_orphanTargetsByTargetId := P, ri_orphanTargetsByNodeId := N\<rparr>)"
       "orphan_maps_ok (?ri\<lparr>ri_orphanTargetsByTargetId := P, ri_orphanTargetsByNodeId := N\<rparr>) (map_of (ri_targets ri))"
       "map_of P ?tid = None"
    by auto
  then show ?thesis
    using assms(2) by (intro exI [of _ P] exI [of _ N])
      (simp add: insertNewTarget_def orphan_maps_ok_def orphans_ok_new_target)
qed

definition new_targets ::
  "ChainId \<Rightarrow> SteadyTime \<Rightarrow> ChainTargetInfo list \<Rightarrow> (TargetId \<rightharpoonup> TargetInfoW) \<Rightarrow> (TargetId \<rightharpoonup> TargetInfoW)" where
  "new_targets cid now ctis T = (\<lambda>tid. case map_of (map (\<lambda>cti. (cti_targetId cti, cti)) ctis) tid of
     None \<Rightarrow> T tid | Some cti \<Rightarrow> Some (new_target cid now cti))"

lemma new_targets_Cons:
  assumes "cti_targetId cti \<notin> cti_targetId ` set ctis"
  shows "new_targets cid now (cti # ctis) T = new_targets cid now ctis (T(cti_targetId cti \<mapsto> new_target cid now cti))"
proof
  fix tid
  have "map_of (map (\<lambda>cti. (cti_targetId cti, cti)) ctis) (cti_targetId cti) = None"
    unfolding map_of_ctis_None using assms .
  then show "new_targets cid now (cti # ctis) T tid =
      new_targets cid now ctis (T(cti_targetId cti \<mapsto> new_target cid now cti)) tid"
    by (simp add: new_targets_def fun_upd_def split: option.split)
qed

lemma insert_targets:
  assumes "orphan_maps_ok ri (map_of (ri_targets ri))" and "distinct (map fst (ri_targets ri))"
    and "distinct (map cti_targetId ctis)" and "\<forall>cti \<in> set ctis. map_of (ri_targets ri) (cti_targetId cti) = None"
  shows "\<exists>T P N. ofold (\<lambda>t. insertNewTarget cid t now) ctis ri = Some (ri\<lparr>ri_targets := T,
      ri_orphanTargetsByTargetId := P, ri_orphanTargetsByNodeId := N\<rparr>) \<and>
    orphan_maps_ok (ri\<lparr>ri_orphanTargetsByTargetId := P, ri_orphanTargetsByNodeId := N\<rparr>) (map_of T) \<and>
    map_of T = new_targets cid now ctis (map_of (ri_targets ri)) \<and> distinct (map fst T)"
  using assms
proof (induction ctis arbitrary: ri)
  case Nil
  then show ?case
    by (intro exI [of _ "ri_targets ri"] exI [of _ "ri_orphanTargetsByTargetId ri"]
        exI [of _ "ri_orphanTargetsByNodeId ri"]) (simp add: new_targets_def)
next
  case (Cons cti ctis)
  let ?T = "AList.update (cti_targetId cti) (new_target cid now cti) (ri_targets ri)"
  obtain P N where step: "insertNewTarget cid cti now ri = Some (ri\<lparr>ri_targets := ?T,
        ri_orphanTargetsByTargetId := P, ri_orphanTargetsByNodeId := N\<rparr>)"
      "orphan_maps_ok (ri\<lparr>ri_orphanTargetsByTargetId := P, ri_orphanTargetsByNodeId := N\<rparr>) (map_of ?T)"
    using insertNewTarget_ok [of ri cti cid now] Cons.prems(1,4) by (auto simp: update_conv')
  let ?ri = "ri\<lparr>ri_targets := ?T, ri_orphanTargetsByTargetId := P, ri_orphanTargetsByNodeId := N\<rparr>"
  have "orphan_maps_ok ?ri (map_of (ri_targets ?ri))" "distinct (map fst (ri_targets ?ri))"
    using step(2) Cons.prems(2) by (simp_all add: orphan_maps_ok_def distinct_update)
  moreover have "distinct (map cti_targetId ctis)"
    and "\<forall>c \<in> set ctis. map_of (ri_targets ?ri) (cti_targetId c) = None"
    using Cons.prems(3,4) by (auto simp: update_conv' rev_image_eqI)
  ultimately obtain T P' N' where
    "ofold (\<lambda>t. insertNewTarget cid t now) ctis ?ri = Some (?ri\<lparr>ri_targets := T,
        ri_orphanTargetsByTargetId := P', ri_orphanTargetsByNodeId := N'\<rparr>)"
    "orphan_maps_ok (?ri\<lparr>ri_orphanTargetsByTargetId := P', ri_orphanTargetsByNodeId := N'\<rparr>) (map_of T)"
    "map_of T = new_targets cid now ctis (map_of (ri_targets ?ri))" "distinct (map fst T)"
    using Cons.IH [of ?ri] by blast
  then show ?case
    using step(1) Cons.prems(3) new_targets_Cons [of cti ctis cid now "map_of (ri_targets ri)"]
    by (intro exI [of _ T] exI [of _ P'] exI [of _ N']) (simp add: orphan_maps_ok_def update_conv')
qed

lemma coherent_new_chain:
  assumes "coherent C T" and "C cid = None" and "ci_chainId c = cid" and "distinct (chain_ids c)"
    and "\<forall>tid \<in> set (chain_ids c). T tid = None"
  shows "coherent (C(cid \<mapsto> c)) (new_targets cid now (ci_targets c) T)"
proof (rule coherent_set_chain [OF assms(1,3,4)])
  fix cti
  assume "cti \<in> set (ci_targets c)"
  then show "\<exists>tw. new_targets cid now (ci_targets c) T (cti_targetId cti) = Some tw \<and>
      ti_chainId (tw_base tw) = cid \<and> ti_publicState (tw_base tw) = cti_publicState cti"
    using map_of_ctis [of "ci_targets c" cti] assms(4) by (simp add: new_targets_def chain_ids_def)
next
  fix tid tw
  assume tw: "new_targets cid now (ci_targets c) T tid = Some tw" "ti_chainId (tw_base tw) = cid"
  have "T tid \<noteq> Some tw"
    using tw(2) assms(2) coherent_targetD(2) [OF assms(1), of tid tw] by auto
  with tw(1) obtain cti where "map_of (map (\<lambda>cti. (cti_targetId cti, cti)) (ci_targets c)) tid = Some cti"
      "tw = new_target cid now cti"
    by (auto simp: new_targets_def split: option.splits)
  moreover from this(1) have "cti \<in> set (ci_targets c)" "cti_targetId cti = tid"
    by (auto dest!: map_of_SomeD)
  ultimately show "ti_targetId (tw_base tw) = tid \<and> tid \<in> set (chain_ids c)"
    by (auto simp: chain_ids_def)
next
  fix tid and tw :: TargetInfoW
  assume "ti_chainId (tw_base tw) \<noteq> cid"
  moreover have "T tid = None" if "map_of (map (\<lambda>cti. (cti_targetId cti, cti)) (ci_targets c)) tid = Some cti" for cti
    using assms(5) map_of_SomeD [OF that] by (auto simp: chain_ids_def)
  ultimately show "new_targets cid now (ci_targets c) T tid = Some tw \<longleftrightarrow> T tid = Some tw"
    by (auto simp: new_targets_def split: option.splits)
qed

lemma ri_wf_orphans: "ri_wf ri \<Longrightarrow> orphan_maps_ok ri (map_of (ri_targets ri))"
  by (simp add: ri_wf_def ri_maps_wf_def orphan_maps_ok_def)

lemma insertNewChain_wf:
  assumes "ri_wf ri" and "map_of (ri_chains ri) (ci_chainId c) = None" and "distinct (chain_ids c)"
    and "\<forall>tid \<in> set (chain_ids c). map_of (ri_targets ri) tid = None" and "chain_valid c"
  shows "\<exists>T P N. insertNewChain c now ri = Some (ri\<lparr>
      ri_chains := AList.update (ci_chainId c) c (ri_chains ri), ri_targets := T,
      ri_newBornChains := AList.update (ci_chainId c) now (ri_newBornChains ri),
      ri_orphanTargetsByTargetId := P, ri_orphanTargetsByNodeId := N\<rparr>) \<and>
    map_of T = new_targets (ci_chainId c) now (ci_targets c) (map_of (ri_targets ri)) \<and>
    ri_wf (ri\<lparr>ri_chains := AList.update (ci_chainId c) c (ri_chains ri), ri_targets := T,
      ri_newBornChains := AList.update (ci_chainId c) now (ri_newBornChains ri),
      ri_orphanTargetsByTargetId := P, ri_orphanTargetsByNodeId := N\<rparr>)"
proof -
  let ?ri = "ri\<lparr>ri_chains := AList.update (ci_chainId c) c (ri_chains ri)\<rparr>"
  have "orphan_maps_ok ?ri (map_of (ri_targets ?ri))" "distinct (map fst (ri_targets ?ri))"
    using ri_wf_orphans [OF assms(1)] assms(1) by (simp_all add: orphan_maps_ok_def ri_wf_def ri_maps_wf_def)
  moreover have "\<forall>cti \<in> set (ci_targets c). map_of (ri_targets ?ri) (cti_targetId cti) = None"
    using assms(4) by (simp add: chain_ids_def)
  moreover have "distinct (map cti_targetId (ci_targets c))"
    using assms(3) by (simp add: chain_ids_def)
  ultimately obtain T P N where
    run: "ofold (\<lambda>t. insertNewTarget (ci_chainId c) t now) (ci_targets c) ?ri = Some (?ri\<lparr>ri_targets := T,
        ri_orphanTargetsByTargetId := P, ri_orphanTargetsByNodeId := N\<rparr>)"
    and orph: "orphan_maps_ok (?ri\<lparr>ri_orphanTargetsByTargetId := P, ri_orphanTargetsByNodeId := N\<rparr>) (map_of T)"
    and T: "map_of T = new_targets (ci_chainId c) now (ci_targets c) (map_of (ri_targets ri))" "distinct (map fst T)"
    using insert_targets [of ?ri "ci_targets c" "ci_chainId c" now] by auto
  have "coherent ((map_of (ri_chains ri))(ci_chainId c \<mapsto> c)) (map_of T)"
    unfolding T using assms by (intro coherent_new_chain) (simp_all add: ri_wf_def)
  then have "ri_wf (ri\<lparr>ri_chains := AList.update (ci_chainId c) c (ri_chains ri), ri_targets := T,
      ri_newBornChains := AList.update (ci_chainId c) now (ri_newBornChains ri),
      ri_orphanTargetsByTargetId := P, ri_orphanTargetsByNodeId := N\<rparr>)"
    using assms(1,5) orph T(2)
    by (simp add: ri_wf_def ri_maps_wf_def orphan_maps_ok_def update_conv' distinct_update)
  moreover have "insertNewChain c now ri = Some (ri\<lparr>
      ri_chains := AList.update (ci_chainId c) c (ri_chains ri), ri_targets := T,
      ri_newBornChains := AList.update (ci_chainId c) now (ri_newBornChains ri),
      ri_orphanTargetsByTargetId := P, ri_orphanTargetsByNodeId := N\<rparr>)"
    by (simp add: insertNewChain_def Let_def assms(2) run)
  ultimately show ?thesis
    using T(1) by blast
qed

lemma coherent_add_target:
  assumes "coherent C T" and c: "C cid = Some c" and "T (cti_targetId cti) = None"
    and "ci_chainId c' = cid" and c': "ci_targets c' = ci_targets c @ [cti]"
  shows "coherent (C(cid \<mapsto> c')) (T(cti_targetId cti \<mapsto> new_target cid now cti))"
proof -
  have new: "cti_targetId cti \<notin> set (chain_ids c)"
    using coherent_chain_ids [OF assms(1) c] assms(3) by fastforce
  have ids: "chain_ids c' = chain_ids c @ [cti_targetId cti]"
    by (simp add: chain_ids_def c')
  show ?thesis
  proof (rule coherent_set_chain [OF assms(1,4)])
    show "distinct (chain_ids c')"
      using coherent_chainD(2) [OF assms(1) c] new by (simp add: ids)
  next
    fix x
    assume x: "x \<in> set (ci_targets c')"
    show "\<exists>tw. (T(cti_targetId cti \<mapsto> new_target cid now cti)) (cti_targetId x) = Some tw \<and>
        ti_chainId (tw_base tw) = cid \<and> ti_publicState (tw_base tw) = cti_publicState x"
    proof (cases "x \<in> set (ci_targets c)")
      case True
      then have "cti_targetId x \<noteq> cti_targetId cti"
        using new True by (metis chain_ids_def image_eqI list.set_map)
      then show ?thesis
        using coherent_chainD(3) [OF assms(1) c True] by simp
    next
      case False
      with x c' show ?thesis by simp
    qed
  next
    fix tid tw
    assume "(T(cti_targetId cti \<mapsto> new_target cid now cti)) tid = Some tw" "ti_chainId (tw_base tw) = cid"
    then show "ti_targetId (tw_base tw) = tid \<and> tid \<in> set (chain_ids c')"
      using coherent_targetD [OF assms(1), of tid tw] c
      by (cases "tid = cti_targetId cti") (auto simp: ids)
  qed (use assms(3) in auto)
qed

lemma coherent_remove_target:
  assumes "coherent C T" and c: "C cid = Some c" and "ci_chainId c' = cid"
    and c': "ci_targets c' = filter (\<lambda>x. cti_targetId x \<noteq> tid) (ci_targets c)" and tid: "tid \<in> set (chain_ids c)"
  shows "coherent (C(cid \<mapsto> c')) (T(tid := None))"
proof -
  have ids: "chain_ids c' = filter (\<lambda>x. x \<noteq> tid) (chain_ids c)"
    by (simp add: chain_ids_def c' filter_map comp_def)
  obtain tw0 where tw0: "T tid = Some tw0" "ti_chainId (tw_base tw0) = cid"
    using coherent_chain_ids [OF assms(1) c tid] by blast
  show ?thesis
  proof (rule coherent_set_chain [OF assms(1,3)])
    show "distinct (chain_ids c')"
      using coherent_chainD(2) [OF assms(1) c] by (simp add: ids)
  next
    fix x
    assume "x \<in> set (ci_targets c')"
    then show "\<exists>tw. (T(tid := None)) (cti_targetId x) = Some tw \<and>
        ti_chainId (tw_base tw) = cid \<and> ti_publicState (tw_base tw) = cti_publicState x"
      using coherent_chainD(3) [OF assms(1) c, of x] by (simp add: c')
  next
    fix t tw
    assume "(T(tid := None)) t = Some tw" "ti_chainId (tw_base tw) = cid"
    then show "ti_targetId (tw_base tw) = t \<and> t \<in> set (chain_ids c')"
      using coherent_targetD [OF assms(1), of t tw] c by (auto simp: ids split: if_splits)
  next
    fix t and tw :: TargetInfoW
    assume "ti_chainId (tw_base tw) \<noteq> cid"
    then show "(T(tid := None)) t = Some tw \<longleftrightarrow> T t = Some tw"
      using tw0 by auto
  qed
qed

text \<open>A routing info with one chain of two targets, used to instantiate the statements.\<close>

definition sample_chain :: ChainInfo where
  "sample_chain = \<lparr>ci_chainId = 1, ci_chainVersion = 1,
     ci_targets = [\<lparr>cti_targetId = 10, cti_publicState = PS_SERVING\<rparr>, \<lparr>cti_targetId = 11, cti_publicState = PS_SERVING\<rparr>],
     ci_preferredTargetOrder = [10, 11]\<rparr>"

definition sample_target :: "TargetId \<Rightarrow> LocalTargetState \<Rightarrow> TargetInfoW" where
  "sample_target tid ls = (let tw = TargetInfoW_of (makeTargetInfo 1 \<lparr>cti_targetId = tid, cti_publicState = PS_SERVING\<rparr>) 0 0
     in tw\<lparr>tw_base := (tw_base tw)\<lparr>ti_localState := ls\<rparr>\<rparr>)"

definition sample_RoutingInfo :: RoutingInfo where
  "sample_RoutingInfo = initial_RoutingInfo\<lparr>ri_chains := [(1, sample_chain)],
     ri_targets := [(10, sample_target 10 LS_OFFLINE), (11, sample_target 11 LS_UPTODATE)]\<rparr>"

lemma sample_RoutingInfo_wf: "ri_wf sample_RoutingInfo"
  by (auto simp: sample_RoutingInfo_def sample_target_def sample_chain_def initial_RoutingInfo_def ri_wf_def
      ri_maps_wf_def coherent_def orphans_ok_def chain_valid_def chain_ids_def TargetInfoW_of_def
      makeTargetInfo_def Let_def split: if_splits)

lemma initial_RoutingInfo_wf: "ri_wf initial_RoutingInfo"
  by (simp add: initial_RoutingInfo_def ri_wf_def ri_maps_wf_def coherent_def orphans_ok_def)

text \<open>
  C21: a report from a storage node keeps the routing info consistent. For every consistent
  routing info and every list of reported targets, \<open>localUpdateTargets\<close> does not abort, leaves
  chains, nodes and the version alone, and the result is consistent again; in particular no
  public state changes, and an unknown target becomes an orphan and not a target.
\<close>

theorem localUpdateTargets_keeps_invariant:
  assumes "ri_wf ri"
  shows "\<exists>ri'. localUpdateTargets nodeId targets ignore_stale now ri = Some ri' \<and> ri_wf ri' \<and>
    ri_chains ri' = ri_chains ri \<and> ri_nodeMap ri' = ri_nodeMap ri \<and>
    ri_routingInfoVersion ri' = ri_routingInfoVersion ri"
  using localUpdateTargets_wf [OF assms, of nodeId targets ignore_stale now]
  by (auto simp: same_outside_targets_def)

theorem localUpdateTargets_keeps_invariant_witness:
  "\<exists>ri'. localUpdateTargets 5 [\<lparr>lti_targetId = 7, lti_localState = LS_ONLINE, lti_diskIndex = None,
     lti_usedSize = 0, lti_chainVersion = 1, lti_lowSpace = False\<rparr>] True 0 initial_RoutingInfo = Some ri' \<and>
     ri_wf ri' \<and> ri_chains ri' = []"
  using localUpdateTargets_keeps_invariant [OF initial_RoutingInfo_wf, of 5
      "[\<lparr>lti_targetId = 7, lti_localState = LS_ONLINE, lti_diskIndex = None,
     lti_usedSize = 0, lti_chainVersion = 1, lti_lowSpace = False\<rparr>]" True 0]
  by (auto simp: initial_RoutingInfo_def)

end
