(* ===== verification/Mgmtd_Data.thy ===== *)
theory Mgmtd_Data
  imports Routing_Info
begin

text \<open>
  The cluster manager's in-memory data (\<^verbatim>\<open>src/src/mgmtd/service/MgmtdData.h\<close> and \<^verbatim>\<open>MgmtdData.cc\<close>):
  versioned configurations, the versioned snapshot of the routing info that clients fetch, and
  the periodic recomputation of a chain.
\<close>

section \<open>Definitions\<close>

text \<open>The section \<open>retry_transaction\<close> of the configuration; its duration is in nanoseconds.\<close>

record TransactionRetry =
  tr_max_backoff :: int
  tr_max_retry_count :: nat

text \<open>The settings of \<^verbatim>\<open>MgmtdConfig.h\<close> that the code reads; durations in microseconds.\<close>

record MgmtdConfig =
  mc_lease_length :: int
  mc_suspicious_lease_interval :: int
  mc_heartbeat_timestamp_valid_window :: int
  mc_allow_heartbeat_from_unregistered :: bool
  mc_heartbeat_fail_interval :: int
  mc_new_chain_bootstrap_interval :: int
  mc_client_session_timeout :: int
  mc_bootstrapping_length :: int
  mc_validate_lease_on_write :: bool
  mc_heartbeat_ignore_stale_targets :: bool
  mc_retry_times_on_txn_errors :: int
  mc_retry_transaction :: TransactionRetry
  mc_target_info_persist_batch :: nat
  mc_try_adjust_target_order_as_preferred :: bool
  mc_extend_lease_check_release_version :: bool
  mc_authenticate :: bool
  mc_enable_routinginfo_cache :: bool
  mc_only_accept_client_uuid :: bool

definition default_MgmtdConfig :: MgmtdConfig where
  "default_MgmtdConfig = \<lparr>mc_lease_length = 60000000, mc_suspicious_lease_interval = 20000000,
     mc_heartbeat_timestamp_valid_window = 30000000, mc_allow_heartbeat_from_unregistered = False,
     mc_heartbeat_fail_interval = 60000000, mc_new_chain_bootstrap_interval = 120000000,
     mc_client_session_timeout = 1200000000, mc_bootstrapping_length = 120000000,
     mc_validate_lease_on_write = True, mc_heartbeat_ignore_stale_targets = True,
     mc_retry_times_on_txn_errors = -1,
     mc_retry_transaction = \<lparr>tr_max_backoff = 1000000000, tr_max_retry_count = 10\<rparr>, mc_target_info_persist_batch = 1000,
     mc_try_adjust_target_order_as_preferred = False, mc_extend_lease_check_release_version = True,
     mc_authenticate = False, mc_enable_routinginfo_cache = True, mc_only_accept_client_uuid = False\<rparr>"

type_synonym VersionedConfigMap = "(ConfigVersion, ConfigInfo) omap"

record MgmtdData =
  md_leaseStartTs :: SteadyTime
  md_routingInfo :: RoutingInfo
  md_configMap :: "(NodeType \<times> VersionedConfigMap) list"
  md_lease :: LeaseInfo
  md_universalTagsMap :: "(string \<times> TagPair list) list"
  md_routingInfoCache :: "FlatRoutingInfo option"

definition checkConfigVersion :: "MgmtdData \<Rightarrow> NodeType \<Rightarrow> ConfigVersion \<Rightarrow> unit outcome" where
  "checkConfigVersion data ty version =
     (case map_of (md_configMap data) ty of
        None \<Rightarrow> Err (Common kInvalidArg)
      | Some versionedMap \<Rightarrow>
          (case rbegin versionedMap of
             None \<Rightarrow> Crash
           | Some (latest, _) \<Rightarrow>
               if version > latest then Err (Mgmtd kInvalidConfigVersion) else Ret ()))"

definition getConfig ::
  "MgmtdData \<Rightarrow> NodeType \<Rightarrow> ConfigVersion \<Rightarrow> bool \<Rightarrow> ConfigInfo option outcome" where
  "getConfig data ty version latest =
     (case map_of (md_configMap data) ty of
        None \<Rightarrow> Crash
      | Some versionedMap \<Rightarrow>
          if latest then
            (case rbegin versionedMap of
               None \<Rightarrow> Crash
             | Some (_, info) \<Rightarrow>
                 if version > cfg_configVersion info then Crash
                 else if version < cfg_configVersion info then Ret (Some info)
                 else Ret None)
          else Ret (map_of versionedMap version))"

definition getLatestConfigVersion :: "MgmtdData \<Rightarrow> NodeType \<Rightarrow> ConfigVersion outcome" where
  "getLatestConfigVersion data ty =
     (case map_of (md_configMap data) ty of
        None \<Rightarrow> Crash
      | Some versionedMap \<Rightarrow> of_option (map_option fst (rbegin versionedMap)))"

definition checkRoutingInfoVersion :: "MgmtdData \<Rightarrow> RoutingInfoVersion \<Rightarrow> unit outcome" where
  "checkRoutingInfoVersion data version =
     (if version > ri_routingInfoVersion (md_routingInfo data)
      then Err (Mgmtd kInvalidRoutingInfoVersion) else Ret ())"

definition bootstrapping :: "MgmtdConfig \<Rightarrow> SteadyTime \<Rightarrow> MgmtdData \<Rightarrow> bool" where
  "bootstrapping config steadyNow data \<longleftrightarrow> md_leaseStartTs data + mc_bootstrapping_length config > steadyNow"

definition routing_snapshot :: "MgmtdConfig \<Rightarrow> SteadyTime \<Rightarrow> MgmtdData \<Rightarrow> FlatRoutingInfo" where
  "routing_snapshot config steadyNow data =
     (let info = md_routingInfo data
      in \<lparr>fri_routingInfoVersion = ri_routingInfoVersion info,
          fri_bootstrapping = bootstrapping config steadyNow data,
          fri_nodes = map (\<lambda>(id, nw). (id, nw_base nw)) (ri_nodeMap info),
          fri_chainTables = ri_chainTables info,
          fri_chains = ri_chains info,
          fri_targets = map (\<lambda>(k, v). (k, tw_base v)) (ri_targets info)\<rparr>)"

text \<open>Callers check before that the version is not newer than the current one, so the assertion on it is left out.\<close>

definition getRoutingInfo ::
  "MgmtdConfig \<Rightarrow> SteadyTime \<Rightarrow> RoutingInfoVersion \<Rightarrow> MgmtdData \<Rightarrow> FlatRoutingInfo option \<times> MgmtdData" where
  "getRoutingInfo config steadyNow version data =
     (let info = md_routingInfo data; current = ri_routingInfoVersion info
      in if version = current then (None, data)
         else
           case md_routingInfoCache data of
             Some cached \<Rightarrow>
               if version \<noteq> 0 \<and> mc_enable_routinginfo_cache config \<and> fri_routingInfoVersion cached = current
               then (Some cached, data)
               else let res = routing_snapshot config steadyNow data
                    in (Some res,
                        if mc_enable_routinginfo_cache config \<and> fri_routingInfoVersion cached < current
                        then data\<lparr>md_routingInfoCache := Some res\<rparr> else data)
           | None \<Rightarrow>
               let res = routing_snapshot config steadyNow data
               in (Some res,
                   if mc_enable_routinginfo_cache config
                   then data\<lparr>md_routingInfoCache := Some res\<rparr> else data))"

text \<open>
  \<^verbatim>\<open>appendChangedChains\<close>: the targets of a chain with their local states (\<^verbatim>\<open>at\<close> throws for an unknown
  target), the new targets, and the change, if there is one.
\<close>

definition chain_with_states :: "RoutingInfo \<Rightarrow> ChainInfo \<Rightarrow> ChainTargetInfoEx list option" where
  "chain_with_states ri chain =
     ofold (\<lambda>cti acc. map_option
        (\<lambda>tw. acc @ [ChainTargetInfoEx_of cti (ti_localState (tw_base tw))])
        (map_of (ri_targets ri) (cti_targetId cti))) (ci_targets chain) []"

definition next_targets ::
  "ChainInfo \<Rightarrow> bool \<Rightarrow> ChainTargetInfoEx list \<Rightarrow> ChainTargetInfoEx list option" where
  "next_targets oldChain tryAdjustTargetOrder oldTargets =
     (let newTargets = generateNewChain oldTargets
      in if tryAdjustTargetOrder \<and> ci_preferredTargetOrder oldChain \<noteq> [] then
           if newTargets = [] then None
           else if cti_publicState (last newTargets) = PS_SERVING
           then rotateAsPreferredOrder newTargets (ci_preferredTargetOrder oldChain)
           else Some newTargets
         else Some newTargets)"

definition new_chain :: "ChainInfo \<Rightarrow> ChainTargetInfoEx list \<Rightarrow> ChainInfo" where
  "new_chain oldChain newTargets =
     \<lparr>ci_chainId = ci_chainId oldChain, ci_chainVersion = nextVersion (ci_chainVersion oldChain),
      ci_targets = map ChainTargetInfo.truncate newTargets,
      ci_preferredTargetOrder = ci_preferredTargetOrder oldChain\<rparr>"

definition appendChangedChains ::
  "RoutingInfo \<Rightarrow> ChainId \<Rightarrow> bool \<Rightarrow> ChainInfo list \<Rightarrow> ChainInfo list option" where
  "appendChangedChains ri chainId tryAdjustTargetOrder changedChains =
     (if map_of (ri_newBornChains ri) chainId \<noteq> None then Some changedChains
      else Option.bind (getChain ri chainId) (\<lambda>oldChain.
        Option.bind (chain_with_states ri oldChain) (\<lambda>oldTargets.
          Option.bind (next_targets oldChain tryAdjustTargetOrder oldTargets) (\<lambda>newTargets.
            if oldTargets \<noteq> newTargets
            then Some (changedChains @ [(new_chain oldChain newTargets)\<lparr>ci_chainId := chainId\<rparr>])
            else Some changedChains))))"

definition reset_data ::
  "SteadyTime \<Rightarrow> RoutingInfoVersion \<Rightarrow> NodeMap \<Rightarrow> (NodeType \<times> VersionedConfigMap) list \<Rightarrow> ChainTableMap \<Rightarrow>
   ChainMap \<Rightarrow> TargetMap \<Rightarrow> (string \<times> TagPair list) list \<Rightarrow> MgmtdData \<Rightarrow> MgmtdData" where
  "reset_data steadyNow version allNodes allConfigs allChainTables allChains allTargets allUniversalTags data =
     data\<lparr>md_routingInfo := reset_routing steadyNow version allNodes allChainTables allChains allTargets
            (md_routingInfo data),
          md_routingInfoCache := None,
          md_configMap := allConfigs,
          md_lease := (md_lease data)\<lparr>lease_bootstrapping := False\<rparr>,
          md_leaseStartTs := steadyNow,
          md_universalTagsMap := allUniversalTags\<rparr>"

section \<open>Chains with their local states\<close>

lemma chain_with_states_eq:
  assumes "\<forall>cti \<in> set (ci_targets c). map_of (ri_targets ri) (cti_targetId cti) \<noteq> None"
  shows "chain_with_states ri c = Some (map (\<lambda>cti. ChainTargetInfoEx_of cti
    (ti_localState (tw_base (the (map_of (ri_targets ri) (cti_targetId cti)))))) (ci_targets c))"
proof -
  have "ofold (\<lambda>cti acc. map_option (\<lambda>tw. acc @ [ChainTargetInfoEx_of cti (ti_localState (tw_base tw))])
      (map_of (ri_targets ri) (cti_targetId cti))) ctis acc =
    Some (acc @ map (\<lambda>cti. ChainTargetInfoEx_of cti
      (ti_localState (tw_base (the (map_of (ri_targets ri) (cti_targetId cti)))))) ctis)"
    if "\<forall>cti \<in> set ctis. map_of (ri_targets ri) (cti_targetId cti) \<noteq> None" for ctis acc
    using that by (induction ctis arbitrary: acc) auto
  then show ?thesis
    using assms by (simp add: chain_with_states_def)
qed

lemma truncate_ChainTargetInfoEx_of [simp]: "ChainTargetInfo.truncate (ChainTargetInfoEx_of cti ls) = cti"
  by (simp add: ChainTargetInfo.truncate_def ChainTargetInfoEx_of_def)

lemma chain_with_states_wf:
  assumes "ri_wf ri" and "map_of (ri_chains ri) cid = Some c"
  shows "\<exists>ts. chain_with_states ri c = Some ts \<and> map ChainTargetInfo.truncate ts = ci_targets c"
proof -
  have "coherent (map_of (ri_chains ri)) (map_of (ri_targets ri))"
    using assms(1) by (simp add: ri_wf_def)
  from coherent_chainD(3) [OF this assms(2)]
  have "\<forall>cti \<in> set (ci_targets c). map_of (ri_targets ri) (cti_targetId cti) \<noteq> None"
    by fastforce
  then show ?thesis
    by (simp add: chain_with_states_eq comp_def)
qed

section \<open>Chain changes keep the routing info consistent\<close>

text \<open>
  The contract of a computation of new targets: it keeps the set of targets and makes none
  INVALID. What the callers need follows from it.
\<close>

locale chain_rewrite =
  fixes rewrite :: "ChainInfo \<Rightarrow> ChainTargetInfoEx list \<Rightarrow> ChainTargetInfoEx list option"
  assumes rewrite_ok: "chain_valid c \<Longrightarrow> distinct (chain_ids c) \<Longrightarrow>
    map ChainTargetInfo.truncate ts = ci_targets c \<Longrightarrow>
    \<exists>ts'. rewrite c ts = Some ts' \<and> mset (map cti_targetId ts') = mset (chain_ids c) \<and>
      (\<forall>t \<in> set ts'. cti_publicState t \<noteq> PS_INVALID)"
begin

lemma rewrite_change_ok:
  assumes "ri_wf ri" and c: "map_of (ri_chains ri) cid = Some c"
    and "map ChainTargetInfo.truncate ts = ci_targets c"
  shows "\<exists>ts'. rewrite c ts = Some ts' \<and> chain_change_ok ri (new_chain c ts') \<and> ci_chainId c = cid"
proof -
  have coh: "coherent (map_of (ri_chains ri)) (map_of (ri_targets ri))" and valid: "chain_valid c"
    using assms(1) c by (auto simp: ri_wf_def)
  note c_wf = coherent_chainD(1,2) [OF coh c]
  obtain ts' where ts': "rewrite c ts = Some ts'" "mset (map cti_targetId ts') = mset (chain_ids c)"
      "\<forall>t \<in> set ts'. cti_publicState t \<noteq> PS_INVALID"
    using rewrite_ok [OF valid c_wf(2) assms(3)] by blast
  have ids: "chain_ids (new_chain c ts') = map cti_targetId ts'"
    by (simp add: chain_ids_def new_chain_def ChainTargetInfo.truncate_def)
  have "set (chain_ids (new_chain c ts')) = set (chain_ids c)"
    unfolding ids using ts'(2) by (metis set_mset_mset)
  moreover have "distinct (chain_ids (new_chain c ts'))"
    unfolding ids using ts'(2) c_wf(2) by (metis mset_eq_imp_distinct_iff)
  moreover have "\<forall>cti \<in> set (ci_targets (new_chain c ts')). cti_publicState cti \<noteq> PS_INVALID"
    using ts'(3) by (auto simp: new_chain_def ChainTargetInfo.truncate_def)
  ultimately have "chain_change_ok ri (new_chain c ts')"
    using c c_wf(1) valid by (auto simp: chain_change_ok_def chain_valid_def new_chain_def)
  with ts'(1) c_wf(1) show ?thesis by blast
qed

end

lemma truncate_ids:
  assumes "map ChainTargetInfo.truncate ts = ci_targets c"
  shows "map cti_targetId ts = chain_ids c"
    and "chain_valid c \<Longrightarrow> \<forall>t \<in> set ts. cti_publicState t \<noteq> PS_INVALID"
proof -
  show "map cti_targetId ts = chain_ids c"
    unfolding chain_ids_def assms [symmetric] by (simp add: ChainTargetInfo.truncate_def)
  show "\<forall>t \<in> set ts. cti_publicState t \<noteq> PS_INVALID" if "chain_valid c"
    using that unfolding chain_valid_def assms [symmetric] by (auto simp: ChainTargetInfo.truncate_def)
qed

interpretation rotate_preferred: chain_rewrite "\<lambda>c ts. rotateAsPreferredOrder ts (ci_preferredTargetOrder c)"
proof
  fix c and ts :: "ChainTargetInfoEx list"
  assume c: "chain_valid c" "distinct (chain_ids c)" and ts: "map ChainTargetInfo.truncate ts = ci_targets c"
  note t = truncate_ids(1) [OF ts] truncate_ids(2) [OF ts c(1)]
  show "\<exists>ts'. rotateAsPreferredOrder ts (ci_preferredTargetOrder c) = Some ts' \<and>
      mset (map cti_targetId ts') = mset (chain_ids c) \<and> (\<forall>t \<in> set ts'. cti_publicState t \<noteq> PS_INVALID)"
    using rotateAsPreferredOrder_ids [of ts "ci_preferredTargetOrder c"] c t
    by (fastforce simp: chain_valid_def)
qed

interpretation rotate_lastsrv: chain_rewrite "\<lambda>c ts. Some (rotateLastSrv ts)"
proof
  fix c and ts :: "ChainTargetInfoEx list"
  assume c: "chain_valid c" "distinct (chain_ids c)" and ts: "map ChainTargetInfo.truncate ts = ci_targets c"
  show "\<exists>ts'. Some (rotateLastSrv ts) = Some ts' \<and>
      mset (map cti_targetId ts') = mset (chain_ids c) \<and> (\<forall>t \<in> set ts'. cti_publicState t \<noteq> PS_INVALID)"
    using rotateLastSrv_ids [of ts] rotateLastSrv_valid [of _ ts] truncate_ids [OF ts] c by fastforce
qed

lemma next_targets_ok:
  assumes c: "chain_valid c" "distinct (chain_ids c)" and ts: "map ChainTargetInfo.truncate ts = ci_targets c"
  shows "\<exists>ts'. next_targets c adjust ts = Some ts' \<and>
    mset (map cti_targetId ts') = mset (chain_ids c) \<and> (\<forall>t \<in> set ts'. cti_publicState t \<noteq> PS_INVALID)"
proof -
  let ?g = "generateNewChain ts"
  have g: "mset (map cti_targetId ?g) = mset (chain_ids c)"
    using generateNewChain_ids [of ts] truncate_ids [OF ts] c(1) by simp
  then have dist: "distinct (map cti_targetId ?g)" and set: "set (map cti_targetId ?g) = set (chain_ids c)"
    using c(2) by (metis mset_eq_imp_distinct_iff, metis set_mset_mset)
  have "?g \<noteq> []" if "ci_preferredTargetOrder c \<noteq> []"
    using that c(1) set by (auto simp: chain_valid_def)
  moreover have "set (ci_preferredTargetOrder c) \<subseteq> set (map cti_targetId ?g)" "distinct (ci_preferredTargetOrder c)"
    using c(1) by (simp_all only: set chain_valid_def)
  ultimately show ?thesis
    using rotateAsPreferredOrder_ids [OF dist, of "ci_preferredTargetOrder c"] g generateNewChain_valid [of _ ts]
    by (fastforce simp: next_targets_def Let_def)
qed

interpretation chain_update: chain_rewrite "\<lambda>c. next_targets c adjust" for adjust
  by unfold_locales (rule next_targets_ok)

section \<open>Recomputing a chain\<close>

definition authoritative :: "'a ChainTargetInfo_scheme \<Rightarrow> bool" where
  "authoritative t \<longleftrightarrow> cti_publicState t \<in> {PS_SERVING, PS_LASTSRV}"

lemma next_targets_head:
  assumes c: "chain_valid c" "distinct (chain_ids c)" and ts: "map ChainTargetInfo.truncate ts = ci_targets c"
    and auth: "\<exists>t \<in> set (ci_targets c). authoritative t" and run: "next_targets c adjust ts = Some ts'"
  shows "ci_targets (new_chain c ts') \<noteq> [] \<and> authoritative (hd (ci_targets (new_chain c ts')))"
proof -
  let ?g = "generateNewChain ts"
  have "\<exists>t \<in> set ts. cti_publicState t \<in> {PS_SERVING, PS_LASTSRV}"
    using auth unfolding ts [symmetric] by (auto simp: authoritative_def ChainTargetInfo.truncate_def)
  note head = generateNewChain_head_state [OF this]
  have g: "mset (map cti_targetId ?g) = mset (chain_ids c)"
    using generateNewChain_ids [of ts] truncate_ids [OF ts] c(1) by simp
  then have dist: "distinct (map cti_targetId ?g)" and set: "set (map cti_targetId ?g) = set (chain_ids c)"
    using c(2) by (metis mset_eq_imp_distinct_iff, metis set_mset_mset)
  have pref: "set (ci_preferredTargetOrder c) \<subseteq> set (map cti_targetId ?g)" "distinct (ci_preferredTargetOrder c)"
    using c(1) by (simp_all only: set chain_valid_def)
  have "ts' \<noteq> [] \<and> cti_publicState (hd ts') \<in> {PS_SERVING, PS_LASTSRV}"
  proof (cases "ts' = ?g")
    case False
    then have "cti_publicState (last ?g) = PS_SERVING" "rotateAsPreferredOrder ?g (ci_preferredTargetOrder c) = Some ts'"
      using run by (auto simp: next_targets_def Let_def split: if_splits)
    then show ?thesis
      using rotateAsPreferredOrder_head [OF dist pref(2,1) head(1)] last_serving [OF head(1)] by simp
  qed (use head in simp)
  then show ?thesis
    by (cases ts') (auto simp: new_chain_def authoritative_def ChainTargetInfo.truncate_def)
qed

lemma appendChangedChains_cases:
  assumes "ri_wf ri" and c: "map_of (ri_chains ri) cid = Some c"
  shows "\<exists>ts ts'. chain_with_states ri c = Some ts \<and> next_targets c adjust ts = Some ts' \<and>
    appendChangedChains ri cid adjust changed = Some
      (if map_of (ri_newBornChains ri) cid \<noteq> None \<or> ts = ts' then changed else changed @ [new_chain c ts']) \<and>
    chain_change_ok ri (new_chain c ts') \<and> ci_chainId c = cid \<and> chain_valid c \<and> distinct (chain_ids c) \<and>
    map ChainTargetInfo.truncate ts = ci_targets c"
proof -
  have "coherent (map_of (ri_chains ri)) (map_of (ri_targets ri))" "chain_valid c" using assms by (auto simp: ri_wf_def)
  then have wf: "chain_valid c" "distinct (chain_ids c)" using coherent_chainD(2) c by blast+
  obtain ts where ts: "chain_with_states ri c = Some ts" "map ChainTargetInfo.truncate ts = ci_targets c"
    using chain_with_states_wf [OF assms] by blast
  obtain ts' where ts': "next_targets c adjust ts = Some ts'" "chain_change_ok ri (new_chain c ts')"
      "ci_chainId c = cid"
    using chain_update.rewrite_change_ok [OF assms ts(2)] by blast
  have "(new_chain c ts')\<lparr>ci_chainId := cid\<rparr> = new_chain c ts'"
    using ts'(3) by (simp add: new_chain_def)
  then show ?thesis
    using ts ts' c wf by (intro exI [of _ ts] exI [of _ ts']) (simp add: appendChangedChains_def getChain_def)
qed

text \<open>
  C20: a periodic chain update is safe. For every known chain of a consistent routing info,
  \<open>appendChangedChains\<close> does not abort. It appends at most one change, and only if the chain is
  not new-born; the change has the next chain version and the same set of targets, it starts with a
  SERVING or LASTSRV target if the chain had one, and applying it to the routing info does not abort
  and keeps it consistent.
\<close>

theorem appendChangedChains_safe:
  assumes "ri_wf ri" and "map_of (ri_chains ri) cid = Some c"
  shows "\<exists>new. appendChangedChains ri cid adjust changed = Some (changed @ new) \<and> length new \<le> 1 \<and>
    (map_of (ri_newBornChains ri) cid \<noteq> None \<longrightarrow> new = []) \<and>
    (\<forall>c' \<in> set new. ci_chainId c' = cid \<and> ci_chainVersion c' = ci_chainVersion c + 1 \<and>
       set (chain_ids c') = set (chain_ids c) \<and> distinct (chain_ids c') \<and>
       ((\<exists>t \<in> set (ci_targets c). authoritative t) \<longrightarrow> ci_targets c' \<noteq> [] \<and> authoritative (hd (ci_targets c'))) \<and>
       (\<exists>ri'. applyChainTargetChanges [c'] now ri = Some ri' \<and> ri_wf ri' \<and> map_of (ri_chains ri') cid = Some c'))"
proof -
  obtain ts ts' where r: "appendChangedChains ri cid adjust changed = Some
      (if map_of (ri_newBornChains ri) cid \<noteq> None \<or> ts = ts' then changed else changed @ [new_chain c ts'])"
    and ok: "chain_change_ok ri (new_chain c ts')" and cid: "ci_chainId c = cid"
    and n: "next_targets c adjust ts = Some ts'" "chain_valid c" "distinct (chain_ids c)" "map ChainTargetInfo.truncate ts = ci_targets c"
    using appendChangedChains_cases [OF assms, of adjust changed] by blast
  let ?c = "new_chain c ts'"
  obtain T where "apply_chain now ?c ri = Some (ri\<lparr>ri_chains := AList.update (ci_chainId ?c) ?c (ri_chains ri), ri_targets := T\<rparr>)"
    "map_of T = set_states now (ci_targets ?c) (map_of (ri_targets ri))" "distinct (map fst T)"
    using apply_chain_correct [OF assms(1) ok] by blast
  then have "\<exists>ri'. applyChainTargetChanges [?c] now ri = Some ri' \<and> ri_wf ri' \<and> map_of (ri_chains ri') cid = Some ?c"
    using ri_wf_replace [OF assms(1) ok] cid
    by (auto simp: applyChainTargetChanges_def update_conv' new_chain_def)
  moreover have "ci_chainId ?c = cid" "ci_chainVersion ?c = ci_chainVersion c + 1"
    using cid by (simp_all add: new_chain_def nextVersion_def)
  moreover have "set (chain_ids ?c) = set (chain_ids c)" "distinct (chain_ids ?c)"
    using ok assms(2) cid by (auto simp: chain_change_ok_def new_chain_def)
  moreover have "(\<exists>t \<in> set (ci_targets c). authoritative t) \<longrightarrow> ci_targets ?c \<noteq> [] \<and> authoritative (hd (ci_targets ?c))"
    using next_targets_head [OF n(2-4) _ n(1)] by blast
  ultimately show ?thesis
    using r by (intro exI [of _ "if map_of (ri_newBornChains ri) cid \<noteq> None \<or> ts = ts' then [] else [?c]"]) auto
qed

theorem appendChangedChains_safe_witness:
  "\<exists>new. appendChangedChains sample_RoutingInfo 1 False [] = Some new \<and> length new \<le> 1"
proof -
  have "map_of (ri_chains sample_RoutingInfo) 1 = Some sample_chain"
    by (simp add: sample_RoutingInfo_def)
  from appendChangedChains_safe [OF sample_RoutingInfo_wf this, of False "[]" 0] show ?thesis
    by auto
qed

section \<open>Configurations\<close>

text \<open>Every node type has one version map, which is ordered, not empty, and keyed by the version.\<close>

definition configs_wf :: "MgmtdData \<Rightarrow> bool" where
  "configs_wf data \<longleftrightarrow> distinct (map fst (md_configMap data)) \<and> (\<forall>ty. \<exists>vm. map_of (md_configMap data) ty = Some vm \<and> omap_wf vm \<and> vm \<noteq> [] \<and>
     (\<forall>v info. map_of vm v = Some info \<longrightarrow> cfg_configVersion info = v))"

lemma configs_wf_latest:
  assumes "configs_wf data"
  shows "\<exists>vm v info. map_of (md_configMap data) ty = Some vm \<and> rbegin vm = Some (v, info) \<and>
    cfg_configVersion info = v \<and> map_of vm v = Some info \<and> (\<forall>v' \<in> fst ` set vm. v' \<le> v)"
proof -
  obtain vm where vm: "map_of (md_configMap data) ty = Some vm" "omap_wf vm" "vm \<noteq> []"
      "\<forall>v info. map_of vm v = Some info \<longrightarrow> cfg_configVersion info = v"
    using assms unfolding configs_wf_def by blast
  obtain v info where "rbegin vm = Some (v, info)"
    using vm(3) by (cases "last vm") (simp add: rbegin_def)
  then show ?thesis
    using vm rbegin_lookup [OF vm(2)] rbegin_max [OF vm(2)] by blast
qed

text \<open>
  A configuration is never rolled back for a node. For every node type there is a latest
  configuration, with the largest version that is stored. A node that reports a larger version
  is rejected; any other node gets this latest configuration, unless it already has that
  version, in which case it gets none. No case aborts.
\<close>

lemma getConfig_latest:
  assumes "configs_wf data"
  shows "\<exists>vm info. map_of (md_configMap data) ty = Some vm \<and> map_of vm (cfg_configVersion info) = Some info \<and>
    (\<forall>v \<in> fst ` set vm. v \<le> cfg_configVersion info) \<and>
    getLatestConfigVersion data ty = Ret (cfg_configVersion info) \<and>
    (if version > cfg_configVersion info
     then checkConfigVersion data ty version = Err (Mgmtd kInvalidConfigVersion)
     else checkConfigVersion data ty version = Ret () \<and>
       getConfig data ty version True = Ret (if version = cfg_configVersion info then None else Some info))"
proof -
  from configs_wf_latest [OF assms, of ty] obtain vm v info where
    v: "map_of (md_configMap data) ty = Some vm" "rbegin vm = Some (v, info)"
       "cfg_configVersion info = v" "map_of vm v = Some info" "\<forall>v' \<in> fst ` set vm. v' \<le> v"
    by blast
  then show ?thesis
    by (intro exI [of _ vm] exI [of _ info])
      (auto simp: getLatestConfigVersion_def checkConfigVersion_def getConfig_def not_less order.order_iff_strict)
qed

definition sample_Data :: MgmtdData where
  "sample_Data = \<lparr>md_leaseStartTs = 0, md_routingInfo = sample_RoutingInfo,
     md_configMap = map (\<lambda>ty. (ty, [(0, \<lparr>cfg_configVersion = 0, cfg_content = [], cfg_desc = []\<rparr>),
        (1, \<lparr>cfg_configVersion = 1, cfg_content = ''x'', cfg_desc = []\<rparr>)])) [MGMTD, META, STORAGE, CLIENT, FUSE],
     md_lease = \<lparr>lease_lease = None, lease_bootstrapping = False\<rparr>, md_universalTagsMap = [],
     md_routingInfoCache = None\<rparr>"

lemma sample_Data_configs: "configs_wf sample_Data"
  unfolding configs_wf_def
proof (intro conjI allI)
  show "distinct (map fst (md_configMap sample_Data))"
    by (simp add: sample_Data_def)
next
  fix ty
  show "\<exists>vm. map_of (md_configMap sample_Data) ty = Some vm \<and> omap_wf vm \<and> vm \<noteq> [] \<and>
     (\<forall>v info. map_of vm v = Some info \<longrightarrow> cfg_configVersion info = v)"
    by (cases ty) (auto simp: sample_Data_def omap_wf_def)
qed

section \<open>The routing info that clients fetch\<close>

text \<open>
  What a client receives. A client that already has the current version receives nothing.
  Every other client receives routing info of the current version: a fresh snapshot, or, if it
  does not force a refresh with version 0, the cached snapshot of the current version. The
  request changes nothing but the cache, and the cache never is ahead of the current version.
\<close>

lemma getRoutingInfo_current:
  assumes "\<forall>cached. md_routingInfoCache data = Some cached \<longrightarrow>
      fri_routingInfoVersion cached \<le> ri_routingInfoVersion (md_routingInfo data)"
    and "getRoutingInfo config now version data = (res, data')"
  shows "(res = None \<longleftrightarrow> version = ri_routingInfoVersion (md_routingInfo data)) \<and>
    (\<forall>info. res = Some info \<longrightarrow>
       fri_routingInfoVersion info = ri_routingInfoVersion (md_routingInfo data) \<and>
       (info = routing_snapshot config now data \<or> version \<noteq> 0 \<and> md_routingInfoCache data = Some info)) \<and>
    data' = data\<lparr>md_routingInfoCache := md_routingInfoCache data'\<rparr> \<and>
    (\<forall>cached. md_routingInfoCache data' = Some cached \<longrightarrow>
      fri_routingInfoVersion cached \<le> ri_routingInfoVersion (md_routingInfo data'))"
proof -
  have "fri_routingInfoVersion (routing_snapshot config now data) = ri_routingInfoVersion (md_routingInfo data)"
    by (simp add: routing_snapshot_def Let_def)
  moreover have "res = fst (getRoutingInfo config now version data)" "data' = snd (getRoutingInfo config now version data)"
    using assms(2) by simp_all
  ultimately show ?thesis
    using assms(1) by (cases "md_routingInfoCache data") (simp_all add: getRoutingInfo_def Let_def)
qed

end
