(* ===== verification/Mgmtd_Store.thy ===== *)
theory Mgmtd_Store
  imports Chain_Update Byte_Keys
begin

text \<open>
  The persistent store of the cluster manager (\<^verbatim>\<open>src/src/mgmtd/store/MgmtdStore.cc\<close>): the keys of
  its tables as bytes, and the operations of a transaction on the key-value store. The store is the
  sorted map from keys to values that a transaction sees. A value is the stored struct itself, one
  constructor for each struct (the serialised bytes are those of the serde library); the routing
  info version alone is stored as raw bytes. Reading a value of another struct is a corruption.

  The keys of different tables and entries never collide (\<open>key_of_inject\<close>), so the store implements
  a record of typed tables (\<open>abs_store\<close>): every operation is an update of one table, and a listing
  returns exactly its table.
\<close>

section \<open>Keys\<close>

datatype KeyPrefix =
    KP_Inode | KP_Dentry | KP_MetaDistributor | KP_User | KP_NodeTable | KP_Single | KP_ChainTable | KP_ChainInfo
  | KP_InodeSession | KP_ClientSession | KP_MetaIdempotent | KP_UniversalTags | KP_Config | KP_TargetInfo
  | KP_KvTable | KP_KvNamespace | KP_KvWorkerGroup

fun toStr :: "KeyPrefix \<Rightarrow> string" where
  "toStr KP_Inode = ''INOD''"
| "toStr KP_Dentry = ''DENT''"
| "toStr KP_MetaDistributor = ''META''"
| "toStr KP_User = ''USER''"
| "toStr KP_NodeTable = ''NODE''"
| "toStr KP_Single = ''SING''"
| "toStr KP_ChainTable = ''CHIT''"
| "toStr KP_ChainInfo = ''CHIF''"
| "toStr KP_InodeSession = ''INOS''"
| "toStr KP_ClientSession = ''CLIS''"
| "toStr KP_MetaIdempotent = ''IDEM''"
| "toStr KP_UniversalTags = ''UTGS''"
| "toStr KP_Config = ''CONF''"
| "toStr KP_TargetInfo = ''TGIF''"
| "toStr KP_KvTable = ''KVTB''"
| "toStr KP_KvNamespace = ''KVNS''"
| "toStr KP_KvWorkerGroup = ''KVWG''"

definition makePrefixValue :: "string \<Rightarrow> 32 word" where
  "makePrefixValue s = of_char (s ! 0) + push_bit 8 (of_char (s ! 1)) + push_bit 16 (of_char (s ! 2)) +
     push_bit 24 (of_char (s ! 3))"

definition prefix_value :: "KeyPrefix \<Rightarrow> 32 word" where
  "prefix_value p = makePrefixValue (toStr p)"

definition getMgmtdLeaseKey :: string where
  "getMgmtdLeaseKey = toStr KP_Single @ ''MgmtdLease''"

definition getRoutingInfoVersionKey :: string where
  "getRoutingInfoVersionKey = toStr KP_Single @ ''RoutingInfoVersion''"

definition getNodeKey :: "NodeId \<Rightarrow> string" where
  "getNodeKey ident = put32 (prefix_value KP_NodeTable) @ put32 ident"

definition getChainTableKey :: "ChainTableId \<Rightarrow> ChainTableVersion \<Rightarrow> string" where
  "getChainTableKey ident ver = put32 (prefix_value KP_ChainTable) @ put32 ident @ put32 ver"

definition getChainInfoKey :: "ChainId \<Rightarrow> string" where
  "getChainInfoKey ident = put32 (prefix_value KP_ChainInfo) @ put32 ident"

definition getTargetInfoKey :: "TargetId \<Rightarrow> string" where
  "getTargetInfoKey ident = put32 (prefix_value KP_TargetInfo) @ put_big64 ident"

definition getKeyForUniversalTags :: "string \<Rightarrow> string" where
  "getKeyForUniversalTags ident = toStr KP_UniversalTags @ ident"

definition extractNodeIdFromKey :: "string \<Rightarrow> NodeId result" where
  "extractNodeIdFromKey k =
     (case get32 k of
        Inl e \<Rightarrow> Inl e
      | Inr (pre, rest) \<Rightarrow>
          if pre \<noteq> prefix_value KP_NodeTable then Inl (Common kDataCorruption)
          else (case get32 rest of
                  Inl e \<Rightarrow> Inl e
                | Inr (ident, rest') \<Rightarrow> if rest' \<noteq> [] then Inl (Common kDataCorruption) else Inr ident))"

text \<open>The names of the enumeration (\<^verbatim>\<open>magic_enum\<close>) and back.\<close>

fun toStringView :: "NodeType \<Rightarrow> string" where
  "toStringView MGMTD = ''MGMTD''"
| "toStringView META = ''META''"
| "toStringView STORAGE = ''STORAGE''"
| "toStringView CLIENT = ''CLIENT''"
| "toStringView FUSE = ''FUSE''"

definition all_NodeTypes :: "NodeType list" where
  "all_NodeTypes = [MGMTD, META, STORAGE, CLIENT, FUSE]"

definition enum_cast :: "string \<Rightarrow> NodeType option" where
  "enum_cast s = List.find (\<lambda>ty. toStringView ty = s) all_NodeTypes"

definition getConfigKeyPrefix :: "NodeType \<Rightarrow> string" where
  "getConfigKeyPrefix nodeType = put32 (prefix_value KP_Config) @ putShortString (toStringView nodeType)"

definition getConfigKey :: "NodeType \<Rightarrow> ConfigVersion \<Rightarrow> string" where
  "getConfigKey nodeType version =
     put32 (prefix_value KP_Config) @ putShortString (toStringView nodeType) @ put_big64 (- 1 - version)"

definition decodeConfigKey :: "string \<Rightarrow> (NodeType \<times> ConfigVersion) result" where
  "decodeConfigKey s =
     (case get32 s of
        Inl e \<Rightarrow> Inl e
      | Inr (keyPrefix, s1) \<Rightarrow>
          if keyPrefix \<noteq> prefix_value KP_Config then Inl (Common kDataCorruption)
          else (case getShortString s1 of
                  Inl e \<Rightarrow> Inl e
                | Inr (typeStr, s2) \<Rightarrow>
                    (case enum_cast typeStr of
                       None \<Rightarrow> Inl (Common kDataCorruption)
                     | Some ty \<Rightarrow>
                         (case get_big64 s2 of
                            Inl e \<Rightarrow> Inl e
                          | Inr (reversed, _) \<Rightarrow> Inr (ty, - 1 - reversed)))))"

section \<open>Operations\<close>

datatype stored =
    SNode PersistentNodeInfo
  | SLease MgmtdLeaseInfo
  | SChainTable ChainTable
  | SChain ChainInfo
  | SConfig ConfigInfo
  | STags "TagPair list"
  | STarget TargetInfo
  | SRaw string

type_synonym kv = "(string, stored) omap"

definition corrupt :: "'a option \<Rightarrow> 'a result" where
  "corrupt x = (case x of None \<Rightarrow> Inl (Common kDataCorruption) | Some y \<Rightarrow> Inr y)"

fun as_node :: "stored \<Rightarrow> PersistentNodeInfo option" where
  "as_node (SNode x) = Some x" | "as_node _ = None"

fun as_lease :: "stored \<Rightarrow> MgmtdLeaseInfo option" where
  "as_lease (SLease x) = Some x" | "as_lease _ = None"

fun as_chainTable :: "stored \<Rightarrow> ChainTable option" where
  "as_chainTable (SChainTable x) = Some x" | "as_chainTable _ = None"

fun as_chain :: "stored \<Rightarrow> ChainInfo option" where
  "as_chain (SChain x) = Some x" | "as_chain _ = None"

fun as_config :: "stored \<Rightarrow> ConfigInfo option" where
  "as_config (SConfig x) = Some x" | "as_config _ = None"

fun as_tags :: "stored \<Rightarrow> TagPair list option" where
  "as_tags (STags x) = Some x" | "as_tags _ = None"

fun as_target :: "stored \<Rightarrow> TargetInfo option" where
  "as_target (STarget x) = Some x" | "as_target _ = None"

fun as_raw :: "stored \<Rightarrow> string option" where
  "as_raw (SRaw x) = Some x" | "as_raw _ = None"

text \<open>\<^verbatim>\<open>load\<close> and \<^verbatim>\<open>snapshotLoad\<close> of a struct, and the listing of a prefix with an unpacked value each.
  The listing is \<open>listByPrefix\<close> without a limit, whose pages together are all entries with the prefix.\<close>

definition load_as :: "(stored \<Rightarrow> 'a option) \<Rightarrow> string \<Rightarrow> kv \<Rightarrow> 'a option result" where
  "load_as unpackFrom k kv =
     (case map_of kv k of
        None \<Rightarrow> Inr None
      | Some v \<Rightarrow> (case corrupt (unpackFrom v) of Inl e \<Rightarrow> Inl e | Inr x \<Rightarrow> Inr (Some x)))"

definition list_prefix :: "string \<Rightarrow> kv \<Rightarrow> (string \<times> stored) list" where
  "list_prefix p kv = filter (\<lambda>e. prefix p (fst e)) kv"

fun unpack_list :: "('e \<Rightarrow> 'a result) \<Rightarrow> 'e list \<Rightarrow> 'a list result" where
  "unpack_list f [] = Inr []"
| "unpack_list f (e # es) =
     (case f e of
        Inl err \<Rightarrow> Inl err
      | Inr x \<Rightarrow> (case unpack_list f es of Inl err \<Rightarrow> Inl err | Inr xs \<Rightarrow> Inr (x # xs)))"

definition loadMgmtdLeaseInfo :: "kv \<Rightarrow> MgmtdLeaseInfo option result" where
  "loadMgmtdLeaseInfo kv = load_as as_lease getMgmtdLeaseKey kv"

definition storeMgmtdLeaseInfo :: "MgmtdLeaseInfo \<Rightarrow> kv \<Rightarrow> kv" where
  "storeMgmtdLeaseInfo leaseInfo kv = omap_put getMgmtdLeaseKey (SLease leaseInfo) kv"

text \<open>\<^verbatim>\<open>extendLease\<close>: the comparison of release versions may abort the process.\<close>

definition extendLease ::
  "PersistentNodeInfo \<Rightarrow> int \<Rightarrow> UtcTime \<Rightarrow> ReleaseVersion \<Rightarrow> bool \<Rightarrow> kv \<Rightarrow> MgmtdLeaseInfo outcome \<times> kv" where
  "extendLease nodeInfo leaseLength now rv checkReleaseVersion kv =
     (let newLeaseInfo = \<lparr>li_primary = nodeInfo, li_leaseStart = now, li_leaseEnd = now + leaseLength,
            li_releaseVersion = rv\<rparr>
      in case loadMgmtdLeaseInfo kv of
           Inl e \<Rightarrow> (Err e, kv)
         | Inr None \<Rightarrow> (Ret newLeaseInfo, storeMgmtdLeaseInfo newLeaseInfo kv)
         | Inr (Some storedLeaseInfo) \<Rightarrow>
             (case (if checkReleaseVersion
                    then map_option (\<lambda>c. c = Less) (ReleaseVersion_cmp rv (li_releaseVersion storedLeaseInfo))
                    else Some False) of
                None \<Rightarrow> (Crash, kv)
              | Some True \<Rightarrow> (Ret storedLeaseInfo, kv)
              | Some False \<Rightarrow>
                  let leaseEnd = li_leaseEnd storedLeaseInfo
                  in if leaseEnd \<ge> now + leaseLength then (Ret storedLeaseInfo, kv)
                     else if leaseEnd < now then (Ret newLeaseInfo, storeMgmtdLeaseInfo newLeaseInfo kv)
                     else if pn_nodeId (li_primary storedLeaseInfo) = pn_nodeId nodeInfo
                     then let extended = newLeaseInfo\<lparr>li_leaseStart := li_leaseStart storedLeaseInfo\<rparr>
                          in (Ret extended, storeMgmtdLeaseInfo extended kv)
                     else (Ret storedLeaseInfo, kv)))"

definition ensureLeaseValid :: "NodeId \<Rightarrow> UtcTime \<Rightarrow> kv \<Rightarrow> unit result" where
  "ensureLeaseValid nodeId now kv =
     (case loadMgmtdLeaseInfo kv of
        Inl e \<Rightarrow> Inl e
      | Inr None \<Rightarrow> Inl (Mgmtd kNotPrimary)
      | Inr (Some storedLeaseInfo) \<Rightarrow>
          if pn_nodeId (li_primary storedLeaseInfo) \<noteq> nodeId then Inl (Mgmtd kNotPrimary)
          else if li_leaseEnd storedLeaseInfo < now then Inl (Mgmtd kNotPrimary)
          else Inr ())"

definition storeNodeInfo :: "PersistentNodeInfo \<Rightarrow> kv \<Rightarrow> kv" where
  "storeNodeInfo info kv = omap_put (getNodeKey (pn_nodeId info)) (SNode info) kv"

definition clearNodeInfo :: "NodeId \<Rightarrow> kv \<Rightarrow> kv" where
  "clearNodeInfo nodeId kv = omap_erase (getNodeKey nodeId) kv"

definition loadNodeInfo :: "NodeId \<Rightarrow> kv \<Rightarrow> PersistentNodeInfo option result" where
  "loadNodeInfo nodeId kv = load_as as_node (getNodeKey nodeId) kv"

definition loadRoutingInfoVersion :: "kv \<Rightarrow> RoutingInfoVersion result" where
  "loadRoutingInfoVersion kv =
     (case load_as as_raw getRoutingInfoVersionKey kv of
        Inl e \<Rightarrow> Inl e
      | Inr None \<Rightarrow> Inr 0
      | Inr (Some bytes) \<Rightarrow>
          (case get64 bytes of
             Inl e \<Rightarrow> Inl e
           | Inr (v, rest) \<Rightarrow> if rest \<noteq> [] then Inl (Common kDataCorruption) else Inr v))"

definition storeRoutingInfoVersion :: "RoutingInfoVersion \<Rightarrow> kv \<Rightarrow> kv" where
  "storeRoutingInfoVersion version kv = omap_put getRoutingInfoVersionKey (SRaw (put64 version)) kv"

definition unpack_node :: "string \<times> stored \<Rightarrow> PersistentNodeInfo result" where
  "unpack_node e =
     (case extractNodeIdFromKey (fst e) of
        Inl err \<Rightarrow> Inl err
      | Inr ident \<Rightarrow>
          (case corrupt (as_node (snd e)) of
             Inl err \<Rightarrow> Inl err
           | Inr node \<Rightarrow> if ident \<noteq> pn_nodeId node then Inl (Common kDataCorruption) else Inr node))"

definition loadAllNodes :: "kv \<Rightarrow> PersistentNodeInfo list result" where
  "loadAllNodes kv = unpack_list unpack_node (list_prefix (toStr KP_NodeTable) kv)"

definition storeConfig :: "NodeType \<Rightarrow> ConfigInfo \<Rightarrow> kv \<Rightarrow> kv" where
  "storeConfig nodeType info kv = omap_put (getConfigKey nodeType (cfg_configVersion info)) (SConfig info) kv"

definition unpackConfigInfo :: "NodeType option \<Rightarrow> string \<times> stored \<Rightarrow> (NodeType \<times> ConfigInfo) result" where
  "unpackConfigInfo expectedType e =
     (case decodeConfigKey (fst e) of
        Inl err \<Rightarrow> Inl err
      | Inr (ty, version) \<Rightarrow>
          if expectedType \<noteq> None \<and> expectedType \<noteq> Some ty then Inl (Common kDataCorruption)
          else (case corrupt (as_config (snd e)) of
                  Inl err \<Rightarrow> Inl err
                | Inr info \<Rightarrow>
                    if version \<noteq> cfg_configVersion info then Inl (Common kDataCorruption) else Inr (ty, info)))"

definition loadAllConfigs :: "kv \<Rightarrow> (NodeType \<times> ConfigInfo) list result" where
  "loadAllConfigs kv = unpack_list (unpackConfigInfo None) (list_prefix (toStr KP_Config) kv)"

definition loadLatestConfig :: "NodeType \<Rightarrow> kv \<Rightarrow> ConfigInfo option result" where
  "loadLatestConfig ty kv =
     (case take 1 (list_prefix (getConfigKeyPrefix ty) kv) of
        [] \<Rightarrow> Inr None
      | e # _ \<Rightarrow> (case unpackConfigInfo (Some ty) e of Inl err \<Rightarrow> Inl err | Inr (_, info) \<Rightarrow> Inr (Some info)))"

definition loadConfig :: "NodeType \<Rightarrow> ConfigVersion \<Rightarrow> kv \<Rightarrow> ConfigInfo option result" where
  "loadConfig ty version kv = load_as as_config (getConfigKey ty version) kv"

definition storeChainTable :: "ChainTable \<Rightarrow> kv \<Rightarrow> kv" where
  "storeChainTable chainTable kv =
     omap_put (getChainTableKey (ct_chainTableId chainTable) (ct_chainTableVersion chainTable))
       (SChainTable chainTable) kv"

definition loadAllChainTables :: "kv \<Rightarrow> ChainTable list result" where
  "loadAllChainTables kv =
     unpack_list (\<lambda>e. corrupt (as_chainTable (snd e))) (list_prefix (toStr KP_ChainTable) kv)"

definition storeChainInfo :: "ChainInfo \<Rightarrow> kv \<Rightarrow> kv" where
  "storeChainInfo chainInfo kv = omap_put (getChainInfoKey (ci_chainId chainInfo)) (SChain chainInfo) kv"

definition loadAllChains :: "kv \<Rightarrow> ChainInfo list result" where
  "loadAllChains kv = unpack_list (\<lambda>e. corrupt (as_chain (snd e))) (list_prefix (toStr KP_ChainInfo) kv)"

definition storeRoutingInfo :: "FlatRoutingInfo \<Rightarrow> kv \<Rightarrow> kv" where
  "storeRoutingInfo routingInfo kv =
     (let kv1 = storeRoutingInfoVersion (fri_routingInfoVersion routingInfo) kv;
          kv2 = fold (\<lambda>(ident, node). storeNodeInfo (toPersistentNode node)) (fri_nodes routingInfo) kv1;
          kv3 = fold (\<lambda>(_, vm). fold (\<lambda>(_, table). storeChainTable table) vm) (fri_chainTables routingInfo) kv2
      in fold (\<lambda>(_, chain). storeChainInfo chain) (fri_chains routingInfo) kv3)"

definition storeUniversalTags :: "string \<Rightarrow> TagPair list \<Rightarrow> kv \<Rightarrow> kv result" where
  "storeUniversalTags ident tags kv =
     (if ident = [] then Inl (Common kInvalidArg)
      else Inr (omap_put (getKeyForUniversalTags ident) (STags tags) kv))"

definition loadUniversalTags :: "string \<Rightarrow> kv \<Rightarrow> TagPair list result" where
  "loadUniversalTags ident kv =
     (if ident = [] then Inl (Common kInvalidArg)
      else case load_as as_tags (getKeyForUniversalTags ident) kv of
             Inl e \<Rightarrow> Inl e
           | Inr None \<Rightarrow> Inr []
           | Inr (Some tags) \<Rightarrow> Inr tags)"

definition unpack_tags :: "string \<times> stored \<Rightarrow> (string \<times> TagPair list) result" where
  "unpack_tags e =
     (if length (fst e) \<le> length (toStr KP_UniversalTags) then Inl (Common kDataCorruption)
      else case corrupt (as_tags (snd e)) of
             Inl err \<Rightarrow> Inl err
           | Inr tags \<Rightarrow> Inr (drop (length (toStr KP_UniversalTags)) (fst e), tags))"

definition loadAllUniversalTags :: "kv \<Rightarrow> (string \<times> TagPair list) list result" where
  "loadAllUniversalTags kv = unpack_list unpack_tags (list_prefix (toStr KP_UniversalTags) kv)"

definition clearUniversalTags :: "string \<Rightarrow> kv \<Rightarrow> kv result" where
  "clearUniversalTags ident kv =
     (if ident = [] then Inl (Common kInvalidArg) else Inr (omap_erase (getKeyForUniversalTags ident) kv))"

text \<open>\<^verbatim>\<open>shutdownAllChains\<close>: a target in the state INVALID aborts the process.\<close>

definition shutdown_one :: "ChainInfo \<Rightarrow> kv \<Rightarrow> kv option" where
  "shutdown_one ci kv =
     map_option (\<lambda>newTargets. if ci_targets ci \<noteq> newTargets
       then storeChainInfo (ci\<lparr>ci_chainVersion := ci_chainVersion ci + 1, ci_targets := newTargets\<rparr>) kv else kv)
     (shutdownChain (ci_targets ci))"

definition shutdownAllChains :: "kv \<Rightarrow> unit outcome \<times> kv" where
  "shutdownAllChains kv =
     (case loadRoutingInfoVersion kv of
        Inl e \<Rightarrow> (Err e, kv)
      | Inr riv \<Rightarrow>
          let kv1 = storeRoutingInfoVersion (riv + 1) kv
          in case loadAllChains kv1 of
               Inl e \<Rightarrow> (Err e, kv1)
             | Inr chainsRes \<Rightarrow>
                 (case ofold shutdown_one chainsRes kv1 of None \<Rightarrow> (Crash, kv1) | Some kv2 \<Rightarrow> (Ret (), kv2)))"

definition storeTargetInfo :: "TargetInfo \<Rightarrow> kv \<Rightarrow> kv" where
  "storeTargetInfo ti kv = omap_put (getTargetInfoKey (ti_targetId ti)) (STarget ti) kv"

definition clearTargetInfo :: "TargetId \<Rightarrow> kv \<Rightarrow> kv" where
  "clearTargetInfo tid kv = omap_erase (getTargetInfoKey tid) kv"

definition loadTargetInfo :: "TargetId \<Rightarrow> kv \<Rightarrow> TargetInfo option result" where
  "loadTargetInfo tid kv = load_as as_target (getTargetInfoKey tid) kv"

text \<open>\<^verbatim>\<open>loadTargetsFrom\<close> asks for a range without a limit; the store answers with one page, of at most
  \<open>page\<close> pairs. The result of the read is used without a test for an error; only reads that succeed are modelled.\<close>

definition loadTargetsFrom :: "nat \<Rightarrow> TargetId \<Rightarrow> kv \<Rightarrow> TargetInfo list result" where
  "loadTargetsFrom page tid kv =
     unpack_list (\<lambda>e. corrupt (as_target (snd e)))
       (take page (filter (\<lambda>e. getTargetInfoKey tid \<le> fst e \<and> fst e \<le> getTargetInfoKey (- 1)) kv))"

section \<open>Keys do not collide\<close>

lemma of_char_less: "of_char c < (256 :: nat)"
  using of_char_le [of c] by linarith

lemma le_bytes_value: "le_bytes (length s) (le_value s) = s"
proof (induction s)
  case (Cons c cs)
  have "(of_char c + 256 * le_value cs) div 256 = le_value cs"
    by (simp only: div_mult_self2 div_less [OF of_char_less] add_0_right)
  moreover have "char_of ((of_char c + 256 * le_value cs) mod 256) = c"
    by (simp only: mod_mult_self2 of_char_mod_256 char_of_char)
  ultimately show ?case
    using Cons by (simp only: le_bytes.simps le_value.simps list.size add_Suc_right add_0_right)
qed simp

lemma le_value_less: "le_value s < 256 ^ length s"
proof (induction s)
  case (Cons c cs)
  then show ?case
    using of_char_less [of c] by (simp only: le_value.simps list.size add_Suc_right add_0_right power_Suc)
qed simp

lemma makePrefixValue_le_value: "length s = 4 \<Longrightarrow> makePrefixValue s = of_nat (le_value s)"
proof -
  assume "length s = 4"
  then obtain a b c d where s: "s = [a, b, c, d]"
    by (auto simp: numeral_eq_Suc length_Suc_conv)
  show ?thesis
    by (simp add: s makePrefixValue_def push_bit_eq_mult algebra_simps of_nat_of_char)
qed

lemma put_makePrefixValue: "length s = 4 \<Longrightarrow> put32 (makePrefixValue s) = s"
  using le_value_less [of s] le_bytes_value [of s]
  by (simp add: put32_def makePrefixValue_le_value unat_of_nat take_bit_nat_eq_self)

lemma length_toStr [simp]: "length (toStr p) = 4"
  by (cases p) simp_all

lemma put_prefix_value [simp]: "put32 (prefix_value p) = toStr p"
  by (simp add: prefix_value_def put_makePrefixValue)

lemma toStringView_inject: "toStringView t = toStringView u \<longleftrightarrow> t = u"
  by (cases t; cases u) simp_all

lemma enum_cast_name [simp]: "enum_cast (toStringView ty) = Some ty"
  by (cases ty) (simp_all add: enum_cast_def all_NodeTypes_def)

lemma length_toStringView: "length (toStringView ty) < 128"
  by (cases ty) simp_all

lemma decode_getConfigKey: "decodeConfigKey (getConfigKey ty version) = Inr (ty, version)"
proof -
  have "decodeConfigKey (getConfigKey ty version) =
    (case get_big64 (put_big64 (- 1 - version) @ []) of
       Inl e \<Rightarrow> Inl e | Inr (reversed, _) \<Rightarrow> Inr (ty, - 1 - reversed))"
    unfolding decodeConfigKey_def getConfigKey_def
    by (simp only: get_put get_put_short_string [OF length_toStringView] append_assoc append_Nil2
        sum.case prod.case enum_cast_name option.case refl if_False not_True_eq_False)
  then show ?thesis
    by (simp only: get_put sum.case prod.case) simp
qed

lemma extract_getNodeKey: "extractNodeIdFromKey (getNodeKey ident) = Inr ident"
proof -
  have "extractNodeIdFromKey (getNodeKey ident) =
    (case get32 (put32 ident @ []) of
       Inl e \<Rightarrow> Inl e | Inr (i, rest) \<Rightarrow> if rest \<noteq> [] then Inl (Common kDataCorruption) else Inr i)"
    unfolding extractNodeIdFromKey_def getNodeKey_def
    by (simp only: get_put append_Nil2 sum.case prod.case if_False refl not_True_eq_False)
  then show ?thesis
    by (simp only: get_put sum.case prod.case) simp
qed

text \<open>The keys of the tables as a datatype.\<close>

datatype skey =
    LeaseKey
  | VersionKey
  | NodeKey NodeId
  | ChainTableKey ChainTableId ChainTableVersion
  | ChainKey ChainId
  | TargetKey TargetId
  | TagsKey string
  | ConfigKey NodeType ConfigVersion

fun key_of :: "skey \<Rightarrow> string" where
  "key_of LeaseKey = getMgmtdLeaseKey"
| "key_of VersionKey = getRoutingInfoVersionKey"
| "key_of (NodeKey ident) = getNodeKey ident"
| "key_of (ChainTableKey ident ver) = getChainTableKey ident ver"
| "key_of (ChainKey ident) = getChainInfoKey ident"
| "key_of (TargetKey ident) = getTargetInfoKey ident"
| "key_of (TagsKey ident) = getKeyForUniversalTags ident"
| "key_of (ConfigKey ty ver) = getConfigKey ty ver"

fun table_prefix :: "skey \<Rightarrow> KeyPrefix" where
  "table_prefix LeaseKey = KP_Single"
| "table_prefix VersionKey = KP_Single"
| "table_prefix (NodeKey _) = KP_NodeTable"
| "table_prefix (ChainTableKey _ _) = KP_ChainTable"
| "table_prefix (ChainKey _) = KP_ChainInfo"
| "table_prefix (TargetKey _) = KP_TargetInfo"
| "table_prefix (TagsKey _) = KP_UniversalTags"
| "table_prefix (ConfigKey _ _) = KP_Config"

lemmas key_defs = getMgmtdLeaseKey_def getRoutingInfoVersionKey_def getNodeKey_def getChainTableKey_def
  getChainInfoKey_def getTargetInfoKey_def getKeyForUniversalTags_def getConfigKey_def

lemma take_key_of: "take 4 (key_of k) = toStr (table_prefix k)"
  by (cases k) (simp_all add: key_defs)

lemma toStr_inject: "toStr p = toStr q \<longleftrightarrow> p = q"
  by (cases p; cases q) simp_all

lemma key_of_inject [simp]: "key_of a = key_of b \<longleftrightarrow> a = b"
proof
  assume eq: "key_of a = key_of b"
  then have "table_prefix a = table_prefix b"
    by (metis take_key_of toStr_inject)
  then show "a = b"
  proof (cases a)
    case (ConfigKey ty ver)
    with \<open>table_prefix a = table_prefix b\<close> obtain ty' ver' where b: "b = ConfigKey ty' ver'"
      by (cases b) auto
    have "decodeConfigKey (getConfigKey ty ver) = decodeConfigKey (getConfigKey ty' ver')"
      using eq ConfigKey b by simp
    then show ?thesis
      using ConfigKey b by (simp add: decode_getConfigKey)
  qed (use eq in \<open>(cases b; auto simp: key_defs dest: put32_inj put_big64_inj)+\<close>)
qed simp

section \<open>The typed tables\<close>

definition stored_version :: "string \<Rightarrow> RoutingInfoVersion" where
  "stored_version bytes = of_nat (le_value bytes)"

record abs_store =
  st_lease :: "MgmtdLeaseInfo option"
  st_version :: "RoutingInfoVersion option"
  st_nodes :: "NodeId \<rightharpoonup> PersistentNodeInfo"
  st_chainTables :: "ChainTableId \<times> ChainTableVersion \<rightharpoonup> ChainTable"
  st_chains :: "ChainId \<rightharpoonup> ChainInfo"
  st_targets :: "TargetId \<rightharpoonup> TargetInfo"
  st_tags :: "string \<rightharpoonup> TagPair list"
  st_configs :: "NodeType \<times> ConfigVersion \<rightharpoonup> ConfigInfo"

definition lookup :: "(stored \<Rightarrow> 'a option) \<Rightarrow> kv \<Rightarrow> skey \<Rightarrow> 'a option" where
  "lookup un kv k = Option.bind (map_of kv (key_of k)) un"

definition abs_store :: "kv \<Rightarrow> abs_store" where
  "abs_store kv = \<lparr>
     st_lease = lookup as_lease kv LeaseKey,
     st_version = map_option stored_version (lookup as_raw kv VersionKey),
     st_nodes = (\<lambda>i. lookup as_node kv (NodeKey i)),
     st_chainTables = (\<lambda>(i, v). lookup as_chainTable kv (ChainTableKey i v)),
     st_chains = (\<lambda>i. lookup as_chain kv (ChainKey i)),
     st_targets = (\<lambda>i. lookup as_target kv (TargetKey i)),
     st_tags = (\<lambda>i. if i = [] then None else lookup as_tags kv (TagsKey i)),
     st_configs = (\<lambda>(ty, v). lookup as_config kv (ConfigKey ty v))\<rparr>"

text \<open>Every entry of the manager's tables holds the struct of its table under the struct's own key;
  the other keys of the store belong to other services.\<close>

fun entry_ok :: "string \<Rightarrow> stored \<Rightarrow> bool" where
  "entry_ok k (SNode n) \<longleftrightarrow> k = getNodeKey (pn_nodeId n)"
| "entry_ok k (SLease _) \<longleftrightarrow> k = getMgmtdLeaseKey"
| "entry_ok k (SChainTable t) \<longleftrightarrow> k = getChainTableKey (ct_chainTableId t) (ct_chainTableVersion t)"
| "entry_ok k (SChain c) \<longleftrightarrow> k = getChainInfoKey (ci_chainId c)"
| "entry_ok k (SConfig c) \<longleftrightarrow> k \<in> (\<lambda>ty. getConfigKey ty (cfg_configVersion c)) ` set all_NodeTypes"
| "entry_ok k (STags _) \<longleftrightarrow> prefix (toStr KP_UniversalTags) k \<and> length k > 4"
| "entry_ok k (STarget t) \<longleftrightarrow> k = getTargetInfoKey (ti_targetId t)"
| "entry_ok k (SRaw b) \<longleftrightarrow>
     (if k = getRoutingInfoVersionKey then length b = 8
      else k \<noteq> getMgmtdLeaseKey \<and> take 4 k \<notin> toStr ` {KP_NodeTable, KP_ChainTable, KP_ChainInfo, KP_TargetInfo,
        KP_UniversalTags, KP_Config})"

definition kv_ok :: "kv \<Rightarrow> bool" where
  "kv_ok kv \<longleftrightarrow> omap_wf kv \<and> (\<forall>e \<in> set kv. entry_ok (fst e) (snd e))"

lemma kv_ok_Nil [simp]: "kv_ok []"
  by (simp add: kv_ok_def)

lemma kv_ok_wf: "kv_ok kv \<Longrightarrow> omap_wf kv"
  by (simp add: kv_ok_def)

lemma set_omap_put: "set (omap_put k v m) \<subseteq> insert (k, v) (set m)"
  by (induction m) (auto split: if_splits)

lemma kv_ok_put: "kv_ok kv \<Longrightarrow> entry_ok k v \<Longrightarrow> kv_ok (omap_put k v kv)"
  using set_omap_put [of k v kv] by (auto simp: kv_ok_def)

lemma kv_ok_erase: "kv_ok kv \<Longrightarrow> kv_ok (omap_erase k kv)"
  by (auto simp: kv_ok_def omap_erase_def)

lemma in_all_NodeTypes [simp]: "ty \<in> set all_NodeTypes"
  by (cases ty) (simp_all add: all_NodeTypes_def)

lemmas op_defs = storeMgmtdLeaseInfo_def storeNodeInfo_def clearNodeInfo_def storeRoutingInfoVersion_def
  storeConfig_def storeChainTable_def storeChainInfo_def storeTargetInfo_def clearTargetInfo_def

lemma store_ok [simp, intro]:
  assumes "kv_ok kv"
  shows "kv_ok (storeMgmtdLeaseInfo lease kv)" "kv_ok (storeNodeInfo node kv)" "kv_ok (clearNodeInfo nid kv)"
    "kv_ok (storeRoutingInfoVersion ver kv)" "kv_ok (storeConfig ty cfg kv)" "kv_ok (storeChainTable tab kv)"
    "kv_ok (storeChainInfo chain kv)" "kv_ok (storeTargetInfo ti kv)" "kv_ok (clearTargetInfo tid kv)"
  by (auto simp: op_defs assms intro!: kv_ok_put kv_ok_erase)

lemma tags_ok:
  assumes "kv_ok kv"
  shows "storeUniversalTags i tags kv = Inr kv' \<Longrightarrow> kv_ok kv'" "clearUniversalTags i kv = Inr kv' \<Longrightarrow> kv_ok kv'"
  using assms by (auto simp: storeUniversalTags_def clearUniversalTags_def getKeyForUniversalTags_def
      intro!: kv_ok_put kv_ok_erase split: if_splits)

lemmas keys_as_skey = key_of.simps [symmetric]

lemma lookup_put [simp]:
  "lookup un (omap_put (key_of k) v kv) k' = (if k' = k then un v else lookup un kv k')"
  by (simp add: lookup_def)

lemma lookup_erase [simp]: "lookup un (omap_erase (key_of k) kv) k' = (if k' = k then None else lookup un kv k')"
  by (simp add: lookup_def)

lemma stored_version_put [simp]: "stored_version (put64 v) = v"
  by (simp add: stored_version_def put64_def of_nat_le_value)

lemma abs_store_Nil [simp]:
  "abs_store [] = \<lparr>st_lease = None, st_version = None, st_nodes = Map.empty, st_chainTables = Map.empty,
     st_chains = Map.empty, st_targets = Map.empty, st_tags = Map.empty, st_configs = Map.empty\<rparr>"
  by (simp add: abs_store_def lookup_def fun_eq_iff)

lemma abs_store_ops [simp]:
  "abs_store (storeMgmtdLeaseInfo lease kv) = (abs_store kv)\<lparr>st_lease := Some lease\<rparr>"
  "abs_store (storeRoutingInfoVersion ver kv) = (abs_store kv)\<lparr>st_version := Some ver\<rparr>"
  "abs_store (storeNodeInfo node kv) = (abs_store kv)\<lparr>st_nodes := (st_nodes (abs_store kv))(pn_nodeId node \<mapsto> node)\<rparr>"
  "abs_store (clearNodeInfo nid kv) = (abs_store kv)\<lparr>st_nodes := (st_nodes (abs_store kv))(nid := None)\<rparr>"
  "abs_store (storeConfig ty cfg kv) = (abs_store kv)\<lparr>st_configs :=
     (st_configs (abs_store kv))((ty, cfg_configVersion cfg) \<mapsto> cfg)\<rparr>"
  "abs_store (storeChainTable tab kv) = (abs_store kv)\<lparr>st_chainTables :=
     (st_chainTables (abs_store kv))((ct_chainTableId tab, ct_chainTableVersion tab) \<mapsto> tab)\<rparr>"
  "abs_store (storeChainInfo chain kv) = (abs_store kv)\<lparr>st_chains := (st_chains (abs_store kv))(ci_chainId chain \<mapsto> chain)\<rparr>"
  "abs_store (storeTargetInfo ti kv) = (abs_store kv)\<lparr>st_targets := (st_targets (abs_store kv))(ti_targetId ti \<mapsto> ti)\<rparr>"
  "abs_store (clearTargetInfo tid kv) = (abs_store kv)\<lparr>st_targets := (st_targets (abs_store kv))(tid := None)\<rparr>"
  unfolding op_defs abs_store_def keys_as_skey lookup_put lookup_erase
  by (simp_all add: fun_eq_iff)

lemma abs_store_tags:
  "storeUniversalTags i tags kv =
     (if i = [] then Inl (Common kInvalidArg) else Inr (omap_put (key_of (TagsKey i)) (STags tags) kv))"
  "i \<noteq> [] \<Longrightarrow> abs_store (omap_put (key_of (TagsKey i)) (STags tags) kv) =
     (abs_store kv)\<lparr>st_tags := (st_tags (abs_store kv))(i \<mapsto> tags)\<rparr>"
  "clearUniversalTags i kv =
     (if i = [] then Inl (Common kInvalidArg) else Inr (omap_erase (key_of (TagsKey i)) kv))"
  "i \<noteq> [] \<Longrightarrow> abs_store (omap_erase (key_of (TagsKey i)) kv) =
     (abs_store kv)\<lparr>st_tags := (st_tags (abs_store kv))(i := None)\<rparr>"
  unfolding abs_store_def lookup_put lookup_erase
  by (simp_all add: fun_eq_iff storeUniversalTags_def clearUniversalTags_def)

section \<open>Listings\<close>

lemma unpack_list_all: "\<forall>e \<in> set es. f e = Inr (g e) \<Longrightarrow> unpack_list f es = Inr (map g es)"
  by (induction es) auto

lemma prefix_table: "prefix (toStr p) s \<longleftrightarrow> take 4 s = toStr p"
  by (metis append_eq_conv_conj length_toStr prefix_def take_is_prefix)

lemma entry_table:
  assumes "kv_ok kv" and "e \<in> set kv" and "prefix (toStr p) (fst e)"
  shows "p = KP_NodeTable \<Longrightarrow> \<exists>n. e = (getNodeKey (pn_nodeId n), SNode n)"
    and "p = KP_ChainTable \<Longrightarrow> \<exists>t. e = (getChainTableKey (ct_chainTableId t) (ct_chainTableVersion t), SChainTable t)"
    and "p = KP_ChainInfo \<Longrightarrow> \<exists>c. e = (getChainInfoKey (ci_chainId c), SChain c)"
    and "p = KP_TargetInfo \<Longrightarrow> \<exists>t. e = (getTargetInfoKey (ti_targetId t), STarget t)"
    and "p = KP_UniversalTags \<Longrightarrow> \<exists>i ts. i \<noteq> [] \<and> e = (getKeyForUniversalTags i, STags ts)"
    and "p = KP_Config \<Longrightarrow> \<exists>ty c. e = (getConfigKey ty (cfg_configVersion c), SConfig c)"
proof -
  obtain k v where e: "e = (k, v)" by fastforce
  have ok: "entry_ok k v" and pre: "take 4 k = toStr p"
    using assms by (auto simp: kv_ok_def e prefix_table)
  note facts = ok pre e
  show "\<exists>n. e = (getNodeKey (pn_nodeId n), SNode n)" if "p = KP_NodeTable"
    using facts that by (cases v) (auto simp: key_defs prefix_table toStr_inject simp del: toStr.simps split: if_splits)
  show "\<exists>t. e = (getChainTableKey (ct_chainTableId t) (ct_chainTableVersion t), SChainTable t)" if "p = KP_ChainTable"
    using facts that by (cases v) (auto simp: key_defs prefix_table toStr_inject simp del: toStr.simps split: if_splits)
  show "\<exists>c. e = (getChainInfoKey (ci_chainId c), SChain c)" if "p = KP_ChainInfo"
    using facts that by (cases v) (auto simp: key_defs prefix_table toStr_inject simp del: toStr.simps split: if_splits)
  show "\<exists>t. e = (getTargetInfoKey (ti_targetId t), STarget t)" if "p = KP_TargetInfo"
    using facts that by (cases v) (auto simp: key_defs prefix_table toStr_inject simp del: toStr.simps split: if_splits)
  show "\<exists>ty c. e = (getConfigKey ty (cfg_configVersion c), SConfig c)" if "p = KP_Config"
    using facts that by (cases v) (auto simp: key_defs prefix_table toStr_inject simp del: toStr.simps split: if_splits)
  show "\<exists>i ts. i \<noteq> [] \<and> e = (getKeyForUniversalTags i, STags ts)" if "p = KP_UniversalTags"
  proof (cases v)
    case (STags ts)
    with ok e have "prefix (toStr KP_UniversalTags) k" "length k > 4" by simp_all
    then show ?thesis
      by (intro exI [of _ "drop 4 k"] exI [of _ ts]) (auto simp: e STags getKeyForUniversalTags_def prefix_def)
  qed (use facts that in \<open>auto simp: key_defs prefix_table toStr_inject simp del: toStr.simps split: if_splits\<close>)
qed

text \<open>A list of the entries of one table, with the index of each, is the table.\<close>

lemma map_of_eq_table:
  assumes "\<And>e. e \<in> set es \<Longrightarrow> T (idx e) = Some (val e)"
    and "\<And>i x. T i = Some x \<Longrightarrow> \<exists>e \<in> set es. idx e = i \<and> val e = x"
  shows "map_of (map (\<lambda>e. (idx e, val e)) es) = T"
proof
  fix i
  show "map_of (map (\<lambda>e. (idx e, val e)) es) i = T i"
  proof (cases "map_of (map (\<lambda>e. (idx e, val e)) es) i")
    case None
    then show ?thesis
      using assms(2) [of i] by (cases "T i") (force simp: map_of_eq_None_iff)+
  next
    case (Some x)
    from map_of_SomeD [OF this] show ?thesis
      using assms(1) Some by auto
  qed
qed

lemma list_prefix_set: "e \<in> set (list_prefix p kv) \<longleftrightarrow> e \<in> set kv \<and> prefix p (fst e)"
  by (simp add: list_prefix_def)

lemma kv_ok_lookup: "kv_ok kv \<Longrightarrow> (key_of k, v) \<in> set kv \<Longrightarrow> lookup un kv k = un v"
  by (simp add: lookup_def kv_ok_wf omap_wf_map_of)

lemma lookup_SomeD: "lookup un kv k = Some x \<Longrightarrow> \<exists>v. (key_of k, v) \<in> set kv \<and> un v = Some x"
  by (auto simp: lookup_def bind_eq_Some_conv dest: map_of_SomeD)

lemma prefix_key_of: "prefix (toStr p) (key_of k) \<longleftrightarrow> p = table_prefix k"
  by (auto simp: prefix_table take_key_of toStr_inject)

lemma distinct_index:
  assumes "omap_wf kv" and "\<And>e. e \<in> set es \<Longrightarrow> fst e = K (idx e)" and "set es \<subseteq> set kv" and "distinct es"
  shows "distinct (map idx es)"
  unfolding distinct_map
proof
  show "inj_on idx (set es)"
    using assms(2,3) omap_wf_distinct [OF assms(1)]
    by (intro inj_onI) (metis eq_key_imp_eq_value prod.collapse subsetD)
qed (fact assms(4))

lemma distinct_list_prefix: "omap_wf kv \<Longrightarrow> distinct (list_prefix p kv)"
  using omap_wf_distinct [of kv] by (auto simp: list_prefix_def distinct_map)

text \<open>The common argument: a listing whose entries all have the form of one table.\<close>

lemma listing:
  assumes ok: "kv_ok kv"
    and form: "\<And>e. e \<in> set (list_prefix p kv) \<Longrightarrow> \<exists>x. e = (key_of (K (idx x)), V (pr x)) \<and> f e = Inr x"
    and un: "\<And>y v. un v = Some y \<longleftrightarrow> v = V y"
    and pre: "\<And>i. prefix p (key_of (K i))"
    and inj: "\<And>i j. K i = K j \<Longrightarrow> i = j"
  shows "\<exists>xs. unpack_list f (list_prefix p kv) = Inr xs \<and>
    map_of (map (\<lambda>x. (idx x, pr x)) xs) = (\<lambda>i. lookup un kv (K i)) \<and> distinct (map idx xs)"
proof -
  define val where "val e = (case f e of Inr x \<Rightarrow> x)" for e
  have val: "e = (key_of (K (idx (val e))), V (pr (val e))) \<and> f e = Inr (val e)"
    if "e \<in> set (list_prefix p kv)" for e
    using form [OF that] by (auto simp: val_def)
  have all: "unpack_list f (list_prefix p kv) = Inr (map val (list_prefix p kv))"
    using val by (intro unpack_list_all) blast
  have "map_of (map (\<lambda>e. (idx (val e), pr (val e))) (list_prefix p kv)) = (\<lambda>i. lookup un kv (K i))"
  proof (rule map_of_eq_table)
    fix e
    assume e: "e \<in> set (list_prefix p kv)"
    then have "(key_of (K (idx (val e))), V (pr (val e))) \<in> set kv"
      using val [OF e] by (simp add: list_prefix_set)
    then show "lookup un kv (K (idx (val e))) = Some (pr (val e))"
      using kv_ok_lookup [OF ok] un by metis
  next
    fix i x
    assume "lookup un kv (K i) = Some x"
    then obtain v where v: "(key_of (K i), v) \<in> set kv" "v = V x"
      using lookup_SomeD un by metis
    then have "(key_of (K i), v) \<in> set (list_prefix p kv)"
      using pre by (simp add: list_prefix_set)
    from val [OF this] v(2) un inj have "idx (val (key_of (K i), v)) = i \<and> pr (val (key_of (K i), v)) = x"
      by (metis fst_conv key_of_inject option.inject snd_conv)
    with \<open>(key_of (K i), v) \<in> set (list_prefix p kv)\<close>
    show "\<exists>e \<in> set (list_prefix p kv). idx (val e) = i \<and> pr (val e) = x"
      by blast
  qed
  moreover have "distinct (map (idx \<circ> val) (list_prefix p kv))"
    using kv_ok_wf [OF ok] val
    by (intro distinct_index [where K = "\<lambda>i. key_of (K i)"])
      (fastforce simp: list_prefix_set distinct_list_prefix)+
  ultimately show ?thesis
    using all by (auto simp: comp_def)
qed

lemma as_Some:
  "as_node v = Some n \<longleftrightarrow> v = SNode n" "as_lease v = Some l \<longleftrightarrow> v = SLease l"
  "as_chainTable v = Some t \<longleftrightarrow> v = SChainTable t" "as_chain v = Some c \<longleftrightarrow> v = SChain c"
  "as_config v = Some g \<longleftrightarrow> v = SConfig g" "as_tags v = Some ts \<longleftrightarrow> v = STags ts"
  "as_target v = Some ti \<longleftrightarrow> v = STarget ti" "as_raw v = Some b \<longleftrightarrow> v = SRaw b"
  by (cases v; auto)+

lemma loadAllNodes_ok:
  assumes "kv_ok kv"
  shows "\<exists>ns. loadAllNodes kv = Inr ns \<and> map_of (map (\<lambda>n. (pn_nodeId n, n)) ns) = st_nodes (abs_store kv) \<and>
    distinct (map pn_nodeId ns)"
proof -
  have "\<exists>n. e = (key_of (NodeKey (pn_nodeId n)), SNode n) \<and> unpack_node e = Inr n"
    if "e \<in> set (list_prefix (toStr KP_NodeTable) kv)" for e
    using entry_table(1) [OF assms, of e KP_NodeTable] that
    by (auto simp: list_prefix_set unpack_node_def extract_getNodeKey corrupt_def)
  from listing [where p = "toStr KP_NodeTable" and K = NodeKey and pr = "\<lambda>n. n", OF assms this as_Some(1)] show ?thesis
    by (simp add: loadAllNodes_def abs_store_def prefix_key_of del: key_of.simps toStr.simps)
qed

lemma loadAllChainTables_ok:
  assumes "kv_ok kv"
  shows "\<exists>ts. loadAllChainTables kv = Inr ts \<and>
    map_of (map (\<lambda>t. ((ct_chainTableId t, ct_chainTableVersion t), t)) ts) = st_chainTables (abs_store kv) \<and>
    distinct (map (\<lambda>t. (ct_chainTableId t, ct_chainTableVersion t)) ts)"
proof -
  have "\<exists>t. e = (key_of (ChainTableKey (fst (ct_chainTableId t, ct_chainTableVersion t)) (snd (ct_chainTableId t, ct_chainTableVersion t))), SChainTable t) \<and>
      corrupt (as_chainTable (snd e)) = Inr t"
    if "e \<in> set (list_prefix (toStr KP_ChainTable) kv)" for e
    using entry_table(2) [OF assms, of e KP_ChainTable] that by (auto simp: list_prefix_set corrupt_def)
  from listing [where p = "toStr KP_ChainTable" and K = "\<lambda>iv. ChainTableKey (fst iv) (snd iv)" and pr = "\<lambda>t. t"
      and idx = "\<lambda>t. (ct_chainTableId t, ct_chainTableVersion t)", OF assms this as_Some(3)] show ?thesis
    by (simp add: loadAllChainTables_def abs_store_def prefix_key_of case_prod_unfold prod_eq_iff del: key_of.simps toStr.simps)
qed

lemma loadAllChains_ok:
  assumes "kv_ok kv"
  shows "\<exists>cs. loadAllChains kv = Inr cs \<and> map_of (map (\<lambda>c. (ci_chainId c, c)) cs) = st_chains (abs_store kv) \<and>
    distinct (map ci_chainId cs)"
proof -
  have "\<exists>c. e = (key_of (ChainKey (ci_chainId c)), SChain c) \<and> corrupt (as_chain (snd e)) = Inr c"
    if "e \<in> set (list_prefix (toStr KP_ChainInfo) kv)" for e
    using entry_table(3) [OF assms, of e KP_ChainInfo] that by (auto simp: list_prefix_set corrupt_def)
  from listing [where p = "toStr KP_ChainInfo" and K = ChainKey and pr = "\<lambda>c. c", OF assms this as_Some(4)] show ?thesis
    by (simp add: loadAllChains_def abs_store_def prefix_key_of del: key_of.simps toStr.simps)
qed

lemma loadAllConfigs_ok:
  assumes "kv_ok kv"
  shows "\<exists>cs. loadAllConfigs kv = Inr cs \<and>
    map_of (map (\<lambda>(ty, c). ((ty, cfg_configVersion c), c)) cs) = st_configs (abs_store kv) \<and>
    distinct (map (\<lambda>(ty, c). (ty, cfg_configVersion c)) cs)"
proof -
  have "\<exists>x. e = (key_of (ConfigKey (fst (fst x, cfg_configVersion (snd x))) (snd (fst x, cfg_configVersion (snd x)))), SConfig (snd x)) \<and>
      unpackConfigInfo None e = Inr x"
    if "e \<in> set (list_prefix (toStr KP_Config) kv)" for e
    using entry_table(6) [OF assms, of e KP_Config] that
    by (auto simp: list_prefix_set unpackConfigInfo_def decode_getConfigKey corrupt_def)
  from listing [where p = "toStr KP_Config" and K = "\<lambda>tv. ConfigKey (fst tv) (snd tv)" and pr = snd
      and idx = "\<lambda>x. (fst x, cfg_configVersion (snd x))", OF assms this as_Some(5)] show ?thesis
    by (simp add: loadAllConfigs_def abs_store_def prefix_key_of case_prod_unfold prod_eq_iff del: key_of.simps toStr.simps)
qed

lemma loadAllUniversalTags_ok:
  assumes "kv_ok kv"
  shows "\<exists>ts. loadAllUniversalTags kv = Inr ts \<and> map_of ts = st_tags (abs_store kv) \<and> distinct (map fst ts)"
proof -
  have form: "\<exists>x. e = (key_of (TagsKey (fst x)), STags (snd x)) \<and> unpack_tags e = Inr x"
    if "e \<in> set (list_prefix (toStr KP_UniversalTags) kv)" for e
    using entry_table(5) [OF assms, of e KP_UniversalTags] that
    by (auto simp: list_prefix_set unpack_tags_def corrupt_def getKeyForUniversalTags_def)
  have "lookup as_tags kv (TagsKey []) = None"
  proof (rule ccontr)
    assume "lookup as_tags kv (TagsKey []) \<noteq> None"
    then obtain v ts where "(key_of (TagsKey []), v) \<in> set kv" "as_tags v = Some ts"
      using lookup_SomeD by fastforce
    with assms show False
      by (auto simp: kv_ok_def as_Some getKeyForUniversalTags_def)
  qed
  then have "(\<lambda>i. lookup as_tags kv (TagsKey i)) = st_tags (abs_store kv)"
    by (auto simp: abs_store_def)
  with listing [where p = "toStr KP_UniversalTags" and K = TagsKey and idx = fst and pr = snd, OF assms form as_Some(6)] show ?thesis
    by (simp add: loadAllUniversalTags_def prefix_key_of del: key_of.simps toStr.simps)
qed

section \<open>Refinement of the typed tables\<close>

text \<open>The updates of a transaction and what they do to the tables.\<close>

datatype store_op =
    OpLease MgmtdLeaseInfo
  | OpVersion RoutingInfoVersion
  | OpNode PersistentNodeInfo
  | OpClearNode NodeId
  | OpConfig NodeType ConfigInfo
  | OpChainTable ChainTable
  | OpChain ChainInfo
  | OpTarget TargetInfo
  | OpClearTarget TargetId
  | OpTags string "TagPair list"
  | OpClearTags string

fun run_op :: "store_op \<Rightarrow> kv \<Rightarrow> kv" where
  "run_op (OpLease l) kv = storeMgmtdLeaseInfo l kv"
| "run_op (OpVersion v) kv = storeRoutingInfoVersion v kv"
| "run_op (OpNode n) kv = storeNodeInfo n kv"
| "run_op (OpClearNode i) kv = clearNodeInfo i kv"
| "run_op (OpConfig ty c) kv = storeConfig ty c kv"
| "run_op (OpChainTable t) kv = storeChainTable t kv"
| "run_op (OpChain c) kv = storeChainInfo c kv"
| "run_op (OpTarget t) kv = storeTargetInfo t kv"
| "run_op (OpClearTarget i) kv = clearTargetInfo i kv"
| "run_op (OpTags i ts) kv = (case storeUniversalTags i ts kv of Inl _ \<Rightarrow> kv | Inr kv' \<Rightarrow> kv')"
| "run_op (OpClearTags i) kv = (case clearUniversalTags i kv of Inl _ \<Rightarrow> kv | Inr kv' \<Rightarrow> kv')"

fun spec_op :: "store_op \<Rightarrow> abs_store \<Rightarrow> abs_store" where
  "spec_op (OpLease l) a = a\<lparr>st_lease := Some l\<rparr>"
| "spec_op (OpVersion v) a = a\<lparr>st_version := Some v\<rparr>"
| "spec_op (OpNode n) a = a\<lparr>st_nodes := (st_nodes a)(pn_nodeId n \<mapsto> n)\<rparr>"
| "spec_op (OpClearNode i) a = a\<lparr>st_nodes := (st_nodes a)(i := None)\<rparr>"
| "spec_op (OpConfig ty c) a = a\<lparr>st_configs := (st_configs a)((ty, cfg_configVersion c) \<mapsto> c)\<rparr>"
| "spec_op (OpChainTable t) a =
     a\<lparr>st_chainTables := (st_chainTables a)((ct_chainTableId t, ct_chainTableVersion t) \<mapsto> t)\<rparr>"
| "spec_op (OpChain c) a = a\<lparr>st_chains := (st_chains a)(ci_chainId c \<mapsto> c)\<rparr>"
| "spec_op (OpTarget t) a = a\<lparr>st_targets := (st_targets a)(ti_targetId t \<mapsto> t)\<rparr>"
| "spec_op (OpClearTarget i) a = a\<lparr>st_targets := (st_targets a)(i := None)\<rparr>"
| "spec_op (OpTags i ts) a = (if i = [] then a else a\<lparr>st_tags := (st_tags a)(i \<mapsto> ts)\<rparr>)"
| "spec_op (OpClearTags i) a = (if i = [] then a else a\<lparr>st_tags := (st_tags a)(i := None)\<rparr>)"

lemma run_op_refines: "kv_ok kv \<Longrightarrow> kv_ok (run_op p kv) \<and> abs_store (run_op p kv) = spec_op p (abs_store kv)"
proof (cases p)
  case (OpTags i ts)
  assume ok: "kv_ok kv"
  from tags_ok(1) [OF ok, of i ts] OpTags ok show ?thesis
    by (simp add: abs_store_tags del: key_of.simps)
next
  case (OpClearTags i)
  assume ok: "kv_ok kv"
  from tags_ok(2) [OF ok, of i] OpClearTags ok show ?thesis
    by (simp add: abs_store_tags del: key_of.simps)
qed simp_all

lemma run_ops_refine:
  assumes "kv_ok kv"
  shows "kv_ok (fold run_op ops kv) \<and> abs_store (fold run_op ops kv) = fold spec_op ops (abs_store kv)"
  using assms by (induction ops arbitrary: kv) (simp_all add: run_op_refines)

lemma load_as_lookup:
  assumes "\<And>v. (key_of k, v) \<in> set kv \<Longrightarrow> un v \<noteq> None"
  shows "load_as un (key_of k) kv = Inr (lookup un kv k)"
proof (cases "map_of kv (key_of k)")
  case (Some v)
  from assms [OF map_of_SomeD [OF this]] Some show ?thesis
    by (auto simp: load_as_def lookup_def corrupt_def)
qed (simp add: load_as_def lookup_def)

lemma kv_ok_at:
  assumes "kv_ok kv" and "(key_of k, v) \<in> set kv"
  shows "k = LeaseKey \<Longrightarrow> as_lease v \<noteq> None" "k = NodeKey i \<Longrightarrow> as_node v \<noteq> None"
    "k = TargetKey j \<Longrightarrow> as_target v \<noteq> None" "k = ConfigKey ty ver \<Longrightarrow> as_config v \<noteq> None"
    "k = VersionKey \<Longrightarrow> \<exists>b. as_raw v = Some b \<and> length b = 8"
    "k = TagsKey s \<Longrightarrow> as_tags v \<noteq> None"
proof -
  have ok: "entry_ok (key_of k) v"
    using assms by (auto simp: kv_ok_def)
  note facts = ok take_key_of [of k]
  show "as_lease v \<noteq> None" if "k = LeaseKey"
    using facts that unfolding that
    by (cases v) (auto simp: keys_as_skey prefix_table toStr_inject simp del: toStr.simps key_of.simps split: if_splits)
  show "as_node v \<noteq> None" if "k = NodeKey i"
    using facts that unfolding that
    by (cases v) (auto simp: keys_as_skey prefix_table toStr_inject simp del: toStr.simps key_of.simps split: if_splits)
  show "as_target v \<noteq> None" if "k = TargetKey j"
    using facts that unfolding that
    by (cases v) (auto simp: keys_as_skey prefix_table toStr_inject simp del: toStr.simps key_of.simps split: if_splits)
  show "as_config v \<noteq> None" if "k = ConfigKey ty ver"
    using facts that unfolding that
    by (cases v) (auto simp: keys_as_skey prefix_table toStr_inject simp del: toStr.simps key_of.simps split: if_splits)
  show "as_tags v \<noteq> None" if "k = TagsKey s"
    using facts that unfolding that
    by (cases v) (auto simp: keys_as_skey prefix_table toStr_inject simp del: toStr.simps key_of.simps split: if_splits)
  show "\<exists>b. as_raw v = Some b \<and> length b = 8" if "k = VersionKey"
    using facts that unfolding that
    by (cases v) (auto simp: keys_as_skey prefix_table toStr_inject simp del: toStr.simps key_of.simps split: if_splits)
qed

lemma loads_ok:
  assumes "kv_ok kv"
  shows "loadMgmtdLeaseInfo kv = Inr (st_lease (abs_store kv))"
    and "loadNodeInfo i kv = Inr (st_nodes (abs_store kv) i)"
    and "loadTargetInfo j kv = Inr (st_targets (abs_store kv) j)"
    and "loadConfig ty ver kv = Inr (st_configs (abs_store kv) (ty, ver))"
  unfolding loadMgmtdLeaseInfo_def loadNodeInfo_def loadTargetInfo_def loadConfig_def keys_as_skey abs_store_def
  using kv_ok_at [OF assms] by (subst load_as_lookup; auto)+

lemma loadRoutingInfoVersion_ok:
  assumes "kv_ok kv"
  shows "loadRoutingInfoVersion kv = Inr (case st_version (abs_store kv) of None \<Rightarrow> 0 | Some v \<Rightarrow> v)"
proof (cases "map_of kv (key_of VersionKey)")
  case None
  then show ?thesis
    by (simp add: loadRoutingInfoVersion_def load_as_def abs_store_def lookup_def)
next
  case (Some v)
  then obtain b where b: "as_raw v = Some b" "length b = 8"
    using kv_ok_at(5) [OF assms map_of_SomeD [OF Some]] by blast
  then have "get64 b = Inr (stored_version b, [])"
    by (simp add: get64_def getRaw_def stored_version_def)
  with b Some show ?thesis
    by (simp add: loadRoutingInfoVersion_def load_as_def abs_store_def lookup_def corrupt_def)
qed

lemma loadUniversalTags_ok:
  assumes "kv_ok kv" and "i \<noteq> []"
  shows "loadUniversalTags i kv = Inr (case st_tags (abs_store kv) i of None \<Rightarrow> [] | Some ts \<Rightarrow> ts)"
  using assms(2) kv_ok_at(6) [OF assms(1)]
  by (simp add: loadUniversalTags_def keys_as_skey load_as_lookup abs_store_def split: option.split del: key_of.simps)

section \<open>Properties\<close>

definition sample_node :: "NodeId \<Rightarrow> PersistentNodeInfo" where
  "sample_node i = \<lparr>pn_nodeId = i, pn_type = STORAGE, pn_serviceGroups = [], pn_tags = [], pn_hostname = ''h''\<rparr>"

definition sample_config :: "ConfigVersion \<Rightarrow> ConfigInfo" where
  "sample_config v = \<lparr>cfg_configVersion = v, cfg_content = ''c'', cfg_desc = []\<rparr>"

text \<open>
  C22: the store of byte keys implements the typed tables. After any sequence of updates from a
  well-formed store the store is well-formed, each update has changed exactly its own entry of its own
  table, and loading an entry or listing a table returns what the table holds. The latest configuration
  and the pages of targets have theorems of their own.
\<close>

theorem store_refines_tables:
  assumes "kv_ok kv"
  shows "let kv' = fold run_op ops kv; T = fold spec_op ops (abs_store kv)
    in kv_ok kv' \<and> abs_store kv' = T \<and>
       loadMgmtdLeaseInfo kv' = Inr (st_lease T) \<and>
       loadRoutingInfoVersion kv' = Inr (case st_version T of None \<Rightarrow> 0 | Some v \<Rightarrow> v) \<and>
       (\<forall>i. loadNodeInfo i kv' = Inr (st_nodes T i)) \<and>
       (\<forall>i. loadTargetInfo i kv' = Inr (st_targets T i)) \<and>
       (\<forall>ty v. loadConfig ty v kv' = Inr (st_configs T (ty, v))) \<and>
       (\<forall>i. i \<noteq> [] \<longrightarrow> loadUniversalTags i kv' = Inr (case st_tags T i of None \<Rightarrow> [] | Some ts \<Rightarrow> ts)) \<and>
       (\<exists>ns. loadAllNodes kv' = Inr ns \<and> map_of (map (\<lambda>n. (pn_nodeId n, n)) ns) = st_nodes T) \<and>
       (\<exists>cs. loadAllChains kv' = Inr cs \<and> map_of (map (\<lambda>c. (ci_chainId c, c)) cs) = st_chains T) \<and>
       (\<exists>ts. loadAllChainTables kv' = Inr ts \<and>
          map_of (map (\<lambda>t. ((ct_chainTableId t, ct_chainTableVersion t), t)) ts) = st_chainTables T) \<and>
       (\<exists>cs. loadAllConfigs kv' = Inr cs \<and>
          map_of (map (\<lambda>(ty, c). ((ty, cfg_configVersion c), c)) cs) = st_configs T) \<and>
       (\<exists>ts. loadAllUniversalTags kv' = Inr ts \<and> map_of ts = st_tags T)"
proof -
  have ok: "kv_ok (fold run_op ops kv)" and T: "abs_store (fold run_op ops kv) = fold spec_op ops (abs_store kv)"
    using run_ops_refine [OF assms] by blast+
  show ?thesis
    unfolding Let_def T [symmetric]
    using ok loads_ok [OF ok] loadRoutingInfoVersion_ok [OF ok] loadAllNodes_ok [OF ok] loadAllChains_ok [OF ok]
      loadAllChainTables_ok [OF ok] loadAllConfigs_ok [OF ok] loadUniversalTags_ok [OF ok] loadAllUniversalTags_ok [OF ok]
    by blast
qed

theorem store_refines_tables_witness:
  "loadNodeInfo 1 (fold run_op [OpNode (sample_node 1), OpNode (sample_node 2), OpClearNode 2] []) = Inr (Some (sample_node 1)) \<and>
   loadNodeInfo 2 (fold run_op [OpNode (sample_node 1), OpNode (sample_node 2), OpClearNode 2] []) = Inr None"
  using store_refines_tables [OF kv_ok_Nil, of "[OpNode (sample_node 1), OpNode (sample_node 2), OpClearNode 2]"]
  unfolding Let_def by (simp add: sample_node_def)

lemma reversed_version_less: "(- 1 - v < - 1 - w) = (w < (v :: 64 word))"
proof -
  have "v \<le> - 1" "w \<le> - 1"
    by simp_all
  then have "unat (- 1 - v) = unat (- 1 :: 64 word) - unat v" "unat (- 1 - w) = unat (- 1 :: 64 word) - unat w"
    by (simp_all only: unat_sub)
  moreover have "unat v \<le> unat (- 1 :: 64 word)" "unat w \<le> unat (- 1 :: 64 word)"
    using \<open>v \<le> - 1\<close> \<open>w \<le> - 1\<close> by (simp_all only: word_le_nat_alt)
  ultimately show ?thesis
    unfolding word_less_nat_alt by linarith
qed

lemma getConfigKey_less: "getConfigKey ty v < getConfigKey ty w \<longleftrightarrow> w < v"
  unfolding getConfigKey_def less_append_same put_big64_less by (rule reversed_version_less)

text \<open>
  The key of a configuration decodes to its node type and version, whatever the version, and for
  one node type the keys are ordered from the latest version to the oldest.
\<close>

lemma config_key_roundtrip:
  "decodeConfigKey (getConfigKey ty v) = Inr (ty, v) \<and>
   (getConfigKey ty v < getConfigKey ty w) = (w < v) \<and>
   (getConfigKey ty v = getConfigKey ty' w) = (ty = ty' \<and> v = w)"
  using key_of_inject [of "ConfigKey ty v" "ConfigKey ty' w"]
  by (simp add: decode_getConfigKey getConfigKey_less)

lemma getConfigKey_prefix: "getConfigKey ty v = getConfigKeyPrefix ty @ put_big64 (- 1 - v)"
  by (simp add: getConfigKey_def getConfigKeyPrefix_def)

lemma prefix_getConfigKey: "prefix (getConfigKeyPrefix ty) (getConfigKey ty' v) \<longleftrightarrow> ty' = ty"
proof
  assume "prefix (getConfigKeyPrefix ty) (getConfigKey ty' v)"
  then obtain r where "putShortString (toStringView ty') @ put_big64 (- 1 - v) = putShortString (toStringView ty) @ r"
    by (auto simp: prefix_def getConfigKey_def getConfigKeyPrefix_def)
  from arg_cong [OF this, of getShortString] show "ty' = ty"
    by (simp add: get_put_short_string [OF length_toStringView] toStringView_inject)
qed (simp add: getConfigKey_prefix)

lemma config_entries:
  assumes "kv_ok kv" and "e \<in> set (list_prefix (getConfigKeyPrefix ty) kv)"
  shows "\<exists>c. e = (getConfigKey ty (cfg_configVersion c), SConfig c) \<and>
    st_configs (abs_store kv) (ty, cfg_configVersion c) = Some c"
proof -
  have e: "e \<in> set kv" "prefix (getConfigKeyPrefix ty) (fst e)"
    using assms(2) by (simp_all add: list_prefix_set)
  then have "prefix (toStr KP_Config) (fst e)"
    by (auto simp: getConfigKeyPrefix_def prefix_def)
  from entry_table(6) [OF assms(1) e(1) this refl]
  obtain ty' c where c: "e = (getConfigKey ty' (cfg_configVersion c), SConfig c)" by blast
  with e(2) have "ty' = ty"
    by (simp add: prefix_getConfigKey)
  then show ?thesis
    using c e(1) kv_ok_lookup [OF assms(1), of "ConfigKey ty (cfg_configVersion c)" "SConfig c" as_config]
    by (simp add: abs_store_def)
qed

lemma config_listed:
  assumes "st_configs (abs_store kv) (ty, v) = Some c"
  shows "\<exists>w. (getConfigKey ty v, w) \<in> set (list_prefix (getConfigKeyPrefix ty) kv)"
  using lookup_SomeD [of as_config kv "ConfigKey ty v" c] assms
  by (auto simp: abs_store_def list_prefix_set prefix_getConfigKey)

text \<open>
  C34: \<open>loadLatestConfig\<close> reads one entry and returns the configuration with the highest version
  of the node type, or nothing if there is none; the other node types do not matter.
\<close>

theorem loadLatestConfig_latest:
  assumes "kv_ok kv"
  shows "case loadLatestConfig ty kv of
      Inl _ \<Rightarrow> False
    | Inr None \<Rightarrow> \<forall>v. st_configs (abs_store kv) (ty, v) = None
    | Inr (Some c) \<Rightarrow> st_configs (abs_store kv) (ty, cfg_configVersion c) = Some c \<and>
        (\<forall>v. st_configs (abs_store kv) (ty, v) \<noteq> None \<longrightarrow> v \<le> cfg_configVersion c)"
proof (cases "list_prefix (getConfigKeyPrefix ty) kv")
  case Nil
  then have "st_configs (abs_store kv) (ty, v) = None" for v
    using config_listed [of kv ty v] by (cases "st_configs (abs_store kv) (ty, v)") simp_all
  with Nil show ?thesis
    by (simp add: loadLatestConfig_def)
next
  case (Cons e es)
  then obtain c where c: "e = (getConfigKey ty (cfg_configVersion c), SConfig c)"
    "st_configs (abs_store kv) (ty, cfg_configVersion c) = Some c"
    using config_entries [OF assms, of e ty] by auto
  have load: "loadLatestConfig ty kv = Inr (Some c)"
    using Cons c(1) by (simp add: loadLatestConfig_def unpackConfigInfo_def decode_getConfigKey corrupt_def)
  have "omap_wf (e # es)"
    using kv_ok_wf [OF assms] unfolding Cons [symmetric] list_prefix_def by simp
  then have min: "fst e \<le> fst x" if "x \<in> set (e # es)" for x
    using that by (cases e) (auto simp: omap_wf_Cons)
  have "v \<le> cfg_configVersion c" if v: "st_configs (abs_store kv) (ty, v) = Some d" for v d
  proof -
    obtain w where "(getConfigKey ty v, w) \<in> set (e # es)"
      using config_listed [OF v] Cons by auto
    from min [OF this] c(1) show ?thesis
      by (auto simp: not_less [symmetric] getConfigKey_less)
  qed
  with load c(2) show ?thesis by auto
qed

theorem loadLatestConfig_latest_witness:
  "loadLatestConfig META (fold run_op (map (OpConfig META \<circ> sample_config) [3, 300, 2]) []) =
     Inr (Some (sample_config 300))"
proof -
  define kv where "kv = fold run_op (map (OpConfig META \<circ> sample_config) [3, 300, 2]) []"
  have ok: "kv_ok kv"
    by (simp add: kv_def)
  have conf: "st_configs (abs_store kv) = [(META, 3) \<mapsto> sample_config 3, (META, 300) \<mapsto> sample_config 300,
      (META, 2) \<mapsto> sample_config 2]"
    by (simp add: kv_def sample_config_def)
  then have "st_configs (abs_store kv) (META, 300) \<noteq> None"
    by simp
  with loadLatestConfig_latest [OF ok, of META]
  obtain c where c: "loadLatestConfig META kv = Inr (Some c)"
    "st_configs (abs_store kv) (META, cfg_configVersion c) = Some c" "300 \<le> cfg_configVersion c"
    by (auto split: sum.splits option.splits)
  then show ?thesis
    unfolding kv_def [symmetric] by (auto simp: conf sample_config_def split: if_splits)
qed

text \<open>What the shutdown writes for one chain: a new version only if a target changes its state.\<close>

definition shut_chain :: "ChainInfo \<Rightarrow> ChainInfo" where
  "shut_chain c = (let ts = the (shutdownChain (ci_targets c))
     in if ci_targets c \<noteq> ts then c\<lparr>ci_chainVersion := ci_chainVersion c + 1, ci_targets := ts\<rparr> else c)"

lemma shut_chain_id [simp]: "ci_chainId (shut_chain c) = ci_chainId c"
  by (simp add: shut_chain_def Let_def)

lemma shutdown_all:
  assumes "kv_ok kv" and "distinct (map ci_chainId cs)" and "\<forall>c \<in> set cs. st_chains (abs_store kv) (ci_chainId c) = Some c"
    and "\<forall>c \<in> set cs. shutdownChain (ci_targets c) \<noteq> None"
  shows "\<exists>kv'. ofold shutdown_one cs kv = Some kv' \<and> kv_ok kv' \<and>
    abs_store kv' = (abs_store kv)\<lparr>st_chains := (\<lambda>i. if i \<in> ci_chainId ` set cs
      then map_option shut_chain (st_chains (abs_store kv) i) else st_chains (abs_store kv) i)\<rparr>"
  using assms
proof (induction cs arbitrary: kv)
  case (Cons c cs)
  obtain ts where ts: "shutdownChain (ci_targets c) = Some ts"
    using Cons.prems(4) by auto
  define kv1 where "kv1 = (if ci_targets c \<noteq> ts
    then storeChainInfo (c\<lparr>ci_chainVersion := ci_chainVersion c + 1, ci_targets := ts\<rparr>) kv else kv)"
  have one: "shutdown_one c kv = Some kv1"
    using ts by (simp add: shutdown_one_def kv1_def)
  have ok: "kv_ok kv1"
    using Cons.prems(1) by (simp add: kv1_def)
  have here: "st_chains (abs_store kv) (ci_chainId c) = Some c"
    using Cons.prems(3) by simp
  have shut: "shut_chain c = (if ci_targets c \<noteq> ts
    then c\<lparr>ci_chainVersion := ci_chainVersion c + 1, ci_targets := ts\<rparr> else c)"
    by (simp add: shut_chain_def ts)
  have chains: "st_chains (abs_store kv1) = (st_chains (abs_store kv))(ci_chainId c \<mapsto> shut_chain c)"
    using here unfolding kv1_def shut by (simp add: map_upd_triv)
  have rest: "(abs_store kv1)\<lparr>st_chains := X\<rparr> = (abs_store kv)\<lparr>st_chains := X\<rparr>" for X
    by (simp add: kv1_def)
  have still: "\<forall>d \<in> set cs. st_chains (abs_store kv1) (ci_chainId d) = Some d"
  proof
    fix d
    assume d: "d \<in> set cs"
    then have "ci_chainId d \<noteq> ci_chainId c"
      using Cons.prems(2) by (metis distinct.simps(2) image_eqI list.set_map list.simps(9))
    with d Cons.prems(3) show "st_chains (abs_store kv1) (ci_chainId d) = Some d"
      unfolding chains by simp
  qed
  have dist: "distinct (map ci_chainId cs)" "ci_chainId c \<notin> ci_chainId ` set cs"
    and shuts: "\<forall>d \<in> set cs. shutdownChain (ci_targets d) \<noteq> None"
    using Cons.prems(2,4) by simp_all
  obtain kv' where kv': "ofold shutdown_one cs kv1 = Some kv'" "kv_ok kv'"
    "abs_store kv' = (abs_store kv1)\<lparr>st_chains := (\<lambda>i. if i \<in> ci_chainId ` set cs
      then map_option shut_chain (st_chains (abs_store kv1) i) else st_chains (abs_store kv1) i)\<rparr>"
    using Cons.IH [OF ok dist(1) still shuts] by blast
  have "(\<lambda>i. if i \<in> ci_chainId ` set cs then map_option shut_chain (st_chains (abs_store kv1) i)
      else st_chains (abs_store kv1) i) =
    (\<lambda>i. if i \<in> ci_chainId ` set (c # cs) then map_option shut_chain (st_chains (abs_store kv) i)
      else st_chains (abs_store kv) i)"
    using dist(2) here unfolding chains by (simp add: fun_eq_iff)
  with kv'(3) have "abs_store kv' = (abs_store kv)\<lparr>st_chains := (\<lambda>i. if i \<in> ci_chainId ` set (c # cs)
      then map_option shut_chain (st_chains (abs_store kv) i) else st_chains (abs_store kv) i)\<rparr>"
    using rest by simp
  with kv'(1,2) one show ?case by simp
qed simp

text \<open>
  \<open>shutdownAllChains\<close> bumps the routing info version by one and replaces exactly the chains of the
  store, each by its shut-down form: a serving or last serving target becomes last serving, every
  other target goes offline, and the chain version grows only if a state changed.
\<close>

lemma shutdownAllChains_effect:
  assumes "kv_ok kv" and "\<forall>i c. st_chains (abs_store kv) i = Some c \<longrightarrow>
    (\<forall>t \<in> set (ci_targets c). cti_publicState t \<noteq> PS_INVALID)"
  shows "\<exists>kv'. shutdownAllChains kv = (Ret (), kv') \<and> kv_ok kv' \<and>
    abs_store kv' = (abs_store kv)\<lparr>st_version := Some ((case st_version (abs_store kv) of None \<Rightarrow> 0 | Some v \<Rightarrow> v) + 1),
      st_chains := map_option shut_chain \<circ> st_chains (abs_store kv)\<rparr> \<and>
    (\<forall>i c c'. st_chains (abs_store kv) i = Some c \<and> st_chains (abs_store kv') i = Some c' \<longrightarrow>
       list_all2 (\<lambda>t t'. cti_targetId t' = cti_targetId t \<and>
         cti_publicState t' = (if cti_publicState t \<in> {PS_SERVING, PS_LASTSRV} then PS_LASTSRV else PS_OFFLINE))
         (ci_targets c) (ci_targets c'))"
proof -
  let ?v = "case st_version (abs_store kv) of None \<Rightarrow> 0 | Some v \<Rightarrow> v"
  define kv1 where "kv1 = storeRoutingInfoVersion (?v + 1) kv"
  have ok: "kv_ok kv1" and chains: "st_chains (abs_store kv1) = st_chains (abs_store kv)"
    using assms(1) by (simp_all add: kv1_def)
  obtain cs where cs: "loadAllChains kv1 = Inr cs" "map_of (map (\<lambda>c. (ci_chainId c, c)) cs) = st_chains (abs_store kv)"
    "distinct (map ci_chainId cs)"
    using loadAllChains_ok [OF ok] unfolding chains by auto
  have listed: "\<forall>c \<in> set cs. st_chains (abs_store kv1) (ci_chainId c) = Some c"
    unfolding chains cs(2) [symmetric] using cs(3) by (auto intro!: map_of_is_SomeI simp: comp_def)
  have defined: "\<forall>c \<in> set cs. shutdownChain (ci_targets c) \<noteq> None"
    using assms(2) listed unfolding chains by (metis option.distinct(1) shutdownChain_defined)
  obtain kv' where kv': "ofold shutdown_one cs kv1 = Some kv'" "kv_ok kv'"
    "abs_store kv' = (abs_store kv1)\<lparr>st_chains := (\<lambda>i. if i \<in> ci_chainId ` set cs
      then map_option shut_chain (st_chains (abs_store kv1) i) else st_chains (abs_store kv1) i)\<rparr>"
    using shutdown_all [OF ok cs(3) listed defined] by blast
  have none: "st_chains (abs_store kv) i = None" if "i \<notin> ci_chainId ` set cs" for i
    using that unfolding cs(2) [symmetric] by (simp add: map_of_eq_None_iff image_image)
  then have abs: "abs_store kv' = (abs_store kv)\<lparr>st_version := Some (?v + 1), st_chains := map_option shut_chain \<circ> st_chains (abs_store kv)\<rparr>"
    using kv'(3) unfolding chains by (auto simp: kv1_def fun_eq_iff intro!: abs_store.equality)
  have "shutdownAllChains kv = (Ret (), kv')"
    using cs(1) kv'(1) by (simp add: shutdownAllChains_def loadRoutingInfoVersion_ok [OF assms(1)] kv1_def Let_def)
  moreover have "list_all2 (\<lambda>t t'. cti_targetId t' = cti_targetId t \<and>
      cti_publicState t' = (if cti_publicState t \<in> {PS_SERVING, PS_LASTSRV} then PS_LASTSRV else PS_OFFLINE))
      (ci_targets c) (ci_targets (shut_chain c))" if "st_chains (abs_store kv) i = Some c" for i c
    using assms(2) that shutdownChain_defined [of "ci_targets c"]
    by (intro shutdownChain_Some) (auto simp: shut_chain_def Let_def)
  ultimately show ?thesis
    using kv'(2) abs by (intro exI [of _ kv']) auto
qed

end
