(* ===== verification/Kv_Helpers.thy ===== *)
theory Kv_Helpers
  imports Mem_Transaction
begin

text \<open>
  The helpers over the transaction interface: the classification of errors and the paged listing of
  \<^verbatim>\<open>src/src/common/kv/ITransaction.cc\<close>, and the retry loop of
  \<^verbatim>\<open>src/src/common/kv/WithTransaction.h\<close> with the strategy of \<^verbatim>\<open>src/src/fdb/FDBRetryStrategy.h\<close>
  on a transaction that is not a FoundationDB one.
\<close>

section \<open>Errors\<close>

definition isTransactionError :: "status \<Rightarrow> bool" where
  "isTransactionError e = (case e of Transaction _ \<Rightarrow> True | _ \<Rightarrow> False)"

definition isRetryable :: "status \<Rightarrow> bool \<Rightarrow> bool" where
  "isRetryable e allowMaybeCommitted = (case e of
     Transaction kConflict \<Rightarrow> True
   | Transaction kThrottled \<Rightarrow> True
   | Transaction kTooOld \<Rightarrow> True
   | Transaction kRetryable \<Rightarrow> True
   | Transaction kResourceConstrained \<Rightarrow> True
   | Transaction kProcessBehind \<Rightarrow> True
   | Transaction kFutureVersion \<Rightarrow> True
   | Transaction kMaybeCommitted \<Rightarrow> allowMaybeCommitted
   | _ \<Rightarrow> False)"

lemma isRetryable_is_transaction: "isRetryable e m \<Longrightarrow> isTransactionError e"
  by (simp add: isRetryable_def isTransactionError_def split: status.splits)

section \<open>Listing by prefix\<close>

text \<open>A \<^verbatim>\<open>size_t\<close> passed where an \<^verbatim>\<open>int32_t\<close> is expected.\<close>

definition to_int32 :: "nat \<Rightarrow> int" where
  "to_int32 n = (int n + 2 ^ 31) mod 2 ^ 32 - 2 ^ 31"

type_synonym 's reader = "'s \<Rightarrow> KeySelector \<Rightarrow> KeySelector \<Rightarrow> int \<Rightarrow> (kvs \<times> bool) outcome \<times> 's"

partial_function (option) list_loop ::
  "'s reader \<Rightarrow> string \<Rightarrow> nat \<Rightarrow> KeySelector \<Rightarrow> KeySelector \<Rightarrow> kvs \<Rightarrow> 's \<Rightarrow> (kvs outcome \<times> 's) option" where
  "list_loop load pre limit b e res s =
     (if limit = 0 \<or> limit > length res then
        (case load s b e (if limit \<noteq> 0 then to_int32 (limit - length res) else 0) of
           (Ret (kvs, hasMore), s') \<Rightarrow>
             if \<not> list_all (\<lambda>x. prefix pre (fst x)) kvs then Some (Crash, s')
             else if \<not> hasMore then Some (Ret (res @ kvs), s')
             else if res @ kvs = [] then Some (Crash, s')
             else list_loop load pre limit \<lparr>ks_key = fst (last (res @ kvs)), ks_inclusive = False\<rparr> e (res @ kvs) s'
         | (Err err, s') \<Rightarrow> Some (Err err, s')
         | (Crash, s') \<Rightarrow> Some (Crash, s')
         | (Pending, s') \<Rightarrow> Some (Pending, s'))
      else Some (Ret res, s))"

lemma list_loop_stop: "limit \<noteq> 0 \<Longrightarrow> limit \<le> length res \<Longrightarrow> list_loop load pre limit b e res s = Some (Ret res, s)"
  by (subst list_loop.simps) simp

lemma list_loop_load:
  assumes "limit = 0 \<or> limit > length res"
    and "load s b e (if limit \<noteq> 0 then to_int32 (limit - length res) else 0) = (r, s')"
  shows list_loop_err: "r = Err err \<Longrightarrow> list_loop load pre limit b e res s = Some (Err err, s')"
    and list_loop_last: "r = Ret (kvs, False) \<Longrightarrow> list_all (\<lambda>x. prefix pre (fst x)) kvs \<Longrightarrow>
      list_loop load pre limit b e res s = Some (Ret (res @ kvs), s')"
    and list_loop_more: "r = Ret (kvs, True) \<Longrightarrow> list_all (\<lambda>x. prefix pre (fst x)) kvs \<Longrightarrow> kvs \<noteq> [] \<Longrightarrow>
      list_loop load pre limit b e res s =
      list_loop load pre limit \<lparr>ks_key = fst (last (res @ kvs)), ks_inclusive = False\<rparr> e (res @ kvs) s'"
  using assms by (subst list_loop.simps; simp)+

record ListByPrefixOptions =
  lo_inclusive :: bool
  lo_limit :: nat

definition listByPrefix ::
  "'s reader \<Rightarrow> string \<Rightarrow> ListByPrefixOptions \<Rightarrow> 's \<Rightarrow> (kvs outcome \<times> 's) option" where
  "listByPrefix load pre options s =
     list_loop load pre (lo_limit options)
       \<lparr>ks_key = pre, ks_inclusive = lo_inclusive options\<rparr>
       \<lparr>ks_key = prefixListEndKey pre, ks_inclusive = False\<rparr> [] s"

text \<open>The variant that unpacks every pair; the first error ends it.\<close>

fun unpack_all :: "(string \<Rightarrow> string \<Rightarrow> 'a result) \<Rightarrow> kvs \<Rightarrow> 'a list result" where
  "unpack_all unpack [] = Inr []"
| "unpack_all unpack ((k, v) # kvs) =
     (case unpack k v of Inl e \<Rightarrow> Inl e
      | Inr x \<Rightarrow> (case unpack_all unpack kvs of Inl e \<Rightarrow> Inl e | Inr xs \<Rightarrow> Inr (x # xs)))"

definition listByPrefix_unpack ::
  "'s reader \<Rightarrow> string \<Rightarrow> ListByPrefixOptions \<Rightarrow> (string \<Rightarrow> string \<Rightarrow> 'a result) \<Rightarrow> 's \<Rightarrow> ('a list outcome \<times> 's) option" where
  "listByPrefix_unpack load pre options unpack s =
     map_option (\<lambda>(r, s'). (obind r (\<lambda>kvs. of_result (unpack_all unpack kvs)), s')) (listByPrefix load pre options s)"

lemma filter_after_take:
  assumes "omap_wf r" and "0 < n" and "n \<le> length r"
  shows "filter (\<lambda>x. fst (last (take n r)) < fst x) r = drop n r"
proof -
  have "take n r @ filter (\<lambda>x. fst (last (take n r)) < fst x) r = take n r @ drop n r"
    using omap_split_at [OF assms(1), of "fst (last (take n r))"]
    unfolding filter_upto_take [OF assms] append_take_drop_id by (rule sym)
  then show ?thesis
    by (simp only: same_append_eq)
qed

subsection \<open>What a paged reader promises\<close>

locale range_reader =
  fixes load :: "'s reader"
    and ok :: "'s \<Rightarrow> bool"
    and view :: "'s \<Rightarrow> (string, string) omap"
    and page_size :: nat
  assumes view_wf: "ok s \<Longrightarrow> omap_wf (view s)"
    and page_size: "page_size < 2 ^ 31"
    and load_ok: "ok s \<Longrightarrow> load s b e n = (r, s') \<Longrightarrow> ok s' \<and> view s' = view s"
    and load_total: "ok s \<Longrightarrow> (\<exists>x. fst (load s b e n) = Ret x) \<or> (\<exists>err. fst (load s b e n) = Err err)"
    and load_page: "ok s \<Longrightarrow> fst (load s b e n) = Ret (kvs, hasMore) \<Longrightarrow>
      (\<exists>m. kvs = take m (filter (\<lambda>x. in_range b e (fst x)) (view s))) \<and>
      (if hasMore then kvs \<noteq> [] else kvs = filter (\<lambda>x. in_range b e (fst x)) (view s)) \<and>
      length kvs \<le> (if n < 1 then page_size else nat n)"
begin

lemma range_after:
  assumes "ok s" and kvs: "kvs = take m (filter (\<lambda>x. in_range b e (fst x)) (view s))" "kvs \<noteq> []"
  shows "filter (\<lambda>x. in_range \<lparr>ks_key = fst (last kvs), ks_inclusive = False\<rparr> e (fst x)) (view s) =
    drop (length kvs) (filter (\<lambda>x. in_range b e (fst x)) (view s))"
proof -
  let ?r = "filter (\<lambda>x. in_range b e (fst x)) (view s)"
  let ?k = "fst (last kvs)"
  have wf: "omap_wf ?r"
    by (simp add: view_wf [OF assms(1)])
  have n: "kvs = take (length kvs) ?r" "0 < length kvs" "length kvs \<le> length ?r"
    using kvs by (simp_all add: min_def)
  have "filter (\<lambda>x. ?k < fst x) ?r = drop (length kvs) ?r"
    using filter_after_take [OF wf n(2,3)] unfolding n(1) [symmetric] .
  moreover have "in_range b e ?k"
    using last_in_set [OF kvs(2)] kvs(1) by (metis (no_types, lifting) in_set_takeD mem_Collect_eq set_filter)
  then have "filter (\<lambda>x. ?k < fst x) ?r =
      filter (\<lambda>x. in_range \<lparr>ks_key = ?k, ks_inclusive = False\<rparr> e (fst x)) (view s)"
    by (auto simp: in_range_def intro!: filter_cong split: if_splits)
  ultimately show ?thesis by simp
qed

lemma page_within_limit:
  assumes "length res < limit" and "n = to_int32 (limit - length res)"
    and "length kvs \<le> (if n < 1 then page_size else nat n)"
  shows "length (res @ kvs) \<le> limit"
proof -
  let ?m = "limit - length res"
  have mod: "(int ?m + 2 ^ 31) mod 2 ^ 32 \<le> int ?m + 2 ^ 31"
    by (rule zmod_le_nonneg_dividend) simp
  have "length kvs \<le> ?m"
  proof (cases "n < 1")
    case True
    have "2 ^ 31 \<le> int ?m"
    proof (rule ccontr)
      assume "\<not> 2 ^ 31 \<le> int ?m"
      then have "(int ?m + 2 ^ 31) mod 2 ^ 32 = int ?m + 2 ^ 31"
        by (intro mod_pos_pos_trivial) auto
      with True assms(1,2) show False
        by (simp add: to_int32_def)
    qed
    with True assms(3) page_size show ?thesis by simp
  next
    case False
    have "n \<le> int ?m"
      using mod unfolding assms(2) to_int32_def by linarith
    then have "nat n \<le> ?m"
      by (simp add: nat_le_iff)
    with False assms(3) show ?thesis by simp
  qed
  with assms(1) show ?thesis by simp
qed

definition load_fails :: "status \<Rightarrow> bool" where
  "load_fails err \<longleftrightarrow> (\<exists>s b e n. ok s \<and> fst (load s b e n) = Err err)"

lemma list_loop_result:
  assumes "ok s" and "res @ filter (\<lambda>x. in_range b e (fst x)) (view s) = all"
    and "\<forall>x \<in> set all. prefix pre (fst x)" and "limit \<noteq> 0 \<Longrightarrow> length res \<le> limit"
  shows "\<exists>r s'. list_loop load pre limit b e res s = Some (r, s') \<and> ok s' \<and> view s' = view s \<and>
    ((\<exists>err. r = Err err \<and> load_fails err) \<or> r = Ret (if limit = 0 then all else take limit all))"
  using assms
proof (induction "length all - length res" arbitrary: b res s rule: less_induct)
  case less
  let ?r = "filter (\<lambda>x. in_range b e (fst x)) (view s)"
  let ?n = "if limit \<noteq> 0 then to_int32 (limit - length res) else 0"
  show ?case
  proof (cases "limit = 0 \<or> limit > length res")
    case False
    with less.prems(2,4) have "limit = length res" "take limit all = res"
      by auto
    with False less.prems(1) show ?thesis
      using list_loop_stop [of limit res load pre b e s] by simp
  next
    case True
    obtain r s' where l: "load s b e ?n = (r, s')"
      by fastforce
    note s' = load_ok [OF less.prems(1) l]
    consider err where "r = Err err" | kvs hasMore where "r = Ret (kvs, hasMore)"
      using load_total [OF less.prems(1), of b e ?n] l by (metis fst_conv surj_pair)
    then show ?thesis
    proof cases
      case (1 err)
      moreover from 1 have "load_fails err"
        using less.prems(1) l unfolding load_fails_def by (metis fst_conv)
      ultimately show ?thesis
        using list_loop_err [where load = load, OF True l] s' by blast
    next
      case (2 kvs hasMore)
      note page = load_page [OF less.prems(1), of b e ?n kvs hasMore]
      have p: "\<exists>m. kvs = take m ?r" "if hasMore then kvs \<noteq> [] else kvs = ?r"
        and len: "length kvs \<le> (if ?n < 1 then page_size else nat ?n)"
        using page l 2 by simp_all
      have "set kvs \<subseteq> set ?r"
        using p(1) by (metis set_take_subset)
      moreover have "set ?r \<subseteq> set all"
        using less.prems(2) by auto
      ultimately have pre: "list_all (\<lambda>x. prefix pre (fst x)) kvs"
        using less.prems(3) unfolding list_all_iff by blast
      have lim: "length (res @ kvs) \<le> limit" if "limit \<noteq> 0"
        using page_within_limit [of res limit ?n kvs] True that len by simp
      show ?thesis
      proof (cases hasMore)
        case False
        with p(2) less.prems(2) have "res @ kvs = all"
          by simp
        moreover have "list_loop load pre limit b e res s = Some (Ret (res @ kvs), s')"
          using list_loop_last [where load = load, OF True l] 2 False pre by simp
        ultimately show ?thesis
          using s' lim by auto
      next
        case more: True
        let ?b = "\<lparr>ks_key = fst (last (res @ kvs)), ks_inclusive = False\<rparr>"
        have ne: "kvs \<noteq> []"
          using p(2) more by simp
        from p(1) obtain m where m: "kvs = take m ?r" ..
        have step: "list_loop load pre limit b e res s = list_loop load pre limit ?b e (res @ kvs) s'"
          using list_loop_more [where load = load, OF True l] 2 more pre ne by simp
        have "filter (\<lambda>x. in_range ?b e (fst x)) (view s) = drop (length kvs) ?r"
          using range_after [OF less.prems(1) m ne] ne by simp
        moreover have "kvs @ drop (length kvs) ?r = ?r"
          unfolding m by (simp add: min_def)
        ultimately have all: "(res @ kvs) @ filter (\<lambda>x. in_range ?b e (fst x)) (view s') = all"
          using less.prems(2) s' by (simp only: append_assoc)
        have "length kvs \<le> length ?r"
          by (simp add: m)
        moreover have "length all = length res + length ?r"
          using less.prems(2) by auto
        moreover have "0 < length kvs"
          using ne by simp
        ultimately have "length all - length (res @ kvs) < length all - length res"
          unfolding length_append by linarith
        from less.hyps [OF this _ all less.prems(3) lim] s' step show ?thesis
          by simp
      qed
    qed
  qed
qed

lemma listByPrefix_result:
  assumes "ok s" and "pre \<noteq> []" and "hd pre \<noteq> CHR 0xFF"
  shows "\<exists>r s'. listByPrefix load pre opts s = Some (r, s') \<and> ok s' \<and> view s' = view s \<and>
    ((\<exists>err. r = Err err \<and> load_fails err) \<or>
     r = Ret (let all = filter (\<lambda>x. prefix pre (fst x) \<and> (lo_inclusive opts \<or> fst x \<noteq> pre)) (view s)
              in if lo_limit opts = 0 then all else take (lo_limit opts) all))"
proof -
  let ?b = "\<lparr>ks_key = pre, ks_inclusive = lo_inclusive opts\<rparr>"
  let ?e = "\<lparr>ks_key = prefixListEndKey pre, ks_inclusive = False\<rparr>"
  let ?all = "filter (\<lambda>x. prefix pre (fst x) \<and> (lo_inclusive opts \<or> fst x \<noteq> pre)) (view s)"
  have "\<exists>c \<in> set pre. c \<noteq> CHR 0xFF"
    using assms(2,3) by (cases pre) auto
  then have "pre \<le> k \<and> k < prefixListEndKey pre \<longleftrightarrow> prefix pre k" for k
    by (rule prefix_range_key)
  then have "in_range ?b ?e k \<longleftrightarrow> prefix pre k \<and> (lo_inclusive opts \<or> k \<noteq> pre)" for k
    unfolding in_range_def by (cases "lo_inclusive opts") (auto simp: less_le)
  then have all: "[] @ filter (\<lambda>x. in_range ?b ?e (fst x)) (view s) = ?all"
    by (simp cong: filter_cong)
  have "\<forall>x \<in> set ?all. prefix pre (fst x)"
    by simp
  from list_loop_result [OF assms(1) all this, of "lo_limit opts"] show ?thesis
    unfolding listByPrefix_def Let_def by simp
qed

end

subsection \<open>Listing in a transaction without writes\<close>

text \<open>The transaction with its store as a reader; the flag selects \<^verbatim>\<open>snapshotGetRange\<close>.\<close>

definition tx_reader :: "bool \<Rightarrow> (MemKV \<times> MemTransaction) reader" where
  "tx_reader snapshot s b e n =
     (case tx_getRange (fst s) snapshot b e n (snd s) of (r, t) \<Rightarrow> (r, fst s, t))"

definition clean_reader :: "MemKV \<times> MemTransaction \<Rightarrow> bool" where
  "clean_reader s \<longleftrightarrow> mem_wf (fst s) \<and> mem_small (fst s) \<and> \<not> tx_canceled (snd s) \<and> tx_changes (snd s) = []"

definition reader_view :: "MemKV \<times> MemTransaction \<Rightarrow> (string, string) omap" where
  "reader_view s = mem_contents (fst s) (tx_readVersion (fix_readVersion (fst s) (snd s)))"

lemma fix_readVersion_twice:
  "mem_version mem < 0 \<or> tx_readVersion (fix_readVersion mem (fix_readVersion mem t)) = tx_readVersion (fix_readVersion mem t)"
  by (simp add: fix_readVersion_def)

lemma tx_reader_page:
  fixes b e :: KeySelector
  assumes "clean_reader s"
  defines "p \<equiv> \<lambda>n. range_page n (filter (\<lambda>x. in_range b e (fst x)) (reader_view s))"
  shows "fst (tx_reader snapshot s b e n) = Ret (p n) \<and>
    clean_reader (snd (tx_reader snapshot s b e n)) \<and> reader_view (snd (tx_reader snapshot s b e n)) = reader_view s"
proof -
  obtain mem t where s: "s = (mem, t)" by fastforce
  have c: "mem_wf mem" "mem_small mem" "\<not> tx_canceled t" "tx_changes t = []"
    using assms(1) by (simp_all add: clean_reader_def s)
  have "omap_wf (tx_changes t)" "begin_ok b (tx_changes t)"
    by (simp_all add: c(4) begin_ok_def lower_bound_def)
  moreover have "visible mem t = reader_view s"
    by (simp add: reader_view_def visible_def overlay_def s c(4))
  ultimately have r: "tx_getRange mem snapshot b e n t = (Ret (p n), let t1 = fix_readVersion mem t
      in if snapshot then t1 else t1\<lparr>tx_readRanges := tx_readRanges t1 @
           [(if ks_inclusive b then ks_key b else keyAfter (ks_key b), range_end e (p n))]\<rparr>)"
    using tx_getRange_page [OF c(1,2) _ c(3), of b snapshot e n] unfolding p_def by metis
  show ?thesis
    using c by (simp add: tx_reader_def s r clean_reader_def reader_view_def Let_def fix_readVersion_def)
qed

interpretation txr: range_reader "tx_reader snapshot" clean_reader reader_view memKvDefaultLimit
proof
  show "omap_wf (reader_view s)" if "clean_reader s" for s
    using that by (simp add: reader_view_def clean_reader_def mem_contents_wf)
  show "memKvDefaultLimit < 2 ^ 31"
    by (simp add: memKvDefaultLimit_def)
  show "clean_reader s' \<and> reader_view s' = reader_view s"
    if "clean_reader s" "tx_reader snapshot s b e n = (r, s')" for s b e n r s'
    using tx_reader_page [OF that(1), of snapshot b e n] that(2) by simp
  show "(\<exists>x. fst (tx_reader snapshot s b e n) = Ret x) \<or> (\<exists>err. fst (tx_reader snapshot s b e n) = Err err)"
    if "clean_reader s" for s b e n
    using tx_reader_page [OF that, of snapshot b e n] by blast
  show "(\<exists>m. kvs = take m (filter (\<lambda>x. in_range b e (fst x)) (reader_view s))) \<and>
      (if hasMore then kvs \<noteq> [] else kvs = filter (\<lambda>x. in_range b e (fst x)) (reader_view s)) \<and>
      length kvs \<le> (if n < 1 then memKvDefaultLimit else nat n)"
    if "clean_reader s" "fst (tx_reader snapshot s b e n) = Ret (kvs, hasMore)" for s b e n kvs hasMore
  proof -
    let ?r = "filter (\<lambda>x. in_range b e (fst x)) (reader_view s)"
    have k: "kvs = take (range_limit n) ?r" "hasMore = (range_limit n < length ?r)"
      using tx_reader_page [OF that(1), of snapshot b e n] that(2) by (simp_all add: range_page_def)
    have "kvs \<noteq> []" if hasMore
      using that range_limit_pos [of n] unfolding k by auto
    moreover have "kvs = ?r" if "\<not> hasMore"
      using that unfolding k by simp
    moreover have "length kvs \<le> range_limit n"
      by (simp add: k(1))
    ultimately show ?thesis
      using k(1) unfolding range_limit_def by (metis (full_types))
  qed
qed

text \<open>
  C30: the paged listing is complete. In a transaction of the in-memory store without writes of its own
  that is not cancelled, and for a prefix that is not empty and does not start with the byte 0xFF,
  \<open>listByPrefix\<close> returns all keys that start with the prefix, in order and cut to the limit
  (the prefix itself only if asked for), however many pages it takes; it ends and never fails.
\<close>

theorem listByPrefix_complete:
  assumes "clean_reader s" and "pre \<noteq> []" and "hd pre \<noteq> CHR 0xFF"
  shows "\<exists>s'. listByPrefix (tx_reader snapshot) pre opts s =
    Some (Ret (let all = filter (\<lambda>x. prefix pre (fst x) \<and> (lo_inclusive opts \<or> fst x \<noteq> pre)) (reader_view s)
               in if lo_limit opts = 0 then all else take (lo_limit opts) all), s')"
proof -
  obtain r s' where r: "listByPrefix (tx_reader snapshot) pre opts s = Some (r, s')"
    and "(\<exists>err. r = Err err \<and> txr.load_fails snapshot err) \<or>
     r = Ret (let all = filter (\<lambda>x. prefix pre (fst x) \<and> (lo_inclusive opts \<or> fst x \<noteq> pre)) (reader_view s)
              in if lo_limit opts = 0 then all else take (lo_limit opts) all)"
    using txr.listByPrefix_result [OF assms] by blast
  moreover have "\<not> txr.load_fails snapshot err" for err
    using tx_reader_page [of _ snapshot] unfolding txr.load_fails_def by (metis outcome.distinct(1))
  ultimately show ?thesis by blast
qed

theorem listByPrefix_complete_witness:
  "\<exists>s'. listByPrefix (tx_reader True) ''a'' \<lparr>lo_inclusive = True, lo_limit = 0\<rparr> (sample_mem, MemTransaction_of sample_mem) =
     Some (Ret [(''a'', ''x'')], s')"
proof -
  let ?s = "(sample_mem, MemTransaction_of sample_mem)"
  have "clean_reader ?s"
    using sample_mem_wf by (simp add: clean_reader_def mem_small_def sample_mem_def MemTransaction_of_def)
  moreover have "filter (\<lambda>x. prefix ''a'' (fst x) \<and> (True \<or> fst x \<noteq> ''a'')) (reader_view ?s) = [(''a'', ''x'')]"
    by code_simp
  ultimately show ?thesis
    using listByPrefix_complete [of ?s "''a''" True "\<lparr>lo_inclusive = True, lo_limit = 0\<rparr>"]
    by (simp add: Let_def)
qed

section \<open>Retrying a transaction\<close>

text \<open>Durations are in nanoseconds.\<close>

record FDBRetryStrategy_Config =
  maxBackoff :: int
  maxRetryCount :: nat
  retryMaybeCommitted :: bool

definition default_RetryConfig :: FDBRetryStrategy_Config where
  "default_RetryConfig = \<lparr>maxBackoff = 1000000000, maxRetryCount = 10, retryMaybeCommitted = True\<rparr>"

definition kMinBackoff :: int where
  "kMinBackoff = 10000000"

record FDBRetryStrategy =
  rs_backoff :: int
  rs_retry :: nat

definition strategy_init :: FDBRetryStrategy where
  "strategy_init = \<lparr>rs_backoff = kMinBackoff, rs_retry = 0\<rparr>"

definition defaultBackoff :: "FDBRetryStrategy_Config \<Rightarrow> ('s \<Rightarrow> 's) \<Rightarrow> status \<Rightarrow> 's \<Rightarrow> 's result" where
  "defaultBackoff cfg reset err txn =
     (if \<not> isRetryable err (retryMaybeCommitted cfg) then Inl err else Inr (reset txn))"

definition strategy_onError ::
  "FDBRetryStrategy_Config \<Rightarrow> ('s \<Rightarrow> 's) \<Rightarrow> status \<Rightarrow> FDBRetryStrategy \<Rightarrow> 's \<Rightarrow> 's result \<times> FDBRetryStrategy" where
  "strategy_onError cfg reset err st txn =
     (if rs_retry st \<ge> maxRetryCount cfg then (Inl err, st)
      else if \<not> isTransactionError err then (Inl err, st)
      else (defaultBackoff cfg reset err txn,
            st\<lparr>rs_backoff := min (maxBackoff cfg) (rs_backoff st * 2), rs_retry := rs_retry st + 1\<rparr>))"

text \<open>
  The loop of \<^verbatim>\<open>run\<close>; an attempt is the handler, followed for a read-write transaction by the
  commit. The loop ends because every round that goes on raises the retry count.
\<close>

function run_loop ::
  "FDBRetryStrategy_Config \<Rightarrow> ('s \<Rightarrow> 's) \<Rightarrow> ('s \<Rightarrow> 'a result \<times> 's) \<Rightarrow> FDBRetryStrategy \<Rightarrow> 's \<Rightarrow> 'a result \<times> 's" where
  "run_loop cfg reset attempt st txn =
     (case attempt txn of
        (Inr x, txn1) \<Rightarrow> (Inr x, txn1)
      | (Inl err, txn1) \<Rightarrow>
          (case strategy_onError cfg reset err st txn1 of
             (Inl err', st1) \<Rightarrow> (Inl err', txn1)
           | (Inr txn2, st1) \<Rightarrow> run_loop cfg reset attempt st1 txn2))"
  by pat_completeness auto
termination
  by (relation "measure (\<lambda>(cfg, reset, attempt, st, txn). maxRetryCount cfg - rs_retry st)")
    (auto simp: strategy_onError_def split: if_splits)

declare run_loop.simps [simp del]

definition runAndCommit ::
  "('s \<Rightarrow> 'a result \<times> 's) \<Rightarrow> ('s \<Rightarrow> unit result \<times> 's) \<Rightarrow> 's \<Rightarrow> 'a result \<times> 's" where
  "runAndCommit handler commit txn =
     (case handler txn of
        (Inl err, txn1) \<Rightarrow> (Inl err, txn1)
      | (Inr x, txn1) \<Rightarrow> (case commit txn1 of (Inl err, txn2) \<Rightarrow> (Inl err, txn2) | (Inr _, txn2) \<Rightarrow> (Inr x, txn2)))"

definition run_read_only ::
  "FDBRetryStrategy_Config \<Rightarrow> ('s \<Rightarrow> 's) \<Rightarrow> ('s \<Rightarrow> 'a result \<times> 's) \<Rightarrow> 's \<Rightarrow> 'a result \<times> 's" where
  "run_read_only cfg reset handler txn = run_loop cfg reset handler strategy_init txn"

definition run_read_write ::
  "FDBRetryStrategy_Config \<Rightarrow> ('s \<Rightarrow> 's) \<Rightarrow> ('s \<Rightarrow> unit result \<times> 's) \<Rightarrow> ('s \<Rightarrow> 'a result \<times> 's) \<Rightarrow> 's \<Rightarrow> 'a result \<times> 's" where
  "run_read_write cfg reset commit handler txn = run_loop cfg reset (runAndCommit handler commit) strategy_init txn"

text \<open>The transaction as the attempts leave it: after \<open>n\<close> failed attempts, each followed by a reset.\<close>

fun after_failures :: "('s \<Rightarrow> 's) \<Rightarrow> ('s \<Rightarrow> 'a result \<times> 's) \<Rightarrow> nat \<Rightarrow> 's \<Rightarrow> 's" where
  "after_failures reset attempt 0 txn = txn"
| "after_failures reset attempt (Suc n) txn = after_failures reset attempt n (reset (snd (attempt txn)))"

lemma run_loop_attempts:
  assumes "rs_retry st \<le> maxRetryCount cfg"
  shows "\<exists>n. rs_retry st + n \<le> maxRetryCount cfg \<and> run_loop cfg reset attempt st txn = attempt (after_failures reset attempt n txn) \<and>
    (\<forall>i < n. \<exists>err. fst (attempt (after_failures reset attempt i txn)) = Inl err \<and> isRetryable err (retryMaybeCommitted cfg)) \<and>
    (\<forall>err. fst (attempt (after_failures reset attempt n txn)) = Inl err \<longrightarrow>
       \<not> isRetryable err (retryMaybeCommitted cfg) \<or> rs_retry st + n = maxRetryCount cfg)"
  using assms(1)
proof (induction cfg reset attempt st txn rule: run_loop.induct)
  case (1 cfg reset attempt st txn)
  obtain r txn1 where a: "attempt txn = (r, txn1)" by fastforce
  show ?case
  proof (cases "\<exists>err. r = Inl err \<and> isRetryable err (retryMaybeCommitted cfg) \<and> rs_retry st < maxRetryCount cfg")
    case False
    have "run_loop cfg reset attempt st txn = attempt txn"
      using a False by (subst run_loop.simps)
        (auto simp: strategy_onError_def defaultBackoff_def split: sum.splits)
    with a False 1(2) show ?thesis
      by (intro exI [of _ 0]) (auto simp: not_less)
  next
    case True
    then obtain err where err: "r = Inl err" "isRetryable err (retryMaybeCommitted cfg)" "rs_retry st < maxRetryCount cfg"
      by blast
    let ?st = "st\<lparr>rs_backoff := min (maxBackoff cfg) (rs_backoff st * 2), rs_retry := rs_retry st + 1\<rparr>"
    have on: "strategy_onError cfg reset err st txn1 = (Inr (reset txn1), ?st)"
      using err isRetryable_is_transaction [OF err(2)] by (simp add: strategy_onError_def defaultBackoff_def)
    have loop: "run_loop cfg reset attempt st txn = run_loop cfg reset attempt ?st (reset txn1)"
      using a err(1) on by (subst run_loop.simps) simp
    from 1(1) [OF a [symmetric] err(1) on [symmetric] refl] err(3)
    obtain n where n: "rs_retry ?st + n \<le> maxRetryCount cfg"
      "run_loop cfg reset attempt ?st (reset txn1) = attempt (after_failures reset attempt n (reset txn1))"
      "\<forall>i < n. \<exists>err. fst (attempt (after_failures reset attempt i (reset txn1))) = Inl err \<and> isRetryable err (retryMaybeCommitted cfg)"
      "\<forall>err. fst (attempt (after_failures reset attempt n (reset txn1))) = Inl err \<longrightarrow>
         \<not> isRetryable err (retryMaybeCommitted cfg) \<or> rs_retry ?st + n = maxRetryCount cfg"
      by auto
    have "\<exists>err. fst (attempt (after_failures reset attempt i txn)) = Inl err \<and> isRetryable err (retryMaybeCommitted cfg)"
      if "i < Suc n" for i
      using that n(3) a err by (cases i) auto
    with n loop a show ?thesis
      by (intro exI [of _ "Suc n"]) simp
  qed
qed

text \<open>
  C32: the retry loop of \<open>WithTransaction\<close> always ends, after at most \<open>maxRetryCount + 1\<close> attempts,
  with the result of its last attempt. Every earlier attempt failed with a retryable error and was
  followed by a reset of the transaction, and an error is reported only if it is not retryable or
  the retries are used up.
\<close>

theorem run_read_write_attempts:
  "\<exists>n \<le> maxRetryCount cfg.
     let attempt = runAndCommit handler commit; S = (\<lambda>n. after_failures reset attempt n txn)
     in run_read_write cfg reset commit handler txn = attempt (S n) \<and>
        (\<forall>i < n. \<exists>err. fst (attempt (S i)) = Inl err \<and> isRetryable err (retryMaybeCommitted cfg)) \<and>
        (\<forall>err. fst (attempt (S n)) = Inl err \<longrightarrow> \<not> isRetryable err (retryMaybeCommitted cfg) \<or> n = maxRetryCount cfg)"
  using run_loop_attempts [of strategy_init cfg reset "runAndCommit handler commit" txn]
  by (simp add: run_read_write_def strategy_init_def Let_def)

theorem run_read_write_attempts_witness:
  "run_read_write default_RetryConfig id
     (\<lambda>s. if s = (0::nat) then (Inl (Transaction kConflict), 1) else (Inr (), s)) (\<lambda>s. (Inr s, s)) 0 = (Inr 1, 1) \<and>
   (\<exists>n \<le> 10. run_read_write default_RetryConfig id
     (\<lambda>s. if s = (0::nat) then (Inl (Transaction kConflict), 1) else (Inr (), s)) (\<lambda>s. (Inr s, s)) 0 =
     runAndCommit (\<lambda>s. (Inr s, s)) (\<lambda>s. if s = (0::nat) then (Inl (Transaction kConflict), 1) else (Inr (), s))
       (after_failures id (runAndCommit (\<lambda>s. (Inr s, s)) (\<lambda>s. if s = (0::nat) then (Inl (Transaction kConflict), 1) else (Inr (), s))) n 0))"
proof
  let ?commit = "\<lambda>s. if s = (0::nat) then (Inl (Transaction kConflict), 1) else (Inr (), s)"
  show "run_read_write default_RetryConfig id ?commit (\<lambda>s. (Inr s, s)) 0 = (Inr 1, 1)"
    by (simp add: run_read_write_def runAndCommit_def strategy_init_def default_RetryConfig_def
        run_loop.simps strategy_onError_def defaultBackoff_def isTransactionError_def isRetryable_def)
  have "maxRetryCount default_RetryConfig = 10"
    by (simp add: default_RetryConfig_def)
  with run_read_write_attempts [of default_RetryConfig "\<lambda>s. (Inr s, s)" ?commit id 0]
  show "\<exists>n \<le> 10. run_read_write default_RetryConfig id ?commit (\<lambda>s. (Inr s, s)) 0 =
      runAndCommit (\<lambda>s. (Inr s, s)) ?commit (after_failures id (runAndCommit (\<lambda>s. (Inr s, s)) ?commit) n 0)"
    unfolding Let_def by auto
qed

end
