(* ===== verification/Mgmtd_State.thy ===== *)
theory Mgmtd_State
  imports Mgmtd_Data Mgmtd_Store Kv_Helpers
begin

text \<open>
  The state of the cluster manager and the helpers its operations are built from
  (\<^verbatim>\<open>src/src/mgmtd/service/MgmtdState.h\<close>, \<^verbatim>\<open>MgmtdState.cc\<close>, \<^verbatim>\<open>helpers.h\<close> and \<^verbatim>\<open>helpers.cc\<close>). An
  operation maps the persistent store and the state in memory to an outcome, the store and the
  state after it; the writer lock makes the operations that change both run one after the other.

  What an operation cannot know is in its environment: the readings of the clocks, the user store,
  the listener of configuration updates, and for each attempt of a transaction whether the commit
  succeeds, fails, or reports a failure although the changes are applied. An exhausted list of
  attempts is an operation that is still retrying.
\<close>

section \<open>Transactions with retries\<close>

datatype verdict =
    Committed
  | ReadFailed status
  | CommitFailed status
  | CommitUnknown status

type_synonym attempts = "(UtcTime \<times> verdict) list"

text \<open>
  One attempt: the handler runs on the store and on the variables it captures by reference. If it
  or the commit fails the store keeps its content, unless the commit was applied all the same; what
  the handler assigned to captured variables stays.
\<close>

definition txn_attempt ::
  "(UtcTime \<Rightarrow> kv \<times> 'l \<Rightarrow> 'a outcome \<times> kv \<times> 'l) \<Rightarrow> UtcTime \<times> verdict \<Rightarrow> kv \<times> 'l \<Rightarrow> 'a outcome \<times> kv \<times> 'l" where
  "txn_attempt handler att s =
     (case snd att of
        ReadFailed e \<Rightarrow> (Err e, s)
      | v \<Rightarrow>
          (case handler (fst att) s of
             (Ret x, kv', l') \<Rightarrow>
               (case v of
                  CommitFailed e \<Rightarrow> (Err e, fst s, l')
                | CommitUnknown e \<Rightarrow> (Err e, kv', l')
                | _ \<Rightarrow> (Ret x, kv', l'))
           | (r, _, l') \<Rightarrow> (r, fst s, l')))"

text \<open>What follows a failed attempt: the strategy of the inner loop may retry; when it gives up the
  outer loop starts over unless it has used its rounds or the error is not a transaction error.\<close>

definition after_failure ::
  "FDBRetryStrategy_Config \<Rightarrow> int \<Rightarrow> status \<Rightarrow> int \<times> FDBRetryStrategy \<Rightarrow> status + int \<times> FDBRetryStrategy" where
  "after_failure cfg maxRetryTimes e loop =
     (case strategy_onError cfg (\<lambda>u. u) e (snd loop) () of
        (Inr _, strategy) \<Rightarrow> Inr (fst loop, strategy)
      | (Inl err, _) \<Rightarrow>
          if fst loop = maxRetryTimes \<or> \<not> isTransactionError err then Inl err
          else Inr (fst loop + 1, strategy_init))"

fun txn_loop ::
  "FDBRetryStrategy_Config \<Rightarrow> int \<Rightarrow> (UtcTime \<Rightarrow> kv \<times> 'l \<Rightarrow> 'a outcome \<times> kv \<times> 'l) \<Rightarrow> attempts \<Rightarrow>
   int \<times> FDBRetryStrategy \<Rightarrow> kv \<times> 'l \<Rightarrow> 'a outcome \<times> kv \<times> 'l" where
  "txn_loop cfg maxRetryTimes handler [] loop s = (Pending, s)"
| "txn_loop cfg maxRetryTimes handler (att # atts) loop s =
     (case txn_attempt handler att s of
        (Err e, s') \<Rightarrow>
          (case after_failure cfg maxRetryTimes e loop of
             Inl err \<Rightarrow> (Err err, s')
           | Inr loop' \<Rightarrow> txn_loop cfg maxRetryTimes handler atts loop' s')
      | (r, s') \<Rightarrow> (r, s'))"

section \<open>The state and its helpers\<close>

type_synonym ClientSessionMap = "(string \<times> ClientSession) list"

record MgmtdState =
  ms_clusterId :: string
  ms_appInfo :: FbsAppInfo
  ms_selfNodeInfo :: NodeInfo
  ms_selfPersistentNodeInfo :: PersistentNodeInfo
  ms_config :: MgmtdConfig
  ms_data :: MgmtdData
  ms_clientSessionMap :: ClientSessionMap

record op_env =
  env_leaseNow :: UtcTime
  env_now :: UtcTime
  env_utcClock :: UtcTime
  env_steadyNow :: SteadyTime
  env_attempts :: attempts
  env_getUser :: "string \<Rightarrow> bool result"
  env_configUpdater :: "(string \<Rightarrow> unit result) option"
  env_isUuid :: "string \<Rightarrow> bool"

type_synonym 'a operation = "(kv \<times> MgmtdState, 'a) action"

abbreviation routing :: "kv \<times> MgmtdState \<Rightarrow> RoutingInfo" where
  "routing s \<equiv> md_routingInfo (ms_data (snd s))"

definition initSelfNodeInfo :: "FbsAppInfo \<Rightarrow> NodeInfo" where
  "initSelfNodeInfo appInfo = \<lparr>ni_app = appInfo, ni_type = MGMTD, ni_status = PRIMARY_MGMTD, ni_lastHeartbeatTs = 0,
     ni_tags = [], ni_configVersion = 0, ni_configStatus = CS_NORMAL\<rparr>"

definition initial_MgmtdData :: MgmtdData where
  "initial_MgmtdData = \<lparr>md_leaseStartTs = 0, md_routingInfo = initial_RoutingInfo, md_configMap = [],
     md_lease = \<lparr>lease_lease = None, lease_bootstrapping = False\<rparr>, md_universalTagsMap = [], md_routingInfoCache = None\<rparr>"

definition MgmtdState_of :: "string \<Rightarrow> FbsAppInfo \<Rightarrow> MgmtdConfig \<Rightarrow> MgmtdState" where
  "MgmtdState_of clusterId appInfo config = \<lparr>ms_clusterId = clusterId, ms_appInfo = appInfo,
     ms_selfNodeInfo = initSelfNodeInfo appInfo,
     ms_selfPersistentNodeInfo = toPersistentNode (initSelfNodeInfo appInfo),
     ms_config = config, ms_data = initial_MgmtdData, ms_clientSessionMap = []\<rparr>"

definition selfId :: "MgmtdState \<Rightarrow> NodeId" where
  "selfId st = app_nodeId (ms_appInfo st)"

definition validateClusterId :: "string \<Rightarrow> unit operation" where
  "validateClusterId clusterId s = when_error (clusterId \<noteq> ms_clusterId (snd s)) (Mgmtd kClusterIdMismatch) s"

definition validateAdmin :: "op_env \<Rightarrow> string \<Rightarrow> unit operation" where
  "validateAdmin env token s =
     (if mc_authenticate (ms_config (snd s)) then
        (case env_getUser env token of
           Inl e \<Rightarrow> (Err e, s)
         | Inr admin \<Rightarrow> when_error (\<not> admin) (Mgmtd kNotAdmin) s)
      else (Ret (), s))"

definition currentLease :: "MgmtdState \<Rightarrow> UtcTime \<Rightarrow> MgmtdLeaseInfo option" where
  "currentLease st now =
     (let lease = md_lease (ms_data st)
      in case lease_lease lease of
           None \<Rightarrow> None
         | Some l \<Rightarrow>
             if now + mc_suspicious_lease_interval (ms_config st) < li_leaseEnd l \<and> \<not> lease_bootstrapping lease
             then Some l else None)"

definition ensureSelfIsPrimary :: "op_env \<Rightarrow> unit operation" where
  "ensureSelfIsPrimary env s =
     (case currentLease (snd s) (env_leaseNow env) of
        None \<Rightarrow> (Err (Mgmtd kNotPrimary), s)
      | Some lease \<Rightarrow> when_error (pn_nodeId (li_primary lease) \<noteq> selfId (snd s)) (Mgmtd kNotPrimary) s)"

definition doAsPrimary :: "op_env \<Rightarrow> 'a operation \<Rightarrow> 'a operation" where
  "doAsPrimary env handler = sbind (ensureSelfIsPrimary env) (\<lambda>_. handler)"

text \<open>The strategy is built from the section \<^verbatim>\<open>retry_transaction\<close> of the configuration.\<close>

definition createRetryStrategy :: "MgmtdConfig \<Rightarrow> FDBRetryStrategy_Config" where
  "createRetryStrategy config = \<lparr>maxBackoff = tr_max_backoff (mc_retry_transaction config),
     maxRetryCount = tr_max_retry_count (mc_retry_transaction config), retryMaybeCommitted = True\<rparr>"

definition checked_handler ::
  "MgmtdState \<Rightarrow> bool \<Rightarrow> (UtcTime \<Rightarrow> kv \<times> 'l \<Rightarrow> 'a outcome \<times> kv \<times> 'l) \<Rightarrow> UtcTime \<Rightarrow> kv \<times> 'l \<Rightarrow> 'a outcome \<times> kv \<times> 'l" where
  "checked_handler st expectSelfPrimary handler now s =
     (if expectSelfPrimary \<and> mc_validate_lease_on_write (ms_config st) then
        (case ensureLeaseValid (selfId st) now (fst s) of
           Inl e \<Rightarrow> (Err e, s)
         | Inr _ \<Rightarrow> handler now s)
      else handler now s)"

definition withReadWriteTxn ::
  "op_env \<Rightarrow> MgmtdState \<Rightarrow> (UtcTime \<Rightarrow> kv \<times> 'l \<Rightarrow> 'a outcome \<times> kv \<times> 'l) \<Rightarrow> bool \<Rightarrow> kv \<times> 'l \<Rightarrow> 'a outcome \<times> kv \<times> 'l" where
  "withReadWriteTxn env st handler expectSelfPrimary =
     txn_loop (createRetryStrategy (ms_config st)) (mc_retry_times_on_txn_errors (ms_config st))
       (checked_handler st expectSelfPrimary handler) (env_attempts env) (0, strategy_init)"

text \<open>A handler that captures nothing it changes.\<close>

definition store_handler :: "(kv \<Rightarrow> kv result) \<Rightarrow> UtcTime \<Rightarrow> kv \<times> unit \<Rightarrow> unit outcome \<times> kv \<times> unit" where
  "store_handler handler now s =
     (case handler (fst s) of Inl e \<Rightarrow> (Err e, s) | Inr kv' \<Rightarrow> (Ret (), kv', ()))"

definition store_txn :: "op_env \<Rightarrow> (kv \<Rightarrow> kv result) \<Rightarrow> unit operation" where
  "store_txn env handler s =
     (case withReadWriteTxn env (snd s) (store_handler handler) True (fst s, ()) of
        (r, kv', _) \<Rightarrow> (r, kv', snd s))"

definition updateStoredRoutingInfo :: "op_env \<Rightarrow> (kv \<Rightarrow> kv result) \<Rightarrow> unit operation" where
  "updateStoredRoutingInfo env handler s =
     (let nextv = nextVersion (ri_routingInfoVersion (routing s))
      in store_txn env (\<lambda>kv. handler (storeRoutingInfoVersion nextv kv)) s)"

definition set_routing :: "RoutingInfo \<Rightarrow> MgmtdState \<Rightarrow> MgmtdState" where
  "set_routing ri st = st\<lparr>ms_data := (ms_data st)\<lparr>md_routingInfo := ri\<rparr>\<rparr>"

definition bump_routing :: "RoutingInfo \<Rightarrow> RoutingInfo" where
  "bump_routing ri = ri\<lparr>ri_routingInfoVersion := ri_routingInfoVersion ri + 1, ri_routingInfoChanged := False\<rparr>"

text \<open>A change of the routing info in memory; None is an abort of the process.\<close>

definition change_routing :: "(RoutingInfo \<Rightarrow> RoutingInfo option) \<Rightarrow> unit operation" where
  "change_routing handler s =
     (case handler (routing s) of
        None \<Rightarrow> (Crash, s)
      | Some ri \<Rightarrow> (Ret (), fst s, set_routing ri (snd s)))"

definition updateMemoryRoutingInfo :: "(RoutingInfo \<Rightarrow> RoutingInfo option) \<Rightarrow> unit operation" where
  "updateMemoryRoutingInfo handler = change_routing (\<lambda>ri. handler (bump_routing ri))"

definition updateSelfConfig :: "op_env \<Rightarrow> ConfigInfo \<Rightarrow> MgmtdState \<Rightarrow> unit outcome" where
  "updateSelfConfig env cfg st =
     (let current = ni_configVersion (ms_selfNodeInfo st)
      in if current > cfg_configVersion cfg then Crash
         else if current \<ge> cfg_configVersion cfg then Ret ()
         else case env_configUpdater env of
                None \<Rightarrow> Ret ()
              | Some updater \<Rightarrow> of_result (updater (cfg_content cfg)))"

definition put_tags :: "TagPair list \<Rightarrow> (string, string) omap \<Rightarrow> (string, string) omap" where
  "put_tags tags m = fold (\<lambda>tp. omap_put (tag_key tp) (tag_value tp)) tags m"

definition try_emplace :: "'k::linorder \<Rightarrow> 'v \<Rightarrow> ('k, 'v) omap \<Rightarrow> ('k, 'v) omap" where
  "try_emplace k v m = (if map_of m k = None then omap_put k v m else m)"

fun remove_tags :: "TagPair list \<Rightarrow> (string, string) omap \<Rightarrow> (string, string) omap result" where
  "remove_tags [] m = Inr m"
| "remove_tags (tp # tps) m =
     (if tag_value tp \<noteq> [] then Inl (Mgmtd kInvalidTag) else remove_tags tps (omap_erase (tag_key tp) m))"

definition updateTags :: "SetTagMode \<Rightarrow> TagPair list \<Rightarrow> TagPair list \<Rightarrow> TagPair list result" where
  "updateTags mode oldTags updates =
     (case (case mode of
              REPLACE \<Rightarrow> Inr (put_tags updates [])
            | UPSERT \<Rightarrow> Inr (fold (\<lambda>tp. try_emplace (tag_key tp) (tag_value tp)) oldTags (put_tags updates []))
            | REMOVE \<Rightarrow> remove_tags updates (put_tags oldTags [])) of
        Inl e \<Rightarrow> Inl e
      | Inr tagMap \<Rightarrow> Inr (map (\<lambda>(k, v). \<lparr>tag_key = k, tag_value = v\<rparr>) tagMap))"

section \<open>Transactions\<close>

definition clean :: "attempts \<Rightarrow> bool" where
  "clean atts \<longleftrightarrow> (\<forall>a \<in> set atts. \<forall>e. snd a \<noteq> CommitUnknown e)"

text \<open>
  What a transaction does to the store, whatever its attempts: \<open>reach\<close> holds for the store before and
  is kept by the handler. The result is the handler's on such a store, or an error.
\<close>

lemma txn_loop_rule:
  assumes "reach (fst s) (snd s)"
    and step: "\<And>now kv l r kv' l'. now \<in> fst ` set atts \<Longrightarrow> reach kv l \<Longrightarrow> handler now (kv, l) = (r, kv', l') \<Longrightarrow>
      reach kv l' \<and> (\<forall>x. r = Ret x \<longrightarrow> reach kv' l' \<and> good x kv' l') \<and> (r = Crash \<longrightarrow> bad)"
  shows "case txn_loop cfg n handler atts loop s of (r, kv', l') \<Rightarrow>
    reach kv' l' \<and> (r = Crash \<longrightarrow> bad) \<and> (\<forall>x. r = Ret x \<longrightarrow> good x kv' l')"
  using assms
proof (induction atts arbitrary: loop s)
  case (Cons att atts)
  obtain now v where att: "att = (now, v)" by (rule prod.exhaust)
  obtain kv l where s: "s = (kv, l)" by (rule prod.exhaust)
  obtain r kv' l' where h: "handler now (kv, l) = (r, kv', l')" by (rule prod_cases3)
  have reach: "reach kv l" using Cons.prems(1) s by simp
  note facts = Cons.prems(2) [OF _ reach h, unfolded att, simplified]
  obtain r1 s1 where a: "txn_attempt handler att s = (r1, s1)" by (rule prod.exhaust)
  have s1: "reach (fst s1) (snd s1)" "r1 = Crash \<longrightarrow> bad" "\<And>x. r1 = Ret x \<Longrightarrow> good x (fst s1) (snd s1)"
    using a reach facts unfolding txn_attempt_def att s by (auto simp: h split: verdict.splits outcome.splits)
  show ?case
  proof (cases r1)
    case (Err e)
    have "case txn_loop cfg n handler atts loop s1 of (r, kv', l') \<Rightarrow>
      reach kv' l' \<and> (r = Crash \<longrightarrow> bad) \<and> (\<forall>x. r = Ret x \<longrightarrow> good x kv' l')" for loop
      by (rule Cons.IH [OF s1(1)], rule Cons.prems(2)) simp_all
    with Err a s1 show ?thesis by (auto split: sum.splits)
  qed (use a s1 in \<open>auto split: prod.splits\<close>)
qed (auto split: prod.splits)

lemma txn_loop_reach:
  assumes "reach (fst s) (snd s)"
    and "\<And>now kv l r kv' l'. reach kv l \<Longrightarrow> handler now (kv, l) = (r, kv', l') \<Longrightarrow>
      reach kv l' \<and> (\<forall>x. r = Ret x \<longrightarrow> reach kv' l' \<and> good x kv' l') \<and> r \<noteq> Crash"
  shows "case txn_loop cfg n handler atts loop s of (r, kv', l') \<Rightarrow>
    reach kv' l' \<and> r \<noteq> Crash \<and> (\<forall>x. r = Ret x \<longrightarrow> good x kv' l')"
proof -
  have "case txn_loop cfg n handler atts loop s of (r, kv', l') \<Rightarrow>
    reach kv' l' \<and> (r = Crash \<longrightarrow> False) \<and> (\<forall>x. r = Ret x \<longrightarrow> good x kv' l')"
    by (rule txn_loop_rule [where reach = reach, OF assms(1)]) (use assms(2) in blast)
  then show ?thesis by simp
qed

lemma txn_loop_clean:
  assumes "clean atts"
    and "\<And>now kv u r kv' u'. handler now (kv, u) = (r, kv', u') \<Longrightarrow> u' = u"
    and "txn_loop cfg n handler atts loop s = (r, s')" and "\<And>x. r \<noteq> Ret x"
  shows "s' = s"
  using assms(1,3)
proof (induction atts arbitrary: loop s)
  case (Cons att atts)
  obtain now v where att: "att = (now, v)" by (rule prod.exhaust)
  obtain kv l where s: "s = (kv, l)" by (rule prod.exhaust)
  obtain r0 kv' l' where h: "handler now (kv, l) = (r0, kv', l')" by (rule prod_cases3)
  have v: "\<And>e. v \<noteq> CommitUnknown e" and rest: "clean atts"
    using Cons.prems(1) att by (auto simp: clean_def)
  obtain r1 s1 where a: "txn_attempt handler att s = (r1, s1)" by (rule prod.exhaust)
  have s1: "s1 = s" if "\<And>x. r1 \<noteq> Ret x"
    using a that v assms(2) [OF h] unfolding txn_attempt_def att s
    by (auto simp: h split: verdict.splits outcome.splits)
  show ?case
  proof (cases r1)
    case (Err e)
    then have "s1 = s" using s1 by simp
    show ?thesis
    proof (cases "after_failure cfg n e loop")
      case (Inl err)
      then show ?thesis using Cons.prems(2) a Err \<open>s1 = s\<close> by simp
    next
      case (Inr loop')
      then have "txn_loop cfg n handler atts loop' s = (r, s')"
        using Cons.prems(2) a Err \<open>s1 = s\<close> by simp
      with Cons.IH [OF rest] show ?thesis by blast
    qed
  qed (use Cons.prems(2) a s1 assms(4) in auto)
qed simp

text \<open>
  A store transaction whose handler does \<open>G\<close> to the tables, where doing it twice is doing it once: an
  attempt that was applied although it reported a failure does no harm to the next one.
\<close>

definition implements :: "(kv \<Rightarrow> kv result) \<Rightarrow> (abs_store \<Rightarrow> abs_store) \<Rightarrow> bool" where
  "implements handler G \<longleftrightarrow> (\<forall>kv kv'. kv_ok kv \<longrightarrow> handler kv = Inr kv' \<longrightarrow>
     kv_ok kv' \<and> abs_store kv' = G (abs_store kv)) \<and> (\<forall>a. st_lease (G a) = st_lease a)"

lemma implementsD:
  assumes "implements handler G"
  shows "kv_ok kv \<Longrightarrow> handler kv = Inr kv' \<Longrightarrow> kv_ok kv'"
    "kv_ok kv \<Longrightarrow> handler kv = Inr kv' \<Longrightarrow> abs_store kv' = G (abs_store kv)"
    "st_lease (G a) = st_lease a"
  using assms by (simp_all add: implements_def)

lemma checked_store_handler:
  "checked_handler st b (store_handler handler) now (k, u) = (r, k', u') \<Longrightarrow>
   (\<exists>e. r = Err e) \<and> k' = k \<or> r = Ret () \<and> handler k = Inr k'"
  by (auto simp: checked_handler_def store_handler_def split: if_splits sum.splits)

lemma store_txn_effect:
  assumes ok: "kv_ok kv"
    and handler: "implements handler G"
    and idem: "\<forall>a. G (G a) = G a"
    and run: "store_txn env handler (kv, st) = (r, kv', st')"
  shows "st' = st" "kv_ok kv'" "r \<noteq> Crash" "\<And>x. r = Ret x \<Longrightarrow> abs_store kv' = G (abs_store kv)"
    "st_lease (abs_store kv') = st_lease (abs_store kv)"
    "clean (env_attempts env) \<Longrightarrow> (\<And>x. r \<noteq> Ret x) \<Longrightarrow> kv' = kv"
proof -
  let ?loop = "txn_loop (createRetryStrategy (ms_config st)) (mc_retry_times_on_txn_errors (ms_config st))
     (checked_handler st True (store_handler handler)) (env_attempts env) (0, strategy_init) (kv, ())"
  let ?reach = "\<lambda>k (u :: unit). kv_ok k \<and> (abs_store k = abs_store kv \<or> abs_store k = G (abs_store kv))"
  let ?good = "\<lambda>(x :: unit) k (u :: unit). abs_store k = G (abs_store kv)"
  obtain r0 k0 u0 where "?loop = (r0, k0, u0)" by (rule prod_cases3)
  then have loop: "?loop = (r, kv', ())" and st: "st' = st"
    using run by (simp_all add: store_txn_def withReadWriteTxn_def)
  note lease = implementsD(3) [OF handler, of "abs_store kv"]
  have step: "?reach k l' \<and> (\<forall>x. r = Ret x \<longrightarrow> ?reach k' l' \<and> ?good x k' l') \<and> r \<noteq> Crash"
    if "?reach k u" "checked_handler st True (store_handler handler) now (k, u) = (r, k', l')" for now k u r k' l'
    using checked_store_handler [OF that(2)]
  proof
    assume "r = Ret () \<and> handler k = Inr k'"
    moreover from this that(1) have "kv_ok k'" "abs_store k' = G (abs_store k)"
      using implementsD(1,2) [OF handler] by auto
    moreover have "G (abs_store k) = G (abs_store kv)"
      using that(1) idem by metis
    ultimately show ?thesis using that(1) by simp
  qed (use that(1) in auto)
  have "?reach (fst (kv, ())) (snd (kv, ()))"
    using ok by simp
  from txn_loop_reach [where reach = ?reach and good = ?good, OF this step]
  have "case ?loop of (r, k, u) \<Rightarrow> ?reach k u \<and> r \<noteq> Crash \<and> (\<forall>x. r = Ret x \<longrightarrow> ?good x k u)" .
  then show "st' = st" "kv_ok kv'" "r \<noteq> Crash" "\<And>x. r = Ret x \<Longrightarrow> abs_store kv' = G (abs_store kv)"
    "st_lease (abs_store kv') = st_lease (abs_store kv)"
    unfolding loop using st lease by auto
  show "kv' = kv" if "clean (env_attempts env)" "\<And>x. r \<noteq> Ret x"
    using txn_loop_clean [OF that(1) _ loop that(2)] by simp
qed

text \<open>A handler that always fails.\<close>

lemma store_txn_fails:
  assumes "\<And>kv. \<exists>e. handler kv = Inl e" and "store_txn env handler (kv, st) = (r, s')"
  shows "r \<noteq> Crash" "r \<noteq> Ret x" "s' = (kv, st)"
proof -
  let ?loop = "txn_loop (createRetryStrategy (ms_config st)) (mc_retry_times_on_txn_errors (ms_config st))
     (checked_handler st True (store_handler handler)) (env_attempts env) (0, strategy_init) (kv, ())"
  have step: "k = kv \<and> (\<forall>x. r = Ret x \<longrightarrow> k' = kv \<and> False) \<and> r \<noteq> Crash"
    if "k = kv" "checked_handler st True (store_handler handler) now (k, u) = (r, k', l')" for now k u r k' l'
    using checked_store_handler [OF that(2)] assms(1) [of k] that(1) by auto
  obtain r0 k0 u0 where loop: "?loop = (r0, k0, u0)" by (rule prod_cases3)
  from txn_loop_reach [where reach = "\<lambda>k u. k = kv" and good = "\<lambda>x k u. False" and s = "(kv, ())", OF _ step]
  have "case ?loop of (r, k, u) \<Rightarrow> k = kv \<and> r \<noteq> Crash \<and> (\<forall>x. r = Ret x \<longrightarrow> False)"
    by simp
  with loop assms(2) show "r \<noteq> Crash" "r \<noteq> Ret x" "s' = (kv, st)"
    by (auto simp: store_txn_def withReadWriteTxn_def)
qed

section \<open>Tags\<close>

definition tag_pairs :: "TagPair list \<Rightarrow> (string \<times> string) list" where
  "tag_pairs tags = map (\<lambda>tp. (tag_key tp, tag_value tp)) tags"

text \<open>If a key occurs twice, the first or the last occurrence counts.\<close>

abbreviation first_tags :: "TagPair list \<Rightarrow> string \<rightharpoonup> string" where
  "first_tags tags \<equiv> map_of (tag_pairs tags)"

abbreviation last_tags :: "TagPair list \<Rightarrow> string \<rightharpoonup> string" where
  "last_tags tags \<equiv> map_of (rev (tag_pairs tags))"

lemma put_tags_wf: "omap_wf m \<Longrightarrow> omap_wf (put_tags tags m)"
  unfolding put_tags_def by (induction tags arbitrary: m) auto

lemma put_tags_lookup: "map_of (put_tags tags m) = map_of m ++ last_tags tags"
proof (induction tags arbitrary: m)
  case (Cons tp tps)
  have "map_of (put_tags (tp # tps) m) = (map_of m)(tag_key tp \<mapsto> tag_value tp) ++ last_tags tps"
    using Cons [of "omap_put (tag_key tp) (tag_value tp) m"] by (simp add: put_tags_def fun_upd_def)
  then show ?case
    by (simp add: tag_pairs_def)
qed (simp add: put_tags_def tag_pairs_def)

lemma emplace_tags_lookup:
  "map_of (fold (\<lambda>tp. try_emplace (tag_key tp) (tag_value tp)) tags m) = first_tags tags ++ map_of m"
proof (induction tags arbitrary: m)
  case (Cons tp tps)
  show ?case
    using Cons [of "try_emplace (tag_key tp) (tag_value tp) m"]
    by (auto simp: try_emplace_def tag_pairs_def map_add_def fun_eq_iff split: option.splits)
qed (simp add: tag_pairs_def)

lemma emplace_tags_wf:
  "omap_wf m \<Longrightarrow> omap_wf (fold (\<lambda>tp. try_emplace (tag_key tp) (tag_value tp)) tags m)"
  by (induction tags arbitrary: m) (auto simp: try_emplace_def)

lemma remove_tags_Inr:
  "remove_tags tps m = Inr m' \<Longrightarrow> map_of m' = map_of m |` (- tag_key ` set tps) \<and> (omap_wf m \<longrightarrow> omap_wf m') \<and>
     (\<forall>tp \<in> set tps. tag_value tp = [])"
  by (induction tps arbitrary: m) (auto simp: restrict_map_def fun_eq_iff split: if_splits)

lemma remove_tags_Inl:
  "remove_tags tps m = Inl e \<Longrightarrow> e = Mgmtd kInvalidTag \<and> (\<exists>tp \<in> set tps. tag_value tp \<noteq> [])"
  by (induction tps arbitrary: m) (auto split: if_splits)

lemma tag_pairs_of_pairs: "tag_pairs (map (\<lambda>(k, v). \<lparr>tag_key = k, tag_value = v\<rparr>) m) = m"
  by (induction m) (auto simp: tag_pairs_def)

lemma sorted_tag_keys: "omap_wf m \<Longrightarrow> sorted_wrt (<) (map tag_key (map (\<lambda>(k, v). \<lparr>tag_key = k, tag_value = v\<rparr>) m))"
  by (simp add: omap_wf_def comp_def case_prod_unfold)

text \<open>
  \<open>updateTags\<close> returns the tags sorted by key, each key once. REPLACE takes the updates alone,
  UPSERT lays the updates over the old tags, REMOVE drops the keys of the updates, and if a key
  occurs twice among the updates the last value counts. The only error is a value given to REMOVE.
\<close>

lemma updateTags_effect:
  "case updateTags mode old updates of
     Inl e \<Rightarrow> e = Mgmtd kInvalidTag \<and> mode = REMOVE \<and> (\<exists>tp \<in> set updates. tag_value tp \<noteq> [])
   | Inr new \<Rightarrow> sorted_wrt (<) (map tag_key new) \<and>
       first_tags new = (case mode of
          REPLACE \<Rightarrow> last_tags updates
        | UPSERT \<Rightarrow> first_tags old ++ last_tags updates
        | REMOVE \<Rightarrow> last_tags old |` (- tag_key ` set updates))"
proof (cases mode)
  case REPLACE
  then show ?thesis
    by (simp add: updateTags_def put_tags_wf sorted_tag_keys tag_pairs_of_pairs put_tags_lookup
        del: map_map)
next
  case UPSERT
  then show ?thesis
    by (simp add: updateTags_def put_tags_wf emplace_tags_wf sorted_tag_keys tag_pairs_of_pairs put_tags_lookup
        emplace_tags_lookup del: map_map)
next
  case REMOVE
  show ?thesis
  proof (cases "remove_tags updates (put_tags old [])")
    case (Inl e)
    with REMOVE remove_tags_Inl [OF Inl] show ?thesis by (simp add: updateTags_def)
  next
    case (Inr m)
    from remove_tags_Inr [OF Inr] have "omap_wf m" "map_of m = last_tags old |` (- tag_key ` set updates)"
      by (simp_all add: put_tags_wf put_tags_lookup)
    with REMOVE Inr show ?thesis
      by (simp add: updateTags_def sorted_tag_keys tag_pairs_of_pairs del: map_map)
  qed
qed

end
