(* ===== verification/Mgmtd_Invariant.thy ===== *)
theory Mgmtd_Invariant
  imports Mgmtd_State
begin

text \<open>
  The contract of the operations that change the cluster manager's state. The invariant says that
  the data in memory is well-formed and that the store holds the same nodes, chains, chain tables,
  configurations and tags; the stored version of the routing info is the one in memory or the next.
  An operation that returns keeps the invariant, moves the routing info one step, and never removes
  a chain or changes its targets without raising its version; an operation that fails leaves the
  memory alone. No operation aborts the process.
\<close>

section \<open>The invariant\<close>

definition node_table :: "RoutingInfo \<Rightarrow> NodeId \<rightharpoonup> PersistentNodeInfo" where
  "node_table ri i = map_option (\<lambda>nw. toPersistentNode (nw_base nw)) (map_of (ri_nodeMap ri) i)"

definition chainTable_table :: "RoutingInfo \<Rightarrow> ChainTableId \<times> ChainTableVersion \<rightharpoonup> ChainTable" where
  "chainTable_table ri = (\<lambda>(i, v). Option.bind (map_of (ri_chainTables ri) i) (\<lambda>m. map_of m v))"

definition config_table :: "MgmtdData \<Rightarrow> NodeType \<times> ConfigVersion \<rightharpoonup> ConfigInfo" where
  "config_table data = (\<lambda>(ty, v). Option.bind (map_of (md_configMap data) ty) (\<lambda>m. map_of m v))"

definition nodes_ok :: "RoutingInfo \<Rightarrow> bool" where
  "nodes_ok ri \<longleftrightarrow> (\<forall>i nw. map_of (ri_nodeMap ri) i = Some nw \<longrightarrow> app_nodeId (ni_app (nw_base nw)) = i)"

definition tables_ok :: "RoutingInfo \<Rightarrow> bool" where
  "tables_ok ri \<longleftrightarrow> (\<forall>i m. map_of (ri_chainTables ri) i = Some m \<longrightarrow> m \<noteq> [] \<and> omap_wf m \<and>
     (\<forall>v t. map_of m v = Some t \<longrightarrow> ct_chainTableId t = i \<and> ct_chainTableVersion t = v))"

definition data_ok :: "MgmtdData \<Rightarrow> bool" where
  "data_ok data \<longleftrightarrow> ri_wf (md_routingInfo data) \<and> nodes_ok (md_routingInfo data) \<and>
     tables_ok (md_routingInfo data) \<and> configs_wf data"

definition version_synced :: "RoutingInfoVersion option \<Rightarrow> RoutingInfoVersion \<Rightarrow> bool" where
  "version_synced stored v \<longleftrightarrow> stored = Some v \<or> stored = Some (v + 1)"

text \<open>Only locations of targets of the chains are stored.\<close>

definition locations_ok :: "(TargetId \<rightharpoonup> TargetInfo) \<Rightarrow> (ChainId \<rightharpoonup> ChainInfo) \<Rightarrow> bool" where
  "locations_ok L C \<longleftrightarrow> (\<forall>tid. L tid \<noteq> None \<longrightarrow> (\<exists>cid c. C cid = Some c \<and> tid \<in> set (chain_ids c)))"

text \<open>Version 0 of a configuration is the empty default, which is not stored.\<close>

definition synced :: "abs_store \<Rightarrow> MgmtdData \<Rightarrow> bool" where
  "synced T data \<longleftrightarrow>
     st_nodes T = node_table (md_routingInfo data) \<and>
     st_chains T = map_of (ri_chains (md_routingInfo data)) \<and>
     st_chainTables T = chainTable_table (md_routingInfo data) \<and>
     st_tags T = map_of (md_universalTagsMap data) \<and>
     (\<forall>ty v. v \<noteq> 0 \<longrightarrow> st_configs T (ty, v) = config_table data (ty, v)) \<and>
     version_synced (st_version T) (ri_routingInfoVersion (md_routingInfo data)) \<and>
     locations_ok (st_targets T) (map_of (ri_chains (md_routingInfo data)))"

definition mgmtd_inv :: "kv \<times> MgmtdState \<Rightarrow> bool" where
  "mgmtd_inv s \<longleftrightarrow> kv_ok (fst s) \<and> data_ok (ms_data (snd s)) \<and> synced (abs_store (fst s)) (ms_data (snd s))"

section \<open>Steps of the routing info\<close>

text \<open>A chain may keep its version only if it keeps its targets with their states; otherwise it gets the
  next version.\<close>

definition chain_step :: "ChainInfo \<Rightarrow> ChainInfo \<Rightarrow> bool" where
  "chain_step c c' \<longleftrightarrow> ci_chainId c' = ci_chainId c \<and>
     (ci_chainVersion c' = ci_chainVersion c \<and> ci_targets c' = ci_targets c \<or>
      ci_chainVersion c' = ci_chainVersion c + 1)"

definition same_epoch :: "ChainInfo \<Rightarrow> ChainInfo \<Rightarrow> bool" where
  "same_epoch c c' \<longleftrightarrow> ci_chainVersion c' = ci_chainVersion c \<and> ci_targets c' = ci_targets c"

definition routing_step :: "RoutingInfo \<Rightarrow> RoutingInfo \<Rightarrow> bool" where
  "routing_step ri ri' \<longleftrightarrow>
     (\<forall>cid c. map_of (ri_chains ri) cid = Some c \<longrightarrow>
        (\<exists>c'. map_of (ri_chains ri') cid = Some c' \<and> chain_step c c')) \<and>
     (ri_routingInfoVersion ri' = ri_routingInfoVersion ri + 1 \<or>
      ri_routingInfoVersion ri' = ri_routingInfoVersion ri \<and>
      (\<forall>cid c'. map_of (ri_chains ri') cid = Some c' \<longrightarrow>
         (\<exists>c. map_of (ri_chains ri) cid = Some c \<and> same_epoch c c')))"

text \<open>What no operation of a client touches.\<close>

definition same_frame :: "MgmtdState \<Rightarrow> MgmtdState \<Rightarrow> bool" where
  "same_frame st st' \<longleftrightarrow> ms_clusterId st' = ms_clusterId st \<and> ms_appInfo st' = ms_appInfo st \<and>
     ms_config st' = ms_config st \<and> md_lease (ms_data st') = md_lease (ms_data st) \<and>
     md_leaseStartTs (ms_data st') = md_leaseStartTs (ms_data st) \<and>
     pn_nodeId (ms_selfPersistentNodeInfo st') = pn_nodeId (ms_selfPersistentNodeInfo st)"

definition op_post :: "op_env \<Rightarrow> kv \<times> MgmtdState \<Rightarrow> 'a outcome \<times> kv \<times> MgmtdState \<Rightarrow> bool" where
  "op_post env s res \<longleftrightarrow> st_lease (abs_store (fst (snd res))) = st_lease (abs_store (fst s)) \<and>
     (case fst res of
        Ret _ \<Rightarrow> mgmtd_inv (snd res) \<and> routing_step (routing s) (routing (snd res)) \<and> same_frame (snd s) (snd (snd res))
      | Crash \<Rightarrow> False
      | _ \<Rightarrow> snd (snd res) = snd s \<and> kv_ok (fst (snd res)) \<and> (clean (env_attempts env) \<longrightarrow> snd res = s))"

lemma same_frame_refl [simp]: "same_frame st st"
  by (simp add: same_frame_def)

lemma chain_step_refl [simp]: "chain_step c c"
  by (simp add: chain_step_def)

lemma same_epoch_refl [simp]: "same_epoch c c"
  by (simp add: same_epoch_def)

lemma routing_step_same:
  "ri_chains ri' = ri_chains ri \<Longrightarrow>
   ri_routingInfoVersion ri' = ri_routingInfoVersion ri \<or> ri_routingInfoVersion ri' = ri_routingInfoVersion ri + 1 \<Longrightarrow>
   routing_step ri ri'"
  by (auto simp: routing_step_def)

section \<open>Rules\<close>

lemma op_post_unchanged: "mgmtd_inv s \<Longrightarrow> r \<noteq> Crash \<Longrightarrow> op_post env s (r, s)"
  by (cases r) (auto simp: op_post_def mgmtd_inv_def routing_step_same)

lemma op_post_simps [simp]:
  "mgmtd_inv s \<Longrightarrow> op_post env s (ret x s)"
  "mgmtd_inv s \<Longrightarrow> op_post env s (fail e s)"
  by (simp_all add: ret_def fail_def op_post_unchanged)

lemma sbind_simps [simp]:
  "sbind (ret x) f = f x"
  "sbind (fail e) f = fail e"
  "sbind (gets g) f s = f (g s) s"
  "sbind (try_result (Inr x)) f = f x"
  "sbind (try_result (Inl e)) f = fail e"
  "sbind (try_outcome (Ret x)) f = f x"
  "sbind (try_outcome (Err e)) f = fail e"
  by (auto simp: sbind_def ret_def fail_def gets_def try_result_def try_outcome_def fun_eq_iff)

text \<open>A check that leaves the state alone: either the operation fails there or it goes on.\<close>

lemma post_check:
  assumes "mgmtd_inv s" and "m s = (r, s)" and "r \<noteq> Crash" and "\<And>x. r = Ret x \<Longrightarrow> op_post env s (f x s)"
  shows "op_post env s (sbind m f s)"
  using assms op_post_unchanged [OF assms(1)] by (cases r) (auto simp: sbind_def)

lemma checks_pure:
  "\<exists>r. validateClusterId cid s = (r, s) \<and> r \<noteq> Crash"
  "\<exists>r. validateAdmin env tok s = (r, s) \<and> r \<noteq> Crash"
  "\<exists>r. ensureSelfIsPrimary env s = (r, s) \<and> r \<noteq> Crash"
  "\<exists>r. when_error b e s = (r, s) \<and> r \<noteq> Crash"
  by (auto simp: validateClusterId_def validateAdmin_def ensureSelfIsPrimary_def when_error_def
      split: sum.splits option.splits)

lemma post_validateClusterId:
  assumes "mgmtd_inv s" and "op_post env s (f () s)"
  shows "op_post env s (sbind (validateClusterId cid) f s)"
  using checks_pure(1) [of cid s] assms by (auto intro: post_check)

lemma post_validateAdmin:
  assumes "mgmtd_inv s" and "op_post env s (f () s)"
  shows "op_post env s (sbind (validateAdmin env tok) f s)"
  using checks_pure(2) [of env tok s] assms by (auto intro: post_check)

lemma post_doAsPrimary:
  assumes "mgmtd_inv s" and "op_post env s (h s)"
  shows "op_post env s (doAsPrimary env h s)"
  unfolding doAsPrimary_def using checks_pure(3) [of env s] assms by (auto intro: post_check)

lemma post_when_error:
  assumes "mgmtd_inv s" and "\<not> b \<Longrightarrow> op_post env s (f () s)"
  shows "op_post env s (sbind (when_error b e) f s)"
  by (rule post_check [where r = "if b then Err e else Ret ()"]) (use assms in \<open>auto simp: when_error_def split: if_splits\<close>)

lemma post_try_result:
  assumes "mgmtd_inv s" and "\<And>x. r = Inr x \<Longrightarrow> op_post env s (f x s)"
  shows "op_post env s (sbind (try_result r) f s)"
  using assms by (cases r) auto

lemmas post_rules = post_validateClusterId post_validateAdmin post_doAsPrimary post_when_error post_try_result

text \<open>The commit of a change: on success the tables have changed by \<open>G\<close>, otherwise the operation ends
  with the memory as it was.\<close>

lemma post_store_txn:
  assumes inv: "mgmtd_inv s"
    and handler: "implements h G" and idem: "\<forall>a. G (G a) = G a"
    and rest: "\<And>kv'. kv_ok kv' \<Longrightarrow> abs_store kv' = G (abs_store (fst s)) \<Longrightarrow> op_post env s (f () (kv', snd s))"
  shows "op_post env s (sbind (store_txn env h) f s)"
proof -
  obtain r kv' st' where run: "store_txn env h (fst s, snd s) = (r, kv', st')"
    by (rule prod_cases3)
  have ok: "kv_ok (fst s)" using inv by (simp add: mgmtd_inv_def)
  note eff = store_txn_effect [OF ok handler idem run]
  have run': "store_txn env h s = (r, kv', snd s)"
    using run eff(1) by simp
  have failed: "op_post env s (r', kv', snd s)" if "\<And>x. r \<noteq> Ret x" "r' \<noteq> Crash" "\<And>x. r' \<noteq> Ret x" for r' :: "'a outcome"
    using eff(2,5) eff(6) [OF _ that(1)] that(2,3) by (cases r') (auto simp: op_post_def prod_eq_iff)
  show ?thesis
  proof (cases r)
    case (Ret x)
    with rest [OF eff(2) eff(4) [OF Ret]] show ?thesis by (simp add: sbind_def run')
  next
    case Crash
    with eff(3) show ?thesis by simp
  qed (use failed in \<open>simp_all add: sbind_def run'\<close>)
qed

abbreviation with_version :: "RoutingInfoVersion \<Rightarrow> (abs_store \<Rightarrow> abs_store) \<Rightarrow> abs_store \<Rightarrow> abs_store" where
  "with_version v G a \<equiv> G (a\<lparr>st_version := Some v\<rparr>)"

lemma post_updateStoredRoutingInfo:
  assumes inv: "mgmtd_inv s"
    and handler: "implements h G"
    and idem: "\<forall>a v. with_version v G (with_version v G a) = with_version v G a"
    and rest: "\<And>kv'. kv_ok kv' \<Longrightarrow>
      abs_store kv' = with_version (ri_routingInfoVersion (routing s) + 1) G (abs_store (fst s)) \<Longrightarrow>
      op_post env s (f () (kv', snd s))"
  shows "op_post env s (sbind (updateStoredRoutingInfo env h) f s)"
proof -
  have "sbind (updateStoredRoutingInfo env h) f s =
    sbind (store_txn env (\<lambda>kv. h (storeRoutingInfoVersion (ri_routingInfoVersion (routing s) + 1) kv))) f s"
    by (simp add: sbind_def updateStoredRoutingInfo_def nextVersion_def Let_def)
  also have "op_post env s \<dots>"
  proof (rule post_store_txn [OF inv, where G = "with_version (ri_routingInfoVersion (routing s) + 1) G"])
    show "implements (\<lambda>kv. h (storeRoutingInfoVersion (ri_routingInfoVersion (routing s) + 1) kv))
      (with_version (ri_routingInfoVersion (routing s) + 1) G)"
      unfolding implements_def
    proof (intro conjI allI impI)
      fix kv kv'
      assume "kv_ok kv" and run: "h (storeRoutingInfoVersion (ri_routingInfoVersion (routing s) + 1) kv) = Inr kv'"
      then have "kv_ok (storeRoutingInfoVersion (ri_routingInfoVersion (routing s) + 1) kv)" by simp
      from implementsD(1,2) [OF handler this run]
      show "kv_ok kv'" "abs_store kv' = with_version (ri_routingInfoVersion (routing s) + 1) G (abs_store kv)" by simp_all
    qed (simp add: implementsD(3) [OF handler])
  qed (use idem rest in \<open>blast+\<close>)
  finally show ?thesis .
qed

text \<open>The end of an operation: a change of the routing info in memory that matches the store.\<close>

lemma post_change_routing:
  assumes "h (routing s1) = Some ri" and "snd s1 = snd s"
    and "op_post env s (f () (fst s1, set_routing ri (snd s)))"
  shows "op_post env s (sbind (change_routing h) f s1)"
  using assms by (simp add: sbind_def change_routing_def)

lemma set_routing_simps [simp]:
  "md_routingInfo (ms_data (set_routing ri st)) = ri"
  "ms_clusterId (set_routing ri st) = ms_clusterId st" "ms_appInfo (set_routing ri st) = ms_appInfo st"
  "ms_config (set_routing ri st) = ms_config st" "ms_selfPersistentNodeInfo (set_routing ri st) = ms_selfPersistentNodeInfo st"
  "md_lease (ms_data (set_routing ri st)) = md_lease (ms_data st)"
  "md_leaseStartTs (ms_data (set_routing ri st)) = md_leaseStartTs (ms_data st)"
  "md_configMap (ms_data (set_routing ri st)) = md_configMap (ms_data st)"
  "md_universalTagsMap (ms_data (set_routing ri st)) = md_universalTagsMap (ms_data st)"
  by (simp_all add: set_routing_def)

lemma bump_routing_simps [simp]:
  "ri_routingInfoVersion (bump_routing ri) = ri_routingInfoVersion ri + 1"
  "ri_nodeMap (bump_routing ri) = ri_nodeMap ri" "ri_chainTables (bump_routing ri) = ri_chainTables ri"
  "ri_chains (bump_routing ri) = ri_chains ri" "ri_newBornChains (bump_routing ri) = ri_newBornChains ri"
  "ri_orphanTargetsByTargetId (bump_routing ri) = ri_orphanTargetsByTargetId ri"
  "ri_orphanTargetsByNodeId (bump_routing ri) = ri_orphanTargetsByNodeId ri"
  "ri_targets (bump_routing ri) = ri_targets ri"
  by (simp_all add: bump_routing_def)

lemma ri_wf_bump [simp]: "ri_wf (bump_routing ri) \<longleftrightarrow> ri_wf ri"
  by (simp add: ri_wf_def ri_maps_wf_def)

lemma mgmtd_invD:
  assumes "mgmtd_inv s"
  shows "kv_ok (fst s)" "ri_wf (routing s)" "nodes_ok (routing s)" "tables_ok (routing s)" "configs_wf (ms_data (snd s))"
    "st_nodes (abs_store (fst s)) = node_table (routing s)"
    "st_chains (abs_store (fst s)) = map_of (ri_chains (routing s))"
    "st_chainTables (abs_store (fst s)) = chainTable_table (routing s)"
    "st_tags (abs_store (fst s)) = map_of (md_universalTagsMap (ms_data (snd s)))"
    "v \<noteq> 0 \<Longrightarrow> st_configs (abs_store (fst s)) (ty, v) = config_table (ms_data (snd s)) (ty, v)"
    "version_synced (st_version (abs_store (fst s))) (ri_routingInfoVersion (routing s))"
    "locations_ok (st_targets (abs_store (fst s))) (map_of (ri_chains (routing s)))"
  using assms by (simp_all add: mgmtd_inv_def data_ok_def synced_def)

lemma config_table_cong: "md_configMap d' = md_configMap d \<Longrightarrow> config_table d' = config_table d"
  by (simp add: config_table_def)

lemma configs_wf_cong: "md_configMap d' = md_configMap d \<Longrightarrow> configs_wf d' = configs_wf d"
  by (simp add: configs_wf_def)

text \<open>An operation on the routing info alone.\<close>

lemma op_post_routing:
  assumes inv: "mgmtd_inv s" and "kv_ok kv'"
    and "md_configMap (ms_data st') = md_configMap (ms_data (snd s))"
    and "md_universalTagsMap (ms_data st') = md_universalTagsMap (ms_data (snd s))"
    and "same_frame (snd s) st'"
    and "ri_wf (md_routingInfo (ms_data st'))" "nodes_ok (md_routingInfo (ms_data st'))" "tables_ok (md_routingInfo (ms_data st'))"
    and "st_nodes (abs_store kv') = node_table (md_routingInfo (ms_data st'))"
    and "st_chains (abs_store kv') = map_of (ri_chains (md_routingInfo (ms_data st')))"
    and "st_chainTables (abs_store kv') = chainTable_table (md_routingInfo (ms_data st'))"
    and "st_tags (abs_store kv') = st_tags (abs_store (fst s))"
    and "st_configs (abs_store kv') = st_configs (abs_store (fst s))"
    and "version_synced (st_version (abs_store kv')) (ri_routingInfoVersion (md_routingInfo (ms_data st')))"
    and "locations_ok (st_targets (abs_store kv')) (map_of (ri_chains (md_routingInfo (ms_data st'))))"
    and "routing_step (routing s) (md_routingInfo (ms_data st'))"
    and "st_lease (abs_store kv') = st_lease (abs_store (fst s))"
  shows "op_post env s (Ret x, kv', st')"
proof -
  have "configs_wf (ms_data st')"
    using mgmtd_invD(5) [OF inv] configs_wf_cong [OF assms(3)] by blast
  moreover have "\<forall>ty v. v \<noteq> 0 \<longrightarrow> st_configs (abs_store kv') (ty, v) = config_table (ms_data st') (ty, v)"
    unfolding assms(13) config_table_cong [OF assms(3)] using mgmtd_invD(10) [OF inv] by blast
  moreover have "st_tags (abs_store kv') = map_of (md_universalTagsMap (ms_data st'))"
    unfolding assms(4,12) by (rule mgmtd_invD(9) [OF inv])
  ultimately show ?thesis
    unfolding op_post_def mgmtd_inv_def data_ok_def synced_def fst_conv snd_conv outcome.case
    using assms(2,5-11,14-17) by blast
qed

section \<open>Sequences of operations\<close>

definition discard :: "('s, 'a) action \<Rightarrow> ('s, unit) action" where
  "discard m = sbind m (\<lambda>_. ret ())"

lemma op_post_discard: "op_post env s (m s) \<Longrightarrow> op_post env s (discard m s)"
  by (auto simp: discard_def sbind_def ret_def op_post_def split: outcome.splits prod.splits)

text \<open>A sequence of operations, each in its own environment; what the callers see and the state in the
  end.\<close>

fun run_seq :: "(op_env \<Rightarrow> 'q \<Rightarrow> 'a operation) \<Rightarrow> (op_env \<times> 'q) list \<Rightarrow> kv \<times> MgmtdState \<Rightarrow>
    'a outcome list \<times> kv \<times> MgmtdState" where
  "run_seq run [] s = ([], s)"
| "run_seq run ((env, q) # qs) s =
     (case run env q s of (r, s1) \<Rightarrow> (case run_seq run qs s1 of (rs, s2) \<Rightarrow> (r # rs, s2)))"

fun all_allowed :: "(op_env \<Rightarrow> 'q \<Rightarrow> 'a operation) \<Rightarrow> ('q \<Rightarrow> kv \<times> MgmtdState \<Rightarrow> bool) \<Rightarrow> (op_env \<times> 'q) list \<Rightarrow>
    kv \<times> MgmtdState \<Rightarrow> bool" where
  "all_allowed run allowed [] s \<longleftrightarrow> True"
| "all_allowed run allowed ((env, q) # qs) s \<longleftrightarrow> allowed q s \<and> all_allowed run allowed qs (snd (run env q s))"

inductive routing_steps :: "nat \<Rightarrow> RoutingInfo \<Rightarrow> RoutingInfo \<Rightarrow> bool" where
  steps_refl: "routing_steps 0 ri ri"
| steps_step: "routing_step ri ri1 \<Longrightarrow> routing_steps n ri1 ri2 \<Longrightarrow> routing_steps (Suc n) ri ri2"

text \<open>The versions after some steps: the routing version has risen \<open>k\<close> times, and if it has not, there is
  no new chain; a chain has risen at most as often, and if it has not, its targets are as they were.\<close>

definition chain_risen :: "nat \<Rightarrow> ChainInfo \<Rightarrow> ChainInfo \<Rightarrow> bool" where
  "chain_risen k c c' \<longleftrightarrow> (\<exists>j \<le> k. ci_chainVersion c' = ci_chainVersion c + of_nat j \<and> (j = 0 \<longrightarrow> ci_targets c' = ci_targets c))"

definition routing_risen :: "nat \<Rightarrow> RoutingInfo \<Rightarrow> RoutingInfo \<Rightarrow> bool" where
  "routing_risen k ri ri' \<longleftrightarrow> ri_routingInfoVersion ri' = ri_routingInfoVersion ri + of_nat k \<and>
     (\<forall>cid c. map_of (ri_chains ri) cid = Some c \<longrightarrow> (\<exists>c'. map_of (ri_chains ri') cid = Some c' \<and> chain_risen k c c')) \<and>
     (k = 0 \<longrightarrow> dom (map_of (ri_chains ri')) \<subseteq> dom (map_of (ri_chains ri)))"

lemma chain_risen_simps:
  "same_epoch c c' \<Longrightarrow> chain_risen 0 c c'" "chain_step c c' \<Longrightarrow> chain_risen 1 c c'"
  by (auto simp: chain_risen_def same_epoch_def chain_step_def le_Suc_eq)

lemma chain_risen_trans:
  assumes "chain_risen k c c1" and "chain_risen l c1 c2"
  shows "chain_risen (k + l) c c2"
proof -
  obtain i j where "i \<le> k" "ci_chainVersion c1 = ci_chainVersion c + of_nat i" "i = 0 \<longrightarrow> ci_targets c1 = ci_targets c"
    "j \<le> l" "ci_chainVersion c2 = ci_chainVersion c1 + of_nat j" "j = 0 \<longrightarrow> ci_targets c2 = ci_targets c1"
    using assms by (auto simp: chain_risen_def)
  then show ?thesis
    unfolding chain_risen_def by (intro exI [of _ "i + j"]) (simp add: add.assoc)
qed

lemma routing_step_risen:
  assumes "routing_step ri ri'"
  shows "\<exists>k \<le> 1. routing_risen k ri ri'"
proof (cases "ri_routingInfoVersion ri' = ri_routingInfoVersion ri + 1")
  case True
  with assms have "routing_risen 1 ri ri'"
    unfolding routing_step_def routing_risen_def using chain_risen_simps(2) by fastforce
  then show ?thesis by blast
next
  case False
  with assms have same: "ri_routingInfoVersion ri' = ri_routingInfoVersion ri"
    "\<And>cid c. map_of (ri_chains ri) cid = Some c \<Longrightarrow> map_of (ri_chains ri') cid \<noteq> None"
    "\<And>cid c'. map_of (ri_chains ri') cid = Some c' \<Longrightarrow> \<exists>c. map_of (ri_chains ri) cid = Some c \<and> same_epoch c c'"
    unfolding routing_step_def by (blast, fastforce, blast)
  have "\<exists>c'. map_of (ri_chains ri') cid = Some c' \<and> chain_risen 0 c c'" if c: "map_of (ri_chains ri) cid = Some c" for cid c
  proof -
    obtain c' where "map_of (ri_chains ri') cid = Some c'" using same(2) [OF c] by blast
    with same(3) [OF this] c show ?thesis by (auto intro: chain_risen_simps(1))
  qed
  moreover have "dom (map_of (ri_chains ri')) \<subseteq> dom (map_of (ri_chains ri))"
    using same(3) by fastforce
  ultimately have "routing_risen 0 ri ri'"
    using same(1) by (simp add: routing_risen_def)
  then show ?thesis by blast
qed

lemma routing_risen_trans:
  assumes "routing_risen k ri ri1" and "routing_risen l ri1 ri2"
  shows "routing_risen (k + l) ri ri2"
proof -
  have "\<exists>c2. map_of (ri_chains ri2) cid = Some c2 \<and> chain_risen (k + l) c c2" if "map_of (ri_chains ri) cid = Some c" for cid c
    using assms that unfolding routing_risen_def by (meson chain_risen_trans)
  moreover have "dom (map_of (ri_chains ri2)) \<subseteq> dom (map_of (ri_chains ri))" if "k + l = 0"
    using assms that unfolding routing_risen_def by (meson add_eq_0_iff_both_eq_0 order_trans)
  ultimately show ?thesis
    using assms by (simp add: routing_risen_def add.assoc)
qed

lemma routing_steps_risen: "routing_steps n ri ri' \<Longrightarrow> \<exists>k \<le> n. routing_risen k ri ri'"
proof (induction rule: routing_steps.induct)
  case (steps_refl ri)
  show ?case by (auto simp: routing_risen_def chain_risen_def)
next
  case (steps_step ri ri1 n ri2)
  obtain k l where "k \<le> 1" "routing_risen k ri ri1" "l \<le> n" "routing_risen l ri1 ri2"
    using routing_step_risen [OF steps_step.hyps(1)] steps_step.IH by blast
  then show ?case
    using routing_risen_trans by (intro exI [of _ "k + l"]) auto
qed

text \<open>Versions identify what they version as long as they cannot have wrapped around.\<close>

lemma of_nat_risen:
  assumes "(v :: 'w::len word) = v + of_nat k" and "k < 2 ^ LENGTH('w)"
  shows "k = 0"
proof -
  from assms(1) have "(of_nat k :: 'w word) = 0" by simp
  then have "2 ^ LENGTH('w) dvd k" by (simp add: word_of_nat_eq_0_iff)
  then show ?thesis using assms(2) by (auto dest: dvd_imp_le)
qed

lemma routing_risen_same:
  assumes "routing_risen k ri ri'" and "k < 2 ^ 64" and "ri_routingInfoVersion ri' = ri_routingInfoVersion ri"
  shows "k = 0"
  using assms of_nat_risen [of "ri_routingInfoVersion ri" k] by (simp add: routing_risen_def)

lemma chain_risen_same:
  assumes "chain_risen k c c'" and "k < 2 ^ 32" and "ci_chainVersion c' = ci_chainVersion c"
  shows "ci_targets c' = ci_targets c"
proof -
  obtain j where j: "j \<le> k" "ci_chainVersion c' = ci_chainVersion c + of_nat j" "j = 0 \<longrightarrow> ci_targets c' = ci_targets c"
    using assms(1) by (auto simp: chain_risen_def)
  with assms(2,3) of_nat_risen [of "ci_chainVersion c" j] show ?thesis by simp
qed

text \<open>The contract as an interface: \<open>allowed\<close> is what an operation needs beyond the invariant.\<close>

locale writer =
  fixes run :: "op_env \<Rightarrow> 'q \<Rightarrow> 'a operation" and allowed :: "'q \<Rightarrow> kv \<times> MgmtdState \<Rightarrow> bool"
  assumes contract: "mgmtd_inv s \<Longrightarrow> allowed q s \<Longrightarrow> op_post env s (run env q s)"
begin

lemma one_step:
  assumes "mgmtd_inv s" and "allowed q s" and "clean (env_attempts env)"
  shows "fst (run env q s) \<noteq> Crash" "mgmtd_inv (snd (run env q s))"
    "routing_step (routing s) (routing (snd (run env q s)))"
    "same_frame (snd s) (snd (snd (run env q s)))"
  using contract [OF assms(1,2), of env] assms
  by (auto simp: op_post_def routing_step_same split: outcome.splits)

lemma sequence_step:
  assumes "mgmtd_inv s" and "all_allowed run allowed qs s"
    and "\<forall>q \<in> set qs. clean (env_attempts (fst q))"
  shows "Crash \<notin> set (fst (run_seq run qs s)) \<and> mgmtd_inv (snd (run_seq run qs s)) \<and>
    routing_steps (length qs) (routing s) (routing (snd (run_seq run qs s)))"
  using assms
proof (induction qs arbitrary: s)
  case (Cons eq qs)
  obtain env q where eq: "eq = (env, q)" by (rule prod.exhaust)
  obtain r s1 where r: "run env q s = (r, s1)" by (rule prod.exhaust)
  obtain rs s2 where rs: "run_seq run qs s1 = (rs, s2)" by (rule prod.exhaust)
  have step: "r \<noteq> Crash" "mgmtd_inv s1" "routing_step (routing s) (routing s1)"
    using one_step [OF Cons.prems(1), of q env] Cons.prems(2,3) unfolding eq by (simp_all add: r)
  have "Crash \<notin> set rs \<and> mgmtd_inv s2 \<and> routing_steps (length qs) (routing s1) (routing s2)"
    using Cons.IH [OF step(2)] Cons.prems(2,3) rs eq r by auto
  with step r rs eq show ?case
    by (auto intro: steps_step)
qed (auto intro: steps_refl)

end

end
