(* ===== verification/Mgmtd_Node_Ops.thy ===== *)
theory Mgmtd_Node_Ops
  imports Mgmtd_Invariant
begin

text \<open>
  The operations of the cluster manager on nodes: enabling, disabling, registering, unregistering,
  tagging, and heartbeats (\<^verbatim>\<open>EnableDisableNodeOperation.cc\<close>, \<^verbatim>\<open>RegisterNodeOperation.cc\<close>,
  \<^verbatim>\<open>UnregisterNodeOperation.cc\<close>, \<^verbatim>\<open>SetNodeTagsOperation.cc\<close> and \<^verbatim>\<open>HeartbeatOperation.cc\<close> in
  \<^verbatim>\<open>src/src/mgmtd/ops\<close>), each with the contract of \<^theory_text>\<open>Mgmtd_Invariant\<close>.
\<close>

section \<open>Definitions\<close>

definition default_AppInfo :: FbsAppInfo where
  "default_AppInfo = \<lparr>app_nodeId = 0, app_hostname = [], app_pid = 0, app_serviceGroups = [],
     app_releaseVersion = default_ReleaseVersion, app_podname = []\<rparr>"

definition default_NodeInfo :: NodeInfo where
  "default_NodeInfo = \<lparr>ni_app = default_AppInfo, ni_type = MGMTD, ni_status = HEARTBEAT_CONNECTING,
     ni_lastHeartbeatTs = 0, ni_tags = [], ni_configVersion = 0, ni_configStatus = CS_NORMAL\<rparr>"

text \<open>\<^verbatim>\<open>nodeMap[nodeId]\<close> creates a default entry for an unknown id.\<close>

definition update_node ::
  "NodeId \<Rightarrow> SteadyTime \<Rightarrow> (NodeInfoWrapper \<Rightarrow> NodeInfoWrapper) \<Rightarrow> RoutingInfo \<Rightarrow> RoutingInfo" where
  "update_node nodeId steadyNow f ri =
     (let info = (case map_of (ri_nodeMap ri) nodeId of
            Some nw \<Rightarrow> nw | None \<Rightarrow> NodeInfoWrapper_of default_NodeInfo steadyNow)
      in ri\<lparr>ri_nodeMap := AList.update nodeId (f info) (ri_nodeMap ri)\<rparr>)"

definition onNodeEnabled :: "NodeInfo \<Rightarrow> NodeInfo" where
  "onNodeEnabled oldNodeInfo = oldNodeInfo\<lparr>ni_status := HEARTBEAT_CONNECTING,
     ni_tags := snd (removeTag (ni_tags oldNodeInfo) kDisabledTagKey)\<rparr>"

definition onNodeDisabled :: "NodeInfo \<Rightarrow> NodeInfo" where
  "onNodeDisabled oldNodeInfo = oldNodeInfo\<lparr>ni_status := DISABLED,
     ni_tags := ni_tags oldNodeInfo @ [\<lparr>tag_key = kDisabledTagKey, tag_value = []\<rparr>]\<rparr>"

definition changeNodeStatus :: "op_env \<Rightarrow> NodeId \<Rightarrow> bool \<Rightarrow> unit operation" where
  "changeNodeStatus env nodeId enable s =
     (case map_of (ri_nodeMap (routing s)) nodeId of
        None \<Rightarrow> fail (Mgmtd kNodeNotFound) s
      | Some nw \<Rightarrow>
          let oldNode = nw_base nw;
              change = (if enable \<and> ni_status oldNode = DISABLED then Some (onNodeEnabled oldNode)
                else if \<not> enable \<and> ni_status oldNode \<noteq> DISABLED then Some (onNodeDisabled oldNode)
                else None)
          in case change of
               None \<Rightarrow> ret () s
             | Some newNode \<Rightarrow>
                 sbind (updateStoredRoutingInfo env (\<lambda>kv. Inr (storeNodeInfo (toPersistentNode newNode) kv))) (\<lambda>_.
                 updateMemoryRoutingInfo (\<lambda>ri. Some (update_node nodeId (env_steadyNow env)
                   (\<lambda>info. (recordStatusChange (ni_status newNode) (env_utcClock env) (info\<lparr>nw_base := newNode\<rparr>))
                      \<lparr>nw_ts := env_steadyNow env\<rparr>) ri))) s)"

definition EnableNodeOperation :: "op_env \<Rightarrow> string \<Rightarrow> string \<Rightarrow> NodeId \<Rightarrow> unit operation" where
  "EnableNodeOperation env clusterId token nodeId =
     sbind (validateClusterId clusterId) (\<lambda>_.
     sbind (validateAdmin env token) (\<lambda>_.
     sbind (gets (\<lambda>s. selfId (snd s))) (\<lambda>self.
     sbind (when_error (nodeId = self) (Common kInvalidArg)) (\<lambda>_.
     doAsPrimary env (changeNodeStatus env nodeId True)))))"

definition DisableNodeOperation :: "op_env \<Rightarrow> string \<Rightarrow> string \<Rightarrow> NodeId \<Rightarrow> unit operation" where
  "DisableNodeOperation env clusterId token nodeId =
     sbind (validateClusterId clusterId) (\<lambda>_.
     sbind (validateAdmin env token) (\<lambda>_.
     sbind (gets (\<lambda>s. selfId (snd s))) (\<lambda>self.
     sbind (when_error (nodeId = self) (Common kInvalidArg)) (\<lambda>_.
     doAsPrimary env (changeNodeStatus env nodeId False)))))"

definition register_node :: "op_env \<Rightarrow> NodeId \<Rightarrow> NodeType \<Rightarrow> unit operation" where
  "register_node env nodeId ty =
     sbind (when_error (nodeId = 0) (Mgmtd kRegisterFail)) (\<lambda>_.
     sbind (gets (\<lambda>s. map_of (ri_nodeMap (routing s)) nodeId)) (\<lambda>known.
     sbind (when_error (known \<noteq> None) (Mgmtd kRegisterFail)) (\<lambda>_.
     let newNode = default_NodeInfo\<lparr>ni_app := default_AppInfo\<lparr>app_nodeId := nodeId\<rparr>, ni_type := ty\<rparr> in
     sbind (updateStoredRoutingInfo env (\<lambda>kv. Inr (storeNodeInfo (toPersistentNode newNode) kv))) (\<lambda>_.
     updateMemoryRoutingInfo (\<lambda>ri. Some (update_node nodeId (env_steadyNow env)
       (\<lambda>node. recordStatusChange (ni_status newNode) (env_utcClock env) (node\<lparr>nw_base := newNode\<rparr>)) ri))))))"

definition RegisterNodeOperation :: "op_env \<Rightarrow> string \<Rightarrow> string \<Rightarrow> NodeId \<Rightarrow> NodeType \<Rightarrow> unit operation" where
  "RegisterNodeOperation env clusterId token nodeId ty =
     sbind (validateClusterId clusterId) (\<lambda>_.
     sbind (validateAdmin env token) (\<lambda>_.
     doAsPrimary env (register_node env nodeId ty)))"

definition unregister_node :: "op_env \<Rightarrow> NodeId \<Rightarrow> unit operation" where
  "unregister_node env nodeId s =
     (case map_of (ri_nodeMap (routing s)) nodeId of
        None \<Rightarrow> fail (Mgmtd kNodeNotFound) s
      | Some nw \<Rightarrow>
          let node = nw_base nw
          in if ni_status node \<noteq> DISABLED \<and> ni_status node \<noteq> HEARTBEAT_FAILED then fail (Common kInvalidArg) s
             else if ni_type node = STORAGE \<and>
               (\<exists>(tid, ti) \<in> set (ri_targets (routing s)). ti_nodeId (tw_base ti) = Some nodeId)
             then fail (Common kInvalidArg) s
             else sbind (updateStoredRoutingInfo env (\<lambda>kv. Inr (clearNodeInfo nodeId kv))) (\<lambda>_.
                  updateMemoryRoutingInfo (\<lambda>ri. Some (ri\<lparr>ri_nodeMap := AList.delete nodeId (ri_nodeMap ri)\<rparr>))) s)"

definition UnregisterNodeOperation :: "op_env \<Rightarrow> string \<Rightarrow> string \<Rightarrow> NodeId \<Rightarrow> unit operation" where
  "UnregisterNodeOperation env clusterId token nodeId =
     sbind (validateClusterId clusterId) (\<lambda>_.
     sbind (validateAdmin env token) (\<lambda>_.
     doAsPrimary env (unregister_node env nodeId)))"

text \<open>\<^verbatim>\<open>SetNodeTags\<close>: the tag of a disabled node and its status follow each other.\<close>

definition retag :: "TagPair list \<Rightarrow> NodeInfo \<Rightarrow> NodeInfo" where
  "retag newTags node =
     (let node1 = node\<lparr>ni_tags := newTags\<rparr>;
          node2 = (if findTag newTags kDisabledTagKey = - 1 \<and> ni_status node1 = DISABLED
             then node1\<lparr>ni_status := HEARTBEAT_CONNECTING\<rparr> else node1)
      in if findTag newTags kDisabledTagKey \<noteq> - 1 \<and> ni_status node2 \<noteq> DISABLED
         then node2\<lparr>ni_status := DISABLED\<rparr> else node2)"

definition retag_self :: "NodeId \<Rightarrow> TagPair list \<Rightarrow> unit operation" where
  "retag_self nodeId newTags s =
     (Ret (), fst s,
      if nodeId = selfId (snd s)
      then (snd s)\<lparr>ms_selfNodeInfo := (ms_selfNodeInfo (snd s))\<lparr>ni_tags := newTags\<rparr>,
                   ms_selfPersistentNodeInfo := (ms_selfPersistentNodeInfo (snd s))\<lparr>pn_tags := newTags\<rparr>\<rparr>
      else snd s)"

definition set_node_tags :: "op_env \<Rightarrow> NodeId \<Rightarrow> TagPair list \<Rightarrow> SetTagMode \<Rightarrow> NodeInfo operation" where
  "set_node_tags env nodeId tags mode s =
     (case map_of (ri_nodeMap (routing s)) nodeId of
        None \<Rightarrow> fail (Mgmtd kNodeNotFound) s
      | Some nw \<Rightarrow>
          let node = nw_base nw
          in sbind (try_result (updateTags mode (ni_tags node) tags)) (\<lambda>newTags.
             if ni_tags node = newTags then ret node
             else let node' = retag newTags node in
               sbind (updateStoredRoutingInfo env (\<lambda>kv. Inr (storeNodeInfo (toPersistentNode node') kv))) (\<lambda>_.
               sbind (updateMemoryRoutingInfo (\<lambda>ri. Some (update_node nodeId (env_steadyNow env)
                 (\<lambda>info. info\<lparr>nw_base := node'\<rparr>) ri))) (\<lambda>_.
               sbind (retag_self nodeId (ni_tags node')) (\<lambda>_.
               ret node')))) s)"

definition SetNodeTagsOperation ::
  "op_env \<Rightarrow> string \<Rightarrow> string \<Rightarrow> NodeId \<Rightarrow> TagPair list \<Rightarrow> SetTagMode \<Rightarrow> NodeInfo operation" where
  "SetNodeTagsOperation env clusterId token nodeId tags mode =
     sbind (validateClusterId clusterId) (\<lambda>_.
     sbind (validateAdmin env token) (\<lambda>_.
     sbind (when_error (\<exists>tp \<in> set tags. tag_key tp = []) (Mgmtd kInvalidTag)) (\<lambda>_.
     doAsPrimary env (set_node_tags env nodeId tags mode))))"

section \<open>Heartbeats\<close>

datatype HeartbeatPayload =
    MetaHeartbeat
  | StorageHeartbeat "LocalTargetInfo list"
  | MgmtdHeartbeat

record HeartbeatInfo =
  hb_info :: HeartbeatPayload
  hb_app :: FbsAppInfo
  hb_hbVersion :: HeartbeatVersion
  hb_configVersion :: ConfigVersion
  hb_configStatus :: ConfigStatus

definition hb_type :: "HeartbeatInfo \<Rightarrow> NodeType" where
  "hb_type hb = (case hb_info hb of MetaHeartbeat \<Rightarrow> META | StorageHeartbeat _ \<Rightarrow> STORAGE | MgmtdHeartbeat \<Rightarrow> MGMTD)"

definition onNewNode :: "HeartbeatInfo \<Rightarrow> UtcTime \<Rightarrow> NodeInfo" where
  "onNewNode hb now = default_NodeInfo\<lparr>ni_app := hb_app hb, ni_type := hb_type hb, ni_status := HEARTBEAT_CONNECTED,
     ni_lastHeartbeatTs := now, ni_configVersion := hb_configVersion hb\<rparr>"

definition onNodeChanged :: "NodeInfo \<Rightarrow> HeartbeatInfo \<Rightarrow> NodeInfo" where
  "onNodeChanged oldNodeInfo hb = oldNodeInfo\<lparr>ni_app := hb_app hb, ni_status := HEARTBEAT_CONNECTED,
     ni_configVersion := hb_configVersion hb, ni_configStatus := hb_configStatus hb\<rparr>"

definition prepareNewNodeInfo ::
  "MgmtdConfig \<Rightarrow> UtcTime \<Rightarrow> NodeInfoWrapper option \<Rightarrow> HeartbeatInfo \<Rightarrow> NodeInfo result" where
  "prepareNewNodeInfo config now oldNode hb =
     (case oldNode of
        None \<Rightarrow> if mc_allow_heartbeat_from_unregistered config then Inr (onNewNode hb now)
          else Inl (Mgmtd kHeartbeatFail)
      | Some nw \<Rightarrow>
          if ni_type (nw_base nw) \<noteq> hb_type hb then Inl (Mgmtd kHeartbeatFail)
          else if ni_status (nw_base nw) = DISABLED then Inl (Mgmtd kHeartbeatFail)
          else if nw_version nw \<ge> hb_hbVersion hb then Inl (Mgmtd kHeartbeatVersionStale)
          else Inr (onNodeChanged (nw_base nw) hb))"

text \<open>The targets of a report: each once, none in the state INVALID.\<close>

fun check_targets :: "TargetId list \<Rightarrow> LocalTargetInfo list \<Rightarrow> unit result" where
  "check_targets seenTargets [] = Inr ()"
| "check_targets seenTargets (lti # ltis) =
     (if lti_targetId lti \<in> set seenTargets then Inl (Mgmtd kHeartbeatFail)
      else if lti_localState lti = LS_INVALID then Inl (Mgmtd kHeartbeatFail)
      else check_targets (lti_targetId lti # seenTargets) ltis)"

definition prepareHandleHeartbeat ::
  "MgmtdState \<Rightarrow> UtcTime \<Rightarrow> HeartbeatInfo \<Rightarrow> (NodeInfoWrapper option \<times> NodeInfo) outcome" where
  "prepareHandleHeartbeat st now hb =
     obind (checkConfigVersion (ms_data st) (hb_type hb) (hb_configVersion hb)) (\<lambda>_.
     let oldNode = map_of (ri_nodeMap (md_routingInfo (ms_data st))) (app_nodeId (hb_app hb)) in
     obind (of_result (prepareNewNodeInfo (ms_config st) now oldNode hb)) (\<lambda>newNode.
     obind (case hb_info hb of StorageHeartbeat ltis \<Rightarrow> of_result (check_targets [] ltis) | _ \<Rightarrow> Ret ()) (\<lambda>_.
     Ret (oldNode, newNode))))"

text \<open>The change of the routing info in memory, in the order of the code.\<close>

definition heartbeat_memory ::
  "op_env \<Rightarrow> MgmtdConfig \<Rightarrow> HeartbeatInfo \<Rightarrow> NodeInfo \<Rightarrow> bool \<Rightarrow> bool \<Rightarrow> RoutingInfo \<Rightarrow> RoutingInfo option" where
  "heartbeat_memory env config hb newNode needPersist statusChanged ri =
     (let nodeId = app_nodeId (hb_app hb);
          ri1 = ri\<lparr>ri_routingInfoChanged := ri_routingInfoChanged ri \<or> statusChanged\<rparr>;
          ri2 = update_node nodeId (env_steadyNow env) (\<lambda>info. info\<lparr>
             nw_base := newNode\<lparr>ni_lastHeartbeatTs := env_now env\<rparr>, nw_ts := env_steadyNow env,
             nw_version := hb_hbVersion hb\<rparr>) ri1
      in Option.bind
           (case hb_info hb of
              StorageHeartbeat ltis \<Rightarrow>
                localUpdateTargets nodeId ltis (mc_heartbeat_ignore_stale_targets config) (env_steadyNow env) ri2
            | _ \<Rightarrow> Some ri2)
           (\<lambda>ri3.
              let ri4 = (if needPersist then bump_routing ri3 else ri3)
              in Some (if statusChanged
                       then update_node nodeId (env_steadyNow env)
                         (recordStatusChange (ni_status newNode) (env_now env)) ri4
                       else ri4)))"

definition handle_heartbeat :: "op_env \<Rightarrow> HeartbeatInfo \<Rightarrow> UtcTime \<Rightarrow> ConfigInfo option operation" where
  "handle_heartbeat env hb timestamp s =
     (let st = snd s; nodeId = app_nodeId (hb_app hb); now = env_now env;
          validWindow = mc_heartbeat_timestamp_valid_window (ms_config st)
      in if nodeId = selfId st then fail (Mgmtd kHeartbeatFail) s
         else if nodeId = 0 then fail (Mgmtd kHeartbeatFail) s
         else if validWindow \<noteq> 0 \<and> (timestamp + validWindow < now \<or> now + validWindow < timestamp)
         then fail (Mgmtd kHeartbeatFail) s
         else sbind (try_outcome (prepareHandleHeartbeat st now hb)) (\<lambda>(oldNode, newNode).
           let persistentNewNode = toPersistentNode newNode;
               needPersist = (case oldNode of None \<Rightarrow> True
                 | Some nw \<Rightarrow> toPersistentNode (nw_base nw) \<noteq> persistentNewNode);
               statusChanged = (case oldNode of None \<Rightarrow> True | Some nw \<Rightarrow> ni_status (nw_base nw) \<noteq> ni_status newNode)
           in sbind (if needPersist
                     then updateStoredRoutingInfo env (\<lambda>kv. Inr (storeNodeInfo persistentNewNode kv))
                     else ret ()) (\<lambda>_.
              sbind (change_routing (heartbeat_memory env (ms_config st) hb newNode needPersist statusChanged)) (\<lambda>_ s1.
              try_outcome (getConfig (ms_data (snd s1)) (hb_type hb) (hb_configVersion hb) True) s1))) s)"

definition HeartbeatOperation :: "op_env \<Rightarrow> string \<Rightarrow> HeartbeatInfo \<Rightarrow> UtcTime \<Rightarrow> ConfigInfo option operation" where
  "HeartbeatOperation env clusterId hb timestamp =
     sbind (validateClusterId clusterId) (\<lambda>_.
     doAsPrimary env (handle_heartbeat env hb timestamp))"

section \<open>Changing a node\<close>

lemma update_node_simps [simp]:
  "ri_chains (update_node i t f ri) = ri_chains ri" "ri_chainTables (update_node i t f ri) = ri_chainTables ri"
  "ri_targets (update_node i t f ri) = ri_targets ri" "ri_newBornChains (update_node i t f ri) = ri_newBornChains ri"
  "ri_orphanTargetsByTargetId (update_node i t f ri) = ri_orphanTargetsByTargetId ri"
  "ri_orphanTargetsByNodeId (update_node i t f ri) = ri_orphanTargetsByNodeId ri"
  "ri_routingInfoVersion (update_node i t f ri) = ri_routingInfoVersion ri"
  by (simp_all add: update_node_def Let_def)

lemma map_of_update_node:
  "map_of (ri_nodeMap (update_node i t f ri)) = (map_of (ri_nodeMap ri))(i \<mapsto> f (case map_of (ri_nodeMap ri) i of
     Some nw \<Rightarrow> nw | None \<Rightarrow> NodeInfoWrapper_of default_NodeInfo t))"
  by (simp add: update_node_def Let_def update_conv')

lemma update_node_wf: "ri_wf ri \<Longrightarrow> ri_wf (update_node i t f ri)"
  by (simp add: ri_wf_def ri_maps_wf_def update_node_def Let_def distinct_update)

lemma update_node_table:
  assumes "\<And>nw. nw_base (f nw) = n"
  shows "node_table (update_node i t f ri) = (node_table ri)(i \<mapsto> toPersistentNode n)"
  by (auto simp: node_table_def map_of_update_node assms)

lemma update_node_nodes_ok:
  assumes "nodes_ok ri" and "\<And>nw. nw_base (f nw) = n" and "app_nodeId (ni_app n) = i"
  shows "nodes_ok (update_node i t f ri)"
  using assms by (auto simp: nodes_ok_def map_of_update_node)

lemma update_node_tables: "tables_ok (update_node i t f ri) = tables_ok ri"
  "chainTable_table (update_node i t f ri) = chainTable_table ri"
  by (simp_all add: tables_ok_def chainTable_table_def)

lemma bump_tables [simp]: "tables_ok (bump_routing ri) = tables_ok ri"
  "chainTable_table (bump_routing ri) = chainTable_table ri" "nodes_ok (bump_routing ri) = nodes_ok ri"
  "node_table (bump_routing ri) = node_table ri"
  by (simp_all add: tables_ok_def chainTable_table_def nodes_ok_def node_table_def fun_eq_iff)

lemma implements_storeNode:
  "implements (\<lambda>kv. Inr (storeNodeInfo n kv)) (\<lambda>a. a\<lparr>st_nodes := (st_nodes a)(pn_nodeId n \<mapsto> n)\<rparr>)"
  by (simp add: implements_def)

lemma implements_clearNode:
  "implements (\<lambda>kv. Inr (clearNodeInfo i kv)) (\<lambda>a. a\<lparr>st_nodes := (st_nodes a)(i := None)\<rparr>)"
  by (simp add: implements_def)

lemma pn_nodeId_toPersistentNode [simp]: "pn_nodeId (toPersistentNode n) = app_nodeId (ni_app n)"
  by (simp add: toPersistentNode_def)

text \<open>Storing a node and setting it in memory, with the next version of the routing info.\<close>

lemma post_node_written:
  assumes inv: "mgmtd_inv s" and ok: "kv_ok kv'"
    and abs: "abs_store kv' = with_version (ri_routingInfoVersion (routing s) + 1)
      (\<lambda>a. a\<lparr>st_nodes := (st_nodes a)(pn_nodeId (toPersistentNode n) \<mapsto> toPersistentNode n)\<rparr>) (abs_store (fst s))"
    and i: "app_nodeId (ni_app n) = i" and base: "\<And>nw. nw_base (f nw) = n"
    and st': "ms_data st' = ms_data (set_routing (update_node i t f (bump_routing (routing s))) (snd s))"
    and frame: "same_frame (snd s) st'"
  shows "op_post env s (Ret x, kv', st')"
  using mgmtd_invD [OF inv] frame
  by (intro op_post_routing [OF inv ok])
    (simp_all add: st' abs i update_node_wf update_node_table [OF base] update_node_nodes_ok [OF _ base i]
      update_node_tables version_synced_def routing_step_same)

lemma post_change_node:
  fixes k :: "unit \<Rightarrow> 'a operation"
  assumes inv: "mgmtd_inv s" and i: "app_nodeId (ni_app n) = i" and base: "\<forall>nw. nw_base (f nw) = n"
    and rest: "\<And>kv'. \<forall>(x :: 'a) st'. ms_data st' = ms_data (set_routing (update_node i t f (bump_routing (routing s))) (snd s)) \<longrightarrow>
        same_frame (snd s) st' \<longrightarrow> op_post env s (Ret x, kv', st') \<Longrightarrow>
      op_post env s (k () (kv', set_routing (update_node i t f (bump_routing (routing s))) (snd s)))"
  shows "op_post env s (sbind (updateStoredRoutingInfo env (\<lambda>kv. Inr (storeNodeInfo (toPersistentNode n) kv))) (\<lambda>_.
    sbind (updateMemoryRoutingInfo (\<lambda>ri. Some (update_node i t f ri))) k) s)"
proof (rule post_updateStoredRoutingInfo [OF inv implements_storeNode])
  fix kv'
  assume kv': "kv_ok kv'" "abs_store kv' = with_version (ri_routingInfoVersion (routing s) + 1)
      (\<lambda>a. a\<lparr>st_nodes := (st_nodes a)(pn_nodeId (toPersistentNode n) \<mapsto> toPersistentNode n)\<rparr>) (abs_store (fst s))"
  have written: "\<forall>(x :: 'a) st'. ms_data st' = ms_data (set_routing (update_node i t f (bump_routing (routing s))) (snd s)) \<longrightarrow>
      same_frame (snd s) st' \<longrightarrow> op_post env s (Ret x, kv', st')"
    by (intro allI impI) (rule post_node_written [OF inv kv' i], simp_all add: base)
  have run: "sbind (updateMemoryRoutingInfo (\<lambda>ri. Some (update_node i t f ri))) k (kv', snd s) =
      k () (kv', set_routing (update_node i t f (bump_routing (routing s))) (snd s))"
    by (simp add: updateMemoryRoutingInfo_def change_routing_def sbind_def)
  show "op_post env s (sbind (updateMemoryRoutingInfo (\<lambda>ri. Some (update_node i t f ri))) k (kv', snd s))"
    unfolding run by (rule rest [OF written])
qed simp

lemma same_frame_set_routing [simp]: "same_frame st (set_routing ri st)"
  by (simp add: same_frame_def)

lemma sbind_ret [simp]: "sbind m ret = m"
  by (auto simp: sbind_def ret_def fun_eq_iff split: outcome.splits prod.splits)

lemma post_change_node_unit:
  assumes inv: "mgmtd_inv s" and i: "app_nodeId (ni_app n) = i" and base: "\<forall>nw. nw_base (f nw) = n"
  shows "op_post env s (sbind (updateStoredRoutingInfo env (\<lambda>kv. Inr (storeNodeInfo (toPersistentNode n) kv))) (\<lambda>_.
    updateMemoryRoutingInfo (\<lambda>ri. Some (update_node i t f ri))) s)"
proof -
  have "op_post env s (sbind (updateStoredRoutingInfo env (\<lambda>kv. Inr (storeNodeInfo (toPersistentNode n) kv))) (\<lambda>_.
    sbind (updateMemoryRoutingInfo (\<lambda>ri. Some (update_node i t f ri))) (\<lambda>_. ret ())) s)"
    by (rule post_change_node [OF inv i base]) (simp add: ret_def)
  then show ?thesis by simp
qed

lemma node_at:
  assumes "mgmtd_inv s" and "map_of (ri_nodeMap (routing s)) i = Some nw"
  shows "app_nodeId (ni_app (nw_base nw)) = i"
  using mgmtd_invD(3) [OF assms(1)] assms(2) by (simp add: nodes_ok_def)

section \<open>The contracts\<close>

lemma recordStatusChange_base [simp]: "nw_base (recordStatusChange st t nw) = nw_base nw"
  by (simp add: recordStatusChange_def)

lemma changeNodeStatus_post:
  assumes inv: "mgmtd_inv s"
  shows "op_post env s (changeNodeStatus env i enable s)"
proof (cases "map_of (ri_nodeMap (routing s)) i")
  case (Some nw)
  note i = node_at [OF inv Some]
  have "app_nodeId (ni_app (onNodeEnabled (nw_base nw))) = i" "app_nodeId (ni_app (onNodeDisabled (nw_base nw))) = i"
    using i by (simp_all add: onNodeEnabled_def onNodeDisabled_def)
  then show ?thesis
    using Some inv by (auto simp: changeNodeStatus_def Let_def intro!: post_change_node_unit)
qed (simp add: changeNodeStatus_def inv)

interpretation enable_node: writer "\<lambda>env (cid, tok, i). EnableNodeOperation env cid tok i" "\<lambda>_ _. True"
  by unfold_locales
    (auto simp: EnableNodeOperation_def split_beta intro!: post_rules changeNodeStatus_post)

interpretation disable_node: writer "\<lambda>env (cid, tok, i). DisableNodeOperation env cid tok i" "\<lambda>_ _. True"
  by unfold_locales
    (auto simp: DisableNodeOperation_def split_beta intro!: post_rules changeNodeStatus_post)

interpretation register_node: writer "\<lambda>env (cid, tok, i, ty). RegisterNodeOperation env cid tok i ty" "\<lambda>_ _. True"
  by unfold_locales
    (auto simp: RegisterNodeOperation_def register_node_def Let_def split_beta
      intro!: post_rules post_change_node_unit)

lemma unregister_node_post:
  assumes inv: "mgmtd_inv s"
  shows "op_post env s (unregister_node env i s)"
proof -
  have "op_post env s (sbind (updateStoredRoutingInfo env (\<lambda>kv. Inr (clearNodeInfo i kv))) (\<lambda>_.
    updateMemoryRoutingInfo (\<lambda>ri. Some (ri\<lparr>ri_nodeMap := AList.delete i (ri_nodeMap ri)\<rparr>))) s)"
  proof (rule post_updateStoredRoutingInfo [OF inv implements_clearNode])
    fix kv'
    assume kv': "kv_ok kv'" "abs_store kv' = with_version (ri_routingInfoVersion (routing s) + 1)
      (\<lambda>a. a\<lparr>st_nodes := (st_nodes a)(i := None)\<rparr>) (abs_store (fst s))"
    let ?ri = "(bump_routing (routing s))\<lparr>ri_nodeMap := AList.delete i (ri_nodeMap (routing s))\<rparr>"
    have wf: "ri_wf ?ri"
      using mgmtd_invD(2) [OF inv] by (simp add: ri_wf_def ri_maps_wf_def distinct_delete)
    have nodes: "nodes_ok ?ri" "node_table ?ri = (node_table (routing s))(i := None)"
      using mgmtd_invD(3) [OF inv] by (auto simp: nodes_ok_def node_table_def delete_conv' fun_eq_iff split: if_splits)
    have tables: "tables_ok ?ri" "chainTable_table ?ri = chainTable_table (routing s)"
      using mgmtd_invD(4) [OF inv] by (simp_all add: tables_ok_def chainTable_table_def)
    have "op_post env s (Ret (), kv', set_routing ?ri (snd s))"
      using mgmtd_invD [OF inv] wf nodes tables
      by (intro op_post_routing [OF inv kv'(1)]) (simp_all add: kv'(2) version_synced_def routing_step_same)
    then show "op_post env s (updateMemoryRoutingInfo
        (\<lambda>ri. Some (ri\<lparr>ri_nodeMap := AList.delete i (ri_nodeMap ri)\<rparr>)) (kv', snd s))"
      by (simp add: updateMemoryRoutingInfo_def change_routing_def)
  qed simp
  with inv show ?thesis
    by (auto simp: unregister_node_def Let_def split: option.splits)
qed

interpretation unregister_node: writer "\<lambda>env (cid, tok, i). UnregisterNodeOperation env cid tok i" "\<lambda>_ _. True"
  by unfold_locales
    (auto simp: UnregisterNodeOperation_def split_beta intro!: post_rules unregister_node_post)

lemma retag_simps [simp]: "ni_app (retag tags n) = ni_app n" "ni_tags (retag tags n) = tags"
  by (simp_all add: retag_def Let_def)

lemma set_node_tags_post:
  assumes inv: "mgmtd_inv s"
  shows "op_post env s (set_node_tags env i tags mode s)"
proof (cases "map_of (ri_nodeMap (routing s)) i")
  case (Some nw)
  have i: "app_nodeId (ni_app (retag newTags (nw_base nw))) = i" for newTags
    using node_at [OF inv Some] by simp
  have store: "op_post env s (sbind (updateStoredRoutingInfo env (\<lambda>kv. Inr (storeNodeInfo (toPersistentNode (retag newTags (nw_base nw))) kv))) (\<lambda>_.
      sbind (updateMemoryRoutingInfo (\<lambda>ri. Some (update_node i (env_steadyNow env)
        (\<lambda>info. info\<lparr>nw_base := retag newTags (nw_base nw)\<rparr>) ri))) (\<lambda>_.
      sbind (retag_self i (ni_tags (retag newTags (nw_base nw)))) (\<lambda>_.
      ret (retag newTags (nw_base nw))))) s)" for newTags
    by (rule post_change_node [OF inv i]) (simp_all add: sbind_def retag_self_def ret_def same_frame_def)
  show ?thesis
    unfolding set_node_tags_def Some option.case Let_def
    by (rule post_try_result [OF inv]) (use store inv in auto)
qed (simp add: set_node_tags_def inv)

interpretation set_node_tags: writer
  "\<lambda>env (cid, tok, i, tags, mode). SetNodeTagsOperation env cid tok i tags mode" "\<lambda>_ _. True"
  by unfold_locales
    (auto simp: SetNodeTagsOperation_def split_beta intro!: post_rules set_node_tags_post)

section \<open>The heartbeat\<close>

lemma same_outside_tables:
  assumes "same_outside_targets ri ri'"
  shows "nodes_ok ri' = nodes_ok ri" "node_table ri' = node_table ri" "tables_ok ri' = tables_ok ri"
    "chainTable_table ri' = chainTable_table ri" "ri_chains ri' = ri_chains ri"
    "ri_routingInfoVersion ri' = ri_routingInfoVersion ri"
  using assms by (simp_all add: same_outside_targets_def nodes_ok_def node_table_def tables_ok_def chainTable_table_def
      fun_eq_iff)

lemma changed_flag_simps [simp]:
  "ri_wf (ri\<lparr>ri_routingInfoChanged := b\<rparr>) = ri_wf ri" "nodes_ok (ri\<lparr>ri_routingInfoChanged := b\<rparr>) = nodes_ok ri"
  "node_table (ri\<lparr>ri_routingInfoChanged := b\<rparr>) = node_table ri"
  "tables_ok (ri\<lparr>ri_routingInfoChanged := b\<rparr>) = tables_ok ri"
  "chainTable_table (ri\<lparr>ri_routingInfoChanged := b\<rparr>) = chainTable_table ri"
  by (simp_all add: ri_wf_def ri_maps_wf_def nodes_ok_def node_table_def tables_ok_def chainTable_table_def fun_eq_iff)

text \<open>Updating a node that is there without touching its info.\<close>

lemma update_node_same:
  assumes "\<And>nw. nw_base (f nw) = nw_base nw" and "map_of (ri_nodeMap ri) i \<noteq> None"
  shows "node_table (update_node i t f ri) = node_table ri" "nodes_ok (update_node i t f ri) = nodes_ok ri"
  using assms by (auto simp: node_table_def nodes_ok_def map_of_update_node fun_eq_iff)

definition heartbeat_effect :: "NodeId \<Rightarrow> NodeInfo \<Rightarrow> bool \<Rightarrow> RoutingInfo \<Rightarrow> RoutingInfo \<Rightarrow> bool" where
  "heartbeat_effect i n bump ri ri' \<longleftrightarrow> ri_wf ri' \<and> nodes_ok ri' \<and> (tables_ok ri \<longrightarrow> tables_ok ri') \<and>
     node_table ri' = (node_table ri)(i \<mapsto> toPersistentNode n) \<and> chainTable_table ri' = chainTable_table ri \<and>
     ri_chains ri' = ri_chains ri \<and> ri_routingInfoVersion ri' = ri_routingInfoVersion ri + (if bump then 1 else 0)"

lemma toPersistentNode_ts [simp]: "toPersistentNode (n\<lparr>ni_lastHeartbeatTs := t\<rparr>) = toPersistentNode n"
  by (simp add: toPersistentNode_def)

lemma heartbeat_memory_ok:
  assumes wf: "ri_wf ri" "nodes_ok ri" and i: "app_nodeId (ni_app newNode) = app_nodeId (hb_app hb)"
  shows "\<exists>ri'. heartbeat_memory env config hb newNode bump changed ri = Some ri' \<and>
    heartbeat_effect (app_nodeId (hb_app hb)) newNode bump ri ri'"
proof -
  let ?i = "app_nodeId (hb_app hb)"
  define ri1 where "ri1 = ri\<lparr>ri_routingInfoChanged := ri_routingInfoChanged ri \<or> changed\<rparr>"
  define ri2 where "ri2 = update_node ?i (env_steadyNow env) (\<lambda>info. info\<lparr>
     nw_base := newNode\<lparr>ni_lastHeartbeatTs := env_now env\<rparr>, nw_ts := env_steadyNow env, nw_version := hb_hbVersion hb\<rparr>) ri1"
  have ri2: "ri_wf ri2" "nodes_ok ri2" "node_table ri2 = (node_table ri)(?i \<mapsto> toPersistentNode newNode)"
    "tables_ok ri2 = tables_ok ri" "chainTable_table ri2 = chainTable_table ri" "ri_chains ri2 = ri_chains ri"
    "ri_routingInfoVersion ri2 = ri_routingInfoVersion ri" "map_of (ri_nodeMap ri2) ?i \<noteq> None"
    unfolding ri2_def
    by (simp_all add: ri1_def update_node_wf wf i update_node_tables map_of_update_node
        update_node_nodes_ok [where n = "newNode\<lparr>ni_lastHeartbeatTs := env_now env\<rparr>"]
        update_node_table [where n = "newNode\<lparr>ni_lastHeartbeatTs := env_now env\<rparr>"])
  obtain ri3 where ri3: "(case hb_info hb of
       StorageHeartbeat ltis \<Rightarrow> localUpdateTargets ?i ltis (mc_heartbeat_ignore_stale_targets config) (env_steadyNow env) ri2
     | _ \<Rightarrow> Some ri2) = Some ri3" "ri_wf ri3" "same_outside_targets ri2 ri3"
  proof (cases "hb_info hb")
    case (StorageHeartbeat ltis)
    with localUpdateTargets_wf [OF ri2(1), of ?i ltis "mc_heartbeat_ignore_stale_targets config" "env_steadyNow env"] that
    show ?thesis by auto
  qed (use that ri2(1) in \<open>simp_all add: same_outside_targets_def\<close>)
  note same = same_outside_tables [OF ri3(3)]
  have node3: "map_of (ri_nodeMap ri3) ?i \<noteq> None"
    using ri2(8) ri3(3) by (simp add: same_outside_targets_def)
  define ri4 where "ri4 = (if bump then bump_routing ri3 else ri3)"
  have ri4: "ri_wf ri4" "nodes_ok ri4" "node_table ri4 = (node_table ri)(?i \<mapsto> toPersistentNode newNode)"
    "tables_ok ri4 = tables_ok ri" "chainTable_table ri4 = chainTable_table ri" "ri_chains ri4 = ri_chains ri"
    "ri_routingInfoVersion ri4 = ri_routingInfoVersion ri + (if bump then 1 else 0)" "map_of (ri_nodeMap ri4) ?i \<noteq> None"
    using ri2 ri3(2) same node3 by (simp_all add: ri4_def)
  have "heartbeat_effect ?i newNode bump ri (if changed
      then update_node ?i (env_steadyNow env) (recordStatusChange (ni_status newNode) (env_now env)) ri4 else ri4)"
    using ri4 update_node_same [where f = "recordStatusChange (ni_status newNode) (env_now env)", OF _ ri4(8)]
    by (simp add: heartbeat_effect_def update_node_wf update_node_tables)
  moreover have "heartbeat_memory env config hb newNode bump changed ri = Some (if changed
      then update_node ?i (env_steadyNow env) (recordStatusChange (ni_status newNode) (env_now env)) ri4 else ri4)"
    unfolding heartbeat_memory_def Let_def ri1_def [symmetric] ri2_def [symmetric] ri3(1) by (simp add: ri4_def)
  ultimately show ?thesis by blast
qed

lemma getConfig_checked:
  assumes "configs_wf data" and "checkConfigVersion data ty v = Ret ()"
  shows "\<exists>c. getConfig data ty v True = Ret c"
  using configs_wf_latest [OF assms(1), of ty] assms(2)
  by (auto simp: checkConfigVersion_def getConfig_def split: if_splits)

lemma prepareHandleHeartbeat_Ret:
  assumes "prepareHandleHeartbeat st now hb = Ret (old, n)"
  shows "checkConfigVersion (ms_data st) (hb_type hb) (hb_configVersion hb) = Ret ()"
    "old = map_of (ri_nodeMap (md_routingInfo (ms_data st))) (app_nodeId (hb_app hb))" "ni_app n = hb_app hb"
  using assms
  by (auto simp: prepareHandleHeartbeat_def Let_def obind_eq_Ret prepareNewNodeInfo_def onNewNode_def onNodeChanged_def
      of_result_def split: option.splits if_splits sum.splits)

lemma prepareHandleHeartbeat_no_crash:
  assumes "configs_wf (ms_data st)"
  shows "prepareHandleHeartbeat st now hb \<noteq> Crash"
proof -
  have "checkConfigVersion (ms_data st) (hb_type hb) (hb_configVersion hb) \<noteq> Crash"
    using configs_wf_latest [OF assms, of "hb_type hb"] by (auto simp: checkConfigVersion_def split: if_splits)
  then show ?thesis
    by (cases "checkConfigVersion (ms_data st) (hb_type hb) (hb_configVersion hb)")
      (auto simp: prepareHandleHeartbeat_def Let_def of_result_def split: sum.split HeartbeatPayload.split)
qed

lemma config_reads_cong:
  "md_configMap d' = md_configMap d \<Longrightarrow> getConfig d' = getConfig d"
  by (simp add: getConfig_def fun_eq_iff)

lemma handle_heartbeat_finish:
  assumes inv: "mgmtd_inv s" and ok: "kv_ok kv'"
    and abs: "abs_store kv' = (if bump
      then (abs_store (fst s))\<lparr>st_version := Some (ri_routingInfoVersion (routing s) + 1),
             st_nodes := (st_nodes (abs_store (fst s)))(app_nodeId (hb_app hb) \<mapsto> toPersistentNode n)\<rparr>
      else abs_store (fst s))"
    and same: "\<not> bump \<Longrightarrow> node_table (routing s) (app_nodeId (hb_app hb)) = Some (toPersistentNode n)"
    and n: "ni_app n = hb_app hb" and cfg: "\<exists>c. getConfig (ms_data (snd s)) ty v True = Ret c"
  shows "op_post env s (sbind (change_routing (heartbeat_memory env config hb n bump changed))
    (\<lambda>_ s1. try_outcome (getConfig (ms_data (snd s1)) ty v True) s1) (kv', snd s))"
proof -
  obtain ri' where ri': "heartbeat_memory env config hb n bump changed (routing s) = Some ri'"
    and eff: "heartbeat_effect (app_nodeId (hb_app hb)) n bump (routing s) ri'"
    using heartbeat_memory_ok [OF mgmtd_invD(2,3) [OF inv], of n hb env config bump changed] n by auto
  have nodes: "node_table ri' = st_nodes (abs_store kv')"
    using eff same mgmtd_invD(6) [OF inv] abs by (auto simp: heartbeat_effect_def map_upd_triv)
  have "op_post env s (Ret x, kv', set_routing ri' (snd s))" for x :: "ConfigInfo option"
    using mgmtd_invD [OF inv] eff nodes abs
    by (intro op_post_routing [OF inv ok]) (simp_all add: heartbeat_effect_def version_synced_def routing_step_same)
  with cfg ri' show ?thesis
    by (auto simp: sbind_def change_routing_def try_outcome_def
        config_reads_cong [of "ms_data (set_routing ri' (snd s))" "ms_data (snd s)"])
qed

lemma handle_heartbeat_post:
  assumes inv: "mgmtd_inv s"
  shows "op_post env s (handle_heartbeat env hb timestamp s)"
proof (cases "prepareHandleHeartbeat (snd s) (env_now env) hb")
  case (Ret p)
  obtain old n where p: "p = (old, n)" by (rule prod.exhaust)
  note prep = prepareHandleHeartbeat_Ret [OF Ret [unfolded p]]
  note cfg = getConfig_checked [OF mgmtd_invD(5) [OF inv] prep(1)]
  define bump where "bump = (case old of None \<Rightarrow> True | Some nw \<Rightarrow> toPersistentNode (nw_base nw) \<noteq> toPersistentNode n)"
  have same: "node_table (routing s) (app_nodeId (hb_app hb)) = Some (toPersistentNode n)" if "\<not> bump"
    using that prep(2) by (auto simp: bump_def node_table_def split: option.splits)
  let ?rest = "\<lambda>changed. \<lambda>_ :: unit. sbind (change_routing (heartbeat_memory env (ms_config (snd s)) hb n bump changed))
      (\<lambda>_ s1. try_outcome (getConfig (ms_data (snd s1)) (hb_type hb) (hb_configVersion hb) True) s1)"
  have "op_post env s (sbind (if bump
      then updateStoredRoutingInfo env (\<lambda>kv. Inr (storeNodeInfo (toPersistentNode n) kv)) else ret ()) (?rest changed) s)"
    for changed
  proof (cases bump)
    case True
    have "op_post env s (sbind (updateStoredRoutingInfo env (\<lambda>kv. Inr (storeNodeInfo (toPersistentNode n) kv))) (?rest changed) s)"
      using True prep(3) cfg
      by (intro post_updateStoredRoutingInfo [OF inv implements_storeNode] handle_heartbeat_finish [OF inv]) simp_all
    with True show ?thesis by simp
  next
    case False
    with handle_heartbeat_finish [OF inv mgmtd_invD(1) [OF inv], of False hb n] same prep(3) cfg show ?thesis
      by simp
  qed
  then show ?thesis
    using Ret inv unfolding p by (simp add: handle_heartbeat_def Let_def bump_def)
qed (use inv prepareHandleHeartbeat_no_crash [OF mgmtd_invD(5) [OF inv]] in
  \<open>auto simp: handle_heartbeat_def Let_def try_outcome_def sbind_def op_post_unchanged\<close>)

interpretation heartbeat: writer "\<lambda>env (cid, hb, t). HeartbeatOperation env cid hb t" "\<lambda>_ _. True"
  by unfold_locales
    (auto simp: HeartbeatOperation_def split_beta intro!: post_rules handle_heartbeat_post)

end
