(* ===== verification/Mgmtd_Config_Ops.thy ===== *)
theory Mgmtd_Config_Ops
  imports Mgmtd_Node_Ops
begin

text \<open>
  The operations of the cluster manager on configurations and universal tags, and those that only
  read (\<^verbatim>\<open>SetConfigOperation.cc\<close>, \<^verbatim>\<open>GetConfigOperation.cc\<close>, \<^verbatim>\<open>GetConfigVersionsOperation.cc\<close>,
  \<^verbatim>\<open>SetUniversalTagsOperation.cc\<close>, \<^verbatim>\<open>GetUniversalTagsOperation.cc\<close>, \<^verbatim>\<open>GetRoutingInfoOperation.cc\<close>,
  \<^verbatim>\<open>GetPrimaryMgmtdOperation.cc\<close> and \<^verbatim>\<open>ListOrphanTargetsOperation.cc\<close> in \<^verbatim>\<open>src/src/mgmtd/ops\<close>).
\<close>

section \<open>Definitions\<close>

definition put_config :: "NodeType \<Rightarrow> ConfigInfo \<Rightarrow> unit operation" where
  "put_config nodeType info s =
     (let data = ms_data (snd s);
          vm = (case map_of (md_configMap data) nodeType of None \<Rightarrow> [] | Some vm \<Rightarrow> vm)
      in (Ret (), fst s, (snd s)\<lparr>ms_data := data\<lparr>md_configMap :=
            AList.update nodeType (omap_put (cfg_configVersion info) info vm) (md_configMap data)\<rparr>\<rparr>))"

text \<open>The manager's own configuration: the listener may refuse it; a promoted version must be new.\<close>

definition promote_self :: "op_env \<Rightarrow> string \<Rightarrow> ConfigVersion \<Rightarrow> unit operation" where
  "promote_self env content newVersion s =
     (let accepted = (case env_configUpdater env of None \<Rightarrow> True | Some updater \<Rightarrow> (case updater content of Inl _ \<Rightarrow> False | Inr _ \<Rightarrow> True));
          st = (snd s)\<lparr>ms_selfNodeInfo := (ms_selfNodeInfo (snd s))\<lparr>ni_configVersion := newVersion\<rparr>\<rparr>
      in if \<not> accepted then ret () s
         else case map_of (ri_nodeMap (routing s)) (selfId st) of
                None \<Rightarrow> (Crash, fst s, st)
              | Some self \<Rightarrow>
                  if ni_configVersion (nw_base self) \<ge> newVersion then (Crash, fst s, st)
                  else (Ret (), fst s, set_routing (update_node (selfId st) (env_steadyNow env)
                    (\<lambda>nw. nw\<lparr>nw_base := (nw_base nw)\<lparr>ni_configVersion := newVersion\<rparr>\<rparr>) (routing s)) st))"

definition set_config :: "op_env \<Rightarrow> NodeType \<Rightarrow> string \<Rightarrow> string \<Rightarrow> ConfigVersion operation" where
  "set_config env nodeType content desc s =
     (case map_of (md_configMap (ms_data (snd s))) nodeType of
        None \<Rightarrow> fail (Common kInvalidArg) s
      | Some vm \<Rightarrow>
          (case rbegin vm of
             None \<Rightarrow> crash s
           | Some (oldVersion, _) \<Rightarrow>
               let newVersion = nextVersion oldVersion;
                   newConfigInfo = \<lparr>cfg_configVersion = newVersion, cfg_content = content, cfg_desc = desc\<rparr>
               in sbind (store_txn env (\<lambda>kv. Inr (storeConfig nodeType newConfigInfo kv))) (\<lambda>_.
                  sbind (put_config nodeType newConfigInfo) (\<lambda>_.
                  sbind (if nodeType = MGMTD then promote_self env content newVersion else ret ()) (\<lambda>_.
                  ret newVersion))) s))"

definition SetConfigOperation ::
  "op_env \<Rightarrow> string \<Rightarrow> string \<Rightarrow> NodeType \<Rightarrow> string \<Rightarrow> string \<Rightarrow> ConfigVersion operation" where
  "SetConfigOperation env clusterId token nodeType content desc =
     sbind (validateClusterId clusterId) (\<lambda>_.
     sbind (validateAdmin env token) (\<lambda>_.
     doAsPrimary env (set_config env nodeType content desc)))"

definition GetConfigOperation ::
  "op_env \<Rightarrow> string \<Rightarrow> NodeType \<Rightarrow> ConfigVersion \<Rightarrow> bool \<Rightarrow> ConfigInfo option operation" where
  "GetConfigOperation env clusterId nodeType version exactVersion =
     sbind (validateClusterId clusterId) (\<lambda>_.
     doAsPrimary env (\<lambda>s. try_outcome (getConfig (ms_data (snd s)) nodeType version (\<not> exactVersion)) s))"

fun latest_versions :: "(NodeType \<times> VersionedConfigMap) list \<Rightarrow> (string \<times> ConfigVersion) list outcome" where
  "latest_versions [] = Ret []"
| "latest_versions ((k, vm) # rest) =
     (case rbegin vm of
        None \<Rightarrow> Crash
      | Some (v, _) \<Rightarrow> obind (latest_versions rest) (\<lambda>vs. Ret ((toStringView k, v) # vs)))"

definition GetConfigVersionsOperation :: "op_env \<Rightarrow> string \<Rightarrow> (string \<times> ConfigVersion) list operation" where
  "GetConfigVersionsOperation env clusterId =
     sbind (validateClusterId clusterId) (\<lambda>_.
     doAsPrimary env (\<lambda>s. try_outcome (latest_versions (md_configMap (ms_data (snd s)))) s))"

definition put_universal_tags :: "string \<Rightarrow> TagPair list \<Rightarrow> unit operation" where
  "put_universal_tags universalId tags s =
     (let data = ms_data (snd s)
      in (Ret (), fst s, (snd s)\<lparr>ms_data := data\<lparr>md_universalTagsMap :=
            AList.update universalId tags (md_universalTagsMap data)\<rparr>\<rparr>))"

definition set_universal_tags :: "op_env \<Rightarrow> string \<Rightarrow> TagPair list \<Rightarrow> SetTagMode \<Rightarrow> TagPair list operation" where
  "set_universal_tags env universalId tags mode s =
     (let oldTags = (case map_of (md_universalTagsMap (ms_data (snd s))) universalId of None \<Rightarrow> [] | Some ts \<Rightarrow> ts)
      in sbind (try_result (updateTags mode oldTags tags)) (\<lambda>newTags.
         if oldTags = newTags then ret oldTags
         else sbind (updateStoredRoutingInfo env (storeUniversalTags universalId newTags)) (\<lambda>_.
              sbind (put_universal_tags universalId newTags) (\<lambda>_.
              ret newTags))) s)"

definition SetUniversalTagsOperation ::
  "op_env \<Rightarrow> string \<Rightarrow> string \<Rightarrow> string \<Rightarrow> TagPair list \<Rightarrow> SetTagMode \<Rightarrow> TagPair list operation" where
  "SetUniversalTagsOperation env clusterId token universalId tags mode =
     sbind (validateClusterId clusterId) (\<lambda>_.
     sbind (validateAdmin env token) (\<lambda>_.
     sbind (when_error (\<exists>tp \<in> set tags. tag_key tp = []) (Mgmtd kInvalidTag)) (\<lambda>_.
     doAsPrimary env (set_universal_tags env universalId tags mode))))"

definition GetUniversalTagsOperation :: "op_env \<Rightarrow> string \<Rightarrow> string \<Rightarrow> TagPair list operation" where
  "GetUniversalTagsOperation env clusterId universalId =
     sbind (validateClusterId clusterId) (\<lambda>_.
     doAsPrimary env (gets (\<lambda>s. case map_of (md_universalTagsMap (ms_data (snd s))) universalId of
       None \<Rightarrow> [] | Some tags \<Rightarrow> tags)))"

definition get_routing_info :: "op_env \<Rightarrow> RoutingInfoVersion \<Rightarrow> FlatRoutingInfo option operation" where
  "get_routing_info env version =
     sbind (\<lambda>s. try_outcome (checkRoutingInfoVersion (ms_data (snd s)) version) s) (\<lambda>_ s.
       case getRoutingInfo (ms_config (snd s)) (env_steadyNow env) version (ms_data (snd s)) of
         (info, data) \<Rightarrow> (Ret info, fst s, (snd s)\<lparr>ms_data := data\<rparr>))"

definition GetRoutingInfoOperation :: "op_env \<Rightarrow> string \<Rightarrow> RoutingInfoVersion \<Rightarrow> FlatRoutingInfo option operation" where
  "GetRoutingInfoOperation env clusterId version =
     sbind (validateClusterId clusterId) (\<lambda>_.
     doAsPrimary env (get_routing_info env version))"

text \<open>
  \<^verbatim>\<open>GetPrimaryMgmtd\<close> is answered by any process: from the lease it trusts, or from the store. The
  verdicts of the environment are those of the read-only attempts.
\<close>

definition read_only_handler :: "(kv \<Rightarrow> 'a result) \<Rightarrow> UtcTime \<Rightarrow> kv \<times> unit \<Rightarrow> 'a outcome \<times> kv \<times> unit" where
  "read_only_handler handler now s = (of_result (handler (fst s)), s)"

definition GetPrimaryMgmtdOperation :: "op_env \<Rightarrow> string \<Rightarrow> PersistentNodeInfo option operation" where
  "GetPrimaryMgmtdOperation env clusterId =
     sbind (validateClusterId clusterId) (\<lambda>_ s.
       case currentLease (snd s) (env_now env) of
         Some lease \<Rightarrow> ret (Some (li_primary lease)) s
       | None \<Rightarrow>
           (case txn_loop (createRetryStrategy (ms_config (snd s))) 0 (read_only_handler loadMgmtdLeaseInfo) (env_attempts env)
              (0, strategy_init) (fst s, ()) of
              (r, _) \<Rightarrow> sbind (try_outcome r) (\<lambda>l. ret (map_option li_primary l)) s))"

definition ListOrphanTargetsOperation :: "op_env \<Rightarrow> string \<Rightarrow> TargetInfo list operation" where
  "ListOrphanTargetsOperation env clusterId =
     sbind (validateClusterId clusterId) (\<lambda>_.
     doAsPrimary env (gets (\<lambda>s. map snd (ri_orphanTargetsByTargetId (routing s)))))"

section \<open>Configurations\<close>

lemma implements_storeConfig:
  "implements (\<lambda>kv. Inr (storeConfig ty c kv)) (\<lambda>a. a\<lparr>st_configs := (st_configs a)((ty, cfg_configVersion c) \<mapsto> c)\<rparr>)"
  by (simp add: implements_def)

text \<open>
  What setting a configuration needs beyond the invariant: the version does not wrap around, and for
  the manager's own configuration the manager is among the nodes, with a version that is not ahead.
\<close>

definition config_settable :: "NodeType \<Rightarrow> kv \<times> MgmtdState \<Rightarrow> bool" where
  "config_settable ty s \<longleftrightarrow> (\<forall>vm v c. map_of (md_configMap (ms_data (snd s))) ty = Some vm \<longrightarrow> rbegin vm = Some (v, c) \<longrightarrow>
     v < v + 1 \<and> (ty = MGMTD \<longrightarrow> (\<exists>nw. map_of (ri_nodeMap (routing s)) (selfId (snd s)) = Some nw \<and>
       ni_configVersion (nw_base nw) \<le> v)))"

lemma config_put:
  assumes wf: "configs_wf data" and c: "map_of (md_configMap data) ty = Some vm"
  shows "configs_wf (data\<lparr>md_configMap := AList.update ty (omap_put (cfg_configVersion c) c vm) (md_configMap data)\<rparr>)"
    and "config_table (data\<lparr>md_configMap := AList.update ty (omap_put (cfg_configVersion c) c vm) (md_configMap data)\<rparr>) =
      (config_table data)((ty, cfg_configVersion c) \<mapsto> c)"
proof -
  show "config_table (data\<lparr>md_configMap := AList.update ty (omap_put (cfg_configVersion c) c vm) (md_configMap data)\<rparr>) =
      (config_table data)((ty, cfg_configVersion c) \<mapsto> c)"
    using c by (auto simp: config_table_def update_conv' fun_eq_iff)
  show "configs_wf (data\<lparr>md_configMap := AList.update ty (omap_put (cfg_configVersion c) c vm) (md_configMap data)\<rparr>)"
    unfolding configs_wf_def
  proof (intro conjI allI)
    show "distinct (map fst (md_configMap (data\<lparr>md_configMap := AList.update ty (omap_put (cfg_configVersion c) c vm)
        (md_configMap data)\<rparr>)))"
      using wf by (simp add: configs_wf_def distinct_update)
  next
    fix ty'
    obtain vm' where "map_of (md_configMap data) ty' = Some vm'" "omap_wf vm'" "vm' \<noteq> []"
      "\<forall>v info. map_of vm' v = Some info \<longrightarrow> cfg_configVersion info = v"
      using wf unfolding configs_wf_def by blast
    then show "\<exists>vm'. map_of (md_configMap (data\<lparr>md_configMap := AList.update ty (omap_put (cfg_configVersion c) c vm)
          (md_configMap data)\<rparr>)) ty' = Some vm' \<and> omap_wf vm' \<and> vm' \<noteq> [] \<and>
        (\<forall>v info. map_of vm' v = Some info \<longrightarrow> cfg_configVersion info = v)"
      using c by (cases "ty' = ty") (auto simp: update_conv')
  qed
qed

lemma post_config_written:
  assumes inv: "mgmtd_inv s" and ok: "kv_ok kv'"
    and abs: "abs_store kv' = (abs_store (fst s))\<lparr>st_configs := (st_configs (abs_store (fst s)))((ty, cfg_configVersion c) \<mapsto> c)\<rparr>"
    and vm: "map_of (md_configMap (ms_data (snd s))) ty = Some vm"
    and cm: "md_configMap (ms_data st') = AList.update ty (omap_put (cfg_configVersion c) c vm) (md_configMap (ms_data (snd s)))"
    and tags: "md_universalTagsMap (ms_data st') = md_universalTagsMap (ms_data (snd s))"
    and frame: "same_frame (snd s) st'"
    and ri: "ri_wf (md_routingInfo (ms_data st'))" "nodes_ok (md_routingInfo (ms_data st'))" "tables_ok (md_routingInfo (ms_data st'))"
      "node_table (md_routingInfo (ms_data st')) = node_table (routing s)"
      "chainTable_table (md_routingInfo (ms_data st')) = chainTable_table (routing s)"
      "ri_chains (md_routingInfo (ms_data st')) = ri_chains (routing s)"
      "ri_routingInfoVersion (md_routingInfo (ms_data st')) = ri_routingInfoVersion (routing s)"
  shows "op_post env s (Ret x, kv', st')"
proof -
  let ?d = "(ms_data (snd s))\<lparr>md_configMap := md_configMap (ms_data st')\<rparr>"
  have cfgs: "configs_wf (ms_data st')"
    using config_put(1) [OF mgmtd_invD(5) [OF inv] vm] configs_wf_cong [of "ms_data st'" ?d] by (simp add: cm)
  have table: "config_table (ms_data st') = (config_table (ms_data (snd s)))((ty, cfg_configVersion c) \<mapsto> c)"
    using config_put(2) [OF mgmtd_invD(5) [OF inv] vm] config_table_cong [of "ms_data st'" ?d] by (simp add: cm)
  have "\<forall>ty v. v \<noteq> 0 \<longrightarrow> st_configs (abs_store kv') (ty, v) = config_table (ms_data st') (ty, v)"
    using mgmtd_invD(10) [OF inv] by (simp add: abs table)
  moreover have "routing_step (routing s) (md_routingInfo (ms_data st'))"
    using ri(6,7) by (simp add: routing_step_same)
  moreover have "st_nodes (abs_store kv') = node_table (md_routingInfo (ms_data st'))"
    "st_chains (abs_store kv') = map_of (ri_chains (md_routingInfo (ms_data st')))"
    "st_chainTables (abs_store kv') = chainTable_table (md_routingInfo (ms_data st'))"
    "st_tags (abs_store kv') = map_of (md_universalTagsMap (ms_data st'))"
    "version_synced (st_version (abs_store kv')) (ri_routingInfoVersion (md_routingInfo (ms_data st')))"
    "locations_ok (st_targets (abs_store kv')) (map_of (ri_chains (md_routingInfo (ms_data st'))))"
    "st_lease (abs_store kv') = st_lease (abs_store (fst s))"
    unfolding ri(4-7) tags using mgmtd_invD(6,7,8,9,11,12) [OF inv] by (simp_all add: abs)
  ultimately show ?thesis
    unfolding op_post_def mgmtd_inv_def data_ok_def synced_def fst_conv snd_conv outcome.case
    using ok ri(1-3) cfgs frame by blast
qed

lemma set_config_post:
  assumes inv: "mgmtd_inv s" and settable: "config_settable ty s"
  shows "op_post env s (set_config env ty content desc s)"
proof -
  obtain vm v info where vm: "map_of (md_configMap (ms_data (snd s))) ty = Some vm" "rbegin vm = Some (v, info)"
    using configs_wf_latest [OF mgmtd_invD(5) [OF inv], of ty] by blast
  let ?c = "\<lparr>cfg_configVersion = v + 1, cfg_content = content, cfg_desc = desc\<rparr>"
  define st1 where "st1 = (snd s)\<lparr>ms_data := (ms_data (snd s))\<lparr>md_configMap :=
    AList.update ty (omap_put (v + 1) ?c vm) (md_configMap (ms_data (snd s)))\<rparr>\<rparr>"
  have put: "put_config ty ?c (kv', snd s) = (Ret (), kv', st1)" for kv'
    using vm(1) by (simp add: put_config_def st1_def Let_def)
  let ?rest = "\<lambda>_ :: unit. sbind (put_config ty ?c) (\<lambda>_.
      sbind (if ty = MGMTD then promote_self env content (v + 1) else ret ()) (\<lambda>_. ret (v + 1)))"
  have "op_post env s (sbind (store_txn env (\<lambda>kv. Inr (storeConfig ty ?c kv))) ?rest s)"
  proof (rule post_store_txn [OF inv implements_storeConfig])
    fix kv'
    assume kv': "kv_ok kv'" "abs_store kv' =
      (abs_store (fst s))\<lparr>st_configs := (st_configs (abs_store (fst s)))((ty, cfg_configVersion ?c) \<mapsto> ?c)\<rparr>"
    note written = post_config_written [OF inv kv' vm(1), where x = "v + 1"]
    have plain: "op_post env s (Ret (v + 1), kv', st1)"
      using mgmtd_invD [OF inv] by (intro written) (simp_all add: st1_def same_frame_def)
    show "op_post env s (?rest () (kv', snd s))"
    proof (cases "ty = MGMTD \<and> (case env_configUpdater env of None \<Rightarrow> True
        | Some updater \<Rightarrow> (case updater content of Inl _ \<Rightarrow> False | Inr _ \<Rightarrow> True))")
      case True
      then obtain nw where nw: "map_of (ri_nodeMap (routing s)) (selfId (snd s)) = Some nw"
        "ni_configVersion (nw_base nw) < v + 1"
        using settable vm by (force simp: config_settable_def)
      define ri' where "ri' = update_node (selfId (snd s)) (env_steadyNow env)
         (\<lambda>nw. nw\<lparr>nw_base := (nw_base nw)\<lparr>ni_configVersion := v + 1\<rparr>\<rparr>) (routing s)"
      have nodes: "node_table ri' = node_table (routing s)" "nodes_ok ri'"
        using nw(1) mgmtd_invD(3) [OF inv]
        by (auto simp: ri'_def node_table_def nodes_ok_def map_of_update_node toPersistentNode_def fun_eq_iff)
      have "op_post env s (Ret (v + 1), kv', set_routing ri'
          (st1\<lparr>ms_selfNodeInfo := (ms_selfNodeInfo st1)\<lparr>ni_configVersion := v + 1\<rparr>\<rparr>))"
        using mgmtd_invD(2,4) [OF inv] nodes
        by (intro written) (simp_all add: st1_def same_frame_def ri'_def update_node_wf update_node_tables)
      moreover have "promote_self env content (v + 1) (kv', st1) = (Ret (), kv', set_routing ri'
          (st1\<lparr>ms_selfNodeInfo := (ms_selfNodeInfo st1)\<lparr>ni_configVersion := v + 1\<rparr>\<rparr>))"
        using True nw by (simp add: promote_self_def Let_def st1_def ri'_def selfId_def not_le)
      ultimately show ?thesis
        using True put [of kv'] by (simp add: sbind_def ret_def)
    next
      case False
      then have "(if ty = MGMTD then promote_self env content (v + 1) else ret ()) (kv', st1) = (Ret (), kv', st1)"
        by (auto simp: promote_self_def Let_def ret_def split: option.splits sum.splits)
      with plain show ?thesis
        by (simp add: sbind_def put ret_def)
    qed
  qed simp
  then show ?thesis
    using vm by (simp add: set_config_def nextVersion_def Let_def)
qed

interpretation set_config: writer
  "\<lambda>env (cid, tok, ty, content, desc). SetConfigOperation env cid tok ty content desc"
  "\<lambda>(cid, tok, ty, content, desc) s. config_settable ty s"
  by unfold_locales
    (auto simp: SetConfigOperation_def split_beta intro!: post_rules set_config_post)

section \<open>Universal tags\<close>

lemma implements_storeTags:
  "implements (storeUniversalTags i tags) (\<lambda>a. if i = [] then a else a\<lparr>st_tags := (st_tags a)(i \<mapsto> tags)\<rparr>)"
  using tags_ok(1) [of _ i tags] abs_store_tags(1,2) [of i tags] by (auto simp: implements_def simp del: key_of.simps)

lemma storeUniversalTags_empty: "storeUniversalTags [] tags kv = Inl (Common kInvalidArg)"
  by (simp add: storeUniversalTags_def)

lemma post_tags_written:
  assumes inv: "mgmtd_inv s" and kv': "kv_ok kv'"
    and abs: "abs_store kv' = (abs_store (fst s))\<lparr>st_version := Some (ri_routingInfoVersion (routing s) + 1),
      st_tags := (st_tags (abs_store (fst s)))(i \<mapsto> newTags)\<rparr>"
  shows "op_post env s (Ret x, kv', (snd s)\<lparr>ms_data := (ms_data (snd s))\<lparr>md_universalTagsMap :=
    AList.update i newTags (md_universalTagsMap (ms_data (snd s)))\<rparr>\<rparr>)" (is "op_post env s (Ret x, kv', ?st)")
proof -
  have same: "md_routingInfo (ms_data ?st) = routing s" "md_configMap (ms_data ?st) = md_configMap (ms_data (snd s))"
    "same_frame (snd s) ?st"
    by (simp_all add: same_frame_def)
  have "st_tags (abs_store kv') = map_of (md_universalTagsMap (ms_data ?st))"
    using mgmtd_invD(9) [OF inv] by (simp add: abs update_conv')
  moreover have "\<forall>ty v. v \<noteq> 0 \<longrightarrow> st_configs (abs_store kv') (ty, v) = config_table (ms_data ?st) (ty, v)"
    using mgmtd_invD(10) [OF inv] by (simp add: abs config_table_def)
  moreover have "configs_wf (ms_data ?st)"
    using mgmtd_invD(5) [OF inv] configs_wf_cong [OF same(2)] by blast
  moreover have "version_synced (st_version (abs_store kv')) (ri_routingInfoVersion (routing s))"
    by (simp add: abs version_synced_def)
  moreover have "routing_step (routing s) (routing s)"
    by (simp add: routing_step_same)
  moreover have "st_nodes (abs_store kv') = node_table (routing s)"
    "st_chains (abs_store kv') = map_of (ri_chains (routing s))"
    "st_chainTables (abs_store kv') = chainTable_table (routing s)"
    "locations_ok (st_targets (abs_store kv')) (map_of (ri_chains (routing s)))"
    "st_lease (abs_store kv') = st_lease (abs_store (fst s))"
    using mgmtd_invD(6-8,12) [OF inv] by (simp_all add: abs)
  ultimately show ?thesis
    unfolding op_post_def mgmtd_inv_def data_ok_def synced_def fst_conv snd_conv outcome.case same(1)
    using kv' same(3) mgmtd_invD(2-4) [OF inv] by blast
qed

lemma set_universal_tags_post:
  assumes inv: "mgmtd_inv s"
  shows "op_post env s (set_universal_tags env i tags mode s)"
proof -
  have "op_post env s (sbind (updateStoredRoutingInfo env (storeUniversalTags i newTags)) (\<lambda>_.
      sbind (put_universal_tags i newTags) (\<lambda>_. ret newTags)) s)" for newTags
  proof (cases "i = []")
    case True
    obtain r s' where run: "updateStoredRoutingInfo env (storeUniversalTags i newTags) (fst s, snd s) = (r, s')"
      by (rule prod.exhaust)
    then have "store_txn env (\<lambda>kv. Inl (Common kInvalidArg)) (fst s, snd s) = (r, s')"
      by (simp add: updateStoredRoutingInfo_def Let_def True storeUniversalTags_empty)
    from store_txn_fails [OF _ this] have "r \<noteq> Crash" "\<And>x. r \<noteq> Ret x" "s' = s"
      by simp_all
    with run inv show ?thesis
      by (cases r) (simp_all add: sbind_def op_post_unchanged)
  next
    case False
    show ?thesis
    proof (rule post_updateStoredRoutingInfo [OF inv implements_storeTags])
      fix kv'
      assume "kv_ok kv'" and "abs_store kv' = with_version (ri_routingInfoVersion (routing s) + 1)
        (\<lambda>a. if i = [] then a else a\<lparr>st_tags := (st_tags a)(i \<mapsto> newTags)\<rparr>) (abs_store (fst s))"
      then have kv': "kv_ok kv'" and abs: "abs_store kv' = (abs_store (fst s))\<lparr>st_version :=
          Some (ri_routingInfoVersion (routing s) + 1), st_tags := (st_tags (abs_store (fst s)))(i \<mapsto> newTags)\<rparr>"
        using False by simp_all
      have "put_universal_tags i newTags (kv', snd s) = (Ret (), kv', (snd s)\<lparr>ms_data := (ms_data (snd s))\<lparr>md_universalTagsMap :=
          AList.update i newTags (md_universalTagsMap (ms_data (snd s)))\<rparr>\<rparr>)"
        by (simp add: put_universal_tags_def Let_def)
      with post_tags_written [OF inv kv' abs] show "op_post env s (sbind (put_universal_tags i newTags) (\<lambda>_. ret newTags) (kv', snd s))"
        by (simp add: sbind_def ret_def)
    qed simp
  qed
  then show ?thesis
    using inv unfolding set_universal_tags_def Let_def
    by (intro post_try_result [OF inv]) auto
qed

interpretation set_universal_tags: writer
  "\<lambda>env (cid, tok, i, tags, mode). SetUniversalTagsOperation env cid tok i tags mode" "\<lambda>_ _. True"
  by unfold_locales
    (auto simp: SetUniversalTagsOperation_def split_beta intro!: post_rules set_universal_tags_post)

section \<open>Reading\<close>

lemma latest_versions_Ret:
  assumes "\<And>ty vm. (ty, vm) \<in> set cm \<Longrightarrow> vm \<noteq> []"
  shows "\<exists>vs. latest_versions cm = Ret vs \<and> map fst vs = map (toStringView \<circ> fst) cm"
  using assms
proof (induction cm)
  case (Cons e cm)
  obtain ty vm where e: "e = (ty, vm)" by (rule prod.exhaust)
  have "vm \<noteq> []" using Cons.prems [of ty vm] e by simp
  then obtain v c where "rbegin vm = Some (v, c)"
    by (cases "last vm") (auto simp: rbegin_def)
  moreover obtain vs where "latest_versions cm = Ret vs" "map fst vs = map (toStringView \<circ> fst) cm"
    using Cons.IH Cons.prems unfolding comp_def by (metis list.set_intros(2))
  ultimately show ?case by (simp add: e comp_def)
qed simp

text \<open>The routing info cache is the only thing a read changes.\<close>

lemma getRoutingInfo_frame:
  assumes "getRoutingInfo config now v data = (info, d)"
  shows "md_routingInfo d = md_routingInfo data" "md_configMap d = md_configMap data"
    "md_universalTagsMap d = md_universalTagsMap data" "md_lease d = md_lease data" "md_leaseStartTs d = md_leaseStartTs data"
proof -
  from assms have "d = data \<or> (\<exists>c. d = data\<lparr>md_routingInfoCache := c\<rparr>)"
    by (auto simp: getRoutingInfo_def Let_def split: option.splits if_splits)
  then show "md_routingInfo d = md_routingInfo data" "md_configMap d = md_configMap data"
    "md_universalTagsMap d = md_universalTagsMap data" "md_lease d = md_lease data" "md_leaseStartTs d = md_leaseStartTs data"
    by auto
qed

lemma get_routing_info_post:
  assumes inv: "mgmtd_inv s"
  shows "op_post env s (get_routing_info env v s)"
proof (cases "v > ri_routingInfoVersion (routing s)")
  case True
  with inv show ?thesis
    by (simp add: get_routing_info_def checkRoutingInfoVersion_def try_outcome_def sbind_def op_post_unchanged)
next
  case False
  obtain info d where r: "getRoutingInfo (ms_config (snd s)) (env_steadyNow env) v (ms_data (snd s)) = (info, d)"
    by (rule prod.exhaust)
  note d = getRoutingInfo_frame [OF r]
  have "op_post env s (Ret info, fst s, (snd s)\<lparr>ms_data := d\<rparr>)"
    using mgmtd_invD [OF inv] by (intro op_post_routing [OF inv]) (simp_all add: d same_frame_def routing_step_same)
  with r False show ?thesis
    by (simp add: get_routing_info_def checkRoutingInfoVersion_def try_outcome_def sbind_def)
qed

interpretation get_routing_info: writer "\<lambda>env (cid, v). GetRoutingInfoOperation env cid v" "\<lambda>_ _. True"
  by unfold_locales
    (auto simp: GetRoutingInfoOperation_def split_beta intro!: post_rules get_routing_info_post)

text \<open>The other reads leave the state alone. A configuration may be asked for by a version that exists;
  without the promise the process may abort, see below.\<close>

definition version_known :: "NodeType \<Rightarrow> ConfigVersion \<Rightarrow> bool \<Rightarrow> kv \<times> MgmtdState \<Rightarrow> bool" where
  "version_known ty version exactVersion s \<longleftrightarrow> exactVersion \<or>
     (\<exists>latest. getLatestConfigVersion (ms_data (snd s)) ty = Ret latest \<and> version \<le> latest)"

lemma getConfig_known:
  assumes "configs_wf (ms_data (snd s))" and "version_known ty version exactVersion s"
  shows "getConfig (ms_data (snd s)) ty version (\<not> exactVersion) \<noteq> Crash"
proof -
  obtain vm v info where "map_of (md_configMap (ms_data (snd s))) ty = Some vm" "rbegin vm = Some (v, info)"
    "cfg_configVersion info = v"
    using configs_wf_latest [OF assms(1), of ty] by blast
  with assms(2) show ?thesis
    by (auto simp: getConfig_def version_known_def getLatestConfigVersion_def)
qed

interpretation get_config: writer
  "\<lambda>env (cid, ty, version, exactVersion). GetConfigOperation env cid ty version exactVersion"
  "\<lambda>(cid, ty, version, exactVersion) s. version_known ty version exactVersion s"
proof
  fix s :: "kv \<times> MgmtdState" and env and q :: "string \<times> NodeType \<times> ConfigVersion \<times> bool"
  assume inv: "mgmtd_inv s" and known: "(\<lambda>(cid, ty, version, exactVersion) s. version_known ty version exactVersion s) q s"
  obtain cid ty version e where q: "q = (cid, ty, version, e)" by (rule prod_cases4)
  have "op_post env s (try_outcome (getConfig (ms_data (snd s)) ty version (\<not> e)) s)"
    using getConfig_known [OF mgmtd_invD(5) [OF inv]] known q by (simp add: try_outcome_def op_post_unchanged inv)
  then show "op_post env s ((\<lambda>env (cid, ty, version, exactVersion). GetConfigOperation env cid ty version exactVersion) env q s)"
    using inv by (auto simp: GetConfigOperation_def q intro!: post_rules)
qed

interpretation get_config_versions: writer "\<lambda>env cid. GetConfigVersionsOperation env cid" "\<lambda>_ _. True"
proof
  fix s :: "kv \<times> MgmtdState" and env and cid :: string
  assume inv: "mgmtd_inv s"
  have "vm \<noteq> []" if "(ty, vm) \<in> set (md_configMap (ms_data (snd s)))" for ty vm
    using mgmtd_invD(5) [OF inv] that unfolding configs_wf_def by (metis map_of_is_SomeI option.inject)
  then have "\<exists>vs. latest_versions (md_configMap (ms_data (snd s))) = Ret vs"
    using latest_versions_Ret [of "md_configMap (ms_data (snd s))"] by blast
  then have "op_post env s (try_outcome (latest_versions (md_configMap (ms_data (snd s)))) s)"
    by (auto simp: try_outcome_def op_post_unchanged inv)
  then show "op_post env s (GetConfigVersionsOperation env cid s)"
    using inv by (auto simp: GetConfigVersionsOperation_def intro!: post_rules)
qed

interpretation get_universal_tags: writer "\<lambda>env (cid, i). GetUniversalTagsOperation env cid i" "\<lambda>_ _. True"
  by unfold_locales (auto simp: GetUniversalTagsOperation_def gets_def op_post_unchanged intro!: post_rules)

interpretation list_orphan_targets: writer "\<lambda>env cid. ListOrphanTargetsOperation env cid" "\<lambda>_ _. True"
  by unfold_locales (auto simp: ListOrphanTargetsOperation_def gets_def op_post_unchanged intro!: post_rules)

interpretation get_primary: writer "\<lambda>env cid. GetPrimaryMgmtdOperation env cid" "\<lambda>_ _. True"
proof
  fix s :: "kv \<times> MgmtdState" and env :: op_env and cid :: string
  assume inv: "mgmtd_inv s"
  obtain r kv' u where loop: "txn_loop (createRetryStrategy (ms_config (snd s))) 0 (read_only_handler loadMgmtdLeaseInfo) (env_attempts env)
      (0, strategy_init) (fst s, ()) = (r, kv', u)" by (rule prod_cases3)
  have "r \<noteq> Crash"
    using txn_loop_reach [where reach = "\<lambda>_ _. True" and good = "\<lambda>_ _ _. True" and s = "(fst s, ())" and
        handler = "read_only_handler loadMgmtdLeaseInfo" and atts = "env_attempts env" and n = 0 and
        cfg = "createRetryStrategy (ms_config (snd s))" and loop = "(0, strategy_init)"] loop
    by (auto simp: read_only_handler_def of_result_def split: sum.splits)
  with inv loop show "op_post env s (GetPrimaryMgmtdOperation env cid s)"
    unfolding GetPrimaryMgmtdOperation_def
    by (intro post_validateClusterId) (auto simp: try_outcome_def sbind_def op_post_unchanged split: option.splits outcome.splits)
qed

lemma ensureSelfIsPrimary_Ret:
  "ensureSelfIsPrimary env s = (Ret (), s) \<longleftrightarrow>
   (\<exists>l. currentLease (snd s) (env_leaseNow env) = Some l \<and> pn_nodeId (li_primary l) = selfId (snd s))"
  by (auto simp: ensureSelfIsPrimary_def when_error_def split: option.splits)

text \<open>
  \<open>GetConfig\<close> does not check the version of the request. On the primary, a request of any user for
  the latest configuration with a version above the latest one aborts the process.
\<close>

lemma GetConfig_aborts:
  assumes "configs_wf (ms_data st)" and "clusterId = ms_clusterId st"
    and "currentLease st (env_leaseNow env) = Some lease" and "pn_nodeId (li_primary lease) = selfId st"
    and "getLatestConfigVersion (ms_data st) ty = Ret latest" and "latest < version"
  shows "GetConfigOperation env clusterId ty version False (kv, st) = (Crash, kv, st)"
proof -
  obtain vm info where "map_of (md_configMap (ms_data st)) ty = Some vm" "rbegin vm = Some (cfg_configVersion info, info)"
    using configs_wf_latest [OF assms(1), of ty] by blast
  moreover have "ensureSelfIsPrimary env (kv, st) = (Ret (), kv, st)"
    using assms(3,4) by (simp add: ensureSelfIsPrimary_Ret)
  ultimately show ?thesis
    using assms(2,5,6)
    by (simp add: GetConfigOperation_def doAsPrimary_def validateClusterId_def when_error_def sbind_def try_outcome_def
        getConfig_def getLatestConfigVersion_def)
qed

definition sample_app :: FbsAppInfo where
  "sample_app = default_AppInfo\<lparr>app_nodeId := 9\<rparr>"

text \<open>A process that is the primary, with the sample data.\<close>

definition sample_State :: MgmtdState where
  "sample_State = (MgmtdState_of ''c'' sample_app default_MgmtdConfig)\<lparr>ms_data := sample_Data\<lparr>md_lease :=
     \<lparr>lease_lease = Some \<lparr>li_primary = toPersistentNode (initSelfNodeInfo sample_app), li_leaseStart = 0,
        li_leaseEnd = 60000000, li_releaseVersion = default_ReleaseVersion\<rparr>, lease_bootstrapping = False\<rparr>\<rparr>\<rparr>"

definition sample_env :: op_env where
  "sample_env = \<lparr>env_leaseNow = 0, env_now = 0, env_utcClock = 0, env_steadyNow = 0, env_attempts = [(0, Committed)],
     env_getUser = (\<lambda>_. Inr True), env_configUpdater = None, env_isUuid = (\<lambda>_. True)\<rparr>"

lemma configs_wf_sample_State: "configs_wf (ms_data sample_State)"
  using sample_Data_configs configs_wf_cong [of "ms_data sample_State" sample_Data] by (simp add: sample_State_def)

end
