(* ===== verification/Mgmtd_Chain_Ops.thy ===== *)
theory Mgmtd_Chain_Ops
  imports Mgmtd_Config_Ops
begin

text \<open>
  The operations of the cluster manager on chains and chain tables (\<^verbatim>\<open>SetChainTableOperation.cc\<close>,
  \<^verbatim>\<open>SetChainsOperation.cc\<close>, \<^verbatim>\<open>UpdateChainOperation.cc\<close>, \<^verbatim>\<open>SetPreferredTargetOrderOperation.cc\<close>,
  \<^verbatim>\<open>RotateLastSrvOperation.cc\<close> and \<^verbatim>\<open>RotateAsPreferredOrderOperation.cc\<close> in \<^verbatim>\<open>src/src/mgmtd/ops\<close>), each with
  the contract of \<^theory_text>\<open>Mgmtd_Invariant\<close>.
\<close>

section \<open>Definitions\<close>

subsection \<open>Chain tables\<close>

fun check_table_chains :: "RoutingInfo \<Rightarrow> ChainId list \<Rightarrow> nat \<Rightarrow> unit result" where
  "check_table_chains ri [] expectedTargets = Inr ()"
| "check_table_chains ri (cid # cids) expectedTargets =
     (case map_of (ri_chains ri) cid of
        None \<Rightarrow> Inl (Mgmtd kChainNotFound)
      | Some ci \<Rightarrow>
          if expectedTargets = 0 then check_table_chains ri cids (length (ci_targets ci))
          else if length (ci_targets ci) \<noteq> expectedTargets then Inl (Mgmtd kInvalidChainTable)
          else check_table_chains ri cids expectedTargets)"

definition checkChains_table :: "RoutingInfo \<Rightarrow> ChainId list \<Rightarrow> unit result" where
  "checkChains_table ri cids =
     (if cids = [] then Inl (Mgmtd kInvalidChainTable) else check_table_chains ri cids 0)"

definition put_chain_table :: "ChainTable \<Rightarrow> RoutingInfo \<Rightarrow> RoutingInfo" where
  "put_chain_table t ri =
     (let m = (case map_of (ri_chainTables ri) (ct_chainTableId t) of None \<Rightarrow> [] | Some m \<Rightarrow> m)
      in ri\<lparr>ri_chainTables := AList.update (ct_chainTableId t) (omap_put (ct_chainTableVersion t) t m) (ri_chainTables ri)\<rparr>)"

definition store_chain_table :: "op_env \<Rightarrow> ChainTable \<Rightarrow> ChainTableVersion operation" where
  "store_chain_table env newChainTable =
     sbind (updateStoredRoutingInfo env (\<lambda>kv. Inr (storeChainTable newChainTable kv))) (\<lambda>_.
     sbind (updateMemoryRoutingInfo (\<lambda>ri. Some (put_chain_table newChainTable ri))) (\<lambda>_.
     ret (ct_chainTableVersion newChainTable)))"

definition next_chain_table :: "ChainTable \<Rightarrow> ChainTable \<Rightarrow> ChainTable" where
  "next_chain_table newChainTable current =
     (let t = (if ct_chains newChainTable \<noteq> ct_chains current
          then newChainTable\<lparr>ct_chainTableVersion := nextVersion (ct_chainTableVersion current)\<rparr> else newChainTable)
      in if ct_desc t = [] then t\<lparr>ct_desc := ct_desc current\<rparr> else t)"

definition set_chain_table :: "op_env \<Rightarrow> ChainTable \<Rightarrow> ChainTableVersion operation" where
  "set_chain_table env newChainTable s =
     sbind (try_result (checkChains_table (routing s) (ct_chains newChainTable))) (\<lambda>_.
       case map_of (ri_chainTables (routing s)) (ct_chainTableId newChainTable) of
         None \<Rightarrow> store_chain_table env newChainTable
       | Some m \<Rightarrow>
           (case rbegin m of
              None \<Rightarrow> crash
            | Some (_, current) \<Rightarrow>
                if next_chain_table newChainTable current = current then ret (ct_chainTableVersion current)
                else store_chain_table env (next_chain_table newChainTable current))) s"

definition SetChainTableOperation ::
  "op_env \<Rightarrow> string \<Rightarrow> string \<Rightarrow> ChainTableId \<Rightarrow> ChainId list \<Rightarrow> string \<Rightarrow> ChainTableVersion operation" where
  "SetChainTableOperation env clusterId token tableId cids desc =
     sbind (validateClusterId clusterId) (\<lambda>_.
     sbind (validateAdmin env token) (\<lambda>_.
     doAsPrimary env (set_chain_table env
       \<lparr>ct_chainTableId = tableId, ct_chainTableVersion = 1, ct_chains = cids, ct_desc = desc\<rparr>)))"

subsection \<open>New chains\<close>

definition makeChainInfo :: "ChainSetting \<Rightarrow> ChainInfo" where
  "makeChainInfo setting =
     \<lparr>ci_chainId = cs_chainId setting, ci_chainVersion = 1,
      ci_targets = map (\<lambda>t. \<lparr>cti_targetId = t, cti_publicState = PS_SERVING\<rparr>) (cs_targets setting),
      ci_preferredTargetOrder = (if cs_setPreferredTargetOrder setting then cs_targets setting else [])\<rparr>"

definition ensureChainNotChanged :: "ChainInfo \<Rightarrow> ChainSetting \<Rightarrow> unit result" where
  "ensureChainNotChanged oldChain newChain =
     (if ci_chainId oldChain \<noteq> cs_chainId newChain then Inl (Mgmtd kInvalidChainTable)
      else if length (ci_targets oldChain) \<noteq> length (cs_targets newChain) then Inl (Mgmtd kInvalidChainTable)
      else if sort (map cti_targetId (ci_targets oldChain)) \<noteq> sort (cs_targets newChain)
      then Inl (Mgmtd kInvalidChainTable)
      else Inr ())"

fun check_new_targets :: "RoutingInfo \<Rightarrow> TargetId list \<Rightarrow> TargetId list \<Rightarrow> TargetId list result" where
  "check_new_targets ri [] newTargets = Inr newTargets"
| "check_new_targets ri (tid # tids) newTargets =
     (if map_of (ri_targets ri) tid \<noteq> None \<or> tid \<in> set newTargets then Inl (Mgmtd kInvalidChainTable)
      else check_new_targets ri tids (tid # newTargets))"

fun check_settings ::
  "RoutingInfo \<Rightarrow> ChainSetting list \<Rightarrow> ChainInfo list \<Rightarrow> TargetId list \<Rightarrow> ChainInfo list result" where
  "check_settings ri [] newChains newTargets = Inr newChains"
| "check_settings ri (setting # settings) newChains newTargets =
     (if cs_chainId setting = 0 then Inl (Mgmtd kInvalidChainTable)
      else if cs_targets setting = [] then Inl (Mgmtd kInvalidChainTable)
      else case map_of (ri_chains ri) (cs_chainId setting) of
             Some oldChain \<Rightarrow>
               (case ensureChainNotChanged oldChain setting of
                  Inl e \<Rightarrow> Inl e
                | Inr _ \<Rightarrow> check_settings ri settings newChains newTargets)
           | None \<Rightarrow>
               (case check_new_targets ri (cs_targets setting) newTargets of
                  Inl e \<Rightarrow> Inl e
                | Inr newTargets' \<Rightarrow> check_settings ri settings (newChains @ [makeChainInfo setting]) newTargets'))"

definition checkChains_settings :: "RoutingInfo \<Rightarrow> ChainSetting list \<Rightarrow> ChainInfo list result" where
  "checkChains_settings ri settings =
     (if settings = [] then Inl (Mgmtd kInvalidChainTable) else check_settings ri settings [] [])"

definition set_chains :: "op_env \<Rightarrow> ChainSetting list \<Rightarrow> unit operation" where
  "set_chains env settings s =
     sbind (try_result (checkChains_settings (routing s) settings)) (\<lambda>newChains.
       if newChains = [] then ret ()
       else sbind (updateStoredRoutingInfo env (\<lambda>kv. Inr (fold storeChainInfo newChains kv))) (\<lambda>_.
            updateMemoryRoutingInfo (ofold (\<lambda>c. insertNewChain c (env_steadyNow env)) newChains))) s"

definition SetChainsOperation :: "op_env \<Rightarrow> string \<Rightarrow> string \<Rightarrow> ChainSetting list \<Rightarrow> unit operation" where
  "SetChainsOperation env clusterId token settings =
     sbind (validateClusterId clusterId) (\<lambda>_.
     sbind (validateAdmin env token) (\<lambda>_.
     doAsPrimary env (set_chains env settings)))"

subsection \<open>Adding and removing a target\<close>

text \<open>The request's mode is a byte of the message.\<close>

definition UPDATE_ADD :: "8 word" where
  "UPDATE_ADD = 0"

definition UPDATE_REMOVE :: "8 word" where
  "UPDATE_REMOVE = 1"

fun erase_first :: "('a \<Rightarrow> bool) \<Rightarrow> 'a list \<Rightarrow> 'a list" where
  "erase_first P [] = []"
| "erase_first P (x # xs) = (if P x then xs else x # erase_first P xs)"

definition add_to_chain :: "TargetId \<Rightarrow> ChainInfo \<Rightarrow> ChainInfo" where
  "add_to_chain tid c =
     (let targets = ci_targets c @ [\<lparr>cti_targetId = tid, cti_publicState = PS_OFFLINE\<rparr>]
      in c\<lparr>ci_chainVersion := nextVersion (ci_chainVersion c), ci_targets := targets,
           ci_preferredTargetOrder := (if length (ci_preferredTargetOrder c) = length targets - 1
             then ci_preferredTargetOrder c @ [tid] else ci_preferredTargetOrder c)\<rparr>)"

definition remove_from_chain :: "TargetId \<Rightarrow> ChainInfo \<Rightarrow> ChainInfo result" where
  "remove_from_chain tid c =
     (case List.find (\<lambda>cti. cti_targetId cti = tid) (ci_targets c) of
        None \<Rightarrow> Inl (Mgmtd kTargetNotFound)
      | Some cti \<Rightarrow>
          if cti_publicState cti \<noteq> PS_OFFLINE then Inl (Common kInvalidArg)
          else Inr (c\<lparr>ci_chainVersion := nextVersion (ci_chainVersion c),
                 ci_targets := erase_first (\<lambda>cti. cti_targetId cti = tid) (ci_targets c),
                 ci_preferredTargetOrder := remove1 tid (ci_preferredTargetOrder c)\<rparr>))"

text \<open>The change in memory; the reference to the last target is to the appended one.\<close>

definition updated_chain :: "bool \<Rightarrow> ChainId \<Rightarrow> TargetId \<Rightarrow> ChainInfo \<Rightarrow> SteadyTime \<Rightarrow> RoutingInfo \<Rightarrow> RoutingInfo option" where
  "updated_chain addTarget cid tid chainInfo steadyNow ri =
     (case getChain ri cid of
        None \<Rightarrow> None
      | Some oldChain \<Rightarrow>
          let ri1 = ri\<lparr>ri_chains := AList.update cid chainInfo (ri_chains ri)\<rparr>
          in if addTarget then insertNewTarget cid (last (ci_targets chainInfo)) steadyNow ri1
             else removeTarget cid tid ri1)"

definition update_chain :: "op_env \<Rightarrow> ChainId \<Rightarrow> TargetId \<Rightarrow> 8 word \<Rightarrow> ChainInfo operation" where
  "update_chain env cid tid mode s =
     (let addTarget = (mode = UPDATE_ADD)
      in case map_of (ri_chains (routing s)) cid of
           None \<Rightarrow> fail (Mgmtd kChainNotFound) s
         | Some oldChain \<Rightarrow>
             if addTarget \<and> map_of (ri_targets (routing s)) tid \<noteq> None then fail (Mgmtd kTargetExisted) s
             else sbind (try_result (if addTarget then Inr (add_to_chain tid oldChain) else remove_from_chain tid oldChain)) (\<lambda>chainInfo.
                  sbind (updateStoredRoutingInfo env (\<lambda>kv.
                    Inr (storeChainInfo chainInfo (if addTarget then kv else clearTargetInfo tid kv)))) (\<lambda>_.
                  sbind (updateMemoryRoutingInfo (updated_chain addTarget cid tid chainInfo (env_steadyNow env))) (\<lambda>_.
                  ret chainInfo))) s)"

definition UpdateChainOperation :: "op_env \<Rightarrow> string \<Rightarrow> string \<Rightarrow> ChainId \<Rightarrow> TargetId \<Rightarrow> 8 word \<Rightarrow> ChainInfo operation" where
  "UpdateChainOperation env clusterId token cid tid mode =
     sbind (validateClusterId clusterId) (\<lambda>_.
     sbind (validateAdmin env token) (\<lambda>_.
     sbind (when_error (cid = 0) (Common kInvalidArg)) (\<lambda>_.
     sbind (when_error (tid = 0) (Common kInvalidArg)) (\<lambda>_.
     sbind (when_error (mode \<noteq> UPDATE_ADD \<and> mode \<noteq> UPDATE_REMOVE) (Common kInvalidArg)) (\<lambda>_.
     doAsPrimary env (update_chain env cid tid mode))))))"

subsection \<open>The order of a chain\<close>

text \<open>The targets of a chain with their states; an unknown target aborts.\<close>

definition old_targets :: "RoutingInfo \<Rightarrow> ChainInfo \<Rightarrow> ChainTargetInfoEx list option" where
  "old_targets ri chain =
     ofold (\<lambda>cti acc. map_option (\<lambda>tw. acc @ [fromTargetInfo (tw_base tw)]) (map_of (ri_targets ri) (cti_targetId cti)))
       (ci_targets chain) []"

definition touch_target :: "SteadyTime \<Rightarrow> TargetInfoW \<Rightarrow> TargetInfoW option" where
  "touch_target now ti = Some (ti\<lparr>tw_ts := now\<rparr>)"

definition reordered_chain :: "ChainInfo \<Rightarrow> TargetId list \<Rightarrow> SteadyTime \<Rightarrow> RoutingInfo \<Rightarrow> RoutingInfo option" where
  "reordered_chain chainInfo order steadyNow ri =
     (case getChain ri (ci_chainId chainInfo) of
        None \<Rightarrow> None
      | Some oldChain \<Rightarrow>
          ofold (\<lambda>tid. updateTarget tid steadyNow (touch_target steadyNow)) order
            (ri\<lparr>ri_chains := AList.update (ci_chainId chainInfo) chainInfo (ri_chains ri)\<rparr>))"

definition set_preferred_target_order :: "op_env \<Rightarrow> ChainId \<Rightarrow> TargetId list \<Rightarrow> ChainInfo operation" where
  "set_preferred_target_order env cid order s =
     (case map_of (ri_chains (routing s)) cid of
        None \<Rightarrow> fail (Mgmtd kChainNotFound) s
      | Some oldChain \<Rightarrow>
          (case old_targets (routing s) oldChain of
             None \<Rightarrow> crash s
           | Some oldTargets \<Rightarrow>
               if \<not> set order \<subseteq> cti_targetId ` set oldTargets then fail (Common kInvalidArg) s
               else if ci_preferredTargetOrder oldChain = order then ret oldChain s
               else let chainInfo = oldChain\<lparr>ci_preferredTargetOrder := order\<rparr>
                    in sbind (store_txn env (\<lambda>kv. Inr (storeChainInfo chainInfo kv))) (\<lambda>_.
                       sbind (change_routing (reordered_chain chainInfo order (env_steadyNow env))) (\<lambda>_.
                       ret chainInfo)) s))"

definition SetPreferredTargetOrderOperation ::
  "op_env \<Rightarrow> string \<Rightarrow> string \<Rightarrow> ChainId \<Rightarrow> TargetId list \<Rightarrow> ChainInfo operation" where
  "SetPreferredTargetOrderOperation env clusterId token cid order =
     sbind (validateClusterId clusterId) (\<lambda>_.
     sbind (validateAdmin env token) (\<lambda>_.
     sbind (when_error (cid = 0) (Common kInvalidArg)) (\<lambda>_.
     sbind (when_error (order = []) (Common kInvalidArg)) (\<lambda>_.
     sbind (when_error (length (remdups order) \<noteq> length order) (Common kInvalidArg)) (\<lambda>_.
     doAsPrimary env (set_preferred_target_order env cid order))))))"

text \<open>
  The two rotations differ in the function that computes the new targets; None is undefined behaviour
  there and an abort of the process here.
\<close>

definition rotate_chain ::
  "op_env \<Rightarrow> (ChainInfo \<Rightarrow> ChainTargetInfoEx list \<Rightarrow> ChainTargetInfoEx list option) \<Rightarrow> ChainId \<Rightarrow> ChainInfo operation" where
  "rotate_chain env rewrite cid s =
     (case map_of (ri_chains (routing s)) cid of
        None \<Rightarrow> fail (Mgmtd kChainNotFound) s
      | Some oldChain \<Rightarrow>
          (case old_targets (routing s) oldChain of
             None \<Rightarrow> crash s
           | Some oldTargets \<Rightarrow>
               (case rewrite oldChain oldTargets of
                  None \<Rightarrow> crash s
                | Some newTargets \<Rightarrow>
                    if oldTargets = newTargets then ret oldChain s
                    else let chainInfo = new_chain oldChain newTargets
                         in sbind (updateStoredRoutingInfo env (\<lambda>kv. Inr (storeChainInfo chainInfo kv))) (\<lambda>_.
                            sbind (updateMemoryRoutingInfo (apply_chain (env_steadyNow env) chainInfo)) (\<lambda>_.
                            ret chainInfo)) s)))"

definition RotateLastSrvOperation :: "op_env \<Rightarrow> string \<Rightarrow> string \<Rightarrow> ChainId \<Rightarrow> ChainInfo operation" where
  "RotateLastSrvOperation env clusterId token cid =
     sbind (validateClusterId clusterId) (\<lambda>_.
     sbind (validateAdmin env token) (\<lambda>_.
     sbind (when_error (cid = 0) (Common kInvalidArg)) (\<lambda>_.
     doAsPrimary env (rotate_chain env (\<lambda>c ts. Some (rotateLastSrv ts)) cid))))"

definition RotateAsPreferredOrderOperation :: "op_env \<Rightarrow> string \<Rightarrow> string \<Rightarrow> ChainId \<Rightarrow> ChainInfo operation" where
  "RotateAsPreferredOrderOperation env clusterId token cid =
     sbind (validateClusterId clusterId) (\<lambda>_.
     sbind (validateAdmin env token) (\<lambda>_.
     sbind (when_error (cid = 0) (Common kInvalidArg)) (\<lambda>_.
     doAsPrimary env (rotate_chain env (\<lambda>c ts. rotateAsPreferredOrder ts (ci_preferredTargetOrder c)) cid))))"

section \<open>Steps of the routing info\<close>

lemma routing_step_bump:
  assumes "\<And>cid c. map_of (ri_chains ri) cid = Some c \<Longrightarrow> \<exists>c'. map_of (ri_chains ri') cid = Some c' \<and> chain_step c c'"
    and "ri_routingInfoVersion ri' = ri_routingInfoVersion ri + 1"
  shows "routing_step ri ri'"
  using assms unfolding routing_step_def by blast

text \<open>The end of an operation that wrote chains.\<close>

lemma post_chains_written:
  assumes inv: "mgmtd_inv s" and "kv_ok kv'"
    and abs: "abs_store kv' = (abs_store (fst s))\<lparr>st_version := Some (ri_routingInfoVersion (routing s) + 1),
      st_chains := map_of (ri_chains ri'), st_targets := T\<rparr>"
    and "ri_wf ri'" and same: "ri_nodeMap ri' = ri_nodeMap (routing s)" "ri_chainTables ri' = ri_chainTables (routing s)"
    and v: "ri_routingInfoVersion ri' = ri_routingInfoVersion (routing s) + 1"
    and locations: "locations_ok T (map_of (ri_chains ri'))"
    and steps: "\<And>cid c. map_of (ri_chains (routing s)) cid = Some c \<Longrightarrow>
      \<exists>c'. map_of (ri_chains ri') cid = Some c' \<and> chain_step c c'"
  shows "op_post env s (Ret x, kv', set_routing ri' (snd s))"
proof -
  have tables: "node_table ri' = node_table (routing s)" "chainTable_table ri' = chainTable_table (routing s)"
    "nodes_ok ri' = nodes_ok (routing s)" "tables_ok ri' = tables_ok (routing s)"
    by (auto simp: node_table_def chainTable_table_def nodes_ok_def tables_ok_def same)
  have "routing_step (routing s) ri'"
    using steps v by (rule routing_step_bump)
  then show ?thesis
    using mgmtd_invD [OF inv] assms(2,4) locations
    by (intro op_post_routing [OF inv]) (simp_all add: abs tables v same_frame_def version_synced_def)
qed

lemma chain_step_other:
  assumes "\<And>c. map_of C cid = Some c \<Longrightarrow> chain_step c c'" and "map_of C d = Some k"
  shows "\<exists>k'. map_of (AList.update cid c' C) d = Some k' \<and> chain_step k k'"
  using assms by (cases "d = cid") (auto simp: update_conv')

text \<open>Chains that keep their targets keep the stored locations.\<close>

lemma locations_ok_upd:
  assumes "locations_ok L C" and "\<And>c. C cid = Some c \<Longrightarrow> set (chain_ids c) \<subseteq> set (chain_ids c')"
  shows "locations_ok L (C(cid \<mapsto> c'))"
  using assms unfolding locations_ok_def by (metis fun_upd_apply subsetD)

lemma locations_ok_remove:
  assumes "locations_ok L C" and "\<And>c. C cid = Some c \<Longrightarrow> set (chain_ids c) \<subseteq> insert tid (set (chain_ids c'))"
  shows "locations_ok (L(tid := None)) (C(cid \<mapsto> c'))"
  using assms unfolding locations_ok_def by (metis fun_upd_apply insertE subsetD)

lemma locations_ok_put_chains:
  assumes "locations_ok L C" and "\<And>c c'. c' \<in> set cs \<Longrightarrow> C (ci_chainId c') = Some c \<Longrightarrow> set (chain_ids c) \<subseteq> set (chain_ids c')"
  shows "locations_ok L (put_chains cs C)"
  unfolding locations_ok_def
proof (intro allI impI)
  fix tid
  assume "L tid \<noteq> None"
  then obtain cid c where c: "C cid = Some c" "tid \<in> set (chain_ids c)"
    using assms(1) unfolding locations_ok_def by blast
  show "\<exists>cid c. put_chains cs C cid = Some c \<and> tid \<in> set (chain_ids c)"
  proof (cases "cid \<in> ci_chainId ` set cs")
    case True
    then obtain c' where "c' \<in> set cs" "ci_chainId c' = cid" "put_chains cs C cid = Some c'"
      using put_by_in by metis
    with assms(2) [of c' c] c show ?thesis by blast
  next
    case False
    with c show ?thesis by (metis put_by_other)
  qed
qed

lemma implements_storeChainInfo:
  "implements (\<lambda>kv. Inr (storeChainInfo c kv)) (\<lambda>a. a\<lparr>st_chains := (st_chains a)(ci_chainId c \<mapsto> c)\<rparr>)"
  by (simp add: implements_def)

section \<open>Rotations\<close>

lemma old_targets_wf:
  assumes "ri_wf ri" and "map_of (ri_chains ri) cid = Some c"
  shows "\<exists>ts. old_targets ri c = Some ts \<and> map ChainTargetInfo.truncate ts = ci_targets c"
proof -
  have coh: "coherent (map_of (ri_chains ri)) (map_of (ri_targets ri))"
    using assms(1) by (simp add: ri_wf_def)
  have "\<exists>ts. ofold (\<lambda>cti acc. map_option (\<lambda>tw. acc @ [fromTargetInfo (tw_base tw)]) (map_of (ri_targets ri) (cti_targetId cti)))
      ctis acc = Some (acc @ ts) \<and> map ChainTargetInfo.truncate ts = ctis"
    if "set ctis \<subseteq> set (ci_targets c)" for ctis acc
    using that
  proof (induction ctis arbitrary: acc)
    case (Cons cti ctis)
    obtain tw where tw: "map_of (ri_targets ri) (cti_targetId cti) = Some tw"
      "ti_publicState (tw_base tw) = cti_publicState cti" "ti_targetId (tw_base tw) = cti_targetId cti"
      using coherent_chainD(3) [OF coh assms(2), of cti] coherent_targetD(1) [OF coh] Cons.prems by fastforce
    have "ChainTargetInfo.truncate (fromTargetInfo (tw_base tw)) = cti"
      using tw(2,3) by (simp add: fromTargetInfo_def ChainTargetInfo.truncate_def)
    moreover obtain ts where "ofold (\<lambda>cti acc. map_option (\<lambda>tw. acc @ [fromTargetInfo (tw_base tw)])
        (map_of (ri_targets ri) (cti_targetId cti))) ctis (acc @ [fromTargetInfo (tw_base tw)]) =
        Some ((acc @ [fromTargetInfo (tw_base tw)]) @ ts)" "map ChainTargetInfo.truncate ts = ctis"
      using Cons.IH [of "acc @ [fromTargetInfo (tw_base tw)]"] Cons.prems by auto
    ultimately show ?case
      using tw(1) by (intro exI [of _ "fromTargetInfo (tw_base tw) # ts"]) simp
  qed simp
  from this [of "ci_targets c" "[]"] show ?thesis
    by (auto simp: old_targets_def)
qed

context chain_rewrite
begin

lemma rotate_chain_post:
  assumes inv: "mgmtd_inv s"
  shows "op_post env s (rotate_chain env rewrite cid s)"
proof (cases "map_of (ri_chains (routing s)) cid")
  case None
  with inv show ?thesis by (simp add: rotate_chain_def)
next
  case (Some c)
  have wf: "ri_wf (routing s)" using mgmtd_invD(2) [OF inv] .
  obtain ts where ts: "old_targets (routing s) c = Some ts" "map ChainTargetInfo.truncate ts = ci_targets c"
    using old_targets_wf [OF wf Some] by blast
  obtain ts' where ts': "rewrite c ts = Some ts'" "chain_change_ok (routing s) (new_chain c ts')" "ci_chainId c = cid"
    using rewrite_change_ok [OF wf Some ts(2)] by blast
  let ?c = "new_chain c ts'"
  have c': "ci_chainId ?c = cid" "chain_step c ?c"
    using ts'(3) by (simp_all add: new_chain_def chain_step_def nextVersion_def)
  have "op_post env s (sbind (updateStoredRoutingInfo env (\<lambda>kv. Inr (storeChainInfo ?c kv))) (\<lambda>_.
      sbind (updateMemoryRoutingInfo (apply_chain (env_steadyNow env) ?c)) (\<lambda>_. ret ?c)) s)"
  proof (rule post_updateStoredRoutingInfo [OF inv implements_storeChainInfo])
    fix kv'
    assume kv': "kv_ok kv'" and abs: "abs_store kv' = with_version (ri_routingInfoVersion (routing s) + 1)
      (\<lambda>a. a\<lparr>st_chains := (st_chains a)(ci_chainId ?c \<mapsto> ?c)\<rparr>) (abs_store (fst s))"
    let ?ri = "bump_routing (routing s)"
    have bumped: "ri_wf ?ri" "chain_change_ok ?ri ?c"
      using wf ts'(2) by (simp_all add: chain_change_ok_def)
    obtain T where T: "apply_chain (env_steadyNow env) ?c ?ri =
        Some (?ri\<lparr>ri_chains := AList.update (ci_chainId ?c) ?c (ri_chains ?ri), ri_targets := T\<rparr>)"
      "map_of T = set_states (env_steadyNow env) (ci_targets ?c) (map_of (ri_targets ?ri))" "distinct (map fst T)"
      using apply_chain_correct [OF bumped] by blast
    have "op_post env s (Ret ?c, kv', set_routing
        (?ri\<lparr>ri_chains := AList.update (ci_chainId ?c) ?c (ri_chains ?ri), ri_targets := T\<rparr>) (snd s))"
    proof (rule post_chains_written [OF inv kv', where T = "st_targets (abs_store (fst s))"])
      show "ri_wf (?ri\<lparr>ri_chains := AList.update (ci_chainId ?c) ?c (ri_chains ?ri), ri_targets := T\<rparr>)"
        by (rule ri_wf_replace [OF bumped T(2,3)])
      show "\<exists>k'. map_of (ri_chains (?ri\<lparr>ri_chains := AList.update (ci_chainId ?c) ?c (ri_chains ?ri), ri_targets := T\<rparr>)) d =
          Some k' \<and> chain_step k k'" if "map_of (ri_chains (routing s)) d = Some k" for d k
        using chain_step_other [of "ri_chains (routing s)" cid ?c] that Some c' by simp
      have "locations_ok (st_targets (abs_store (fst s))) ((map_of (ri_chains (routing s)))(ci_chainId ?c \<mapsto> ?c))"
        using ts'(2) by (intro locations_ok_upd [OF mgmtd_invD(12) [OF inv]]) (auto simp: chain_change_ok_def)
      then show "locations_ok (st_targets (abs_store (fst s)))
          (map_of (ri_chains (?ri\<lparr>ri_chains := AList.update (ci_chainId ?c) ?c (ri_chains ?ri), ri_targets := T\<rparr>)))"
        by (simp add: update_conv')
    qed (use mgmtd_invD(7) [OF inv] in \<open>simp_all add: abs update_conv'\<close>)
    then show "op_post env s (sbind (updateMemoryRoutingInfo (apply_chain (env_steadyNow env) ?c)) (\<lambda>_. ret ?c) (kv', snd s))"
      unfolding updateMemoryRoutingInfo_def using T(1)
      by (intro post_change_routing) (simp_all add: ret_def)
  qed simp
  with inv Some ts ts' show ?thesis
    by (simp add: rotate_chain_def Let_def)
qed

end

interpretation rotate_last_srv: writer
  "\<lambda>env (clusterId, token, cid). RotateLastSrvOperation env clusterId token cid" "\<lambda>_ _. True"
  by unfold_locales
    (auto simp: RotateLastSrvOperation_def split_beta intro!: post_rules rotate_lastsrv.rotate_chain_post)

interpretation rotate_as_preferred_order: writer
  "\<lambda>env (clusterId, token, cid). RotateAsPreferredOrderOperation env clusterId token cid" "\<lambda>_ _. True"
  by unfold_locales
    (auto simp: RotateAsPreferredOrderOperation_def split_beta intro!: post_rules rotate_preferred.rotate_chain_post)

section \<open>Chain tables\<close>

lemma post_table_written:
  assumes inv: "mgmtd_inv s" and kv': "kv_ok kv'"
    and abs: "abs_store kv' = with_version (ri_routingInfoVersion (routing s) + 1)
      (\<lambda>a. a\<lparr>st_chainTables := (st_chainTables a)((ct_chainTableId t, ct_chainTableVersion t) \<mapsto> t)\<rparr>) (abs_store (fst s))"
  shows "op_post env s (Ret x, kv', set_routing (put_chain_table t (bump_routing (routing s))) (snd s))"
proof -
  let ?ri = "put_chain_table t (bump_routing (routing s))"
  have same: "ri_nodeMap ?ri = ri_nodeMap (routing s)" "ri_chains ?ri = ri_chains (routing s)"
    "ri_routingInfoVersion ?ri = ri_routingInfoVersion (routing s) + 1"
    by (simp_all add: put_chain_table_def Let_def)
  have wf: "ri_wf ?ri"
    using mgmtd_invD(2) [OF inv] by (simp add: put_chain_table_def Let_def ri_wf_def ri_maps_wf_def distinct_update)
  have "tables_ok ?ri"
    using mgmtd_invD(4) [OF inv]
    by (auto simp: tables_ok_def put_chain_table_def Let_def update_conv' split: if_splits option.splits)
  moreover have "chainTable_table ?ri = (chainTable_table (routing s))((ct_chainTableId t, ct_chainTableVersion t) \<mapsto> t)"
    by (auto simp: chainTable_table_def put_chain_table_def Let_def update_conv' fun_eq_iff split: option.splits)
  moreover have "node_table ?ri = node_table (routing s)" "nodes_ok ?ri = nodes_ok (routing s)"
    by (auto simp: node_table_def nodes_ok_def same)
  ultimately show ?thesis
    using mgmtd_invD [OF inv] kv' wf
    by (intro op_post_routing [OF inv]) (simp_all add: abs same same_frame_def version_synced_def routing_step_same)
qed

lemma store_chain_table_post:
  assumes inv: "mgmtd_inv s"
  shows "op_post env s (store_chain_table env t s)"
  unfolding store_chain_table_def
proof (rule post_updateStoredRoutingInfo [OF inv])
  show "implements (\<lambda>kv. Inr (storeChainTable t kv))
      (\<lambda>a. a\<lparr>st_chainTables := (st_chainTables a)((ct_chainTableId t, ct_chainTableVersion t) \<mapsto> t)\<rparr>)"
    by (simp add: implements_def)
  fix kv'
  assume "kv_ok kv'" "abs_store kv' = with_version (ri_routingInfoVersion (routing s) + 1)
      (\<lambda>a. a\<lparr>st_chainTables := (st_chainTables a)((ct_chainTableId t, ct_chainTableVersion t) \<mapsto> t)\<rparr>) (abs_store (fst s))"
  from post_table_written [OF inv this]
  show "op_post env s (sbind (updateMemoryRoutingInfo (\<lambda>ri. Some (put_chain_table t ri))) (\<lambda>_. ret (ct_chainTableVersion t)) (kv', snd s))"
    unfolding updateMemoryRoutingInfo_def by (intro post_change_routing) (simp_all add: ret_def)
qed simp

lemma set_chain_table_post:
  assumes inv: "mgmtd_inv s"
  shows "op_post env s (set_chain_table env t s)"
  unfolding set_chain_table_def
proof (rule post_try_result [OF inv])
  show "op_post env s ((case map_of (ri_chainTables (routing s)) (ct_chainTableId t) of
      None \<Rightarrow> store_chain_table env t
    | Some m \<Rightarrow> (case rbegin m of None \<Rightarrow> crash | Some (_, current) \<Rightarrow>
        if next_chain_table t current = current then ret (ct_chainTableVersion current)
        else store_chain_table env (next_chain_table t current))) s)"
  proof (cases "map_of (ri_chainTables (routing s)) (ct_chainTableId t)")
    case (Some m)
    then obtain v current where "rbegin m = Some (v, current)"
      using mgmtd_invD(4) [OF inv] by (cases "last m") (auto simp: tables_ok_def rbegin_def)
    with Some inv show ?thesis by (simp add: store_chain_table_post)
  qed (simp add: store_chain_table_post [OF inv])
qed

interpretation set_chain_table: writer
  "\<lambda>env (clusterId, token, i, cids, desc). SetChainTableOperation env clusterId token i cids desc" "\<lambda>_ _. True"
  by unfold_locales
    (auto simp: SetChainTableOperation_def split_beta intro!: post_rules set_chain_table_post)

section \<open>The preferred order\<close>

lemma touches_touch_target [simp]: "touches (touch_target now)"
  by (simp add: touches_def touch_target_def same_place_def)

lemma touch_all_wf:
  assumes "ri_wf ri" and "set order \<subseteq> dom (map_of (ri_targets ri))"
  shows "\<exists>T. ofold (\<lambda>tid. updateTarget tid now (touch_target now)) order ri = Some (ri\<lparr>ri_targets := T\<rparr>) \<and>
    ri_wf (ri\<lparr>ri_targets := T\<rparr>)"
  using touch_targets [OF assms(1), where g = "\<lambda>tid. tid" and f = "\<lambda>_. touch_target now" and xs = order and now = now] assms(2)
  by fastforce

lemma ri_wf_order:
  assumes "ri_wf ri" and "map_of (ri_chains ri) cid = Some c" and "distinct order" "set order \<subseteq> set (chain_ids c)"
  shows "ri_wf (ri\<lparr>ri_chains := AList.update cid (c\<lparr>ci_preferredTargetOrder := order\<rparr>) (ri_chains ri)\<rparr>)"
proof -
  have "coherent C T \<Longrightarrow> C cid = Some c \<Longrightarrow> coherent (C(cid \<mapsto> c\<lparr>ci_preferredTargetOrder := order\<rparr>)) T" for C T
    unfolding coherent_def chain_ids_def by (auto; metis option.inject)
  with assms show ?thesis
    by (auto simp: ri_wf_def ri_maps_wf_def chain_valid_def chain_ids_def update_conv' distinct_update)
qed

lemma set_preferred_target_order_post:
  assumes inv: "mgmtd_inv s" and order: "distinct order"
  shows "op_post env s (set_preferred_target_order env cid order s)"
proof (cases "map_of (ri_chains (routing s)) cid")
  case None
  with inv show ?thesis by (simp add: set_preferred_target_order_def)
next
  case (Some c)
  have wf: "ri_wf (routing s)" using mgmtd_invD(2) [OF inv] .
  then have coh: "coherent (map_of (ri_chains (routing s))) (map_of (ri_targets (routing s)))"
    by (simp add: ri_wf_def)
  obtain ts where ts: "old_targets (routing s) c = Some ts" "map ChainTargetInfo.truncate ts = ci_targets c"
    using old_targets_wf [OF wf Some] by blast
  have ids: "cti_targetId ` set ts = set (chain_ids c)"
    using truncate_ids(1) [OF ts(2)] by (metis list.set_map)
  let ?c = "c\<lparr>ci_preferredTargetOrder := order\<rparr>"
  have cid: "ci_chainId c = cid"
    using coherent_chainD(1) [OF coh Some] .
  have "op_post env s (sbind (store_txn env (\<lambda>kv. Inr (storeChainInfo ?c kv))) (\<lambda>_.
      sbind (change_routing (reordered_chain ?c order (env_steadyNow env))) (\<lambda>_. ret ?c)) s)"
    if sub: "set order \<subseteq> set (chain_ids c)"
  proof (rule post_store_txn [OF inv implements_storeChainInfo])
    fix kv'
    assume kv': "kv_ok kv'"
      and abs: "abs_store kv' = (abs_store (fst s))\<lparr>st_chains := (st_chains (abs_store (fst s)))(ci_chainId ?c \<mapsto> ?c)\<rparr>"
    let ?ri = "(routing s)\<lparr>ri_chains := AList.update cid ?c (ri_chains (routing s))\<rparr>"
    have "set order \<subseteq> dom (map_of (ri_targets ?ri))"
      using sub coherent_chain_ids [OF coh Some] by fastforce
    then obtain T where T: "ofold (\<lambda>tid. updateTarget tid (env_steadyNow env) (touch_target (env_steadyNow env))) order ?ri =
        Some (?ri\<lparr>ri_targets := T\<rparr>)" "ri_wf (?ri\<lparr>ri_targets := T\<rparr>)"
      using touch_all_wf [OF ri_wf_order [OF wf Some order sub], of order "env_steadyNow env"] by blast
    have tables: "node_table (?ri\<lparr>ri_targets := T\<rparr>) = node_table (routing s)"
      "chainTable_table (?ri\<lparr>ri_targets := T\<rparr>) = chainTable_table (routing s)"
      "nodes_ok (?ri\<lparr>ri_targets := T\<rparr>) = nodes_ok (routing s)" "tables_ok (?ri\<lparr>ri_targets := T\<rparr>) = tables_ok (routing s)"
      by (auto simp: node_table_def chainTable_table_def nodes_ok_def tables_ok_def)
    have "routing_step (routing s) (?ri\<lparr>ri_targets := T\<rparr>)"
      using Some by (auto simp: routing_step_def update_conv' chain_step_def same_epoch_def split: if_splits)
    moreover have "locations_ok (st_targets (abs_store (fst s))) ((map_of (ri_chains (routing s)))(cid \<mapsto> ?c))"
      using Some by (intro locations_ok_upd [OF mgmtd_invD(12) [OF inv]]) (simp add: chain_ids_def)
    ultimately have "op_post env s (Ret ?c, kv', set_routing (?ri\<lparr>ri_targets := T\<rparr>) (snd s))"
      using mgmtd_invD [OF inv] kv' T(2)
      by (intro op_post_routing [OF inv]) (simp_all add: abs tables same_frame_def update_conv' cid)
    then show "op_post env s (sbind (change_routing (reordered_chain ?c order (env_steadyNow env))) (\<lambda>_. ret ?c) (kv', snd s))"
      using T(1) Some cid by (intro post_change_routing) (simp_all add: reordered_chain_def getChain_def ret_def)
  qed simp
  with inv Some ts show ?thesis
    by (simp add: set_preferred_target_order_def Let_def ids)
qed

interpretation set_preferred_target_order: writer
  "\<lambda>env (clusterId, token, cid, order). SetPreferredTargetOrderOperation env clusterId token cid order" "\<lambda>_ _. True"
proof
  fix s env and q :: "string \<times> string \<times> ChainId \<times> TargetId list"
  assume inv: "mgmtd_inv s"
  obtain clusterId token cid order where q: "q = (clusterId, token, cid, order)" by (rule prod_cases4)
  have "distinct order" if "\<not> length (remdups order) \<noteq> length order"
    using that by (metis length_remdups_eq remdups_id_iff_distinct)
  then show "op_post env s ((\<lambda>env (clusterId, token, cid, order). SetPreferredTargetOrderOperation env clusterId token cid order) env q s)"
    unfolding q prod.case SetPreferredTargetOrderOperation_def
    by (intro post_validateClusterId [OF inv] post_validateAdmin [OF inv] post_when_error [OF inv] post_doAsPrimary [OF inv])
      (rule set_preferred_target_order_post [OF inv])
qed

section \<open>Adding and removing a target\<close>

lemma erase_first_filter:
  "distinct (map f xs) \<Longrightarrow> erase_first (\<lambda>x. f x = a) xs = filter (\<lambda>x. f x \<noteq> a) xs"
proof (induction xs)
  case (Cons x xs)
  then have "filter (\<lambda>y. f y \<noteq> f x) xs = xs"
    by (auto simp: filter_id_conv rev_image_eqI)
  with Cons show ?case by auto
qed simp

lemma ids_not_new:
  assumes "ri_wf ri" and "map_of (ri_chains ri) cid = Some c" and "map_of (ri_targets ri) tid = None"
  shows "tid \<notin> set (chain_ids c)"
  using assms coherent_chain_ids [of "map_of (ri_chains ri)" "map_of (ri_targets ri)" cid c tid] by (auto simp: ri_wf_def)

lemma add_to_chain_wf:
  assumes wf: "ri_wf ri" and c: "map_of (ri_chains ri) cid = Some c" and new: "map_of (ri_targets ri) tid = None"
  shows "\<exists>T P N. updated_chain True cid tid (add_to_chain tid c) now ri =
      Some (ri\<lparr>ri_chains := AList.update cid (add_to_chain tid c) (ri_chains ri), ri_targets := T,
        ri_orphanTargetsByTargetId := P, ri_orphanTargetsByNodeId := N\<rparr>) \<and>
    ri_wf (ri\<lparr>ri_chains := AList.update cid (add_to_chain tid c) (ri_chains ri), ri_targets := T,
        ri_orphanTargetsByTargetId := P, ri_orphanTargetsByNodeId := N\<rparr>)"
proof -
  let ?cti = "\<lparr>cti_targetId = tid, cti_publicState = PS_OFFLINE\<rparr>" and ?c = "add_to_chain tid c"
  let ?ri = "ri\<lparr>ri_chains := AList.update cid ?c (ri_chains ri)\<rparr>"
  have c': "ci_targets ?c = ci_targets c @ [?cti]" "ci_chainId ?c = ci_chainId c"
    by (simp_all add: add_to_chain_def Let_def)
  have coh: "coherent (map_of (ri_chains ri)) (map_of (ri_targets ri))" and valid: "chain_valid c"
    using wf c by (auto simp: ri_wf_def)
  have "tid \<notin> set (ci_preferredTargetOrder c)"
    using ids_not_new [OF wf c new] valid by (auto simp: chain_valid_def)
  then have valid': "chain_valid ?c"
    using valid by (auto simp: chain_valid_def chain_ids_def add_to_chain_def Let_def)
  have "orphan_maps_ok ?ri (map_of (ri_targets ?ri))" "map_of (ri_targets ?ri) (cti_targetId ?cti) = None"
    using ri_wf_orphans [OF wf] new by (simp_all add: orphan_maps_ok_def)
  then obtain P N where run: "insertNewTarget cid ?cti now ?ri = Some (?ri\<lparr>
      ri_targets := AList.update tid (new_target cid now ?cti) (ri_targets ri),
      ri_orphanTargetsByTargetId := P, ri_orphanTargetsByNodeId := N\<rparr>)"
    and orph: "orphan_maps_ok (?ri\<lparr>ri_orphanTargetsByTargetId := P, ri_orphanTargetsByNodeId := N\<rparr>)
      ((map_of (ri_targets ri))(tid \<mapsto> new_target cid now ?cti))"
    using insertNewTarget_ok [of ?ri ?cti cid now] by auto
  have "coherent ((map_of (ri_chains ri))(cid \<mapsto> ?c)) ((map_of (ri_targets ri))(tid \<mapsto> new_target cid now ?cti))"
    using coherent_add_target [OF coh c _ _ c'(1), of now] new coherent_chainD(1) [OF coh c] c'(2) by simp
  then have "ri_wf (ri\<lparr>ri_chains := AList.update cid ?c (ri_chains ri),
      ri_targets := AList.update tid (new_target cid now ?cti) (ri_targets ri),
      ri_orphanTargetsByTargetId := P, ri_orphanTargetsByNodeId := N\<rparr>)"
    using wf orph valid' by (simp add: ri_wf_def ri_maps_wf_def orphan_maps_ok_def update_conv' distinct_update)
  moreover have "updated_chain True cid tid ?c now ri = insertNewTarget cid ?cti now ?ri"
    using c by (simp add: updated_chain_def getChain_def c'(1))
  ultimately show ?thesis
    using run by auto
qed

lemma remove_from_chain_Inr:
  assumes "remove_from_chain tid c = Inr c'" and "distinct (chain_ids c)"
  shows "ci_chainId c' = ci_chainId c" "ci_chainVersion c' = ci_chainVersion c + 1"
    "ci_targets c' = filter (\<lambda>cti. cti_targetId cti \<noteq> tid) (ci_targets c)"
    "ci_preferredTargetOrder c' = remove1 tid (ci_preferredTargetOrder c)"
    "\<exists>cti \<in> set (ci_targets c). cti_targetId cti = tid \<and> cti_publicState cti = PS_OFFLINE"
  using assms erase_first_filter [of cti_targetId "ci_targets c" tid]
  by (auto simp: remove_from_chain_def chain_ids_def nextVersion_def find_Some_iff split: option.splits if_splits)

lemma remove_from_chain_wf:
  assumes wf: "ri_wf ri" and c: "map_of (ri_chains ri) cid = Some c" and rm: "remove_from_chain tid c = Inr c'"
  shows "updated_chain False cid tid c' now ri =
      Some (ri\<lparr>ri_chains := AList.update cid c' (ri_chains ri), ri_targets := AList.delete tid (ri_targets ri)\<rparr>) \<and>
    ri_wf (ri\<lparr>ri_chains := AList.update cid c' (ri_chains ri), ri_targets := AList.delete tid (ri_targets ri)\<rparr>)"
proof -
  have coh: "coherent (map_of (ri_chains ri)) (map_of (ri_targets ri))" and valid: "chain_valid c"
    using wf c by (auto simp: ri_wf_def)
  note c' = remove_from_chain_Inr [OF rm coherent_chainD(2) [OF coh c]]
  obtain cti where cti: "cti \<in> set (ci_targets c)" "cti_targetId cti = tid" "cti_publicState cti = PS_OFFLINE"
    using c'(5) by blast
  obtain tw where tw: "map_of (ri_targets ri) tid = Some tw" "ti_publicState (tw_base tw) = PS_OFFLINE"
    using coherent_chainD(3) [OF coh c cti(1)] cti(2,3) by auto
  have "updated_chain False cid tid c' now ri =
      Some (ri\<lparr>ri_chains := AList.update cid c' (ri_chains ri), ri_targets := AList.delete tid (ri_targets ri)\<rparr>)"
    using c tw by (auto simp: updated_chain_def Let_def getChain_def removeTarget_def update_conv' c'(3))
  moreover have "coherent ((map_of (ri_chains ri))(cid \<mapsto> c')) ((map_of (ri_targets ri))(tid := None))"
    using coherent_remove_target [OF coh c _ c'(3)] coherent_chainD(1) [OF coh c] c'(1) cti by (auto simp: chain_ids_def)
  moreover have "chain_valid c'"
    using valid by (auto simp: chain_valid_def chain_ids_def c'(3,4) set_remove1_eq)
  ultimately show ?thesis
    using wf orphans_ok_less_targets
    by (simp add: ri_wf_def ri_maps_wf_def update_conv' delete_conv' distinct_update distinct_delete)
qed

lemma update_chain_written:
  assumes inv: "mgmtd_inv s" and c: "map_of (ri_chains (routing s)) cid = Some c"
    and new: "ci_chainId chainInfo = cid" "chain_step c chainInfo"
    and ids: "if add then set (chain_ids c) \<subseteq> set (chain_ids chainInfo) else set (chain_ids c) \<subseteq> insert tid (set (chain_ids chainInfo))"
    and mem: "\<exists>T P N. updated_chain add cid tid chainInfo now (bump_routing (routing s)) =
      Some ((bump_routing (routing s))\<lparr>ri_chains := AList.update cid chainInfo (ri_chains (routing s)), ri_targets := T,
        ri_orphanTargetsByTargetId := P, ri_orphanTargetsByNodeId := N\<rparr>) \<and>
      ri_wf ((bump_routing (routing s))\<lparr>ri_chains := AList.update cid chainInfo (ri_chains (routing s)), ri_targets := T,
        ri_orphanTargetsByTargetId := P, ri_orphanTargetsByNodeId := N\<rparr>)"
  shows "op_post env s (sbind (updateStoredRoutingInfo env (\<lambda>kv.
        Inr (storeChainInfo chainInfo (if add then kv else clearTargetInfo tid kv)))) (\<lambda>_.
      sbind (updateMemoryRoutingInfo (updated_chain add cid tid chainInfo now)) (\<lambda>_. ret chainInfo)) s)"
proof (rule post_updateStoredRoutingInfo [OF inv])
  let ?G = "\<lambda>a. a\<lparr>st_chains := (st_chains a)(ci_chainId chainInfo \<mapsto> chainInfo),
      st_targets := (if add then st_targets a else (st_targets a)(tid := None))\<rparr>"
  show "implements (\<lambda>kv. Inr (storeChainInfo chainInfo (if add then kv else clearTargetInfo tid kv))) ?G"
    by (simp add: implements_def)
  fix kv'
  assume kv': "kv_ok kv'" and abs: "abs_store kv' = with_version (ri_routingInfoVersion (routing s) + 1) ?G (abs_store (fst s))"
  obtain T P N where mem: "updated_chain add cid tid chainInfo now (bump_routing (routing s)) =
      Some ((bump_routing (routing s))\<lparr>ri_chains := AList.update cid chainInfo (ri_chains (routing s)), ri_targets := T,
        ri_orphanTargetsByTargetId := P, ri_orphanTargetsByNodeId := N\<rparr>)"
    "ri_wf ((bump_routing (routing s))\<lparr>ri_chains := AList.update cid chainInfo (ri_chains (routing s)), ri_targets := T,
        ri_orphanTargetsByTargetId := P, ri_orphanTargetsByNodeId := N\<rparr>)"
    using mem by blast
  let ?ri = "(bump_routing (routing s))\<lparr>ri_chains := AList.update cid chainInfo (ri_chains (routing s)), ri_targets := T,
        ri_orphanTargetsByTargetId := P, ri_orphanTargetsByNodeId := N\<rparr>"
  have "op_post env s (Ret chainInfo, kv', set_routing ?ri (snd s))"
  proof (rule post_chains_written [OF inv kv', where
        T = "if add then st_targets (abs_store (fst s)) else (st_targets (abs_store (fst s)))(tid := None)"])
    show "\<exists>k'. map_of (ri_chains ?ri) d = Some k' \<and> chain_step k k'" if "map_of (ri_chains (routing s)) d = Some k" for d k
      using chain_step_other [of "ri_chains (routing s)" cid chainInfo] that c new(2) by simp
    show "locations_ok (if add then st_targets (abs_store (fst s)) else (st_targets (abs_store (fst s)))(tid := None))
        (map_of (ri_chains ?ri))"
      using ids c locations_ok_upd [OF mgmtd_invD(12) [OF inv], of cid chainInfo]
        locations_ok_remove [OF mgmtd_invD(12) [OF inv], of cid tid chainInfo]
      by (simp add: update_conv')
  qed (use mgmtd_invD(7) [OF inv] mem(2) in \<open>simp_all add: abs update_conv' new\<close>)
  then show "op_post env s (sbind (updateMemoryRoutingInfo (updated_chain add cid tid chainInfo now)) (\<lambda>_. ret chainInfo) (kv', snd s))"
    unfolding updateMemoryRoutingInfo_def using mem(1) by (intro post_change_routing) (simp_all add: ret_def)
qed simp

lemma update_chain_post:
  assumes inv: "mgmtd_inv s"
  shows "op_post env s (update_chain env cid tid mode s)"
proof (cases "map_of (ri_chains (routing s)) cid")
  case None
  with inv show ?thesis by (simp add: update_chain_def)
next
  case (Some c)
  let ?ri = "bump_routing (routing s)"
  have wf: "ri_wf ?ri" "map_of (ri_chains ?ri) cid = Some c" using mgmtd_invD(2) [OF inv] Some by simp_all
  then have coh: "coherent (map_of (ri_chains ?ri)) (map_of (ri_targets ?ri))" by (simp add: ri_wf_def)
  note cid = coherent_chainD(1,2) [OF coh wf(2)]
  show ?thesis
  proof (cases "mode = UPDATE_ADD")
    case True
    have "op_post env s (sbind (updateStoredRoutingInfo env (\<lambda>kv.
          Inr (storeChainInfo (add_to_chain tid c) (if True then kv else clearTargetInfo tid kv)))) (\<lambda>_.
        sbind (updateMemoryRoutingInfo (updated_chain True cid tid (add_to_chain tid c) (env_steadyNow env))) (\<lambda>_. ret (add_to_chain tid c))) s)"
      if "map_of (ri_targets (routing s)) tid = None"
      using add_to_chain_wf [OF wf, of tid "env_steadyNow env"] that cid(1)
      by (intro update_chain_written [OF inv Some]) (auto simp: add_to_chain_def Let_def chain_step_def nextVersion_def chain_ids_def)
    with True Some inv show ?thesis
      by (simp add: update_chain_def)
  next
    case False
    have "op_post env s (sbind (updateStoredRoutingInfo env (\<lambda>kv.
          Inr (storeChainInfo c' (if False then kv else clearTargetInfo tid kv)))) (\<lambda>_.
        sbind (updateMemoryRoutingInfo (updated_chain False cid tid c' (env_steadyNow env))) (\<lambda>_. ret c')) s)"
      if rm: "remove_from_chain tid c = Inr c'" for c'
    proof (rule update_chain_written [OF inv Some])
      show "ci_chainId c' = cid" "chain_step c c'"
        using remove_from_chain_Inr(1,2) [OF rm cid(2)] cid(1) by (simp_all add: chain_step_def)
      show "if False then set (chain_ids c) \<subseteq> set (chain_ids c') else set (chain_ids c) \<subseteq> insert tid (set (chain_ids c'))"
        by (auto simp: chain_ids_def remove_from_chain_Inr(3) [OF rm cid(2)])
      have "?ri\<lparr>ri_chains := C, ri_targets := T\<rparr> = ?ri\<lparr>ri_chains := C, ri_targets := T,
          ri_orphanTargetsByTargetId := ri_orphanTargetsByTargetId ?ri, ri_orphanTargetsByNodeId := ri_orphanTargetsByNodeId ?ri\<rparr>" for C T
        by simp
      with remove_from_chain_wf [OF wf rm, of "env_steadyNow env"]
      show "\<exists>T P N. updated_chain False cid tid c' (env_steadyNow env) ?ri =
        Some (?ri\<lparr>ri_chains := AList.update cid c' (ri_chains (routing s)), ri_targets := T,
          ri_orphanTargetsByTargetId := P, ri_orphanTargetsByNodeId := N\<rparr>) \<and>
        ri_wf (?ri\<lparr>ri_chains := AList.update cid c' (ri_chains (routing s)), ri_targets := T,
          ri_orphanTargetsByTargetId := P, ri_orphanTargetsByNodeId := N\<rparr>)"
        by (metis bump_routing_simps(4))
    qed
    with False Some inv show ?thesis
      by (auto simp: update_chain_def intro!: post_try_result)
  qed
qed

interpretation update_chain: writer
  "\<lambda>env (clusterId, token, cid, tid, mode). UpdateChainOperation env clusterId token cid tid mode" "\<lambda>_ _. True"
  by unfold_locales
    (auto simp: UpdateChainOperation_def split_beta intro!: post_rules update_chain_post)

section \<open>New chains\<close>

lemma fold_storeChainInfo:
  "kv_ok kv \<Longrightarrow> kv_ok (fold storeChainInfo cs kv) \<and>
   abs_store (fold storeChainInfo cs kv) = (abs_store kv)\<lparr>st_chains := put_chains cs (st_chains (abs_store kv))\<rparr>"
  by (induction cs arbitrary: kv) auto

text \<open>Chains that are new to the routing info, with targets that are new to it.\<close>

definition fresh_chains :: "RoutingInfo \<Rightarrow> ChainInfo list \<Rightarrow> bool" where
  "fresh_chains ri cs \<longleftrightarrow> distinct (concat (map chain_ids cs)) \<and>
     (\<forall>c \<in> set cs. map_of (ri_chains ri) (ci_chainId c) = None \<and> chain_valid c \<and>
        (\<forall>tid \<in> set (chain_ids c). map_of (ri_targets ri) tid = None))"

lemma fresh_chains_Nil: "fresh_chains ri []"
  by (simp add: fresh_chains_def)

lemma insert_chains_wf:
  assumes "ri_wf ri" and "fresh_chains ri cs" and "distinct (map ci_chainId cs)"
  shows "\<exists>ri'. ofold (\<lambda>c. insertNewChain c now) cs ri = Some ri' \<and> ri_wf ri' \<and>
    map_of (ri_chains ri') = put_chains cs (map_of (ri_chains ri)) \<and> ri_nodeMap ri' = ri_nodeMap ri \<and>
    ri_chainTables ri' = ri_chainTables ri \<and> ri_routingInfoVersion ri' = ri_routingInfoVersion ri"
  using assms
proof (induction cs arbitrary: ri)
  case (Cons c cs)
  have "map_of (ri_chains ri) (ci_chainId c) = None" "distinct (chain_ids c)"
    "\<forall>tid \<in> set (chain_ids c). map_of (ri_targets ri) tid = None" "chain_valid c"
    using Cons.prems(2) by (auto simp: fresh_chains_def)
  from insertNewChain_wf [OF Cons.prems(1) this, of now] obtain T P N where
    run: "insertNewChain c now ri = Some (ri\<lparr>ri_chains := AList.update (ci_chainId c) c (ri_chains ri), ri_targets := T,
      ri_newBornChains := AList.update (ci_chainId c) now (ri_newBornChains ri),
      ri_orphanTargetsByTargetId := P, ri_orphanTargetsByNodeId := N\<rparr>)" (is "_ = Some ?ri")
    and T: "map_of T = new_targets (ci_chainId c) now (ci_targets c) (map_of (ri_targets ri))"
    and wf: "ri_wf (ri\<lparr>ri_chains := AList.update (ci_chainId c) c (ri_chains ri), ri_targets := T,
      ri_newBornChains := AList.update (ci_chainId c) now (ri_newBornChains ri),
      ri_orphanTargetsByTargetId := P, ri_orphanTargetsByNodeId := N\<rparr>)"
    by blast
  define ri1 where "ri1 = ri\<lparr>ri_chains := AList.update (ci_chainId c) c (ri_chains ri), ri_targets := T,
      ri_newBornChains := AList.update (ci_chainId c) now (ri_newBornChains ri),
      ri_orphanTargetsByTargetId := P, ri_orphanTargetsByNodeId := N\<rparr>"
  have targets: "map_of (ri_targets ri1) tid = map_of (ri_targets ri) tid" if "tid \<notin> set (chain_ids c)" for tid
  proof -
    have "map_of (map (\<lambda>cti. (cti_targetId cti, cti)) (ci_targets c)) tid = None"
      using that by (simp add: map_of_ctis_None chain_ids_def)
    then show ?thesis by (simp add: ri1_def T new_targets_def)
  qed
  have "fresh_chains ri1 cs"
    unfolding fresh_chains_def
  proof (intro conjI ballI)
    fix d tid
    assume d: "d \<in> set cs"
    show "map_of (ri_chains ri1) (ci_chainId d) = None"
      using Cons.prems(2,3) d by (auto simp: ri1_def fresh_chains_def update_conv' rev_image_eqI)
    show "chain_valid d"
      using Cons.prems(2) d by (simp add: fresh_chains_def)
    assume "tid \<in> set (chain_ids d)"
    then show "map_of (ri_targets ri1) tid = None"
      using Cons.prems(2) d targets [of tid] by (auto simp: fresh_chains_def)
  qed (use Cons.prems(2) in \<open>simp add: fresh_chains_def\<close>)
  moreover have "ri_wf ri1" using wf by (simp add: ri1_def)
  ultimately obtain ri' where "ofold (\<lambda>c. insertNewChain c now) cs ri1 = Some ri'" "ri_wf ri'"
    "map_of (ri_chains ri') = put_chains cs (map_of (ri_chains ri1))" "ri_nodeMap ri' = ri_nodeMap ri1"
    "ri_chainTables ri' = ri_chainTables ri1" "ri_routingInfoVersion ri' = ri_routingInfoVersion ri1"
    using Cons.IH [of ri1] Cons.prems(3) by auto
  with run show ?case
    by (simp add: ri1_def update_conv')
qed simp

lemma check_new_targets_Inr:
  assumes "check_new_targets ri tids newTargets = Inr newTargets'"
  shows "distinct tids \<and> set tids \<inter> set newTargets = {} \<and> (\<forall>tid \<in> set tids. map_of (ri_targets ri) tid = None) \<and>
    set newTargets' = set tids \<union> set newTargets"
  using assms by (induction tids arbitrary: newTargets) (fastforce split: if_splits)+

lemma makeChainInfo_simps [simp]:
  "chain_ids (makeChainInfo setting) = cs_targets setting" "ci_chainId (makeChainInfo setting) = cs_chainId setting"
  by (simp_all add: makeChainInfo_def chain_ids_def comp_def)

lemma makeChainInfo_valid: "distinct (cs_targets setting) \<Longrightarrow> chain_valid (makeChainInfo setting)"
  by (auto simp: chain_valid_def chain_ids_def makeChainInfo_def)

definition new_settings :: "RoutingInfo \<Rightarrow> ChainSetting list \<Rightarrow> ChainSetting list" where
  "new_settings ri settings = filter (\<lambda>setting. map_of (ri_chains ri) (cs_chainId setting) = None) settings"

text \<open>The check lets pass exactly new chains with new targets, in the order of the settings.\<close>

lemma check_settings_Inr:
  assumes "check_settings ri settings cs tids = Inr cs'" and "fresh_chains ri cs" and "set tids = set (concat (map chain_ids cs))"
  shows "fresh_chains ri cs' \<and> cs' = cs @ map makeChainInfo (new_settings ri settings)"
  using assms
proof (induction settings arbitrary: cs tids)
  case (Cons setting settings)
  show ?case
  proof (cases "map_of (ri_chains ri) (cs_chainId setting)")
    case (Some c)
    with Cons show ?thesis
      by (auto simp: new_settings_def split: if_splits sum.splits)
  next
    case None
    with Cons.prems(1) obtain tids' where
      t: "check_new_targets ri (cs_targets setting) tids = Inr tids'"
        "check_settings ri settings (cs @ [makeChainInfo setting]) tids' = Inr cs'"
      by (auto split: if_splits sum.splits)
    note new = check_new_targets_Inr [OF t(1)]
    then have "fresh_chains ri (cs @ [makeChainInfo setting])"
      using Cons.prems(2,3) None makeChainInfo_valid [of setting] by (auto simp: fresh_chains_def)
    with Cons.IH [OF t(2)] Cons.prems(3) new None show ?thesis
      by (auto simp: new_settings_def)
  qed
qed (simp add: new_settings_def)

definition chains_settable :: "ChainSetting list \<Rightarrow> kv \<times> MgmtdState \<Rightarrow> bool" where
  "chains_settable settings s \<longleftrightarrow> distinct (map cs_chainId (new_settings (routing s) settings))"

lemma set_chains_post:
  assumes inv: "mgmtd_inv s" and settable: "chains_settable settings s"
  shows "op_post env s (set_chains env settings s)"
  unfolding set_chains_def
proof (rule post_try_result [OF inv])
  fix cs
  assume "checkChains_settings (routing s) settings = Inr cs"
  then have check: "check_settings (routing s) settings [] [] = Inr cs"
    by (simp add: checkChains_settings_def split: if_splits)
  from check_settings_Inr [OF check] have cs: "fresh_chains (routing s) cs" "cs = map makeChainInfo (new_settings (routing s) settings)"
    using fresh_chains_Nil by auto
  then have dist: "distinct (map ci_chainId cs)"
    using settable by (simp add: chains_settable_def comp_def)
  have "op_post env s (sbind (updateStoredRoutingInfo env (\<lambda>kv. Inr (fold storeChainInfo cs kv))) (\<lambda>_.
      updateMemoryRoutingInfo (ofold (\<lambda>c. insertNewChain c (env_steadyNow env)) cs)) s)"
  proof (rule post_updateStoredRoutingInfo [OF inv])
    show "implements (\<lambda>kv. Inr (fold storeChainInfo cs kv)) (\<lambda>a. a\<lparr>st_chains := put_chains cs (st_chains a)\<rparr>)"
      using fold_storeChainInfo by (simp add: implements_def)
    fix kv'
    assume kv': "kv_ok kv'" and abs: "abs_store kv' = with_version (ri_routingInfoVersion (routing s) + 1)
      (\<lambda>a. a\<lparr>st_chains := put_chains cs (st_chains a)\<rparr>) (abs_store (fst s))"
    let ?ri = "bump_routing (routing s)"
    have "fresh_chains ?ri cs" "ri_wf ?ri"
      using cs(1) mgmtd_invD(2) [OF inv] by (simp_all add: fresh_chains_def)
    then obtain ri' where ri': "ofold (\<lambda>c. insertNewChain c (env_steadyNow env)) cs ?ri = Some ri'" "ri_wf ri'"
      "map_of (ri_chains ri') = put_chains cs (map_of (ri_chains ?ri))" "ri_nodeMap ri' = ri_nodeMap ?ri"
      "ri_chainTables ri' = ri_chainTables ?ri" "ri_routingInfoVersion ri' = ri_routingInfoVersion ?ri"
      using insert_chains_wf [OF _ _ dist] by blast
    have "op_post env s (Ret (), kv', set_routing ri' (snd s))"
    proof (rule post_chains_written [OF inv kv', where T = "st_targets (abs_store (fst s))"])
      show "\<exists>k'. map_of (ri_chains ri') d = Some k' \<and> chain_step k k'" if "map_of (ri_chains (routing s)) d = Some k" for d k
      proof -
        have "d \<notin> ci_chainId ` set cs"
          using cs(1) that by (auto simp: fresh_chains_def)
        with that show ?thesis by (simp add: ri'(3) put_by_other)
      qed
      have "locations_ok (st_targets (abs_store (fst s))) (put_chains cs (map_of (ri_chains (routing s))))"
        using cs(1) by (intro locations_ok_put_chains [OF mgmtd_invD(12) [OF inv]]) (simp add: fresh_chains_def)
      then show "locations_ok (st_targets (abs_store (fst s))) (map_of (ri_chains ri'))"
        by (simp add: ri'(3))
    qed (use mgmtd_invD(7) [OF inv] ri' in \<open>simp_all add: abs\<close>)
    then show "op_post env s (updateMemoryRoutingInfo (ofold (\<lambda>c. insertNewChain c (env_steadyNow env)) cs) (kv', snd s))"
      unfolding updateMemoryRoutingInfo_def change_routing_def using ri'(1) by simp
  qed (simp add: put_by_idem)
  with inv show "op_post env s ((if cs = [] then ret () else sbind (updateStoredRoutingInfo env (\<lambda>kv. Inr (fold storeChainInfo cs kv)))
      (\<lambda>_. updateMemoryRoutingInfo (ofold (\<lambda>c. insertNewChain c (env_steadyNow env)) cs))) s)"
    by simp
qed

interpretation set_chains: writer
  "\<lambda>env (clusterId, token, settings). SetChainsOperation env clusterId token settings"
  "\<lambda>(clusterId, token, settings) s. chains_settable settings s"
  by unfold_locales
    (auto simp: SetChainsOperation_def split_beta intro!: post_rules set_chains_post)

section \<open>Operations whose transaction commits\<close>

definition commits :: "op_env \<Rightarrow> kv \<times> MgmtdState \<Rightarrow> bool" where
  "commits env s \<longleftrightarrow> (\<exists>now atts. env_attempts env = (now, Committed) # atts \<and>
     (mc_validate_lease_on_write (ms_config (snd s)) \<longrightarrow> ensureLeaseValid (selfId (snd s)) now (fst s) = Inr ()))"

lemma store_txn_commits:
  assumes "commits env s" and "handler (fst s) = Inr kv'"
  shows "store_txn env handler s = (Ret (), kv', snd s)"
proof -
  obtain now atts where a: "env_attempts env = (now, Committed) # atts"
    "mc_validate_lease_on_write (ms_config (snd s)) \<longrightarrow> ensureLeaseValid (selfId (snd s)) now (fst s) = Inr ()"
    using assms(1) by (auto simp: commits_def)
  with assms(2) show ?thesis
    by (simp add: store_txn_def withReadWriteTxn_def txn_attempt_def checked_handler_def store_handler_def)
qed

lemma updateStoredRoutingInfo_commits:
  assumes "commits env s" and "handler (storeRoutingInfoVersion (ri_routingInfoVersion (routing s) + 1) (fst s)) = Inr kv'"
  shows "updateStoredRoutingInfo env handler s = (Ret (), kv', snd s)"
  using store_txn_commits [OF assms(1), where handler = "\<lambda>kv. handler (storeRoutingInfoVersion (ri_routingInfoVersion (routing s) + 1) kv)"] assms(2)
  by (simp add: updateStoredRoutingInfo_def nextVersion_def Let_def)

text \<open>A store that holds the sample data, for the sample process as the primary.\<close>

definition sample_kv :: kv where
  "sample_kv = storeMgmtdLeaseInfo (the (lease_lease (md_lease (ms_data sample_State))))
     (storeRoutingInfoVersion 1 (storeChainInfo sample_chain
       (fold (\<lambda>ty. storeConfig ty \<lparr>cfg_configVersion = 1, cfg_content = ''x'', cfg_desc = []\<rparr>)
          [MGMTD, META, STORAGE, CLIENT, FUSE] [])))"

definition sample_state :: "kv \<times> MgmtdState" where
  "sample_state = (sample_kv, sample_State)"

lemma kv_ok_sample: "kv_ok sample_kv"
  by (simp add: sample_kv_def)

lemma abs_store_empty:
  "abs_store [] = \<lparr>st_lease = None, st_version = None, st_nodes = Map.empty, st_chainTables = Map.empty, st_chains = Map.empty,
     st_targets = Map.empty, st_tags = Map.empty, st_configs = Map.empty\<rparr>"
  by (simp add: abs_store_def lookup_def fun_eq_iff)

lemma sample_inv: "mgmtd_inv sample_state"
proof -
  let ?d = "ms_data sample_State"
  have d: "md_routingInfo ?d = sample_RoutingInfo" "md_configMap ?d = md_configMap sample_Data" "md_universalTagsMap ?d = []"
    by (simp_all add: sample_State_def sample_Data_def)
  have ri: "ri_nodeMap sample_RoutingInfo = []" "ri_chainTables sample_RoutingInfo = []" "ri_routingInfoVersion sample_RoutingInfo = 1"
    "ri_chains sample_RoutingInfo = [(1, sample_chain)]" "ci_chainId sample_chain = 1"
    by (simp_all add: sample_RoutingInfo_def initial_RoutingInfo_def sample_chain_def)
  have "st_configs (abs_store sample_kv) (ty, v) = config_table ?d (ty, v)" if "v \<noteq> 0" for ty v
    using that by (cases ty) (simp_all add: sample_kv_def abs_store_empty config_table_def d sample_Data_def)
  moreover have "st_nodes (abs_store sample_kv) = node_table sample_RoutingInfo"
    "st_chainTables (abs_store sample_kv) = chainTable_table sample_RoutingInfo"
    "st_chains (abs_store sample_kv) = map_of (ri_chains sample_RoutingInfo)"
    "st_tags (abs_store sample_kv) = Map.empty" "st_version (abs_store sample_kv) = Some 1"
    "st_targets (abs_store sample_kv) = Map.empty"
    by (simp_all add: sample_kv_def abs_store_empty node_table_def chainTable_table_def ri fun_eq_iff)
  moreover have "nodes_ok sample_RoutingInfo" "tables_ok sample_RoutingInfo"
    by (simp_all add: nodes_ok_def tables_ok_def ri)
  ultimately show ?thesis
    using sample_RoutingInfo_wf configs_wf_sample_State kv_ok_sample
    by (auto simp: sample_state_def mgmtd_inv_def data_ok_def synced_def version_synced_def locations_ok_def d ri)
qed

lemma sample_commits: "commits sample_env sample_state"
  using loads_ok(1) [OF kv_ok_sample]
  by (simp add: commits_def sample_env_def sample_state_def ensureLeaseValid_def sample_kv_def sample_State_def
      MgmtdState_of_def selfId_def sample_app_def initSelfNodeInfo_def toPersistentNode_def)

section \<open>What the operations do\<close>

text \<open>
  C35: \<open>SetChains\<close> accepts two settings with the same new chain id. Once the transaction has committed,
  with the second chain in the store, the process aborts.
\<close>

theorem SetChains_same_id_aborts:
  assumes "mgmtd_inv s" and "commits env s"
    and "cs_chainId a = cid" "cs_chainId b = cid" "cid \<noteq> 0" "map_of (ri_chains (routing s)) cid = None"
    and "cs_targets a \<noteq> []" "cs_targets b \<noteq> []" "distinct (cs_targets a @ cs_targets b)"
    and "\<forall>tid \<in> set (cs_targets a @ cs_targets b). map_of (ri_targets (routing s)) tid = None"
  shows "fst (set_chains env [a, b] s) = Crash \<and>
    st_chains (abs_store (fst (snd (set_chains env [a, b] s)))) cid = Some (makeChainInfo b)"
proof -
  have new: "check_new_targets ri tids nt = Inr (rev tids @ nt)"
    if "distinct tids" "set tids \<inter> set nt = {}" "\<forall>tid \<in> set tids. map_of (ri_targets ri) tid = None" for ri tids nt
    using that by (induction tids arbitrary: nt) auto
  let ?cs = "[makeChainInfo a, makeChainInfo b]" and ?ri = "bump_routing (routing s)"
  let ?kv = "fold storeChainInfo ?cs (storeRoutingInfoVersion (ri_routingInfoVersion (routing s) + 1) (fst s))"
  have "checkChains_settings (routing s) [a, b] = Inr ?cs"
    using assms(3-10) new [of "cs_targets a" "[]" "routing s"] new [of "cs_targets b" "rev (cs_targets a)" "routing s"]
    by (simp add: checkChains_settings_def Int_commute)
  moreover have "updateStoredRoutingInfo env (\<lambda>kv. Inr (fold storeChainInfo ?cs kv)) s = (Ret (), ?kv, snd s)"
    by (rule updateStoredRoutingInfo_commits [OF assms(2)]) simp
  moreover have "\<exists>ri1. insertNewChain (makeChainInfo a) (env_steadyNow env) ?ri = Some ri1 \<and> map_of (ri_chains ri1) cid \<noteq> None"
    using insertNewChain_wf [of ?ri "makeChainInfo a" "env_steadyNow env"] mgmtd_invD(2) [OF assms(1)] assms(3-10)
      makeChainInfo_valid [of a]
    by (auto simp: update_conv')
  then have "ofold (\<lambda>c. insertNewChain c (env_steadyNow env)) ?cs ?ri = None"
    using assms(4) by (auto simp: insertNewChain_def Let_def)
  ultimately have "set_chains env [a, b] s = (Crash, ?kv, snd s)"
    by (simp add: set_chains_def sbind_def try_result_def updateMemoryRoutingInfo_def change_routing_def)
  then show ?thesis
    using assms(4) by simp
qed

theorem SetChains_same_id_aborts_witness:
  "fst (set_chains sample_env [\<lparr>cs_chainId = 2, cs_targets = [20], cs_setPreferredTargetOrder = False\<rparr>,
     \<lparr>cs_chainId = 2, cs_targets = [21], cs_setPreferredTargetOrder = False\<rparr>] sample_state) = Crash"
  using SetChains_same_id_aborts [OF sample_inv sample_commits, of
      "\<lparr>cs_chainId = 2, cs_targets = [20], cs_setPreferredTargetOrder = False\<rparr>" 2
      "\<lparr>cs_chainId = 2, cs_targets = [21], cs_setPreferredTargetOrder = False\<rparr>"]
  by (simp add: sample_state_def sample_State_def sample_Data_def sample_RoutingInfo_def)

text \<open>
  C36: setting a chain table to the chains it already has. If the latest version is not the first one,
  \<open>SetChainTable\<close> does not find that nothing changes: it replaces the first version, in the store
  and in memory, by a table with the latest chains and answers that the version is 1. The latest
  version stays as it was.
\<close>

theorem SetChainTable_overwrites_first_version:
  assumes "mgmtd_inv s" and "commits env s"
    and m: "map_of (ri_chainTables (routing s)) i = Some m" "rbegin m = Some (v, current)" "v \<noteq> 1"
    and check: "checkChains_table (routing s) (ct_chains current) = Inr ()"
  shows "\<exists>s' t. set_chain_table env \<lparr>ct_chainTableId = i, ct_chainTableVersion = 1, ct_chains = ct_chains current, ct_desc = desc\<rparr> s =
      (Ret 1, s') \<and> ct_chains t = ct_chains current \<and>
    chainTable_table (routing s') = (chainTable_table (routing s))((i, 1) \<mapsto> t) \<and>
    st_chainTables (abs_store (fst s')) = (st_chainTables (abs_store (fst s)))((i, 1) \<mapsto> t) \<and>
    chainTable_table (routing s') (i, v) = Some current"
proof -
  let ?new = "\<lparr>ct_chainTableId = i, ct_chainTableVersion = 1, ct_chains = ct_chains current, ct_desc = desc\<rparr>"
  let ?t = "next_chain_table ?new current"
  have m': "omap_wf m" "ct_chainTableVersion current = v" "map_of m v = Some current"
    using mgmtd_invD(4) [OF assms(1)] m(1) rbegin_lookup [OF _ m(2)] by (auto simp: tables_ok_def)
  have t: "ct_chains ?t = ct_chains current" "ct_chainTableVersion ?t = 1" "ct_chainTableId ?t = i"
    by (simp_all add: next_chain_table_def Let_def)
  have "?t \<noteq> current"
    using t(2) m'(2) m(3) by auto
  then have step: "set_chain_table env ?new s = store_chain_table env ?t s"
    using m check by (simp add: set_chain_table_def)
  let ?kv = "storeChainTable ?t (storeRoutingInfoVersion (ri_routingInfoVersion (routing s) + 1) (fst s))"
  let ?s = "(?kv, set_routing (put_chain_table ?t (bump_routing (routing s))) (snd s))"
  have "updateStoredRoutingInfo env (\<lambda>kv. Inr (storeChainTable ?t kv)) s = (Ret (), ?kv, snd s)"
    by (rule updateStoredRoutingInfo_commits [OF assms(2)]) simp
  then have "set_chain_table env ?new s = (Ret 1, ?s)"
    unfolding step by (simp add: store_chain_table_def sbind_def updateMemoryRoutingInfo_def change_routing_def ret_def t(2))
  moreover have "chainTable_table (routing ?s) = (chainTable_table (routing s))((i, 1) \<mapsto> ?t)"
    using m(1) by (auto simp: chainTable_table_def put_chain_table_def Let_def update_conv' fun_eq_iff t)
  moreover have "chainTable_table (routing s) (i, v) = Some current"
    using m(1) m'(3) by (simp add: chainTable_table_def)
  ultimately show ?thesis
    using t m(3) by (intro exI [of _ ?s] exI [of _ ?t]) simp
qed

definition sample_table :: "ChainTableVersion \<Rightarrow> string \<Rightarrow> ChainTable" where
  "sample_table v desc = \<lparr>ct_chainTableId = 1, ct_chainTableVersion = v, ct_chains = [1], ct_desc = desc\<rparr>"

text \<open>The sample with a chain table of two versions.\<close>

definition sample_state2 :: "kv \<times> MgmtdState" where
  "sample_state2 = (storeChainTable (sample_table 2 ''b'') (storeChainTable (sample_table 1 ''a'') sample_kv),
     set_routing (put_chain_table (sample_table 2 ''b'') (put_chain_table (sample_table 1 ''a'') sample_RoutingInfo)) sample_State)"

lemma sample_tables2:
  "put_chain_table (sample_table 2 ''b'') (put_chain_table (sample_table 1 ''a'') sample_RoutingInfo) =
   sample_RoutingInfo\<lparr>ri_chainTables := [(1, [(1, sample_table 1 ''a''), (2, sample_table 2 ''b'')])]\<rparr>"
  by (simp add: put_chain_table_def sample_table_def sample_RoutingInfo_def initial_RoutingInfo_def)

lemma sample_inv2: "mgmtd_inv sample_state2"
proof -
  let ?ri = "sample_RoutingInfo\<lparr>ri_chainTables := [(1, [(1, sample_table 1 ''a''), (2, sample_table 2 ''b'')])]\<rparr>"
  have inv: "mgmtd_inv (sample_kv, sample_State)"
    using sample_inv by (simp add: sample_state_def)
  have ri: "md_routingInfo (ms_data sample_State) = sample_RoutingInfo" "ri_chainTables sample_RoutingInfo = []"
    by (simp_all add: sample_State_def sample_Data_def sample_RoutingInfo_def initial_RoutingInfo_def)
  have "ri_wf ?ri" "tables_ok ?ri" "nodes_ok ?ri = nodes_ok sample_RoutingInfo" "node_table ?ri = node_table sample_RoutingInfo"
    using sample_RoutingInfo_wf
    by (auto simp: ri_wf_def ri_maps_wf_def tables_ok_def nodes_ok_def node_table_def sample_table_def omap_wf_def split: if_splits)
  moreover have "chainTable_table ?ri = (chainTable_table sample_RoutingInfo)((1, 1) \<mapsto> sample_table 1 ''a'', (1, 2) \<mapsto> sample_table 2 ''b'')"
    by (auto simp: chainTable_table_def fun_eq_iff ri)
  moreover have "configs_wf (ms_data (set_routing ?ri sample_State)) = configs_wf (ms_data sample_State)"
    "config_table (ms_data (set_routing ?ri sample_State)) = config_table (ms_data sample_State)"
    by (simp_all add: configs_wf_def config_table_def)
  ultimately show ?thesis
    using inv unfolding sample_state2_def sample_tables2
    by (simp add: mgmtd_inv_def data_ok_def synced_def ri sample_table_def)
qed

lemma sample_commits_cong:
  assumes "kv_ok (fst s)" and "st_lease (abs_store (fst s)) = st_lease (abs_store sample_kv)"
    and "selfId (snd s) = selfId sample_State" and "ms_config (snd s) = ms_config sample_State"
  shows "commits sample_env s"
  using assms sample_commits loads_ok(1) [OF kv_ok_sample] loads_ok(1) [OF assms(1)]
  by (simp add: commits_def ensureLeaseValid_def sample_state_def)

lemma sample_commits2: "commits sample_env sample_state2"
  by (rule sample_commits_cong) (simp_all add: sample_state2_def kv_ok_sample selfId_def)

theorem SetChainTable_overwrites_first_version_witness:
  "\<exists>s' t. set_chain_table sample_env (sample_table 1 []) sample_state2 = (Ret 1, s') \<and>
    chainTable_table (routing s') (1, 1) = Some t \<and> ct_chains t = [1]"
proof -
  have "map_of (ri_chainTables (routing sample_state2)) 1 = Some [(1, sample_table 1 ''a''), (2, sample_table 2 ''b'')]"
    "checkChains_table (routing sample_state2) [1] = Inr ()"
    unfolding sample_state2_def sample_tables2
    by (simp_all add: checkChains_table_def sample_RoutingInfo_def sample_chain_def)
  from SetChainTable_overwrites_first_version [OF sample_inv2 sample_commits2 this(1), of 2 "sample_table 2 ''b''" "[]"] this(2)
  obtain s' t where "set_chain_table sample_env (sample_table 1 []) sample_state2 = (Ret 1, s')" "ct_chains t = [1]"
    "chainTable_table (routing s') = (chainTable_table (routing sample_state2))((1, 1) \<mapsto> t)"
    by (auto simp: rbegin_def sample_table_def)
  then show ?thesis by auto
qed

lemma update_chain_Ret:
  assumes "fst (update_chain env cid tid mode s) = Ret c'" and "map_of (ri_chains (routing s)) cid = Some c"
  shows "(if mode = UPDATE_ADD then map_of (ri_targets (routing s)) tid = None \<and> c' = add_to_chain tid c
    else remove_from_chain tid c = Inr c')"
  using assms
  by (auto simp: update_chain_def sbind_def ret_def fail_def try_result_def of_result_def Let_def
      split: if_splits prod.splits outcome.splits sum.splits)

text \<open>
  C25: adding or removing a target never disturbs the targets in use. If \<open>UpdateChain\<close> succeeds, the
  chain has the next version and the same targets outside the state OFFLINE, in the same order; an
  added target is the last one and OFFLINE, and a removed one was OFFLINE.
\<close>

theorem UpdateChain_keeps_active_targets:
  assumes "mgmtd_inv s" and "map_of (ri_chains (routing s)) cid = Some c" and "fst (update_chain env cid tid mode s) = Ret c'"
  shows "ci_chainId c' = cid \<and> ci_chainVersion c' = ci_chainVersion c + 1 \<and>
    filter (\<lambda>cti. cti_publicState cti \<noteq> PS_OFFLINE) (ci_targets c') = filter (\<lambda>cti. cti_publicState cti \<noteq> PS_OFFLINE) (ci_targets c) \<and>
    (if mode = UPDATE_ADD then chain_ids c' = chain_ids c @ [tid] \<and> tid \<notin> set (chain_ids c)
     else chain_ids c' = removeAll tid (chain_ids c) \<and> tid \<in> set (chain_ids c))"
proof -
  have wf: "ri_wf (routing s)" using mgmtd_invD(2) [OF assms(1)] .
  then have coh: "coherent (map_of (ri_chains (routing s))) (map_of (ri_targets (routing s)))" by (simp add: ri_wf_def)
  note c = coherent_chainD(1,2) [OF coh assms(2)]
  show ?thesis
  proof (cases "mode = UPDATE_ADD")
    case True
    then show ?thesis
      using update_chain_Ret [OF assms(3,2)] ids_not_new [OF wf assms(2)] c(1)
      by (auto simp: add_to_chain_def Let_def nextVersion_def chain_ids_def)
  next
    case False
    then have rm: "remove_from_chain tid c = Inr c'"
      using update_chain_Ret [OF assms(3,2)] by simp
    note c' = remove_from_chain_Inr [OF rm c(2)]
    obtain cti where cti: "cti \<in> set (ci_targets c)" "cti_targetId cti = tid" "cti_publicState cti = PS_OFFLINE"
      using c'(5) by blast
    have "k = cti" if "k \<in> set (ci_targets c)" "cti_targetId k = tid" for k
      using that cti c(2) by (auto simp: chain_ids_def distinct_map inj_on_def)
    then have "filter (\<lambda>k. cti_targetId k \<noteq> tid \<and> cti_publicState k \<noteq> PS_OFFLINE) (ci_targets c) =
        filter (\<lambda>k. cti_publicState k \<noteq> PS_OFFLINE) (ci_targets c)"
      using cti(3) by (intro filter_cong) auto
    moreover have "chain_ids c' = removeAll tid (chain_ids c)"
      unfolding chain_ids_def c'(3) removeAll_filter_not_eq by (simp add: filter_map comp_def eq_commute)
    ultimately show ?thesis
      using False c(1) c'(1-3) cti by (auto simp: chain_ids_def)
  qed
qed

theorem UpdateChain_keeps_active_targets_witness:
  "\<exists>c'. fst (update_chain sample_env 1 12 UPDATE_ADD sample_state) = Ret c' \<and> chain_ids c' = [10, 11, 12]"
proof -
  have c: "map_of (ri_chains (routing sample_state)) 1 = Some sample_chain" "map_of (ri_targets (routing sample_state)) 12 = None"
    by (simp_all add: sample_state_def sample_State_def sample_Data_def sample_RoutingInfo_def)
  let ?c = "add_to_chain 12 sample_chain"
  have wf: "ri_wf (bump_routing (routing sample_state))"
    using mgmtd_invD(2) [OF sample_inv] by simp
  have "updateStoredRoutingInfo sample_env (\<lambda>kv. Inr (storeChainInfo ?c kv)) sample_state =
      (Ret (), storeChainInfo ?c (storeRoutingInfoVersion (ri_routingInfoVersion (routing sample_state) + 1) (fst sample_state)), snd sample_state)"
    by (rule updateStoredRoutingInfo_commits [OF sample_commits]) simp
  with c add_to_chain_wf [OF wf, of 1 sample_chain 12 "env_steadyNow sample_env"]
  have run: "fst (update_chain sample_env 1 12 UPDATE_ADD sample_state) = Ret ?c"
    by (auto simp: update_chain_def sbind_def try_result_def updateMemoryRoutingInfo_def change_routing_def ret_def)
  from UpdateChain_keeps_active_targets [OF sample_inv c(1) run] run show ?thesis
    by (auto simp: sample_chain_def chain_ids_def)
qed

end
