(* ===== verification/Mgmtd_Session_Ops.thy ===== *)
theory Mgmtd_Session_Ops
  imports Mgmtd_Chain_Ops
begin

text \<open>
  Client sessions: extending, reading and listing them (\<^verbatim>\<open>ExtendClientSessionOperation.cc\<close>,
  \<^verbatim>\<open>GetClientSessionOperation.cc\<close> and \<^verbatim>\<open>ListClientSessionsOperation.cc\<close> in \<^verbatim>\<open>src/src/mgmtd/ops\<close>) and the
  background task that removes the old ones (\<^verbatim>\<open>MgmtdClientSessionsChecker.cc\<close> in
  \<^verbatim>\<open>src/src/mgmtd/background\<close>). Sessions live in memory only. Whether a client id is a UUID is a
  function of the environment, since the parser is a library's.
\<close>

section \<open>Definitions\<close>

record ExtendClientSessionReq =
  ecs_clientId :: string
  ecs_clientSessionVersion :: ClientSessionVersion
  ecs_configVersion :: ConfigVersion
  ecs_data :: ClientSessionData
  ecs_configStatus :: ConfigStatus
  ecs_type :: NodeType
  ecs_clientStart :: UtcTime

definition FlatClientSession_of :: "ExtendClientSessionReq \<Rightarrow> UtcTime \<Rightarrow> FlatClientSession" where
  "FlatClientSession_of req now =
     \<lparr>fcs_clientId = ecs_clientId req, fcs_configVersion = ecs_configVersion req, fcs_start = now, fcs_lastExtend = now,
      fcs_universalId = csd_universalId (ecs_data req), fcs_description = csd_description (ecs_data req),
      fcs_serviceGroups = csd_serviceGroups (ecs_data req), fcs_releaseVersion = csd_releaseVersion (ecs_data req),
      fcs_configStatus = ecs_configStatus req, fcs_type = ecs_type req, fcs_clientStart = ecs_clientStart req\<rparr>"

text \<open>Whether the request differs from the session it extends; None is the abort in the comparison of
  release versions.\<close>

definition unexpectedChange :: "FlatClientSession \<Rightarrow> ExtendClientSessionReq \<Rightarrow> bool option" where
  "unexpectedChange base req =
     (let data = ecs_data req
      in if fcs_universalId base \<noteq> csd_universalId data then Some True
         else if fcs_description base \<noteq> csd_description data then Some True
         else if fcs_serviceGroups base \<noteq> csd_serviceGroups data then Some True
         else case ReleaseVersion_eq (fcs_releaseVersion base) (csd_releaseVersion data) of
                None \<Rightarrow> None
              | Some False \<Rightarrow> Some True
              | Some True \<Rightarrow> Some (fcs_type base \<noteq> ecs_type req \<or> fcs_clientStart base \<noteq> ecs_clientStart req))"

definition set_session :: "string \<Rightarrow> ClientSession \<Rightarrow> MgmtdState \<Rightarrow> MgmtdState" where
  "set_session clientId session st =
     st\<lparr>ms_clientSessionMap := AList.update clientId session (ms_clientSessionMap st)\<rparr>"

definition touch_session :: "op_env \<Rightarrow> ExtendClientSessionReq \<Rightarrow> unit operation" where
  "touch_session env req s =
     (case map_of (ms_clientSessionMap (snd s)) (ecs_clientId req) of
        None \<Rightarrow> (Ret (), fst s, set_session (ecs_clientId req)
          \<lparr>cls_base = FlatClientSession_of req (env_utcClock env), cls_ts = env_steadyNow env, cls_clientSessionVersion = 0\<rparr> (snd s))
      | Some cur \<Rightarrow>
          if cls_clientSessionVersion cur \<ge> ecs_clientSessionVersion req then fail (Mgmtd kClientSessionVersionStale) s
          else case unexpectedChange (cls_base cur) req of
                 None \<Rightarrow> crash s
               | Some True \<Rightarrow> fail (Mgmtd kExtendClientSessionMismatch) s
               | Some False \<Rightarrow> (Ret (), fst s, set_session (ecs_clientId req)
                   (cur\<lparr>cls_clientSessionVersion := ecs_clientSessionVersion req,
                      cls_base := (cls_base cur)\<lparr>fcs_configVersion := ecs_configVersion req,
                        fcs_configStatus := ecs_configStatus req, fcs_lastExtend := env_utcClock env\<rparr>,
                      cls_ts := env_steadyNow env\<rparr>) (snd s)))"

definition universal_tags :: "MgmtdState \<Rightarrow> string \<Rightarrow> TagPair list" where
  "universal_tags st universalId =
     (case map_of (md_universalTagsMap (ms_data st)) universalId of None \<Rightarrow> [] | Some tags \<Rightarrow> tags)"

definition extend_session :: "op_env \<Rightarrow> ExtendClientSessionReq \<Rightarrow> (ConfigInfo option \<times> TagPair list) operation" where
  "extend_session env req s =
     sbind (when_error (ecs_type req \<noteq> CLIENT \<and> ecs_type req \<noteq> FUSE) (Common kInvalidArg)) (\<lambda>_.
     sbind (try_outcome (checkConfigVersion (ms_data (snd s)) (ecs_type req) (ecs_configVersion req))) (\<lambda>_.
     sbind (try_outcome (getConfig (ms_data (snd s)) (ecs_type req) (ecs_configVersion req) True)) (\<lambda>config.
     sbind (touch_session env req) (\<lambda>_.
     ret (config, universal_tags (snd s) (csd_universalId (ecs_data req))))))) s"

definition ExtendClientSessionOperation ::
  "op_env \<Rightarrow> string \<Rightarrow> ExtendClientSessionReq \<Rightarrow> (ConfigInfo option \<times> TagPair list) operation" where
  "ExtendClientSessionOperation env clusterId req =
     sbind (validateClusterId clusterId) (\<lambda>_.
     sbind (when_error (ecs_clientId req = []) (Common kInvalidArg)) (\<lambda>_.
     sbind (gets (\<lambda>s. mc_only_accept_client_uuid (ms_config (snd s)))) (\<lambda>only_uuid.
     sbind (when_error (\<not> env_isUuid env (ecs_clientId req) \<and> only_uuid) (Common kInvalidArg)) (\<lambda>_.
     doAsPrimary env (extend_session env req)))))"

definition session_bootstrapping :: "op_env \<Rightarrow> MgmtdState \<Rightarrow> bool" where
  "session_bootstrapping env st \<longleftrightarrow> bootstrapping (ms_config st) (env_steadyNow env) (ms_data st)"

definition GetClientSessionOperation ::
  "op_env \<Rightarrow> string \<Rightarrow> string \<Rightarrow> (bool \<times> FlatClientSession option \<times> TagPair list) operation" where
  "GetClientSessionOperation env clusterId clientId =
     sbind (validateClusterId clusterId) (\<lambda>_.
     sbind (when_error (clientId = []) (Common kInvalidArg)) (\<lambda>_.
     doAsPrimary env (gets (\<lambda>s.
       case map_of (ms_clientSessionMap (snd s)) clientId of
         None \<Rightarrow> (session_bootstrapping env (snd s), None, [])
       | Some session \<Rightarrow> (session_bootstrapping env (snd s), Some (cls_base session),
           universal_tags (snd s) (fcs_universalId (cls_base session)))))))"

definition referenced_tags :: "MgmtdState \<Rightarrow> FlatClientSession list \<Rightarrow> (string \<times> TagPair list) list" where
  "referenced_tags st sessions =
     fold (\<lambda>session m. if map_of m (fcs_universalId session) \<noteq> None then m
        else AList.update (fcs_universalId session) (universal_tags st (fcs_universalId session)) m) sessions []"

definition ListClientSessionsOperation ::
  "op_env \<Rightarrow> string \<Rightarrow> (bool \<times> FlatClientSession list \<times> (string \<times> TagPair list) list) operation" where
  "ListClientSessionsOperation env clusterId =
     sbind (validateClusterId clusterId) (\<lambda>_.
     doAsPrimary env (gets (\<lambda>s.
       let sessions = map (\<lambda>(_, session). cls_base session) (ms_clientSessionMap (snd s))
       in (session_bootstrapping env (snd s), sessions, referenced_tags (snd s) sessions))))"

text \<open>
  The checker collects under a shared lock and removes under an exclusive one; between the two the
  map may change. It uses what \<^verbatim>\<open>find\<close> returns without testing it, so an entry that is gone is
  undefined behaviour, here an abort.
\<close>

definition session_timed_out :: "op_env \<Rightarrow> MgmtdState \<Rightarrow> ClientSession \<Rightarrow> bool" where
  "session_timed_out env st session \<longleftrightarrow> cls_ts session + mc_client_session_timeout (ms_config st) < env_steadyNow env"

definition timeouted_clients :: "op_env \<Rightarrow> MgmtdState \<Rightarrow> string list" where
  "timeouted_clients env st = map fst (filter (\<lambda>(_, session). session_timed_out env st session) (ms_clientSessionMap st))"

fun remove_timeouted :: "op_env \<Rightarrow> string list \<Rightarrow> unit operation" where
  "remove_timeouted env [] s = ret () s"
| "remove_timeouted env (clientId # rest) s =
     (case map_of (ms_clientSessionMap (snd s)) clientId of
        None \<Rightarrow> crash s
      | Some session \<Rightarrow>
          remove_timeouted env rest
            (fst s, if session_timed_out env (snd s) session
               then (snd s)\<lparr>ms_clientSessionMap := AList.delete clientId (ms_clientSessionMap (snd s))\<rparr> else snd s))"

definition CheckClientSessions :: "op_env \<Rightarrow> unit operation" where
  "CheckClientSessions env =
     doAsPrimary env (\<lambda>s. remove_timeouted env (timeouted_clients env (snd s)) s)"

section \<open>Contracts\<close>

text \<open>A change of the sessions alone.\<close>

lemma post_sessions:
  assumes inv: "mgmtd_inv s" and same: "ms_data st' = ms_data (snd s)" "ms_config st' = ms_config (snd s)"
    "ms_clusterId st' = ms_clusterId (snd s)" "ms_appInfo st' = ms_appInfo (snd s)"
    "ms_selfPersistentNodeInfo st' = ms_selfPersistentNodeInfo (snd s)"
  shows "op_post env s (Ret x, fst s, st')"
  using inv by (simp add: op_post_def mgmtd_inv_def same same_frame_def routing_step_same)

lemma set_session_simps [simp]:
  "ms_data (set_session i c st) = ms_data st" "ms_config (set_session i c st) = ms_config st"
  "ms_clusterId (set_session i c st) = ms_clusterId st" "ms_appInfo (set_session i c st) = ms_appInfo st"
  "ms_selfPersistentNodeInfo (set_session i c st) = ms_selfPersistentNodeInfo st"
  "ms_clientSessionMap (set_session i c st) = AList.update i c (ms_clientSessionMap st)"
  by (simp_all add: set_session_def)

abbreviation known_release :: "ReleaseVersion \<Rightarrow> bool" where
  "known_release rv \<equiv> rv_majorVersion rv \<in> {0, 1}"

lemma unexpectedChange_known:
  assumes "known_release (csd_releaseVersion (ecs_data req))"
  shows "\<exists>b. unexpectedChange base req = Some b"
proof -
  have "ReleaseVersion_eq (fcs_releaseVersion base) (csd_releaseVersion (ecs_data req)) \<noteq> None"
    using assms by (auto simp: ReleaseVersion_eq_def simp del: not_None_eq)
  then obtain b where "ReleaseVersion_eq (fcs_releaseVersion base) (csd_releaseVersion (ecs_data req)) = Some b"
    by blast
  then have "unexpectedChange base req \<noteq> None"
    by (cases b) (simp_all add: unexpectedChange_def Let_def del: not_None_eq)
  then show ?thesis by blast
qed

lemma touch_session_cases:
  assumes "known_release (csd_releaseVersion (ecs_data req))"
  shows "(\<exists>e. touch_session env req s = (Err e, s)) \<or>
    (\<exists>session. touch_session env req s = (Ret (), fst s, set_session (ecs_clientId req) session (snd s)))"
proof (cases "map_of (ms_clientSessionMap (snd s)) (ecs_clientId req)")
  case (Some cur)
  obtain b where "unexpectedChange (cls_base cur) req = Some b"
    using unexpectedChange_known [OF assms] by blast
  with Some show ?thesis
    by (cases b) (auto simp: touch_session_def fail_def)
qed (auto simp: touch_session_def)

lemma extend_session_post:
  assumes inv: "mgmtd_inv s" and known: "known_release (csd_releaseVersion (ecs_data req))"
  shows "op_post env s (extend_session env req s)"
proof -
  obtain vm v info where vm: "map_of (md_configMap (ms_data (snd s))) (ecs_type req) = Some vm" "rbegin vm = Some (v, info)"
    "cfg_configVersion info = v"
    using configs_wf_latest [OF mgmtd_invD(5) [OF inv], of "ecs_type req"] by blast
  have touched: "op_post env s (sbind (touch_session env req) (\<lambda>_. ret x) s)" for x :: "ConfigInfo option \<times> TagPair list"
    using touch_session_cases [OF known, of env s] post_sessions [OF inv, of "set_session _ _ (snd s)" env x]
    by (auto simp: sbind_def ret_def op_post_unchanged [OF inv])
  show ?thesis
    unfolding extend_session_def
  proof (rule post_when_error [OF inv])
    show "op_post env s (sbind (try_outcome (checkConfigVersion (ms_data (snd s)) (ecs_type req) (ecs_configVersion req)))
      (\<lambda>_. sbind (try_outcome (getConfig (ms_data (snd s)) (ecs_type req) (ecs_configVersion req) True))
      (\<lambda>config. sbind (touch_session env req) (\<lambda>_. ret (config, universal_tags (snd s) (csd_universalId (ecs_data req)))))) s)"
      using vm inv touched by (simp add: checkConfigVersion_def getConfig_def)
  qed
qed

interpretation extend_client_session: writer
  "\<lambda>env (cid, req). ExtendClientSessionOperation env cid req"
  "\<lambda>(cid, req) s. known_release (csd_releaseVersion (ecs_data req))"
  by unfold_locales
    (auto simp: ExtendClientSessionOperation_def split_beta intro!: post_rules extend_session_post)

interpretation get_client_session: writer "\<lambda>env (cid, i). GetClientSessionOperation env cid i" "\<lambda>_ _. True"
  by unfold_locales (auto simp: GetClientSessionOperation_def gets_def op_post_unchanged intro!: post_rules)

interpretation list_client_sessions: writer "\<lambda>env cid. ListClientSessionsOperation env cid" "\<lambda>_ _. True"
  by unfold_locales (auto simp: ListClientSessionsOperation_def gets_def op_post_unchanged intro!: post_rules)

text \<open>The checker, when nothing runs between its two phases.\<close>

definition without_timeouted ::
  "(ClientSession \<Rightarrow> bool) \<Rightarrow> string list \<Rightarrow> (string \<rightharpoonup> ClientSession) \<Rightarrow> string \<rightharpoonup> ClientSession" where
  "without_timeouted P cs M = (\<lambda>i. case M i of Some c \<Rightarrow> if i \<in> set cs \<and> P c then None else Some c | None \<Rightarrow> None)"

lemma without_timeouted_Cons:
  assumes "M i = Some c"
  shows "without_timeouted P (i # cs) M = without_timeouted P cs (if P c then M(i := None) else M)"
  using assms by (auto simp: without_timeouted_def fun_eq_iff split: option.splits)

lemma remove_timeouted_ok:
  assumes "distinct cs" and "set cs \<subseteq> dom (map_of (ms_clientSessionMap (snd s)))"
  shows "\<exists>m. remove_timeouted env cs s = (Ret (), fst s, (snd s)\<lparr>ms_clientSessionMap := m\<rparr>) \<and>
    map_of m = without_timeouted (session_timed_out env (snd s)) cs (map_of (ms_clientSessionMap (snd s)))"
  using assms
proof (induction cs arbitrary: s)
  case Nil
  show ?case by (intro exI [of _ "ms_clientSessionMap (snd s)"]) (simp add: ret_def without_timeouted_def fun_eq_iff split: option.split)
next
  case (Cons i cs)
  obtain c where c: "map_of (ms_clientSessionMap (snd s)) i = Some c"
    using Cons.prems(2) by auto
  define st1 where "st1 = (if session_timed_out env (snd s) c
     then (snd s)\<lparr>ms_clientSessionMap := AList.delete i (ms_clientSessionMap (snd s))\<rparr> else snd s)"
  have st1: "st1\<lparr>ms_clientSessionMap := m\<rparr> = (snd s)\<lparr>ms_clientSessionMap := m\<rparr>"
    "map_of (ms_clientSessionMap st1) = (if session_timed_out env (snd s) c
      then (map_of (ms_clientSessionMap (snd s)))(i := None) else map_of (ms_clientSessionMap (snd s)))"
    "session_timed_out env st1 = session_timed_out env (snd s)" for m
    by (simp_all add: st1_def delete_conv' session_timed_out_def fun_eq_iff)
  have "set cs \<subseteq> dom (map_of (ms_clientSessionMap (snd (fst s, st1))))"
    using Cons.prems by (auto simp: st1(2))
  then show ?case
    using Cons.IH [of "(fst s, st1)"] Cons.prems(1) c 
      without_timeouted_Cons [of "map_of (ms_clientSessionMap (snd s))" i c "session_timed_out env (snd s)" cs]
    by (simp add: st1 flip: st1_def)
qed

lemma timeouted_clients_known:
  assumes "distinct (map fst (ms_clientSessionMap st))"
  shows "distinct (timeouted_clients env st)"
    and "set (timeouted_clients env st) = {i. \<exists>c. map_of (ms_clientSessionMap st) i = Some c \<and> session_timed_out env st c}"
proof -
  show "distinct (timeouted_clients env st)"
    using assms unfolding timeouted_clients_def by (rule distinct_map_filter)
  show "set (timeouted_clients env st) = {i. \<exists>c. map_of (ms_clientSessionMap st) i = Some c \<and> session_timed_out env st c}"
    using assms by (force simp: timeouted_clients_def)
qed

section \<open>What the operations do\<close>

text \<open>
  On the primary the check of client sessions removes exactly the sessions that were last extended
  longer ago than the timeout; every other session stays as it is, and so does everything else.
\<close>

lemma CheckClientSessions_exact:
  assumes "distinct (map fst (ms_clientSessionMap (snd s)))" and "ensureSelfIsPrimary env s = (Ret (), s)"
  shows "\<exists>m. CheckClientSessions env s = (Ret (), fst s, (snd s)\<lparr>ms_clientSessionMap := m\<rparr>) \<and>
    (\<forall>i c. map_of m i = Some c \<longleftrightarrow> map_of (ms_clientSessionMap (snd s)) i = Some c \<and>
       env_steadyNow env \<le> cls_ts c + mc_client_session_timeout (ms_config (snd s)))"
proof -
  note ids = timeouted_clients_known [OF assms(1), of env]
  have "set (timeouted_clients env (snd s)) \<subseteq> dom (map_of (ms_clientSessionMap (snd s)))"
    unfolding ids(2) by auto
  from remove_timeouted_ok [OF ids(1) this] obtain m where
    m: "remove_timeouted env (timeouted_clients env (snd s)) s = (Ret (), fst s, (snd s)\<lparr>ms_clientSessionMap := m\<rparr>)"
      "map_of m = without_timeouted (session_timed_out env (snd s)) (timeouted_clients env (snd s)) (map_of (ms_clientSessionMap (snd s)))"
    by blast
  have "map_of m i = Some c \<longleftrightarrow> map_of (ms_clientSessionMap (snd s)) i = Some c \<and> \<not> session_timed_out env (snd s) c" for i c
    unfolding m(2) without_timeouted_def ids(2) by (auto split: option.splits)
  with m(1) assms(2) show ?thesis
    by (intro exI [of _ m]) (simp add: CheckClientSessions_def doAsPrimary_def sbind_def session_timed_out_def not_less)
qed

definition sample_req :: "ClientSessionVersion \<Rightarrow> ExtendClientSessionReq" where
  "sample_req v = \<lparr>ecs_clientId = ''u'', ecs_clientSessionVersion = v, ecs_configVersion = 0,
     ecs_data = \<lparr>csd_universalId = ''h'', csd_description = [], csd_serviceGroups = [], csd_releaseVersion = default_ReleaseVersion\<rparr>,
     ecs_configStatus = CS_NORMAL, ecs_type = CLIENT, ecs_clientStart = 0\<rparr>"

definition sample_session :: "SteadyTime \<Rightarrow> ClientSession" where
  "sample_session ts = \<lparr>cls_base = FlatClientSession_of (sample_req 1) 0, cls_ts = ts, cls_clientSessionVersion = 0\<rparr>"

lemma sample_primary: "ensureSelfIsPrimary sample_env (kv, sample_State\<lparr>ms_clientSessionMap := m\<rparr>) =
    (Ret (), kv, sample_State\<lparr>ms_clientSessionMap := m\<rparr>)"
  unfolding ensureSelfIsPrimary_Ret
  by (simp add: sample_State_def MgmtdState_of_def currentLease_def selfId_def sample_env_def default_MgmtdConfig_def
      initSelfNodeInfo_def sample_app_def toPersistentNode_def)

text \<open>
  C27: an accepted extension never changes whose session it is. If a session is extended, the session
  version grows strictly, and the client, the start times, the description, the service groups and the
  type stay; the sessions of other clients stay as they are.
\<close>

theorem extend_keeps_identity:
  assumes "touch_session env req s = (Ret (), s')"
    and "map_of (ms_clientSessionMap (snd s)) (ecs_clientId req) = Some cur"
  shows "\<exists>new. map_of (ms_clientSessionMap (snd s')) (ecs_clientId req) = Some new \<and>
    cls_clientSessionVersion cur < cls_clientSessionVersion new \<and> cls_clientSessionVersion new = ecs_clientSessionVersion req \<and>
    (cls_base new)\<lparr>fcs_configVersion := fcs_configVersion (cls_base cur), fcs_configStatus := fcs_configStatus (cls_base cur),
      fcs_lastExtend := fcs_lastExtend (cls_base cur)\<rparr> = cls_base cur \<and>
    fcs_universalId (cls_base new) = csd_universalId (ecs_data req) \<and> fcs_clientStart (cls_base new) = ecs_clientStart req \<and>
    cls_ts new = env_steadyNow env \<and>
    (\<forall>i. i \<noteq> ecs_clientId req \<longrightarrow> map_of (ms_clientSessionMap (snd s')) i = map_of (ms_clientSessionMap (snd s)) i)"
proof -
  let ?new = "cur\<lparr>cls_clientSessionVersion := ecs_clientSessionVersion req,
    cls_base := (cls_base cur)\<lparr>fcs_configVersion := ecs_configVersion req, fcs_configStatus := ecs_configStatus req,
      fcs_lastExtend := env_utcClock env\<rparr>, cls_ts := env_steadyNow env\<rparr>"
  have "\<not> cls_clientSessionVersion cur \<ge> ecs_clientSessionVersion req" "unexpectedChange (cls_base cur) req = Some False"
    "s' = (fst s, set_session (ecs_clientId req) ?new (snd s))"
    using assms by (auto simp: touch_session_def fail_def crash_def split: if_splits option.splits bool.splits)
  then show ?thesis
    by (intro exI [of _ ?new])
      (auto simp: update_conv' unexpectedChange_def Let_def split: if_splits option.splits bool.splits)
qed

definition session_state :: "kv \<times> MgmtdState" where
  "session_state = ([], sample_State\<lparr>ms_clientSessionMap := [(''u'', sample_session 0)]\<rparr>)"

lemma session_state_extend: "\<exists>s'. touch_session sample_env (sample_req 2) session_state = (Ret (), s')"
  by (simp add: touch_session_def session_state_def sample_session_def sample_req_def FlatClientSession_of_def
      unexpectedChange_def ReleaseVersion_eq_def getTagDate_def getIsReleaseVersion_def getPatchVersion_def default_ReleaseVersion_def)

theorem extend_keeps_identity_witness:
  "\<exists>s' new. touch_session sample_env (sample_req 2) session_state = (Ret (), s') \<and>
    map_of (ms_clientSessionMap (snd s')) ''u'' = Some new \<and> cls_clientSessionVersion new = 2"
proof -
  obtain s' where run: "touch_session sample_env (sample_req 2) session_state = (Ret (), s')"
    using session_state_extend by blast
  have "map_of (ms_clientSessionMap (snd session_state)) (ecs_clientId (sample_req 2)) = Some (sample_session 0)"
    by (simp add: session_state_def sample_req_def)
  from extend_keeps_identity [OF run this] run show ?thesis
    by (auto simp: sample_req_def)
qed

text \<open>
  The first request of a client is accepted twice. The session that it creates does not record the
  version of the request, so the same request passes the check for stale versions once more.
\<close>

lemma first_extend_replays:
  assumes "map_of (ms_clientSessionMap (snd s)) (ecs_clientId req) = None" and "0 < ecs_clientSessionVersion req"
    and "known_release (csd_releaseVersion (ecs_data req))"
  shows "\<exists>s1 s2. touch_session env req s = (Ret (), s1) \<and> touch_session env' req s1 = (Ret (), s2)"
proof -
  have "ReleaseVersion_eq (csd_releaseVersion (ecs_data req)) (csd_releaseVersion (ecs_data req)) = Some True"
    using assms(3) by (auto simp: ReleaseVersion_eq_def)
  then have "unexpectedChange (FlatClientSession_of req now) req = Some False" for now
    by (simp add: unexpectedChange_def Let_def FlatClientSession_of_def)
  with assms(1,2) show ?thesis
    by (auto simp: touch_session_def update_conv')
qed

text \<open>
  A client can abort the primary. If a session was created with a release version whose major
  number is neither 0 nor 1, which nothing prevents, the next request to extend it reaches the fatal
  branch in the comparison of release versions.
\<close>

lemma extend_aborts_on_unknown_release:
  assumes "map_of (ms_clientSessionMap (snd s)) (ecs_clientId req) = None" and "ecs_clientSessionVersion req < ecs_clientSessionVersion req'"
    and "\<not> known_release (csd_releaseVersion (ecs_data req))"
    and "ecs_clientId req' = ecs_clientId req" "ecs_data req' = ecs_data req"
  shows "\<exists>s1. touch_session env req s = (Ret (), s1) \<and> touch_session env' req' s1 = (Crash, s1)"
proof -
  have "0 < ecs_clientSessionVersion req'"
    using assms(2) word_gt_0_no by (metis bot_nat_0.extremum_strict word_less_nat_alt unat_0 neq0_conv)
  then have "\<not> cls_clientSessionVersion \<lparr>cls_base = b, cls_ts = t, cls_clientSessionVersion = 0\<rparr> \<ge> ecs_clientSessionVersion req'" for b t
    by simp
  moreover have "ReleaseVersion_eq (csd_releaseVersion (ecs_data req)) (csd_releaseVersion (ecs_data req)) = None"
    using assms(3) by (auto simp: ReleaseVersion_eq_def)
  then have "unexpectedChange (FlatClientSession_of req now) req' = None" for now
    using assms(4,5) by (simp add: unexpectedChange_def Let_def FlatClientSession_of_def)
  ultimately show ?thesis
    using assms(1,4) by (auto simp: touch_session_def update_conv' crash_def)
qed

end
