(* ===== verification/Mgmtd_Background.thy ===== *)
theory Mgmtd_Background
  imports Mgmtd_Session_Ops
begin

text \<open>
  The background tasks of the primary cluster manager (\<^verbatim>\<open>src/src/mgmtd/background\<close>): the periodic
  update of the chains, the check of heartbeats, the end of the bootstrap of new chains, the promotion
  of the routing info version, and the persisted locations of targets, each with the contract of
  \<^theory_text>\<open>Mgmtd_Invariant\<close>. A task that reads the steady clock twice gets the second reading as \<open>later\<close>.
\<close>

section \<open>Definitions\<close>

subsection \<open>The chains updater\<close>

text \<open>\<^verbatim>\<open>MgmtdChainsUpdater.cc\<close>: chains with a target that changed after the last update.\<close>

definition candidate_chains :: "SteadyTime \<Rightarrow> bool \<Rightarrow> bool \<Rightarrow> RoutingInfo \<Rightarrow> ChainId list" where
  "candidate_chains lastUpdateTs lastAdjustTargetOrderFlag tryAdjust ri =
     remdups (map (\<lambda>(tid, ti). ti_chainId (tw_base ti))
       (filter (\<lambda>(tid, ti). tw_ts ti > lastUpdateTs \<or> (\<not> lastAdjustTargetOrderFlag \<and> tryAdjust)) (ri_targets ri)))"

definition need_promote :: "SteadyTime \<Rightarrow> RoutingInfo \<Rightarrow> bool" where
  "need_promote lastUpdateTs ri \<longleftrightarrow> list_ex (\<lambda>(tid, ti). tw_importantInfoChangedTime ti > lastUpdateTs) (ri_targets ri)"

definition changed_chains :: "bool \<Rightarrow> ChainId list \<Rightarrow> RoutingInfo \<Rightarrow> ChainInfo list option" where
  "changed_chains tryAdjust cids ri = ofold (\<lambda>cid. appendChangedChains ri cid tryAdjust) cids []"

definition update_chains :: "op_env \<Rightarrow> SteadyTime \<Rightarrow> bool \<Rightarrow> SteadyTime operation" where
  "update_chains env lastUpdateTs lastAdjustTargetOrderFlag s =
     (let ri = routing s; tryAdjust = mc_try_adjust_target_order_as_preferred (ms_config (snd s));
          steadyNow = env_steadyNow env
      in case changed_chains tryAdjust (candidate_chains lastUpdateTs lastAdjustTargetOrderFlag tryAdjust ri) ri of
           None \<Rightarrow> crash s
         | Some changed \<Rightarrow>
             if changed = [] \<and> \<not> need_promote lastUpdateTs ri then ret steadyNow s
             else sbind (updateStoredRoutingInfo env (\<lambda>kv. Inr (fold storeChainInfo changed kv))) (\<lambda>_.
                  sbind (updateMemoryRoutingInfo (applyChainTargetChanges changed steadyNow)) (\<lambda>_.
                  ret steadyNow)) s)"

definition UpdateChains :: "op_env \<Rightarrow> SteadyTime \<Rightarrow> bool \<Rightarrow> SteadyTime operation" where
  "UpdateChains env lastUpdateTs lastAdjustTargetOrderFlag =
     doAsPrimary env (update_chains env lastUpdateTs lastAdjustTargetOrderFlag)"

text \<open>The two members of the updater after a round.\<close>

definition updater_next :: "MgmtdConfig \<Rightarrow> SteadyTime outcome \<Rightarrow> SteadyTime \<times> bool \<Rightarrow> SteadyTime \<times> bool" where
  "updater_next config res members =
     (case res of Ret ts \<Rightarrow> (ts, mc_try_adjust_target_order_as_preferred config) | _ \<Rightarrow> members)"

subsection \<open>The heartbeat checker\<close>

definition onNodeFailed :: "NodeInfo \<Rightarrow> NodeInfo" where
  "onNodeFailed oldNodeInfo = oldNodeInfo\<lparr>ni_status := HEARTBEAT_FAILED\<rparr>"

definition timeouted_nodes :: "int \<Rightarrow> SteadyTime \<Rightarrow> RoutingInfo \<Rightarrow> NodeInfo list" where
  "timeouted_nodes failInterval steadyNow ri =
     map (\<lambda>(nodeId, nw). onNodeFailed (nw_base nw))
       (filter (\<lambda>(nodeId, nw). ni_status (nw_base nw) \<notin> {DISABLED, HEARTBEAT_FAILED, PRIMARY_MGMTD} \<and>
          nw_ts nw + failInterval < steadyNow) (ri_nodeMap ri))"

definition timeouted_targets :: "int \<Rightarrow> SteadyTime \<Rightarrow> RoutingInfo \<Rightarrow> TargetId list" where
  "timeouted_targets failInterval steadyNow ri =
     map fst (filter (\<lambda>(tid, ti). ti_localState (tw_base ti) \<noteq> LS_OFFLINE \<and> tw_ts ti + failInterval < steadyNow)
       (ri_targets ri))"

definition set_offline :: "SteadyTime \<Rightarrow> TargetInfoW \<Rightarrow> TargetInfoW option" where
  "set_offline now ti = Some (ti\<lparr>tw_base := (tw_base ti)\<lparr>ti_localState := LS_OFFLINE\<rparr>, tw_ts := now\<rparr>)"

text \<open>\<^verbatim>\<open>nodeMap[id]\<close> creates an entry for an unknown id.\<close>

definition put_node_base :: "SteadyTime \<Rightarrow> NodeInfo \<Rightarrow> NodeMap \<Rightarrow> NodeMap" where
  "put_node_base now info nodes =
     (let nodeId = app_nodeId (ni_app info);
          nw = (case map_of nodes nodeId of None \<Rightarrow> NodeInfoWrapper_of info now | Some nw \<Rightarrow> nw\<lparr>nw_base := info\<rparr>)
      in AList.update nodeId nw nodes)"

definition set_node_base :: "SteadyTime \<Rightarrow> NodeInfo \<Rightarrow> RoutingInfo \<Rightarrow> RoutingInfo" where
  "set_node_base now info ri = ri\<lparr>ri_nodeMap := put_node_base now info (ri_nodeMap ri)\<rparr>"

definition apply_timeouts :: "SteadyTime \<Rightarrow> TargetId list \<Rightarrow> NodeInfo list \<Rightarrow> RoutingInfo \<Rightarrow> RoutingInfo option" where
  "apply_timeouts now tids infos ri =
     map_option (\<lambda>ri'. (fold (set_node_base now) infos ri')\<lparr>ri_routingInfoChanged := True\<rparr>)
       (ofold (\<lambda>tid. updateTarget tid now (set_offline now)) tids ri)"

definition check_heartbeat :: "op_env \<Rightarrow> SteadyTime \<Rightarrow> unit operation" where
  "check_heartbeat env later s =
     (let failInterval = mc_heartbeat_fail_interval (ms_config (snd s)); steadyNow = env_steadyNow env;
          infos = timeouted_nodes failInterval steadyNow (routing s);
          tids = timeouted_targets failInterval steadyNow (routing s)
      in if infos = [] \<and> tids = [] then ret () s else change_routing (apply_timeouts later tids infos) s)"

definition CheckHeartbeat :: "op_env \<Rightarrow> SteadyTime \<Rightarrow> unit operation" where
  "CheckHeartbeat env later = doAsPrimary env (check_heartbeat env later)"

subsection \<open>The checker of new chains\<close>

definition newborn_candidates :: "int \<Rightarrow> SteadyTime \<Rightarrow> RoutingInfo \<Rightarrow> ChainId list" where
  "newborn_candidates interval steadyNow ri =
     map fst (filter (\<lambda>(cid, bornTime). bornTime + interval \<le> steadyNow) (ri_newBornChains ri))"

definition end_bootstrap :: "SteadyTime \<Rightarrow> ChainId \<Rightarrow> RoutingInfo \<Rightarrow> RoutingInfo option" where
  "end_bootstrap now cid ri =
     (let ri1 = ri\<lparr>ri_newBornChains := AList.delete cid (ri_newBornChains ri)\<rparr>
      in case getChain ri1 cid of
           None \<Rightarrow> None
         | Some chain \<Rightarrow> ofold (\<lambda>cti. updateTarget (cti_targetId cti) now (touch_target now)) (ci_targets chain) ri1)"

text \<open>The second phase runs under another lock: it does nothing if a new lease has started since the first.\<close>

definition apply_newborn :: "SteadyTime \<Rightarrow> SteadyTime \<Rightarrow> ChainId list \<Rightarrow> unit operation" where
  "apply_newborn later leaseStartTs candidates s =
     (if leaseStartTs \<noteq> md_leaseStartTs (ms_data (snd s)) then ret () s
      else change_routing (ofold (end_bootstrap later) candidates) s)"

definition check_newborn_chains :: "op_env \<Rightarrow> SteadyTime \<Rightarrow> unit operation" where
  "check_newborn_chains env later s =
     (let candidates = newborn_candidates (mc_new_chain_bootstrap_interval (ms_config (snd s))) (env_steadyNow env) (routing s)
      in if candidates = [] then ret () s
         else apply_newborn later (md_leaseStartTs (ms_data (snd s))) candidates s)"

definition CheckNewBornChains :: "op_env \<Rightarrow> SteadyTime \<Rightarrow> unit operation" where
  "CheckNewBornChains env later = doAsPrimary env (check_newborn_chains env later)"

subsection \<open>The promotion of the routing info version\<close>

definition bump_version :: "op_env \<Rightarrow> unit operation" where
  "bump_version env s =
     (if ri_routingInfoChanged (routing s)
      then sbind (updateStoredRoutingInfo env Inr) (\<lambda>_. updateMemoryRoutingInfo Some) s
      else ret () s)"

definition BumpRoutingInfoVersion :: "op_env \<Rightarrow> unit operation" where
  "BumpRoutingInfoVersion env = doAsPrimary env (bump_version env)"

subsection \<open>Persisted locations of targets\<close>

text \<open>The loop of \<^verbatim>\<open>MgmtdTargetInfoPersister.cc\<close> over the targets, which stops when the batch is full.\<close>

definition needs_persist :: "TargetInfoW \<Rightarrow> bool" where
  "needs_persist ti \<longleftrightarrow> tw_locationInitLoaded ti \<and> ti_nodeId (tw_base ti) \<noteq> None \<and>
     (tw_persistedNodeId ti \<noteq> ti_nodeId (tw_base ti) \<or> tw_persistedDiskIndex ti \<noteq> ti_diskIndex (tw_base ti))"

fun persist_candidates :: "nat \<Rightarrow> TargetMap \<Rightarrow> TargetInfo list \<Rightarrow> TargetInfo list" where
  "persist_candidates batch [] acc = acc"
| "persist_candidates batch ((tid, ti) # ts) acc =
     (if needs_persist ti then
        let acc' = acc @ [tw_base ti]
        in if length acc' \<ge> batch then acc' else persist_candidates batch ts acc'
      else persist_candidates batch ts acc)"

definition set_persisted :: "TargetInfo \<Rightarrow> TargetInfoW \<Rightarrow> TargetInfoW option" where
  "set_persisted persisted ti = Some (ti\<lparr>tw_persistedNodeId := ti_nodeId persisted,
     tw_persistedDiskIndex := ti_diskIndex persisted\<rparr>)"

definition persist_commit :: "op_env \<Rightarrow> TargetInfo list \<Rightarrow> unit operation" where
  "persist_commit env candidates = store_txn env (\<lambda>kv. Inr (fold storeTargetInfo candidates kv))"

definition persist_apply :: "SteadyTime \<Rightarrow> TargetInfo list \<Rightarrow> RoutingInfo \<Rightarrow> RoutingInfo option" where
  "persist_apply now candidates = ofold (\<lambda>ti. updateTarget (ti_targetId ti) now (set_persisted ti)) candidates"

text \<open>The task holds no writer lock: other operations may run between its phases.\<close>

definition persist_target_info :: "op_env \<Rightarrow> SteadyTime \<Rightarrow> unit operation" where
  "persist_target_info env later s =
     (let candidates = persist_candidates (mc_target_info_persist_batch (ms_config (snd s))) (ri_targets (routing s)) []
      in if candidates = [] then ret () s
         else sbind (persist_commit env candidates) (\<lambda>_. change_routing (persist_apply later candidates)) s)"

definition PersistTargetInfo :: "op_env \<Rightarrow> SteadyTime \<Rightarrow> unit operation" where
  "PersistTargetInfo env later = doAsPrimary env (persist_target_info env later)"

text \<open>
  \<^verbatim>\<open>MgmtdTargetInfoLoader.cc\<close>: the locations are read page by page; \<open>reads\<close> gives each page its
  clocks and says whether its read-only transaction succeeds or with which error it gives up. Nothing else writes to the
  store while the pages are read. The member \<^verbatim>\<open>loadedLeaseStart\<close> is set
  before the first page is read.
\<close>

definition set_loaded :: "TargetInfo \<Rightarrow> TargetInfoW \<Rightarrow> TargetInfoW option" where
  "set_loaded loaded ti =
     (let ti1 = ti\<lparr>tw_locationInitLoaded := True, tw_persistedNodeId := ti_nodeId loaded,
                   tw_persistedDiskIndex := ti_diskIndex loaded\<rparr>
      in Some (if ti_nodeId (tw_base ti1) = None
               then ti1\<lparr>tw_base := (tw_base ti1)\<lparr>ti_nodeId := ti_nodeId loaded, ti_diskIndex := ti_diskIndex loaded\<rparr>\<rparr>
               else ti1))"

definition apply_page :: "SteadyTime \<Rightarrow> TargetInfo list \<Rightarrow> RoutingInfo \<Rightarrow> RoutingInfo option" where
  "apply_page now page = ofold (\<lambda>ti. updateTarget (ti_targetId ti) now (set_loaded ti)) page"

definition set_location_loaded :: "TargetInfoW \<Rightarrow> TargetInfoW option" where
  "set_location_loaded ti = Some (ti\<lparr>tw_locationInitLoaded := True\<rparr>)"

definition mark_loaded :: "SteadyTime \<Rightarrow> RoutingInfo \<Rightarrow> RoutingInfo option" where
  "mark_loaded now ri = ofold (\<lambda>(tid, _). updateTarget tid now set_location_loaded) (ri_targets ri) ri"

text \<open>Both places check that the manager is still primary and that no new lease has started.\<close>

definition still_loading :: "op_env \<Rightarrow> SteadyTime \<Rightarrow> kv \<times> MgmtdState \<Rightarrow> bool" where
  "still_loading env loadedLeaseStart s \<longleftrightarrow>
     fst (ensureSelfIsPrimary env s) = Ret () \<and> \<not> loadedLeaseStart < md_leaseStartTs (ms_data (snd s))"

fun load_targets ::
  "nat \<Rightarrow> SteadyTime \<Rightarrow> (op_env \<times> status option) list \<Rightarrow> TargetId \<Rightarrow> unit operation" where
  "load_targets page loadedLeaseStart [] startTid s = (Pending, s)"
| "load_targets page loadedLeaseStart ((env, read) # reads) startTid s =
     (case read of
        Some e \<Rightarrow> fail e s
      | None \<Rightarrow>
          (case loadTargetsFrom page startTid (fst s) of
             Inl e \<Rightarrow> fail e s
           | Inr res \<Rightarrow>
               if \<not> still_loading env loadedLeaseStart s then ret () s
               else if res = [] then change_routing (mark_loaded (env_steadyNow env)) s
               else sbind (change_routing (apply_page (env_steadyNow env) res))
                      (\<lambda>_. load_targets page loadedLeaseStart reads (ti_targetId (last res) + 1)) s))"

definition load_target_info :: "nat \<Rightarrow> (op_env \<times> status option) list \<Rightarrow> SteadyTime \<Rightarrow> unit operation" where
  "load_target_info page reads loadedLeaseStart s =
     (let leaseStartTs = md_leaseStartTs (ms_data (snd s))
      in if loadedLeaseStart \<ge> leaseStartTs then ret () s
         else load_targets page leaseStartTs reads 0 s)"

definition LoadTargetInfo ::
  "op_env \<Rightarrow> nat \<Rightarrow> (op_env \<times> status option) list \<Rightarrow> SteadyTime \<Rightarrow> unit operation" where
  "LoadTargetInfo env page reads loadedLeaseStart = doAsPrimary env (load_target_info page reads loadedLeaseStart)"

definition loader_next :: "op_env \<Rightarrow> kv \<times> MgmtdState \<Rightarrow> SteadyTime \<Rightarrow> SteadyTime" where
  "loader_next env s loadedLeaseStart =
     (if fst (ensureSelfIsPrimary env s) = Ret () then max loadedLeaseStart (md_leaseStartTs (ms_data (snd s)))
      else loadedLeaseStart)"

section \<open>The chains updater\<close>

text \<open>A change the updater computes: the next version of a known chain, over the same targets.\<close>

definition chain_update_of :: "RoutingInfo \<Rightarrow> ChainInfo \<Rightarrow> bool" where
  "chain_update_of ri c' \<longleftrightarrow> chain_change_ok ri c' \<and>
     (\<exists>c. map_of (ri_chains ri) (ci_chainId c') = Some c \<and> chain_step c c')"

lemma changed_chains_ok:
  assumes "ri_wf ri" and "\<forall>cid \<in> set cids. map_of (ri_chains ri) cid \<noteq> None"
    and "\<forall>c \<in> set acc. chain_update_of ri c"
  shows "\<exists>cs. ofold (\<lambda>cid. appendChangedChains ri cid adjust) cids acc = Some cs \<and> (\<forall>c \<in> set cs. chain_update_of ri c)"
  using assms(2,3)
proof (induction cids arbitrary: acc)
  case (Cons cid cids)
  then obtain c where c: "map_of (ri_chains ri) cid = Some c" by auto
  obtain ts' where ts': "chain_change_ok ri (new_chain c ts')" "ci_chainId c = cid"
    "appendChangedChains ri cid adjust acc = Some acc \<or>
     appendChangedChains ri cid adjust acc = Some (acc @ [new_chain c ts'])"
    using appendChangedChains_cases [OF assms(1) c, of adjust acc] by auto
  have "chain_update_of ri (new_chain c ts')"
    using ts'(1,2) c by (simp add: chain_update_of_def new_chain_def chain_step_def nextVersion_def)
  then have "\<forall>d \<in> set (acc @ [new_chain c ts']). chain_update_of ri d"
    using Cons.prems(2) by auto
  with ts'(3) Cons.IH [of acc] Cons.IH [of "acc @ [new_chain c ts']"] Cons.prems show ?case
    by auto
qed simp

lemma candidate_chains_known:
  assumes "ri_wf ri" and "cid \<in> set (candidate_chains ts flag adjust ri)"
  shows "map_of (ri_chains ri) cid \<noteq> None"
proof -
  obtain tid tw where tw: "(tid, tw) \<in> set (ri_targets ri)" "cid = ti_chainId (tw_base tw)"
    using assms(2) by (auto simp: candidate_chains_def)
  then have "map_of (ri_targets ri) tid = Some tw"
    using assms(1) by (simp add: ri_wf_def ri_maps_wf_def)
  with assms(1) coherent_targetD(2) tw(2) show ?thesis
    unfolding ri_wf_def by fastforce
qed

lemma implements_fold_storeChainInfo:
  "implements (\<lambda>kv. Inr (fold storeChainInfo cs kv)) (\<lambda>a. a\<lparr>st_chains := put_chains cs (st_chains a)\<rparr>)"
  using fold_storeChainInfo by (simp add: implements_def)

lemma update_chains_post:
  assumes inv: "mgmtd_inv s"
  shows "op_post env s (update_chains env ts flag s)"
proof -
  let ?ri = "routing s" and ?adjust = "mc_try_adjust_target_order_as_preferred (ms_config (snd s))"
    and ?now = "env_steadyNow env"
  have wf: "ri_wf ?ri" using mgmtd_invD(2) [OF inv] .
  obtain cs where cs: "changed_chains ?adjust (candidate_chains ts flag ?adjust ?ri) ?ri = Some cs"
      "\<forall>c \<in> set cs. chain_update_of ?ri c"
    using changed_chains_ok [OF wf, of _ "[]"] candidate_chains_known [OF wf] unfolding changed_chains_def by fastforce
  have "op_post env s (sbind (updateStoredRoutingInfo env (\<lambda>kv. Inr (fold storeChainInfo cs kv))) (\<lambda>_.
      sbind (updateMemoryRoutingInfo (applyChainTargetChanges cs ?now)) (\<lambda>_. ret ?now)) s)"
  proof (rule post_updateStoredRoutingInfo [OF inv implements_fold_storeChainInfo])
    fix kv'
    assume kv': "kv_ok kv'" and abs: "abs_store kv' = with_version (ri_routingInfoVersion ?ri + 1)
      (\<lambda>a. a\<lparr>st_chains := put_chains cs (st_chains a)\<rparr>) (abs_store (fst s))"
    let ?ri1 = "bump_routing ?ri"
    have bumped: "ri_wf ?ri1" "\<forall>c \<in> set cs. chain_change_ok ?ri1 c"
      using wf cs(2) by (simp_all add: chain_update_of_def chain_change_ok_def)
    obtain C T where CT: "applyChainTargetChanges cs ?now ?ri1 = Some (?ri1\<lparr>ri_chains := C, ri_targets := T\<rparr>)"
        "ri_wf (?ri1\<lparr>ri_chains := C, ri_targets := T\<rparr>)" "map_of C = put_chains cs (map_of (ri_chains ?ri1))"
      using applyChainTargetChanges_correct [OF bumped] by blast
    have "op_post env s (Ret ?now, kv', set_routing (?ri1\<lparr>ri_chains := C, ri_targets := T\<rparr>) (snd s))"
    proof (rule post_chains_written [OF inv kv' _ CT(2), where T = "st_targets (abs_store (fst s))"])
      show "\<exists>k'. map_of (ri_chains (?ri1\<lparr>ri_chains := C, ri_targets := T\<rparr>)) d = Some k' \<and> chain_step k k'"
        if "map_of (ri_chains ?ri) d = Some k" for d k
      proof (cases "d \<in> ci_chainId ` set cs")
        case True
        with put_by_in [OF True, of "map_of (ri_chains ?ri)"] cs(2) that CT(3) show ?thesis
          by (fastforce simp: chain_update_of_def)
      next
        case False
        with that CT(3) show ?thesis by (simp add: put_by_other)
      qed
      have "locations_ok (st_targets (abs_store (fst s))) (put_chains cs (map_of (ri_chains ?ri)))"
        using cs(2) by (intro locations_ok_put_chains [OF mgmtd_invD(12) [OF inv]]) (auto simp: chain_update_of_def chain_change_ok_def)
      then show "locations_ok (st_targets (abs_store (fst s))) (map_of (ri_chains (?ri1\<lparr>ri_chains := C, ri_targets := T\<rparr>)))"
        using CT(3) by simp
    qed (use mgmtd_invD(7) [OF inv] CT(3) in \<open>simp_all add: abs\<close>)
    then show "op_post env s (sbind (updateMemoryRoutingInfo (applyChainTargetChanges cs ?now)) (\<lambda>_. ret ?now) (kv', snd s))"
      unfolding updateMemoryRoutingInfo_def using CT(1) by (intro post_change_routing) (simp_all add: ret_def)
  qed (simp add: put_by_idem)
  with inv cs(1) show ?thesis
    by (simp add: update_chains_def Let_def)
qed

interpretation update_chains: writer "\<lambda>env (ts, flag). UpdateChains env ts flag" "\<lambda>_ _. True"
  by unfold_locales (auto simp: UpdateChains_def split_beta intro!: post_rules update_chains_post)

section \<open>Changes that keep the targets in place\<close>

lemma touches_simps [simp]:
  "touches (set_offline now)" "touches (set_persisted ti)" "touches (set_loaded ti)"
  "touches set_location_loaded"
  by (simp_all add: touches_def same_place_def set_offline_def set_persisted_def set_loaded_def
      set_location_loaded_def Let_def)

text \<open>The end of an operation that changed targets in place, and nothing else of what is stored but their
  locations.\<close>

lemma post_targets_touched:
  assumes inv: "mgmtd_inv s" and "kv_ok kv'" and abs: "abs_store kv' = (abs_store (fst s))\<lparr>st_targets := L\<rparr>"
    and wf: "ri_wf ri'" and same: "ri_chains ri' = ri_chains (routing s)" "ri_chainTables ri' = ri_chainTables (routing s)"
      "ri_routingInfoVersion ri' = ri_routingInfoVersion (routing s)"
    and nodes: "nodes_ok ri'" "node_table ri' = node_table (routing s)"
    and locations: "locations_ok L (map_of (ri_chains (routing s)))"
  shows "op_post env s (Ret x, kv', set_routing ri' (snd s))"
proof -
  have tables: "chainTable_table ri' = chainTable_table (routing s)" "tables_ok ri' = tables_ok (routing s)"
    by (auto simp: chainTable_table_def tables_ok_def same)
  show ?thesis
    using mgmtd_invD [OF inv] assms(2) wf nodes locations
    by (intro op_post_routing [OF inv]) (simp_all add: abs tables same same_frame_def routing_step_same)
qed

lemma post_touched:
  assumes inv: "mgmtd_inv s" and "kv_ok kv'" and "abs_store kv' = (abs_store (fst s))\<lparr>st_targets := L\<rparr>"
    and "ri_wf ((routing s)\<lparr>ri_newBornChains := B, ri_targets := T\<rparr>)"
    and "locations_ok L (map_of (ri_chains (routing s)))"
  shows "op_post env s (Ret x, kv', set_routing ((routing s)\<lparr>ri_newBornChains := B, ri_targets := T\<rparr>) (snd s))"
  using mgmtd_invD(3) [OF inv] assms(5)
  by (intro post_targets_touched [OF assms(1-4)]) (simp_all add: nodes_ok_def node_table_def fun_eq_iff)

section \<open>The heartbeat checker\<close>

lemma ri_wf_nodes: "ri_wf ri \<Longrightarrow> distinct (map fst N) \<Longrightarrow> ri_wf (ri\<lparr>ri_nodeMap := N\<rparr>)"
  by (simp add: ri_wf_def ri_maps_wf_def)

text \<open>A change of nodes that the store does not see.\<close>

definition node_refresh :: "RoutingInfo \<Rightarrow> NodeInfo \<Rightarrow> bool" where
  "node_refresh ri info \<longleftrightarrow>
     (\<exists>nw. map_of (ri_nodeMap ri) (app_nodeId (ni_app info)) = Some nw \<and> toPersistentNode info = toPersistentNode (nw_base nw))"

lemma set_node_base_refresh:
  assumes "node_refresh ri info"
  shows "node_table (set_node_base now info ri) = node_table ri" "nodes_ok ri \<Longrightarrow> nodes_ok (set_node_base now info ri)"
  using assms by (auto simp: node_refresh_def set_node_base_def put_node_base_def Let_def node_table_def nodes_ok_def update_conv' fun_eq_iff)

lemma set_node_base_form:
  "\<exists>N. set_node_base now info ri = ri\<lparr>ri_nodeMap := N\<rparr> \<and> (distinct (map fst (ri_nodeMap ri)) \<longrightarrow> distinct (map fst N))"
  by (auto simp: set_node_base_def put_node_base_def Let_def distinct_update)

lemma refresh_nodes:
  assumes "ri_wf ri" and "nodes_ok ri" and "\<forall>info \<in> set infos. \<exists>p. node_table ri (app_nodeId (ni_app info)) = Some p \<and> toPersistentNode info = p"
  shows "\<exists>N. fold (set_node_base now) infos ri = ri\<lparr>ri_nodeMap := N\<rparr> \<and> ri_wf (ri\<lparr>ri_nodeMap := N\<rparr>) \<and>
    nodes_ok (ri\<lparr>ri_nodeMap := N\<rparr>) \<and> node_table (ri\<lparr>ri_nodeMap := N\<rparr>) = node_table ri"
  using assms
proof (induction infos arbitrary: ri)
  case Nil
  then show ?case by (intro exI [of _ "ri_nodeMap ri"]) simp
next
  case (Cons info infos)
  obtain N where N: "set_node_base now info ri = ri\<lparr>ri_nodeMap := N\<rparr>" "distinct (map fst N)"
    using set_node_base_form [of now info ri] Cons.prems(1) by (auto simp: ri_wf_def ri_maps_wf_def)
  have "node_refresh ri info"
    using Cons.prems(3) by (auto simp: node_refresh_def node_table_def)
  note r = set_node_base_refresh [OF this, of now, unfolded N(1)]
  from Cons.IH [OF ri_wf_nodes [OF Cons.prems(1) N(2)] r(2) [OF Cons.prems(2)]] Cons.prems(3)
  obtain N' where "fold (set_node_base now) infos (ri\<lparr>ri_nodeMap := N\<rparr>) = ri\<lparr>ri_nodeMap := N'\<rparr>"
    "ri_wf (ri\<lparr>ri_nodeMap := N'\<rparr>)" "nodes_ok (ri\<lparr>ri_nodeMap := N'\<rparr>)" "node_table (ri\<lparr>ri_nodeMap := N'\<rparr>) = node_table ri"
    by (auto simp: r(1))
  with N(1) show ?case by (intro exI [of _ N']) simp
qed

lemma timeouted_nodes_stored:
  assumes "ri_wf ri" and "nodes_ok ri" and "info \<in> set (timeouted_nodes interval now ri)"
  shows "\<exists>p. node_table ri (app_nodeId (ni_app info)) = Some p \<and> toPersistentNode info = p"
proof -
  obtain nid nw where nw: "(nid, nw) \<in> set (ri_nodeMap ri)" "info = onNodeFailed (nw_base nw)"
    using assms(3) by (auto simp: timeouted_nodes_def)
  then have "map_of (ri_nodeMap ri) nid = Some nw"
    using assms(1) by (simp add: ri_wf_def ri_maps_wf_def)
  with assms(2) nw(2) show ?thesis
    by (auto simp: nodes_ok_def node_table_def onNodeFailed_def toPersistentNode_def)
qed

lemma targets_known:
  assumes "ri_wf ri" and "tid \<in> fst ` set (ri_targets ri)"
  shows "map_of (ri_targets ri) tid \<noteq> None"
  using assms(2) by (simp add: map_of_eq_None_iff)

lemma node_maps_cong:
  "ri_nodeMap ri' = ri_nodeMap ri \<Longrightarrow> nodes_ok ri' = nodes_ok ri \<and> node_table ri' = node_table ri"
  by (simp add: nodes_ok_def node_table_def fun_eq_iff)

lemma apply_timeouts_ok:
  assumes "ri_wf ri" and "nodes_ok ri" and "set tids \<subseteq> fst ` set (ri_targets ri)"
    and "\<forall>info \<in> set infos. \<exists>p. node_table ri (app_nodeId (ni_app info)) = Some p \<and> toPersistentNode info = p"
  shows "\<exists>T N. apply_timeouts now tids infos ri = Some (ri\<lparr>ri_targets := T, ri_nodeMap := N, ri_routingInfoChanged := True\<rparr>) \<and>
    ri_wf (ri\<lparr>ri_targets := T, ri_nodeMap := N, ri_routingInfoChanged := True\<rparr>) \<and>
    nodes_ok (ri\<lparr>ri_targets := T, ri_nodeMap := N, ri_routingInfoChanged := True\<rparr>) \<and>
    node_table (ri\<lparr>ri_targets := T, ri_nodeMap := N, ri_routingInfoChanged := True\<rparr>) = node_table ri"
proof -
  have "\<forall>tid \<in> set tids. map_of (ri_targets ri) tid \<noteq> None"
    using targets_known [OF assms(1)] assms(3) by blast
  then obtain T where T: "ofold (\<lambda>tid. updateTarget tid now (set_offline now)) tids ri = Some (ri\<lparr>ri_targets := T\<rparr>)"
    "ri_wf (ri\<lparr>ri_targets := T\<rparr>)"
    using touch_targets [OF assms(1), where g = "\<lambda>tid. tid" and f = "\<lambda>_. set_offline now" and xs = tids and now = now]
    by auto
  have same: "nodes_ok (ri\<lparr>ri_targets := T\<rparr>)" "node_table (ri\<lparr>ri_targets := T\<rparr>) = node_table ri"
    using node_maps_cong [of "ri\<lparr>ri_targets := T\<rparr>" ri] assms(2) by simp_all
  obtain N where N: "fold (set_node_base now) infos (ri\<lparr>ri_targets := T\<rparr>) = ri\<lparr>ri_targets := T, ri_nodeMap := N\<rparr>"
    "ri_wf (ri\<lparr>ri_targets := T, ri_nodeMap := N\<rparr>)" "nodes_ok (ri\<lparr>ri_targets := T, ri_nodeMap := N\<rparr>)"
    "node_table (ri\<lparr>ri_targets := T, ri_nodeMap := N\<rparr>) = node_table ri"
    using refresh_nodes [OF T(2) same(1), of infos now] assms(4) by (auto simp: same(2))
  moreover have "nodes_ok (ri\<lparr>ri_targets := T, ri_nodeMap := N, ri_routingInfoChanged := True\<rparr>) = nodes_ok (ri\<lparr>ri_targets := T, ri_nodeMap := N\<rparr>)"
    "node_table (ri\<lparr>ri_targets := T, ri_nodeMap := N, ri_routingInfoChanged := True\<rparr>) = node_table (ri\<lparr>ri_targets := T, ri_nodeMap := N\<rparr>)"
    by (simp_all add: node_maps_cong)
  ultimately show ?thesis
    using T(1) by (intro exI [of _ T] exI [of _ N]) (simp add: apply_timeouts_def)
qed

lemma check_heartbeat_post:
  assumes inv: "mgmtd_inv s"
  shows "op_post env s (check_heartbeat env later s)"
proof -
  let ?ri = "routing s" and ?interval = "mc_heartbeat_fail_interval (ms_config (snd s))"
  let ?infos = "timeouted_nodes ?interval (env_steadyNow env) ?ri" and ?tids = "timeouted_targets ?interval (env_steadyNow env) ?ri"
  note wf = mgmtd_invD(2,3) [OF inv]
  have "set ?tids \<subseteq> fst ` set (ri_targets ?ri)"
    by (auto simp: timeouted_targets_def)
  then obtain T N where r: "apply_timeouts later ?tids ?infos ?ri =
      Some (?ri\<lparr>ri_targets := T, ri_nodeMap := N, ri_routingInfoChanged := True\<rparr>)"
    "ri_wf (?ri\<lparr>ri_targets := T, ri_nodeMap := N, ri_routingInfoChanged := True\<rparr>)"
    "nodes_ok (?ri\<lparr>ri_targets := T, ri_nodeMap := N, ri_routingInfoChanged := True\<rparr>)"
    "node_table (?ri\<lparr>ri_targets := T, ri_nodeMap := N, ri_routingInfoChanged := True\<rparr>) = node_table ?ri"
    using apply_timeouts_ok [OF wf] timeouted_nodes_stored [OF wf] by blast
  have "op_post env s (Ret (), fst s, set_routing (?ri\<lparr>ri_targets := T, ri_nodeMap := N, ri_routingInfoChanged := True\<rparr>) (snd s))"
    using mgmtd_invD(1,12) [OF inv] r(2-4)
    by (intro post_targets_touched [OF inv, where L = "st_targets (abs_store (fst s))"]) simp_all
  with r(1) inv show ?thesis
    by (simp add: check_heartbeat_def Let_def change_routing_def)
qed

interpretation check_heartbeat: writer CheckHeartbeat "\<lambda>_ _. True"
  by unfold_locales (auto simp: CheckHeartbeat_def intro!: post_rules check_heartbeat_post)

section \<open>New chains and the routing info version\<close>

lemma ri_wf_newborn: "ri_wf ri \<Longrightarrow> ri_wf (ri\<lparr>ri_newBornChains := AList.delete cid (ri_newBornChains ri)\<rparr>)"
  by (simp add: ri_wf_def ri_maps_wf_def distinct_delete delete_conv')

lemma ri_wf_known_targets:
  assumes "ri_wf ri" and "map_of (ri_chains ri) cid = Some c" and "cti \<in> set (ci_targets c)"
  shows "map_of (ri_targets ri) (cti_targetId cti) \<noteq> None"
  using coherent_chainD(3) [of "map_of (ri_chains ri)" "map_of (ri_targets ri)" cid c cti] assms by (auto simp: ri_wf_def)

lemma end_bootstrap_ok:
  assumes "ri_wf ri" and "map_of (ri_chains ri) cid = Some c"
  shows "\<exists>T. end_bootstrap now cid ri = Some (ri\<lparr>ri_newBornChains := AList.delete cid (ri_newBornChains ri), ri_targets := T\<rparr>) \<and>
    ri_wf (ri\<lparr>ri_newBornChains := AList.delete cid (ri_newBornChains ri), ri_targets := T\<rparr>)"
proof -
  let ?ri = "ri\<lparr>ri_newBornChains := AList.delete cid (ri_newBornChains ri)\<rparr>"
  have wf: "ri_wf ?ri"
    by (rule ri_wf_newborn [OF assms(1)])
  have "\<forall>cti \<in> set (ci_targets c). map_of (ri_targets ?ri) (cti_targetId cti) \<noteq> None"
    using ri_wf_known_targets [OF assms] by simp
  then obtain T where "ofold (\<lambda>cti. updateTarget (cti_targetId cti) now (touch_target now)) (ci_targets c) ?ri = Some (?ri\<lparr>ri_targets := T\<rparr>)"
    "ri_wf (?ri\<lparr>ri_targets := T\<rparr>)"
    using touch_targets [OF wf, where g = cti_targetId and f = "\<lambda>_. touch_target now" and xs = "ci_targets c" and now = now]
    by auto
  then show ?thesis
    using assms(2) by (intro exI [of _ T]) (simp add: end_bootstrap_def getChain_def Let_def)
qed

lemma end_bootstraps_ok:
  assumes "ri_wf ri" and "\<forall>cid \<in> set cids. map_of (ri_chains ri) cid \<noteq> None"
  shows "\<exists>T B. ofold (end_bootstrap now) cids ri = Some (ri\<lparr>ri_newBornChains := B, ri_targets := T\<rparr>) \<and>
    ri_wf (ri\<lparr>ri_newBornChains := B, ri_targets := T\<rparr>)"
  using assms
proof (induction cids arbitrary: ri)
  case Nil
  then show ?case by (intro exI [of _ "ri_targets ri"] exI [of _ "ri_newBornChains ri"]) simp
next
  case (Cons cid cids)
  then obtain c where "map_of (ri_chains ri) cid = Some c" by auto
  from end_bootstrap_ok [OF Cons.prems(1) this, of now] obtain T where
    T: "end_bootstrap now cid ri = Some (ri\<lparr>ri_newBornChains := AList.delete cid (ri_newBornChains ri), ri_targets := T\<rparr>)"
      "ri_wf (ri\<lparr>ri_newBornChains := AList.delete cid (ri_newBornChains ri), ri_targets := T\<rparr>)" by blast
  from Cons.IH [OF T(2)] Cons.prems(2) obtain T' B where
    "ofold (end_bootstrap now) cids (ri\<lparr>ri_newBornChains := AList.delete cid (ri_newBornChains ri), ri_targets := T\<rparr>) =
      Some (ri\<lparr>ri_newBornChains := B, ri_targets := T'\<rparr>)" "ri_wf (ri\<lparr>ri_newBornChains := B, ri_targets := T'\<rparr>)"
    by auto
  with T(1) show ?case by auto
qed

lemma newborn_candidates_known:
  assumes "ri_wf ri" and "cid \<in> set (newborn_candidates interval now ri)"
  shows "map_of (ri_chains ri) cid \<noteq> None"
proof -
  have "map_of (ri_newBornChains ri) cid \<noteq> None"
    using assms(2) by (auto simp: newborn_candidates_def map_of_eq_None_iff simp del: not_None_eq intro: rev_image_eqI)
  with assms(1) show ?thesis by (auto simp: ri_wf_def newborn_ok_def)
qed

lemma check_newborn_chains_post:
  assumes inv: "mgmtd_inv s"
  shows "op_post env s (check_newborn_chains env later s)"
proof -
  let ?ri = "routing s"
  let ?cids = "newborn_candidates (mc_new_chain_bootstrap_interval (ms_config (snd s))) (env_steadyNow env) ?ri"
  have "\<forall>cid \<in> set ?cids. map_of (ri_chains ?ri) cid \<noteq> None"
    using mgmtd_invD(2) [OF inv] newborn_candidates_known by blast
  from end_bootstraps_ok [OF mgmtd_invD(2) [OF inv] this] obtain T B where
    r: "ofold (end_bootstrap later) ?cids ?ri = Some (?ri\<lparr>ri_newBornChains := B, ri_targets := T\<rparr>)"
      "ri_wf (?ri\<lparr>ri_newBornChains := B, ri_targets := T\<rparr>)" by blast
  have "op_post env s (Ret (), fst s, set_routing (?ri\<lparr>ri_newBornChains := B, ri_targets := T\<rparr>) (snd s))"
    using mgmtd_invD(1,12) [OF inv] r(2) by (intro post_touched [OF inv, where L = "st_targets (abs_store (fst s))"]) simp_all
  with r(1) inv show ?thesis
    by (simp add: check_newborn_chains_def Let_def apply_newborn_def change_routing_def)
qed

interpretation check_newborn_chains: writer CheckNewBornChains "\<lambda>_ _. True"
  by unfold_locales (auto simp: CheckNewBornChains_def intro!: post_rules check_newborn_chains_post)

lemma bump_version_post:
  assumes inv: "mgmtd_inv s"
  shows "op_post env s (bump_version env s)"
proof -
  have "op_post env s (sbind (updateStoredRoutingInfo env Inr) (\<lambda>_. updateMemoryRoutingInfo Some) s)"
  proof (rule post_updateStoredRoutingInfo [OF inv, where G = "\<lambda>a. a"])
    fix kv'
    assume "kv_ok kv'" "abs_store kv' = with_version (ri_routingInfoVersion (routing s) + 1) (\<lambda>a. a) (abs_store (fst s))"
    then have "op_post env s (Ret (), kv', set_routing (bump_routing (routing s)) (snd s))"
      using mgmtd_invD [OF inv] by (intro post_chains_written [OF inv, where T = "st_targets (abs_store (fst s))"]) simp_all
    then show "op_post env s (updateMemoryRoutingInfo Some (kv', snd s))"
      by (simp add: updateMemoryRoutingInfo_def change_routing_def)
  qed (simp_all add: implements_def)
  with inv show ?thesis by (simp add: bump_version_def)
qed

interpretation bump_version: writer "\<lambda>env (_ :: unit). BumpRoutingInfoVersion env" "\<lambda>_ _. True"
  by unfold_locales (auto simp: BumpRoutingInfoVersion_def intro!: post_rules bump_version_post)

section \<open>Persisted locations\<close>

abbreviation put_targets :: "TargetInfo list \<Rightarrow> (TargetId \<rightharpoonup> TargetInfo) \<Rightarrow> TargetId \<rightharpoonup> TargetInfo" where
  "put_targets \<equiv> put_by ti_targetId"

lemma fold_storeTargetInfo:
  "kv_ok kv \<Longrightarrow> kv_ok (fold storeTargetInfo ts kv) \<and>
   abs_store (fold storeTargetInfo ts kv) = (abs_store kv)\<lparr>st_targets := put_targets ts (st_targets (abs_store kv))\<rparr>"
  by (induction ts arbitrary: kv) auto

lemma implements_fold_storeTargetInfo:
  "implements (\<lambda>kv. Inr (fold storeTargetInfo ts kv)) (\<lambda>a. a\<lparr>st_targets := put_targets ts (st_targets a)\<rparr>)"
  using fold_storeTargetInfo by (simp add: implements_def)

lemma persist_candidates_prefix: "\<exists>n. persist_candidates batch ts acc = acc @ take n (map (\<lambda>x. tw_base (snd x)) (filter (\<lambda>x. needs_persist (snd x)) ts))"
proof (induction batch ts acc rule: persist_candidates.induct)
  case (2 batch tid ti ts acc)
  show ?case
  proof (cases "needs_persist ti \<and> \<not> batch \<le> length (acc @ [tw_base ti])")
    case True
    then obtain n where "persist_candidates batch ts (acc @ [tw_base ti]) =
        (acc @ [tw_base ti]) @ take n (map (\<lambda>x. tw_base (snd x)) (filter (\<lambda>x. needs_persist (snd x)) ts))"
      using 2(1) by auto
    with True show ?thesis by (intro exI [of _ "Suc n"]) simp
  next
    case False
    show ?thesis
    proof (cases "needs_persist ti")
      case True
      with False show ?thesis by (intro exI [of _ 1]) simp
    qed (use 2(2) in auto)
  qed
qed simp

lemma persist_candidates_known:
  assumes "ri_wf ri" and "ti \<in> set (persist_candidates batch (ri_targets ri) [])"
  shows "\<exists>tw. map_of (ri_targets ri) (ti_targetId ti) = Some tw \<and> tw_base tw = ti"
proof -
  obtain n where "persist_candidates batch (ri_targets ri) [] = take n (map (\<lambda>x. tw_base (snd x)) (filter (\<lambda>x. needs_persist (snd x)) (ri_targets ri)))"
    using persist_candidates_prefix [of batch "ri_targets ri" "[]"] by auto
  with assms(2) have "ti \<in> set (map (\<lambda>x. tw_base (snd x)) (filter (\<lambda>x. needs_persist (snd x)) (ri_targets ri)))"
    by (metis in_set_takeD)
  then obtain tid tw where tw: "(tid, tw) \<in> set (ri_targets ri)" "ti = tw_base tw"
    by auto
  then have "map_of (ri_targets ri) tid = Some tw"
    using assms(1) by (simp add: ri_wf_def ri_maps_wf_def)
  moreover from this coherent_targetD(1) assms(1) have "ti_targetId (tw_base tw) = tid"
    unfolding ri_wf_def by blast
  ultimately show ?thesis using tw(2) by blast
qed

lemma locations_ok_put_targets:
  assumes "locations_ok L C" and "\<And>ti. ti \<in> set ts \<Longrightarrow> \<exists>cid c. C cid = Some c \<and> ti_targetId ti \<in> set (chain_ids c)"
  shows "locations_ok (put_targets ts L) C"
  unfolding locations_ok_def
proof (intro allI impI)
  fix tid
  assume "put_targets ts L tid \<noteq> None"
  then show "\<exists>cid c. C cid = Some c \<and> tid \<in> set (chain_ids c)"
    using assms put_by_other [of tid ti_targetId ts L] unfolding locations_ok_def
    by (cases "tid \<in> ti_targetId ` set ts") auto
qed

lemma persist_target_info_post:
  assumes inv: "mgmtd_inv s"
  shows "op_post env s (persist_target_info env later s)"
proof -
  let ?ri = "routing s"
  define cands where "cands = persist_candidates (mc_target_info_persist_batch (ms_config (snd s))) (ri_targets ?ri) []"
  have wf: "ri_wf ?ri" using mgmtd_invD(2) [OF inv] .
  have known: "\<exists>tw. map_of (ri_targets ?ri) (ti_targetId ti) = Some tw \<and> tw_base tw = ti" if "ti \<in> set cands" for ti
    using persist_candidates_known [OF wf] that by (simp add: cands_def)
  have "op_post env s (sbind (persist_commit env cands) (\<lambda>_. change_routing (persist_apply later cands)) s)"
    unfolding persist_commit_def
  proof (rule post_store_txn [OF inv implements_fold_storeTargetInfo])
    fix kv'
    assume kv': "kv_ok kv'" and abs: "abs_store kv' = (abs_store (fst s))\<lparr>st_targets := put_targets cands (st_targets (abs_store (fst s)))\<rparr>"
    have "\<forall>ti \<in> set cands. map_of (ri_targets ?ri) (ti_targetId ti) \<noteq> None"
      using known by fastforce
    from touch_targets [OF wf this, of set_persisted later] obtain T where
      T: "persist_apply later cands ?ri = Some (?ri\<lparr>ri_targets := T\<rparr>)" "ri_wf (?ri\<lparr>ri_targets := T\<rparr>)"
      by (auto simp: persist_apply_def)
    have "locations_ok (put_targets cands (st_targets (abs_store (fst s)))) (map_of (ri_chains ?ri))"
    proof (rule locations_ok_put_targets [OF mgmtd_invD(12) [OF inv]])
      show "\<exists>cid c. map_of (ri_chains ?ri) cid = Some c \<and> ti_targetId ti \<in> set (chain_ids c)" if "ti \<in> set cands" for ti
        using known [OF that] coherent_targetD(2) wf unfolding ri_wf_def by blast
    qed
    then have "op_post env s (Ret (), kv', set_routing (?ri\<lparr>ri_newBornChains := ri_newBornChains ?ri, ri_targets := T\<rparr>) (snd s))"
      using T(2) by (intro post_touched [OF inv kv' abs]) simp_all
    with T(1) show "op_post env s (change_routing (persist_apply later cands) (kv', snd s))"
      by (simp add: change_routing_def)
  qed (simp add: put_by_idem)
  with inv show ?thesis
    by (simp add: persist_target_info_def cands_def [symmetric])
qed

interpretation persist_target_info: writer PersistTargetInfo "\<lambda>_ _. True"
  by unfold_locales (auto simp: PersistTargetInfo_def intro!: post_rules persist_target_info_post)

end
