(* ===== verification/Mgmtd_Locations.thy ===== *)
theory Mgmtd_Locations
  imports Mgmtd_Background
begin

text \<open>
  The locations of targets that the primary keeps in the store (\<^verbatim>\<open>MgmtdTargetInfoLoader.cc\<close> and
  \<^verbatim>\<open>MgmtdTargetInfoPersister.cc\<close> in \<^verbatim>\<open>src/src/mgmtd/background\<close>): a new primary loads them page by page, and
  the load ends with the location of every target. The persister and the removal of a target, run
  between its phases, lead to an abort of the process.
\<close>

section \<open>Pages of stored targets\<close>

lemma le_prefix_between: "p @ a \<le> k \<Longrightarrow> k \<le> p @ b \<Longrightarrow> prefix p (k :: string)"
proof (induction p arbitrary: k)
  case (Cons c p)
  then show ?case by (cases k) auto
qed simp

lemma getTargetInfoKey_le: "getTargetInfoKey a \<le> getTargetInfoKey b \<longleftrightarrow> a \<le> b"
  unfolding getTargetInfoKey_def le_append_same using put_big64_less [of b a] by (simp add: not_less [symmetric])

definition targets_from :: "TargetId \<Rightarrow> kv \<Rightarrow> TargetInfo list" where
  "targets_from start kv = map (\<lambda>e. the (as_target (snd e)))
     (filter (\<lambda>e. getTargetInfoKey start \<le> fst e \<and> fst e \<le> getTargetInfoKey (- 1)) kv)"

lemma target_entry:
  assumes "kv_ok kv" and "e \<in> set kv" and "getTargetInfoKey start \<le> fst e" and "fst e \<le> getTargetInfoKey (- 1)"
  shows "\<exists>t. e = (getTargetInfoKey (ti_targetId t), STarget t) \<and> start \<le> ti_targetId t \<and>
    st_targets (abs_store kv) (ti_targetId t) = Some t"
proof -
  have "prefix (toStr KP_TargetInfo) (fst e)"
    using le_prefix_between assms(3,4) unfolding getTargetInfoKey_def put_prefix_value by blast
  from entry_table(4) [OF assms(1,2) this refl] obtain t where t: "e = (getTargetInfoKey (ti_targetId t), STarget t)"
    by blast
  have "st_targets (abs_store kv) (ti_targetId t) = Some t"
    using kv_ok_lookup [OF assms(1), of "TargetKey (ti_targetId t)" "STarget t" as_target] assms(2) t
    by (simp add: abs_store_def)
  with t assms(3) show ?thesis by (simp add: getTargetInfoKey_le)
qed

lemma targets_from_page:
  assumes "kv_ok kv"
  shows "loadTargetsFrom page start kv = Inr (take page (targets_from start kv))"
proof -
  let ?es = "filter (\<lambda>e. getTargetInfoKey start \<le> fst e \<and> fst e \<le> getTargetInfoKey (- 1)) kv"
  have "corrupt (as_target (snd e)) = Inr (the (as_target (snd e)))" if "e \<in> set (take page ?es)" for e
    using target_entry [OF assms, of e start] in_set_takeD [OF that] by (auto simp: corrupt_def)
  then show ?thesis
    unfolding loadTargetsFrom_def targets_from_def take_map by (intro unpack_list_all) blast
qed

lemma targets_from_set:
  assumes "kv_ok kv"
  shows "t \<in> set (targets_from start kv) \<longleftrightarrow> st_targets (abs_store kv) (ti_targetId t) = Some t \<and> start \<le> ti_targetId t"
proof
  assume "t \<in> set (targets_from start kv)"
  then show "st_targets (abs_store kv) (ti_targetId t) = Some t \<and> start \<le> ti_targetId t"
    using target_entry [OF assms, of _ start] by (fastforce simp: targets_from_def)
next
  assume t: "st_targets (abs_store kv) (ti_targetId t) = Some t \<and> start \<le> ti_targetId t"
  then obtain v where "(getTargetInfoKey (ti_targetId t), v) \<in> set kv" "as_target v = Some t"
    using lookup_SomeD [of as_target kv "TargetKey (ti_targetId t)" t] by (auto simp: abs_store_def)
  with t show "t \<in> set (targets_from start kv)"
    by (force simp: targets_from_def getTargetInfoKey_le)
qed

lemma stored_target_id: "kv_ok kv \<Longrightarrow> st_targets (abs_store kv) tid = Some t \<Longrightarrow> ti_targetId t = tid"
  using lookup_SomeD [of as_target kv "TargetKey tid" t] key_of_inject [of "TargetKey tid" "TargetKey (ti_targetId t)"]
  by (fastforce simp: abs_store_def kv_ok_def as_Some)

lemma targets_from_sorted:
  assumes "kv_ok kv"
  shows "sorted_wrt (<) (map ti_targetId (targets_from start kv))"
proof -
  let ?es = "filter (\<lambda>e. getTargetInfoKey start \<le> fst e \<and> fst e \<le> getTargetInfoKey (- 1)) kv"
  have "sorted_wrt (\<lambda>a b. fst a < fst b) ?es"
    using kv_ok_wf [OF assms] by (simp add: omap_wf_def sorted_wrt_map sorted_wrt_filter)
  then have "sorted_wrt (\<lambda>a b. ti_targetId (the (as_target (snd a))) < ti_targetId (the (as_target (snd b)))) ?es"
  proof (rule sorted_wrt_mono_rel [rotated])
    fix a b
    assume ab: "a \<in> set ?es" "b \<in> set ?es" "fst a < fst b"
    obtain s t where "a = (getTargetInfoKey (ti_targetId s), STarget s)" "b = (getTargetInfoKey (ti_targetId t), STarget t)"
      using target_entry [OF assms, of a start] target_entry [OF assms, of b start] ab(1,2) by auto
    with ab(3) show "ti_targetId (the (as_target (snd a))) < ti_targetId (the (as_target (snd b)))"
      by (simp add: getTargetInfoKey_le not_le [symmetric])
  qed
  then show ?thesis
    by (simp add: targets_from_def sorted_wrt_map)
qed

text \<open>The page after one that ends below the highest id is the rest.\<close>

lemma sorted_filter_eq:
  fixes f :: "'a \<Rightarrow> 'b::linorder"
  assumes "sorted_wrt (<) (map f xs)" and "sorted_wrt (<) (map f ys)" and "set xs = set ys"
  shows "xs = ys"
proof -
  have "set (map f xs) = set (map f ys)" using assms(3) by simp
  with assms(2,1) have "map f xs = map f ys" by (rule strict_sorted_equal)
  moreover have "inj_on f (set xs \<union> set ys)"
    using assms(1,3) strict_sorted_iff [of "map f xs"] by (simp add: distinct_map)
  ultimately show ?thesis by (simp add: inj_on_map_eq_map)
qed

lemma sorted_last_le: "sorted_wrt (<) (map f xs) \<Longrightarrow> x \<in> set xs \<Longrightarrow> f x \<le> (f (last xs) :: 'b::linorder)"
  by (induction xs) (auto intro: less_imp_le)

lemma next_page:
  assumes ok: "kv_ok kv" and page: "take page (targets_from start kv) \<noteq> []"
    and last: "ti_targetId (last (take page (targets_from start kv))) \<noteq> - 1"
  shows "targets_from (ti_targetId (last (take page (targets_from start kv))) + 1) kv = drop page (targets_from start kv)"
proof (rule sorted_filter_eq [of ti_targetId])
  let ?ts = "targets_from start kv"
  let ?l = "last (take page ?ts)"
  have "sorted_wrt (<) (map ti_targetId (take page ?ts) @ map ti_targetId (drop page ?ts))"
    unfolding map_append [symmetric] append_take_drop_id by (rule targets_from_sorted [OF ok])
  then have sorted: "sorted_wrt (<) (map ti_targetId (take page ?ts))" "sorted_wrt (<) (map ti_targetId (drop page ?ts))"
    and split: "\<forall>x \<in> set (map ti_targetId (take page ?ts)). \<forall>y \<in> set (map ti_targetId (drop page ?ts)). x < y"
    unfolding sorted_wrt_append by blast+
  show "sorted_wrt (<) (map ti_targetId (drop page ?ts))"
    by (rule sorted(2))
  have l: "?l \<in> set (take page ?ts)" using page by (rule last_in_set)
  have before: "ti_targetId t \<le> ti_targetId ?l" if "t \<in> set (take page ?ts)" for t
    using sorted(1) that by (rule sorted_last_le)
  have after: "ti_targetId ?l < ti_targetId t" if "t \<in> set (drop page ?ts)" for t
    using split l that by (simp only: list.set_map ball_simps)
  have next_le: "ti_targetId ?l + 1 \<le> x \<longleftrightarrow> ti_targetId ?l < x" for x
    unfolding inc_less_eq_iff using last by blast
  show "set (targets_from (ti_targetId ?l + 1) kv) = set (drop page ?ts)"
  proof (rule set_eqI)
    fix t
    have "t \<in> set ?ts \<longleftrightarrow> t \<in> set (take page ?ts) \<or> t \<in> set (drop page ?ts)"
      by (metis Un_iff append_take_drop_id set_append)
    moreover have "start \<le> ti_targetId ?l"
      using in_set_takeD [OF l] unfolding targets_from_set [OF ok] by blast
    moreover have "t \<in> set (targets_from (ti_targetId ?l + 1) kv) \<longleftrightarrow>
        st_targets (abs_store kv) (ti_targetId t) = Some t \<and> ti_targetId ?l < ti_targetId t"
      unfolding targets_from_set [OF ok] next_le ..
    moreover have "t \<in> set ?ts \<longleftrightarrow> st_targets (abs_store kv) (ti_targetId t) = Some t \<and> start \<le> ti_targetId t"
      by (rule targets_from_set [OF ok])
    ultimately show "t \<in> set (targets_from (ti_targetId ?l + 1) kv) \<longleftrightarrow> t \<in> set (drop page ?ts)"
      using before [of t] after [of t] by auto
  qed
qed (rule targets_from_sorted [OF ok])

section \<open>The load\<close>

text \<open>A loop over targets, each at most once, applies its update to each of them.\<close>

lemma touch_lookup:
  assumes "distinct (map g xs)" and "\<forall>x \<in> set xs. map_of (ri_targets ri) (g x) \<noteq> None"
    and "ofold (\<lambda>x. updateTarget (g x) now (f x)) xs ri = Some ri'"
  shows "map_of (ri_targets ri') tid = (case map_of (map (\<lambda>x. (g x, x)) xs) tid of
    None \<Rightarrow> map_of (ri_targets ri) tid | Some x \<Rightarrow> Option.bind (map_of (ri_targets ri) tid) (f x))"
  using assms
proof (induction xs arbitrary: ri)
  case (Cons x xs)
  then obtain tw where tw: "map_of (ri_targets ri) (g x) = Some tw" by auto
  from Cons.prems(3) tw obtain tw' where tw': "f x tw = Some tw'"
    "ofold (\<lambda>x. updateTarget (g x) now (f x)) xs (ri\<lparr>ri_targets := AList.update (g x) tw' (ri_targets ri)\<rparr>) = Some ri'"
    by (auto simp: updateTarget_known bind_eq_Some_conv)
  have "\<forall>y \<in> set xs. map_of (ri_targets (ri\<lparr>ri_targets := AList.update (g x) tw' (ri_targets ri)\<rparr>)) (g y) \<noteq> None"
    using Cons.prems(2) by (simp add: update_conv')
  note IH = Cons.IH [OF _ this tw'(2)]
  have "map_of (map (\<lambda>x. (g x, x)) xs) (g x) = None"
    using Cons.prems(1) by (auto simp: map_of_eq_None_iff)
  with IH tw tw'(1) Cons.prems(1) show ?case
    by (auto simp: update_conv' split: option.splits)
qed simp

text \<open>A target after the load: where the store says it is, if it says so and the target has not reported.\<close>

definition located :: "TargetInfo option \<Rightarrow> TargetInfoW \<Rightarrow> TargetInfoW" where
  "located l tw = (case l of None \<Rightarrow> tw\<lparr>tw_locationInitLoaded := True\<rparr> | Some ti \<Rightarrow> the (set_loaded ti tw))"

definition find_target :: "TargetInfo list \<Rightarrow> TargetId \<rightharpoonup> TargetInfo" where
  "find_target ts = map_of (map (\<lambda>t. (ti_targetId t, t)) ts)"

lemma located_located: "located None (located l tw) = located l tw"
  by (cases l) (simp_all add: located_def set_loaded_def Let_def)

lemma find_target_append: "find_target (xs @ ys) tid = (case find_target xs tid of None \<Rightarrow> find_target ys tid | Some t \<Rightarrow> Some t)"
  by (simp add: find_target_def map_add_def split: option.split)

lemma apply_page_ok:
  assumes "ri_wf ri" and "\<forall>t \<in> set ts. map_of (ri_targets ri) (ti_targetId t) \<noteq> None" and "distinct (map ti_targetId ts)"
  shows "\<exists>T. apply_page now ts ri = Some (ri\<lparr>ri_targets := T\<rparr>) \<and> ri_wf (ri\<lparr>ri_targets := T\<rparr>) \<and>
    (\<forall>tid. map_of T tid = (case find_target ts tid of None \<Rightarrow> map_of (ri_targets ri) tid
       | Some t \<Rightarrow> map_option (located (Some t)) (map_of (ri_targets ri) tid)))"
proof -
  obtain T where T: "apply_page now ts ri = Some (ri\<lparr>ri_targets := T\<rparr>)" "ri_wf (ri\<lparr>ri_targets := T\<rparr>)"
    using touch_targets [OF assms(1,2), of set_loaded now] by (auto simp: apply_page_def)
  have some: "Option.bind x (set_loaded t) = map_option (located (Some t)) x" for x t
    by (cases x) (simp_all add: located_def set_loaded_def Let_def)
  show ?thesis
    using T touch_lookup [OF assms(3,2) T(1) [unfolded apply_page_def]]
    by (intro exI [of _ T]) (simp add: find_target_def some split: option.split)
qed

lemma mark_loaded_ok:
  assumes "ri_wf ri"
  shows "\<exists>T. mark_loaded now ri = Some (ri\<lparr>ri_targets := T\<rparr>) \<and> ri_wf (ri\<lparr>ri_targets := T\<rparr>) \<and>
    (\<forall>tid. map_of T tid = map_option (located None) (map_of (ri_targets ri) tid))"
proof -
  have known: "\<forall>x \<in> set (ri_targets ri). map_of (ri_targets ri) (fst x) \<noteq> None"
    by (auto simp: map_of_eq_None_iff simp del: not_None_eq intro: rev_image_eqI)
  have dist: "distinct (map fst (ri_targets ri))"
    using assms by (simp add: ri_wf_def ri_maps_wf_def)
  have eq: "mark_loaded now ri = ofold (\<lambda>x. updateTarget (fst x) now set_location_loaded) (ri_targets ri) ri"
    by (simp add: mark_loaded_def case_prod_unfold)
  obtain T where T: "mark_loaded now ri = Some (ri\<lparr>ri_targets := T\<rparr>)" "ri_wf (ri\<lparr>ri_targets := T\<rparr>)"
    using touch_targets [OF assms known, of "\<lambda>_. set_location_loaded" now] by (auto simp: eq)
  have some: "Option.bind x set_location_loaded = map_option (located None) x" for x
    by (cases x) (simp_all add: located_def set_location_loaded_def)
  have keys: "map_of (map (\<lambda>x. (fst x, x)) (ri_targets ri)) tid = None \<longleftrightarrow> map_of (ri_targets ri) tid = None" for tid
    by (auto simp: map_of_eq_None_iff image_image)
  show ?thesis
    using T touch_lookup [OF dist known, of now "\<lambda>_. set_location_loaded"] keys
    by (intro exI [of _ T]) (fastforce simp: eq some split: option.splits)
qed

lemma still_loading_cong:
  "still_loading env lls (kv, set_routing ri st) = still_loading env lls (kv', st)"
  by (simp add: still_loading_def ensureSelfIsPrimary_def currentLease_def selfId_def when_error_def Let_def split: option.split)

text \<open>The loop: with more successful reads than targets it ends, and no target is left out.\<close>

lemma load_targets_run:
  assumes ok: "kv_ok (fst s)" and page: "page > 0" and top: "st_targets (abs_store (fst s)) (- 1) = None"
    and "\<forall>x \<in> set reads. snd x = None" and "length (targets_from start (fst s)) < length reads"
    and "ri_wf (routing s)" and "\<forall>t \<in> set (targets_from start (fst s)). map_of (ri_targets (routing s)) (ti_targetId t) \<noteq> None"
    and "\<forall>x \<in> set reads. still_loading (fst x) lls s"
  shows "\<exists>T. load_targets page lls reads start s = (Ret (), fst s, set_routing ((routing s)\<lparr>ri_targets := T\<rparr>) (snd s)) \<and>
    ri_wf ((routing s)\<lparr>ri_targets := T\<rparr>) \<and>
    (\<forall>tid. map_of T tid = map_option (located (find_target (targets_from start (fst s)) tid)) (map_of (ri_targets (routing s)) tid))"
  using assms
proof (induction reads arbitrary: start s)
  case (Cons x reads)
  obtain env where x: "x = (env, None)" using Cons.prems(4) by (cases x) simp
  let ?ts = "targets_from start (fst s)" and ?now = "env_steadyNow env"
  have load: "loadTargetsFrom page start (fst s) = Inr (take page ?ts)"
    by (rule targets_from_page [OF Cons.prems(1)])
  show ?case
  proof (cases "?ts = []")
    case True
    obtain T where T: "mark_loaded ?now (routing s) = Some ((routing s)\<lparr>ri_targets := T\<rparr>)" "ri_wf ((routing s)\<lparr>ri_targets := T\<rparr>)"
      "\<forall>tid. map_of T tid = map_option (located None) (map_of (ri_targets (routing s)) tid)"
      using mark_loaded_ok [OF Cons.prems(6)] by blast
    with True load Cons.prems(8) x show ?thesis
      by (intro exI [of _ T]) (simp add: change_routing_def find_target_def)
  next
    case False
    then have res: "take page ?ts \<noteq> []" using page by simp
    let ?next = "ti_targetId (last (take page ?ts)) + 1"
    have sub: "set (take page ?ts) \<subseteq> set ?ts" "set (drop page ?ts) \<subseteq> set ?ts"
      by (rule set_take_subset, rule set_drop_subset)
    have "last (take page ?ts) \<in> set ?ts"
      using last_in_set [OF res] sub(1) by blast
    then have "ti_targetId (last (take page ?ts)) \<noteq> - 1"
      using Cons.prems(3) targets_from_set [OF Cons.prems(1)] by auto
    note rest = next_page [OF Cons.prems(1) res this]
    have dist: "distinct (map ti_targetId (take page ?ts))"
      using targets_from_sorted [OF Cons.prems(1), of start] by (metis distinct_take strict_sorted_iff take_map)
    have "\<forall>t \<in> set (take page ?ts). map_of (ri_targets (routing s)) (ti_targetId t) \<noteq> None"
      using Cons.prems(7) sub(1) by blast
    from apply_page_ok [OF Cons.prems(6) this dist, of ?now] obtain T1 where
      T1: "apply_page ?now (take page ?ts) (routing s) = Some ((routing s)\<lparr>ri_targets := T1\<rparr>)" "ri_wf ((routing s)\<lparr>ri_targets := T1\<rparr>)"
        "\<forall>tid. map_of T1 tid = (case find_target (take page ?ts) tid of None \<Rightarrow> map_of (ri_targets (routing s)) tid
          | Some t \<Rightarrow> map_option (located (Some t)) (map_of (ri_targets (routing s)) tid))" by blast
    let ?s1 = "(fst s, set_routing ((routing s)\<lparr>ri_targets := T1\<rparr>) (snd s))"
    have keys: "map_of T1 tid = None \<longleftrightarrow> map_of (ri_targets (routing s)) tid = None" for tid
      by (simp add: T1(3) split: option.split)
    have len: "length (targets_from ?next (fst ?s1)) < length reads"
      using Cons.prems(5) False page length_greater_0_conv [of ?ts] unfolding fst_conv rest length_drop length_Cons by linarith
    have known: "\<forall>t \<in> set (targets_from ?next (fst ?s1)). map_of (ri_targets (routing ?s1)) (ti_targetId t) \<noteq> None"
      using Cons.prems(7) sub(2) keys unfolding fst_conv rest by auto
    have "\<forall>x \<in> set reads. still_loading (fst x) lls ?s1"
      using still_loading_cong [of _ lls "fst s" _ "snd s" "fst s"] Cons.prems(8) by simp
    from Cons.IH [of ?s1 ?next, OF _ page _ _ len _ known this] Cons.prems(1,3,4) T1(2)
    have "\<exists>T. load_targets page lls reads ?next ?s1 = (Ret (), fst s, set_routing ((routing s)\<lparr>ri_targets := T\<rparr>) (snd s)) \<and>
        ri_wf ((routing s)\<lparr>ri_targets := T\<rparr>) \<and>
        (\<forall>tid. map_of T tid = map_option (located (find_target (drop page ?ts) tid)) (map_of T1 tid))"
      by (simp add: rest set_routing_def)
    then obtain T where T: "load_targets page lls reads ?next ?s1 = (Ret (), fst s, set_routing ((routing s)\<lparr>ri_targets := T\<rparr>) (snd s))"
      "\<And>tid. map_of T tid = map_option (located (find_target (drop page ?ts) tid)) (map_of T1 tid)"
      "ri_wf ((routing s)\<lparr>ri_targets := T\<rparr>)" by blast
    have disjoint: "find_target (drop page ?ts) tid = None" if "find_target (take page ?ts) tid = Some t" for tid t
    proof -
      have "distinct (map ti_targetId (take page ?ts @ drop page ?ts))"
        using targets_from_sorted [OF Cons.prems(1), of start] unfolding append_take_drop_id strict_sorted_iff by blast
      moreover have "tid \<in> ti_targetId ` set (take page ?ts)"
        using map_of_SomeD [OF that [unfolded find_target_def]] by auto
      ultimately have "tid \<notin> ti_targetId ` set (drop page ?ts)"
        unfolding map_append distinct_append list.set_map by blast
      then show ?thesis by (simp add: find_target_def map_of_eq_None_iff image_image)
    qed
    have "map_of T tid = map_option (located (find_target ?ts tid)) (map_of (ri_targets (routing s)) tid)" for tid
      using find_target_append [of "take page ?ts" "drop page ?ts" tid] disjoint [of tid]
      by (auto simp: T(2) T1(3) located_located option.map_comp comp_def split: option.splits)
    with T(1,3) res load Cons.prems(8) x T1(1) show ?thesis
      by (intro exI [of _ T]) (simp add: sbind_def change_routing_def)
  qed
qed simp

lemma find_target_stored:
  assumes "kv_ok kv"
  shows "find_target (targets_from 0 kv) = st_targets (abs_store kv)"
  unfolding find_target_def
proof (rule map_of_eq_table [where idx = ti_targetId and val = "\<lambda>t. t"])
  show "\<exists>e \<in> set (targets_from 0 kv). ti_targetId e = i \<and> e = x" if "st_targets (abs_store kv) i = Some x" for i x
    using that stored_target_id [OF assms that] targets_from_set [OF assms] by auto
qed (use targets_from_set [OF assms] in blast)

lemma card_stored_targets:
  assumes "kv_ok kv"
  shows "length (targets_from 0 kv) = card (dom (st_targets (abs_store kv)))"
proof -
  have "distinct (map ti_targetId (targets_from 0 kv))"
    using targets_from_sorted [OF assms, of 0] unfolding strict_sorted_iff by blast
  moreover have "set (map ti_targetId (targets_from 0 kv)) = dom (find_target (targets_from 0 kv))"
    by (simp add: find_target_def dom_map_of_conv_image_fst image_image)
  ultimately show ?thesis
    unfolding find_target_stored [OF assms] by (metis distinct_card length_map)
qed

definition primary :: "op_env \<Rightarrow> kv \<times> MgmtdState \<Rightarrow> bool" where
  "primary env s \<longleftrightarrow> fst (ensureSelfIsPrimary env s) = Ret ()"

lemma doAsPrimary_primary: "primary env s \<Longrightarrow> doAsPrimary env h s = h s"
  using checks_pure(3) [of env s] by (auto simp: primary_def doAsPrimary_def sbind_def)

lemma stored_target_known:
  assumes inv: "mgmtd_inv s" and t: "t \<in> set (targets_from 0 (fst s))"
  shows "map_of (ri_targets (routing s)) (ti_targetId t) \<noteq> None"
proof -
  have "st_targets (abs_store (fst s)) (ti_targetId t) \<noteq> None"
    using t targets_from_set [OF mgmtd_invD(1) [OF inv]] by simp
  then obtain cid c where "map_of (ri_chains (routing s)) cid = Some c" "ti_targetId t \<in> set (chain_ids c)"
    using mgmtd_invD(12) [OF inv] unfolding locations_ok_def by blast
  with coherent_chain_ids mgmtd_invD(2) [OF inv] show ?thesis unfolding ri_wf_def by blast
qed

text \<open>
  C29: a new primary's load of the targets' locations ends and is complete. If the manager is the
  primary, every page is read, no stored target has the highest possible id and there are more reads
  than stored targets, the load returns; it leaves the store alone and keeps the invariant, and
  afterwards every target has its location marked as loaded, with the stored node and disk as the
  persisted ones, and as the actual ones if the target had not reported.
\<close>

theorem LoadTargetInfo_complete:
  assumes inv: "mgmtd_inv s" and prim: "primary env s" and lease: "loadedLeaseStart < md_leaseStartTs (ms_data (snd s))"
    and page: "page > 0" and top: "st_targets (abs_store (fst s)) (- 1) = None"
    and reads: "\<forall>x \<in> set reads. snd x = None \<and> primary (fst x) s" "card (dom (st_targets (abs_store (fst s)))) < length reads"
  shows "case LoadTargetInfo env page reads loadedLeaseStart s of (r, s') \<Rightarrow>
    r = Ret () \<and> fst s' = fst s \<and> mgmtd_inv s' \<and>
    (\<forall>tid. map_of (ri_targets (routing s')) tid =
      map_option (located (st_targets (abs_store (fst s)) tid)) (map_of (ri_targets (routing s)) tid))"
proof -
  note ok = mgmtd_invD(1) [OF inv] and wf = mgmtd_invD(2) [OF inv]
  have still: "\<forall>x \<in> set reads. still_loading (fst x) (md_leaseStartTs (ms_data (snd s))) s" and read: "\<forall>x \<in> set reads. snd x = None"
    using reads(1) by (simp_all add: still_loading_def primary_def)
  have "map_of (ri_targets (routing s)) (ti_targetId t) \<noteq> None" if "t \<in> set (targets_from 0 (fst s))" for t
    by (rule stored_target_known [OF inv that])
  then obtain T where T: "load_targets page (md_leaseStartTs (ms_data (snd s))) reads 0 s =
      (Ret (), fst s, set_routing ((routing s)\<lparr>ri_targets := T\<rparr>) (snd s))" "ri_wf ((routing s)\<lparr>ri_targets := T\<rparr>)"
    "\<forall>tid. map_of T tid = map_option (located (st_targets (abs_store (fst s)) tid)) (map_of (ri_targets (routing s)) tid)"
    using load_targets_run [OF ok page top read _ wf _ still, of 0] reads(2)
    unfolding find_target_stored [OF ok] card_stored_targets [OF ok] by blast
  have "op_post env s (Ret (), fst s, set_routing ((routing s)\<lparr>ri_newBornChains := ri_newBornChains (routing s), ri_targets := T\<rparr>) (snd s))"
    using T(2) ok mgmtd_invD(12) [OF inv] by (intro post_touched [OF inv, where L = "st_targets (abs_store (fst s))"]) simp_all
  then have "mgmtd_inv (fst s, set_routing ((routing s)\<lparr>ri_targets := T\<rparr>) (snd s))"
    by (simp add: op_post_def)
  with T(1,3) lease show ?thesis
    by (simp add: LoadTargetInfo_def doAsPrimary_primary [OF prim] load_target_info_def)
qed

text \<open>The highest id: the start of the page after it is 0 again.\<close>

lemma load_never_ends:
  assumes "kv_ok (fst s)" "page > 0" "st_targets (abs_store (fst s)) (- 1) \<noteq> None"
    and "\<forall>x \<in> set reads. snd x = None" "ri_wf (routing s)" "\<forall>x \<in> set reads. still_loading (fst x) lls s"
    and "\<forall>t \<in> set (targets_from 0 (fst s)). map_of (ri_targets (routing s)) (ti_targetId t) \<noteq> None"
  shows "fst (load_targets page lls reads start s) = Pending"
  using assms
proof (induction reads arbitrary: start s)
  case (Cons x reads)
  obtain env where x: "x = (env, None)" using Cons.prems(4) by (cases x) simp
  let ?ts = "take page (targets_from start (fst s))" and ?now = "env_steadyNow env"
  obtain t where t: "st_targets (abs_store (fst s)) (- 1) = Some t" using Cons.prems(3) by blast
  then have "t \<in> set (targets_from start (fst s))"
    using stored_target_id [OF Cons.prems(1) t] targets_from_set [OF Cons.prems(1)] by simp
  then have res: "?ts \<noteq> []" using Cons.prems(2) by auto
  have "t \<in> set (targets_from 0 (fst s))" if "t \<in> set ?ts" for t
    using in_set_takeD [OF that] targets_from_set [OF Cons.prems(1)] by simp
  then have "\<forall>t \<in> set ?ts. map_of (ri_targets (routing s)) (ti_targetId t) \<noteq> None"
    using Cons.prems(7) by blast
  from touch_targets [OF Cons.prems(5) this, of set_loaded ?now] obtain T where
    T: "apply_page ?now ?ts (routing s) = Some ((routing s)\<lparr>ri_targets := T\<rparr>)" "ri_wf ((routing s)\<lparr>ri_targets := T\<rparr>)"
      "dom (map_of T) = dom (map_of (ri_targets (routing s)))"
    by (auto simp: apply_page_def)
  let ?s1 = "(fst s, set_routing ((routing s)\<lparr>ri_targets := T\<rparr>) (snd s))"
  have "\<forall>t \<in> set (targets_from 0 (fst ?s1)). map_of (ri_targets (routing ?s1)) (ti_targetId t) \<noteq> None"
    using Cons.prems(7) T(3) by (auto simp: domIff set_eq_iff)
  from Cons.IH [OF _ Cons.prems(2) _ _ _ _ this] Cons.prems T(2) still_loading_cong [of _ lls "fst s" _ "snd s" "fst s"]
  have "fst (load_targets page lls reads (ti_targetId (last ?ts) + 1) ?s1) = Pending" by simp
  with res Cons.prems(6) x T(1) targets_from_page [OF Cons.prems(1)] show ?case
    by (simp add: sbind_def change_routing_def)
qed simp

text \<open>
  C40: the highest id that a target can have makes the load run forever. Ids are 64-bit words; if the location
  of the target with the highest one is stored, the start of the page after it wraps around to 0, and
  however many pages have been read by the primary the task has not ended.
\<close>

theorem highest_id_loads_forever:
  assumes "mgmtd_inv s" and "primary env s" and "loadedLeaseStart < md_leaseStartTs (ms_data (snd s))"
    and "page > 0" and "st_targets (abs_store (fst s)) (- 1) \<noteq> None"
    and "\<forall>x \<in> set reads. snd x = None \<and> primary (fst x) s"
  shows "fst (LoadTargetInfo env page reads loadedLeaseStart s) = Pending"
proof -
  have "\<forall>x \<in> set reads. still_loading (fst x) (md_leaseStartTs (ms_data (snd s))) s"
    using assms(6) by (simp add: still_loading_def primary_def)
  moreover have "\<forall>t \<in> set (targets_from 0 (fst s)). map_of (ri_targets (routing s)) (ti_targetId t) \<noteq> None"
    using stored_target_known [OF assms(1)] by blast
  ultimately have "fst (load_targets page (md_leaseStartTs (ms_data (snd s))) reads 0 s) = Pending"
    using assms(6) by (intro load_never_ends [OF mgmtd_invD(1) [OF assms(1)] assms(4,5) _ mgmtd_invD(2) [OF assms(1)]]) auto
  with assms(2,3) show ?thesis
    by (simp add: LoadTargetInfo_def doAsPrimary_primary load_target_info_def)
qed

text \<open>
  A load that fails is not repeated while the lease lasts. If reading the first page fails, the task
  fails with that error and with the memory as it was; it has recorded the lease as loaded, so every
  later run under the same lease start does nothing, and a target whose location is not loaded is
  never persisted.
\<close>

lemma failed_load_not_retried:
  assumes prim: "primary env s" and lease: "loadedLeaseStart < md_leaseStartTs (ms_data (snd s))"
    and same: "md_leaseStartTs (ms_data (snd s')) = md_leaseStartTs (ms_data (snd s))"
  shows "LoadTargetInfo env page ((env1, Some e) # reads) loadedLeaseStart s = (Err e, s) \<and>
    snd (LoadTargetInfo env' page' reads' (loader_next env s loadedLeaseStart) s') = s' \<and>
    (tw_locationInitLoaded ti \<or> \<not> needs_persist ti)"
proof -
  have "loader_next env s loadedLeaseStart = md_leaseStartTs (ms_data (snd s'))"
    using prim lease same by (simp add: loader_next_def primary_def)
  then have "load_target_info page' reads' (loader_next env s loadedLeaseStart) s' = ret () s'"
    by (simp add: load_target_info_def)
  then have "snd (LoadTargetInfo env' page' reads' (loader_next env s loadedLeaseStart) s') = s'"
    using checks_pure(3) [of env' s']
    by (auto simp: LoadTargetInfo_def doAsPrimary_def sbind_def ret_def split: outcome.split)
  moreover have "LoadTargetInfo env page ((env1, Some e) # reads) loadedLeaseStart s = (Err e, s)"
    using lease by (simp add: LoadTargetInfo_def doAsPrimary_primary [OF prim] load_target_info_def fail_def)
  ultimately show ?thesis
    by (auto simp: needs_persist_def)
qed

section \<open>A removal between the phases of the persister\<close>

lemma store_txn_memory: "store_txn env h s = (r, s') \<Longrightarrow> snd s' = snd s"
  by (auto simp: store_txn_def split: prod.splits)

lemma update_chain_removes:
  assumes inv: "mgmtd_inv s" and run: "update_chain env cid tid UPDATE_REMOVE s = (Ret c', s1)"
  shows "map_of (ri_targets (routing s1)) tid = None" "map_of (ri_chains (routing s)) d = None \<Longrightarrow> map_of (ri_chains (routing s1)) d = None"
proof -
  let ?ri = "bump_routing (routing s)"
  obtain c where c: "map_of (ri_chains (routing s)) cid = Some c"
    using run by (cases "map_of (ri_chains (routing s)) cid") (simp_all add: update_chain_def fail_def)
  obtain k where k: "remove_from_chain tid c = Inr k"
    using run c by (cases "remove_from_chain tid c") (auto simp: update_chain_def UPDATE_ADD_def UPDATE_REMOVE_def fail_def)
  have "ri_wf ?ri" "map_of (ri_chains ?ri) cid = Some c"
    using mgmtd_invD(2) [OF inv] c by simp_all
  from remove_from_chain_wf [OF this k, of "env_steadyNow env"]
  have rm: "updated_chain False cid tid k (env_steadyNow env) ?ri =
      Some (?ri\<lparr>ri_chains := AList.update cid k (ri_chains ?ri), ri_targets := AList.delete tid (ri_targets ?ri)\<rparr>)" by blast
  obtain r2 s2 where s2: "updateStoredRoutingInfo env (\<lambda>kv. Inr (storeChainInfo k (clearTargetInfo tid kv))) s = (r2, s2)"
    by (rule prod.exhaust)
  then have "snd s2 = snd s"
    by (auto simp: updateStoredRoutingInfo_def Let_def dest: store_txn_memory)
  with run c k s2 rm have "routing s1 = ?ri\<lparr>ri_chains := AList.update cid k (ri_chains ?ri), ri_targets := AList.delete tid (ri_targets ?ri)\<rparr>"
    by (cases r2) (auto simp: update_chain_def UPDATE_ADD_def UPDATE_REMOVE_def sbind_def updateMemoryRoutingInfo_def
        change_routing_def ret_def)
  then show "map_of (ri_targets (routing s1)) tid = None" "map_of (ri_chains (routing s)) d = None \<Longrightarrow> map_of (ri_chains (routing s1)) d = None"
    using c by (auto simp: delete_conv' update_conv')
qed

text \<open>An entry made for an unknown id: a target of chain 0.\<close>

definition ghost :: "TargetId \<Rightarrow> SteadyTime \<Rightarrow> RoutingInfo \<Rightarrow> bool" where
  "ghost tid now ri \<longleftrightarrow> (\<exists>tw. map_of (ri_targets ri) tid = Some tw \<and> ti_chainId (tw_base tw) = 0 \<and> tw_ts tw = now)"

lemma ghost_step:
  assumes "map_of (ri_targets r) tid = None \<or> ghost tid now r"
  shows "\<exists>T. updateTarget (ti_targetId t) now (set_persisted t) r = Some (r\<lparr>ri_targets := T\<rparr>) \<and>
    (ghost tid now r \<or> ti_targetId t = tid \<longrightarrow> ghost tid now (r\<lparr>ri_targets := T\<rparr>)) \<and> (map_of T tid = None \<or> ghost tid now (r\<lparr>ri_targets := T\<rparr>))"
proof -
  define tw where "tw = (case map_of (ri_targets r) (ti_targetId t) of Some ti \<Rightarrow> ti | None \<Rightarrow> TargetInfoW_of empty_TargetInfo now now)
    \<lparr>tw_persistedNodeId := ti_nodeId t, tw_persistedDiskIndex := ti_diskIndex t\<rparr>"
  have "updateTarget (ti_targetId t) now (set_persisted t) r = Some (r\<lparr>ri_targets := AList.update (ti_targetId t) tw (ri_targets r)\<rparr>)"
    by (simp add: updateTarget_def set_persisted_def tw_def)
  moreover have "ti_chainId (tw_base tw) = 0 \<and> tw_ts tw = now" if "ti_targetId t = tid"
    using assms that
    by (cases "map_of (ri_targets r) tid") (simp_all add: ghost_def tw_def TargetInfoW_of_def empty_TargetInfo_def)
  ultimately show ?thesis
    using assms
    by (intro exI [of _ "AList.update (ti_targetId t) tw (ri_targets r)"], cases "ti_targetId t = tid")
      (simp_all add: ghost_def update_conv')
qed

lemma persist_apply_unknown:
  assumes "map_of (ri_targets ri) tid = None" and "tid \<in> ti_targetId ` set cands"
  shows "\<exists>T. persist_apply now cands ri = Some (ri\<lparr>ri_targets := T\<rparr>) \<and> ghost tid now (ri\<lparr>ri_targets := T\<rparr>)"
proof -
  have "\<exists>T. ofold (\<lambda>t. updateTarget (ti_targetId t) now (set_persisted t)) cs r = Some (r\<lparr>ri_targets := T\<rparr>) \<and>
      (ghost tid now r \<or> tid \<in> ti_targetId ` set cs \<longrightarrow> ghost tid now (r\<lparr>ri_targets := T\<rparr>))"
    if "map_of (ri_targets r) tid = None \<or> ghost tid now r" for cs r
    using that
  proof (induction cs arbitrary: r)
    case Nil
    show ?case by (intro exI [of _ "ri_targets r"]) simp
  next
    case (Cons t cs)
    obtain T where T: "updateTarget (ti_targetId t) now (set_persisted t) r = Some (r\<lparr>ri_targets := T\<rparr>)"
      "ghost tid now r \<or> ti_targetId t = tid \<longrightarrow> ghost tid now (r\<lparr>ri_targets := T\<rparr>)"
      "map_of (ri_targets (r\<lparr>ri_targets := T\<rparr>)) tid = None \<or> ghost tid now (r\<lparr>ri_targets := T\<rparr>)"
      using ghost_step [OF Cons.prems, of t] by auto
    from Cons.IH [OF T(3)] obtain T' where
      "ofold (\<lambda>t. updateTarget (ti_targetId t) now (set_persisted t)) cs (r\<lparr>ri_targets := T\<rparr>) = Some (r\<lparr>ri_targets := T'\<rparr>)"
      "ghost tid now (r\<lparr>ri_targets := T\<rparr>) \<or> tid \<in> ti_targetId ` set cs \<longrightarrow> ghost tid now (r\<lparr>ri_targets := T'\<rparr>)"
      by auto
    with T(1,2) show ?case by (intro exI [of _ T']) auto
  qed
  from this [of ri cands] assms show ?thesis
    unfolding persist_apply_def by blast
qed

lemma ofold_None: "x \<in> set xs \<Longrightarrow> (\<And>acc. f x acc = None) \<Longrightarrow> ofold f xs acc = None"
  by (induction xs arbitrary: acc) (auto split: bind_split)

lemma unknown_chain_aborts:
  assumes "(tid, tw) \<in> set (ri_targets (routing s))" and "map_of (ri_chains (routing s)) (ti_chainId (tw_base tw)) = None"
    and "map_of (ri_newBornChains (routing s)) (ti_chainId (tw_base tw)) = None" and "lastUpdateTs < tw_ts tw"
  shows "update_chains env lastUpdateTs flag s = (Crash, s)"
proof -
  let ?adjust = "mc_try_adjust_target_order_as_preferred (ms_config (snd s))"
  have "ti_chainId (tw_base tw) \<in> set (candidate_chains lastUpdateTs flag ?adjust (routing s))"
    using assms(1,4) by (force simp: candidate_chains_def)
  then have "changed_chains ?adjust (candidate_chains lastUpdateTs flag ?adjust (routing s)) (routing s) = None"
    unfolding changed_chains_def
    by (rule ofold_None) (simp add: appendChangedChains_def assms(2,3) getChain_def)
  then show ?thesis
    by (simp add: update_chains_def crash_def)
qed

text \<open>
  C39: the persister of target locations takes no writer lock. If a target is removed from its chain
  between the selection of the candidates and the commit, the location of the removed target is stored
  again, the removed target reappears in memory as a target of chain 0, and the next update of the
  chains aborts the process.
\<close>

theorem persist_during_removal_aborts:
  assumes inv: "mgmtd_inv s" and chain0: "map_of (ri_chains (routing s)) 0 = None"
    and cands: "cands = persist_candidates (mc_target_info_persist_batch (ms_config (snd s))) (ri_targets (routing s)) []"
    and tid: "tid \<in> ti_targetId ` set cands"
    and removal: "update_chain env1 cid tid UPDATE_REMOVE s = (Ret c, s1)"
    and commit: "persist_commit env2 cands s1 = (Ret (), s2)"
    and change: "change_routing (persist_apply later cands) s2 = (r, s3)"
    and ts: "lastUpdateTs < later"
  shows "st_targets (abs_store (fst s3)) tid \<noteq> None \<and> map_of (ri_targets (routing s)) tid \<noteq> None \<and>
    update_chains env3 lastUpdateTs flag s3 = (Crash, s3)"
proof -
  have inv1: "mgmtd_inv s1"
    using update_chain_post [OF inv, of env1 cid tid UPDATE_REMOVE] unfolding removal by (simp add: op_post_def)
  note gone = update_chain_removes [OF inv removal]
  have eff: "snd s2 = snd s1" "abs_store (fst s2) = (abs_store (fst s1))\<lparr>st_targets := put_targets cands (st_targets (abs_store (fst s1)))\<rparr>"
  proof -
    have "store_txn env2 (\<lambda>kv. Inr (fold storeTargetInfo cands kv)) (fst s1, snd s1) = (Ret (), fst s2, snd s2)"
      using commit by (simp add: persist_commit_def)
    from store_txn_effect [OF mgmtd_invD(1) [OF inv1] implements_fold_storeTargetInfo _ this]
    show "snd s2 = snd s1" "abs_store (fst s2) = (abs_store (fst s1))\<lparr>st_targets := put_targets cands (st_targets (abs_store (fst s1)))\<rparr>"
      by (simp_all add: put_by_idem)
  qed
  obtain T where T: "persist_apply later cands (routing s1) = Some ((routing s1)\<lparr>ri_targets := T\<rparr>)"
    "ghost tid later ((routing s1)\<lparr>ri_targets := T\<rparr>)"
    using persist_apply_unknown [OF gone(1) tid, of later] by blast
  then obtain tw where tw: "map_of T tid = Some tw" "ti_chainId (tw_base tw) = 0" "tw_ts tw = later"
    by (auto simp: ghost_def)
  have s3: "fst s3 = fst s2" "routing s3 = (routing s1)\<lparr>ri_targets := T\<rparr>"
    using change T(1) eff(1) by (auto simp: change_routing_def)
  have "newborn_ok (map_of (ri_newBornChains (routing s1))) (map_of (ri_chains (routing s1)))"
    using mgmtd_invD(2) [OF inv1] by (simp add: ri_wf_def)
  then have "map_of (ri_newBornChains (routing s1)) 0 = None" "map_of (ri_chains (routing s1)) 0 = None"
    using gone(2) [OF chain0] by (simp_all add: newborn_ok_def)
  then have "update_chains env3 lastUpdateTs flag s3 = (Crash, s3)"
    using tw(2,3) ts map_of_SomeD [OF tw(1)] by (intro unknown_chain_aborts [of tid tw]) (simp_all add: s3(2))
  moreover have "st_targets (abs_store (fst s3)) tid \<noteq> None"
    using put_by_in [OF tid, of "st_targets (abs_store (fst s1))"] by (auto simp: s3(1) eff(2))
  moreover have "map_of (ri_targets (routing s)) tid \<noteq> None"
    using persist_candidates_known [OF mgmtd_invD(2) [OF inv]] tid cands by fastforce
  ultimately show ?thesis by blast
qed

section \<open>Samples\<close>

text \<open>A chain with a serving target \<open>a\<close>, whose location is stored, and an offline one, which has reported from
  node 5; this is not stored yet.\<close>

definition sample_chain3 :: "TargetId \<Rightarrow> ChainInfo" where
  "sample_chain3 a = sample_chain\<lparr>ci_chainVersion := 2, ci_targets := [\<lparr>cti_targetId = a, cti_publicState = PS_SERVING\<rparr>,
     \<lparr>cti_targetId = 11, cti_publicState = PS_OFFLINE\<rparr>], ci_preferredTargetOrder := []\<rparr>"

definition sample_target3 :: TargetInfoW where
  "sample_target3 = (let tw = sample_target 11 LS_OFFLINE in
     tw\<lparr>tw_base := (tw_base tw)\<lparr>ti_publicState := PS_OFFLINE, ti_nodeId := Some 5\<rparr>, tw_locationInitLoaded := True\<rparr>)"

definition sample_RoutingInfo3 :: "TargetId \<Rightarrow> RoutingInfo" where
  "sample_RoutingInfo3 a = (bump_routing sample_RoutingInfo)\<lparr>ri_chains := [(1, sample_chain3 a)],
     ri_targets := [(a, sample_target a LS_OFFLINE), (11, sample_target3)]\<rparr>"

definition sample_state3 :: "TargetId \<Rightarrow> kv \<times> MgmtdState" where
  "sample_state3 a = (storeChainInfo (sample_chain3 a) (storeRoutingInfoVersion 2
     (storeTargetInfo (tw_base (sample_target a LS_OFFLINE)) sample_kv)), set_routing (sample_RoutingInfo3 a) sample_State)"

lemma sample_RoutingInfo3_wf: "a \<noteq> 11 \<Longrightarrow> ri_wf (sample_RoutingInfo3 a)"
  by (auto simp: ri_wf_def ri_maps_wf_def coherent_def orphans_ok_def chain_valid_def chain_ids_def sample_RoutingInfo3_def
      sample_RoutingInfo_def initial_RoutingInfo_def bump_routing_def sample_chain3_def sample_chain_def sample_target_def
      sample_target3_def TargetInfoW_of_def makeTargetInfo_def empty_TargetInfo_def Let_def split: if_splits)

lemma sample_RoutingInfo3_simps:
  "ri_nodeMap (sample_RoutingInfo3 a) = []" "ri_chainTables (sample_RoutingInfo3 a) = []" "ri_routingInfoVersion (sample_RoutingInfo3 a) = 2"
  "ri_chains (sample_RoutingInfo3 a) = [(1, sample_chain3 a)]" "ri_newBornChains (sample_RoutingInfo3 a) = []"
  by (simp_all add: sample_RoutingInfo3_def sample_RoutingInfo_def initial_RoutingInfo_def)

lemma sample_state3_inv: "a \<noteq> 11 \<Longrightarrow> mgmtd_inv (sample_state3 a)"
proof -
  assume a: "a \<noteq> 11"
  have ri: "md_routingInfo (ms_data sample_State) = sample_RoutingInfo" "ri_nodeMap sample_RoutingInfo = []"
    "ri_chainTables sample_RoutingInfo = []" "ri_routingInfoVersion sample_RoutingInfo = 1"
    "ri_chains sample_RoutingInfo = [(1, sample_chain)]"
    by (simp_all add: sample_State_def sample_Data_def sample_RoutingInfo_def initial_RoutingInfo_def)
  have chain: "ci_chainId (sample_chain3 a) = 1" "ci_chainId sample_chain = 1" "chain_step sample_chain (sample_chain3 a)"
    "chain_ids (sample_chain3 a) = [a, 11]" "ti_targetId (tw_base (sample_target a LS_OFFLINE)) = a"
    by (simp_all add: sample_chain3_def sample_chain_def chain_step_def chain_ids_def sample_target_def TargetInfoW_of_def
        makeTargetInfo_def Let_def)
  have "op_post sample_env sample_state (Ret (), fst (sample_state3 a), set_routing (sample_RoutingInfo3 a) (snd sample_state))"
    by (rule post_chains_written [OF sample_inv, where T = "st_targets (abs_store (fst (sample_state3 a)))"])
      (auto simp: ri chain sample_RoutingInfo3_simps sample_RoutingInfo3_wf [OF a] sample_state3_def sample_state_def kv_ok_sample
        sample_kv_def abs_store_empty locations_ok_def split: if_splits)
  then show ?thesis
    by (simp add: op_post_def sample_state3_def sample_state_def)
qed

lemma sample_state3_primary: "primary sample_env (sample_state3 a)"
  by (simp add: primary_def ensureSelfIsPrimary_def sample_state3_def set_routing_def sample_State_def MgmtdState_of_def currentLease_def
      selfId_def sample_env_def default_MgmtdConfig_def initSelfNodeInfo_def sample_app_def toPersistentNode_def when_error_def)

lemma sample_state3_stored: "st_targets (abs_store (fst (sample_state3 a))) = [a \<mapsto> tw_base (sample_target a LS_OFFLINE)]"
proof -
  have "ti_targetId (tw_base (sample_target a LS_OFFLINE)) = a"
    by (simp add: sample_target_def TargetInfoW_of_def makeTargetInfo_def Let_def)
  then show ?thesis by (simp add: sample_state3_def sample_kv_def abs_store_empty fun_eq_iff)
qed

lemma sample_state3_targets: "ri_targets (routing (sample_state3 a)) = [(a, sample_target a LS_OFFLINE), (11, sample_target3)]"
  by (simp add: sample_state3_def sample_RoutingInfo3_def)

lemma sample_state3_lease: "- 1 < md_leaseStartTs (ms_data (snd (sample_state3 a)))"
  by (simp add: sample_state3_def sample_State_def sample_Data_def)

theorem LoadTargetInfo_complete_witness:
  "fst (LoadTargetInfo sample_env 100 [(sample_env, None), (sample_env, None)] (-1) (sample_state3 10)) = Ret () \<and>
   tw_locationInitLoaded (the (map_of (ri_targets (routing (snd (LoadTargetInfo sample_env 100 [(sample_env, None), (sample_env, None)] (-1) (sample_state3 10))))) 10))"
proof -
  from LoadTargetInfo_complete [OF sample_state3_inv [of 10, simplified] sample_state3_primary sample_state3_lease, of 100 "[(sample_env, None), (sample_env, None)]"]
  show ?thesis
    using sample_state3_primary
    by (auto simp: sample_state3_stored sample_state3_targets located_def set_loaded_def Let_def split: prod.splits)
qed

theorem highest_id_loads_forever_witness:
  "fst (LoadTargetInfo sample_env 1000 (replicate 1000000 (sample_env, None)) (- 1) (sample_state3 (- 1))) = Pending"
  by (rule highest_id_loads_forever [OF sample_state3_inv sample_state3_primary sample_state3_lease])
    (simp_all add: sample_state3_stored sample_state3_primary)

theorem persist_during_removal_aborts_witness:
  "\<exists>c s1 s2 s3. update_chain sample_env 1 11 UPDATE_REMOVE (sample_state3 10) = (Ret c, s1) \<and>
     persist_commit sample_env [tw_base sample_target3] s1 = (Ret (), s2) \<and>
     change_routing (persist_apply 1 [tw_base sample_target3]) s2 = (Ret (), s3) \<and>
     update_chains sample_env 0 False s3 = (Crash, s3)"
proof -
  let ?ri = "bump_routing (routing (sample_state3 10))" and ?cands = "[tw_base sample_target3]"
  have t3: "ti_targetId (tw_base sample_target3) = 11" "needs_persist sample_target3" "\<not> needs_persist (sample_target 10 LS_OFFLINE)"
    by (simp_all add: sample_target3_def sample_target_def needs_persist_def TargetInfoW_of_def makeTargetInfo_def Let_def)
  have chains: "ri_chains (routing (sample_state3 10)) = [(1, (sample_chain3 10))]" "map_of (ri_chains ?ri) 1 = Some (sample_chain3 10)"
    by (simp_all add: sample_state3_def sample_RoutingInfo3_simps)
  obtain k where k: "remove_from_chain 11 (sample_chain3 10) = Inr k"
    by (simp add: remove_from_chain_def sample_chain3_def)
  have "ri_wf ?ri" using mgmtd_invD(2) [OF sample_state3_inv [of 10, simplified]] by simp
  note rm = remove_from_chain_wf [OF this chains(2) k, of "env_steadyNow sample_env", THEN conjunct1]
  define kv1 where "kv1 = storeChainInfo k (clearTargetInfo 11 (storeRoutingInfoVersion (ri_routingInfoVersion (routing (sample_state3 10)) + 1) (fst (sample_state3 10))))"
  define s1 where "s1 = (kv1, set_routing (?ri\<lparr>ri_chains := AList.update 1 k (ri_chains ?ri),
    ri_targets := AList.delete 11 (ri_targets ?ri)\<rparr>) (snd (sample_state3 10)))"
  have ok: "kv_ok kv1" "st_lease (abs_store kv1) = st_lease (abs_store sample_kv)"
    using mgmtd_invD(1) [OF sample_state3_inv [of 10, simplified]] by (simp_all add: kv1_def sample_state3_def kv_ok_sample)
  have commit: "commits sample_env (sample_state3 10)" "commits sample_env s1"
    using ok by (auto intro!: sample_commits_cong simp: s1_def sample_state3_def kv_ok_sample selfId_def)
  have "updateStoredRoutingInfo sample_env (\<lambda>kv. Inr (storeChainInfo k (clearTargetInfo 11 kv))) (sample_state3 10) = (Ret (), kv1, snd (sample_state3 10))"
    by (rule updateStoredRoutingInfo_commits [OF commit(1)]) (simp add: kv1_def)
  then have removal: "update_chain sample_env 1 11 UPDATE_REMOVE (sample_state3 10) = (Ret k, s1)"
    using k rm chains
    by (simp add: update_chain_def UPDATE_ADD_def UPDATE_REMOVE_def sbind_def updateMemoryRoutingInfo_def change_routing_def ret_def s1_def)
  obtain s2 where s2: "persist_commit sample_env ?cands s1 = (Ret (), s2)" "snd s2 = snd s1"
    using store_txn_commits [OF commit(2)] by (auto simp: persist_commit_def)
  have "map_of (ri_targets (routing s1)) 11 = None"
    by (simp add: s1_def delete_conv')
  from persist_apply_unknown [OF this, of ?cands 1] obtain T where "persist_apply 1 ?cands (routing s1) = Some ((routing s1)\<lparr>ri_targets := T\<rparr>)"
    by (auto simp: t3)
  then obtain s3 where s3: "change_routing (persist_apply 1 ?cands) s2 = (Ret (), s3)"
    using s2(2) by (auto simp: change_routing_def)
  have cands: "?cands = persist_candidates (mc_target_info_persist_batch (ms_config (snd (sample_state3 10)))) (ri_targets (routing (sample_state3 10))) []"
    unfolding sample_state3_targets using t3 by (simp add: Let_def)
  have "update_chains sample_env 0 False s3 = (Crash, s3)"
    using persist_during_removal_aborts [OF sample_state3_inv [of 10, simplified] _ cands _ removal s2(1) s3, of 0 sample_env False]
    by (simp add: t3 chains)
  with removal s2(1) s3 show ?thesis by blast
qed

end
