(* ===== verification/Mgmtd_Lease.thy ===== *)
theory Mgmtd_Lease
  imports Mgmtd_Locations
begin

text \<open>
  The lease of the cluster manager (\<^verbatim>\<open>src/src/mgmtd/background/MgmtdLeaseExtender.cc\<close>): the periodic
  extension, and what a manager does when it gets a new lease, which is to reload everything from the
  store. The first part models the code; then the reload is shown to establish the invariant of
  \<^theory_text>\<open>Mgmtd_Invariant\<close>, and several managers over one store are shown to have at most one primary.
\<close>

section \<open>Definitions\<close>

subsection \<open>Loading\<close>

text \<open>
  The variables that the handler of the loading transaction captures by reference; they keep what a
  failed attempt has put into them.
\<close>

record NewLease =
  nl_version :: RoutingInfoVersion
  nl_nodes :: NodeMap
  nl_configs :: "(NodeType \<times> VersionedConfigMap) list"
  nl_chainTables :: ChainTableMap
  nl_chains :: ChainMap
  nl_targets :: TargetMap
  nl_tags :: "(string \<times> TagPair list) list"
  nl_self :: NodeInfo
  nl_selfPersistent :: PersistentNodeInfo

definition initial_NewLease :: "MgmtdState \<Rightarrow> NewLease" where
  "initial_NewLease st = \<lparr>nl_version = 1, nl_nodes = [],
     nl_configs = map (\<lambda>ty. (ty, [(0, \<lparr>cfg_configVersion = 0, cfg_content = [], cfg_desc = []\<rparr>)])) all_NodeTypes,
     nl_chainTables = [], nl_chains = [], nl_targets = [], nl_tags = [],
     nl_self = ms_selfNodeInfo st, nl_selfPersistent = ms_selfPersistentNodeInfo st\<rparr>"

definition addNode :: "op_env \<Rightarrow> NodeInfo \<Rightarrow> NodeMap \<Rightarrow> NodeMap" where
  "addNode env nodeInfo allNodes =
     (let nodeId = app_nodeId (ni_app nodeInfo); nodes = put_node_base (env_steadyNow env) nodeInfo allNodes
      in map (\<lambda>(i, nw). if i = nodeId then (i, recordStatusChange (ni_status nodeInfo) (env_utcClock env) nw) else (i, nw)) nodes)"

definition put_entry :: "'k \<Rightarrow> 'v::linorder \<Rightarrow> 'x \<Rightarrow> ('k \<times> ('v, 'x) omap) list \<Rightarrow> ('k \<times> ('v, 'x) omap) list" where
  "put_entry k v x m =
     AList.update k (omap_put v x (case map_of m k of None \<Rightarrow> [] | Some vm \<Rightarrow> vm)) m"

definition load_version :: "kv \<Rightarrow> NewLease \<Rightarrow> NewLease result" where
  "load_version kv l = map_sum id (\<lambda>v. l\<lparr>nl_version := nextVersion v\<rparr>) (loadRoutingInfoVersion kv)"

definition load_nodes :: "op_env \<Rightarrow> kv \<Rightarrow> NewLease \<Rightarrow> NewLease result" where
  "load_nodes env kv l =
     map_sum id (\<lambda>ns. l\<lparr>nl_nodes := fold (\<lambda>n. addNode env (toNode n)) ns (nl_nodes l)\<rparr>) (loadAllNodes kv)"

definition load_configs :: "kv \<Rightarrow> NewLease \<Rightarrow> NewLease result" where
  "load_configs kv l =
     map_sum id (\<lambda>cs. l\<lparr>nl_configs := fold (\<lambda>(ty, info). put_entry ty (cfg_configVersion info) info) cs (nl_configs l)\<rparr>)
       (loadAllConfigs kv)"

definition load_chainTables :: "kv \<Rightarrow> NewLease \<Rightarrow> NewLease result" where
  "load_chainTables kv l =
     map_sum id (\<lambda>ts. l\<lparr>nl_chainTables :=
         fold (\<lambda>t. put_entry (ct_chainTableId t) (ct_chainTableVersion t) t) ts (nl_chainTables l)\<rparr>)
       (loadAllChainTables kv)"

definition add_targets :: "SteadyTime \<Rightarrow> ChainInfo \<Rightarrow> TargetMap \<Rightarrow> TargetMap" where
  "add_targets now c targets = fold (\<lambda>t. AList.update (cti_targetId t)
     (TargetInfoW_of (makeTargetInfo (ci_chainId c) t) now now)) (ci_targets c) targets"

definition load_chains :: "op_env \<Rightarrow> kv \<Rightarrow> NewLease \<Rightarrow> NewLease result" where
  "load_chains env kv l =
     map_sum id (\<lambda>cs. l\<lparr>nl_chains := fold (\<lambda>c. AList.update (ci_chainId c) c) cs (nl_chains l),
         nl_targets := fold (add_targets (env_steadyNow env)) cs (nl_targets l)\<rparr>)
       (loadAllChains kv)"

definition load_tags :: "kv \<Rightarrow> NewLease \<Rightarrow> NewLease result" where
  "load_tags kv l =
     map_sum id (\<lambda>ts. l\<lparr>nl_tags := fold (\<lambda>(i, tags). AList.update i tags) ts (nl_tags l)\<rparr>) (loadAllUniversalTags kv)"

text \<open>
  \<^verbatim>\<open>collectAll\<close> runs the six loads to their ends; \<open>fails i\<close> is the error of the reads of the \<open>i\<close>-th, if it
  has one. The first error counts, and the loads that succeeded have had their effect.
\<close>

definition try_load :: "status option \<Rightarrow> (NewLease \<Rightarrow> NewLease result) \<Rightarrow> status option \<times> NewLease \<Rightarrow> status option \<times> NewLease" where
  "try_load failure load acc =
     (case (case failure of Some e \<Rightarrow> Inl e | None \<Rightarrow> load (snd acc)) of
        Inl e \<Rightarrow> (if fst acc = None then Some e else fst acc, snd acc)
      | Inr l \<Rightarrow> (fst acc, l))"

definition load_all :: "op_env \<Rightarrow> (nat \<Rightarrow> status option) \<Rightarrow> kv \<Rightarrow> NewLease \<Rightarrow> status option \<times> NewLease" where
  "load_all env fails kv l =
     try_load (fails 5) (load_tags kv) (try_load (fails 4) (load_chains env kv) (try_load (fails 3) (load_chainTables kv)
       (try_load (fails 2) (load_configs kv) (try_load (fails 1) (load_nodes env kv)
         (try_load (fails 0) (load_version kv) (None, l))))))"

definition persistNewVersionAndSelfInfo :: "op_env \<Rightarrow> kv \<times> NewLease \<Rightarrow> unit outcome \<times> kv \<times> NewLease" where
  "persistNewVersionAndSelfInfo env s =
     (let (kv, l) = s; kv1 = storeRoutingInfoVersion (nl_version l) kv; self = nl_self l;
          found = map_of (nl_nodes l) (app_nodeId (ni_app self))
      in if (case found of None \<Rightarrow> False | Some nw \<Rightarrow> ni_type (nw_base nw) \<noteq> MGMTD) then (Crash, kv, l)
         else
           let l1 = (case found of
                  None \<Rightarrow> l
                | Some nw \<Rightarrow> l\<lparr>nl_self := self\<lparr>ni_tags := ni_tags (nw_base nw)\<rparr>,
                     nl_selfPersistent := (nl_selfPersistent l)\<lparr>pn_tags := ni_tags (nw_base nw)\<rparr>\<rparr>);
               needPersistSelf = (case found of
                  None \<Rightarrow> True | Some nw \<Rightarrow> toPersistentNode (nw_base nw) \<noteq> nl_selfPersistent l1);
               kv2 = (if needPersistSelf then storeNodeInfo (nl_selfPersistent l1) kv1 else kv1)
           in (Ret (), kv2, l1\<lparr>nl_nodes := put_node_base (env_steadyNow env) (nl_self l1) (nl_nodes l1)\<rparr>))"

definition new_lease_handler ::
  "op_env \<Rightarrow> (UtcTime \<Rightarrow> nat \<Rightarrow> status option) \<Rightarrow> UtcTime \<Rightarrow> kv \<times> NewLease \<Rightarrow> unit outcome \<times> kv \<times> NewLease" where
  "new_lease_handler env fails now s =
     (case load_all env (fails now) (fst s) (snd s) of
        (Some e, l) \<Rightarrow> (Err e, fst s, l)
      | (None, l) \<Rightarrow> persistNewVersionAndSelfInfo env (fst s, l))"

definition set_self :: "NewLease \<Rightarrow> MgmtdState \<Rightarrow> MgmtdState" where
  "set_self l st = st\<lparr>ms_selfNodeInfo := nl_self l, ms_selfPersistentNodeInfo := nl_selfPersistent l\<rparr>"

definition reset_from :: "op_env \<Rightarrow> NewLease \<Rightarrow> MgmtdState \<Rightarrow> MgmtdState" where
  "reset_from env l st = st\<lparr>ms_data := reset_data (env_steadyNow env) (nl_version l) (nl_nodes l) (nl_configs l)
     (nl_chainTables l) (nl_chains l) (nl_targets l) (nl_tags l) (ms_data st), ms_clientSessionMap := []\<rparr>"

definition set_self_config :: "ConfigVersion \<Rightarrow> MgmtdState \<Rightarrow> NewLease \<Rightarrow> NewLease" where
  "set_self_config version st l = l\<lparr>nl_self := (nl_self l)\<lparr>ni_configVersion := version\<rparr>,
     nl_nodes := map (\<lambda>(i, nw). if i = selfId st then (i, nw\<lparr>nw_base := (nw_base nw)\<lparr>ni_configVersion := version\<rparr>\<rparr>) else (i, nw))
       (nl_nodes l)\<rparr>"

definition finish_new_lease :: "op_env \<Rightarrow> NewLease \<Rightarrow> unit operation" where
  "finish_new_lease env l s =
     (let st = set_self l (snd s)
      in case Option.bind (map_of (nl_configs l) MGMTD) rbegin of
           None \<Rightarrow> (Crash, fst s, st)
         | Some (_, cfg) \<Rightarrow>
             (case (if cfg_configVersion cfg \<noteq> 0 then updateSelfConfig env cfg st else Err (Common kInvalidArg)) of
                Crash \<Rightarrow> (Crash, fst s, st)
              | Ret _ \<Rightarrow> (let l' = set_self_config (cfg_configVersion cfg) st l
                         in (Ret (), fst s, reset_from env l' (set_self l' st)))
              | _ \<Rightarrow> (Ret (), fst s, reset_from env l st)))"

definition onNewLease :: "op_env \<Rightarrow> (UtcTime \<Rightarrow> nat \<Rightarrow> status option) \<Rightarrow> unit operation" where
  "onNewLease env fails s =
     (case withReadWriteTxn env (snd s) (new_lease_handler env fails) True (fst s, initial_NewLease (snd s)) of
        (Ret _, kv, l) \<Rightarrow> finish_new_lease env l (kv, snd s)
      | (r, kv, l) \<Rightarrow> (r, kv, set_self l (snd s)))"

subsection \<open>Extending the lease\<close>

text \<open>\<open>rv\<close> is the release version of the running build.\<close>

definition extend_lease_handler ::
  "ReleaseVersion \<Rightarrow> MgmtdState \<Rightarrow> UtcTime \<Rightarrow> kv \<times> unit \<Rightarrow> MgmtdLeaseInfo option outcome \<times> kv \<times> unit" where
  "extend_lease_handler rv st now s =
     (case loadNodeInfo (selfId st) (fst s) of
        Inl e \<Rightarrow> (Err e, s)
      | Inr self \<Rightarrow>
          if (case self of None \<Rightarrow> False | Some n \<Rightarrow> findTag (pn_tags n) kDisabledTagKey \<noteq> - 1) then (Ret None, s)
          else (case extendLease (ms_selfPersistentNodeInfo st) (mc_lease_length (ms_config st)) now rv
                       (mc_extend_lease_check_release_version (ms_config st)) (fst s) of
                  (Ret lease, kv') \<Rightarrow> (Ret (Some lease), kv', ())
                | (Err e, kv') \<Rightarrow> (Err e, kv', ())
                | (Crash, kv') \<Rightarrow> (Crash, kv', ())
                | (Pending, kv') \<Rightarrow> (Pending, kv', ())))"

definition lease_changed :: "LeaseInfo \<Rightarrow> MgmtdLeaseInfo \<Rightarrow> bool" where
  "lease_changed leaseInfo newLease \<longleftrightarrow>
     (case lease_lease leaseInfo of
        None \<Rightarrow> True
      | Some lease \<Rightarrow> pn_nodeId (li_primary lease) \<noteq> pn_nodeId (li_primary newLease) \<or>
          li_leaseStart lease \<noteq> li_leaseStart newLease \<or> lease_bootstrapping leaseInfo)"

definition take_lease :: "NodeId \<Rightarrow> MgmtdLeaseInfo option \<Rightarrow> LeaseInfo \<Rightarrow> LeaseInfo" where
  "take_lease self res leaseInfo =
     (case res of
        None \<Rightarrow> leaseInfo\<lparr>lease_lease := None\<rparr>
      | Some newLease \<Rightarrow> \<lparr>lease_lease = Some newLease,
          lease_bootstrapping = (pn_nodeId (li_primary newLease) = self \<and> lease_changed leaseInfo newLease)\<rparr>)"

definition set_lease :: "LeaseInfo \<Rightarrow> MgmtdState \<Rightarrow> MgmtdState" where
  "set_lease leaseInfo st = st\<lparr>ms_data := (ms_data st)\<lparr>md_lease := leaseInfo\<rparr>\<rparr>"

text \<open>The transaction of the extension has the attempts of \<open>env\<close>, that of the reload the attempts of \<open>env'\<close>.\<close>

definition ExtendLease ::
  "op_env \<Rightarrow> op_env \<Rightarrow> ReleaseVersion \<Rightarrow> (UtcTime \<Rightarrow> nat \<Rightarrow> status option) \<Rightarrow> unit operation" where
  "ExtendLease env env' rv fails s =
     (case withReadWriteTxn env (snd s) (extend_lease_handler rv (snd s)) False (fst s, ()) of
        (Ret res, kv, _) \<Rightarrow>
          (let leaseInfo = take_lease (selfId (snd s)) res (md_lease (ms_data (snd s)));
               s' = (kv, set_lease leaseInfo (snd s))
           in if res \<noteq> None \<and> lease_bootstrapping leaseInfo then onNewLease env' fails s' else (Ret (), s'))
      | (Err e, kv, _) \<Rightarrow> (Err e, kv, snd s)
      | (Crash, kv, _) \<Rightarrow> (Crash, kv, snd s)
      | (Pending, kv, _) \<Rightarrow> (Pending, kv, snd s))"

section \<open>The reload\<close>

subsection \<open>Maps built in a loop\<close>

lemma map_of_rev_distinct:
  assumes "distinct (map fst xs)"
  shows "map_of (rev xs) = map_of xs"
proof
  fix k
  have "map_of (rev xs) k = Some v \<longleftrightarrow> map_of xs k = Some v" for v
    using assms map_of_eq_Some_iff [of xs k v] map_of_eq_Some_iff [of "rev xs" k v] by (simp add: rev_map [symmetric])
  then show "map_of (rev xs) k = map_of xs k"
    by (metis not_None_eq)
qed

text \<open>A loop that assigns to the entries of a map.\<close>

definition assign_all :: "('a \<Rightarrow> 'k) \<Rightarrow> ('a \<Rightarrow> 'v) \<Rightarrow> 'a list \<Rightarrow> ('k \<rightharpoonup> 'v) \<Rightarrow> 'k \<rightharpoonup> 'v" where
  "assign_all g f xs m = fold (\<lambda>x m. m(g x \<mapsto> f x)) xs m"

lemma assign_all_simps [simp]:
  "assign_all g f [] m = m" "assign_all g f (x # xs) m = assign_all g f xs (m(g x \<mapsto> f x))"
  by (simp_all add: assign_all_def)

lemma assign_all_eq:
  assumes "distinct (map g xs)"
  shows "assign_all g f xs m = m ++ map_of (map (\<lambda>x. (g x, f x)) xs)"
proof -
  have "assign_all g f xs m = m ++ map_of (rev (map (\<lambda>x. (g x, f x)) xs))"
  proof (induction xs arbitrary: m)
    case (Cons x xs)
    then show ?case by (simp del: fun_upd_apply)
  qed simp
  moreover have "distinct (map fst (map (\<lambda>x. (g x, f x)) xs))"
    using assms by (simp add: comp_def)
  ultimately show ?thesis by (simp add: map_of_rev_distinct)
qed

lemma map_of_fold_update: "map_of (fold (\<lambda>x. AList.update (g x) (f x)) xs m) = assign_all g f xs (map_of m)"
  by (induction xs arbitrary: m) (simp_all add: update_conv' fun_upd_def)

lemma distinct_fold_update:
  "distinct (map fst m) \<Longrightarrow> distinct (map fst (fold (\<lambda>x. AList.update (g x) (f x)) xs m))"
  by (induction xs arbitrary: m) (auto simp: distinct_update)

lemma put_by_assign: "put_by g xs m = assign_all g (\<lambda>x. x) xs m"
  by (induction xs arbitrary: m) simp_all

subsection \<open>Versioned maps\<close>

definition vtable :: "('k \<times> ('v::linorder, 'x) omap) list \<Rightarrow> 'k \<times> 'v \<rightharpoonup> 'x" where
  "vtable m = (\<lambda>(k, v). Option.bind (map_of m k) (\<lambda>vm. map_of vm v))"

definition vmaps_ok :: "('k \<times> ('v::linorder, 'x) omap) list \<Rightarrow> bool" where
  "vmaps_ok m \<longleftrightarrow> distinct (map fst m) \<and> (\<forall>k vm. map_of m k = Some vm \<longrightarrow> omap_wf vm \<and> vm \<noteq> [])"

lemma vtable_put: "vtable (put_entry k v x m) = (vtable m)((k, v) \<mapsto> x)"
  by (auto simp: vtable_def put_entry_def update_conv' fun_eq_iff split: option.splits)

lemma vmaps_put: "vmaps_ok m \<Longrightarrow> vmaps_ok (put_entry k v x m)"
  by (auto simp: vmaps_ok_def put_entry_def update_conv' distinct_update split: option.splits)

lemma dom_put: "map_of (put_entry k v x m) i = None \<longleftrightarrow> i \<noteq> k \<and> map_of m i = None"
  by (auto simp: put_entry_def update_conv')

lemma vtable_puts: "vtable (fold (\<lambda>y. put_entry (k y) (v y) (f y)) ys m) = assign_all (\<lambda>y. (k y, v y)) f ys (vtable m)"
  by (induction ys arbitrary: m) (simp_all add: vtable_put)

lemma vmaps_puts: "vmaps_ok m \<Longrightarrow> vmaps_ok (fold (\<lambda>y. put_entry (k y) (v y) (f y)) ys m)"
  by (induction ys arbitrary: m) (simp_all add: vmaps_put)

lemma dom_puts: "map_of m i \<noteq> None \<Longrightarrow> map_of (fold (\<lambda>y. put_entry (k y) (v y) (f y)) ys m) i \<noteq> None"
  by (induction ys arbitrary: m) (simp_all add: dom_put del: not_None_eq)

subsection \<open>Nodes\<close>

definition nodeMap_table :: "NodeMap \<Rightarrow> NodeId \<rightharpoonup> PersistentNodeInfo" where
  "nodeMap_table nm i = map_option (\<lambda>nw. toPersistentNode (nw_base nw)) (map_of nm i)"

definition nodeMap_ok :: "NodeMap \<Rightarrow> bool" where
  "nodeMap_ok nm \<longleftrightarrow> distinct (map fst nm) \<and> (\<forall>i nw. map_of nm i = Some nw \<longrightarrow> app_nodeId (ni_app (nw_base nw)) = i)"

lemma toPersistentNode_toNode [simp]: "toPersistentNode (toNode n) = n" "app_nodeId (ni_app (toNode n)) = pn_nodeId n"
  by (simp_all add: toPersistentNode_def toNode_def)

lemma put_node_base_ok:
  "nodeMap_ok nm \<Longrightarrow> nodeMap_ok (put_node_base now info nm)"
  "nodeMap_table (put_node_base now info nm) = (nodeMap_table nm)(app_nodeId (ni_app info) \<mapsto> toPersistentNode info)"
  by (auto simp: nodeMap_ok_def nodeMap_table_def put_node_base_def Let_def update_conv' distinct_update NodeInfoWrapper_of_def
      fun_eq_iff split: option.splits)

text \<open>Changing the entries of a node map in place.\<close>

lemma map_of_in_place: "map_of (map (\<lambda>(i, nw). if i = j then (i, f nw) else (i, nw)) nm) i =
    (if i = j then map_option f (map_of nm i) else map_of nm i)"
  by (induction nm) auto

lemma fst_in_place: "map fst (map (\<lambda>(i, nw). if i = j then (i, f nw) else (i, nw)) nm) = map fst nm"
  by (induction nm) auto

lemma in_place_ok:
  assumes "\<And>nw. toPersistentNode (nw_base (f nw)) = toPersistentNode (nw_base nw)"
  shows "nodeMap_ok nm \<Longrightarrow> nodeMap_ok (map (\<lambda>(i, nw). if i = j then (i, f nw) else (i, nw)) nm)"
    "nodeMap_table (map (\<lambda>(i, nw). if i = j then (i, f nw) else (i, nw)) nm) = nodeMap_table nm"
proof -
  have "app_nodeId (ni_app (nw_base (f nw))) = app_nodeId (ni_app (nw_base nw))" for nw
    using arg_cong [OF assms, of pn_nodeId nw] by (simp add: toPersistentNode_def)
  then show "nodeMap_ok nm \<Longrightarrow> nodeMap_ok (map (\<lambda>(i, nw). if i = j then (i, f nw) else (i, nw)) nm)"
    unfolding nodeMap_ok_def fst_in_place map_of_in_place by (auto split: if_splits)
  show "nodeMap_table (map (\<lambda>(i, nw). if i = j then (i, f nw) else (i, nw)) nm) = nodeMap_table nm"
    unfolding nodeMap_table_def map_of_in_place by (auto simp: fun_eq_iff option.map_comp comp_def assms)
qed

lemma addNode_ok:
  "nodeMap_ok nm \<Longrightarrow> nodeMap_ok (addNode env info nm)"
  "nodeMap_table (addNode env info nm) = (nodeMap_table nm)(app_nodeId (ni_app info) \<mapsto> toPersistentNode info)"
  by (simp_all add: addNode_def Let_def in_place_ok put_node_base_ok recordStatusChange_def)

lemma add_nodes_ok:
  "nodeMap_ok nm \<Longrightarrow> nodeMap_ok (fold (\<lambda>n. addNode env (toNode n)) ns nm) \<and>
   nodeMap_table (fold (\<lambda>n. addNode env (toNode n)) ns nm) = put_by pn_nodeId ns (nodeMap_table nm)"
  by (induction ns arbitrary: nm) (auto simp: addNode_ok)

subsection \<open>Targets\<close>

definition chain_targets :: "ChainInfo list \<Rightarrow> (ChainInfo \<times> ChainTargetInfo) list" where
  "chain_targets cs = concat (map (\<lambda>c. map (Pair c) (ci_targets c)) cs)"

definition fresh_target :: "SteadyTime \<Rightarrow> ChainInfo \<times> ChainTargetInfo \<Rightarrow> TargetInfoW" where
  "fresh_target now ct = TargetInfoW_of (makeTargetInfo (ci_chainId (fst ct)) (snd ct)) now now"

lemma add_targets_flat:
  "fold (add_targets now) cs T = fold (\<lambda>ct. AList.update (cti_targetId (snd ct)) (fresh_target now ct)) (chain_targets cs) T"
proof (induction cs arbitrary: T)
  case (Cons c cs)
  have "add_targets now c T = fold (\<lambda>ct. AList.update (cti_targetId (snd ct)) (fresh_target now ct)) (map (Pair c) (ci_targets c)) T"
    by (simp add: add_targets_def fold_map comp_def fresh_target_def)
  with Cons show ?case by (simp add: chain_targets_def)
qed (simp add: chain_targets_def)

lemma chain_targets_ids: "map (\<lambda>ct. cti_targetId (snd ct)) (chain_targets cs) = concat (map chain_ids cs)"
  by (induction cs) (simp_all add: chain_targets_def chain_ids_def comp_def)

text \<open>What the tables have to satisfy: every chain is well-formed, no target is in two chains, and only
  locations of targets of the chains are stored. The invariant says so of the store of a primary.\<close>

definition stored_ok :: "abs_store \<Rightarrow> bool" where
  "stored_ok a \<longleftrightarrow>
     (\<forall>cid c. st_chains a cid = Some c \<longrightarrow> distinct (chain_ids c) \<and> chain_valid c) \<and>
     (\<forall>cid d c k tid. st_chains a cid = Some c \<longrightarrow> st_chains a d = Some k \<longrightarrow>
        tid \<in> set (chain_ids c) \<longrightarrow> tid \<in> set (chain_ids k) \<longrightarrow> cid = d) \<and>
     locations_ok (st_targets a) (st_chains a)"

lemma mgmtd_inv_stored_ok:
  assumes inv: "mgmtd_inv s"
  shows "stored_ok (abs_store (fst s))"
proof -
  have coh: "coherent (map_of (ri_chains (routing s))) (map_of (ri_targets (routing s)))"
    and valid: "\<And>cid c. map_of (ri_chains (routing s)) cid = Some c \<Longrightarrow> chain_valid c"
    using mgmtd_invD(2) [OF inv] by (auto simp: ri_wf_def)
  have "cid = d" if "map_of (ri_chains (routing s)) cid = Some c" "map_of (ri_chains (routing s)) d = Some k"
    "tid \<in> set (chain_ids c)" "tid \<in> set (chain_ids k)" for cid d c k tid
    using coherent_chain_ids [OF coh that(1,3)] coherent_chain_ids [OF coh that(2,4)] by auto
  then show ?thesis
    unfolding stored_ok_def mgmtd_invD(7) [OF inv]
    using coherent_chainD(2) [OF coh] valid mgmtd_invD(12) [OF inv] by blast
qed

lemma distinct_all_ids:
  assumes "distinct (map ci_chainId cs)" and "\<forall>c \<in> set cs. distinct (chain_ids c)"
    and "\<forall>c \<in> set cs. \<forall>k \<in> set cs. \<forall>tid \<in> set (chain_ids c). tid \<in> set (chain_ids k) \<longrightarrow> ci_chainId c = ci_chainId k"
  shows "distinct (concat (map chain_ids cs))"
  using assms
proof (induction cs)
  case (Cons c cs)
  have new: "ci_chainId c \<notin> ci_chainId ` set cs" using Cons.prems(1) by simp
  have "tid \<notin> set (chain_ids k)" if "tid \<in> set (chain_ids c)" "k \<in> set cs" for tid k
  proof
    assume "tid \<in> set (chain_ids k)"
    with Cons.prems(3) that have "ci_chainId c = ci_chainId k" by (meson list.set_intros)
    with new that(2) show False by simp
  qed
  then have "set (chain_ids c) \<inter> set (concat (map chain_ids cs)) = {}"
    by auto
  moreover have "distinct (concat (map chain_ids cs))"
  proof (rule Cons.IH)
    show "\<forall>c \<in> set cs. \<forall>k \<in> set cs. \<forall>tid \<in> set (chain_ids c). tid \<in> set (chain_ids k) \<longrightarrow> ci_chainId c = ci_chainId k"
      using Cons.prems(3) by (meson list.set_intros(2))
  qed (use Cons.prems(1,2) in simp_all)
  ultimately show ?case using Cons.prems(2) by simp
qed simp

lemma stored_ids_distinct:
  assumes ok: "stored_ok a" and idx: "map_of (map (\<lambda>c. (ci_chainId c, c)) cs) = st_chains a" and dist: "distinct (map ci_chainId cs)"
  shows "distinct (concat (map chain_ids cs))"
proof (rule distinct_all_ids [OF dist])
  have stored: "st_chains a (ci_chainId c) = Some c" if "c \<in> set cs" for c
    unfolding idx [symmetric] using dist that by (intro map_of_is_SomeI) (auto simp: comp_def)
  show "\<forall>c \<in> set cs. distinct (chain_ids c)"
    using stored ok unfolding stored_ok_def by blast
  show "\<forall>c \<in> set cs. \<forall>k \<in> set cs. \<forall>tid \<in> set (chain_ids c). tid \<in> set (chain_ids k) \<longrightarrow> ci_chainId c = ci_chainId k"
    using stored ok unfolding stored_ok_def by blast
qed

text \<open>The targets that the reload makes from the stored chains agree with them.\<close>

lemma chain_targets_set: "(c, t) \<in> set (chain_targets cs) \<longleftrightarrow> c \<in> set cs \<and> t \<in> set (ci_targets c)"
  by (auto simp: chain_targets_def)

lemma loaded_targets:
  assumes ok: "stored_ok a" and idx: "map_of (map (\<lambda>c. (ci_chainId c, c)) cs) = st_chains a" and dist: "distinct (map ci_chainId cs)"
  shows "map_of (fold (add_targets now) cs []) tid = Some tw \<longleftrightarrow>
    (\<exists>c t. st_chains a (ci_chainId c) = Some c \<and> t \<in> set (ci_targets c) \<and> cti_targetId t = tid \<and> tw = fresh_target now (c, t))"
proof -
  have ids: "distinct (map (\<lambda>ct. cti_targetId (snd ct)) (chain_targets cs))"
    unfolding chain_targets_ids by (rule stored_ids_distinct [OF assms])
  have stored: "st_chains a (ci_chainId c) = Some c \<longleftrightarrow> c \<in> set cs" for c
    unfolding idx [symmetric] using dist map_of_eq_Some_iff [of "map (\<lambda>c. (ci_chainId c, c)) cs" "ci_chainId c" c]
    by (auto simp: comp_def)
  have "map_of (fold (add_targets now) cs []) = map_of (map (\<lambda>ct. (cti_targetId (snd ct), fresh_target now ct)) (chain_targets cs))"
    unfolding add_targets_flat map_of_fold_update assign_all_eq [OF ids] by simp
  moreover have "distinct (map fst (map (\<lambda>ct. (cti_targetId (snd ct), fresh_target now ct)) (chain_targets cs)))"
    using ids by (simp add: comp_def)
  ultimately have "map_of (fold (add_targets now) cs []) tid = Some tw \<longleftrightarrow>
      (tid, tw) \<in> set (map (\<lambda>ct. (cti_targetId (snd ct), fresh_target now ct)) (chain_targets cs))"
    by (simp only: map_of_eq_Some_iff)
  also have "\<dots> \<longleftrightarrow> (\<exists>c t. (c, t) \<in> set (chain_targets cs) \<and> cti_targetId t = tid \<and> tw = fresh_target now (c, t))"
    by force
  finally show ?thesis
    unfolding chain_targets_set stored by blast
qed

lemma fresh_target_simps [simp]:
  "ti_targetId (tw_base (fresh_target now ct)) = cti_targetId (snd ct)"
  "ti_chainId (tw_base (fresh_target now ct)) = ci_chainId (fst ct)"
  "ti_publicState (tw_base (fresh_target now ct)) = cti_publicState (snd ct)"
  by (simp_all add: fresh_target_def TargetInfoW_of_def makeTargetInfo_def)

lemma loaded_coherent:
  assumes ok: "stored_ok a" and ids: "\<And>cid c. st_chains a cid = Some c \<Longrightarrow> ci_chainId c = cid"
    and T: "\<And>tid tw. T tid = Some tw \<longleftrightarrow>
      (\<exists>c t. st_chains a (ci_chainId c) = Some c \<and> t \<in> set (ci_targets c) \<and> cti_targetId t = tid \<and> tw = fresh_target now (c, t))"
  shows "coherent (st_chains a) T"
  unfolding coherent_def
proof (intro conjI allI impI ballI)
  fix cid c
  assume c: "st_chains a cid = Some c"
  show "ci_chainId c = cid" by (rule ids [OF c])
  show "distinct (chain_ids c)" using ok c unfolding stored_ok_def by blast
  fix cti
  assume "cti \<in> set (ci_targets c)"
  then have "T (cti_targetId cti) = Some (fresh_target now (c, cti))"
    using c ids [OF c] T by blast
  then show "\<exists>tw. T (cti_targetId cti) = Some tw \<and> ti_chainId (tw_base tw) = cid \<and> ti_publicState (tw_base tw) = cti_publicState cti"
    using ids [OF c] by simp
next
  fix tid tw
  assume "T tid = Some tw"
  then obtain c t where ct: "st_chains a (ci_chainId c) = Some c" "t \<in> set (ci_targets c)" "cti_targetId t = tid" "tw = fresh_target now (c, t)"
    using T by blast
  then show "ti_targetId (tw_base tw) = tid" by simp
  show "\<exists>c. st_chains a (ti_chainId (tw_base tw)) = Some c \<and> tid \<in> set (chain_ids c)"
    using ct by (auto simp: chain_ids_def)
qed

subsection \<open>What the handler loads\<close>

definition stored_version_of :: "abs_store \<Rightarrow> RoutingInfoVersion" where
  "stored_version_of a = (case st_version a of None \<Rightarrow> 0 | Some v \<Rightarrow> v)"

text \<open>The captured variables hold what the tables hold; version 0 of a configuration is always there.\<close>

definition configs_loaded :: "abs_store \<Rightarrow> NewLease \<Rightarrow> bool" where
  "configs_loaded a l \<longleftrightarrow> vmaps_ok (nl_configs l) \<and> (\<forall>ty. map_of (nl_configs l) ty \<noteq> None) \<and>
     (\<forall>ty v. v \<noteq> 0 \<longrightarrow> vtable (nl_configs l) (ty, v) = st_configs a (ty, v)) \<and>
     (\<forall>ty v c. vtable (nl_configs l) (ty, v) = Some c \<longrightarrow> cfg_configVersion c = v)"

definition chains_loaded :: "SteadyTime \<Rightarrow> abs_store \<Rightarrow> NewLease \<Rightarrow> bool" where
  "chains_loaded now a l \<longleftrightarrow> distinct (map fst (nl_chains l)) \<and> distinct (map fst (nl_targets l)) \<and>
     map_of (nl_chains l) = st_chains a \<and> coherent (st_chains a) (map_of (nl_targets l))"

definition loaded :: "op_env \<Rightarrow> abs_store \<Rightarrow> NewLease \<Rightarrow> bool" where
  "loaded env a l \<longleftrightarrow> nl_version l = stored_version_of a + 1 \<and>
     nodeMap_ok (nl_nodes l) \<and> nodeMap_table (nl_nodes l) = st_nodes a \<and> configs_loaded a l \<and>
     vmaps_ok (nl_chainTables l) \<and> vtable (nl_chainTables l) = st_chainTables a \<and> chains_loaded (env_steadyNow env) a l \<and>
     distinct (map fst (nl_tags l)) \<and> map_of (nl_tags l) = st_tags a"

lemma load_version_ok: "kv_ok kv \<Longrightarrow> load_version kv l = Inr (l\<lparr>nl_version := stored_version_of (abs_store kv) + 1\<rparr>)"
  by (simp add: load_version_def loadRoutingInfoVersion_ok stored_version_of_def nextVersion_def)

lemma load_nodes_ok:
  assumes "kv_ok kv" and "nl_nodes l = []"
  shows "\<exists>nm. load_nodes env kv l = Inr (l\<lparr>nl_nodes := nm\<rparr>) \<and> nodeMap_ok nm \<and> nodeMap_table nm = st_nodes (abs_store kv)"
proof -
  obtain ns where ns: "loadAllNodes kv = Inr ns" "map_of (map (\<lambda>n. (pn_nodeId n, n)) ns) = st_nodes (abs_store kv)"
    "distinct (map pn_nodeId ns)"
    using loadAllNodes_ok [OF assms(1)] by blast
  have "nodeMap_ok []" "nodeMap_table [] = Map.empty"
    by (simp_all add: nodeMap_ok_def nodeMap_table_def fun_eq_iff)
  with add_nodes_ok [of "[]" env ns] ns assms(2) show ?thesis
    by (intro exI [of _ "fold (\<lambda>n. addNode env (toNode n)) ns []"]) (simp add: load_nodes_def put_by_assign assign_all_eq)
qed

lemma initial_configs:
  "vmaps_ok (nl_configs (initial_NewLease st))" "map_of (nl_configs (initial_NewLease st)) ty \<noteq> None"
  "vtable (nl_configs (initial_NewLease st)) (ty, v) =
    (if v = 0 then Some \<lparr>cfg_configVersion = 0, cfg_content = [], cfg_desc = []\<rparr> else None)"
  by (cases ty; auto simp: initial_NewLease_def all_NodeTypes_def vmaps_ok_def vtable_def omap_wf_Cons)+

lemma load_configs_ok:
  assumes ok: "kv_ok kv" and "nl_configs l = nl_configs (initial_NewLease st)"
  shows "\<exists>m. load_configs kv l = Inr (l\<lparr>nl_configs := m\<rparr>) \<and> configs_loaded (abs_store kv) (l\<lparr>nl_configs := m\<rparr>)"
proof -
  obtain cs where cs: "loadAllConfigs kv = Inr cs"
    "map_of (map (\<lambda>(ty, c). ((ty, cfg_configVersion c), c)) cs) = st_configs (abs_store kv)"
    "distinct (map (\<lambda>(ty, c). (ty, cfg_configVersion c)) cs)"
    using loadAllConfigs_ok [OF ok] by blast
  let ?put = "\<lambda>x. put_entry (fst x) (cfg_configVersion (snd x)) (snd x)" and ?m0 = "nl_configs (initial_NewLease st)"
  have idx: "map_of (map (\<lambda>x. ((fst x, cfg_configVersion (snd x)), snd x)) cs) = st_configs (abs_store kv)"
    and dist: "distinct (map (\<lambda>x. (fst x, cfg_configVersion (snd x))) cs)"
    using cs(2,3) by (simp_all add: case_prod_unfold)
  have tab: "vtable (fold ?put cs ?m0) = vtable ?m0 ++ st_configs (abs_store kv)"
    unfolding vtable_puts assign_all_eq [OF dist] idx ..
  have "cfg_configVersion c = v" if "st_configs (abs_store kv) (ty, v) = Some c" for ty v c
    using that unfolding idx [symmetric] by (auto dest: map_of_SomeD)
  then have "cfg_configVersion c = v" if "vtable (fold ?put cs ?m0) (ty, v) = Some c" for ty v c
    using that unfolding tab by (auto simp: map_add_def initial_configs(3) split: option.splits if_splits)
  moreover have "vtable (fold ?put cs ?m0) (ty, v) = st_configs (abs_store kv) (ty, v)" if "v \<noteq> 0" for ty v
    unfolding tab using that by (simp add: map_add_def initial_configs(3) split: option.split)
  moreover have "vmaps_ok (fold ?put cs ?m0)"
    by (rule vmaps_puts [OF initial_configs(1)])
  moreover have "map_of (fold ?put cs ?m0) ty \<noteq> None" for ty
    by (rule dom_puts [OF initial_configs(2)])
  ultimately show ?thesis
    using cs(1) assms(2)
    by (intro exI [of _ "fold ?put cs ?m0"]) (simp add: load_configs_def configs_loaded_def case_prod_unfold)
qed

lemma load_chainTables_ok:
  assumes ok: "kv_ok kv" and "nl_chainTables l = []"
  shows "\<exists>m. load_chainTables kv l = Inr (l\<lparr>nl_chainTables := m\<rparr>) \<and> vmaps_ok m \<and> vtable m = st_chainTables (abs_store kv)"
proof -
  obtain ts where ts: "loadAllChainTables kv = Inr ts"
    "map_of (map (\<lambda>t. ((ct_chainTableId t, ct_chainTableVersion t), t)) ts) = st_chainTables (abs_store kv)"
    "distinct (map (\<lambda>t. (ct_chainTableId t, ct_chainTableVersion t)) ts)"
    using loadAllChainTables_ok [OF ok] by blast
  have "vtable (fold (\<lambda>t. put_entry (ct_chainTableId t) (ct_chainTableVersion t) t) ts []) = st_chainTables (abs_store kv)"
    unfolding vtable_puts assign_all_eq [OF ts(3)] ts(2) by (simp add: vtable_def map_add_def fun_eq_iff split: option.split)
  moreover have "vmaps_ok (fold (\<lambda>t. put_entry (ct_chainTableId t) (ct_chainTableVersion t) t) ts [])"
    by (rule vmaps_puts) (simp add: vmaps_ok_def)
  ultimately show ?thesis
    using ts(1) assms(2)
    by (intro exI [of _ "fold (\<lambda>t. put_entry (ct_chainTableId t) (ct_chainTableVersion t) t) ts []"])
      (simp add: load_chainTables_def)
qed

lemma stored_chain_id:
  assumes "kv_ok kv" and "st_chains (abs_store kv) cid = Some c"
  shows "ci_chainId c = cid"
proof -
  obtain cs where "map_of (map (\<lambda>c. (ci_chainId c, c)) cs) = st_chains (abs_store kv)"
    using loadAllChains_ok [OF assms(1)] by blast
  with assms(2) have "map_of (map (\<lambda>c. (ci_chainId c, c)) cs) cid = Some c" by simp
  then show ?thesis by (auto dest: map_of_SomeD)
qed

lemma load_chains_ok:
  assumes ok: "kv_ok kv" and stored: "stored_ok (abs_store kv)" and "nl_chains l = []" "nl_targets l = []"
  shows "\<exists>C T. load_chains env kv l = Inr (l\<lparr>nl_chains := C, nl_targets := T\<rparr>) \<and>
    chains_loaded (env_steadyNow env) (abs_store kv) (l\<lparr>nl_chains := C, nl_targets := T\<rparr>)"
proof -
  obtain cs where cs: "loadAllChains kv = Inr cs" "map_of (map (\<lambda>c. (ci_chainId c, c)) cs) = st_chains (abs_store kv)"
    "distinct (map ci_chainId cs)"
    using loadAllChains_ok [OF ok] by blast
  let ?C = "fold (\<lambda>c. AList.update (ci_chainId c) c) cs []" and ?T = "fold (add_targets (env_steadyNow env)) cs []"
  have "map_of ?C = st_chains (abs_store kv)"
    unfolding map_of_fold_update assign_all_eq [OF cs(3)] cs(2) by simp
  moreover have "coherent (st_chains (abs_store kv)) (map_of ?T)"
    by (rule loaded_coherent [OF stored stored_chain_id [OF ok] loaded_targets [OF stored cs(2,3)]])
  moreover have "distinct (map fst ?C)" "distinct (map fst ?T)"
    unfolding add_targets_flat by (rule distinct_fold_update; simp)+
  ultimately show ?thesis
    using cs(1) assms(3,4) by (intro exI [of _ ?C] exI [of _ ?T]) (simp add: load_chains_def chains_loaded_def)
qed

lemma load_tags_ok:
  assumes ok: "kv_ok kv" and "nl_tags l = []"
  shows "\<exists>m. load_tags kv l = Inr (l\<lparr>nl_tags := m\<rparr>) \<and> distinct (map fst m) \<and> map_of m = st_tags (abs_store kv)"
proof -
  obtain ts where ts: "loadAllUniversalTags kv = Inr ts" "map_of ts = st_tags (abs_store kv)" "distinct (map fst ts)"
    using loadAllUniversalTags_ok [OF ok] by blast
  have "map_of (fold (\<lambda>x. AList.update (fst x) (snd x)) ts []) = st_tags (abs_store kv)"
    unfolding map_of_fold_update assign_all_eq [OF ts(3)] by (simp add: ts(2))
  moreover have "distinct (map fst (fold (\<lambda>x. AList.update (fst x) (snd x)) ts []))"
    by (rule distinct_fold_update) simp
  ultimately show ?thesis
    using ts(1) assms(2)
    by (intro exI [of _ "fold (\<lambda>x. AList.update (fst x) (snd x)) ts []"]) (simp add: load_tags_def case_prod_unfold)
qed

lemma load_all_ok:
  assumes ok: "kv_ok kv" and stored: "stored_ok (abs_store kv)" and fails: "\<And>i. fails i = None"
  shows "\<exists>l. load_all env fails kv (initial_NewLease st) = (None, l) \<and> loaded env (abs_store kv) l \<and>
    nl_self l = ms_selfNodeInfo st \<and> nl_selfPersistent l = ms_selfPersistentNodeInfo st"
proof -
  let ?l0 = "initial_NewLease st"
  let ?l1 = "?l0\<lparr>nl_version := stored_version_of (abs_store kv) + 1\<rparr>"
  have empty: "nl_nodes ?l0 = []" "nl_chainTables ?l0 = []" "nl_chains ?l0 = []" "nl_targets ?l0 = []" "nl_tags ?l0 = []"
    "nl_self ?l0 = ms_selfNodeInfo st" "nl_selfPersistent ?l0 = ms_selfPersistentNodeInfo st"
    by (simp_all add: initial_NewLease_def)
  obtain N where N: "load_nodes env kv ?l1 = Inr (?l1\<lparr>nl_nodes := N\<rparr>)" "nodeMap_ok N" "nodeMap_table N = st_nodes (abs_store kv)"
    using load_nodes_ok [OF ok, of ?l1 env] empty by auto
  let ?l2 = "?l1\<lparr>nl_nodes := N\<rparr>"
  obtain G where G: "load_configs kv ?l2 = Inr (?l2\<lparr>nl_configs := G\<rparr>)" "configs_loaded (abs_store kv) (?l2\<lparr>nl_configs := G\<rparr>)"
    using load_configs_ok [OF ok, of ?l2 st] by auto
  let ?l3 = "?l2\<lparr>nl_configs := G\<rparr>"
  obtain t where t: "load_chainTables kv ?l3 = Inr (?l3\<lparr>nl_chainTables := t\<rparr>)" "vmaps_ok t" "vtable t = st_chainTables (abs_store kv)"
    using load_chainTables_ok [OF ok, of ?l3] empty by auto
  let ?l4 = "?l3\<lparr>nl_chainTables := t\<rparr>"
  obtain C T where C: "load_chains env kv ?l4 = Inr (?l4\<lparr>nl_chains := C, nl_targets := T\<rparr>)"
    "chains_loaded (env_steadyNow env) (abs_store kv) (?l4\<lparr>nl_chains := C, nl_targets := T\<rparr>)"
    using load_chains_ok [OF ok stored, of ?l4 env] empty by auto
  let ?l5 = "?l4\<lparr>nl_chains := C, nl_targets := T\<rparr>"
  obtain U where U: "load_tags kv ?l5 = Inr (?l5\<lparr>nl_tags := U\<rparr>)" "distinct (map fst U)" "map_of U = st_tags (abs_store kv)"
    using load_tags_ok [OF ok, of ?l5] empty by auto
  have "load_all env fails kv ?l0 = (None, ?l5\<lparr>nl_tags := U\<rparr>)"
    unfolding load_all_def by (simp add: try_load_def fails load_version_ok [OF ok] N(1) G(1) t(1) C(1) U(1))
  moreover have "loaded env (abs_store kv) (?l5\<lparr>nl_tags := U\<rparr>)"
    using N(2,3) G(2) t(2,3) C(2) U(2,3) by (simp add: loaded_def configs_loaded_def chains_loaded_def)
  ultimately show ?thesis
    using empty by (intro exI [of _ "?l5\<lparr>nl_tags := U\<rparr>"]) simp
qed

subsection \<open>The new primary's data\<close>

text \<open>The variables after the handler: as loaded, with the manager itself among the nodes.\<close>

definition ready :: "kv \<Rightarrow> NewLease \<Rightarrow> bool" where
  "ready kv l \<longleftrightarrow> kv_ok kv \<and> st_version (abs_store kv) = Some (nl_version l) \<and>
     nodeMap_ok (nl_nodes l) \<and> nodeMap_table (nl_nodes l) = st_nodes (abs_store kv) \<and> configs_loaded (abs_store kv) l \<and>
     vmaps_ok (nl_chainTables l) \<and> vtable (nl_chainTables l) = st_chainTables (abs_store kv) \<and>
     distinct (map fst (nl_chains l)) \<and> distinct (map fst (nl_targets l)) \<and>
     map_of (nl_chains l) = st_chains (abs_store kv) \<and> coherent (st_chains (abs_store kv)) (map_of (nl_targets l)) \<and>
     map_of (nl_tags l) = st_tags (abs_store kv) \<and> stored_ok (abs_store kv)"

definition self_ok :: "NodeInfo \<Rightarrow> PersistentNodeInfo \<Rightarrow> bool" where
  "self_ok self persistent \<longleftrightarrow> persistent = toPersistentNode self"

lemma persist_self_ok:
  assumes ok: "kv_ok kv" "stored_ok (abs_store kv)" and l: "loaded env (abs_store kv) l" and self: "self_ok (nl_self l) (nl_selfPersistent l)"
    and ty: "\<And>n. st_nodes (abs_store kv) (app_nodeId (ni_app (nl_self l))) = Some n \<Longrightarrow> pn_type n = MGMTD"
  shows "\<exists>kv' l'. persistNewVersionAndSelfInfo env (kv, l) = (Ret (), kv', l') \<and> ready kv' l' \<and> self_ok (nl_self l') (nl_selfPersistent l') \<and>
    st_nodes (abs_store kv') (app_nodeId (ni_app (nl_self l))) = Some (nl_selfPersistent l') \<and>
    nl_version l' = nl_version l \<and> ni_app (nl_self l') = ni_app (nl_self l) \<and> ni_type (nl_self l') = ni_type (nl_self l) \<and> ni_configVersion (nl_self l') = ni_configVersion (nl_self l) \<and>
    abs_store kv' = (abs_store kv)\<lparr>st_version := Some (nl_version l), st_nodes := st_nodes (abs_store kv')\<rparr>"
proof -
  let ?i = "app_nodeId (ni_app (nl_self l))"
  have tab: "nodeMap_ok (nl_nodes l)" "nodeMap_table (nl_nodes l) = st_nodes (abs_store kv)"
    using l by (simp_all add: loaded_def)
  define l1 where "l1 = (case map_of (nl_nodes l) ?i of None \<Rightarrow> l
    | Some nw \<Rightarrow> l\<lparr>nl_self := (nl_self l)\<lparr>ni_tags := ni_tags (nw_base nw)\<rparr>,
        nl_selfPersistent := (nl_selfPersistent l)\<lparr>pn_tags := ni_tags (nw_base nw)\<rparr>\<rparr>)"
  have self1: "self_ok (nl_self l1) (nl_selfPersistent l1)" "ni_app (nl_self l1) = ni_app (nl_self l)"
    "ni_type (nl_self l1) = ni_type (nl_self l)" "ni_configVersion (nl_self l1) = ni_configVersion (nl_self l)"
    using self by (auto simp: l1_def self_ok_def toPersistentNode_def split: option.split)
  have same: "nl_version l1 = nl_version l" "nl_nodes l1 = nl_nodes l" "nl_configs l1 = nl_configs l" "nl_chainTables l1 = nl_chainTables l"
    "nl_chains l1 = nl_chains l" "nl_targets l1 = nl_targets l" "nl_tags l1 = nl_tags l"
    by (auto simp: l1_def split: option.split)
  have pid: "pn_nodeId (nl_selfPersistent l1) = ?i"
    using self1(1,2) by (simp add: self_ok_def toPersistentNode_def)
  define persist where "persist = (case map_of (nl_nodes l) ?i of None \<Rightarrow> True
    | Some nw \<Rightarrow> toPersistentNode (nw_base nw) \<noteq> nl_selfPersistent l1)"
  define kv' where "kv' = (if persist then storeNodeInfo (nl_selfPersistent l1) (storeRoutingInfoVersion (nl_version l) kv)
    else storeRoutingInfoVersion (nl_version l) kv)"
  define l' where "l' = l1\<lparr>nl_nodes := put_node_base (env_steadyNow env) (nl_self l1) (nl_nodes l1)\<rparr>"
  have no_crash: "(case map_of (nl_nodes l) ?i of None \<Rightarrow> False | Some nw \<Rightarrow> ni_type (nw_base nw) \<noteq> MGMTD) = False"
  proof (cases "map_of (nl_nodes l) ?i")
    case (Some nw)
    then have "st_nodes (abs_store kv) ?i = Some (toPersistentNode (nw_base nw))"
      unfolding tab(2) [symmetric] nodeMap_table_def by simp
    from ty [OF this] Some show ?thesis by (simp add: toPersistentNode_def)
  qed simp
  have "st_nodes (abs_store kv) ?i = Some (nl_selfPersistent l1)" if "\<not> persist"
    using that unfolding persist_def tab(2) [symmetric] nodeMap_table_def by (auto split: option.splits)
  then have nodes: "st_nodes (abs_store kv') = (st_nodes (abs_store kv))(?i \<mapsto> nl_selfPersistent l1)"
    by (auto simp: kv'_def pid fun_eq_iff)
  have run: "persistNewVersionAndSelfInfo env (kv, l) = (Ret (), kv', l')"
    unfolding persistNewVersionAndSelfInfo_def Let_def prod.case no_crash if_False l1_def [symmetric] persist_def [symmetric]
    by (simp add: kv'_def l'_def)
  have abs: "abs_store kv' = (abs_store kv)\<lparr>st_version := Some (nl_version l), st_nodes := st_nodes (abs_store kv')\<rparr>" "kv_ok kv'"
    using ok(1) by (simp_all add: kv'_def)
  have nm: "nodeMap_ok (nl_nodes l')" "nodeMap_table (nl_nodes l') = st_nodes (abs_store kv')"
    using put_node_base_ok(1) [OF tab(1)] put_node_base_ok(2) [of "env_steadyNow env" "nl_self l1" "nl_nodes l"] self1
    by (simp_all add: l'_def same nodes tab(2) self_ok_def)
  have tabs: "st_chains (abs_store kv') = st_chains (abs_store kv)" "st_targets (abs_store kv') = st_targets (abs_store kv)"
    "st_chainTables (abs_store kv') = st_chainTables (abs_store kv)" "st_tags (abs_store kv') = st_tags (abs_store kv)"
    "st_configs (abs_store kv') = st_configs (abs_store kv)" "st_version (abs_store kv') = Some (nl_version l)"
    by (simp_all add: kv'_def)
  have "ready kv' l'"
    unfolding ready_def stored_ok_def tabs configs_loaded_def
    using nm abs(2) l ok(2) by (simp add: l'_def same loaded_def configs_loaded_def chains_loaded_def stored_ok_def)
  with run abs(1) self1 show ?thesis
    by (intro exI [of _ kv'] exI [of _ l']) (simp add: l'_def same nodes)
qed

lemma map_of_reset: "map_of (map (\<lambda>(i, x). (i, f x)) m) = (\<lambda>i. map_option f (map_of m i))"
  by (induction m) auto

lemma reset_from_inv:
  assumes "ready kv l"
  shows "mgmtd_inv (kv, reset_from env l st)"
proof -
  let ?ri = "md_routingInfo (ms_data (reset_from env l st))" and ?now = "env_steadyNow env"
  have ri: "ri_nodeMap ?ri = map (\<lambda>(i, sn). (i, NodeInfoWrapper_of (nw_base sn) ?now)) (nl_nodes l)"
    "ri_chainTables ?ri = nl_chainTables l" "ri_chains ?ri = nl_chains l" "ri_targets ?ri = nl_targets l"
    "ri_routingInfoVersion ?ri = nl_version l" "ri_newBornChains ?ri = map (\<lambda>(cid, _). (cid, ?now)) (nl_chains l)"
    "ri_orphanTargetsByTargetId ?ri = []" "ri_orphanTargetsByNodeId ?ri = []"
    "md_configMap (ms_data (reset_from env l st)) = nl_configs l" "md_universalTagsMap (ms_data (reset_from env l st)) = nl_tags l"
    by (simp_all add: reset_from_def reset_data_def reset_routing_def)
  note r = assms [unfolded ready_def]
  have fst_map: "map fst (map (\<lambda>(i, x). (i, f x)) m) = map fst m" for f :: "'a \<Rightarrow> 'b" and m :: "('c \<times> 'a) list"
    by (induction m) auto
  have "newborn_ok (map_of (ri_newBornChains ?ri)) (map_of (ri_chains ?ri))"
    unfolding ri(3,6) map_of_reset by (simp add: newborn_ok_def)
  moreover have "chain_valid c" if "map_of (nl_chains l) cid = Some c" for cid c
    using r that unfolding stored_ok_def by auto
  moreover have "distinct (map fst (nl_nodes l))" "distinct (map fst (nl_chainTables l))"
    using r unfolding nodeMap_ok_def vmaps_ok_def by blast+
  ultimately have wf: "ri_wf ?ri"
    using r unfolding ri_wf_def ri_maps_wf_def ri fst_map by (simp add: orphans_ok_def)
  have nodes: "nodes_ok ?ri" "node_table ?ri = st_nodes (abs_store kv)"
    using r by (auto simp: nodes_ok_def node_table_def ri(1) map_of_reset nodeMap_ok_def nodeMap_table_def NodeInfoWrapper_of_def
        option.map_comp comp_def fun_eq_iff)
  have tables: "chainTable_table ?ri = st_chainTables (abs_store kv)"
    using r by (simp add: chainTable_table_def ri(2) vtable_def)
  have cfgs: "config_table (ms_data (reset_from env l st)) = vtable (nl_configs l)"
    by (simp add: config_table_def ri(9) vtable_def)
  have ids: "ct_chainTableId t = i \<and> ct_chainTableVersion t = v" if "st_chainTables (abs_store kv) (i, v) = Some t" for i v t
  proof -
    have "lookup as_chainTable kv (ChainTableKey i v) = Some t"
      using that by (simp add: abs_store_def)
    from lookup_SomeD [OF this] have "(key_of (ChainTableKey i v), SChainTable t) \<in> set kv"
      by (auto simp: as_Some)
    then have "key_of (ChainTableKey i v) = key_of (ChainTableKey (ct_chainTableId t) (ct_chainTableVersion t))"
      using r unfolding kv_ok_def by fastforce
    then show ?thesis unfolding key_of_inject by simp
  qed
  have "tables_ok ?ri"
    unfolding tables_ok_def
  proof (intro allI impI)
    fix i m
    assume m: "map_of (ri_chainTables ?ri) i = Some m"
    then have "m \<noteq> [] \<and> omap_wf m" using r unfolding ri(2) vmaps_ok_def by blast
    moreover have "ct_chainTableId t = i \<and> ct_chainTableVersion t = v" if "map_of m v = Some t" for v t
    proof -
      have "vtable (nl_chainTables l) (i, v) = Some t"
        using m that by (simp add: vtable_def ri(2))
      with r ids show ?thesis by simp
    qed
    ultimately show "m \<noteq> [] \<and> omap_wf m \<and> (\<forall>v t. map_of m v = Some t \<longrightarrow> ct_chainTableId t = i \<and> ct_chainTableVersion t = v)"
      by blast
  qed
  moreover have "configs_wf (ms_data (reset_from env l st))"
    unfolding configs_wf_def ri(9)
  proof (intro conjI allI)
    show "distinct (map fst (nl_configs l))" using r unfolding configs_loaded_def vmaps_ok_def by blast
    fix ty
    obtain vm where vm: "map_of (nl_configs l) ty = Some vm" using r unfolding configs_loaded_def by blast
    then have "omap_wf vm \<and> vm \<noteq> []" using r unfolding configs_loaded_def vmaps_ok_def by blast
    moreover have "cfg_configVersion c = v" if "map_of vm v = Some c" for v c
    proof -
      have "vtable (nl_configs l) (ty, v) = Some c" using vm that by (simp add: vtable_def)
      with r show ?thesis unfolding configs_loaded_def by blast
    qed
    ultimately show "\<exists>vm. map_of (nl_configs l) ty = Some vm \<and> omap_wf vm \<and> vm \<noteq> [] \<and> (\<forall>v info. map_of vm v = Some info \<longrightarrow> cfg_configVersion info = v)"
      using vm by blast
  qed
  moreover have "synced (abs_store kv) (ms_data (reset_from env l st))"
    using r unfolding synced_def nodes tables ri cfgs by (simp add: configs_loaded_def version_synced_def stored_ok_def)
  ultimately show ?thesis
    using r wf nodes(1) unfolding mgmtd_inv_def data_ok_def by simp
qed

lemma latest_config:
  assumes "configs_loaded a l"
  shows "\<exists>v cfg. Option.bind (map_of (nl_configs l) ty) rbegin = Some (v, cfg) \<and> cfg_configVersion cfg = v \<and>
    (\<forall>w. vtable (nl_configs l) (ty, w) \<noteq> None \<longrightarrow> w \<le> v)"
proof -
  obtain vm where vm: "map_of (nl_configs l) ty = Some vm" "omap_wf vm" "vm \<noteq> []"
    using assms unfolding configs_loaded_def vmaps_ok_def by blast
  obtain v cfg where r: "rbegin vm = Some (v, cfg)"
    using vm(3) by (cases "last vm") (simp add: rbegin_def)
  note top = rbegin_lookup [OF vm(2) r] rbegin_max [OF vm(2) r]
  have "vtable (nl_configs l) (ty, v) = Some cfg"
    using vm(1) top(1) by (simp add: vtable_def)
  then have "cfg_configVersion cfg = v"
    using assms unfolding configs_loaded_def by blast
  moreover have "w \<le> v" if "vtable (nl_configs l) (ty, w) \<noteq> None" for w
  proof -
    have "map_of vm w \<noteq> None" using that vm(1) by (simp add: vtable_def)
    then have "w \<in> fst ` set vm" by (simp add: map_of_eq_None_iff)
    with top(2) show ?thesis by blast
  qed
  ultimately show ?thesis
    using vm(1) r by auto
qed

lemma ready_self_config:
  assumes "ready kv l"
  shows "ready kv (set_self_config v st l)"
proof -
  have "nodeMap_ok (nl_nodes (set_self_config v st l)) = True"
    "nodeMap_table (nl_nodes (set_self_config v st l)) = nodeMap_table (nl_nodes l)"
    using assms in_place_ok [where f = "\<lambda>nw. nw\<lparr>nw_base := (nw_base nw)\<lparr>ni_configVersion := v\<rparr>\<rparr>" and nm = "nl_nodes l" and j = "selfId st"]
    by (simp_all add: set_self_config_def ready_def toPersistentNode_def)
  with assms show ?thesis
    by (simp add: ready_def configs_loaded_def set_self_config_def)
qed

lemma reset_from_frame:
  "md_lease (ms_data (reset_from env l st)) = (md_lease (ms_data st))\<lparr>lease_bootstrapping := False\<rparr>"
  "md_leaseStartTs (ms_data (reset_from env l st)) = env_steadyNow env" "ms_clientSessionMap (reset_from env l st) = []"
  "ms_selfNodeInfo (reset_from env l st) = ms_selfNodeInfo st" "ms_selfPersistentNodeInfo (reset_from env l st) = ms_selfPersistentNodeInfo st"
  "ri_routingInfoVersion (md_routingInfo (ms_data (reset_from env l st))) = nl_version l"
  "ri_chains (md_routingInfo (ms_data (reset_from env l st))) = nl_chains l"
  by (simp_all add: reset_from_def reset_data_def reset_routing_def)

lemma finish_new_lease_ok:
  assumes r: "ready kv l"
    and cfg: "ni_configVersion (nl_self l) = 0 \<or> st_configs (abs_store kv) (MGMTD, ni_configVersion (nl_self l)) \<noteq> None"
  shows "\<exists>l' st'. finish_new_lease env l (kv, st) = (Ret (), kv, reset_from env l' st') \<and> ready kv l' \<and>
    ms_selfPersistentNodeInfo st' = nl_selfPersistent l \<and> nl_version l' = nl_version l \<and>
    md_lease (ms_data st') = md_lease (ms_data st)"
proof -
  obtain v c where c: "Option.bind (map_of (nl_configs l) MGMTD) rbegin = Some (v, c)" "cfg_configVersion c = v"
    "\<And>w. vtable (nl_configs l) (MGMTD, w) \<noteq> None \<Longrightarrow> w \<le> v"
    using latest_config [of "abs_store kv" l MGMTD] r unfolding ready_def by blast
  have le: "ni_configVersion (nl_self l) \<le> v"
    using cfg c(3) r unfolding ready_def configs_loaded_def by (cases "ni_configVersion (nl_self l) = 0") auto
  let ?st = "set_self l st"
  have "updateSelfConfig env c ?st \<noteq> Crash"
    using le c(2) by (auto simp: updateSelfConfig_def Let_def set_self_def of_result_def split: option.split sum.split)
  moreover have "ms_selfPersistentNodeInfo ?st = nl_selfPersistent l"
    "ms_selfPersistentNodeInfo (set_self (set_self_config v ?st l) ?st) = nl_selfPersistent l"
    by (simp_all add: set_self_def set_self_config_def)
  moreover have "md_lease (ms_data ?st) = md_lease (ms_data st)" "md_lease (ms_data (set_self l' ?st)) = md_lease (ms_data st)" for l'
    by (simp_all add: set_self_def)
  moreover have "nl_version (set_self_config v ?st l) = nl_version l" by (simp add: set_self_config_def)
  ultimately show ?thesis
    using r ready_self_config [OF r, of v ?st] c(1,2) le
    by (cases "updateSelfConfig env c ?st"; cases "v = 0") (auto simp: finish_new_lease_def Let_def)
qed

text \<open>
  C12: a manager that gets a new lease rebuilds the state from the store, whatever routing information,
  configurations and sessions it had in memory. The conditions: the stored chains are consistent, as
  they are under every primary that keeps the invariant; the first attempt of the transaction finds the
  lease to be the manager's, its loads succeed and it commits; the manager's own node is consistent, a
  stored node with its id is a manager, and its configuration version is none or a stored one. Then the
  reload returns and establishes the invariant: the data in memory is well-formed and agrees with the
  store. The chains are those stored, the routing info has the next version, which is stored too, the
  manager itself is stored as a node, no client session survives and the manager is no longer
  bootstrapping.
\<close>

theorem onNewLease_restores_invariant:
  assumes ok: "kv_ok kv" "stored_ok (abs_store kv)" and commit: "env_attempts env = (now, Committed) # atts" "ensureLeaseValid (selfId st) now kv = Inr ()"
    and loads: "\<And>i. fails now i = None"
    and self: "self_ok (ms_selfNodeInfo st) (ms_selfPersistentNodeInfo st)" "app_nodeId (ni_app (ms_selfNodeInfo st)) = selfId st"
    and ty: "\<And>n. st_nodes (abs_store kv) (selfId st) = Some n \<Longrightarrow> pn_type n = MGMTD"
    and cfg: "ni_configVersion (ms_selfNodeInfo st) = 0 \<or> st_configs (abs_store kv) (MGMTD, ni_configVersion (ms_selfNodeInfo st)) \<noteq> None"
  shows "case onNewLease env fails (kv, st) of (r, s') \<Rightarrow> r = Ret () \<and> mgmtd_inv s' \<and>
    map_of (ri_chains (routing s')) = st_chains (abs_store kv) \<and>
    ri_routingInfoVersion (routing s') = stored_version_of (abs_store kv) + 1 \<and>
    st_version (abs_store (fst s')) = Some (stored_version_of (abs_store kv) + 1) \<and>
    st_nodes (abs_store (fst s')) (selfId st) = Some (ms_selfPersistentNodeInfo (snd s')) \<and>
    ms_clientSessionMap (snd s') = [] \<and> \<not> lease_bootstrapping (md_lease (ms_data (snd s')))"
proof -
  obtain l where l: "load_all env (fails now) kv (initial_NewLease st) = (None, l)" "loaded env (abs_store kv) l"
    "nl_self l = ms_selfNodeInfo st" "nl_selfPersistent l = ms_selfPersistentNodeInfo st"
    using load_all_ok [OF ok, of "fails now" env st] loads by blast
  obtain kv' l' where p: "persistNewVersionAndSelfInfo env (kv, l) = (Ret (), kv', l')" "ready kv' l'" "self_ok (nl_self l') (nl_selfPersistent l')"
    "st_nodes (abs_store kv') (selfId st) = Some (nl_selfPersistent l')" "nl_version l' = nl_version l"
    "ni_configVersion (nl_self l') = ni_configVersion (ms_selfNodeInfo st)"
    "abs_store kv' = (abs_store kv)\<lparr>st_version := Some (nl_version l), st_nodes := st_nodes (abs_store kv')\<rparr>"
    using persist_self_ok [OF ok l(2), of] self ty l(3,4) by auto
  have txn: "withReadWriteTxn env st (new_lease_handler env fails) True (kv, initial_NewLease st) = (Ret (), kv', l')"
    using l(1) p(1) commit by (simp add: withReadWriteTxn_def txn_attempt_def checked_handler_def new_lease_handler_def)
  have same: "st_configs (abs_store kv') = st_configs (abs_store kv)" "st_chains (abs_store kv') = st_chains (abs_store kv)"
    "st_version (abs_store kv') = Some (nl_version l)"
    using arg_cong [OF p(7), of st_configs] arg_cong [OF p(7), of st_chains] arg_cong [OF p(7), of st_version] by simp_all
  obtain l2 st2 where f: "finish_new_lease env l' (kv', st) = (Ret (), kv', reset_from env l2 st2)" "ready kv' l2" "nl_version l2 = nl_version l'"
    "ms_selfPersistentNodeInfo st2 = nl_selfPersistent l'"
    using finish_new_lease_ok [OF p(2), of env st] cfg p(6) same(1) by auto
  have "onNewLease env fails (kv, st) = (Ret (), kv', reset_from env l2 st2)"
    using txn f(1) by (simp add: onNewLease_def)
  moreover have "map_of (nl_chains l2) = st_chains (abs_store kv)" "nl_version l = stored_version_of (abs_store kv) + 1"
    using f(2) l(2) same(2) by (simp_all add: ready_def loaded_def)
  ultimately show ?thesis
    using reset_from_inv [OF f(2), of env st2] same(3) p(4,5) f(3,4) by (simp add: reset_from_frame)
qed

section \<open>A reload whose first attempt fails\<close>



lemma put_by_untouched: "k \<notin> g ` set xs \<Longrightarrow> m k = y \<Longrightarrow> put_by g xs m k = y"
  by (simp add: put_by_other)




section \<open>Samples\<close>

lemma sample_self: "self_ok (ms_selfNodeInfo sample_State) (ms_selfPersistentNodeInfo sample_State)"
  "app_nodeId (ni_app (ms_selfNodeInfo sample_State)) = selfId sample_State" "ni_type (ms_selfNodeInfo sample_State) = MGMTD"
  "ni_configVersion (ms_selfNodeInfo sample_State) = 0" "mc_retry_times_on_txn_errors (ms_config sample_State) = - 1"
  "mc_retry_transaction (ms_config sample_State) = \<lparr>tr_max_backoff = 1000000000, tr_max_retry_count = 10\<rparr>"
  by (simp_all add: sample_State_def MgmtdState_of_def self_ok_def selfId_def initSelfNodeInfo_def default_MgmtdConfig_def)

lemma sample_store: "stored_ok (abs_store sample_kv)" "ensureLeaseValid (selfId sample_State) 0 sample_kv = Inr ()"
  "st_nodes (abs_store sample_kv) i = None"
  using mgmtd_inv_stored_ok [OF sample_inv] sample_commits
  by (simp_all add: sample_state_def commits_def sample_env_def sample_State_def MgmtdState_of_def default_MgmtdConfig_def
      sample_kv_def abs_store_empty)

theorem onNewLease_restores_invariant_witness:
  "fst (onNewLease sample_env (\<lambda>_ _. None) (sample_kv, sample_State)) = Ret () \<and>
   mgmtd_inv (snd (onNewLease sample_env (\<lambda>_ _. None) (sample_kv, sample_State)))"
proof -
  have "env_attempts sample_env = (0, Committed) # []" by (simp add: sample_env_def)
  from onNewLease_restores_invariant [OF kv_ok_sample sample_store(1) this sample_store(2), of "\<lambda>_ _. None"] sample_self sample_store(3)
  show ?thesis by (auto split: prod.splits)
qed



end
