(* ===== verification/Lease_Protocol.thy ===== *)
theory Lease_Protocol
  imports Mgmtd_Lease
begin

text \<open>
  Several cluster managers over one store. Each runs the lease extension of \<^theory_text>\<open>Mgmtd_Lease\<close>; between the
  commit of an extension and its effect in memory, and between any two operations, the others may run.
  Clocks differ from real time by at most \<open>skew\<close>. If twice the skew is not more than the interval in
  which a manager no longer trusts its lease, at most one manager takes itself for the primary; and
  whatever the clocks do, a manager whose lease another one has taken over cannot write.
\<close>

section \<open>The cluster\<close>

record cluster =
  cl_kv :: kv
  cl_time :: int
  cl_server :: "NodeId \<Rightarrow> MgmtdState"
  cl_result :: "NodeId \<Rightarrow> MgmtdLeaseInfo option option"

definition self_known :: "NodeId \<Rightarrow> MgmtdState \<Rightarrow> bool" where
  "self_known i st \<longleftrightarrow> selfId st = i \<and> pn_nodeId (ms_selfPersistentNodeInfo st) = i"

text \<open>
  The steps: time passes; the transaction of an extension commits, and its result is on its way to the
  memory or, if the commit reports a failure although it was applied, is lost; a result reaches the
  memory; a manager does anything else, which leaves the lease in the store and in its memory alone but
  may end its bootstrapping.
\<close>

inductive cluster_step :: "int \<Rightarrow> cluster \<Rightarrow> cluster \<Rightarrow> bool" for skew :: int where
  tick: "cl_time c \<le> t \<Longrightarrow> cluster_step skew c (c\<lparr>cl_time := t\<rparr>)"
| extend: "\<bar>now - cl_time c\<bar> \<le> skew \<Longrightarrow>
    extend_lease_handler rv (cl_server c i) now (cl_kv c, ()) = (Ret res, kv', ()) \<Longrightarrow>
    cluster_step skew c (c\<lparr>cl_kv := kv', cl_result := (cl_result c)(i := Some res)\<rparr>)"
| extend_unknown: "\<bar>now - cl_time c\<bar> \<le> skew \<Longrightarrow>
    extend_lease_handler rv (cl_server c i) now (cl_kv c, ()) = (Ret res, kv', ()) \<Longrightarrow>
    cluster_step skew c (c\<lparr>cl_kv := kv'\<rparr>)"
| learn: "cl_result c i = Some res \<Longrightarrow>
    cluster_step skew c (c\<lparr>cl_server := (cl_server c)(i :=
      set_lease (take_lease (selfId (cl_server c i)) res (md_lease (ms_data (cl_server c i)))) (cl_server c i)),
      cl_result := (cl_result c)(i := None)\<rparr>)"
| work: "kv_ok kv' \<Longrightarrow> st_lease (abs_store kv') = st_lease (abs_store (cl_kv c)) \<Longrightarrow> self_known i st' \<Longrightarrow>
    ms_config st' = ms_config (cl_server c i) \<Longrightarrow>
    lease_lease (md_lease (ms_data st')) = lease_lease (md_lease (ms_data (cl_server c i))) \<Longrightarrow>
    cluster_step skew c (c\<lparr>cl_kv := kv', cl_server := (cl_server c)(i := st')\<rparr>)"

inductive cluster_reachable :: "int \<Rightarrow> cluster \<Rightarrow> bool" for skew :: int where
  start: "kv_ok (cl_kv c) \<Longrightarrow> \<forall>i. self_known i (cl_server c i) \<and> lease_lease (md_lease (ms_data (cl_server c i))) = None \<and>
    cl_result c i = None \<Longrightarrow> cluster_reachable skew c"
| step: "cluster_reachable skew c \<Longrightarrow> cluster_step skew c c' \<Longrightarrow> cluster_reachable skew c'"

text \<open>A manager that takes itself for the primary: a check with its own clock succeeds.\<close>

definition acts_as_primary :: "int \<Rightarrow> cluster \<Rightarrow> NodeId \<Rightarrow> op_env \<Rightarrow> bool" where
  "acts_as_primary skew c i env \<longleftrightarrow> \<bar>env_leaseNow env - cl_time c\<bar> \<le> skew \<and> primary env (cl_kv c, cl_server c i)"

section \<open>One primary\<close>

text \<open>A lease that a manager holds is covered by the stored one, or its end has come.\<close>

definition covered :: "int \<Rightarrow> cluster \<Rightarrow> NodeId \<Rightarrow> MgmtdLeaseInfo \<Rightarrow> bool" where
  "covered skew c i l \<longleftrightarrow> li_leaseEnd l < cl_time c + skew \<or>
     (\<exists>s. st_lease (abs_store (cl_kv c)) = Some s \<and> pn_nodeId (li_primary s) = i \<and> li_leaseEnd l \<le> li_leaseEnd s)"

definition holds :: "cluster \<Rightarrow> NodeId \<Rightarrow> MgmtdLeaseInfo \<Rightarrow> bool" where
  "holds c i l \<longleftrightarrow> pn_nodeId (li_primary l) = i \<and>
     (lease_lease (md_lease (ms_data (cl_server c i))) = Some l \<or> cl_result c i = Some (Some l))"

definition leases_covered :: "int \<Rightarrow> cluster \<Rightarrow> bool" where
  "leases_covered skew c \<longleftrightarrow> kv_ok (cl_kv c) \<and> (\<forall>i. self_known i (cl_server c i)) \<and>
     (\<forall>i l. holds c i l \<longrightarrow> st_lease (abs_store (cl_kv c)) \<noteq> None \<and> covered skew c i l)"

text \<open>What an extension does to the stored lease.\<close>

definition lease_extended :: "MgmtdState \<Rightarrow> UtcTime \<Rightarrow> MgmtdLeaseInfo option \<Rightarrow> MgmtdLeaseInfo option \<Rightarrow> MgmtdLeaseInfo option \<Rightarrow> bool" where
  "lease_extended st now old new res \<longleftrightarrow>
     new = old \<and> (res = None \<or> res = old) \<or>
     (\<exists>l. new = Some l \<and> res = Some l \<and> li_primary l = ms_selfPersistentNodeInfo st \<and>
        (\<forall>s. old = Some s \<longrightarrow> li_leaseEnd s < li_leaseEnd l \<and>
           (li_leaseEnd s < now \<or> pn_nodeId (li_primary s) = pn_nodeId (ms_selfPersistentNodeInfo st))))"

lemma extendLease_cases:
  assumes ok: "kv_ok kv" and run: "extendLease node len now rv chk kv = (Ret l, kv')"
  shows "kv' = kv \<and> st_lease (abs_store kv) = Some l \<or>
    kv' = storeMgmtdLeaseInfo l kv \<and> li_primary l = node \<and> (\<forall>s. st_lease (abs_store kv) = Some s \<longrightarrow>
      li_leaseEnd s < li_leaseEnd l \<and> (li_leaseEnd s < now \<or> pn_nodeId (li_primary s) = pn_nodeId node))"
proof (cases "st_lease (abs_store kv)")
  case None
  with run loads_ok(1) [OF ok] show ?thesis
    by (auto simp: extendLease_def Let_def)
next
  case (Some s)
  with run loads_ok(1) [OF ok] show ?thesis
    by (auto simp: extendLease_def Let_def split: option.splits bool.splits if_splits)
qed

lemma extend_handler_lease:
  assumes ok: "kv_ok kv" and run: "extend_lease_handler rv st now (kv, ()) = (Ret res, kv', ())"
  shows "kv_ok kv'" "lease_extended st now (st_lease (abs_store kv)) (st_lease (abs_store kv')) res"
proof -
  obtain self where self: "loadNodeInfo (selfId st) kv = Inr self"
    using run by (auto simp: extend_lease_handler_def split: sum.splits)
  show "kv_ok kv'" "lease_extended st now (st_lease (abs_store kv)) (st_lease (abs_store kv')) res"
  proof (atomize (full), cases "case self of None \<Rightarrow> False | Some n \<Rightarrow> findTag (pn_tags n) kDisabledTagKey \<noteq> - 1")
    case True
    with run self ok show "kv_ok kv' \<and> lease_extended st now (st_lease (abs_store kv)) (st_lease (abs_store kv')) res"
      by (simp add: extend_lease_handler_def lease_extended_def)
  next
    case False
    obtain r kv1 where e: "extendLease (ms_selfPersistentNodeInfo st) (mc_lease_length (ms_config st)) now rv
        (mc_extend_lease_check_release_version (ms_config st)) kv = (r, kv1)"
      by (rule prod.exhaust)
    with run self False obtain l where l: "r = Ret l" "res = Some l" "kv1 = kv'"
      by (cases r) (simp_all add: extend_lease_handler_def)
    from extendLease_cases [OF ok e [unfolded l]] ok l(2)
    show "kv_ok kv' \<and> lease_extended st now (st_lease (abs_store kv)) (st_lease (abs_store kv')) res"
      by (auto simp: lease_extended_def)
  qed
qed

lemma covered_extended:
  assumes "covered skew c i l" and "\<bar>now - cl_time c\<bar> \<le> skew" and "lease_extended st now (st_lease (abs_store (cl_kv c))) (st_lease (abs_store kv')) res"
    and "pn_nodeId (ms_selfPersistentNodeInfo st) = j"
  shows "covered skew (c\<lparr>cl_kv := kv', cl_result := R\<rparr>) i l"
  using assms by (auto simp: covered_def lease_extended_def)

lemma extended_covered:
  assumes "lease_extended st now (st_lease (abs_store (cl_kv c))) (st_lease (abs_store kv')) (Some l)"
    and "pn_nodeId (li_primary l) = i"
  shows "covered skew (c\<lparr>cl_kv := kv', cl_result := R\<rparr>) i l" "st_lease (abs_store kv') \<noteq> None"
proof -
  have "st_lease (abs_store kv') = Some l"
    using assms(1) by (auto simp: lease_extended_def)
  then show "covered skew (c\<lparr>cl_kv := kv', cl_result := R\<rparr>) i l" "st_lease (abs_store kv') \<noteq> None"
    using assms(2) by (auto simp: covered_def)
qed

lemma leases_coveredD:
  assumes "leases_covered skew c"
  shows "kv_ok (cl_kv c)" "self_known i (cl_server c i)"
    "holds c i l \<Longrightarrow> st_lease (abs_store (cl_kv c)) \<noteq> None" "holds c i l \<Longrightarrow> covered skew c i l"
  using assms by (auto simp: leases_covered_def)

lemma extend_covers:
  assumes inv: "leases_covered skew c" and now: "\<bar>now - cl_time c\<bar> \<le> skew"
    and run: "extend_lease_handler rv (cl_server c i) now (cl_kv c, ()) = (Ret res, kv', ())"
    and R: "R = (cl_result c)(i := Some res) \<or> R = cl_result c"
  shows "leases_covered skew (c\<lparr>cl_kv := kv', cl_result := R\<rparr>)"
  unfolding leases_covered_def
proof (intro conjI allI impI)
  note ext = extend_handler_lease [OF leases_coveredD(1) [OF inv] run]
  show "kv_ok (cl_kv (c\<lparr>cl_kv := kv', cl_result := R\<rparr>))"
    using ext(1) by simp
  show "self_known j (cl_server (c\<lparr>cl_kv := kv', cl_result := R\<rparr>) j)" for j
    using leases_coveredD(2) [OF inv] by simp
  fix j l
  assume "holds (c\<lparr>cl_kv := kv', cl_result := R\<rparr>) j l"
  then consider "holds c j l" | "j = i" "res = Some l" "pn_nodeId (li_primary l) = i"
    using R by (auto simp: holds_def split: if_splits)
  then have "st_lease (abs_store kv') \<noteq> None \<and> covered skew (c\<lparr>cl_kv := kv', cl_result := R\<rparr>) j l"
  proof cases
    case 1
    from covered_extended [OF leases_coveredD(4) [OF inv 1] now ext(2) refl] leases_coveredD(3) [OF inv 1] ext(2)
    show ?thesis by (auto simp: lease_extended_def)
  next
    case 2
    from extended_covered [OF ext(2) [unfolded 2(2)] 2(3)] 2(1) show ?thesis by simp
  qed
  then show "st_lease (abs_store (cl_kv (c\<lparr>cl_kv := kv', cl_result := R\<rparr>))) \<noteq> None"
    "covered skew (c\<lparr>cl_kv := kv', cl_result := R\<rparr>) j l" by simp_all
qed

text \<open>A step that makes no manager hold a new lease.\<close>

lemma leases_covered_mono:
  assumes "leases_covered skew c" and "kv_ok (cl_kv c')" and "\<And>i. self_known i (cl_server c' i)"
    and "\<And>i l. holds c' i l \<Longrightarrow> holds c i l"
    and "st_lease (abs_store (cl_kv c')) = st_lease (abs_store (cl_kv c))" and "cl_time c \<le> cl_time c'"
  shows "leases_covered skew c'"
  using assms unfolding leases_covered_def covered_def by fastforce

lemma cluster_step_covered:
  assumes "cluster_step skew c c'" and inv: "leases_covered skew c"
  shows "leases_covered skew c'"
  using assms(1)
proof cases
  case (tick t)
  with leases_coveredD(1,2) [OF inv] show ?thesis
    by (intro leases_covered_mono [OF inv]) (auto simp: holds_def)
next
  case (extend now rv i res kv')
  then show ?thesis using extend_covers [OF inv] by simp
next
  case (extend_unknown now rv i res kv')
  then show ?thesis using extend_covers [OF inv extend_unknown(2,3), of "cl_result c"] by simp
next
  case (learn i res)
  with leases_coveredD(1,2) [OF inv] show ?thesis
    by (intro leases_covered_mono [OF inv])
      (auto simp: holds_def self_known_def selfId_def set_lease_def take_lease_def split: if_splits option.splits)
next
  case (work kv' i st')
  with leases_coveredD(1,2) [OF inv] show ?thesis
    by (intro leases_covered_mono [OF inv]) (auto simp: holds_def split: if_splits)
qed

lemma cluster_steps_covered: "(cluster_step skew)\<^sup>*\<^sup>* c c' \<Longrightarrow> leases_covered skew c \<Longrightarrow> leases_covered skew c'"
  by (induction rule: rtranclp_induct) (simp_all add: cluster_step_covered)

lemma cluster_reachable_covered: "cluster_reachable skew c \<Longrightarrow> leases_covered skew c"
proof (induction rule: cluster_reachable.induct)
  case (start c)
  then show ?case by (auto simp: leases_covered_def holds_def)
qed (rule cluster_step_covered)

lemma primary_holds:
  assumes "primary env (kv, st)"
  obtains l where "lease_lease (md_lease (ms_data st)) = Some l" "pn_nodeId (li_primary l) = selfId st"
    "env_leaseNow env + mc_suspicious_lease_interval (ms_config st) < li_leaseEnd l"
  using assms by (auto simp: primary_def ensureSelfIsPrimary_def currentLease_def when_error_def Let_def
    split: option.splits if_splits)

lemma acting_primary_stored:
  assumes "cluster_reachable skew c" and "2 * skew \<le> mc_suspicious_lease_interval (ms_config (cl_server c i))"
    and act: "acts_as_primary skew c i env"
  shows "\<exists>s. st_lease (abs_store (cl_kv c)) = Some s \<and> pn_nodeId (li_primary s) = i"
proof -
  note inv = cluster_reachable_covered [OF assms(1)]
  obtain l where l: "lease_lease (md_lease (ms_data (cl_server c i))) = Some l"
    "pn_nodeId (li_primary l) = selfId (cl_server c i)"
    "env_leaseNow env + mc_suspicious_lease_interval (ms_config (cl_server c i)) < li_leaseEnd l"
    using act unfolding acts_as_primary_def by (auto elim: primary_holds)
  have "holds c i l"
    using l(1,2) leases_coveredD(2) [OF inv, of i] by (simp add: holds_def self_known_def)
  from leases_coveredD(4) [OF inv this] l(3) assms(2) act show ?thesis
    by (auto simp: covered_def acts_as_primary_def)
qed

text \<open>
  C8: at most one manager at a time takes itself for the primary, in every interleaving of lease
  extensions (also those whose commit is reported as unknown and those whose result is late), provided
  the clocks and the delay of a commit stay within half the interval for which a lease is suspicious.
\<close>

theorem at_most_one_primary:
  assumes "cluster_reachable skew c"
    and "\<forall>i. 2 * skew \<le> mc_suspicious_lease_interval (ms_config (cl_server c i))"
    and "acts_as_primary skew c i env" and "acts_as_primary skew c j env'"
  shows "i = j"
  using acting_primary_stored [OF assms(1) spec [OF assms(2)] assms(3)]
    acting_primary_stored [OF assms(1) spec [OF assms(2)] assms(4)] by auto

section \<open>Fencing\<close>

text \<open>
  C9: with the switch \<open>validate_lease_on_write\<close> of the configuration on, as it is by
  default, a manager whose lease another one has taken over, or of which a well-formed store knows no
  lease, cannot write, whatever its clock and its memory say: every transaction that expects the manager
  to be the primary fails and leaves the store as it is. With the switch off the lease in the store is
  not looked at and nothing is claimed.
\<close>

theorem stale_primary_cannot_write:
  assumes "kv_ok kv" and "mc_validate_lease_on_write (ms_config st)"
    and "\<forall>l. st_lease (abs_store kv) = Some l \<longrightarrow> pn_nodeId (li_primary l) \<noteq> selfId st"
  shows "case withReadWriteTxn env st handler True (kv, u) of (r, kv', u') \<Rightarrow>
    kv' = kv \<and> u' = u \<and> (\<forall>x. r \<noteq> Ret x) \<and> r \<noteq> Crash"
proof -
  have invalid: "\<exists>e. ensureLeaseValid (selfId st) now kv = Inl e" for now
    using assms(3) loads_ok(1) [OF assms(1)] by (auto simp: ensureLeaseValid_def split: option.splits)
  have step: "(k = kv \<and> l' = u) \<and> (\<forall>x. r = Ret x \<longrightarrow> (k' = kv \<and> l' = u) \<and> False) \<and> r \<noteq> Crash"
    if "k = kv \<and> l = u" "checked_handler st True handler now (k, l) = (r, k', l')" for now k l r k' l'
    using that assms(2) invalid [of now] by (auto simp: checked_handler_def)
  from txn_loop_reach [where reach = "\<lambda>k l. k = kv \<and> l = u" and good = "\<lambda>x k u. False" and s = "(kv, u)", OF _ step]
  show ?thesis
    by (fastforce simp: withReadWriteTxn_def split: prod.splits)
qed

section \<open>The operations are steps\<close>

text \<open>
  The steps are those of the model: the transaction of an extension, with all its attempts, and its
  effect in memory are steps, and an operation of a manager that is in agreement with the store is one.
\<close>

lemma extension_is_steps:
  assumes "\<And>now. now \<in> fst ` set (env_attempts env) \<Longrightarrow> \<bar>now - cl_time c\<bar> \<le> skew"
  shows "case withReadWriteTxn env (cl_server c i) (extend_lease_handler rv (cl_server c i)) False (cl_kv c, ()) of (r, kv', u) \<Rightarrow>
    (cluster_step skew)\<^sup>*\<^sup>* c (c\<lparr>cl_kv := kv'\<rparr>) \<and>
    (\<forall>res. r = Ret res \<longrightarrow> (cluster_step skew)\<^sup>*\<^sup>* c (c\<lparr>cl_kv := kv', cl_result := (cl_result c)(i := Some res)\<rparr>))"
proof -
  let ?steps = "(cluster_step skew)\<^sup>*\<^sup>* c"
  let ?handler = "checked_handler (cl_server c i) False (extend_lease_handler rv (cl_server c i))"
  have step: "?steps (c\<lparr>cl_kv := k\<rparr>) \<and> (\<forall>res. r = Ret res \<longrightarrow> ?steps (c\<lparr>cl_kv := k'\<rparr>) \<and>
      ?steps (c\<lparr>cl_kv := k', cl_result := (cl_result c)(i := Some res)\<rparr>)) \<and> (r = Crash \<longrightarrow> True)"
    if now: "now \<in> fst ` set (env_attempts env)" and reach: "?steps (c\<lparr>cl_kv := k\<rparr>)" and run: "?handler now (k, u) = (r, k', u')"
    for now k k' r and u u' :: unit
  proof -
    have near: "\<bar>now - cl_time (c\<lparr>cl_kv := k\<rparr>)\<bar> \<le> skew" using assms [OF now] by simp
    have "?steps (c\<lparr>cl_kv := k'\<rparr>) \<and> ?steps (c\<lparr>cl_kv := k', cl_result := (cl_result c)(i := Some res)\<rparr>)" if "r = Ret res" for res
    proof -
      have ext: "extend_lease_handler rv (cl_server (c\<lparr>cl_kv := k\<rparr>) i) now (cl_kv (c\<lparr>cl_kv := k\<rparr>), ()) = (Ret res, k', ())"
        using run that by (simp add: checked_handler_def)
      from reach cluster_step.extend_unknown [OF near ext] cluster_step.extend [OF near ext]
      show ?thesis by (simp add: rtranclp.rtrancl_into_rtrancl)
    qed
    with reach show ?thesis by simp
  qed
  have "case withReadWriteTxn env (cl_server c i) (extend_lease_handler rv (cl_server c i)) False (cl_kv c, ()) of (r, kv', u) \<Rightarrow>
      ?steps (c\<lparr>cl_kv := kv'\<rparr>) \<and> (r = Crash \<longrightarrow> True) \<and>
      (\<forall>res. r = Ret res \<longrightarrow> ?steps (c\<lparr>cl_kv := kv', cl_result := (cl_result c)(i := Some res)\<rparr>))"
    unfolding withReadWriteTxn_def
    by (rule txn_loop_rule [where reach = "\<lambda>k u. ?steps (c\<lparr>cl_kv := k\<rparr>)" and
          good = "\<lambda>res k u. ?steps (c\<lparr>cl_kv := k, cl_result := (cl_result c)(i := Some res)\<rparr>)"])
      (simp, rule step)
  then show ?thesis by auto
qed

lemma map_sum_Inr: "map_sum id f x = Inr y \<longleftrightarrow> (\<exists>z. x = Inr z \<and> y = f z)"
  by (cases x) auto

lemma load_all_self: "nl_selfPersistent (snd (load_all env fails kv l)) = nl_selfPersistent l"
proof -
  have kept: "nl_selfPersistent (snd (try_load failure load acc)) = nl_selfPersistent (snd acc)"
    if "\<And>l l'. load l = Inr l' \<Longrightarrow> nl_selfPersistent l' = nl_selfPersistent l" for failure load acc
    using that by (auto simp: try_load_def split: option.splits sum.splits)
  note loads = load_tags_def load_chains_def load_chainTables_def load_configs_def load_nodes_def load_version_def map_sum_Inr
  have "load_tags kv l = Inr l' \<Longrightarrow> nl_selfPersistent l' = nl_selfPersistent l"
    "load_chains env kv l = Inr l' \<Longrightarrow> nl_selfPersistent l' = nl_selfPersistent l"
    "load_chainTables kv l = Inr l' \<Longrightarrow> nl_selfPersistent l' = nl_selfPersistent l"
    "load_configs kv l = Inr l' \<Longrightarrow> nl_selfPersistent l' = nl_selfPersistent l"
    "load_nodes env kv l = Inr l' \<Longrightarrow> nl_selfPersistent l' = nl_selfPersistent l"
    "load_version kv l = Inr l' \<Longrightarrow> nl_selfPersistent l' = nl_selfPersistent l" for l l'
    by (auto simp: loads)
  note kept [OF this(1)] kept [OF this(2)] kept [OF this(3)] kept [OF this(4)] kept [OF this(5)] kept [OF this(6)]
  then show ?thesis by (simp add: load_all_def)
qed

lemma persist_self_lease:
  assumes "kv_ok kv" and "persistNewVersionAndSelfInfo env (kv, l) = (r, kv', l')"
  shows "kv_ok kv' \<and> st_lease (abs_store kv') = st_lease (abs_store kv) \<and>
    pn_nodeId (nl_selfPersistent l') = pn_nodeId (nl_selfPersistent l)"
  using assms by (auto simp: persistNewVersionAndSelfInfo_def Let_def split: option.splits if_splits)

lemma reload_is_work:
  assumes "kv_ok kv" and "self_known i st" and "onNewLease env fails (kv, st) = (r, kv', st')"
  shows "kv_ok kv'" "st_lease (abs_store kv') = st_lease (abs_store kv)" "self_known i st'"
    "ms_config st' = ms_config st" "lease_lease (md_lease (ms_data st')) = lease_lease (md_lease (ms_data st))"
proof -
  let ?txn = "withReadWriteTxn env st (new_lease_handler env fails) True (kv, initial_NewLease st)"
  let ?reach = "\<lambda>k l. kv_ok k \<and> st_lease (abs_store k) = st_lease (abs_store kv) \<and> pn_nodeId (nl_selfPersistent l) = i"
  have step: "?reach k l' \<and> (\<forall>x. r = Ret x \<longrightarrow> ?reach k' l' \<and> True) \<and> (r = Crash \<longrightarrow> True)"
    if reach: "?reach k l" and run: "checked_handler st True (new_lease_handler env fails) now (k, l) = (r, k', l')" for now k l r k' l'
  proof -
    obtain e l1 where l1: "load_all env (fails now) k l = (e, l1)" by (rule prod.exhaust)
    have "pn_nodeId (nl_selfPersistent l1) = i"
      using load_all_self [of env "fails now" k l] reach by (simp add: l1)
    with reach run l1 show ?thesis
      by (auto simp: checked_handler_def new_lease_handler_def dest!: persist_self_lease [rotated]
          split: if_splits sum.splits option.splits)
  qed
  obtain r0 k0 l0 where txn: "?txn = (r0, k0, l0)" by (rule prod_cases3)
  have "case ?txn of (r, k, l) \<Rightarrow> ?reach k l \<and> (r = Crash \<longrightarrow> True) \<and> (\<forall>x. r = Ret x \<longrightarrow> True)"
    unfolding withReadWriteTxn_def
    by (rule txn_loop_rule [where reach = ?reach and good = "\<lambda>_ _ _. True"])
      (use assms(1,2) in \<open>simp add: self_known_def initial_NewLease_def\<close>, rule step)
  then have reach: "?reach k0 l0" by (simp add: txn)
  have self: "self_known i (set_self l0 st)" "self_known i (reset_from env l (set_self l st))"
    if "nl_selfPersistent l = nl_selfPersistent l0" for l
    using reach assms(2) that by (simp_all add: self_known_def selfId_def set_self_def reset_from_def)
  have fin: "kv' = k0 \<and> self_known i st' \<and> ms_config st' = ms_config st \<and>
      lease_lease (md_lease (ms_data st')) = lease_lease (md_lease (ms_data st))"
  proof (cases r0)
    case (Ret x)
    with assms(2,3) txn reach show ?thesis
      by (auto simp: onNewLease_def finish_new_lease_def Let_def self_known_def selfId_def set_self_def reset_from_def
          reset_data_def set_self_config_def split: option.splits outcome.splits)
  qed (use assms(2,3) txn reach in \<open>auto simp: onNewLease_def set_self_def self_known_def selfId_def\<close>)
  then show "kv_ok kv'" "st_lease (abs_store kv') = st_lease (abs_store kv)" "self_known i st'"
    "ms_config st' = ms_config st" "lease_lease (md_lease (ms_data st')) = lease_lease (md_lease (ms_data st))"
    using reach by simp_all
qed

lemma ExtendLease_is_steps:
  assumes near: "\<And>now. now \<in> fst ` set (env_attempts env) \<Longrightarrow> \<bar>now - cl_time c\<bar> \<le> skew"
    and inv: "leases_covered skew c" and "cl_result c i = None"
    and run: "ExtendLease env env' rv fails (cl_kv c, cl_server c i) = (r, kv', st')"
  shows "(cluster_step skew)\<^sup>*\<^sup>* c (c\<lparr>cl_kv := kv', cl_server := (cl_server c)(i := st')\<rparr>)"
proof -
  let ?txn = "withReadWriteTxn env (cl_server c i) (extend_lease_handler rv (cl_server c i)) False (cl_kv c, ())"
  obtain r0 k u where txn: "?txn = (r0, k, u)" by (rule prod_cases3)
  have "case ?txn of (r, kv', u) \<Rightarrow> (cluster_step skew)\<^sup>*\<^sup>* c (c\<lparr>cl_kv := kv'\<rparr>) \<and>
      (\<forall>res. r = Ret res \<longrightarrow> (cluster_step skew)\<^sup>*\<^sup>* c (c\<lparr>cl_kv := kv', cl_result := (cl_result c)(i := Some res)\<rparr>))"
    by (rule extension_is_steps) (rule near)
  note ext = this [unfolded txn prod.case]
  show ?thesis
  proof (cases r0)
    case (Ret res)
    let ?st = "set_lease (take_lease (selfId (cl_server c i)) res (md_lease (ms_data (cl_server c i)))) (cl_server c i)"
    let ?c1 = "c\<lparr>cl_kv := k, cl_result := (cl_result c)(i := Some res)\<rparr>"
    let ?c2 = "c\<lparr>cl_kv := k, cl_server := (cl_server c)(i := ?st)\<rparr>"
    have learn: "cluster_step skew ?c1 ?c2"
      using cluster_step.learn [of ?c1 i res skew] assms(3) by (simp add: fun_upd_idem)
    have "(cluster_step skew)\<^sup>*\<^sup>* c ?c1"
      using ext Ret by simp
    from this learn have c2: "(cluster_step skew)\<^sup>*\<^sup>* c ?c2"
      by (rule rtranclp.rtrancl_into_rtrancl)
    show ?thesis
    proof (cases "res \<noteq> None \<and> lease_bootstrapping (md_lease (ms_data ?st))")
      case True
      with run txn Ret have reload: "onNewLease env' fails (k, ?st) = (r, kv', st')"
        by (simp add: ExtendLease_def Let_def set_lease_def)
      note cov = cluster_steps_covered [OF c2 inv]
      have "kv_ok k" "self_known i ?st"
        using leases_coveredD(1) [OF cov] leases_coveredD(2) [OF cov, of i] by simp_all
      from reload_is_work [OF this reload] have "cluster_step skew ?c2 (?c2\<lparr>cl_kv := kv', cl_server := (cl_server ?c2)(i := st')\<rparr>)"
        by (intro cluster_step.work) simp_all
      with c2 show ?thesis by (simp add: rtranclp.rtrancl_into_rtrancl)
    next
      case False
      with run txn Ret have "kv' = k" "st' = ?st"
        by (auto simp: ExtendLease_def Let_def set_lease_def split: if_splits)
      with c2 show ?thesis by simp
    qed
  qed (use run txn ext in \<open>simp_all add: ExtendLease_def fun_upd_idem\<close>)
qed

context writer
begin

lemma operation_is_work:
  assumes "mgmtd_inv (cl_kv c, cl_server c i)" and "allowed q (cl_kv c, cl_server c i)" and "self_known i (cl_server c i)"
    and "run env q (cl_kv c, cl_server c i) = (r, kv', st')"
  shows "cluster_step skew c (c\<lparr>cl_kv := kv', cl_server := (cl_server c)(i := st')\<rparr>)"
  using contract [OF assms(1,2), of env] assms(3,4)
  by (intro cluster_step.work) (auto simp: op_post_def mgmtd_inv_def same_frame_def self_known_def selfId_def split: outcome.splits)

end

section \<open>Samples\<close>

text \<open>Two managers start on an empty store; manager 9 has taken the lease and loaded its state.\<close>

definition sample_server :: "NodeId \<Rightarrow> MgmtdState" where
  "sample_server i = MgmtdState_of ''c'' (sample_app\<lparr>app_nodeId := i\<rparr>) default_MgmtdConfig"

definition sample_lease :: MgmtdLeaseInfo where
  "sample_lease = \<lparr>li_primary = ms_selfPersistentNodeInfo (sample_server 9), li_leaseStart = 0, li_leaseEnd = 60000000,
     li_releaseVersion = default_ReleaseVersion\<rparr>"

definition sample_cluster :: cluster where
  "sample_cluster = \<lparr>cl_kv = storeMgmtdLeaseInfo sample_lease [], cl_time = 0,
     cl_server = sample_server(9 := set_lease \<lparr>lease_lease = Some sample_lease, lease_bootstrapping = False\<rparr> (sample_server 9)),
     cl_result = \<lambda>_. None\<rparr>"

lemma sample_server_simps [simp]:
  "selfId (sample_server i) = i" "pn_nodeId (ms_selfPersistentNodeInfo (sample_server i)) = i"
  "md_lease (ms_data (sample_server i)) = \<lparr>lease_lease = None, lease_bootstrapping = False\<rparr>"
  "mc_suspicious_lease_interval (ms_config (sample_server i)) = 20000000" "mc_lease_length (ms_config (sample_server i)) = 60000000"
  by (simp_all add: sample_server_def MgmtdState_of_def selfId_def initSelfNodeInfo_def toPersistentNode_def
      initial_MgmtdData_def default_MgmtdConfig_def)

lemma set_lease_simps [simp]:
  "selfId (set_lease l st) = selfId st" "ms_selfPersistentNodeInfo (set_lease l st) = ms_selfPersistentNodeInfo st"
  "md_lease (ms_data (set_lease l st)) = l" "ms_config (set_lease l st) = ms_config st"
  by (simp_all add: set_lease_def selfId_def)

lemma sample_cluster_reachable: "cluster_reachable 1 sample_cluster"
proof -
  let ?c0 = "\<lparr>cl_kv = [], cl_time = 0, cl_server = sample_server, cl_result = \<lambda>_. None\<rparr>"
  let ?kv = "storeMgmtdLeaseInfo sample_lease []"
  have "cluster_reachable 1 ?c0"
    by (rule cluster_reachable.start) (simp_all add: self_known_def)
  moreover have "extend_lease_handler default_ReleaseVersion (sample_server 9) 0 ([], ()) = (Ret (Some sample_lease), ?kv, ())"
    using loads_ok(1) [of "[]"] loads_ok(2) [of "[]" 9]
    by (simp add: extend_lease_handler_def extendLease_def abs_store_empty sample_lease_def Let_def)
  then have "cluster_step 1 ?c0 (?c0\<lparr>cl_kv := ?kv, cl_result := (cl_result ?c0)(9 := Some (Some sample_lease))\<rparr>)"
    by (intro cluster_step.extend [where now = 0 and rv = default_ReleaseVersion]) simp_all
  ultimately have c1: "cluster_reachable 1 \<lparr>cl_kv = ?kv, cl_time = 0, cl_server = sample_server, cl_result = [9 \<mapsto> Some sample_lease]\<rparr>"
    (is "cluster_reachable 1 ?c1") using cluster_reachable.step by fastforce
  let ?st = "set_lease (take_lease 9 (Some sample_lease) (md_lease (ms_data (sample_server 9)))) (sample_server 9)"
  let ?c2 = "\<lparr>cl_kv = ?kv, cl_time = 0, cl_server = sample_server(9 := ?st), cl_result = \<lambda>_. None\<rparr>"
  from cluster_step.learn [of ?c1 9 "Some sample_lease" 1] have "cluster_step 1 ?c1 ?c2"
    by simp
  from cluster_reachable.step [OF c1 this] have c2: "cluster_reachable 1 ?c2" .
  from cluster_step.work [of ?kv ?c2 9 "set_lease \<lparr>lease_lease = Some sample_lease, lease_bootstrapping = False\<rparr> (sample_server 9)" 1]
  have "cluster_step 1 ?c2 sample_cluster"
    by (simp add: sample_cluster_def self_known_def take_lease_def)
  from cluster_reachable.step [OF c2 this] show ?thesis .
qed

theorem at_most_one_primary_witness:
  "cluster_reachable 1 sample_cluster \<and> acts_as_primary 1 sample_cluster 9 sample_env \<and> \<not> acts_as_primary 1 sample_cluster 8 sample_env"
proof -
  have acts: "acts_as_primary 1 sample_cluster 9 sample_env"
    by (simp add: acts_as_primary_def primary_def ensureSelfIsPrimary_def currentLease_def sample_cluster_def sample_lease_def
        sample_env_def when_error_def)
  have "\<forall>i. 2 * 1 \<le> mc_suspicious_lease_interval (ms_config (cl_server sample_cluster i))"
    by (simp add: sample_cluster_def)
  from at_most_one_primary [OF sample_cluster_reachable this acts, of 8 sample_env] sample_cluster_reachable acts
  show ?thesis by auto
qed

theorem stale_primary_cannot_write_witness:
  "case withReadWriteTxn sample_env (sample_server 8) (\<lambda>_ (kv, u). (Ret (), storeRoutingInfoVersion 5 kv, u)) True
     (cl_kv sample_cluster, ()) of (r, kv', u) \<Rightarrow> kv' = cl_kv sample_cluster \<and> r \<noteq> Ret ()"
proof -
  have "\<forall>l. st_lease (abs_store (cl_kv sample_cluster)) = Some l \<longrightarrow> pn_nodeId (li_primary l) \<noteq> selfId (sample_server 8)"
    by (simp add: sample_cluster_def sample_lease_def)
  from stale_primary_cannot_write [OF _ _ this, where env = sample_env and u = "()" and handler = "\<lambda>_ (kv, u). (Ret (), storeRoutingInfoVersion 5 kv, u)"]
  show ?thesis
    by (auto simp: sample_cluster_def sample_server_def MgmtdState_of_def default_MgmtdConfig_def split: prod.splits)
qed

end
