(* ===== verification/Mgmtd_Service.thy ===== *)
theory Mgmtd_Service
  imports Lease_Protocol
begin

text \<open>
  The management service as a whole: one request per method of \<^verbatim>\<open>fbs/mgmtd/MgmtdServiceDef.h\<close> and one per
  task of \<^verbatim>\<open>MgmtdBackgroundRunner\<close> that works on the shared state. Every operation keeps the contract
  of \<^theory_text>\<open>Mgmtd_Invariant\<close>; so does the dispatcher, and so does every sequence of requests.
\<close>

section \<open>Requests\<close>

datatype request =
    getPrimaryMgmtd string
  | heartbeat string HeartbeatInfo UtcTime
  | registerNode string string NodeId NodeType
  | getRoutingInfo string RoutingInfoVersion
  | setConfig string string NodeType string string
  | getConfig_req string NodeType ConfigVersion bool
  | setChainTable string string ChainTableId "ChainId list" string
  | enableNode string string NodeId
  | disableNode string string NodeId
  | extendClientSession string ExtendClientSessionReq
  | listClientSessions string
  | setNodeTags string string NodeId "TagPair list" SetTagMode
  | unregisterNode string string NodeId
  | setChains string string "ChainSetting list"
  | setUniversalTags string string string "TagPair list" SetTagMode
  | getUniversalTags string string
  | getConfigVersions string
  | getClientSession string string
  | rotateLastSrv_req string string ChainId
  | listOrphanTargets string
  | setPreferredTargetOrder string string ChainId "TargetId list"
  | rotateAsPreferredOrder_req string string ChainId
  | updateChain string string ChainId TargetId "8 word"

datatype response =
    rsp_unit
  | rsp_primary "PersistentNodeInfo option"
  | rsp_config "ConfigInfo option"
  | rsp_routing "FlatRoutingInfo option"
  | rsp_configVersion ConfigVersion
  | rsp_configVersions "(string \<times> ConfigVersion) list"
  | rsp_chainTableVersion ChainTableVersion
  | rsp_session "ConfigInfo option \<times> TagPair list"
  | rsp_clientSession "bool \<times> FlatClientSession option \<times> TagPair list"
  | rsp_clientSessions "bool \<times> FlatClientSession list \<times> (string \<times> TagPair list) list"
  | rsp_node NodeInfo
  | rsp_tags "TagPair list"
  | rsp_targets "TargetInfo list"
  | rsp_chain ChainInfo

definition respond :: "('a \<Rightarrow> response) \<Rightarrow> 'a operation \<Rightarrow> response operation" where
  "respond f m = sbind m (\<lambda>x. ret (f x))"

definition MgmtdOperator :: "op_env \<Rightarrow> request \<Rightarrow> response operation" where
  "MgmtdOperator env req =
     (case req of
        getPrimaryMgmtd cid \<Rightarrow> respond rsp_primary (GetPrimaryMgmtdOperation env cid)
      | heartbeat cid hb t \<Rightarrow> respond rsp_config (HeartbeatOperation env cid hb t)
      | registerNode cid tok i ty \<Rightarrow> respond (\<lambda>_. rsp_unit) (RegisterNodeOperation env cid tok i ty)
      | getRoutingInfo cid v \<Rightarrow> respond rsp_routing (GetRoutingInfoOperation env cid v)
      | setConfig cid tok ty content desc \<Rightarrow> respond rsp_configVersion (SetConfigOperation env cid tok ty content desc)
      | getConfig_req cid ty v exact \<Rightarrow> respond rsp_config (GetConfigOperation env cid ty v exact)
      | setChainTable cid tok i cids desc \<Rightarrow> respond rsp_chainTableVersion (SetChainTableOperation env cid tok i cids desc)
      | enableNode cid tok i \<Rightarrow> respond (\<lambda>_. rsp_unit) (EnableNodeOperation env cid tok i)
      | disableNode cid tok i \<Rightarrow> respond (\<lambda>_. rsp_unit) (DisableNodeOperation env cid tok i)
      | extendClientSession cid r \<Rightarrow> respond rsp_session (ExtendClientSessionOperation env cid r)
      | listClientSessions cid \<Rightarrow> respond rsp_clientSessions (ListClientSessionsOperation env cid)
      | setNodeTags cid tok i tags mode \<Rightarrow> respond rsp_node (SetNodeTagsOperation env cid tok i tags mode)
      | unregisterNode cid tok i \<Rightarrow> respond (\<lambda>_. rsp_unit) (UnregisterNodeOperation env cid tok i)
      | setChains cid tok settings \<Rightarrow> respond (\<lambda>_. rsp_unit) (SetChainsOperation env cid tok settings)
      | setUniversalTags cid tok i tags mode \<Rightarrow> respond rsp_tags (SetUniversalTagsOperation env cid tok i tags mode)
      | getUniversalTags cid i \<Rightarrow> respond rsp_tags (GetUniversalTagsOperation env cid i)
      | getConfigVersions cid \<Rightarrow> respond rsp_configVersions (GetConfigVersionsOperation env cid)
      | getClientSession cid i \<Rightarrow> respond rsp_clientSession (GetClientSessionOperation env cid i)
      | rotateLastSrv_req cid tok c \<Rightarrow> respond rsp_chain (RotateLastSrvOperation env cid tok c)
      | listOrphanTargets cid \<Rightarrow> respond rsp_targets (ListOrphanTargetsOperation env cid)
      | setPreferredTargetOrder cid tok c order \<Rightarrow> respond rsp_chain (SetPreferredTargetOrderOperation env cid tok c order)
      | rotateAsPreferredOrder_req cid tok c \<Rightarrow> respond rsp_chain (RotateAsPreferredOrderOperation env cid tok c)
      | updateChain cid tok c t mode \<Rightarrow> respond rsp_chain (UpdateChainOperation env cid tok c t mode))"

text \<open>The background tasks of a primary, except the extension of the lease and the loading of locations,
  which have theories of their own.\<close>

datatype task =
    checkClientSessions
  | checkNewBornChains SteadyTime
  | checkHeartbeat SteadyTime
  | updateChains SteadyTime bool
  | bumpRoutingInfoVersion
  | persistTargetInfo SteadyTime

definition MgmtdBackgroundRunner :: "op_env \<Rightarrow> task \<Rightarrow> unit operation" where
  "MgmtdBackgroundRunner env t =
     (case t of
        checkClientSessions \<Rightarrow> CheckClientSessions env
      | checkNewBornChains now \<Rightarrow> CheckNewBornChains env now
      | checkHeartbeat now \<Rightarrow> CheckHeartbeat env now
      | updateChains lastUpdateTs lastAdjustTargetOrderFlag \<Rightarrow> discard (UpdateChains env lastUpdateTs lastAdjustTargetOrderFlag)
      | bumpRoutingInfoVersion \<Rightarrow> BumpRoutingInfoVersion env
      | persistTargetInfo now \<Rightarrow> PersistTargetInfo env now)"

definition MgmtdProcess :: "op_env \<Rightarrow> request + task \<Rightarrow> unit operation" where
  "MgmtdProcess env q = (case q of Inl req \<Rightarrow> discard (MgmtdOperator env req) | Inr t \<Rightarrow> MgmtdBackgroundRunner env t)"

section \<open>Contracts\<close>

text \<open>
  What a request has to satisfy beyond the invariant for the process not to abort; each condition
  excludes one of the aborts that are proved in the theories of the operations.
\<close>

definition admissible :: "request + task \<Rightarrow> kv \<times> MgmtdState \<Rightarrow> bool" where
  "admissible q s = (case q of
     Inl (setConfig cid tok ty content desc) \<Rightarrow> config_settable ty s
   | Inl (getConfig_req cid ty v exact) \<Rightarrow> version_known ty v exact s
   | Inl (extendClientSession cid req) \<Rightarrow> known_release (csd_releaseVersion (ecs_data req))
   | Inl (setChains cid tok settings) \<Rightarrow> chains_settable settings s
   | Inr checkClientSessions \<Rightarrow> distinct (map fst (ms_clientSessionMap (snd s)))
   | _ \<Rightarrow> True)"

lemma op_post_respond: "op_post env s (m s) \<Longrightarrow> op_post env s (respond f m s)"
  by (auto simp: respond_def sbind_def ret_def op_post_def split: outcome.splits prod.splits)

lemma check_sessions_post:
  assumes inv: "mgmtd_inv s" and "distinct (map fst (ms_clientSessionMap (snd s)))"
  shows "op_post env s (CheckClientSessions env s)"
proof (cases "ensureSelfIsPrimary env s = (Ret (), s)")
  case True
  from CheckClientSessions_exact [OF assms(2) True] obtain m where
    "CheckClientSessions env s = (Ret (), fst s, (snd s)\<lparr>ms_clientSessionMap := m\<rparr>)" by blast
  then show ?thesis by (simp add: post_sessions [OF inv])
next
  case False
  then have "\<exists>r. CheckClientSessions env s = (r, s) \<and> r \<noteq> Crash"
    using checks_pure(3) [of env s] by (auto simp: CheckClientSessions_def doAsPrimary_def sbind_def split: outcome.splits)
  then show ?thesis using op_post_unchanged [OF inv] by auto
qed

lemmas request_contracts =
  get_primary.contract [simplified]
  heartbeat.contract [where q = "(a, b, c)" for a b c, simplified]
  register_node.contract [where q = "(a, b, c, d)" for a b c d, simplified]
  get_routing_info.contract [where q = "(a, b)" for a b, simplified]
  set_config.contract [where q = "(a, b, c, d, e)" for a b c d e, simplified]
  get_config.contract [where q = "(a, b, c, d)" for a b c d, simplified]
  set_chain_table.contract [where q = "(a, b, c, d, e)" for a b c d e, simplified]
  enable_node.contract [where q = "(a, b, c)" for a b c, simplified]
  disable_node.contract [where q = "(a, b, c)" for a b c, simplified]
  extend_client_session.contract [where q = "(a, b)" for a b, simplified]
  list_client_sessions.contract [simplified]
  set_node_tags.contract [where q = "(a, b, c, d, e)" for a b c d e, simplified]
  unregister_node.contract [where q = "(a, b, c)" for a b c, simplified]
  set_chains.contract [where q = "(a, b, c)" for a b c, simplified]
  set_universal_tags.contract [where q = "(a, b, c, d, e)" for a b c d e, simplified]
  get_universal_tags.contract [where q = "(a, b)" for a b, simplified]
  get_config_versions.contract [simplified]
  get_client_session.contract [where q = "(a, b)" for a b, simplified]
  rotate_last_srv.contract [where q = "(a, b, c)" for a b c, simplified]
  list_orphan_targets.contract [simplified]
  set_preferred_target_order.contract [where q = "(a, b, c, d)" for a b c d, simplified]
  rotate_as_preferred_order.contract [where q = "(a, b, c)" for a b c, simplified]
  update_chain.contract [where q = "(a, b, c, d, e)" for a b c d e, simplified]

lemmas task_contracts =
  update_chains.contract [where q = "(a, b)" for a b, simplified]
  check_heartbeat.contract [simplified]
  check_newborn_chains.contract [simplified]
  bump_version.contract [simplified]
  persist_target_info.contract [simplified]

lemma operator_post:
  assumes "mgmtd_inv s" and "admissible (Inl req) s"
  shows "op_post env s (MgmtdOperator env req s)"
  using assms by (cases req) (simp_all add: MgmtdOperator_def admissible_def op_post_respond request_contracts)

lemma runner_post:
  assumes "mgmtd_inv s" and "admissible (Inr t) s"
  shows "op_post env s (MgmtdBackgroundRunner env t s)"
  using assms
  by (cases t) (simp_all add: MgmtdBackgroundRunner_def admissible_def op_post_discard check_sessions_post task_contracts)

interpretation process: writer MgmtdProcess admissible
proof
  fix s env and q :: "request + task"
  assume inv: "mgmtd_inv s" "admissible q s"
  then show "op_post env s (MgmtdProcess env q s)"
    by (cases q) (simp_all add: MgmtdProcess_def op_post_discard operator_post runner_post)
qed

section \<open>Sequences of requests\<close>

text \<open>
  C10: a primary whose memory agrees with its store answers any sequence of admissible requests and
  background tasks without aborting and ends with memory and store in agreement, as long as no commit
  ends with an unknown result. Requests and tasks are taken one after the other, and what they have to
  satisfy to be admissible is in the definition of that name.
\<close>

theorem service_never_aborts:
  assumes "mgmtd_inv s" and "all_allowed MgmtdProcess admissible qs s" and "\<forall>q \<in> set qs. clean (env_attempts (fst q))"
  shows "Crash \<notin> set (fst (run_seq MgmtdProcess qs s)) \<and> mgmtd_inv (snd (run_seq MgmtdProcess qs s))"
  using process.sequence_step [OF assms] by blast

text \<open>
  C11: versions identify what clients and storage services cache of a chain. In a sequence of admissible
  requests and tasks of which no commit ends with an unknown result, if the routing version at the end
  is the one from the start, there are the same chains with the same versions and targets; and a chain
  that has kept its version has kept its targets with their states. The preferred order of the targets
  is not covered: a request may change it under an unchanged version. The sequence is shorter than the
  range of a chain version.
\<close>

theorem versions_identify_chains:
  assumes "mgmtd_inv s" and "all_allowed MgmtdProcess admissible qs s" and "\<forall>q \<in> set qs. clean (env_attempts (fst q))"
    and "length qs < 2 ^ 32" and s': "s' = snd (run_seq MgmtdProcess qs s)"
  shows "(\<forall>cid c c'. map_of (ri_chains (routing s)) cid = Some c \<longrightarrow> map_of (ri_chains (routing s')) cid = Some c' \<longrightarrow>
      ci_chainVersion c' = ci_chainVersion c \<longrightarrow> ci_targets c' = ci_targets c) \<and>
    (ri_routingInfoVersion (routing s') = ri_routingInfoVersion (routing s) \<longrightarrow>
      (\<forall>cid. rel_option same_epoch (map_of (ri_chains (routing s)) cid) (map_of (ri_chains (routing s')) cid)))"
proof (intro conjI)
  obtain k where k: "k \<le> length qs" "routing_risen k (routing s) (routing s')"
    using process.sequence_step [OF assms(1-3)] routing_steps_risen unfolding s' by blast
  have chain: "\<exists>c'. map_of (ri_chains (routing s')) cid = Some c' \<and> chain_risen k c c'"
    if "map_of (ri_chains (routing s)) cid = Some c" for cid c
    using k(2) that by (auto simp: routing_risen_def)
  show "\<forall>cid c c'. map_of (ri_chains (routing s)) cid = Some c \<longrightarrow> map_of (ri_chains (routing s')) cid = Some c' \<longrightarrow>
      ci_chainVersion c' = ci_chainVersion c \<longrightarrow> ci_targets c' = ci_targets c"
    using chain chain_risen_same k(1) assms(4) by fastforce
  show "ri_routingInfoVersion (routing s') = ri_routingInfoVersion (routing s) \<longrightarrow>
      (\<forall>cid. rel_option same_epoch (map_of (ri_chains (routing s)) cid) (map_of (ri_chains (routing s')) cid))"
  proof (intro impI allI)
    fix cid
    assume "ri_routingInfoVersion (routing s') = ri_routingInfoVersion (routing s)"
    with k assms(4) have "k = 0" by (intro routing_risen_same [OF k(2)]) simp_all
    with chain k(2) show "rel_option same_epoch (map_of (ri_chains (routing s)) cid) (map_of (ri_chains (routing s')) cid)"
      by (cases "map_of (ri_chains (routing s)) cid")
        (fastforce simp: routing_risen_def chain_risen_def same_epoch_def)+
  qed
qed

section \<open>Heartbeats\<close>

lemma sbind_Ret:
  "sbind m f s = (Ret y, s') \<longleftrightarrow> (\<exists>x s1. m s = (Ret x, s1) \<and> f x s1 = (Ret y, s'))"
  by (auto simp: sbind_def split: outcome.splits prod.splits)

lemma check_Ret:
  "validateClusterId cid s = (Ret x, s1) \<Longrightarrow> s1 = s" "ensureSelfIsPrimary env s = (Ret x, s1) \<Longrightarrow> s1 = s"
  using checks_pure(1) [of cid s] checks_pure(3) [of env s] by auto

lemma heartbeat_memory_nodes:
  assumes "ri_wf ri" and run: "heartbeat_memory env config hb n bump changed ri = Some ri'"
  shows "\<exists>nw'. map_of (ri_nodeMap ri') = (map_of (ri_nodeMap ri))(app_nodeId (hb_app hb) \<mapsto> nw') \<and>
    nw_base nw' = n\<lparr>ni_lastHeartbeatTs := env_now env\<rparr> \<and> nw_version nw' = hb_hbVersion hb \<and> nw_ts nw' = env_steadyNow env"
proof -
  let ?i = "app_nodeId (hb_app hb)"
  let ?put = "\<lambda>info. info\<lparr>nw_base := n\<lparr>ni_lastHeartbeatTs := env_now env\<rparr>, nw_ts := env_steadyNow env, nw_version := hb_hbVersion hb\<rparr>"
  define ri2 where "ri2 = update_node ?i (env_steadyNow env) ?put (ri\<lparr>ri_routingInfoChanged := ri_routingInfoChanged ri \<or> changed\<rparr>)"
  have wf: "ri_wf ri2" using assms(1) by (simp add: ri2_def update_node_wf)
  obtain ri3 where targets: "(case hb_info hb of
       StorageHeartbeat ltis \<Rightarrow> localUpdateTargets ?i ltis (mc_heartbeat_ignore_stale_targets config) (env_steadyNow env) ri2
     | _ \<Rightarrow> Some ri2) = Some ri3" and ri3: "ri_nodeMap ri3 = ri_nodeMap ri2"
  proof (cases "hb_info hb")
    case (StorageHeartbeat ltis)
    with localUpdateTargets_wf [OF wf, of ?i ltis "mc_heartbeat_ignore_stale_targets config" "env_steadyNow env"] that
    show ?thesis by (auto simp: same_outside_targets_def)
  qed (use that in simp_all)
  have ri': "ri' = (let ri4 = (if bump then bump_routing ri3 else ri3) in if changed
      then update_node ?i (env_steadyNow env) (recordStatusChange (ni_status n) (env_now env)) ri4 else ri4)"
    using run unfolding heartbeat_memory_def Let_def ri2_def [symmetric] targets by simp
  obtain nw2 where nw2: "map_of (ri_nodeMap ri2) = (map_of (ri_nodeMap ri))(?i \<mapsto> ?put nw2)"
    unfolding ri2_def map_of_update_node by auto
  show ?thesis
    by (cases changed) (auto simp: ri' Let_def ri3 map_of_update_node nw2 recordStatusChange_def)
qed

lemma prepareNewNodeInfo_Inr:
  assumes "prepareNewNodeInfo config now old hb = Inr n"
  shows "ni_status n = HEARTBEAT_CONNECTED" "ni_app n = hb_app hb" "ni_type n = hb_type hb"
    "\<And>nw. old = Some nw \<Longrightarrow> nw_version nw < hb_hbVersion hb \<and> ni_status (nw_base nw) \<noteq> DISABLED \<and> ni_type (nw_base nw) = hb_type hb"
  using assms by (auto simp: prepareNewNodeInfo_def onNewNode_def onNodeChanged_def split: option.splits if_splits)

text \<open>What an accepted heartbeat has passed and what it has done.\<close>

lemma heartbeat_Ret:
  assumes inv: "mgmtd_inv s" and run: "HeartbeatOperation env cid hb t s = (Ret cfg, s')"
  shows "\<exists>n nw'. prepareNewNodeInfo (ms_config (snd s)) (env_now env)
      (map_of (ri_nodeMap (routing s)) (app_nodeId (hb_app hb))) hb = Inr n \<and>
    map_of (ri_nodeMap (routing s')) = (map_of (ri_nodeMap (routing s)))(app_nodeId (hb_app hb) \<mapsto> nw') \<and>
    nw_base nw' = n\<lparr>ni_lastHeartbeatTs := env_now env\<rparr> \<and> nw_version nw' = hb_hbVersion hb \<and> nw_ts nw' = env_steadyNow env"
proof -
  have run: "handle_heartbeat env hb t s = (Ret cfg, s')"
    using run by (auto simp: HeartbeatOperation_def doAsPrimary_def sbind_Ret dest!: check_Ret)
  then obtain old n where prep: "prepareHandleHeartbeat (snd s) (env_now env) hb = Ret (old, n)"
    by (auto simp: handle_heartbeat_def Let_def fail_def sbind_Ret try_outcome_def split: if_splits)
  obtain bump changed kv' where "change_routing (heartbeat_memory env (ms_config (snd s)) hb n bump changed) (kv', snd s) = (Ret (), s')"
    using run prep unfolding handle_heartbeat_def Let_def
    by (auto simp: sbind_Ret try_outcome_def fail_def ret_def updateStoredRoutingInfo_def store_txn_def Let_def
        split: if_splits prod.splits)
  then obtain ri' where ri': "heartbeat_memory env (ms_config (snd s)) hb n bump changed (routing s) = Some ri'" "routing s' = ri'"
    by (auto simp: change_routing_def split: option.splits)
  have "prepareNewNodeInfo (ms_config (snd s)) (env_now env) (map_of (ri_nodeMap (routing s)) (app_nodeId (hb_app hb))) hb = Inr n"
    using prep by (auto simp: prepareHandleHeartbeat_def Let_def obind_eq_Ret of_result_def split: sum.splits)
  with heartbeat_memory_nodes [OF mgmtd_invD(2) [OF inv] ri'(1)] ri'(2) show ?thesis by auto
qed

text \<open>
  C23: a heartbeat is accepted only if its version is above that of the last accepted one, and only from
  a node that is not disabled and still has its type. It makes the node connected, records its
  version and time, and leaves the other nodes alone; sent again, the same heartbeat is refused.
\<close>

theorem heartbeat_once:
  assumes inv: "mgmtd_inv s" and run: "HeartbeatOperation env cid hb t s = (Ret cfg, s')"
    and clean: "clean (env_attempts env)"
  shows "(\<forall>nw. map_of (ri_nodeMap (routing s)) (app_nodeId (hb_app hb)) = Some nw \<longrightarrow>
      nw_version nw < hb_hbVersion hb \<and> ni_status (nw_base nw) \<noteq> DISABLED \<and> ni_type (nw_base nw) = hb_type hb) \<and>
    (\<exists>nw'. map_of (ri_nodeMap (routing s')) = (map_of (ri_nodeMap (routing s)))(app_nodeId (hb_app hb) \<mapsto> nw') \<and>
      ni_status (nw_base nw') = HEARTBEAT_CONNECTED \<and> ni_app (nw_base nw') = hb_app hb \<and>
      nw_version nw' = hb_hbVersion hb \<and> nw_ts nw' = env_steadyNow env) \<and>
    fst (HeartbeatOperation env' cid hb t' s') \<noteq> Ret cfg'"
proof -
  obtain n nw' where n: "prepareNewNodeInfo (ms_config (snd s)) (env_now env)
      (map_of (ri_nodeMap (routing s)) (app_nodeId (hb_app hb))) hb = Inr n"
    and nw': "map_of (ri_nodeMap (routing s')) = (map_of (ri_nodeMap (routing s)))(app_nodeId (hb_app hb) \<mapsto> nw')"
      "nw_base nw' = n\<lparr>ni_lastHeartbeatTs := env_now env\<rparr>" "nw_version nw' = hb_hbVersion hb" "nw_ts nw' = env_steadyNow env"
    using heartbeat_Ret [OF inv run] by blast
  have inv': "mgmtd_inv s'"
    using heartbeat.one_step(2) [OF inv _ clean, of "(cid, hb, t)"] run by simp
  have "fst (HeartbeatOperation env' cid hb t' s') \<noteq> Ret cfg'"
    using heartbeat_Ret [OF inv', of env' cid hb t' cfg'] nw'(1,3) prepareNewNodeInfo_Inr(4)
    by (metis fun_upd_same order_less_irrefl prod.collapse)
  then show ?thesis
    using nw' prepareNewNodeInfo_Inr [OF n] by auto
qed

section \<open>Typed stores\<close>

text \<open>
  C31: the store stays well typed. Whatever the outcome of the commits, also if it is unknown, after an
  admissible request every entry has the type of its key, and the six loads of the next primary find
  no corrupt entry; the lease is the one from before.
\<close>

theorem store_stays_loadable:
  assumes "mgmtd_inv s" and "admissible q s"
  shows "case MgmtdProcess env q s of (r, kv', st') \<Rightarrow>
    kv_ok kv' \<and> fst (load_all env' (\<lambda>_. None) kv' (initial_NewLease st)) = None \<and>
    loadMgmtdLeaseInfo kv' = loadMgmtdLeaseInfo (fst s)"
proof -
  obtain r kv' st' where run: "MgmtdProcess env q s = (r, kv', st')" by (rule prod_cases3)
  have post: "kv_ok kv'" "st_lease (abs_store kv') = st_lease (abs_store (fst s))"
    using process.contract [OF assms, of env] by (auto simp: run op_post_def mgmtd_inv_def split: outcome.splits)
  have kept: "fst (try_load None load acc) = fst acc" if "\<And>l. \<exists>l'. load l = Inr l'" for load acc
    using that [of "snd acc"] by (auto simp: try_load_def)
  have "\<exists>l'. load_version kv' l = Inr l'" "\<exists>l'. load_nodes env' kv' l = Inr l'" "\<exists>l'. load_configs kv' l = Inr l'"
    "\<exists>l'. load_chainTables kv' l = Inr l'" "\<exists>l'. load_chains env' kv' l = Inr l'" "\<exists>l'. load_tags kv' l = Inr l'" for l
    using loadRoutingInfoVersion_ok [OF post(1)] loadAllNodes_ok [OF post(1)] loadAllConfigs_ok [OF post(1)]
      loadAllChainTables_ok [OF post(1)] loadAllChains_ok [OF post(1)] loadAllUniversalTags_ok [OF post(1)]
    by (auto simp: load_version_def load_nodes_def load_configs_def load_chainTables_def load_chains_def load_tags_def)
  note kept [OF this(1)] kept [OF this(2)] kept [OF this(3)] kept [OF this(4)] kept [OF this(5)] kept [OF this(6)]
  then show ?thesis
    using post assms(1) by (simp add: run load_all_def loads_ok(1) mgmtd_inv_def)
qed

section \<open>Samples\<close>

definition sample_requests :: "(op_env \<times> (request + task)) list" where
  "sample_requests = [(sample_env, Inl (updateChain ''c'' [] 1 2 UPDATE_ADD)), (sample_env, Inr (checkHeartbeat 0)),
     (sample_env, Inl (rotateLastSrv_req ''c'' [] 1)), (sample_env, Inr bumpRoutingInfoVersion)]"

lemma sample_requests_ok: "all_allowed MgmtdProcess admissible sample_requests sample_state"
  "\<forall>q \<in> set sample_requests. clean (env_attempts (fst q))" "length sample_requests < 2 ^ 32"
  by (simp_all add: sample_requests_def admissible_def clean_def sample_env_def)

theorem service_never_aborts_witness:
  "Crash \<notin> set (fst (run_seq MgmtdProcess sample_requests sample_state)) \<and>
   mgmtd_inv (snd (run_seq MgmtdProcess sample_requests sample_state))"
  by (rule service_never_aborts [OF sample_inv sample_requests_ok(1,2)])

theorem versions_identify_chains_witness:
  "rel_option (\<lambda>c c'. ci_chainVersion c' = ci_chainVersion c \<longrightarrow> ci_targets c' = ci_targets c)
     (map_of (ri_chains (routing sample_state)) 1)
     (map_of (ri_chains (routing (snd (run_seq MgmtdProcess sample_requests sample_state)))) 1)"
proof -
  note run = process.sequence_step [OF sample_inv sample_requests_ok(1,2)]
  have c: "map_of (ri_chains (routing sample_state)) 1 = Some sample_chain"
    by (simp add: sample_state_def sample_State_def sample_Data_def sample_RoutingInfo_def)
  with run obtain c' where "map_of (ri_chains (routing (snd (run_seq MgmtdProcess sample_requests sample_state)))) 1 = Some c'"
    using routing_steps_risen unfolding routing_risen_def by meson
  with c versions_identify_chains [OF sample_inv sample_requests_ok refl] show ?thesis by auto
qed

definition unknown_env :: op_env where
  "unknown_env = sample_env\<lparr>env_attempts := [(0, CommitUnknown (Transaction kMaybeCommitted))]\<rparr>"

theorem store_stays_loadable_witness:
  "case MgmtdProcess unknown_env (Inl (updateChain ''c'' [] 1 2 UPDATE_ADD)) sample_state of (r, kv', st') \<Rightarrow>
    kv_ok kv' \<and> fst (load_all sample_env (\<lambda>_. None) kv' (initial_NewLease sample_State)) = None \<and>
    loadMgmtdLeaseInfo kv' = loadMgmtdLeaseInfo (fst sample_state)"
  by (rule store_stays_loadable [OF sample_inv]) (simp add: admissible_def)

definition sample_heartbeat :: HeartbeatInfo where
  "sample_heartbeat = \<lparr>hb_info = MetaHeartbeat, hb_app = sample_app\<lparr>app_nodeId := 5\<rparr>, hb_hbVersion = 1, hb_configVersion = 0,
     hb_configStatus = CS_NORMAL\<rparr>"

definition open_state :: "kv \<times> MgmtdState" where
  "open_state = (sample_kv, sample_State\<lparr>ms_config := default_MgmtdConfig\<lparr>mc_allow_heartbeat_from_unregistered := True\<rparr>\<rparr>)"

lemma open_state_inv: "mgmtd_inv open_state"
  using sample_inv by (simp add: mgmtd_inv_def sample_state_def open_state_def)

lemma open_state_commits: "commits sample_env open_state"
  using sample_commits
  by (simp add: commits_def open_state_def sample_state_def selfId_def sample_State_def MgmtdState_of_def default_MgmtdConfig_def)

lemma sample_heartbeat_accepted: "\<exists>cfg s'. HeartbeatOperation sample_env ''c'' sample_heartbeat 0 open_state = (Ret cfg, s')"
proof -
  have node: "map_of (ri_nodeMap (routing open_state)) 5 = None"
    by (simp add: open_state_def sample_State_def sample_Data_def sample_RoutingInfo_def initial_RoutingInfo_def)
  have prim: "ensureSelfIsPrimary sample_env open_state = (Ret (), open_state)"
    by (simp add: open_state_def ensureSelfIsPrimary_def currentLease_def sample_State_def MgmtdState_of_def sample_env_def
        when_error_def default_MgmtdConfig_def selfId_def sample_app_def initSelfNodeInfo_def toPersistentNode_def)
  have state: "env_now sample_env = 0" "selfId (snd open_state) = 9" "ms_clusterId (snd open_state) = ''c''"
    "mc_allow_heartbeat_from_unregistered (ms_config (snd open_state))"
    "mc_heartbeat_timestamp_valid_window (ms_config (snd open_state)) = 30000000"
    by (simp_all add: sample_env_def open_state_def selfId_def sample_State_def MgmtdState_of_def sample_app_def default_MgmtdConfig_def)
  let ?n = "onNewNode sample_heartbeat 0" and ?data = "ms_data (snd open_state)"
  have hb: "hb_type sample_heartbeat = META" "app_nodeId (hb_app sample_heartbeat) = 5" "hb_info sample_heartbeat = MetaHeartbeat"
    "hb_configVersion sample_heartbeat = 0"
    by (simp_all add: hb_type_def sample_heartbeat_def)
  have check: "checkConfigVersion ?data META 0 = Ret ()"
    using configs_wf_latest [OF mgmtd_invD(5) [OF open_state_inv], of META] by (auto simp: checkConfigVersion_def)
  then have prep: "prepareHandleHeartbeat (snd open_state) 0 sample_heartbeat = Ret (None, ?n)"
    using node by (simp add: prepareHandleHeartbeat_def Let_def hb prepareNewNodeInfo_def of_result_def state(4))
  obtain kv' where store: "updateStoredRoutingInfo sample_env (\<lambda>kv. Inr (storeNodeInfo (toPersistentNode ?n) kv)) open_state =
      (Ret (), kv', snd open_state)"
    by (rule that [OF updateStoredRoutingInfo_commits [OF open_state_commits refl]])
  have app: "app_nodeId (ni_app ?n) = app_nodeId (hb_app sample_heartbeat)"
    by (simp add: onNewNode_def)
  obtain ri' where mem: "heartbeat_memory sample_env (ms_config (snd open_state)) sample_heartbeat ?n True True (routing open_state) = Some ri'"
    using heartbeat_memory_ok [OF mgmtd_invD(2,3) [OF open_state_inv] app] by blast
  obtain cfg where cfg: "getConfig ?data META 0 True = Ret cfg"
    using getConfig_checked [OF mgmtd_invD(5) [OF open_state_inv] check] by blast
  have "handle_heartbeat sample_env sample_heartbeat 0 open_state = (Ret cfg, kv', set_routing ri' (snd open_state))"
    using prep store mem cfg config_reads_cong [of "ms_data (set_routing ri' (snd open_state))" ?data]
    by (simp add: handle_heartbeat_def Let_def state hb try_outcome_def sbind_def change_routing_def)
  with prim show ?thesis
    by (auto simp: HeartbeatOperation_def doAsPrimary_def sbind_def validateClusterId_def when_error_def state)
qed

theorem heartbeat_once_witness:
  "\<exists>cfg s'. HeartbeatOperation sample_env ''c'' sample_heartbeat 0 open_state = (Ret cfg, s') \<and>
    (\<forall>cfg'. fst (HeartbeatOperation sample_env ''c'' sample_heartbeat 0 s') \<noteq> Ret cfg')"
proof -
  obtain cfg s' where run: "HeartbeatOperation sample_env ''c'' sample_heartbeat 0 open_state = (Ret cfg, s')"
    using sample_heartbeat_accepted by blast
  have "clean (env_attempts sample_env)" by (simp add: clean_def sample_env_def)
  from heartbeat_once [OF open_state_inv run this] run show ?thesis by blast
qed

end
