(* ===== verification/Checksums.thy ===== *)
theory Checksums
  imports Prelude
begin

text \<open>
  Checksums of chunks (\<^verbatim>\<open>ChecksumInfo\<close> of \<^verbatim>\<open>src/src/fbs/storage/Common.h\<close>): a checksum over the blocks an
  iterator delivers, and the combination of the checksums of two adjacent pieces.

  The CRC functions are those of the folly library, a parameter (\<open>checksum_lib\<close>). What the code relies
  on is \<open>checksum_lib_ok\<close>: a CRC may be computed piecewise, and \<open>combine c1 c2 n\<close> is \<open>c2\<close> with \<open>c1\<close> shifted
  over \<open>n\<close> bytes added to its initial value. The bitwise CRC at the end of the theory satisfies it.

  An iterator is a state with a function to the next block; the locales \<open>data_iterator\<close> and
  \<open>reliable_iterator\<close> say what it delivers, and the result of \<open>ChecksumInfo_create\<close> is proved once for
  each.
\<close>

unbundle bit_operations_syntax

section \<open>Types\<close>

type_synonym bytes = "8 word list"

datatype ChecksumType = NONE | CRC32C | CRC32

record ChecksumInfo =
  cs_type :: ChecksumType
  cs_value :: "32 word"

record checksum_lib =
  crc32c :: "bytes \<Rightarrow> 32 word \<Rightarrow> 32 word"
  crc32c_combine :: "32 word \<Rightarrow> 32 word \<Rightarrow> nat \<Rightarrow> 32 word"
  crc32 :: "bytes \<Rightarrow> 32 word \<Rightarrow> 32 word"
  crc32_combine :: "32 word \<Rightarrow> 32 word \<Rightarrow> nat \<Rightarrow> 32 word"

definition kChunkSize :: nat where
  "kChunkSize = 1048576"

definition no_checksum :: ChecksumInfo where
  "no_checksum = \<lparr>cs_type = NONE, cs_value = 0\<rparr>"

section \<open>Computing a checksum\<close>

definition crc_of :: "checksum_lib \<Rightarrow> ChecksumType \<Rightarrow> bytes \<Rightarrow> 32 word \<Rightarrow> 32 word" where
  "crc_of lib t data v = (case t of NONE \<Rightarrow> v | CRC32C \<Rightarrow> crc32c lib data v | CRC32 \<Rightarrow> crc32 lib data v)"

text \<open>
  The loop over the blocks, which ends when the iterator is exhausted or enough bytes were seen. An
  iteration that goes on adds at least one byte, so that \<open>Suc len\<close> rounds are enough.
\<close>

fun create_loop ::
  "checksum_lib \<Rightarrow> ChecksumType \<Rightarrow> ('s \<Rightarrow> bytes option \<times> 's) \<Rightarrow> nat \<Rightarrow> nat \<Rightarrow> 's \<Rightarrow> 32 word \<Rightarrow> nat
    \<Rightarrow> 32 word \<times> nat \<times> 's" where
  "create_loop lib t nxt len 0 s v n = (v, n, s)"
| "create_loop lib t nxt len (Suc k) s v n = (case nxt s of
      (None, s') \<Rightarrow> (v, n, s')
    | (Some data, s') \<Rightarrow>
        if n < len then create_loop lib t nxt len k s' (crc_of lib t data v) (n + length data)
        else (v, n, s'))"

definition ChecksumInfo_create ::
  "checksum_lib \<Rightarrow> ChecksumType \<Rightarrow> ('s \<Rightarrow> bytes option \<times> 's) \<Rightarrow> 's \<Rightarrow> nat \<Rightarrow> 32 word \<Rightarrow> ChecksumInfo \<times> 's" where
  "ChecksumInfo_create lib t nxt s len start =
    (if t = NONE then (no_checksum, s)
     else case create_loop lib t nxt len (Suc len) s start 0 of
       (v, n, s') \<Rightarrow> (if n \<noteq> len then no_checksum else \<lparr>cs_type = t, cs_value = v\<rparr>, s'))"

definition MemoryDataIterator_next :: "bytes \<Rightarrow> bytes option \<times> bytes" where
  "MemoryDataIterator_next buf =
    (if buf = [] then (None, buf) else (Some (take kChunkSize buf), drop kChunkSize buf))"

text \<open>The overload on a buffer.\<close>

definition checksum_bytes :: "checksum_lib \<Rightarrow> ChecksumType \<Rightarrow> bytes \<Rightarrow> ChecksumInfo" where
  "checksum_bytes lib t buf =
    fst (ChecksumInfo_create lib t MemoryDataIterator_next buf (length buf) (NOT 0))"

definition combine :: "checksum_lib \<Rightarrow> ChecksumInfo \<Rightarrow> ChecksumInfo \<Rightarrow> nat \<Rightarrow> unit result \<times> ChecksumInfo" where
  "combine lib this o' len =
    (if cs_type this \<noteq> NONE \<and> cs_type this \<noteq> cs_type o' then (Inl (Storage kChecksumMismatch), this)
     else if len = 0 then (Inr (), this)
     else case cs_type this of
         NONE \<Rightarrow> (Inr (), o')
       | CRC32C \<Rightarrow> (Inr (), this\<lparr>cs_value := crc32c_combine lib (NOT (cs_value this)) (cs_value o') len\<rparr>)
       | CRC32 \<Rightarrow> (Inr (), this\<lparr>cs_value := crc32_combine lib (NOT (cs_value this)) (cs_value o') len\<rparr>))"

section \<open>The laws of the CRC functions\<close>

definition crc_ok :: "(bytes \<Rightarrow> 32 word \<Rightarrow> 32 word) \<Rightarrow> (32 word \<Rightarrow> 32 word \<Rightarrow> nat \<Rightarrow> 32 word) \<Rightarrow> bool" where
  "crc_ok crc comb \<longleftrightarrow>
    (\<forall>v. crc [] v = v) \<and>
    (\<forall>a b v. crc (a @ b) v = crc b (crc a v)) \<and>
    (\<forall>b x y. comb x (crc b y) (length b) = crc b (x XOR y))"

definition checksum_lib_ok :: "checksum_lib \<Rightarrow> bool" where
  "checksum_lib_ok lib \<longleftrightarrow>
    crc_ok (crc32c lib) (crc32c_combine lib) \<and> crc_ok (crc32 lib) (crc32_combine lib)"

text \<open>What a checksum is meant to be: the CRC of the whole content.\<close>

definition checksum_of :: "checksum_lib \<Rightarrow> ChecksumType \<Rightarrow> bytes \<Rightarrow> ChecksumInfo" where
  "checksum_of lib t data =
    (if t = NONE then no_checksum else \<lparr>cs_type = t, cs_value = crc_of lib t data (NOT 0)\<rparr>)"

lemma crc_of_append:
  assumes "checksum_lib_ok lib"
  shows "crc_of lib t (a @ b) v = crc_of lib t b (crc_of lib t a v)"
  using assms by (cases t) (simp_all add: crc_of_def checksum_lib_ok_def crc_ok_def)

lemma crc_of_Nil: "checksum_lib_ok lib \<Longrightarrow> crc_of lib t [] v = v"
  by (cases t) (simp_all add: crc_of_def checksum_lib_ok_def crc_ok_def)

lemma checksum_of_type [simp]: "cs_type (checksum_of lib t data) = t"
  by (simp add: checksum_of_def no_checksum_def)

section \<open>Iterators\<close>

text \<open>
  \<open>remaining s\<close> is what the iterator has not delivered yet. A step delivers a non-empty prefix of it or
  gives up.
\<close>

locale data_iterator =
  fixes nxt :: "'s \<Rightarrow> bytes option \<times> 's"
    and remaining :: "'s \<Rightarrow> bytes"
    and valid :: "'s \<Rightarrow> bool"
  assumes nxt_end: "valid s \<Longrightarrow> remaining s = [] \<Longrightarrow> fst (nxt s) = None"
    and nxt_block: "valid s \<Longrightarrow> nxt s = (Some data, s') \<Longrightarrow> data \<noteq> [] \<and> remaining s = data @ remaining s'"
    and nxt_valid: "valid s \<Longrightarrow> valid (snd (nxt s))"
begin

lemma loop_result:
  assumes "checksum_lib_ok lib" "valid s" "length (remaining s) < k"
  shows "\<exists>data s' c. create_loop lib t nxt (n + length (remaining s)) k s v n
      = (crc_of lib t data v, n + length data, s') \<and> valid s' \<and> remaining s = data @ c"
  using assms(2,3)
proof (induction k arbitrary: s v n)
  case (Suc k)
  obtain d s' where nx: "nxt s = (d, s')" by fastforce
  have v': "valid s'" using nxt_valid [OF Suc.prems(1)] nx by simp
  show ?case
  proof (cases d)
    case None
    then show ?thesis
      using nx v' crc_of_Nil [OF assms(1)] by (intro exI [of _ "[]"] exI [of _ s'] exI [of _ "remaining s"]) simp
  next
    case (Some data)
    have blk: "data \<noteq> []" "remaining s = data @ remaining s'"
      using nxt_block Suc.prems(1) nx Some by blast+
    then have "length (remaining s') < k" using Suc.prems(2) by (cases data) simp_all
    from Suc.IH [OF v' this, of "n + length data" "crc_of lib t data v"]
    obtain rest s'' c where "create_loop lib t nxt (n + length data + length (remaining s')) k s'
        (crc_of lib t data v) (n + length data)
        = (crc_of lib t rest (crc_of lib t data v), n + length data + length rest, s'')"
      "valid s''" "remaining s' = rest @ c"
      by (elim exE conjE)
    then show ?thesis
      using nx Some blk
      by (intro exI [of _ "data @ rest"] exI [of _ s''] exI [of _ c])
        (simp add: crc_of_append [OF assms(1)] add.assoc)
  qed
qed simp

lemma create_result:
  assumes "checksum_lib_ok lib" "valid s" "t \<noteq> NONE"
  obtains s' c where "ChecksumInfo_create lib t nxt s (length (remaining s)) (NOT 0) = (c, s')"
    "valid s'" "c = no_checksum \<or> c = checksum_of lib t (remaining s)"
proof -
  let ?len = "length (remaining s)"
  obtain data s' c where r: "create_loop lib t nxt (0 + ?len) (Suc ?len) s (NOT 0) 0
      = (crc_of lib t data (NOT 0), 0 + length data, s')" "valid s'" "remaining s = data @ c"
    using loop_result [OF assms(1,2) lessI, of t 0 "NOT 0"] by (elim exE conjE) (rule that)
  have eq: "ChecksumInfo_create lib t nxt s ?len (NOT 0) =
      (if length data \<noteq> ?len then no_checksum
       else \<lparr>cs_type = t, cs_value = crc_of lib t data (NOT 0)\<rparr>, s')"
    using r(1) assms(3) by (simp add: ChecksumInfo_create_def)
  have "data = remaining s" if "length data = ?len"
    using that r(3) by simp
  then show ?thesis
    using that [OF eq r(2)] assms(3) by (cases "length data = ?len") (simp_all add: checksum_of_def)
qed

end

text \<open>An iterator that never gives up, so that the checksum is that of the whole content.\<close>

locale reliable_iterator = data_iterator +
  assumes nxt_progress: "valid s \<Longrightarrow> remaining s \<noteq> [] \<Longrightarrow> fst (nxt s) \<noteq> None"
begin

lemma loop_complete:
  assumes "checksum_lib_ok lib" "valid s" "length (remaining s) < k"
  shows "\<exists>s'. create_loop lib t nxt (n + length (remaining s)) k s v n
      = (crc_of lib t (remaining s) v, n + length (remaining s), s')"
  using assms(2,3)
proof (induction k arbitrary: s v n)
  case (Suc k)
  show ?case
  proof (cases "remaining s = []")
    case True
    then show ?thesis
      using nxt_end [OF Suc.prems(1)] crc_of_Nil [OF assms(1)] by (auto split: prod.splits)
  next
    case False
    then obtain data s' where nx: "nxt s = (Some data, s')"
      using nxt_progress [OF Suc.prems(1)] by (metis not_None_eq prod.collapse)
    have blk: "data \<noteq> []" "remaining s = data @ remaining s'"
      using nxt_block Suc.prems(1) nx by blast+
    have v': "valid s'" using nxt_valid [OF Suc.prems(1)] nx by simp
    have "length (remaining s') < k" using blk Suc.prems(2) by (cases data) simp_all
    from Suc.IH [OF v' this, of "n + length data" "crc_of lib t data v"]
    show ?thesis
      using nx blk by (simp add: crc_of_append [OF assms(1)] add.assoc)
  qed
qed simp

lemma create_complete:
  assumes "checksum_lib_ok lib" "valid s"
  shows "fst (ChecksumInfo_create lib t nxt s (length (remaining s)) (NOT 0)) = checksum_of lib t (remaining s)"
proof -
  obtain s' where "create_loop lib t nxt (0 + length (remaining s)) (Suc (length (remaining s))) s (NOT 0) 0
      = (crc_of lib t (remaining s) (NOT 0), 0 + length (remaining s), s')"
    using loop_complete [OF assms lessI, of t 0 "NOT 0"] by (elim exE) (rule that)
  then show ?thesis
    by (simp add: ChecksumInfo_create_def checksum_of_def del: create_loop.simps)
qed

end

interpretation memory: reliable_iterator MemoryDataIterator_next "\<lambda>buf. buf" "\<lambda>_. True"
  by unfold_locales (auto simp: MemoryDataIterator_next_def kChunkSize_def split: if_splits)

section \<open>Checksums of pieces\<close>

lemma checksum_bytes_correct:
  "checksum_lib_ok lib \<Longrightarrow> checksum_bytes lib t buf = checksum_of lib t buf"
  unfolding checksum_bytes_def by (rule memory.create_complete) simp_all

lemma combine_correct:
  assumes "checksum_lib_ok lib" "t \<noteq> NONE"
  shows "combine lib (checksum_of lib t a) (checksum_of lib t b) (length b) = (Inr (), checksum_of lib t (a @ b))"
proof -
  have "crc_of lib t b v = v" if "length b = 0" for v
    using that crc_of_Nil [OF assms(1)] by simp
  moreover have "crc32c_combine lib (NOT v) (crc32c lib b (NOT 0)) (length b) = crc32c lib b v"
    "crc32_combine lib (NOT v) (crc32 lib b (NOT 0)) (length b) = crc32 lib b v" for v
    using assms(1) by (simp_all add: checksum_lib_ok_def crc_ok_def)
  moreover have "crc32c lib (a @ b) v = crc32c lib b (crc32c lib a v)"
    "crc32 lib (a @ b) v = crc32 lib b (crc32 lib a v)" for v
    using assms(1) by (simp_all add: checksum_lib_ok_def crc_ok_def)
  ultimately show ?thesis
    using assms(2) by (cases t) (auto simp: combine_def checksum_of_def crc_of_def)
qed

lemma combine_empty:
  "cs_type c \<noteq> NONE \<Longrightarrow> cs_type c = cs_type d \<Longrightarrow> combine lib c d 0 = (Inr (), c)"
  by (simp add: combine_def)

section \<open>A bitwise CRC\<close>

text \<open>The reflected CRC with polynomial \<open>p\<close>, one bit at a time.\<close>

definition crc_bit :: "32 word \<Rightarrow> 32 word \<Rightarrow> 32 word" where
  "crc_bit p r = (if bit r 0 then drop_bit 1 r XOR p else drop_bit 1 r)"

definition crc_byte :: "32 word \<Rightarrow> 32 word \<Rightarrow> 8 word \<Rightarrow> 32 word" where
  "crc_byte p r b = (crc_bit p ^^ 8) (r XOR ucast b)"

definition crc_bytes :: "32 word \<Rightarrow> bytes \<Rightarrow> 32 word \<Rightarrow> 32 word" where
  "crc_bytes p bs r = foldl (crc_byte p) r bs"

definition crc_shift :: "32 word \<Rightarrow> 32 word \<Rightarrow> 32 word \<Rightarrow> nat \<Rightarrow> 32 word" where
  "crc_shift p x y n = crc_bytes p (replicate n 0) x XOR y"

definition bitwise_lib :: checksum_lib where
  "bitwise_lib = \<lparr>crc32c = crc_bytes 0x82F63B78, crc32c_combine = crc_shift 0x82F63B78,
     crc32 = crc_bytes 0xEDB88320, crc32_combine = crc_shift 0xEDB88320\<rparr>"

lemma crc_bit_xor: "crc_bit p (x XOR y) = crc_bit p x XOR crc_bit p y"
  by (rule bit_word_eqI) (auto simp: crc_bit_def bit_simps)

lemma crc_bits_xor: "(crc_bit p ^^ k) (x XOR y) = (crc_bit p ^^ k) x XOR (crc_bit p ^^ k) y"
  by (induction k) (simp_all add: crc_bit_xor)

lemma crc_byte_xor: "crc_byte p (x XOR y) b = crc_byte p x 0 XOR crc_byte p y b"
  by (simp add: crc_byte_def crc_bits_xor xor.assoc)

lemma crc_bytes_xor: "crc_bytes p b (x XOR y) = crc_bytes p (replicate (length b) 0) x XOR crc_bytes p b y"
  by (induction b arbitrary: x y) (simp_all add: crc_bytes_def crc_byte_xor)

lemma bitwise_lib_ok: "checksum_lib_ok bitwise_lib"
  by (simp add: checksum_lib_ok_def crc_ok_def bitwise_lib_def crc_shift_def crc_bytes_xor)
    (simp add: crc_bytes_def)

text \<open>Evaluation on numerals.\<close>

lemma crc_bit_step: "crc_bit p r = (if odd r then drop_bit 1 r XOR p else drop_bit 1 r)"
  by (simp add: crc_bit_def bit_0)

lemma crc_byte_step:
  "crc_byte p r b = crc_bit p (crc_bit p (crc_bit p (crc_bit p
    (crc_bit p (crc_bit p (crc_bit p (crc_bit p (r XOR ucast b))))))))"
  by (simp add: crc_byte_def numeral_eq_Suc)

lemmas crc_eval = bitwise_lib_def crc_bytes_def crc_byte_step crc_bit_step

text \<open>The check value of CRC-32C: the digits 1 to 9, with the final complement.\<close>

lemma bitwise_check_value:
  "crc32c bitwise_lib [0x31, 0x32, 0x33, 0x34, 0x35, 0x36, 0x37, 0x38, 0x39] 0xFFFFFFFF = 0xFFFFFFFF XOR 0xE3069283"
  by (simp add: crc_eval)

end
