(* ===== verification/Chunk_File.thy ===== *)
theory Chunk_File
  imports Checksums
begin

text \<open>
  The files that hold chunks: \<^verbatim>\<open>ChunkFileView.cc\<close> (reading, writing and checksumming a range),
  \<^verbatim>\<open>ChunkFileStore.cc\<close> with \<^verbatim>\<open>GlobalFileStore.cc\<close> (opening, allocating, punching holes), under
  \<^verbatim>\<open>src/src/storage/store\<close>, and the metadata of a chunk from \<^verbatim>\<open>fbs/storage/Common.h\<close>.

  A file is its list of bytes. What the kernel does is in queues of the state: how many bytes each
  \<^verbatim>\<open>pwrite\<close> and \<^verbatim>\<open>pread\<close> transfers, whether it fails, and whether opening or allocating fails; an empty
  queue means that everything succeeds. The normal and the direct descriptor of a file reach the same
  bytes and are not told apart. File offsets and lengths are natural numbers (\<^verbatim>\<open>size_t\<close>
  and \<^verbatim>\<open>uint64_t\<close> in the source, without a wrap at 2^64), sizes within a chunk 32-bit words.
\<close>

section \<open>Metadata of a chunk\<close>

datatype ChunkState = COMMIT | DIRTY | CLEAN

datatype RecycleState = NORMAL | REMOVAL_IN_PROGRESS | REMOVAL_IN_RETRYING

record ChunkFileId =
  fi_chunkSize :: "32 word"
  fi_chunkIdx :: "32 word"

record ChunkMetadata =
  md_commitVer :: "32 word"
  md_updateVer :: "32 word"
  md_chainVer :: "32 word"
  md_size :: "32 word"
  md_chunkState :: ChunkState
  md_recycleState :: RecycleState
  md_checksumType :: ChecksumType
  md_checksumValue :: "32 word"
  md_lastNodeId :: "16 word"
  md_lastRequestId :: "64 word"
  md_innerOffset :: nat
  md_innerFileId :: ChunkFileId
  md_lastClientUuid :: string
  md_timestamp :: int

definition default_ChunkMetadata :: ChunkMetadata where
  "default_ChunkMetadata = \<lparr>md_commitVer = 0, md_updateVer = 0, md_chainVer = 0, md_size = 0,
     md_chunkState = COMMIT, md_recycleState = NORMAL, md_checksumType = NONE, md_checksumValue = 0,
     md_lastNodeId = 0, md_lastRequestId = 0, md_innerOffset = 0,
     md_innerFileId = \<lparr>fi_chunkSize = 0, fi_chunkIdx = 0\<rparr>, md_lastClientUuid = [], md_timestamp = 0\<rparr>"

definition readyToRemove :: "ChunkMetadata \<Rightarrow> bool" where
  "readyToRemove meta \<longleftrightarrow> md_recycleState meta \<noteq> NORMAL"

definition meta_checksum :: "ChunkMetadata \<Rightarrow> ChecksumInfo" where
  "meta_checksum meta = \<lparr>cs_type = md_checksumType meta, cs_value = md_checksumValue meta\<rparr>"

section \<open>Waiting between attempts\<close>

record ExponentialBackoffRetry =
  eb_initWaitTime :: nat
  eb_maxWaitTime :: nat
  eb_maxRetryTime :: nat
  eb_nextWaitTime :: nat

definition mk_retry :: "nat \<Rightarrow> nat \<Rightarrow> nat \<Rightarrow> ExponentialBackoffRetry" where
  "mk_retry initWait maxWait maxRetry =
    \<lparr>eb_initWaitTime = initWait, eb_maxWaitTime = max initWait maxWait,
     eb_maxRetryTime = max (max initWait maxWait) maxRetry, eb_nextWaitTime = initWait\<rparr>"

definition getWaitTime :: "ExponentialBackoffRetry \<Rightarrow> nat \<Rightarrow> nat \<times> ExponentialBackoffRetry" where
  "getWaitTime r elapsed =
    (if elapsed + eb_initWaitTime r > eb_maxRetryTime r then (0, r)
     else (min (eb_nextWaitTime r) (eb_maxRetryTime r - elapsed),
       r\<lparr>eb_nextWaitTime := min (eb_nextWaitTime r * 2) (eb_maxWaitTime r)\<rparr>))"

text \<open>A positive wait is never longer than the time that is left.\<close>

lemma getWaitTime_zero_iff:
  assumes "0 < eb_initWaitTime r" "0 < eb_nextWaitTime r"
  shows "fst (getWaitTime r elapsed) = 0 \<longleftrightarrow> eb_maxRetryTime r < elapsed + eb_initWaitTime r"
    "elapsed + fst (getWaitTime r elapsed) \<le> max elapsed (eb_maxRetryTime r)"
  using assms by (auto simp: getWaitTime_def)

section \<open>Files and the kernel\<close>

text \<open>
  \<open>dk_writes\<close>: bytes a \<^verbatim>\<open>pwrite\<close> transfers (0 for a failure) and the time since the first attempt;
  \<open>dk_reads\<close>: bytes a \<^verbatim>\<open>pread\<close> transfers, None for a failure; \<open>dk_faults\<close>: whether an open, a directory
  creation or a \<^verbatim>\<open>fallocate\<close> fails; \<open>dk_open\<close>: the cached descriptors.
\<close>

record disk =
  dk_files :: "(ChunkFileId \<times> bytes) list"
  dk_open :: "ChunkFileId list"
  dk_writes :: "(nat \<times> nat) list"
  dk_reads :: "nat option list"
  dk_faults :: "bool list"

definition contents :: "'a disk_scheme \<Rightarrow> ChunkFileId \<Rightarrow> bytes" where
  "contents d fid = (case map_of (dk_files d) fid of None \<Rightarrow> [] | Some b \<Rightarrow> b)"

definition set_file :: "ChunkFileId \<Rightarrow> bytes \<Rightarrow> 'a disk_scheme \<Rightarrow> 'a disk_scheme" where
  "set_file fid b d = d\<lparr>dk_files := AList.update fid b (dk_files d)\<rparr>"

definition piece :: "nat \<Rightarrow> nat \<Rightarrow> 'a list \<Rightarrow> 'a list" where
  "piece off n xs = take n (drop off xs)"

text \<open>Bytes written at an offset; a file that is too short is filled with zeros first.\<close>

definition write_at :: "nat \<Rightarrow> bytes \<Rightarrow> bytes \<Rightarrow> bytes" where
  "write_at off data b =
    (if data = [] then b
     else take off (b @ replicate (off - length b) 0) @ data @ drop (off + length data) b)"

definition pwrite :: "ChunkFileId \<Rightarrow> nat \<Rightarrow> bytes \<Rightarrow> 'a disk_scheme \<Rightarrow> 'a disk_scheme" where
  "pwrite fid off data d = set_file fid (write_at off data (contents d fid)) d"

definition next_pwrite :: "nat \<Rightarrow> 'a disk_scheme \<Rightarrow> (nat \<times> nat) \<times> 'a disk_scheme" where
  "next_pwrite len d = (case dk_writes d of [] \<Rightarrow> ((len, 0), d) | e # q \<Rightarrow> (e, d\<lparr>dk_writes := q\<rparr>))"

definition next_pread :: "nat \<Rightarrow> 'a disk_scheme \<Rightarrow> nat option \<times> 'a disk_scheme" where
  "next_pread len d = (case dk_reads d of [] \<Rightarrow> (Some len, d) | e # q \<Rightarrow> (e, d\<lparr>dk_reads := q\<rparr>))"

definition next_fault :: "'a disk_scheme \<Rightarrow> bool \<times> 'a disk_scheme" where
  "next_fault d = (case dk_faults d of [] \<Rightarrow> (False, d) | e # q \<Rightarrow> (e, d\<lparr>dk_faults := q\<rparr>))"

section \<open>Reading and writing a range\<close>

function read_loop ::
  "ChunkFileId \<Rightarrow> nat \<Rightarrow> nat \<Rightarrow> bytes \<Rightarrow> 'a disk_scheme \<Rightarrow> bytes result \<times> 'a disk_scheme" where
  "read_loop fid len off buf d =
    (if len = 0 then (Inr buf, d)
     else case next_pread len d of
       (None, d') \<Rightarrow> (Inl (Storage kChunkReadFailed), d')
     | (Some k, d') \<Rightarrow>
         let got = piece off (min k len) (contents d' fid)
         in if got = [] then (Inr buf, d')
            else read_loop fid (len - length got) (off + length got) (buf @ got) d')"
  by pat_completeness auto
termination
  by (relation "measure (\<lambda>(_, len, _). len)") auto

definition view_read :: "ChunkFileId \<Rightarrow> nat \<Rightarrow> nat \<Rightarrow> 'a disk_scheme \<Rightarrow> bytes result \<times> 'a disk_scheme" where
  "view_read fid len off d = read_loop fid len off [] d"

function write_loop ::
  "ChunkFileId \<Rightarrow> bytes \<Rightarrow> nat \<Rightarrow> nat \<Rightarrow> ExponentialBackoffRetry \<Rightarrow> 'a disk_scheme \<Rightarrow> nat result \<times> 'a disk_scheme" where
  "write_loop fid data off w r d =
    (if data = [] then (Inr w, d)
     else case next_pwrite (length data) d of ((n, elapsed), d') \<Rightarrow>
       if 0 < n then
         let k = min n (length data)
         in write_loop fid (drop k data) (off + k) (w + k) r (pwrite fid off (take k data) d')
       else case getWaitTime r elapsed of (wait, r') \<Rightarrow>
         if wait = 0 then (Inl (Storage kChunkWriteFailed), d')
         else write_loop fid data off w r' d')"
  by pat_completeness auto
termination
  by (relation "measure (\<lambda>(_, data, _, _, _, d). length data + length (dk_writes d))")
    (auto simp: next_pwrite_def pwrite_def set_file_def split: list.splits)

declare read_loop.simps [simp del]
declare write_loop.simps [simp del]

definition view_write ::
  "ChunkFileId \<Rightarrow> bytes \<Rightarrow> nat \<Rightarrow> ChunkMetadata \<Rightarrow> 'a disk_scheme \<Rightarrow> nat result \<times> 'a disk_scheme" where
  "view_write fid data off meta d =
    (if unat (fi_chunkSize (md_innerFileId meta)) < length data + off then (Inl (Common kInvalidArg), d)
     else write_loop fid data (off + md_innerOffset meta) 0 (mk_retry 100 5000 30000) d)"

text \<open>The iterator over a range of a file; its state has the disk, what is left and where.\<close>

definition ChunkDataIterator_next ::
  "ChunkFileId \<Rightarrow> 'a disk_scheme \<times> nat \<times> nat \<Rightarrow> bytes option \<times> ('a disk_scheme \<times> nat \<times> nat)" where
  "ChunkDataIterator_next fid = (\<lambda>(d, len, off).
    if len = 0 then (None, (d, len, off))
    else let readSize = min len kChunkSize
      in case view_read fid readSize off d of
        (Inl e, d') \<Rightarrow> (None, (d', len, off))
      | (Inr data, d') \<Rightarrow>
          if length data \<noteq> readSize then (None, (d', len, off))
          else (Some data, (d', len - readSize, off + readSize)))"

definition view_checksum ::
  "checksum_lib \<Rightarrow> ChunkFileId \<Rightarrow> ChecksumType \<Rightarrow> nat \<Rightarrow> nat \<Rightarrow> ChunkMetadata \<Rightarrow> 'a disk_scheme
    \<Rightarrow> ChecksumInfo result \<times> 'a disk_scheme" where
  "view_checksum lib fid t len off meta d =
    (if unat (fi_chunkSize (md_innerFileId meta)) < len + off then (Inl (Common kInvalidArg), d)
     else case ChecksumInfo_create lib t (ChunkDataIterator_next fid) (d, len, off + md_innerOffset meta) len (NOT 0) of
       (c, (d', _)) \<Rightarrow>
         if cs_type c = NONE then (Inl (Storage kChunkReadFailed), d') else (Inr c, d'))"

section \<open>The store of files\<close>

definition kAIOAlignSize :: nat where
  "kAIOAlignSize = 4096"

definition kMaxChunkSize :: nat where
  "kMaxChunkSize = 67108864"

definition openInnerFile :: "ChunkFileId \<Rightarrow> bool \<Rightarrow> 'a disk_scheme \<Rightarrow> unit result \<times> 'a disk_scheme" where
  "openInnerFile fid createFile d =
    (if fid \<in> set (dk_open d) then (Inr (), d)
     else case next_fault d of (fails, d') \<Rightarrow>
       if fails \<or> \<not> createFile \<and> map_of (dk_files d') fid = None
       then (Inl (Storage kChunkOpenFailed), d')
       else (Inr (), (set_file fid (contents d' fid) d')\<lparr>dk_open := fid # dk_open d'\<rparr>))"

definition file_open :: "ChunkFileId \<Rightarrow> 'a disk_scheme \<Rightarrow> unit result \<times> 'a disk_scheme" where
  "file_open fid d = openInnerFile fid False d"

definition zero_range :: "nat \<Rightarrow> nat \<Rightarrow> bytes \<Rightarrow> bytes" where
  "zero_range off n b = write_at off (replicate (min n (length b - off)) 0) b"

definition file_punchHole :: "ChunkFileId \<Rightarrow> nat \<Rightarrow> 'a disk_scheme \<Rightarrow> unit result \<times> 'a disk_scheme" where
  "file_punchHole fid off d = (case openInnerFile fid False d of
      (Inl e, d1) \<Rightarrow> (Inl e, d1)
    | (Inr _, d1) \<Rightarrow> (case next_fault d1 of (fails, d2) \<Rightarrow>
        if fails then (Inl (Storage kPunchHoleFailed), d2)
        else if off < length (contents d2 fid)
        then (Inr (), set_file fid (zero_range off (unat (fi_chunkSize fid)) (contents d2 fid)) d2)
        else (Inr (), d2)))"

definition file_allocate :: "ChunkFileId \<Rightarrow> nat \<Rightarrow> nat \<Rightarrow> 'a disk_scheme \<Rightarrow> unit result \<times> 'a disk_scheme" where
  "file_allocate fid off len d = (case openInnerFile fid False d of
      (Inl e, d1) \<Rightarrow> (Inl e, d1)
    | (Inr _, d1) \<Rightarrow> (case next_fault d1 of (fails, d2) \<Rightarrow>
        if fails then (Inl (Storage kPunchHoleFailed), d2)
        else let b = contents d2 fid in (Inr (), set_file fid (b @ replicate (off + len - length b) 0) d2)))"

fun create_files :: "32 word \<Rightarrow> nat \<Rightarrow> nat \<Rightarrow> 'a disk_scheme \<Rightarrow> unit result \<times> 'a disk_scheme" where
  "create_files chunkSize i 0 d = (Inr (), d)"
| "create_files chunkSize i (Suc n) d =
    (case openInnerFile \<lparr>fi_chunkSize = chunkSize, fi_chunkIdx = of_nat i\<rparr> True d of
       (Inl e, d') \<Rightarrow> (Inl e, d')
     | (Inr _, d') \<Rightarrow> create_files chunkSize (Suc i) n d')"

definition createInnerFile :: "nat \<Rightarrow> nat \<Rightarrow> 'a disk_scheme \<Rightarrow> unit result \<times> 'a disk_scheme" where
  "createInnerFile physicalFileCount chunkSize d =
    (if chunkSize < kAIOAlignSize then (Inl (Storage kChunkStoreInitFailed), d)
     else if chunkSize mod kAIOAlignSize \<noteq> 0 then (Inl (Storage kChunkStoreInitFailed), d)
     else if kMaxChunkSize < chunkSize then (Inl (Storage kChunkStoreInitFailed), d)
     else case next_fault d of (fails, d') \<Rightarrow>
       if fails then (Inl (Storage kChunkOpenFailed), d')
       else create_files (of_nat chunkSize) 0 physicalFileCount d')"

fun file_addChunkSize :: "nat \<Rightarrow> nat list \<Rightarrow> 'a disk_scheme \<Rightarrow> unit result \<times> 'a disk_scheme" where
  "file_addChunkSize n [] d = (Inr (), d)"
| "file_addChunkSize n (s # ss) d = (case createInnerFile n s d of
      (Inl e, d') \<Rightarrow> (Inl e, d')
    | (Inr _, d') \<Rightarrow> file_addChunkSize n ss d')"

section \<open>Ranges of a file\<close>

lemma contents_set_file [simp]: "contents (set_file fid b d) fid' = (if fid' = fid then b else contents d fid')"
  by (simp add: contents_def set_file_def update_conv')

lemma contents_queues [simp]:
  "contents (d\<lparr>dk_writes := w\<rparr>) = contents d" "contents (d\<lparr>dk_reads := r\<rparr>) = contents d"
  "contents (d\<lparr>dk_faults := f\<rparr>) = contents d" "contents (d\<lparr>dk_open := o'\<rparr>) = contents d"
  by (simp_all add: contents_def fun_eq_iff)

lemma set_file_queues [simp]:
  "dk_writes (set_file fid b d) = dk_writes d" "dk_reads (set_file fid b d) = dk_reads d"
  "dk_faults (set_file fid b d) = dk_faults d" "dk_open (set_file fid b d) = dk_open d"
  by (simp_all add: set_file_def)

lemma length_piece [simp]: "length (piece off n b) = min n (length b - off)"
  by (simp add: piece_def)

lemma piece_0 [simp]: "piece off 0 b = []"
  by (simp add: piece_def)

lemma piece_split: "k \<le> n \<Longrightarrow> piece off n b = piece off k b @ piece (off + k) (n - k) b"
  using take_add [of k "n - k" "drop off b"] by (simp add: piece_def add.commute)

lemma nth_piece: "i < n \<Longrightarrow> off + i < length b \<Longrightarrow> piece off n b ! i = b ! (off + i)"
  by (simp add: piece_def)

lemma length_write_at:
  "length (write_at off data b) = (if data = [] then length b else max (length b) (off + length data))"
  by (auto simp: write_at_def)

lemma nth_write_at:
  assumes "i < length (write_at off data b)"
  shows "write_at off data b ! i =
    (if off \<le> i \<and> i < off + length data then data ! (i - off) else if i < length b then b ! i else 0)"
  using assms by (auto simp: write_at_def nth_append min_def split: if_splits)

lemma write_at_append:
  "write_at (off + length a) c (write_at off a b) = write_at off (a @ c) b"
proof (cases "a = [] \<or> c = []")
  case True
  then show ?thesis by (auto simp: write_at_def)
next
  case False
  then have len: "length (write_at (off + length a) c (write_at off a b)) = length (write_at off (a @ c) b)"
    by (simp add: length_write_at)
  show ?thesis
  proof (rule nth_equalityI [OF len])
    fix i assume i: "i < length (write_at (off + length a) c (write_at off a b))"
    then have "i < length (write_at off a b) \<or> \<not> i < length (write_at off a b)" by blast
    then show "write_at (off + length a) c (write_at off a b) ! i = write_at off (a @ c) b ! i"
      using i len False
      by (auto simp: nth_write_at nth_append length_write_at)
  qed
qed

text \<open>The content of a chunk after a write at \<open>off\<close>, which is not behind its end.\<close>

definition overwrite :: "nat \<Rightarrow> bytes \<Rightarrow> bytes \<Rightarrow> bytes" where
  "overwrite off data c = take off c @ data @ drop (off + length data) c"

lemma length_overwrite: "off \<le> length c \<Longrightarrow> length (overwrite off data c) = max (length c) (off + length data)"
  by (simp add: overwrite_def)

lemma nth_overwrite:
  assumes "off \<le> length c" "i < length (overwrite off data c)"
  shows "overwrite off data c ! i = (if off \<le> i \<and> i < off + length data then data ! (i - off) else c ! i)"
  using assms by (auto simp: overwrite_def nth_append)

lemma piece_write_at:
  assumes "io + n \<le> length b" "off \<le> n"
  shows "piece io (max n (off + length data)) (write_at (io + off) data b) = overwrite off data (piece io n b)"
proof (cases "data = []")
  case True
  then show ?thesis using assms(2) by (simp add: write_at_def overwrite_def max_def)
next
  case False
  let ?m = "max n (off + length data)"
  have fits: "io + ?m \<le> length (write_at (io + off) data b)"
    using assms False by (simp add: length_write_at)
  have lens: "length (piece io n b) = n" "length (overwrite off data (piece io n b)) = ?m"
    using assms by (simp_all add: length_overwrite)
  show ?thesis
  proof (rule nth_equalityI)
    show "length (piece io ?m (write_at (io + off) data b)) = length (overwrite off data (piece io n b))"
      using fits lens by simp
    fix i assume "i < length (piece io ?m (write_at (io + off) data b))"
    then have i: "i < ?m" "io + i < length (write_at (io + off) data b)"
      using fits by auto
    have "piece io ?m (write_at (io + off) data b) ! i = write_at (io + off) data b ! (io + i)"
      using i by (simp add: nth_piece)
    also have "\<dots> = overwrite off data (piece io n b) ! i"
      using i assms lens by (auto simp: nth_write_at nth_overwrite nth_piece)
    finally show "piece io ?m (write_at (io + off) data b) ! i = overwrite off data (piece io n b) ! i" .
  qed
qed

lemma piece_write_at_disjoint:
  assumes "io + n \<le> length b" "io + n \<le> off \<or> off + length data \<le> io"
  shows "piece io n (write_at off data b) = piece io n b"
proof (cases "data = []")
  case False
  have len: "length (piece io n (write_at off data b)) = length (piece io n b)"
    using assms(1) False by (simp add: length_write_at)
  show ?thesis
  proof (rule nth_equalityI [OF len])
    fix i assume "i < length (piece io n (write_at off data b))"
    then show "piece io n (write_at off data b) ! i = piece io n b ! i"
      using assms False by (auto simp: nth_piece nth_write_at length_write_at)
  qed
qed (simp add: write_at_def)

section \<open>What the operations change\<close>

text \<open>Only the files and the queues, not the fields of an extension of the record.\<close>

definition disk_only :: "'a disk_scheme \<Rightarrow> 'a disk_scheme \<Rightarrow> bool" where
  "disk_only d d' \<longleftrightarrow> (\<exists>fs os w r f.
    d' = d\<lparr>dk_files := fs, dk_open := os, dk_writes := w, dk_reads := r, dk_faults := f\<rparr>)"

lemma disk_onlyI:
  "disk_only d (d\<lparr>dk_files := fs, dk_open := os, dk_writes := w, dk_reads := r, dk_faults := f\<rparr>)"
  unfolding disk_only_def by blast

lemma disk_only_refl [simp, intro]: "disk_only d d"
proof -
  have "d = d\<lparr>dk_files := dk_files d, dk_open := dk_open d, dk_writes := dk_writes d, dk_reads := dk_reads d,
    dk_faults := dk_faults d\<rparr>" by simp
  then show ?thesis unfolding disk_only_def by blast
qed

lemma disk_only_trans [trans]:
  assumes "disk_only d d'" "disk_only d' d''"
  shows "disk_only d d''"
proof -
  from assms obtain fs os w r f fs' os' w' r' f' where
    "d' = d\<lparr>dk_files := fs, dk_open := os, dk_writes := w, dk_reads := r, dk_faults := f\<rparr>"
    "d'' = d'\<lparr>dk_files := fs', dk_open := os', dk_writes := w', dk_reads := r', dk_faults := f'\<rparr>"
    unfolding disk_only_def by (elim exE) (rule that)
  then have "d'' = d\<lparr>dk_files := fs', dk_open := os', dk_writes := w', dk_reads := r', dk_faults := f'\<rparr>"
    by simp
  then show ?thesis by (simp add: disk_onlyI)
qed

lemma disk_only_update [simp, intro]:
  "disk_only d (d\<lparr>dk_files := fs\<rparr>)" "disk_only d (d\<lparr>dk_open := os\<rparr>)" "disk_only d (d\<lparr>dk_writes := w\<rparr>)"
  "disk_only d (d\<lparr>dk_reads := r\<rparr>)" "disk_only d (d\<lparr>dk_faults := f\<rparr>)"
  using disk_onlyI [where d = d and fs = fs and os = "dk_open d" and w = "dk_writes d" and r = "dk_reads d" and f = "dk_faults d"]
    disk_onlyI [where d = d and fs = "dk_files d" and os = os and w = "dk_writes d" and r = "dk_reads d" and f = "dk_faults d"]
    disk_onlyI [where d = d and fs = "dk_files d" and os = "dk_open d" and w = w and r = "dk_reads d" and f = "dk_faults d"]
    disk_onlyI [where d = d and fs = "dk_files d" and os = "dk_open d" and w = "dk_writes d" and r = r and f = "dk_faults d"]
    disk_onlyI [where d = d and fs = "dk_files d" and os = "dk_open d" and w = "dk_writes d" and r = "dk_reads d" and f = f]
  by simp_all

lemma disk_only_set_file [simp, intro]: "disk_only d (set_file fid b d)"
  by (simp add: set_file_def)

section \<open>Results of reading and writing\<close>

lemma next_pread_state: "next_pread n d = (x, d') \<Longrightarrow> \<exists>q. d' = d\<lparr>dk_reads := q\<rparr>"
  by (auto simp: next_pread_def split: list.splits intro: exI [of _ "dk_reads d"])

text \<open>A read returns a prefix of the range or fails, and changes nothing but its queue.\<close>

lemma read_loop_result:
  "read_loop fid len off buf d = (res, d') \<Longrightarrow>
    (\<exists>q. d' = d\<lparr>dk_reads := q\<rparr>) \<and>
    (res = Inl (Storage kChunkReadFailed) \<or> (\<exists>n \<le> len. res = Inr (buf @ piece off n (contents d fid))))"
proof (induction fid len off buf d arbitrary: res d' rule: read_loop.induct)
  case (1 fid len off buf d)
  show ?case
  proof (cases "len = 0")
    case True
    then show ?thesis
      using "1.prems" by (auto simp: read_loop.simps intro: exI [of _ "dk_reads d"])
  next
    case False
    obtain x d1 where nx: "next_pread len d = (x, d1)" by fastforce
    obtain q1 where d1: "d1 = d\<lparr>dk_reads := q1\<rparr>" using next_pread_state [OF nx] by blast
    show ?thesis
    proof (cases x)
      case None
      then show ?thesis
        using "1.prems" False nx d1 by (subst (asm) read_loop.simps) auto
    next
      case (Some k)
      let ?got = "piece off (min k len) (contents d1 fid)"
      show ?thesis
      proof (cases "?got = []")
        case True
        then show ?thesis
          using "1.prems" False nx Some d1
          by (subst (asm) read_loop.simps) (auto simp: Let_def intro: exI [of _ 0])
      next
        case got: False
        have le: "length ?got \<le> len" by simp
        have eq: "read_loop fid (len - length ?got) (off + length ?got) (buf @ ?got) d1 = (res, d')"
          using "1.prems" False nx Some got by (subst (asm) read_loop.simps) (simp add: Let_def)
        have same: "contents d1 fid = contents d fid" by (simp add: d1)
        have pre: "piece off (length ?got) (contents d1 fid) = ?got"
          by (simp add: piece_def min_def)
        from "1.IH" [OF False nx [symmetric] Some refl got eq]
        obtain q where q: "d' = d1\<lparr>dk_reads := q\<rparr>" and r:
          "res = Inl (Storage kChunkReadFailed) \<or>
           (\<exists>n \<le> len - length ?got. res = Inr ((buf @ ?got) @ piece (off + length ?got) n (contents d1 fid)))"
          by blast
        have "\<exists>m \<le> len. res = Inr (buf @ piece off m (contents d fid))"
          if n: "n \<le> len - length ?got"
            "res = Inr ((buf @ ?got) @ piece (off + length ?got) n (contents d1 fid))" for n
        proof (intro exI conjI)
          show "length ?got + n \<le> len" using n(1) le by linarith
          show "res = Inr (buf @ piece off (length ?got + n) (contents d fid))"
            using n(2) piece_split [of "length ?got" "length ?got + n" off "contents d1 fid"] pre same
            by simp
        qed
        then have "res = Inl (Storage kChunkReadFailed) \<or> (\<exists>n \<le> len. res = Inr (buf @ piece off n (contents d fid)))"
          using r by blast
        moreover have "d' = d\<lparr>dk_reads := q\<rparr>" using q d1 by simp
        ultimately show ?thesis by blast
      qed
    qed
  qed
qed

lemma read_loop_all:
  assumes "dk_reads d = []"
  shows "read_loop fid len off buf d = (Inr (buf @ piece off len (contents d fid)), d)"
proof (induction len arbitrary: off buf rule: less_induct)
  case (less len)
  have nx: "next_pread len d = (Some len, d)" using assms by (simp add: next_pread_def)
  let ?got = "piece off len (contents d fid)"
  show ?case
  proof (cases "len = 0 \<or> ?got = []")
    case True
    then show ?thesis using nx by (subst read_loop.simps) (auto simp: Let_def)
  next
    case False
    then have "len - length ?got < len" by (cases ?got) (simp_all del: length_piece)
    from less.IH [OF this, of "off + length ?got" "buf @ ?got"]
    have "read_loop fid (len - length ?got) (off + length ?got) (buf @ ?got) d
      = (Inr ((buf @ ?got) @ piece (off + length ?got) (len - length ?got) (contents d fid)), d)" .
    also have "piece (off + length ?got) (len - length ?got) (contents d fid) = []"
      by (simp add: piece_def min_def) linarith
    finally have rest: "read_loop fid (len - length ?got) (off + length ?got) (buf @ ?got) d = (Inr (buf @ ?got), d)"
      by (simp only: append_Nil2)
    show ?thesis
      using False nx by (subst read_loop.simps) (simp add: Let_def rest del: length_piece)
  qed
qed

text \<open>
  A write that returns has written all its bytes, one that fails a proper prefix of them; other files
  are unchanged.
\<close>

lemma next_pwrite_state: "next_pwrite n d = (x, d') \<Longrightarrow> \<exists>q. d' = d\<lparr>dk_writes := q\<rparr>"
  by (auto simp: next_pwrite_def split: list.splits intro: exI [of _ "dk_writes d"])

definition written :: "ChunkFileId \<Rightarrow> nat \<Rightarrow> bytes \<Rightarrow> 'a disk_scheme \<Rightarrow> 'a disk_scheme \<Rightarrow> bool" where
  "written fid off data d d' \<longleftrightarrow>
    (\<exists>fs q. d' = d\<lparr>dk_files := fs, dk_writes := q\<rparr>) \<and>
    (\<forall>fid'. contents d' fid' = (if fid' = fid then write_at off data (contents d fid) else contents d fid'))"

lemma written_Nil: "written fid off [] d (d\<lparr>dk_writes := q\<rparr>)"
proof -
  have "d\<lparr>dk_writes := q\<rparr> = d\<lparr>dk_files := dk_files d, dk_writes := q\<rparr>" by simp
  then have "\<exists>fs q'. d\<lparr>dk_writes := q\<rparr> = d\<lparr>dk_files := fs, dk_writes := q'\<rparr>" by blast
  then show ?thesis unfolding written_def by (simp add: write_at_def)
qed

lemma written_queue: "d1 = d\<lparr>dk_writes := q\<rparr> \<Longrightarrow> written fid off data d1 d' \<Longrightarrow> written fid off data d d'"
  by (auto simp: written_def)

lemma written_step:
  assumes "d1 = d\<lparr>dk_writes := q\<rparr>"
    and "written fid (off + length a) b (pwrite fid off a d1) d'"
  shows "written fid off (a @ b) d d'"
  using assms by (auto simp: written_def pwrite_def set_file_def write_at_append contents_def update_conv')

lemma write_loop_result:
  "write_loop fid data off w r d = (res, d') \<Longrightarrow>
    res = Inr (w + length data) \<and> written fid off data d d' \<or>
    res = Inl (Storage kChunkWriteFailed) \<and> (\<exists>k < length data. written fid off (take k data) d d')"
proof (induction fid data off w r d arbitrary: res d' rule: write_loop.induct)
  case (1 fid data off w r d)
  show ?case
  proof (cases "data = []")
    case True
    then show ?thesis
      using "1.prems" written_Nil [of fid off d "dk_writes d"] by (subst (asm) write_loop.simps) simp
  next
    case False
    obtain n el d1 where nx: "next_pwrite (length data) d = ((n, el), d1)" by (metis prod.exhaust)
    obtain q where d1: "d1 = d\<lparr>dk_writes := q\<rparr>" using next_pwrite_state [OF nx] by blast
    show ?thesis
    proof (cases "0 < n")
      case True
      let ?k = "min n (length data)"
      have eq: "write_loop fid (drop ?k data) (off + ?k) (w + ?k) r (pwrite fid off (take ?k data) d1) = (res, d')"
        using "1.prems" False nx True by (subst (asm) write_loop.simps) (simp add: Let_def)
      have len: "length (take ?k data) = ?k" by simp
      have cut: "take ?k data @ take j (drop ?k data) = take (?k + j) data" for j
        by (simp add: take_add)
      have split: "written fid off (take ?k data @ b) d d'"
        if "written fid (off + ?k) b (pwrite fid off (take ?k data) d1) d'" for b
        using written_step [OF d1, of fid off "take ?k data" b d'] that len by simp
      from "1.IH"(1) [OF False nx [symmetric] refl True refl eq]
      show ?thesis
      proof (elim disjE conjE exE)
        assume "res = Inr (w + ?k + length (drop ?k data))"
          "written fid (off + ?k) (drop ?k data) (pwrite fid off (take ?k data) d1) d'"
        with split [of "drop ?k data"] show ?thesis by simp
      next
        fix j assume j: "res = Inl (Storage kChunkWriteFailed)" "j < length (drop ?k data)"
          "written fid (off + ?k) (take j (drop ?k data)) (pwrite fid off (take ?k data) d1) d'"
        then have "?k + j < length data" by simp
        moreover have "written fid off (take (?k + j) data) d d'" using split [OF j(3)] cut by simp
        ultimately show ?thesis using j(1) by blast
      qed
    next
      case zero: False
      obtain wait r' where gw: "getWaitTime r el = (wait, r')" by fastforce
      show ?thesis
      proof (cases "wait = 0")
        case True
        then have "res = Inl (Storage kChunkWriteFailed)" "d' = d1"
          using "1.prems" False nx zero gw by (subst (asm) write_loop.simps; simp)+
        moreover have "written fid off (take 0 data) d d1" using written_Nil d1 by simp
        ultimately show ?thesis using False by blast
      next
        case wait: False
        have eq: "write_loop fid data off w r' d1 = (res, d')"
          using "1.prems" False nx zero gw wait by (subst (asm) write_loop.simps) simp
        from "1.IH"(2) [OF False nx [symmetric] refl zero gw [symmetric] wait eq]
        show ?thesis using written_queue [OF d1] by blast
      qed
    qed
  qed
qed

text \<open>Without failures in its queue a write returns.\<close>

lemma write_loop_returns:
  fixes d :: "'a disk_scheme"
  assumes "dk_writes d = []"
  shows "fst (write_loop fid data off w r d) = Inr (w + length data)"
proof (cases "data = []")
  case False
  have nx: "next_pwrite (length data) d = ((length data, 0), d)" using assms by (simp add: next_pwrite_def)
  have "write_loop fid [] (off + length data) (w + length data) r d' = (Inr (w + length data), d')" for d' :: "'a disk_scheme"
    by (subst write_loop.simps) simp
  then show ?thesis using False nx by (subst write_loop.simps) (simp add: Let_def)
qed (subst write_loop.simps, simp)

section \<open>Checksum of a range\<close>

text \<open>
  The iterator over a file is an iterator of the library: \<open>d0\<close> is the disk it starts with, of which only
  the queue of reads changes.
\<close>

definition iter_remaining :: "ChunkFileId \<Rightarrow> 'a disk_scheme \<times> nat \<times> nat \<Rightarrow> bytes" where
  "iter_remaining fid = (\<lambda>(d, len, off). piece off len (contents d fid))"

definition iter_valid :: "ChunkFileId \<Rightarrow> 'a disk_scheme \<Rightarrow> 'a disk_scheme \<times> nat \<times> nat \<Rightarrow> bool" where
  "iter_valid fid d0 = (\<lambda>(d, len, off). (\<exists>q. d = d0\<lparr>dk_reads := q\<rparr>) \<and> off + len \<le> length (contents d0 fid))"

lemma iter_step:
  assumes "iter_valid fid d0 (d, len, off)"
  obtains d' where "ChunkDataIterator_next fid (d, len, off) = (None, (d', len, off))" "iter_valid fid d0 (d', len, off)"
  | d' n where "0 < n" "n \<le> len" "iter_valid fid d0 (d', len - n, off + n)" "contents d' = contents d"
      "ChunkDataIterator_next fid (d, len, off) = (Some (piece off n (contents d fid)), (d', len - n, off + n))"
proof (cases "len = 0")
  case True
  then show ?thesis using that(1) [of d] assms by (simp add: ChunkDataIterator_next_def)
next
  case False
  let ?n = "min len kChunkSize"
  obtain q0 where d: "d = d0\<lparr>dk_reads := q0\<rparr>" and fits: "off + len \<le> length (contents d0 fid)"
    using assms by (auto simp: iter_valid_def)
  obtain res d' where rd: "view_read fid ?n off d = (res, d')" by fastforce
  from read_loop_result [OF rd [unfolded view_read_def]]
  obtain q where d': "d' = d\<lparr>dk_reads := q\<rparr>"
    and r: "res = Inl (Storage kChunkReadFailed) \<or> (\<exists>n \<le> ?n. res = Inr (piece off n (contents d fid)))"
    by auto
  have valid: "iter_valid fid d0 (d', l, o')" if "o' + l \<le> length (contents d0 fid)" for l o'
    using that d d' by (auto simp: iter_valid_def)
  show ?thesis
  proof (cases "\<exists>data. res = Inr data \<and> length data = ?n")
    case True
    then obtain n where "n \<le> ?n" "res = Inr (piece off n (contents d fid))" "length (piece off n (contents d fid)) = ?n"
      using r by auto
    then have "res = Inr (piece off ?n (contents d fid))" by (auto simp: min_def split: if_splits)
    then show ?thesis
      using that(2) [of ?n d'] False rd d d' fits valid [of "off + ?n" "len - ?n"]
      by (simp add: ChunkDataIterator_next_def Let_def kChunkSize_def)
  next
    case no: False
    then have "ChunkDataIterator_next fid (d, len, off) = (None, (d', len, off))"
      using False rd by (cases res) (simp_all add: ChunkDataIterator_next_def Let_def)
    then show ?thesis using that(1) [of d'] valid fits by blast
  qed
qed

interpretation chunk_iter: data_iterator "ChunkDataIterator_next fid" "iter_remaining fid" "iter_valid fid d0"
  for fid :: ChunkFileId and d0 :: "'a disk_scheme"
proof unfold_locales
  fix s :: "'a disk_scheme \<times> nat \<times> nat"
  assume v: "iter_valid fid d0 s"
  obtain d len off where s: "s = (d, len, off)" by (metis prod.exhaust)
  note v' = v [unfolded s]
  have fits: "off + len \<le> length (contents d fid)" using v' by (auto simp: iter_valid_def)
  show "fst (ChunkDataIterator_next fid s) = None" if "iter_remaining fid s = []"
    using that fits by (auto simp: s iter_remaining_def ChunkDataIterator_next_def piece_def)
  show "iter_valid fid d0 (snd (ChunkDataIterator_next fid s))"
    using v' by (rule iter_step) (simp_all add: s)
  show "data \<noteq> [] \<and> iter_remaining fid s = data @ iter_remaining fid s'"
    if eq: "ChunkDataIterator_next fid s = (Some data, s')" for data s'
    using v'
  proof (rule iter_step)
    fix d' n assume n: "0 < n" "n \<le> len" "contents d' = contents d"
      "ChunkDataIterator_next fid (d, len, off) = (Some (piece off n (contents d fid)), (d', len - n, off + n))"
    then have "data = piece off n (contents d fid)" "s' = (d', len - n, off + n)" using eq s by simp_all
    moreover have "length (piece off n (contents d fid)) = n" using n fits by simp
    then have "piece off n (contents d fid) \<noteq> []" using n(1) by force
    ultimately show ?thesis
      using n piece_split [of n len off "contents d fid"] by (auto simp: s iter_remaining_def)
  qed (use eq s in simp)
qed

lemma iter_progress:
  assumes "iter_valid fid d0 (d0, len, off)" "dk_reads d0 = []" "0 < len"
  shows "ChunkDataIterator_next fid (d0, len, off)
    = (Some (piece off (min len kChunkSize) (contents d0 fid)), (d0, len - min len kChunkSize, off + min len kChunkSize))"
  using assms read_loop_all [OF assms(2), of fid "min len kChunkSize" off "[]"]
  by (auto simp: ChunkDataIterator_next_def Let_def view_read_def iter_valid_def)

definition iter_quiet :: "ChunkFileId \<Rightarrow> 'a disk_scheme \<Rightarrow> 'a disk_scheme \<times> nat \<times> nat \<Rightarrow> bool" where
  "iter_quiet fid d0 s \<longleftrightarrow> fst s = d0 \<and> dk_reads d0 = [] \<and> iter_valid fid d0 s"

interpretation quiet_iter: reliable_iterator "ChunkDataIterator_next fid" "iter_remaining fid" "iter_quiet fid d0"
  for fid :: ChunkFileId and d0 :: "'a disk_scheme"
proof unfold_locales
  fix s :: "'a disk_scheme \<times> nat \<times> nat"
  assume q: "iter_quiet fid d0 s"
  then have v: "iter_valid fid d0 s" by (simp add: iter_quiet_def)
  obtain len off where s: "s = (d0, len, off)" using q by (cases s) (auto simp: iter_quiet_def)
  note v' = v [unfolded s]
  have r: "dk_reads d0 = []" using q by (simp add: iter_quiet_def)
  show "fst (ChunkDataIterator_next fid s) = None" if "iter_remaining fid s = []"
    using chunk_iter.nxt_end [OF v that] .
  show "data \<noteq> [] \<and> iter_remaining fid s = data @ iter_remaining fid s'"
    if "ChunkDataIterator_next fid s = (Some data, s')" for data s'
    using chunk_iter.nxt_block [OF v that] .
  show "iter_quiet fid d0 (snd (ChunkDataIterator_next fid s))"
    using chunk_iter.nxt_valid [OF v] iter_progress [OF v' r] r
    by (cases "len = 0") (auto simp: iter_quiet_def s ChunkDataIterator_next_def)
  show "fst (ChunkDataIterator_next fid s) \<noteq> None" if "iter_remaining fid s \<noteq> []"
    using that iter_progress [OF v' r] by (cases "len = 0") (auto simp: s iter_remaining_def)
qed

lemma view_checksum_result:
  assumes "checksum_lib_ok lib" "t \<noteq> NONE" "off + len \<le> unat (fi_chunkSize (md_innerFileId meta))"
    and "md_innerOffset meta + off + len \<le> length (contents d fid)"
    and "view_checksum lib fid t len off meta d = (res, d')"
  shows "(\<exists>q. d' = d\<lparr>dk_reads := q\<rparr>) \<and>
    (res = Inl (Storage kChunkReadFailed) \<or>
     res = Inr (checksum_of lib t (piece (md_innerOffset meta + off) len (contents d fid))))"
proof -
  let ?s = "(d, len, off + md_innerOffset meta)"
  have v: "iter_valid fid d ?s"
    using assms(4) by (auto simp: iter_valid_def add_ac intro: exI [of _ "dk_reads d"])
  have rem: "iter_remaining fid ?s = piece (md_innerOffset meta + off) len (contents d fid)"
    by (simp add: iter_remaining_def add.commute)
  have len: "length (iter_remaining fid ?s) = len" using assms(4) by (simp add: rem)
  obtain s' c where cr: "ChecksumInfo_create lib t (ChunkDataIterator_next fid) ?s len (NOT 0) = (c, s')"
    and s': "iter_valid fid d s'" and c: "c = no_checksum \<or> c = checksum_of lib t (iter_remaining fid ?s)"
    using chunk_iter.create_result [OF assms(1) v assms(2)] unfolding len by blast
  obtain d2 l2 o2 where s2: "s' = (d2, l2, o2)" by (metis prod.exhaust)
  have d2: "\<exists>q. d2 = d\<lparr>dk_reads := q\<rparr>" using s' by (simp add: s2 iter_valid_def)
  from assms(5) have "(res, d') = (if cs_type c = NONE then (Inl (Storage kChunkReadFailed), d2) else (Inr c, d2))"
    using assms(3) cr by (simp add: view_checksum_def s2 add.commute split: if_splits)
  with c d2 show ?thesis
    by (cases "cs_type c = NONE") (auto simp: rem no_checksum_def assms(2))
qed

lemma view_checksum_quiet:
  assumes "checksum_lib_ok lib" "t \<noteq> NONE" "off + len \<le> unat (fi_chunkSize (md_innerFileId meta))"
    and "md_innerOffset meta + off + len \<le> length (contents d fid)" "dk_reads d = []"
  shows "fst (view_checksum lib fid t len off meta d)
    = Inr (checksum_of lib t (piece (md_innerOffset meta + off) len (contents d fid)))"
proof -
  let ?s = "(d, len, off + md_innerOffset meta)"
  have "iter_quiet fid d ?s"
    using assms(4,5) by (auto simp: iter_quiet_def iter_valid_def add_ac intro: exI [of _ "dk_reads d"])
  from quiet_iter.create_complete [OF assms(1) this, of t]
  have "fst (ChecksumInfo_create lib t (ChunkDataIterator_next fid) ?s len (NOT 0))
    = checksum_of lib t (piece (md_innerOffset meta + off) len (contents d fid))"
    using assms(4) by (simp add: iter_remaining_def add_ac)
  then show ?thesis
    using assms(2,3) by (auto simp: view_checksum_def add.commute split: prod.splits)
qed

section \<open>Effects of the store of files\<close>

lemma next_fault_state: "next_fault d = (b, d') \<Longrightarrow> disk_only d d' \<and> contents d' = contents d"
  by (auto simp: next_fault_def split: list.splits)

lemma openInnerFile_state:
  assumes "openInnerFile fid c d = (r, d')"
  shows "disk_only d d'" "contents d' = contents d"
proof -
  obtain b d1 where nf: "next_fault d = (b, d1)" by fastforce
  note d1 = next_fault_state [OF nf]
  have "disk_only d d' \<and> contents d' = contents d"
  proof (cases "d' = d \<or> d' = d1")
    case True
    then show ?thesis using d1 by auto
  next
    case False
    then have "d' = (set_file fid (contents d1 fid) d1)\<lparr>dk_open := fid # dk_open d1\<rparr>"
      using assms nf by (auto simp: openInnerFile_def split: if_splits)
    then show ?thesis
      using d1 disk_only_trans [OF _ disk_only_trans [OF disk_only_set_file disk_only_update(2)]]
      by (auto simp: fun_eq_iff)
  qed
  then show "disk_only d d'" "contents d' = contents d" by simp_all
qed

lemma file_allocate_state:
  assumes "file_allocate fid off n d = (r, d')"
  shows "disk_only d d'" "\<exists>z. contents d' fid' = contents d fid' @ z"
    "r = Inr () \<Longrightarrow> off + n \<le> length (contents d' fid)"
proof -
  obtain r1 d1 where op: "openInnerFile fid False d = (r1, d1)" by fastforce
  obtain b d2 where nf: "next_fault d1 = (b, d2)" by fastforce
  note d1 = openInnerFile_state [OF op] and d2 = next_fault_state [OF nf]
  have only: "disk_only d d2" "contents d2 = contents d" using d1 d2 disk_only_trans by auto
  have "d' = d1 \<and> r \<noteq> Inr () \<or> d' = d2 \<and> r \<noteq> Inr () \<or>
      d' = set_file fid (contents d2 fid @ replicate (off + n - length (contents d2 fid)) 0) d2"
    using assms op nf by (auto simp: file_allocate_def Let_def split: sum.splits if_splits)
  then have *: "disk_only d d' \<and> (\<exists>z. contents d' fid' = contents d fid' @ z) \<and>
      (r = Inr () \<longrightarrow> off + n \<le> length (contents d' fid))"
    using d1 only disk_only_trans [OF only(1) disk_only_set_file] by auto
  show "disk_only d d'" using * by blast
  show "\<exists>z. contents d' fid' = contents d fid' @ z" using * by blast
  show "off + n \<le> length (contents d' fid)" if "r = Inr ()" using * that by blast
qed

lemma file_punchHole_state:
  assumes "file_punchHole fid off d = (r, d')"
  shows "disk_only d d'" "length (contents d' fid') = length (contents d fid')"
    "fid' \<noteq> fid \<or> io + n \<le> off \<or> off + unat (fi_chunkSize fid) \<le> io \<Longrightarrow> io + n \<le> length (contents d fid')
      \<Longrightarrow> piece io n (contents d' fid') = piece io n (contents d fid')"
proof -
  obtain r1 d1 where op: "openInnerFile fid False d = (r1, d1)" by fastforce
  obtain b d2 where nf: "next_fault d1 = (b, d2)" by fastforce
  note d1 = openInnerFile_state [OF op] and d2 = next_fault_state [OF nf]
  have only: "disk_only d d2" "contents d2 = contents d" using d1 d2 disk_only_trans by auto
  let ?b = "contents d fid"
  let ?z = "zero_range off (unat (fi_chunkSize fid)) ?b"
  have cases: "contents d' = contents d \<and> disk_only d d' \<or> off < length ?b \<and> d' = set_file fid ?z d2"
    using assms op nf only d1 by (auto simp: file_punchHole_def split: sum.splits if_splits)
  have len: "length ?z = length ?b" if "off < length ?b"
    using that by (auto simp: zero_range_def length_write_at)
  have same: "piece io n ?z = piece io n ?b"
    if "io + n \<le> off \<or> off + unat (fi_chunkSize fid) \<le> io" "io + n \<le> length ?b"
    unfolding zero_range_def using that by (intro piece_write_at_disjoint) auto
  show "disk_only d d'" using cases disk_only_trans [OF only(1) disk_only_set_file] by blast
  show "length (contents d' fid') = length (contents d fid')"
    using cases len only(2) by (elim disjE conjE) simp_all
  show "piece io n (contents d' fid') = piece io n (contents d fid')"
    if "fid' \<noteq> fid \<or> io + n \<le> off \<or> off + unat (fi_chunkSize fid) \<le> io" "io + n \<le> length (contents d fid')"
    using cases same that only(2) by (elim disjE conjE) (auto split: if_splits)
qed

end
