(* ===== verification/Chunk_Keys.thy ===== *)
theory Chunk_Keys
  imports Chunk_File Byte_Keys
begin

text \<open>
  The keys under which a storage target keeps its metadata (the first part of
  \<^verbatim>\<open>src/src/storage/store/ChunkMetaStore.cc\<close>), as data and as the bytes the serialiser makes of them.
  The bytes are different for different keys, keys of one kind and chunk size are those with one prefix,
  removed chunks are in the order of their times and chunk identifiers of one length in descending
  order. The store then works on the keys as data, in the order of their bytes.
\<close>

type_synonym chunk_id = string

record ChunkPosition =
  cp_fileIdx :: "32 word"
  cp_offset :: nat

text \<open>
  \<open>BareVersionKey\<close> is the version key serialised without its type, as \<^verbatim>\<open>loadAllocateState\<close> does. The
  lower sentinel \<^verbatim>\<open>kMinKey\<close> is the metadata key of the empty identifier.
\<close>

datatype meta_key =
    ChunkMetaKey chunk_id
  | UncommittedChunkKey chunk_id
  | FileSizeKey ChunkFileId
  | AllocateIndexKey "32 word"
  | AllocateStartKey "32 word"
  | CreatedCountKey "32 word"
  | UsedCountKey "32 word"
  | RemovedCountKey "32 word"
  | RecycledCountKey "32 word"
  | ReusedCountKey "32 word"
  | HoleCountKey "32 word"
  | VersionKey "32 word"
  | BareVersionKey "32 word"
  | CreatedKey "32 word" ChunkPosition
  | RecycledKey "32 word" ChunkPosition
  | RemovedKey "32 word" "64 word" ChunkPosition
  | CreatedSizeKey
  | RemovedSizeKey
  | SyncDummyKey
  | MaxKey

abbreviation kMinKey :: meta_key where
  "kMinKey \<equiv> ChunkMetaKey []"

section \<open>Bytes of a key\<close>

definition reverseBits :: "string \<Rightarrow> string" where
  "reverseBits = map (\<lambda>ch. char_of (255 - (of_char ch :: nat)))"

text \<open>A struct of fewer than 128 bytes: its length and its fields.\<close>

definition struct_bytes :: "string \<Rightarrow> string" where
  "struct_bytes b = char_of (length b) # b"

definition size_bytes :: "32 word \<Rightarrow> string" where
  "size_bytes s = struct_bytes (put32 s)"

definition pos_bytes :: "ChunkPosition \<Rightarrow> string" where
  "pos_bytes p = struct_bytes (put32 (cp_fileIdx p) @ put_big64 (of_nat (cp_offset p)))"

definition type_byte :: "nat \<Rightarrow> char" where
  "type_byte n = char_of n"

fun key_bytes :: "meta_key \<Rightarrow> string" where
  "key_bytes (ChunkMetaKey c) = type_byte 0 # reverseBits c"
| "key_bytes (UncommittedChunkKey c) = type_byte 6 # reverseBits c"
| "key_bytes (FileSizeKey f) =
    struct_bytes (type_byte 2 # struct_bytes (put32 (fi_chunkSize f) @ put32 (fi_chunkIdx f)))"
| "key_bytes (AllocateIndexKey s) = type_byte 22 # size_bytes s"
| "key_bytes (AllocateStartKey s) = type_byte 23 # size_bytes s"
| "key_bytes (CreatedCountKey s) = type_byte 16 # size_bytes s"
| "key_bytes (UsedCountKey s) = type_byte 17 # size_bytes s"
| "key_bytes (RemovedCountKey s) = type_byte 18 # size_bytes s"
| "key_bytes (RecycledCountKey s) = type_byte 19 # size_bytes s"
| "key_bytes (ReusedCountKey s) = type_byte 20 # size_bytes s"
| "key_bytes (HoleCountKey s) = type_byte 21 # size_bytes s"
| "key_bytes (VersionKey s) = type_byte 24 # size_bytes s"
| "key_bytes (BareVersionKey s) = size_bytes s"
| "key_bytes (CreatedKey s p) = type_byte 14 # size_bytes s @ struct_bytes (pos_bytes p)"
| "key_bytes (RecycledKey s p) = type_byte 13 # size_bytes s @ struct_bytes (pos_bytes p)"
| "key_bytes (RemovedKey s t p) = type_byte 12 # size_bytes s @ struct_bytes (put_big64 t @ pos_bytes p)"
| "key_bytes CreatedSizeKey = [type_byte 4]"
| "key_bytes RemovedSizeKey = [type_byte 5]"
| "key_bytes SyncDummyKey = [type_byte 8]"
| "key_bytes MaxKey = [type_byte 255]"

definition size_prefix :: "nat \<Rightarrow> 32 word \<Rightarrow> string" where
  "size_prefix t s = type_byte t # size_bytes s"

fun pos_in_range :: "meta_key \<Rightarrow> bool" where
  "pos_in_range (CreatedKey s p) = (cp_offset p < 2 ^ 64)"
| "pos_in_range (RecycledKey s p) = (cp_offset p < 2 ^ 64)"
| "pos_in_range (RemovedKey s t p) = (cp_offset p < 2 ^ 64)"
| "pos_in_range _ = True"

section \<open>Keys and their bytes\<close>

lemma type_byte_eq [simp]: "type_byte m = type_byte n \<longleftrightarrow> m mod 256 = n mod 256"
  by (simp add: type_byte_def char_of_eq_iff of_char_mod_256 take_bit_eq_mod)

lemma size_bytes_eq: "size_bytes s = type_byte 4 # put32 s"
  by (simp add: size_bytes_def struct_bytes_def type_byte_def)

lemma pos_bytes_eq: "pos_bytes p = type_byte 12 # put32 (cp_fileIdx p) @ put_big64 (of_nat (cp_offset p))"
  by (simp add: pos_bytes_def struct_bytes_def type_byte_def)

lemma struct_bytes_inj [simp]: "struct_bytes a = struct_bytes b \<longleftrightarrow> a = b"
  by (auto simp: struct_bytes_def)

lemma size_bytes_inj [simp]: "size_bytes s = size_bytes s' \<longleftrightarrow> s = s'"
  by (auto simp: size_bytes_def dest: put32_inj)

lemma length_size_bytes [simp]: "length (size_bytes s) = 5"
  by (simp add: size_bytes_eq)

lemma pos_bytes_inj:
  assumes "cp_offset p < 2 ^ 64" "cp_offset q < 2 ^ 64" "pos_bytes p = pos_bytes q"
  shows "p = q"
proof -
  have f: "put32 (cp_fileIdx p) = put32 (cp_fileIdx q)"
    "put_big64 (of_nat (cp_offset p)) = put_big64 (of_nat (cp_offset q))"
    using assms(3) by (simp_all add: pos_bytes_eq append_eq_append_conv)
  have "cp_offset p = unat (of_nat (cp_offset p) :: 64 word)" "cp_offset q = unat (of_nat (cp_offset q) :: 64 word)"
    using assms(1,2) by (simp_all add: unat_of_nat)
  with put_big64_inj [OF f(2)] have "cp_offset p = cp_offset q" by metis
  then show ?thesis using put32_inj [OF f(1)] by simp
qed

lemma reverseBits_inj [simp]: "reverseBits a = reverseBits b \<longleftrightarrow> a = b"
proof -
  have "c = d" if "char_of (255 - (of_char c :: nat)) = (char_of (255 - (of_char d :: nat)) :: char)" for c d
  proof -
    have lt: "of_char c < (256 :: nat)" "of_char d < (256 :: nat)" by (simp_all add: of_char_le less_Suc_eq_le)
    from arg_cong [OF that, of "of_char :: char \<Rightarrow> nat"] have "255 - of_char c = 255 - (of_char d :: nat)"
      using lt by (simp add: of_char_of)
    then show ?thesis using lt by (intro char_eqI) linarith
  qed
  then have "inj (\<lambda>ch. char_of (255 - (of_char ch :: nat)) :: char)" by (rule injI)
  then show ?thesis by (simp add: reverseBits_def inj_map_eq_map)
qed

lemma file_id_bytes:
  "put32 (fi_chunkSize f) @ put32 (fi_chunkIdx f) = put32 (fi_chunkSize g) @ put32 (fi_chunkIdx g) \<longleftrightarrow> f = g"
  for f g :: ChunkFileId
  by (auto simp: append_eq_append_conv intro!: ChunkFileId.equality dest: put32_inj)

lemma file_size_key_eq: "key_bytes (FileSizeKey f)
  = type_byte 10 # type_byte 2 # struct_bytes (put32 (fi_chunkSize f) @ put32 (fi_chunkIdx f))"
  by (simp add: struct_bytes_def type_byte_def)

lemma bare_version_eq: "key_bytes (BareVersionKey s) = type_byte 4 # put32 s"
  by (simp add: size_bytes_eq)

lemma key_bytes_inj:
  assumes "pos_in_range k" "pos_in_range k'" "key_bytes k = key_bytes k'"
  shows "k = k'"
proof -
  note eqs = file_size_key_eq bare_version_eq
  show ?thesis
    using assms
    by (cases k; cases k')
      (simp_all del: key_bytes.simps(3,13) add: eqs file_id_bytes append_eq_append_conv,
       auto dest: put32_inj put_big64_inj pos_bytes_inj [simplified] arg_cong [where f = length])
qed

text \<open>The keys of one kind and size are those that start with the prefix of the kind.\<close>

lemma take_size_prefix:
  "take 6 (key_bytes k) = size_prefix 12 s \<longleftrightarrow> (\<exists>t p. k = RemovedKey s t p)"
  "take 6 (key_bytes k) = size_prefix 13 s \<longleftrightarrow> (\<exists>p. k = RecycledKey s p)"
  "take 6 (key_bytes k) = size_prefix 14 s \<longleftrightarrow> (\<exists>p. k = CreatedKey s p)"
  by (cases k; simp del: key_bytes.simps(3,13) add: file_size_key_eq bare_version_eq size_prefix_def; blast?)+

text \<open>Removed chunks are sorted by their time.\<close>

lemma removed_key_order: "t < t' \<Longrightarrow> key_bytes (RemovedKey s t p) < key_bytes (RemovedKey s t' p')"
proof -
  assume "t < t'"
  then have "put_big64 t < put_big64 t'" by (simp add: put_big64_less)
  moreover have "length (put_big64 t) = length (put_big64 t')" by simp
  ultimately have "put_big64 t @ pos_bytes p < put_big64 t' @ pos_bytes p'"
    by (simp add: list_less_def lexord_append_left_rightI lexord_sufI)
  moreover have "length (put_big64 t @ pos_bytes p) = length (put_big64 t' @ pos_bytes p')"
    by (simp add: pos_bytes_eq)
  ultimately show ?thesis
    by (simp add: struct_bytes_def less_append_same)
qed

text \<open>Identifiers of one length are in descending order.\<close>

lemma complement_less: "char_of (255 - (of_char c :: nat)) < (char_of (255 - (of_char d :: nat)) :: char) \<longleftrightarrow> d < c"
proof -
  have diff: "(255 - m < 255 - n) = (n < m)" if "m \<le> 255" for m n :: nat
    using that by arith
  show ?thesis by (simp add: char_less_iff of_char_of diff [OF of_char_le])
qed

lemma reverseBits_less: "length a = length b \<Longrightarrow> reverseBits a < reverseBits b \<longleftrightarrow> b < a"
proof (induction a b rule: list_induct2)
  case (Cons x a y b)
  have "reverseBits (x # a) < reverseBits (y # b) \<longleftrightarrow> y < x \<or> x = y \<and> b < a"
    using Cons.IH complement_less [of x y] complement_less [of y x]
    by (auto simp: reverseBits_def)
  then show ?case by auto
qed (simp add: reverseBits_def)

end
