(* ===== verification/Chunk_Meta_Store.thy ===== *)
theory Chunk_Meta_Store
  imports Chunk_Keys
begin

text \<open>
  The metadata of a storage target and the allocation of space for its chunks
  (\<^verbatim>\<open>src/src/storage/store/ChunkMetaStore.cc\<close>), on the keys of \<^theory_text>\<open>Chunk_Keys\<close>.

  The state extends the disk by the key-value store, the counters and one \<open>AllocateState\<close> per chunk size.
  Whether a read from or a write to the key-value store fails is in two queues (empty: none does); a batch
  is applied as a whole or not at all. Jobs handed to the executor are in the queue \<open>cm_jobs\<close> and run later with
  \<open>run_job\<close>. Each operation runs with the locks it takes held throughout. Sizes of files and counters are
  natural numbers; times are in microseconds.
\<close>

section \<open>State\<close>

datatype meta_value = MetaV ChunkMetadata | NumV nat | StrV string | EmptyV

datatype batch_op = BPut meta_key meta_value | BRemove meta_key

record MetaStoreConfig =
  mc_allocate_size :: nat
  mc_recycle_batch_size :: nat
  mc_punch_hole_batch_size :: nat
  mc_removed_chunk_expiration_time :: int
  mc_removed_chunk_force_recycled_time :: int

record AllocateState =
  as_loaded :: bool
  as_allocating :: bool
  as_recycling :: bool
  as_chunkSize :: "32 word"
  as_allocateIndex :: "32 word"
  as_startingPoint :: nat
  as_createdCount :: nat
  as_usedCount :: nat
  as_removedCount :: nat
  as_recycledCount :: nat
  as_reusedCount :: nat
  as_holeCount :: nat
  as_oldestRemovedTimestamp :: int
  as_createdChunks :: "ChunkPosition list"
  as_recycledChunks :: "ChunkPosition list"
  as_fileSize :: "(32 word \<times> nat) list"

datatype job = AllocateJob "32 word" | RecycleJob "32 word"

record meta_store = disk +
  cm_config :: MetaStoreConfig
  cm_kv :: "(meta_key \<times> meta_value) list"
  cm_readFaults :: "bool list"
  cm_writeFaults :: "bool list"
  cm_sentinel :: string
  cm_hasSentinel :: bool
  cm_physicalFileCount :: "32 word"
  cm_createdSize :: nat
  cm_removedSize :: nat
  cm_uncommitted :: "chunk_id list"
  cm_emergencyRecycling :: bool
  cm_allocateState :: "(32 word \<times> AllocateState) list"
  cm_jobs :: "job list"

definition init_AllocateState :: "32 word \<Rightarrow> AllocateState" where
  "init_AllocateState s = \<lparr>as_loaded = False, as_allocating = False, as_recycling = False,
     as_chunkSize = s, as_allocateIndex = 0, as_startingPoint = 0, as_createdCount = 0,
     as_usedCount = 0, as_removedCount = 0, as_recycledCount = 0, as_reusedCount = 0, as_holeCount = 0,
     as_oldestRemovedTimestamp = 0, as_createdChunks = [], as_recycledChunks = [], as_fileSize = []\<rparr>"

definition alloc_of :: "32 word \<Rightarrow> 'a meta_store_scheme \<Rightarrow> AllocateState" where
  "alloc_of s st = (case map_of (cm_allocateState st) s of None \<Rightarrow> init_AllocateState s | Some a \<Rightarrow> a)"

definition set_alloc :: "32 word \<Rightarrow> AllocateState \<Rightarrow> 'a meta_store_scheme \<Rightarrow> 'a meta_store_scheme" where
  "set_alloc s a st = st\<lparr>cm_allocateState := AList.update s a (cm_allocateState st)\<rparr>"

definition upd_alloc ::
  "32 word \<Rightarrow> (AllocateState \<Rightarrow> AllocateState) \<Rightarrow> ('a meta_store_scheme, unit) action" where
  "upd_alloc s f = modify (\<lambda>st. set_alloc s (f (alloc_of s st)) st)"

section \<open>The key-value store\<close>

definition read_fault :: "'a meta_store_scheme \<Rightarrow> bool \<times> 'a meta_store_scheme" where
  "read_fault st = (case cm_readFaults st of [] \<Rightarrow> (False, st) | b # q \<Rightarrow> (b, st\<lparr>cm_readFaults := q\<rparr>))"

definition write_fault :: "'a meta_store_scheme \<Rightarrow> bool \<times> 'a meta_store_scheme" where
  "write_fault st = (case cm_writeFaults st of [] \<Rightarrow> (False, st) | b # q \<Rightarrow> (b, st\<lparr>cm_writeFaults := q\<rparr>))"

definition kv_get :: "meta_key \<Rightarrow> ('a meta_store_scheme, meta_value) action" where
  "kv_get k st = (case read_fault st of (fails, st') \<Rightarrow>
     if fails then (Err (Common kKVStoreGetError), st')
     else case map_of (cm_kv st') k of
         None \<Rightarrow> (Err (Common kKVStoreNotFound), st')
       | Some v \<Rightarrow> (Ret v, st'))"

fun apply_op :: "batch_op \<Rightarrow> (meta_key \<times> meta_value) list \<Rightarrow> (meta_key \<times> meta_value) list" where
  "apply_op (BPut k v) kv = AList.update k v kv"
| "apply_op (BRemove k) kv = AList.delete k kv"

definition kv_commit :: "batch_op list \<Rightarrow> ('a meta_store_scheme, unit) action" where
  "kv_commit ops st = (case write_fault st of (fails, st') \<Rightarrow>
     if fails then (Err (Common kKVStoreSetError), st')
     else (Ret (), st'\<lparr>cm_kv := fold apply_op ops (cm_kv st')\<rparr>))"

definition kv_put :: "meta_key \<Rightarrow> meta_value \<Rightarrow> ('a meta_store_scheme, unit) action" where
  "kv_put k v = kv_commit [BPut k v]"

text \<open>The keys of one prefix, in the order of their bytes.\<close>

definition sorted_keys :: "(meta_key \<Rightarrow> bool) \<Rightarrow> 'a meta_store_scheme \<Rightarrow> meta_key list" where
  "sorted_keys P st = sort_key key_bytes (filter P (map fst (cm_kv st)))"

definition iterateKeysWithPrefix :: "(meta_key \<Rightarrow> bool) \<Rightarrow> ('a meta_store_scheme, meta_key list) action" where
  "iterateKeysWithPrefix P st = (case read_fault st of (fails, st') \<Rightarrow>
     if fails then (Err (Common kKVStoreGetError), st') else (Ret (sorted_keys P st'), st'))"

text \<open>A number that may be missing; a value of another type cannot be deserialised.\<close>

definition value_num :: "meta_value \<Rightarrow> nat result" where
  "value_num v = (case v of NumV n \<Rightarrow> Inr n | _ \<Rightarrow> Inl (Common kDataCorruption))"

definition kv_num :: "meta_key \<Rightarrow> ('a meta_store_scheme, nat option) action" where
  "kv_num k st = (case kv_get k st of
      (Ret v, st') \<Rightarrow> (obind (of_result (value_num v)) (\<lambda>n. Ret (Some n)), st')
    | (Err e, st') \<Rightarrow> (if e = Common kKVStoreNotFound then Ret None else Err e, st')
    | (Crash, st') \<Rightarrow> (Crash, st')
    | (Pending, st') \<Rightarrow> (Pending, st'))"

definition getSize :: "meta_key \<Rightarrow> ('a meta_store_scheme, nat) action" where
  "getSize k = sbind (kv_num k) (\<lambda>n. ret (case n of None \<Rightarrow> 0 | Some n \<Rightarrow> n))"

fun is_removed :: "32 word \<Rightarrow> meta_key \<Rightarrow> bool" where
  "is_removed s (RemovedKey s' t p) = (s' = s)"
| "is_removed s _ = False"

fun is_recycled :: "32 word \<Rightarrow> meta_key \<Rightarrow> bool" where
  "is_recycled s (RecycledKey s' p) = (s' = s)"
| "is_recycled s _ = False"

fun is_created :: "32 word \<Rightarrow> meta_key \<Rightarrow> bool" where
  "is_created s (CreatedKey s' p) = (s' = s)"
| "is_created s _ = False"

fun is_uncommitted :: "meta_key \<Rightarrow> bool" where
  "is_uncommitted (UncommittedChunkKey c) = True"
| "is_uncommitted _ = False"

fun key_pos :: "meta_key \<Rightarrow> ChunkPosition" where
  "key_pos (RemovedKey s t p) = p"
| "key_pos (RecycledKey s p) = p"
| "key_pos (CreatedKey s p) = p"
| "key_pos _ = \<lparr>cp_fileIdx = 0, cp_offset = 0\<rparr>"

fun key_time :: "meta_key \<Rightarrow> int" where
  "key_time (RemovedKey s t p) = uint t"
| "key_time _ = 0"

fun key_chunk :: "meta_key \<Rightarrow> chunk_id" where
  "key_chunk (ChunkMetaKey c) = c"
| "key_chunk (UncommittedChunkKey c) = c"
| "key_chunk _ = []"

section \<open>Opening the store\<close>

definition checkSentinel :: "meta_key \<Rightarrow> ('a meta_store_scheme, unit) action" where
  "checkSentinel k = sbind (kv_get k) (\<lambda>v. \<lambda>st.
     if v \<noteq> StrV (cm_sentinel st) then (Err (Storage kMetaStoreOpenFailed), st) else (Ret (), st))"

definition createAllocateState :: "32 word \<Rightarrow> 'a meta_store_scheme \<Rightarrow> 'a meta_store_scheme" where
  "createAllocateState s st =
    (if map_of (cm_allocateState st) s = None then set_alloc s (init_AllocateState s) st else st)"

definition kTargetVersion :: nat where
  "kTargetVersion = 1"

text \<open>The failed iteration over uncommitted chunks is ignored, as in the source.\<close>

definition load_uncommitted :: "('a meta_store_scheme, unit) action" where
  "load_uncommitted st = (case iterateKeysWithPrefix is_uncommitted st of
      (Ret ks, st') \<Rightarrow> (Ret (), st'\<lparr>cm_uncommitted := map key_chunk ks\<rparr>)
    | (_, st') \<Rightarrow> (Ret (), st'\<lparr>cm_uncommitted := []\<rparr>))"

definition meta_load :: "string \<Rightarrow> bool \<Rightarrow> 32 word \<Rightarrow> 32 word list \<Rightarrow> ('a meta_store_scheme, unit) action" where
  "meta_load sentinel hasSentinel fileCount sizes =
    sbind (modify (\<lambda>st. st\<lparr>cm_sentinel := sentinel, cm_hasSentinel := hasSentinel\<rparr>)) (\<lambda>_.
    sbind (\<lambda>st. case read_fault st of (fails, st') \<Rightarrow>
      if fails then (Err (Storage kChunkStoreInitFailed), st')
      else (Ret (), st'\<lparr>cm_physicalFileCount := fileCount\<rparr>)) (\<lambda>_.
    sbind (if hasSentinel then sbind (checkSentinel kMinKey) (\<lambda>_. checkSentinel MaxKey) else ret ()) (\<lambda>_.
    sbind (getSize CreatedSizeKey) (\<lambda>created.
    sbind (modify (\<lambda>st. st\<lparr>cm_createdSize := created\<rparr>)) (\<lambda>_.
    sbind (getSize RemovedSizeKey) (\<lambda>removed.
    sbind (modify (\<lambda>st. st\<lparr>cm_removedSize := removed\<rparr>)) (\<lambda>_.
    sbind load_uncommitted (\<lambda>_.
    modify (\<lambda>st. foldl (\<lambda>st s. createAllocateState s st) st sizes)))))))))"

fun put_versions :: "32 word list \<Rightarrow> ('a meta_store_scheme, unit) action" where
  "put_versions [] = ret ()"
| "put_versions (s # ss) = sbind (kv_put (VersionKey s) (NumV kTargetVersion)) (\<lambda>_. put_versions ss)"

definition meta_create :: "string \<Rightarrow> bool \<Rightarrow> 32 word \<Rightarrow> 32 word list \<Rightarrow> ('a meta_store_scheme, unit) action" where
  "meta_create sentinel hasSentinel fileCount sizes =
    sbind (meta_load sentinel False fileCount sizes) (\<lambda>_.
    sbind (put_versions sizes) (\<lambda>_.
    if hasSentinel then sbind (kv_put kMinKey (StrV sentinel)) (\<lambda>_. kv_put MaxKey (StrV sentinel)) else ret ()))"

fun meta_addChunkSize :: "32 word list \<Rightarrow> ('a meta_store_scheme, unit) action" where
  "meta_addChunkSize [] = ret ()"
| "meta_addChunkSize (s # ss) =
    sbind (kv_put (VersionKey s) (NumV kTargetVersion)) (\<lambda>_.
    sbind (modify (createAllocateState s)) (\<lambda>_. meta_addChunkSize ss))"

section \<open>Loading the state of a chunk size\<close>

definition load_index :: "32 word \<Rightarrow> ('a meta_store_scheme, unit) action" where
  "load_index s = sbind (kv_num (AllocateIndexKey s)) (\<lambda>n. case n of
     None \<Rightarrow> ret () | Some n \<Rightarrow> upd_alloc s (\<lambda>a. a\<lparr>as_allocateIndex := of_nat n\<rparr>))"

definition load_start :: "32 word \<Rightarrow> ('a meta_store_scheme, unit) action" where
  "load_start s = sbind (kv_num (AllocateStartKey s)) (\<lambda>n. case n of
     Some n \<Rightarrow> upd_alloc s (\<lambda>a. a\<lparr>as_startingPoint := n\<rparr>)
   | None \<Rightarrow>
       sbind (kv_num (FileSizeKey \<lparr>fi_chunkSize = s, fi_chunkIdx = 0\<rparr>)) (\<lambda>fs.
       sbind (gets (\<lambda>st. mc_allocate_size (cm_config st))) (\<lambda>alloc.
       let fileSize = (case fs of None \<Rightarrow> 0 | Some n \<Rightarrow> n);
           start = (fileSize + alloc - 1) div alloc * alloc
       in sbind (upd_alloc s (\<lambda>a. a\<lparr>as_startingPoint := start\<rparr>)) (\<lambda>_.
          kv_put (AllocateStartKey s) (NumV start)))))"

text \<open>Version 0 to 1: positions before the starting point are forgotten and the others counted again.\<close>

definition fix_ops :: "32 word \<Rightarrow> nat \<Rightarrow> meta_key list \<Rightarrow> meta_key list \<Rightarrow> batch_op list" where
  "fix_ops s start removed recycled =
    (let early = (\<lambda>k. cp_offset (key_pos k) < start);
         recycledCount = length (filter (\<lambda>k. \<not> early k) recycled);
         removedCount = length (filter (\<lambda>k. \<not> early k) removed) + recycledCount
     in BPut (BareVersionKey s) (NumV 1) #
        map BRemove (filter early removed) @ map BRemove (filter early recycled) @
        [BPut (RemovedCountKey s) (NumV removedCount), BPut (RecycledCountKey s) (NumV recycledCount),
         BPut (ReusedCountKey s) (NumV 0), BPut (HoleCountKey s) (NumV 0)])"

definition fix_counts :: "32 word \<Rightarrow> nat \<Rightarrow> ('a meta_store_scheme, unit) action" where
  "fix_counts s version =
    (if version \<noteq> 0 then ret ()
     else sbind (gets (\<lambda>st. as_startingPoint (alloc_of s st))) (\<lambda>start.
       if start = 0 then kv_commit [BPut (BareVersionKey s) (NumV 1)]
       else sbind (iterateKeysWithPrefix (is_removed s)) (\<lambda>removed.
         sbind (iterateKeysWithPrefix (is_recycled s)) (\<lambda>recycled.
         kv_commit (fix_ops s start removed recycled)))))"

definition load_counts :: "32 word \<Rightarrow> ('a meta_store_scheme, unit) action" where
  "load_counts s =
    sbind (getSize (CreatedCountKey s)) (\<lambda>n. sbind (upd_alloc s (\<lambda>a. a\<lparr>as_createdCount := n\<rparr>)) (\<lambda>_.
    sbind (getSize (UsedCountKey s)) (\<lambda>n. sbind (upd_alloc s (\<lambda>a. a\<lparr>as_usedCount := n\<rparr>)) (\<lambda>_.
    sbind (getSize (RemovedCountKey s)) (\<lambda>n. sbind (upd_alloc s (\<lambda>a. a\<lparr>as_removedCount := n\<rparr>)) (\<lambda>_.
    sbind (getSize (RecycledCountKey s)) (\<lambda>n. sbind (upd_alloc s (\<lambda>a. a\<lparr>as_recycledCount := n\<rparr>)) (\<lambda>_.
    sbind (getSize (ReusedCountKey s)) (\<lambda>n. sbind (upd_alloc s (\<lambda>a. a\<lparr>as_reusedCount := n\<rparr>)) (\<lambda>_.
    sbind (getSize (HoleCountKey s)) (\<lambda>n. upd_alloc s (\<lambda>a. a\<lparr>as_holeCount := n\<rparr>))))))))))))"

definition oldest_time :: "meta_key list \<Rightarrow> int" where
  "oldest_time ks = (case ks of [] \<Rightarrow> 0 | k # _ \<Rightarrow> key_time k)"

definition load_chunks :: "32 word \<Rightarrow> ('a meta_store_scheme, unit) action" where
  "load_chunks s =
    sbind (iterateKeysWithPrefix (is_created s)) (\<lambda>created.
    sbind (iterateKeysWithPrefix (is_recycled s)) (\<lambda>recycled.
    sbind (load_counts s) (\<lambda>_.
    sbind (iterateKeysWithPrefix (is_removed s)) (\<lambda>removed.
    upd_alloc s (\<lambda>a. a\<lparr>as_recycledChunks := map key_pos recycled, as_createdChunks := rev (map key_pos created),
      as_oldestRemovedTimestamp := oldest_time removed, as_loaded := True\<rparr>)))))"

definition loadAllocateState :: "32 word \<Rightarrow> ('a meta_store_scheme, unit) action" where
  "loadAllocateState s st = (case map_of (cm_allocateState st) s of
      None \<Rightarrow> (Err (Storage kChunkInvalidChunkSize), st)
    | Some a \<Rightarrow>
        if as_loaded a then (Ret (), st)
        else sbind (getSize (BareVersionKey s)) (\<lambda>version.
          sbind (load_index s) (\<lambda>_.
          sbind (load_start s) (\<lambda>_.
          sbind (fix_counts s version) (\<lambda>_.
          load_chunks s)))) st)"

section \<open>Allocating space\<close>

text \<open>
  The size of the file chunks are created in. The entry of the map is inserted before the key-value
  store is asked, and stays when that fails.
\<close>

definition load_fileSize :: "32 word \<Rightarrow> 32 word \<Rightarrow> ('a meta_store_scheme, unit) action" where
  "load_fileSize s idx st = (case map_of (as_fileSize (alloc_of s st)) idx of
      Some _ \<Rightarrow> (Ret (), st)
    | None \<Rightarrow>
        sbind (upd_alloc s (\<lambda>a. a\<lparr>as_fileSize := AList.update idx 0 (as_fileSize a)\<rparr>)) (\<lambda>_.
        sbind (kv_num (FileSizeKey \<lparr>fi_chunkSize = s, fi_chunkIdx = idx\<rparr>)) (\<lambda>n. case n of
            None \<Rightarrow> ret ()
          | Some n \<Rightarrow> upd_alloc s (\<lambda>a. a\<lparr>as_fileSize :=
              AList.update idx (max n (as_startingPoint a)) (as_fileSize a)\<rparr>))) st)"

text \<open>The offsets of the new chunks; None when the loop steps over its end and does not stop.\<close>

partial_function (option) chunk_offsets :: "nat \<Rightarrow> nat \<Rightarrow> nat \<Rightarrow> nat list option" where
  "chunk_offsets step off end' =
    (if off = end' then Some []
     else Option.bind (chunk_offsets step (off + step) end') (\<lambda>os. Some (off # os)))"

declare chunk_offsets.simps [code]

definition new_positions :: "32 word \<Rightarrow> nat list \<Rightarrow> ChunkPosition list" where
  "new_positions idx = map (\<lambda>off. \<lparr>cp_fileIdx = idx, cp_offset = off\<rparr>)"

definition grow_ops ::
  "32 word \<Rightarrow> 32 word \<Rightarrow> 32 word \<Rightarrow> nat \<Rightarrow> ChunkPosition list \<Rightarrow> nat \<Rightarrow> batch_op list" where
  "grow_ops s idx next newFileSize created n =
    BPut (AllocateIndexKey s) (NumV (unat next)) #
    BPut (FileSizeKey \<lparr>fi_chunkSize = s, fi_chunkIdx = idx\<rparr>) (NumV newFileSize) #
    map (\<lambda>p. BPut (CreatedKey s p) EmptyV) created @ [BPut (CreatedCountKey s) (NumV n)]"

definition grow_file :: "32 word \<Rightarrow> 32 word \<Rightarrow> nat \<Rightarrow> ('a meta_store_scheme, unit) action" where
  "grow_file s idx fileSize st =
    (let alloc = mc_allocate_size (cm_config st);
         newFileSize = (fileSize div alloc + 1) * alloc;
         fid = \<lparr>fi_chunkSize = s, fi_chunkIdx = idx\<rparr>;
         next = (idx + 1) mod cm_physicalFileCount st
     in sbind (run_result (file_allocate fid fileSize (newFileSize - fileSize))) (\<lambda>_.
        case chunk_offsets (unat s) fileSize newFileSize of
          None \<Rightarrow> try_outcome Pending
        | Some offs \<Rightarrow>
            let created = new_positions idx offs in
            sbind (gets (\<lambda>st. as_createdCount (alloc_of s st) + length created)) (\<lambda>count.
            sbind (kv_commit (grow_ops s idx next newFileSize created count)) (\<lambda>_.
            upd_alloc s (\<lambda>a. a\<lparr>as_allocateIndex := next,
              as_createdChunks := as_createdChunks a @ rev created, as_createdCount := count,
              as_fileSize := AList.update idx newFileSize (as_fileSize a)\<rparr>)))) st)"

definition allocate_more :: "32 word \<Rightarrow> ('a meta_store_scheme, unit) action" where
  "allocate_more s =
    sbind (gets (\<lambda>st. as_allocateIndex (alloc_of s st))) (\<lambda>idx.
    sbind (load_fileSize s idx) (\<lambda>_.
    sbind (gets (\<lambda>st. the (map_of (as_fileSize (alloc_of s st)) idx))) (\<lambda>fileSize.
    if fileSize mod unat s \<noteq> 0 then fail (Storage kChunkMetadataGetError)
    else grow_file s idx fileSize)))"

text \<open>Without the lock, that is as a job, the flag is cleared at the end.\<close>

definition allocateChunks :: "bool \<Rightarrow> 32 word \<Rightarrow> ('a meta_store_scheme, unit) action" where
  "allocateChunks withLock s st = (case allocate_more s st of (r, st') \<Rightarrow>
     (r, if withLock then st' else snd (upd_alloc s (\<lambda>a. a\<lparr>as_allocating := False\<rparr>) st')))"

section \<open>Recycling removed chunks\<close>

text \<open>The bound of 0.6 batches, without fractions.\<close>

definition needRecycleRemovedChunks :: "MetaStoreConfig \<Rightarrow> int \<Rightarrow> AllocateState \<Rightarrow> bool" where
  "needRecycleRemovedChunks cfg now a =
    (if as_recycling a then False
     else if 3 * mc_recycle_batch_size cfg \<le> 5 * length (as_recycledChunks a) then False
     else let recycledAndHole = as_recycledCount a + as_holeCount a
       in recycledAndHole + mc_recycle_batch_size cfg \<le> as_removedCount a \<or>
         recycledAndHole < as_removedCount a \<and>
         as_oldestRemovedTimestamp a + mc_removed_chunk_force_recycled_time cfg < now)"

definition recycle_ops :: "32 word \<Rightarrow> meta_key list \<Rightarrow> nat \<Rightarrow> batch_op list" where
  "recycle_ops s keys n =
    map BRemove keys @ map (\<lambda>p. BPut (RecycledKey s p) EmptyV) (map key_pos keys) @
    [BPut (RecycledCountKey s) (NumV n)]"

definition commit_recycle :: "32 word \<Rightarrow> meta_key list \<Rightarrow> int \<Rightarrow> ('a meta_store_scheme, unit) action" where
  "commit_recycle s keys oldest st =
    (let n = as_recycledCount (alloc_of s st) + length keys
     in case kv_commit (recycle_ops s keys n) st of
         (Ret _, st') \<Rightarrow> upd_alloc s (\<lambda>a. a\<lparr>as_recycledCount := n, as_oldestRemovedTimestamp := oldest,
           as_recycledChunks := as_recycledChunks a @ map key_pos keys\<rparr>) st'
       | (_, st') \<Rightarrow> (Err (Storage kChunkMetadataSetError), st'))"

definition recycle_batch :: "32 word \<Rightarrow> ('a meta_store_scheme, unit) action" where
  "recycle_batch s =
    sbind (gets (\<lambda>st. mc_recycle_batch_size (cm_config st))) (\<lambda>batch.
    sbind (iterateKeysWithPrefix (is_removed s)) (\<lambda>ks.
    if take batch ks = [] then ret ()
    else commit_recycle s (take batch ks) (oldest_time (drop batch ks))))"

definition recycleRemovedChunks :: "bool \<Rightarrow> 32 word \<Rightarrow> ('a meta_store_scheme, unit) action" where
  "recycleRemovedChunks withLock s st = (case recycle_batch s st of (r, st') \<Rightarrow>
     (r, if withLock then st' else snd (upd_alloc s (\<lambda>a. a\<lparr>as_recycling := False\<rparr>) st')))"

definition run_job :: "('a meta_store_scheme, unit) action" where
  "run_job st = (case cm_jobs st of
      [] \<Rightarrow> (Ret (), st)
    | AllocateJob s # js \<Rightarrow> allocateChunks False s (st\<lparr>cm_jobs := js\<rparr>)
    | RecycleJob s # js \<Rightarrow> recycleRemovedChunks False s (st\<lparr>cm_jobs := js\<rparr>))"

section \<open>Metadata of a chunk\<close>

definition meta_get :: "chunk_id \<Rightarrow> ('a meta_store_scheme, ChunkMetadata) action" where
  "meta_get c st = (case kv_get (ChunkMetaKey c) st of
      (Ret v, st') \<Rightarrow> (case v of MetaV meta \<Rightarrow> Ret meta | _ \<Rightarrow> Err (Common kDataCorruption), st')
    | (Err e, st') \<Rightarrow>
        (Err (Storage (if e = Common kKVStoreNotFound then kChunkMetadataNotFound else kChunkMetadataGetError)), st')
    | (Crash, st') \<Rightarrow> (Crash, st')
    | (Pending, st') \<Rightarrow> (Pending, st'))"

definition set_ops :: "chunk_id \<Rightarrow> ChunkMetadata \<Rightarrow> batch_op list" where
  "set_ops c meta =
    [BPut (ChunkMetaKey c) (MetaV meta),
     if md_chunkState meta = COMMIT then BRemove (UncommittedChunkKey c)
     else BPut (UncommittedChunkKey c) EmptyV]"

definition meta_set :: "chunk_id \<Rightarrow> ChunkMetadata \<Rightarrow> ('a meta_store_scheme, unit) action" where
  "meta_set c meta st = (case kv_commit (set_ops c meta) st of
      (Ret _, st') \<Rightarrow> (Ret (), st')
    | (_, st') \<Rightarrow> (Err (Storage kChunkMetadataSetError), st'))"

definition position_of :: "ChunkMetadata \<Rightarrow> ChunkPosition" where
  "position_of meta = \<lparr>cp_fileIdx = fi_chunkIdx (md_innerFileId meta), cp_offset = md_innerOffset meta\<rparr>"

definition size_of :: "ChunkMetadata \<Rightarrow> 32 word" where
  "size_of meta = fi_chunkSize (md_innerFileId meta)"

text \<open>
  A removed chunk becomes a removed position, or a hole when it lies before the starting point. The
  counters are raised before the batch is committed and lowered again when that fails.
\<close>

definition commit_remove :: "int \<Rightarrow> chunk_id \<Rightarrow> ChunkMetadata \<Rightarrow> bool \<Rightarrow> ('a meta_store_scheme, unit) action" where
  "commit_remove now c meta hole st =
    (let s = size_of meta; a = alloc_of s st;
         removedSize = cm_removedSize st + unat s;
         ops = [BRemove (ChunkMetaKey c), BRemove (UncommittedChunkKey c)] @
           (if hole then []
            else [BPut (RemovedKey s (word_of_int now) (position_of meta)) EmptyV,
              BPut (RemovedCountKey s) (NumV (as_removedCount a + 1))]) @
           [BPut RemovedSizeKey (NumV removedSize)]
     in case kv_commit ops st of
         (Ret _, st') \<Rightarrow>
           (Ret (), (set_alloc s (a
             \<lparr>as_removedCount := (if hole then as_removedCount a else as_removedCount a + 1),
              as_oldestRemovedTimestamp :=
                (if as_oldestRemovedTimestamp a = 0 then now else as_oldestRemovedTimestamp a)\<rparr>) st')
             \<lparr>cm_removedSize := removedSize\<rparr>)
       | (_, st') \<Rightarrow> (Err (Storage kChunkMetadataSetError), st'))"

definition meta_remove :: "int \<Rightarrow> chunk_id \<Rightarrow> ChunkMetadata \<Rightarrow> ('a meta_store_scheme, unit) action" where
  "meta_remove now c meta =
    sbind (loadAllocateState (size_of meta)) (\<lambda>_.
    sbind (gets (\<lambda>st. md_innerOffset meta < as_startingPoint (alloc_of (size_of meta) st))) (\<lambda>hole.
    sbind (if hole then run_result (file_punchHole (md_innerFileId meta) (md_innerOffset meta)) else ret ()) (\<lambda>_.
    commit_remove now c meta hole)))"

section \<open>Creating a chunk\<close>

definition recycle_if_needed :: "int \<Rightarrow> 32 word \<Rightarrow> ('a meta_store_scheme, unit) action" where
  "recycle_if_needed now s st =
    (let a = alloc_of s st in
     if needRecycleRemovedChunks (cm_config st) now a
     then let st1 = (set_alloc s (a\<lparr>as_recycling := True\<rparr>) st)\<lparr>cm_jobs := cm_jobs st @ [RecycleJob s]\<rparr>
       in if as_recycledChunks a = [] then recycleRemovedChunks True s st1 else (Ret (), st1)
     else (Ret (), st))"

definition allocate_if_needed :: "32 word \<Rightarrow> ('a meta_store_scheme, unit) action" where
  "allocate_if_needed s st =
    (let a = alloc_of s st;
         st1 = (if length (as_createdChunks a) * unat s \<le> mc_allocate_size (cm_config st) div 2 \<and> \<not> as_allocating a
           then (set_alloc s (a\<lparr>as_allocating := True\<rparr>) st)\<lparr>cm_jobs := cm_jobs st @ [AllocateJob s]\<rparr>
           else st)
     in if as_createdChunks a = [] then allocateChunks True s st1 else (Ret (), st1))"

text \<open>The position of a new chunk, whether it is a recycled one, and the changes that claim it.\<close>

definition take_position ::
  "32 word \<Rightarrow> bool \<Rightarrow> ('a meta_store_scheme, ChunkPosition \<times> bool \<times> batch_op list) action" where
  "take_position s allow st =
    (let a = alloc_of s st in
     if as_recycledChunks a \<noteq> [] then
       let pos = last (as_recycledChunks a); n = as_reusedCount a + 1
       in (Ret (pos, True, [BPut (ReusedCountKey s) (NumV n), BRemove (RecycledKey s pos)]),
           set_alloc s (a\<lparr>as_recycledChunks := butlast (as_recycledChunks a), as_reusedCount := n\<rparr>) st)
     else if \<not> allow then (Err (StorageClient kNoSpace), st)
     else sbind (allocate_if_needed s) (\<lambda>_ st1.
       let a = alloc_of s st1 in
       if as_createdChunks a = [] then (Crash, st1)
       else let pos = last (as_createdChunks a); n = as_usedCount a + 1
         in (Ret (pos, False, [BPut (UsedCountKey s) (NumV n), BRemove (CreatedKey s pos)]),
             set_alloc s (a\<lparr>as_createdChunks := butlast (as_createdChunks a), as_usedCount := n\<rparr>) st1)) st)"

definition give_back :: "32 word \<Rightarrow> ChunkPosition \<Rightarrow> bool \<Rightarrow> AllocateState \<Rightarrow> AllocateState" where
  "give_back s pos reused a =
    (if reused then a\<lparr>as_recycledChunks := as_recycledChunks a @ [pos], as_reusedCount := as_reusedCount a - 1\<rparr>
     else a\<lparr>as_createdChunks := as_createdChunks a @ [pos], as_usedCount := as_usedCount a - 1\<rparr>)"

definition place :: "32 word \<Rightarrow> ChunkPosition \<Rightarrow> ChunkMetadata \<Rightarrow> ChunkMetadata" where
  "place s pos meta = meta\<lparr>md_innerFileId := \<lparr>fi_chunkSize = s, fi_chunkIdx = cp_fileIdx pos\<rparr>,
     md_innerOffset := cp_offset pos\<rparr>"

definition commit_create ::
  "chunk_id \<Rightarrow> ChunkMetadata \<Rightarrow> 32 word \<Rightarrow> ChunkPosition \<times> bool \<times> batch_op list
    \<Rightarrow> ('a meta_store_scheme, ChunkMetadata) action" where
  "commit_create c meta s claim st = (case claim of (pos, reused, ops) \<Rightarrow>
     let meta' = place s pos meta; createdSize = cm_createdSize st + unat s
     in case kv_commit (ops @ [BPut (ChunkMetaKey c) (MetaV meta'), BPut CreatedSizeKey (NumV createdSize)]) st of
         (Ret _, st') \<Rightarrow> (Ret meta', st'\<lparr>cm_createdSize := createdSize\<rparr>)
       | (_, st') \<Rightarrow> (Err (Storage kChunkMetadataSetError), set_alloc s (give_back s pos reused (alloc_of s st')) st'))"

definition meta_createChunk ::
  "int \<Rightarrow> chunk_id \<Rightarrow> ChunkMetadata \<Rightarrow> 32 word \<Rightarrow> bool \<Rightarrow> ('a meta_store_scheme, ChunkMetadata) action" where
  "meta_createChunk now c meta s allow =
    sbind (loadAllocateState s) (\<lambda>_.
    sbind (recycle_if_needed now s) (\<lambda>_.
    sbind (take_position s allow) (\<lambda>claim.
    commit_create c meta s claim)))"

section \<open>Punching holes\<close>

text \<open>
  The callback of the iteration: it stops at the first key that is not old enough or when the batch is
  full, and gives the keys to remove, how many holes were made and the time of the key it stopped at.
\<close>

fun punch_loop ::
  "int \<Rightarrow> nat \<Rightarrow> meta_key list \<Rightarrow> nat \<Rightarrow> meta_key list \<Rightarrow> ('a meta_store_scheme, meta_key list \<times> int) action" where
  "punch_loop expiration batch [] n done = ret (done, 0)"
| "punch_loop expiration batch (k # ks) n done =
    (if expiration < key_time k \<or> batch \<le> n then ret (done, key_time k)
     else case k of
       RemovedKey s t pos \<Rightarrow>
         sbind (run_result (file_punchHole \<lparr>fi_chunkSize = s, fi_chunkIdx = cp_fileIdx pos\<rparr> (cp_offset pos))) (\<lambda>_.
         punch_loop expiration batch ks (n + 1) (done @ [k]))
     | _ \<Rightarrow> punch_loop expiration batch ks n done)"

definition punchHoleRemovedChunks :: "32 word \<Rightarrow> int \<Rightarrow> ('a meta_store_scheme, bool) action" where
  "punchHoleRemovedChunks s expiration =
    sbind (gets (\<lambda>st. mc_punch_hole_batch_size (cm_config st))) (\<lambda>batch.
    sbind (iterateKeysWithPrefix (is_removed s)) (\<lambda>ks.
    sbind (punch_loop expiration batch ks 0 []) (\<lambda>(removed, oldest).
    if removed = [] then sbind (upd_alloc s (\<lambda>a. a\<lparr>as_oldestRemovedTimestamp := oldest\<rparr>)) (\<lambda>_. ret True)
    else sbind (gets (\<lambda>st. as_holeCount (alloc_of s st) + length removed)) (\<lambda>count.
      \<lambda>st. case kv_commit (map BRemove removed @ [BPut (HoleCountKey s) (NumV count)]) st of
        (Ret _, st') \<Rightarrow>
          sbind (upd_alloc s (\<lambda>a. a\<lparr>as_holeCount := count, as_oldestRemovedTimestamp := oldest\<rparr>))
            (\<lambda>_. ret (oldest = 0)) st'
      | (_, st') \<Rightarrow> (Err (Storage kChunkMetadataSetError), st')))))"

fun punch_sizes :: "int \<Rightarrow> 32 word list \<Rightarrow> bool \<Rightarrow> ('a meta_store_scheme, bool) action" where
  "punch_sizes expiration [] acc = ret acc"
| "punch_sizes expiration (s # ss) acc =
    sbind (loadAllocateState s) (\<lambda>_.
    sbind (gets (\<lambda>st. as_oldestRemovedTimestamp (alloc_of s st))) (\<lambda>oldest.
    if oldest = 0 \<or> expiration \<le> oldest then punch_sizes expiration ss acc
    else sbind (punchHoleRemovedChunks s expiration) (\<lambda>all. punch_sizes expiration ss (acc \<and> all))))"

definition meta_punchHole :: "int \<Rightarrow> ('a meta_store_scheme, bool) action" where
  "meta_punchHole now st =
    (let expiration = (if cm_emergencyRecycling st then now
       else now - mc_removed_chunk_expiration_time (cm_config st))
     in punch_sizes expiration (map fst (cm_allocateState st)) True st)"

section \<open>Sizes\<close>

definition meta_usedSize :: "'a meta_store_scheme \<Rightarrow> nat" where
  "meta_usedSize st = nat (max (int (cm_createdSize st) - int (cm_removedSize st)) 0)"

definition unused_of :: "AllocateState \<Rightarrow> int \<times> int" where
  "unused_of a =
    (max 0 (int (as_createdCount a) - int (as_usedCount a)) + max 0 (int (as_recycledCount a) - int (as_reusedCount a)),
     max 0 (int (as_removedCount a) - int (as_recycledCount a) - int (as_holeCount a)))"

fun unused_sizes :: "32 word list \<Rightarrow> int \<Rightarrow> int \<Rightarrow> ('a meta_store_scheme, int \<times> int) action" where
  "unused_sizes [] reserved unrecycled = ret (reserved, unrecycled)"
| "unused_sizes (s # ss) reserved unrecycled =
    sbind (loadAllocateState s) (\<lambda>_.
    sbind (gets (\<lambda>st. unused_of (alloc_of s st))) (\<lambda>(r, u).
    unused_sizes ss (reserved + uint s * r) (unrecycled + uint s * u)))"

definition unusedSize :: "('a meta_store_scheme, int \<times> int) action" where
  "unusedSize st = unused_sizes (map fst (cm_allocateState st)) 0 0 st"

definition meta_sync :: "('a meta_store_scheme, unit) action" where
  "meta_sync = kv_put SyncDummyKey EmptyV"

end
