(* ===== verification/Chunk_Allocation.thy ===== *)
theory Chunk_Allocation
  imports Chunk_Meta_Store
begin

text \<open>
  The allocation of positions by the store of metadata is safe: no position of a file has two owners,
  whatever writes fail and whenever the process restarts, and the counters say how many positions there
  are in each pool. The operations are those of \<^theory_text>\<open>Chunk_Meta_Store\<close>.
\<close>

section \<open>Positions and their owners\<close>

text \<open>
  Who has a position: a chunk, or the pool of created, recycled or removed positions. The invariant says
  that no position has two owners, that positions are aligned and lie within what was allocated, and that
  the lists in memory are the positions of their pools.
\<close>

datatype owner = Live chunk_id | Created | Recycled | Removed "64 word"

type_synonym kv_map = "meta_key \<Rightarrow> meta_value option"

fun owns :: "kv_map \<Rightarrow> 32 word \<Rightarrow> ChunkPosition \<Rightarrow> owner \<Rightarrow> bool" where
  "owns M s p (Live c) = (\<exists>m. M (ChunkMetaKey c) = Some (MetaV m) \<and> size_of m = s \<and> position_of m = p)"
| "owns M s p Created = (M (CreatedKey s p) \<noteq> None)"
| "owns M s p Recycled = (M (RecycledKey s p) \<noteq> None)"
| "owns M s p (Removed t) = (M (RemovedKey s t p) \<noteq> None)"

definition file_end :: "kv_map \<Rightarrow> 32 word \<Rightarrow> 32 word \<Rightarrow> nat" where
  "file_end M s idx = (case M (FileSizeKey \<lparr>fi_chunkSize = s, fi_chunkIdx = idx\<rparr>) of Some (NumV n) \<Rightarrow> n | _ \<Rightarrow> 0)"

definition one_owner :: "kv_map \<Rightarrow> bool" where
  "one_owner M \<longleftrightarrow> (\<forall>s p x y. owns M s p x \<longrightarrow> owns M s p y \<longrightarrow> x = y)"

definition in_files :: "kv_map \<Rightarrow> bool" where
  "in_files M \<longleftrightarrow> (\<forall>s p x. owns M s p x \<longrightarrow>
     unat s dvd cp_offset p \<and> cp_offset p + unat s \<le> file_end M s (cp_fileIdx p))"

definition numbers_typed :: "kv_map \<Rightarrow> bool" where
  "numbers_typed M \<longleftrightarrow> (\<forall>f v. M (FileSizeKey f) = Some v \<longrightarrow> (\<exists>n. v = NumV n))"

definition kv_inv :: "kv_map \<Rightarrow> bool" where
  "kv_inv M \<longleftrightarrow> one_owner M \<and> in_files M \<and> numbers_typed M"

definition alloc_inv :: "kv_map \<Rightarrow> 32 word \<Rightarrow> AllocateState \<Rightarrow> bool" where
  "alloc_inv M s a \<longleftrightarrow>
    (\<forall>idx n. map_of (as_fileSize a) idx = Some n \<longrightarrow> file_end M s idx \<le> n) \<and>
    (as_loaded a \<longrightarrow>
      distinct (as_createdChunks a) \<and> set (as_createdChunks a) = {p. owns M s p Created} \<and>
      distinct (as_recycledChunks a) \<and> set (as_recycledChunks a) = {p. owns M s p Recycled})"

definition files_long :: "'a disk_scheme \<Rightarrow> kv_map \<Rightarrow> bool" where
  "files_long d M \<longleftrightarrow> (\<forall>s i. file_end M s i \<le> length (contents d \<lparr>fi_chunkSize = s, fi_chunkIdx = i\<rparr>))"

definition meta_inv :: "'a meta_store_scheme \<Rightarrow> bool" where
  "meta_inv st \<longleftrightarrow> cm_readFaults st = [] \<and> distinct (map fst (cm_kv st)) \<and> kv_inv (map_of (cm_kv st)) \<and>
    (\<forall>s. alloc_inv (map_of (cm_kv st)) s (alloc_of s st)) \<and> files_long st (map_of (cm_kv st))"

lemma in_filesD:
  assumes "kv_inv M" "owns M s p x"
  shows "unat s dvd cp_offset p" "cp_offset p + unat s \<le> file_end M s (cp_fileIdx p)"
  using assms unfolding kv_inv_def in_files_def by blast+

lemma one_ownerD: "kv_inv M \<Longrightarrow> owns M s p x \<Longrightarrow> owns M s p y \<Longrightarrow> x = y"
  unfolding kv_inv_def one_owner_def by blast

subsection \<open>Reading without failures\<close>

lemma alloc_of_set [simp]: "alloc_of s' (set_alloc s a st) = (if s' = s then a else alloc_of s' st)"
  by (simp add: alloc_of_def set_alloc_def update_conv')

lemma set_alloc_fields [simp]:
  "cm_kv (set_alloc s a st) = cm_kv st" "cm_readFaults (set_alloc s a st) = cm_readFaults st"
  "cm_writeFaults (set_alloc s a st) = cm_writeFaults st" "cm_config (set_alloc s a st) = cm_config st"
  "cm_createdSize (set_alloc s a st) = cm_createdSize st" "cm_removedSize (set_alloc s a st) = cm_removedSize st"
  "cm_physicalFileCount (set_alloc s a st) = cm_physicalFileCount st" "cm_jobs (set_alloc s a st) = cm_jobs st"
  "cm_uncommitted (set_alloc s a st) = cm_uncommitted st"
  by (simp_all add: set_alloc_def)

lemma alloc_of_fields [simp]:
  "alloc_of s (st\<lparr>cm_kv := kv\<rparr>) = alloc_of s st" "alloc_of s (st\<lparr>cm_writeFaults := q\<rparr>) = alloc_of s st"
  "alloc_of s (st\<lparr>cm_createdSize := n\<rparr>) = alloc_of s st" "alloc_of s (st\<lparr>cm_removedSize := n\<rparr>) = alloc_of s st"
  "alloc_of s (st\<lparr>cm_jobs := js\<rparr>) = alloc_of s st" "alloc_of s (st\<lparr>cm_uncommitted := u\<rparr>) = alloc_of s st"
  "alloc_of s (st\<lparr>cm_readFaults := q\<rparr>) = alloc_of s st"
  by (simp_all add: alloc_of_def)

lemma quiet_reads:
  assumes "cm_readFaults st = []"
  shows "kv_get k st = (case map_of (cm_kv st) k of None \<Rightarrow> Err (Common kKVStoreNotFound) | Some v \<Rightarrow> Ret v, st)"
    "iterateKeysWithPrefix P st = (Ret (sorted_keys P st), st)"
    "\<exists>r. kv_num k st = (r, st)" "\<exists>r. getSize k st = (r, st)"
  using assms
  by (auto simp: kv_get_def iterateKeysWithPrefix_def kv_num_def getSize_def read_fault_def sbind_def ret_def
      split: option.splits outcome.splits)

lemma sorted_keys_set: "set (sorted_keys P st) = {k. P k \<and> map_of (cm_kv st) k \<noteq> None}"
  by (auto simp: sorted_keys_def map_of_eq_None_iff image_iff)

lemma sorted_keys_distinct: "distinct (map fst (cm_kv st)) \<Longrightarrow> distinct (sorted_keys P st)"
  by (simp add: sorted_keys_def)

subsection \<open>Writing a batch\<close>

fun apply_map :: "batch_op \<Rightarrow> kv_map \<Rightarrow> kv_map" where
  "apply_map (BPut k v) M = M(k \<mapsto> v)"
| "apply_map (BRemove k) M = M(k := None)"

lemma map_of_apply: "map_of (fold apply_op ops kv) = fold apply_map ops (map_of kv)"
proof (induction ops arbitrary: kv)
  case (Cons x ops)
  then show ?case by (cases x) (simp_all add: update_conv' delete_conv' fun_upd_def)
qed simp

lemma distinct_apply: "distinct (map fst kv) \<Longrightarrow> distinct (map fst (fold apply_op ops kv))"
proof (induction ops arbitrary: kv)
  case (Cons x ops)
  then show ?case by (cases x) (simp_all add: distinct_update distinct_delete)
qed simp

lemma fold_removes: "fold apply_map (map BRemove ks) M = (\<lambda>k. if k \<in> set ks then None else M k)"
  by (induction ks arbitrary: M) (auto simp: fun_eq_iff)

lemma fold_puts: "fold apply_map (map (\<lambda>x. BPut (f x) v) xs) M = (\<lambda>k. if k \<in> f ` set xs then Some v else M k)"
  by (induction xs arbitrary: M) (auto simp: fun_eq_iff)

lemma kv_commit_cases:
  fixes st :: "'a meta_store_scheme"
  obtains q where "kv_commit ops st = (Ret (), st\<lparr>cm_writeFaults := q, cm_kv := fold apply_op ops (cm_kv st)\<rparr>)"
  | q where "kv_commit ops st = (Err (Common kKVStoreSetError), st\<lparr>cm_writeFaults := q\<rparr>)"
proof (cases "cm_writeFaults st")
  case Nil
  have "st = st\<lparr>cm_writeFaults := cm_writeFaults st\<rparr>" by simp
  then have "kv_commit ops st = (Ret (), st\<lparr>cm_writeFaults := cm_writeFaults st, cm_kv := fold apply_op ops (cm_kv st)\<rparr>)"
    using Nil by (simp add: kv_commit_def write_fault_def)
  then show ?thesis by (rule that(1))
next
  case (Cons b q)
  then show ?thesis using that(1) [of q] that(2) [of q] by (cases b) (simp_all add: kv_commit_def write_fault_def)
qed

subsection \<open>Changes that keep the invariant\<close>

text \<open>Keys that say nothing about positions.\<close>

fun plain_key :: "meta_key \<Rightarrow> bool" where
  "plain_key (ChunkMetaKey _) = False"
| "plain_key (CreatedKey _ _) = False"
| "plain_key (RecycledKey _ _) = False"
| "plain_key (RemovedKey _ _ _) = False"
| "plain_key (FileSizeKey _) = False"
| "plain_key _ = True"

lemma plain_simps [simp]:
  assumes "plain_key k"
  shows "owns (M(k := x)) s p y = owns M s p y" "file_end (M(k := x)) s i = file_end M s i"
    "numbers_typed (M(k := x)) = numbers_typed M"
  using assms by (cases y; force simp: file_end_def numbers_typed_def)+

lemma plain_inv [simp]:
  assumes "plain_key k"
  shows "kv_inv (M(k := x)) = kv_inv M" "alloc_inv (M(k := x)) s a = alloc_inv M s a"
  using assms by (simp_all add: kv_inv_def alloc_inv_def one_owner_def in_files_def del: owns.simps)

text \<open>A change that leaves each position its owners, or takes them away, or gives it one new owner.\<close>

lemma one_owner_change:
  assumes "one_owner M"
    and "\<And>s p. (\<forall>x. owns M' s p x \<longrightarrow> owns M s p x) \<or> (\<exists>z. \<forall>x. owns M' s p x \<longrightarrow> x = z)"
  shows "one_owner M'"
  unfolding one_owner_def
proof (intro allI impI)
  fix s p x y assume "owns M' s p x" "owns M' s p y"
  with assms show "x = y" using assms(2) [of s p] unfolding one_owner_def by blast
qed

lemma kv_inv_change:
  assumes "kv_inv M"
    and "\<And>s p. (\<forall>x. owns M' s p x \<longrightarrow> owns M s p x) \<or>
      (\<exists>z y. (\<forall>x. owns M' s p x \<longrightarrow> x = z) \<and> owns M s p y)"
    and "\<And>s i. file_end M' s i = file_end M s i" "numbers_typed M'"
  shows "kv_inv M'"
proof -
  have "one_owner M'"
  proof (rule one_owner_change [of M])
    show "one_owner M" using assms(1) by (simp add: kv_inv_def)
    show "(\<forall>x. owns M' s p x \<longrightarrow> owns M s p x) \<or> (\<exists>z. \<forall>x. owns M' s p x \<longrightarrow> x = z)" for s p
      using assms(2) [of s p] by blast
  qed
  moreover have "in_files M'"
    unfolding in_files_def assms(3)
  proof (intro allI impI)
    fix s p x assume "owns M' s p x"
    then obtain y where "owns M s p y" using assms(2) [of s p] by blast
    then show "unat s dvd cp_offset p \<and> cp_offset p + unat s \<le> file_end M s (cp_fileIdx p)"
      using assms(1) by (auto simp: kv_inv_def in_files_def)
  qed
  ultimately show ?thesis using assms(4) by (simp add: kv_inv_def)
qed

lemma alloc_inv_change:
  assumes "alloc_inv M s a" "\<And>p. owns M' s p Created = owns M s p Created"
    "\<And>p. owns M' s p Recycled = owns M s p Recycled" "\<And>i. file_end M' s i = file_end M s i"
  shows "alloc_inv M' s a"
  using assms by (simp add: alloc_inv_def del: owns.simps)

lemma contents_meta [simp]:
  "contents (set_alloc s a st) = contents st" "contents (st\<lparr>cm_kv := kv\<rparr>) = contents st"
  "contents (st\<lparr>cm_writeFaults := q\<rparr>) = contents st" "contents (st\<lparr>cm_jobs := js\<rparr>) = contents st"
  "contents (st\<lparr>cm_createdSize := n\<rparr>) = contents st" "contents (st\<lparr>cm_removedSize := n\<rparr>) = contents st"
  "contents (st\<lparr>cm_readFaults := q\<rparr>) = contents st" "contents (st\<lparr>cm_uncommitted := u\<rparr>) = contents st"
  by (simp_all add: contents_def set_alloc_def fun_eq_iff)

lemma disk_only_meta:
  assumes "disk_only st st'"
  shows "cm_kv st' = cm_kv st" "cm_readFaults st' = cm_readFaults st" "alloc_of s st' = alloc_of s st"
    "cm_config st' = cm_config st" "cm_jobs st' = cm_jobs st" "cm_removedSize st' = cm_removedSize st"
    "cm_createdSize st' = cm_createdSize st" "cm_physicalFileCount st' = cm_physicalFileCount st"
    "cm_allocateState st' = cm_allocateState st"
  using assms by (auto simp: disk_only_def alloc_of_def)

subsection \<open>What an operation leaves alone\<close>

text \<open>The bytes of a chunk, the metadata of all chunks, and a state in which both are as given.\<close>

definition chunk_bytes :: "'a disk_scheme \<Rightarrow> ChunkMetadata \<Rightarrow> bytes" where
  "chunk_bytes d m = piece (md_innerOffset m) (unat (size_of m)) (contents d (md_innerFileId m))"

definition metas :: "'a meta_store_scheme \<Rightarrow> chunk_id \<Rightarrow> meta_value option" where
  "metas st c = map_of (cm_kv st) (ChunkMetaKey c)"

definition framed ::
  "(chunk_id \<Rightarrow> meta_value option) \<Rightarrow> (chunk_id \<Rightarrow> bytes) \<Rightarrow> 'a meta_store_scheme \<Rightarrow> bool" where
  "framed F D st \<longleftrightarrow> meta_inv st \<and> metas st = F \<and> (\<forall>c m. F c = Some (MetaV m) \<longrightarrow> chunk_bytes st m = D c)"

lemma framed_inv: "framed F D st \<Longrightarrow> meta_inv st"
  by (simp add: framed_def)

lemma framed_reads: "framed F D st \<Longrightarrow> cm_readFaults st = []"
  by (simp add: framed_def meta_inv_def)

text \<open>The range of a chunk lies in its file, and apart from every other position with an owner.\<close>

lemma live_range:
  assumes "meta_inv st" "metas st c = Some (MetaV m)"
  shows "md_innerOffset m + unat (size_of m) \<le> length (contents st (md_innerFileId m))"
proof -
  have own: "owns (map_of (cm_kv st)) (size_of m) (position_of m) (Live c)"
    using assms(2) by (simp add: metas_def)
  have "md_innerOffset m + unat (size_of m) \<le> file_end (map_of (cm_kv st)) (size_of m) (fi_chunkIdx (md_innerFileId m))"
    using in_filesD(2) [OF _ own] assms(1) by (simp add: meta_inv_def position_of_def)
  also have "\<dots> \<le> length (contents st \<lparr>fi_chunkSize = size_of m, fi_chunkIdx = fi_chunkIdx (md_innerFileId m)\<rparr>)"
    using assms(1) by (simp add: meta_inv_def files_long_def)
  also have "\<lparr>fi_chunkSize = size_of m, fi_chunkIdx = fi_chunkIdx (md_innerFileId m)\<rparr> = md_innerFileId m"
    by (simp add: size_of_def)
  finally show ?thesis .
qed

lemma aligned_disjoint:
  fixes a b n :: nat
  assumes "n dvd a" "n dvd b" "a \<noteq> b"
  shows "a + n \<le> b \<or> b + n \<le> a"
proof -
  obtain i j where "a = n * i" "b = n * j" using assms(1,2) by (elim dvdE)
  moreover have "i + 1 \<le> j \<or> j + 1 \<le> i" using assms(3) calculation by (cases i j rule: linorder_cases) auto
  then have "n * (i + 1) \<le> n * j \<or> n * (j + 1) \<le> n * i" using mult_le_mono2 by blast
  ultimately show ?thesis by (simp add: distrib_left add.commute)
qed

lemma slots_disjoint:
  assumes "kv_inv M" "owns M s p x" "owns M s' q y" "x \<noteq> y"
  shows "s \<noteq> s' \<or> cp_fileIdx p \<noteq> cp_fileIdx q \<or> cp_offset p + unat s \<le> cp_offset q \<or> cp_offset q + unat s \<le> cp_offset p"
proof (cases "s = s' \<and> cp_fileIdx p = cp_fileIdx q")
  case True
  have "p \<noteq> q" using assms True one_ownerD by blast
  then have "cp_offset p \<noteq> cp_offset q" using True by auto
  moreover have "unat s dvd cp_offset p" "unat s dvd cp_offset q"
    using in_filesD(1) assms(1,2,3) True by blast+
  ultimately show ?thesis using aligned_disjoint by blast
qed blast

text \<open>The basic steps that keep a framed state.\<close>

lemma keeps_quiet:
  assumes "\<And>st. P st \<Longrightarrow> cm_readFaults st = []" "\<And>st. cm_readFaults st = [] \<Longrightarrow> \<exists>r. m st = (r, st)"
  shows "keeps P m"
  unfolding keeps_def using assms by fastforce

lemma framed_set_alloc:
  "framed F D st \<Longrightarrow> alloc_inv (map_of (cm_kv st)) s a \<Longrightarrow> framed F D (set_alloc s a st)"
  by (auto simp: framed_def meta_inv_def metas_def chunk_bytes_def files_long_def fun_eq_iff)

lemma framed_fields [simp]:
  "framed F D (st\<lparr>cm_writeFaults := q\<rparr>) = framed F D st" "framed F D (st\<lparr>cm_jobs := js\<rparr>) = framed F D st"
  "framed F D (st\<lparr>cm_createdSize := n\<rparr>) = framed F D st" "framed F D (st\<lparr>cm_removedSize := n\<rparr>) = framed F D st"
  by (auto simp: framed_def meta_inv_def metas_def chunk_bytes_def files_long_def fun_eq_iff)

lemma framed_commit:
  assumes "framed F D st" "kv_inv (fold apply_map ops (map_of (cm_kv st)))"
    and "\<And>s. alloc_inv (fold apply_map ops (map_of (cm_kv st))) s (alloc_of s st)"
    and "files_long st (fold apply_map ops (map_of (cm_kv st)))"
    and "\<And>c. fold apply_map ops (map_of (cm_kv st)) (ChunkMetaKey c) = map_of (cm_kv st) (ChunkMetaKey c)"
  shows "framed F D (st\<lparr>cm_writeFaults := q, cm_kv := fold apply_op ops (cm_kv st)\<rparr>)"
  using assms
  by (auto simp: framed_def meta_inv_def metas_def chunk_bytes_def files_long_def fun_eq_iff map_of_apply distinct_apply)

lemma framed_commit_alloc:
  assumes "framed F D st" "kv_inv (fold apply_map ops (map_of (cm_kv st)))"
    and "alloc_inv (fold apply_map ops (map_of (cm_kv st))) s a"
    and "\<And>s'. s' \<noteq> s \<Longrightarrow> alloc_inv (fold apply_map ops (map_of (cm_kv st))) s' (alloc_of s' st)"
    and "files_long st (fold apply_map ops (map_of (cm_kv st)))"
    and "\<And>c. fold apply_map ops (map_of (cm_kv st)) (ChunkMetaKey c) = map_of (cm_kv st) (ChunkMetaKey c)"
  shows "framed F D (set_alloc s a (st\<lparr>cm_writeFaults := q, cm_kv := fold apply_op ops (cm_kv st)\<rparr>))"
  using assms
  by (auto simp: framed_def meta_inv_def metas_def chunk_bytes_def files_long_def fun_eq_iff map_of_apply distinct_apply)

lemma framed_kv_commit:
  assumes "framed F D st" "kv_inv (fold apply_map ops (map_of (cm_kv st)))"
    and "\<And>s. alloc_inv (fold apply_map ops (map_of (cm_kv st))) s (alloc_of s st)"
    and "files_long st (fold apply_map ops (map_of (cm_kv st)))"
    and "\<And>c. fold apply_map ops (map_of (cm_kv st)) (ChunkMetaKey c) = map_of (cm_kv st) (ChunkMetaKey c)"
  shows "framed F D (snd (kv_commit ops st))"
  using framed_commit [OF assms] assms(1) by (rule_tac ops = ops and st = st in kv_commit_cases) simp_all

lemma framed_disk:
  assumes "framed F D st" "disk_only st st'" "\<And>fid. length (contents st fid) \<le> length (contents st' fid)"
    and "\<And>c m. F c = Some (MetaV m) \<Longrightarrow> chunk_bytes st' m = chunk_bytes st m"
  shows "framed F D st'"
proof -
  have "files_long st' (map_of (cm_kv st))"
    using assms(1,3) unfolding framed_def meta_inv_def files_long_def by (meson order_trans)
  then show ?thesis
    using assms(1,4) disk_only_meta [OF assms(2)] by (auto simp: framed_def meta_inv_def metas_def fun_eq_iff)
qed

lemma framed_extend:
  assumes "framed F D st" "disk_only st st'" "\<And>fid. \<exists>z. contents st' fid = contents st fid @ z"
  shows "framed F D st'"
proof (rule framed_disk [OF assms(1,2)])
  show "length (contents st fid) \<le> length (contents st' fid)" for fid
    using assms(3) [of fid] by auto
  show "chunk_bytes st' m = chunk_bytes st m" if "F c = Some (MetaV m)" for c m
  proof -
    have "md_innerOffset m + unat (size_of m) \<le> length (contents st (md_innerFileId m))"
      using live_range [of st c m] assms(1) that by (simp add: framed_def)
    then show ?thesis using assms(3) [of "md_innerFileId m"] by (auto simp: chunk_bytes_def piece_def)
  qed
qed

lemma keeps_upd_alloc:
  assumes "\<And>M a. alloc_inv M s a \<Longrightarrow> alloc_inv M s (f a)"
  shows "keeps (framed F D) (upd_alloc s f)"
  unfolding upd_alloc_def
proof (rule keeps_modify)
  fix st :: "'a meta_store_scheme" assume fr: "framed F D st"
  then have "alloc_inv (map_of (cm_kv st)) s (alloc_of s st)" by (simp add: framed_def meta_inv_def)
  from framed_set_alloc [OF fr assms [OF this]]
  show "framed F D (set_alloc s (f (alloc_of s st)) st)" .
qed

lemma keeps_kv_plain:
  assumes "\<forall>x \<in> set ops. case x of BPut k v \<Rightarrow> plain_key k | BRemove k \<Rightarrow> plain_key k"
  shows "keeps (framed F D) (kv_commit ops)"
  unfolding keeps_def
proof (intro allI impI)
  fix st :: "'a meta_store_scheme" assume fr: "framed F D st"
  define M where "M = map_of (cm_kv st)"
  have eqs: "kv_inv (fold apply_map ops M) = kv_inv M" "alloc_inv (fold apply_map ops M) s a = alloc_inv M s a"
    "file_end (fold apply_map ops M) s i = file_end M s i" "fold apply_map ops M (ChunkMetaKey c) = M (ChunkMetaKey c)"
    for s a i c
    using assms
  proof (induction ops arbitrary: M)
    case (Cons x ops)
    { case 1 then show ?case using Cons(1) by (cases x) simp_all }
    { case 2 then show ?case using Cons(2) by (cases x) simp_all }
    { case 3 then show ?case using Cons(3) by (cases x) simp_all }
    { case 4 then show ?case using Cons(4) by (cases x) auto }
  qed simp_all
  show "framed F D (snd (kv_commit ops st))"
    using fr by (intro framed_kv_commit) (simp_all add: framed_def meta_inv_def files_long_def eqs flip: M_def)
qed

lemma keeps_reads [simp, intro]:
  "keeps (framed F D) (kv_get k)" "keeps (framed F D) (kv_num k)" "keeps (framed F D) (getSize k)"
  "keeps (framed F D) (iterateKeysWithPrefix P)"
  by (rule keeps_quiet [OF framed_reads]; use quiet_reads in blast)+

subsection \<open>Loading\<close>

definition unloaded ::
  "32 word \<Rightarrow> (chunk_id \<Rightarrow> meta_value option) \<Rightarrow> (chunk_id \<Rightarrow> bytes) \<Rightarrow> 'a meta_store_scheme \<Rightarrow> bool" where
  "unloaded s F D st \<longleftrightarrow> framed F D st \<and> \<not> as_loaded (alloc_of s st)"

lemma unloaded_no_faults: "unloaded s F D st \<Longrightarrow> cm_readFaults st = []"
  unfolding unloaded_def using framed_reads by blast

lemma unloaded_reads [simp, intro]:
  "keeps (unloaded s F D) (kv_get k)" "keeps (unloaded s F D) (kv_num k)" "keeps (unloaded s F D) (getSize k)"
  "keeps (unloaded s F D) (iterateKeysWithPrefix P)"
  by (rule keeps_quiet [OF unloaded_no_faults]; use quiet_reads in blast)+

lemma unloaded_upd:
  assumes "\<And>a. as_fileSize (f a) = as_fileSize a" "\<And>a. as_loaded (f a) = as_loaded a"
  shows "keeps (unloaded s F D) (upd_alloc s f)"
  unfolding upd_alloc_def
proof (rule keeps_modify)
  fix st :: "'a meta_store_scheme" assume u: "unloaded s F D st"
  then have "alloc_inv (map_of (cm_kv st)) s (f (alloc_of s st))"
    using assms by (auto simp: unloaded_def framed_def meta_inv_def alloc_inv_def simp del: owns.simps)
  then show "unloaded s F D (set_alloc s (f (alloc_of s st)) st)"
    using u framed_set_alloc assms(2) by (auto simp: unloaded_def)
qed

lemma kv_commit_alloc: "alloc_of s (snd (kv_commit ops st)) = alloc_of s st"
  by (rule_tac ops = ops and st = st in kv_commit_cases) simp_all

lemma unloaded_plain:
  assumes "\<forall>x \<in> set ops. case x of BPut k v \<Rightarrow> plain_key k | BRemove k \<Rightarrow> plain_key k"
  shows "keeps (unloaded s F D) (kv_commit ops)"
  using keepsD [OF keeps_kv_plain [OF assms]] by (auto simp: keeps_def unloaded_def kv_commit_alloc)

lemma load_index_keeps: "keeps (unloaded s F D) (load_index s)"
  unfolding load_index_def by (rule keeps_sbind) (auto split: option.split intro!: unloaded_upd)

lemma load_start_keeps: "keeps (unloaded s F D) (load_start s)"
  unfolding load_start_def kv_put_def Let_def
  by (rule keeps_sbind) (auto split: option.split intro!: unloaded_upd unloaded_plain keeps_sbind)

lemma load_counts_keeps: "keeps (unloaded s F D) (load_counts s)"
  unfolding load_counts_def by (intro keeps_sbind unloaded_upd unloaded_reads) simp_all

text \<open>Positions that are forgotten have no owner any more.\<close>

fun forgets :: "32 word \<Rightarrow> batch_op \<Rightarrow> bool" where
  "forgets s (BPut k v) = plain_key k"
| "forgets s (BRemove k) = (plain_key k \<or> is_removed s k \<or> is_recycled s k)"

definition forgotten :: "32 word \<Rightarrow> kv_map \<Rightarrow> kv_map \<Rightarrow> bool" where
  "forgotten s M M' \<longleftrightarrow> (kv_inv M \<longrightarrow> kv_inv M') \<and>
    (\<forall>s' i. file_end M' s' i = file_end M s' i) \<and> (\<forall>c. M' (ChunkMetaKey c) = M (ChunkMetaKey c)) \<and>
    (\<forall>s' p x. s' \<noteq> s \<longrightarrow> owns M' s' p x = owns M s' p x)"

lemma forgotten_trans: "forgotten s M M' \<Longrightarrow> forgotten s M' M'' \<Longrightarrow> forgotten s M M''"
  by (simp add: forgotten_def del: owns.simps)

lemma forgotten_remove:
  assumes "is_removed s k \<or> is_recycled s k"
  shows "forgotten s M (M(k := None))"
proof -
  have sub: "owns (M(k := None)) s' p x \<Longrightarrow> owns M s' p x" for s' p x
    by (cases x) (auto split: if_splits)
  have fe: "file_end (M(k := None)) s' i = file_end M s' i" for s' i
    using assms by (auto simp: file_end_def)
  have "kv_inv (M(k := None))" if "kv_inv M"
    by (rule kv_inv_change [OF that]) (use sub fe that assms in \<open>auto simp: kv_inv_def numbers_typed_def simp del: owns.simps\<close>)
  moreover have "owns (M(k := None)) s' p x = owns M s' p x" if "s' \<noteq> s" for s' p x
    using assms that by (cases x; cases k) auto
  ultimately show ?thesis using fe assms by (auto simp: forgotten_def simp del: owns.simps)
qed

lemma forgotten_op: "forgets s x \<Longrightarrow> forgotten s M (apply_map x M)"
proof (cases x)
  case (BRemove k)
  assume "forgets s x"
  then show ?thesis
    using forgotten_remove [of s k M] BRemove by (cases "plain_key k") (auto simp: forgotten_def simp del: owns.simps)
qed (auto simp: forgotten_def simp del: owns.simps)

lemma forgotten_fold: "\<forall>x \<in> set ops. forgets s x \<Longrightarrow> forgotten s M (fold apply_map ops M)"
proof (induction ops arbitrary: M)
  case Nil
  then show ?case by (simp add: forgotten_def)
next
  case (Cons x ops)
  then show ?case using forgotten_trans [OF forgotten_op] by (metis fold_Cons comp_apply list.set_intros)
qed

lemma unloaded_forget:
  assumes "\<forall>x \<in> set ops. forgets s x"
  shows "keeps (unloaded s F D) (kv_commit ops)"
  unfolding keeps_def
proof (intro allI impI)
  fix st :: "'a meta_store_scheme" assume u: "unloaded s F D st"
  define M where "M = map_of (cm_kv st)"
  have inv: "framed F D st" "\<not> as_loaded (alloc_of s st)" "kv_inv M" "\<And>s'. alloc_inv M s' (alloc_of s' st)" "files_long st M"
    using u by (simp_all add: unloaded_def framed_def meta_inv_def M_def)
  note f = forgotten_fold [OF assms, of M, unfolded forgotten_def]
  have "alloc_inv (fold apply_map ops M) s' (alloc_of s' st)" for s'
    using inv(2) inv(4) [of s'] f by (cases "s' = s") (auto simp: alloc_inv_def simp del: owns.simps)
  then have "framed F D (snd (kv_commit ops st))"
    using inv f by (intro framed_kv_commit) (auto simp: files_long_def simp flip: M_def simp del: owns.simps)
  then show "unloaded s F D (snd (kv_commit ops st))" using inv(2) by (simp add: unloaded_def kv_commit_alloc)
qed

lemma fix_counts_keeps: "keeps (unloaded s F D) (fix_counts s version)"
  unfolding keeps_def
proof (intro allI impI)
  fix st :: "'a meta_store_scheme" assume u: "unloaded s F D st"
  then have q: "cm_readFaults st = []" by (rule unloaded_no_faults)
  show "unloaded s F D (snd (fix_counts s version st))"
  proof (cases "version \<noteq> 0")
    case True
    then show ?thesis using u by (simp add: fix_counts_def ret_def)
  next
    case False
    let ?ops = "if as_startingPoint (alloc_of s st) = 0 then [BPut (BareVersionKey s) (NumV 1)]
      else fix_ops s (as_startingPoint (alloc_of s st)) (sorted_keys (is_removed s) st) (sorted_keys (is_recycled s) st)"
    have "fix_counts s version st = kv_commit ?ops st"
      using False by (simp add: fix_counts_def sbind_def gets_def quiet_reads(2) [OF q])
    moreover have "\<forall>x \<in> set ?ops. forgets s x"
      by (auto simp: fix_ops_def Let_def sorted_keys_set)
    ultimately show ?thesis using keepsD [OF unloaded_forget u] by metis
  qed
qed

definition same_kv :: "(meta_key \<times> meta_value) list \<Rightarrow> 'a meta_store_scheme \<Rightarrow> bool" where
  "same_kv kv st \<longleftrightarrow> cm_readFaults st = [] \<and> cm_kv st = kv"

lemma load_counts_kv: "keeps (same_kv kv) (load_counts s)"
proof -
  have "keeps (same_kv kv) (getSize k)" for k
    by (rule keeps_quiet [of "same_kv kv"]) (use quiet_reads in \<open>auto simp: same_kv_def\<close>)
  moreover have "keeps (same_kv kv) (upd_alloc s f)" for f
    by (auto simp: upd_alloc_def same_kv_def intro!: keeps_modify)
  ultimately show ?thesis unfolding load_counts_def by (intro keeps_sbind)
qed

lemma key_pos_inj:
  "inj_on key_pos {k. is_created s k}" "inj_on key_pos {k. is_recycled s k}"
  by (auto simp: inj_on_def elim!: is_created.elims is_recycled.elims)

lemma pool_positions:
  "key_pos ` {k. is_created s k \<and> M k \<noteq> None} = {p. owns M s p Created}"
  "key_pos ` {k. is_recycled s k \<and> M k \<noteq> None} = {p. owns M s p Recycled}"
  by (force elim!: is_created.elims is_recycled.elims intro: rev_image_eqI)+

lemma load_chunks_result:
  assumes "unloaded s F D st" "load_chunks s st = (r, st')"
  shows "framed F D st'" "r = Ret () \<Longrightarrow> as_loaded (alloc_of s st')"
proof -
  have q: "cm_readFaults st = []" using assms(1) by (rule unloaded_no_faults)
  obtain r1 st1 where lc: "load_counts s st = (r1, st1)" by fastforce
  have u1: "unloaded s F D st1" using keepsD [OF load_counts_keeps assms(1)] lc by simp
  have q1: "cm_readFaults st1 = []" using u1 by (rule unloaded_no_faults)
  have fr1: "framed F D st1" using u1 by (simp add: unloaded_def)
  have kv: "cm_kv st1 = cm_kv st"
    using keepsD [OF load_counts_kv, of "cm_kv st" st s] q lc by (simp add: same_kv_def)
  define a where "a = (alloc_of s st1)\<lparr>as_recycledChunks := map key_pos (sorted_keys (is_recycled s) st),
    as_createdChunks := rev (map key_pos (sorted_keys (is_created s) st)),
    as_oldestRemovedTimestamp := oldest_time (sorted_keys (is_removed s) st1), as_loaded := True\<rparr>"
  have eq: "load_chunks s st = (case r1 of Ret _ \<Rightarrow> (Ret (), set_alloc s a st1) | Err e \<Rightarrow> (Err e, st1)
      | Crash \<Rightarrow> (Crash, st1) | Pending \<Rightarrow> (Pending, st1))"
    by (simp add: load_chunks_def sbind_def quiet_reads(2) [OF q] lc quiet_reads(2) [OF q1] upd_alloc_def modify_def a_def
        split: outcome.splits)
  have dk: "distinct (map fst (cm_kv st))" using assms(1) by (simp add: unloaded_def framed_def meta_inv_def)
  have "alloc_inv (map_of (cm_kv st1)) s a"
    unfolding alloc_inv_def
  proof (intro conjI impI)
    show "\<forall>idx n. map_of (as_fileSize a) idx = Some n \<longrightarrow> file_end (map_of (cm_kv st1)) s idx \<le> n"
      using fr1 by (simp add: a_def framed_def meta_inv_def alloc_inv_def)
    show "distinct (as_createdChunks a)" "distinct (as_recycledChunks a)"
      using sorted_keys_distinct [OF dk] key_pos_inj [of s]
      by (auto simp: a_def distinct_map sorted_keys_set intro: inj_on_subset)
    show "set (as_createdChunks a) = {p. owns (map_of (cm_kv st1)) s p Created}"
      "set (as_recycledChunks a) = {p. owns (map_of (cm_kv st1)) s p Recycled}"
      using pool_positions [of s "map_of (cm_kv st)"] by (simp_all add: a_def sorted_keys_set kv del: owns.simps)
  qed
  then have "framed F D (set_alloc s a st1)" by (rule framed_set_alloc [OF fr1])
  with eq fr1 assms(2) show "framed F D st'" by (auto split: outcome.splits)
  show "as_loaded (alloc_of s st')" if "r = Ret ()"
    using that eq assms(2) by (auto simp: a_def split: outcome.splits)
qed

lemma loadAllocateState_result:
  assumes "framed F D st" "loadAllocateState s st = (r, st')"
  shows "framed F D st'" "r = Ret () \<Longrightarrow> as_loaded (alloc_of s st')"
proof -
  have "framed F D st' \<and> (r = Ret () \<longrightarrow> as_loaded (alloc_of s st'))"
  proof (cases "\<exists>a. map_of (cm_allocateState st) s = Some a \<and> \<not> as_loaded a")
    case False
    then show ?thesis
      using assms by (auto simp: loadAllocateState_def alloc_of_def split: option.splits if_splits)
  next
    case True
    then have u: "unloaded s F D st" using assms(1) by (auto simp: unloaded_def alloc_of_def)
    let ?pre = "\<lambda>f. sbind (getSize (BareVersionKey s)) (\<lambda>version. sbind (load_index s) (\<lambda>_.
      sbind (load_start s) (\<lambda>_. sbind (fix_counts s version) f)))"
    have split: "sbind (getSize (BareVersionKey s)) (\<lambda>version. sbind (load_index s) (\<lambda>_.
      sbind (load_start s) (\<lambda>_. sbind (fix_counts s version) (\<lambda>_. load_chunks s)))) st
      = sbind (?pre ret) (\<lambda>_. load_chunks s) st"
      by (simp add: sbind_def ret_def split: prod.splits outcome.splits)
    have eq: "sbind (?pre ret) (\<lambda>_. load_chunks s) st = (r, st')"
      using assms(2) True unfolding split [symmetric] by (auto simp: loadAllocateState_def)
    have keep: "keeps (unloaded s F D) (?pre ret)"
      by (intro keeps_sbind load_index_keeps load_start_keeps fix_counts_keeps unloaded_reads keeps_basic)
    from eq show ?thesis
    proof (rule sbind_cases)
      fix x st1 assume st1: "?pre ret st = (Ret x, st1)" "load_chunks s st1 = (r, st')"
      have "unloaded s F D st1" using keepsD [OF keep u] st1 by simp
      then show ?thesis using load_chunks_result st1(2) by blast
    qed (use keepsD [OF keep u] in \<open>auto simp: unloaded_def\<close>)
  qed
  then show "framed F D st'" "r = Ret () \<Longrightarrow> as_loaded (alloc_of s st')" by blast+
qed

subsection \<open>Growing a file\<close>

lemma chunk_offsets_Some:
  assumes "chunk_offsets step off e = Some os"
  shows "off \<le> e \<and> step dvd (e - off) \<and> distinct os \<and>
    (\<forall>x \<in> set os. off \<le> x \<and> x + step \<le> e \<and> step dvd (x - off)) \<and> (0 < step \<or> os = [])"
proof (rule chunk_offsets.raw_induct
    [where P = "\<lambda>step off e os. off \<le> e \<and> step dvd (e - off) \<and> distinct os \<and>
      (\<forall>x \<in> set os. off \<le> x \<and> x + step \<le> e \<and> step dvd (x - off)) \<and> (0 < step \<or> os = [])", OF _ assms])
  fix rec :: "nat \<Rightarrow> nat \<Rightarrow> nat \<Rightarrow> nat list option" and step off e :: nat and os
  assume IH: "\<And>step off e os. rec step off e = Some os \<Longrightarrow> off \<le> e \<and> step dvd (e - off) \<and> distinct os \<and>
      (\<forall>x \<in> set os. off \<le> x \<and> x + step \<le> e \<and> step dvd (x - off)) \<and> (0 < step \<or> os = [])"
    and eq: "(if off = e then Some [] else Option.bind (rec step (off + step) e) (\<lambda>os. Some (off # os))) = Some os"
  show "off \<le> e \<and> step dvd (e - off) \<and> distinct os \<and>
      (\<forall>x \<in> set os. off \<le> x \<and> x + step \<le> e \<and> step dvd (x - off)) \<and> (0 < step \<or> os = [])"
  proof (cases "off = e")
    case False
    then obtain os' where os: "os = off # os'" and r: "rec step (off + step) e = Some os'"
      using eq by (auto split: Option.bind_splits)
    note r = IH [OF r]
    show ?thesis
    proof (cases "step = 0")
      case True
      then show ?thesis using r False by auto
    next
      case pos: False
      have "e - off = step + (e - (off + step))" using r by simp
      then have "step dvd (e - off)" using r by (metis dvd_add_triv_left_iff)
      moreover have "step dvd (x - off)" if "x \<in> set os'" for x
      proof -
        have "x - off = step + (x - (off + step))" using r that by force
        then show ?thesis using r that by (metis dvd_add_triv_left_iff)
      qed
      ultimately show ?thesis using r pos os by force
    qed
  qed (use eq in auto)
qed

text \<open>The loop ends exactly when it does not step over its end.\<close>

lemma chunk_offsets_returns_iff:
  assumes "0 < step"
  shows "chunk_offsets step off e \<noteq> None \<longleftrightarrow> off \<le> e \<and> step dvd (e - off)"
proof
  assume "off \<le> e \<and> step dvd (e - off)"
  then obtain k where "e = off + step * k" by (metis dvd_def le_add_diff_inverse)
  then show "chunk_offsets step off e \<noteq> None"
  proof (induction k arbitrary: off)
    case 0
    then show ?case by (subst chunk_offsets.simps) simp
  next
    case (Suc k)
    then have "chunk_offsets step (off + step) e \<noteq> None" by simp
    then show ?case by (subst chunk_offsets.simps) auto
  qed
qed (use chunk_offsets_Some in blast)

lemma load_fileSize_result:
  assumes "framed F D st" "load_fileSize s idx st = (r, st')"
  shows "framed F D st'" "r = Ret ()" "\<exists>n. map_of (as_fileSize (alloc_of s st')) idx = Some n"
    "cm_kv st' = cm_kv st" "cm_config st' = cm_config st"
proof -
  define M where "M = map_of (cm_kv st)"
  define k where "k = FileSizeKey \<lparr>fi_chunkSize = s, fi_chunkIdx = idx\<rparr>"
  let ?a = "alloc_of s st"
  have q: "cm_readFaults st = []" using assms(1) by (rule framed_reads)
  have inv: "kv_inv M" "alloc_inv M s ?a" using assms(1) by (simp_all add: framed_def meta_inv_def M_def)
  have *: "framed F D st' \<and> r = Ret () \<and> (\<exists>n. map_of (as_fileSize (alloc_of s st')) idx = Some n) \<and>
    cm_kv st' = cm_kv st \<and> cm_config st' = cm_config st"
  proof (cases "map_of (as_fileSize ?a) idx")
    case (Some n)
    then show ?thesis using assms by (auto simp: load_fileSize_def)
  next
    case None
    define n where "n = (case M k of None \<Rightarrow> 0 | Some v \<Rightarrow> max (file_end M s idx) (as_startingPoint ?a))"
    have typed: "v = NumV (file_end M s idx)" if "M k = Some v" for v
      using that inv(1) unfolding k_def kv_inv_def numbers_typed_def file_end_def by fastforce
    let ?b = "?a\<lparr>as_fileSize := AList.update idx n (as_fileSize ?a)\<rparr>"
    have twice: "AList.update idx x (AList.update idx y l) = AList.update idx x l" for x y and l :: "(32 word \<times> nat) list"
      by (induction l) auto
    have "load_fileSize s idx st = (Ret (), set_alloc s ?b st)"
      using None typed q
      by (auto simp: load_fileSize_def sbind_def upd_alloc_def modify_def kv_num_def kv_get_def read_fault_def ret_def
          value_num_def n_def M_def k_def set_alloc_def alloc_of_def update_conv' twice
          split: option.splits meta_value.splits)
    then have st': "r = Ret ()" "st' = set_alloc s ?b st" using assms(2) by simp_all
    have "file_end M s idx \<le> n" by (auto simp: n_def file_end_def k_def split: option.splits)
    then have "alloc_inv M s ?b" using inv(2) by (auto simp: alloc_inv_def update_conv' simp del: owns.simps)
    then show ?thesis using framed_set_alloc [OF assms(1), of s ?b] st' by (auto simp: M_def update_conv')
  qed
  then show "framed F D st'" "r = Ret ()" "\<exists>n. map_of (as_fileSize (alloc_of s st')) idx = Some n"
    "cm_kv st' = cm_kv st" "cm_config st' = cm_config st" by blast+
qed

text \<open>The batch that records a larger file: the new positions had no owner and now are created.\<close>

lemma grow_map:
  fixes nxt :: "32 word" and k :: nat
  assumes inv: "kv_inv M" and fe: "file_end M s idx \<le> n" and al: "unat s dvd n"
    and offs: "chunk_offsets (unat s) n new = Some offs"
  defines "ps \<equiv> new_positions idx offs"
  defines "M' \<equiv> fold apply_map (grow_ops s idx nxt new ps k) M"
  shows "kv_inv M'" "file_end M' s' i = (if s' = s \<and> i = idx then new else file_end M s' i)"
    "M' (ChunkMetaKey c) = M (ChunkMetaKey c)" "n \<le> new"
    "owns M' s' p x \<longleftrightarrow> owns M s' p x \<or> s' = s \<and> p \<in> set ps \<and> x = Created"
    "p \<in> set ps \<Longrightarrow> \<not> owns M s p x" "distinct ps"
proof -
  note o = chunk_offsets_Some [OF offs]
  show le: "n \<le> new" using o by blast
  have M': "M' k' = (if k' = CreatedCountKey s then Some (NumV k)
      else if \<exists>p \<in> set ps. k' = CreatedKey s p then Some EmptyV
      else if k' = FileSizeKey \<lparr>fi_chunkSize = s, fi_chunkIdx = idx\<rparr> then Some (NumV new)
      else if k' = AllocateIndexKey s then Some (NumV (unat nxt)) else M k')" for k'
    by (auto simp: M'_def grow_ops_def fold_puts)
  show fe': "file_end M' s' i = (if s' = s \<and> i = idx then new else file_end M s' i)" for s' i
    by (auto simp: file_end_def M')
  show "M' (ChunkMetaKey c) = M (ChunkMetaKey c)" by (simp add: M')
  show ow: "owns M' s' p x \<longleftrightarrow> owns M s' p x \<or> s' = s \<and> p \<in> set ps \<and> x = Created" for s' p x
    by (cases x) (auto simp: M')
  have psD: "cp_fileIdx p = idx \<and> n \<le> cp_offset p \<and> cp_offset p + unat s \<le> new \<and> unat s dvd cp_offset p \<and> 0 < unat s"
    if "p \<in> set ps" for p
  proof -
    obtain x where x: "x \<in> set offs" "p = \<lparr>cp_fileIdx = idx, cp_offset = x\<rparr>"
      using \<open>p \<in> set ps\<close> by (auto simp: ps_def new_positions_def)
    then have "n \<le> x" "x + unat s \<le> new" "unat s dvd (x - n)" "0 < unat s" using o by auto
    moreover have "unat s dvd (x - n) + n" using calculation al by (intro dvd_add)
    ultimately show ?thesis using x by simp
  qed
  show fresh: "\<not> owns M s p x" if "p \<in> set ps" for p x
  proof
    assume "owns M s p x"
    then have "cp_offset p + unat s \<le> file_end M s (cp_fileIdx p)" by (rule in_filesD(2) [OF inv])
    then show False using psD [OF that] fe by simp
  qed
  show "distinct ps" using o by (simp add: ps_def new_positions_def distinct_map inj_on_def)
  show "kv_inv M'"
    unfolding kv_inv_def
  proof (intro conjI)
    show "one_owner M'"
      unfolding one_owner_def
    proof (intro allI impI)
      fix s' p x y assume xy: "owns M' s' p x" "owns M' s' p y"
      show "x = y"
      proof (cases "s' = s \<and> p \<in> set ps")
        case True
        then show ?thesis using xy fresh unfolding ow by blast
      next
        case False
        then have "owns M s' p x" "owns M s' p y" using xy unfolding ow by blast+
        then show ?thesis by (rule one_ownerD [OF inv])
      qed
    qed
    show "in_files M'"
      unfolding in_files_def ow fe'
    proof (intro allI impI)
      fix s' p x assume "owns M s' p x \<or> s' = s \<and> p \<in> set ps \<and> x = Created"
      then show "unat s' dvd cp_offset p \<and>
          cp_offset p + unat s' \<le> (if s' = s \<and> cp_fileIdx p = idx then new else file_end M s' (cp_fileIdx p))"
      proof
        assume "owns M s' p x"
        from in_filesD [OF inv this] show ?thesis using fe le by auto
      next
        assume "s' = s \<and> p \<in> set ps \<and> x = Created"
        then show ?thesis using psD [of p] by simp
      qed
    qed
    show "numbers_typed M'" using inv by (auto simp: numbers_typed_def kv_inv_def M')
  qed
qed

lemma run_result_state: "run_result m st = (r, st') \<Longrightarrow> \<exists>r'. m st = (r', st') \<and> r = of_result r'"
  by (auto simp: run_result_def split: prod.splits)

lemma grow_file_keeps:
  assumes "framed F D st" "file_end (map_of (cm_kv st)) s idx \<le> n" "n mod unat s = 0"
    and "map_of (as_fileSize (alloc_of s st)) idx = Some n"
  shows "framed F D (snd (grow_file s idx n st))"
proof -
  let ?fid = "\<lparr>fi_chunkSize = s, fi_chunkIdx = idx\<rparr>"
  define new where "new = (n div mc_allocate_size (cm_config st) + 1) * mc_allocate_size (cm_config st)"
  define nxt where "nxt = (idx + 1) mod cm_physicalFileCount st"
  obtain r0 st1 where fa: "file_allocate ?fid n (new - n) st = (r0, st1)" by fastforce
  note f = file_allocate_state [OF fa]
  have fr1: "framed F D st1" using framed_extend [OF assms(1) f(1)] f(2) by blast
  note same = disk_only_meta [OF f(1)]
  have step: "grow_file s idx n st = sbind (\<lambda>st. (of_result r0, st1)) (\<lambda>_. case chunk_offsets (unat s) n new of
      None \<Rightarrow> try_outcome Pending
    | Some offs \<Rightarrow> sbind (gets (\<lambda>st. as_createdCount (alloc_of s st) + length (new_positions idx offs))) (\<lambda>count.
        sbind (kv_commit (grow_ops s idx nxt new (new_positions idx offs) count)) (\<lambda>_.
        upd_alloc s (\<lambda>a. a\<lparr>as_allocateIndex := nxt, as_createdChunks := as_createdChunks a @ rev (new_positions idx offs),
          as_createdCount := count, as_fileSize := AList.update idx new (as_fileSize a)\<rparr>)))) st"
    unfolding grow_file_def Let_def new_def [symmetric] nxt_def [symmetric]
    by (simp add: sbind_def [of "run_result _"] sbind_def [of "\<lambda>st. (of_result r0, st1)"] run_result_def fa)
  show ?thesis
  proof (cases "r0 = Inr () \<and> chunk_offsets (unat s) n new \<noteq> None")
    case False
    then show ?thesis
      unfolding step using fr1 by (cases r0) (auto simp: sbind_def try_outcome_def split: option.splits)
  next
    case True
    then obtain offs where offs: "chunk_offsets (unat s) n new = Some offs" by blast
    define ps where "ps = new_positions idx offs"
    define k where "k = as_createdCount (alloc_of s st1) + length ps"
    define a where "a = (alloc_of s st1)\<lparr>as_allocateIndex := nxt,
      as_createdChunks := as_createdChunks (alloc_of s st1) @ rev ps, as_createdCount := k,
      as_fileSize := AList.update idx new (as_fileSize (alloc_of s st1))\<rparr>"
    let ?ops = "grow_ops s idx nxt new ps k"
    define M where "M = map_of (cm_kv st1)"
    have inv: "kv_inv M" "\<And>s'. alloc_inv M s' (alloc_of s' st1)" "files_long st1 M"
      using fr1 by (simp_all add: framed_def meta_inv_def M_def)
    have "file_end M s idx \<le> n" "unat s dvd n" using assms(2,3) same by (auto simp: M_def)
    note g = grow_map(1,2,3,5) [OF inv(1) this offs, where nxt = nxt and k = k, folded ps_def]
      and h = grow_map(4,6,7) [OF inv(1) this offs, folded ps_def]
    have ai: "alloc_inv (fold apply_map ?ops M) s a"
      unfolding alloc_inv_def
    proof (intro conjI impI allI)
      show "file_end (fold apply_map ?ops M) s i \<le> m" if "map_of (as_fileSize a) i = Some m" for i m
        using that inv(2) [of s] by (auto simp: a_def g(2) update_conv' alloc_inv_def split: if_splits)
      assume "as_loaded a"
      then have l: "as_loaded (alloc_of s st1)" by (simp add: a_def)
      note i = inv(2) [of s, unfolded alloc_inv_def]
      show "distinct (as_createdChunks a)" using l i h(2,3) by (auto simp: a_def simp del: owns.simps)
      show "set (as_createdChunks a) = {p. owns (fold apply_map ?ops M) s p Created}"
        unfolding g(4) using l i by (auto simp: a_def simp del: owns.simps)
      show "distinct (as_recycledChunks a)" "set (as_recycledChunks a) = {p. owns (fold apply_map ?ops M) s p Recycled}"
        unfolding g(4) using l i by (auto simp: a_def simp del: owns.simps)
    qed
    have others: "alloc_inv (fold apply_map ?ops M) s' (alloc_of s' st1)" if "s' \<noteq> s" for s'
      using that by (intro alloc_inv_change [OF inv(2)]) (auto simp: g(2,4) simp del: owns.simps)
    have long: "files_long st1 (fold apply_map ?ops M)"
      using inv(3) f(3) True h(1) by (auto simp: files_long_def g(2))
    have *: "framed F D (set_alloc s a (st1\<lparr>cm_writeFaults := q, cm_kv := fold apply_op ?ops (cm_kv st1)\<rparr>))" for q
      by (rule framed_commit_alloc [OF fr1]) (use g(1) ai others long g(3) in \<open>simp_all flip: M_def\<close>)
    show ?thesis
    proof (rule kv_commit_cases [of ?ops st1])
      fix q assume "kv_commit ?ops st1 = (Ret (), st1\<lparr>cm_writeFaults := q, cm_kv := fold apply_op ?ops (cm_kv st1)\<rparr>)"
      then show ?thesis
        unfolding step using offs True * [of q]
        by (simp add: sbind_def gets_def upd_alloc_def modify_def a_def ps_def k_def)
    next
      fix q assume "kv_commit ?ops st1 = (Err (Common kKVStoreSetError), st1\<lparr>cm_writeFaults := q\<rparr>)"
      then show ?thesis
        unfolding step using offs True fr1 by (simp add: sbind_def gets_def ps_def k_def)
    qed
  qed
qed

lemma allocate_more_keeps: "keeps (framed F D) (allocate_more s)"
  unfolding keeps_def
proof (intro allI impI)
  fix st :: "'a meta_store_scheme" assume fr: "framed F D st"
  define idx where "idx = as_allocateIndex (alloc_of s st)"
  obtain r st1 where lf: "load_fileSize s idx st = (r, st1)" by fastforce
  note l = load_fileSize_result [OF fr lf]
  obtain n where n: "map_of (as_fileSize (alloc_of s st1)) idx = Some n" using l(3) by blast
  have "file_end (map_of (cm_kv st1)) s idx \<le> n"
    using l(1) n by (auto simp: framed_def meta_inv_def alloc_inv_def simp del: owns.simps)
  then show "framed F D (snd (allocate_more s st))"
    using lf l n grow_file_keeps [OF l(1), of s idx n]
    by (auto simp: allocate_more_def sbind_def gets_def fail_def simp flip: idx_def)
qed

lemma clear_flag:
  "keeps (framed F D) (upd_alloc s (\<lambda>a. a\<lparr>as_allocating := b\<rparr>))" "keeps (framed F D) (upd_alloc s (\<lambda>a. a\<lparr>as_recycling := b\<rparr>))"
  by (auto intro!: keeps_upd_alloc simp: alloc_inv_def simp del: owns.simps)

lemma allocateChunks_keeps: "keeps (framed F D) (allocateChunks w s)"
  unfolding allocateChunks_def by (rule keeps_finally [OF allocate_more_keeps clear_flag(1)])

subsection \<open>Recycling\<close>

lemma removed_keyD: "is_removed s k \<Longrightarrow> \<exists>t. k = RemovedKey s t (key_pos k)"
  by (cases k) auto

lemma recycle_map:
  fixes n :: nat
  assumes inv: "kv_inv M" and keys: "\<forall>k \<in> set keys. is_removed s k \<and> M k \<noteq> None" and dist: "distinct keys"
  defines "M' \<equiv> fold apply_map (recycle_ops s keys n) M"
  shows "kv_inv M'" "file_end M' s' i = file_end M s' i" "M' (ChunkMetaKey c) = M (ChunkMetaKey c)"
    "owns M' s' p x \<longleftrightarrow> (if s' = s \<and> p \<in> key_pos ` set keys then x = Recycled else owns M s' p x)"
    "distinct (map key_pos keys)" "p \<in> key_pos ` set keys \<Longrightarrow> \<not> owns M s p Recycled \<and> \<not> owns M s p Created"
proof -
  let ?P = "key_pos ` set keys"
  have M': "M' k = (if k = RecycledCountKey s then Some (NumV n)
      else if \<exists>p \<in> ?P. k = RecycledKey s p then Some EmptyV else if k \<in> set keys then None else M k)" for k
    by (auto simp: M'_def recycle_ops_def fold_removes fold_puts comp_def)
  have own: "\<exists>t. RemovedKey s t p \<in> set keys \<and> owns M s p (Removed t)" if P: "p \<in> ?P" for p
  proof -
    obtain k where k: "k \<in> set keys" "p = key_pos k" using P by blast
    then obtain t where t: "k = RemovedKey s t p" using removed_keyD keys by metis
    have "M (RemovedKey s t p) \<noteq> None" using bspec [OF keys k(1)] t by simp
    then show ?thesis using k(1) t by (intro exI [of _ t]) simp
  qed
  have nokey: "RecycledKey s' q \<notin> set keys" "CreatedKey s' q \<notin> set keys" "ChunkMetaKey c \<notin> set keys"
    "FileSizeKey f \<notin> set keys" for s' q c f
    using keys by auto
  have rkey: "s' = s \<and> q \<in> ?P" if "RemovedKey s' t q \<in> set keys" for s' t q
    using bspec [OF keys that] imageI [OF that, of key_pos] by simp
  show fe: "file_end M' s' i = file_end M s' i" for s' i
    using nokey by (auto simp: file_end_def M')
  show "M' (ChunkMetaKey c) = M (ChunkMetaKey c)" using nokey by (auto simp: M')
  show ow: "owns M' s' p x \<longleftrightarrow> (if s' = s \<and> p \<in> ?P then x = Recycled else owns M s' p x)" for s' p x
  proof (cases "s' = s \<and> p \<in> ?P")
    case True
    then obtain t where t: "RemovedKey s t p \<in> set keys" "owns M s p (Removed t)" using own by blast
    have none: "\<not> owns M s p y" if "y \<noteq> Removed t" for y using one_ownerD [OF inv _ t(2), of y] that by blast
    have "\<not> owns M' s p x" if "x \<noteq> Recycled"
    proof (cases x)
      case (Live c)
      then show ?thesis using none [of x] nokey(3) [of c] by (simp add: M')
    next
      case Created
      then show ?thesis using none [of x] nokey(2) [of s p] by (simp add: M')
    next
      case (Removed t')
      then show ?thesis using none [of x] t(1) by (cases "t' = t") (simp_all add: M')
    qed (use that in simp)
    moreover have "owns M' s p Recycled" using True by (simp add: M')
    ultimately show ?thesis using True by auto
  next
    case False
    have keep: "M' k = M k" if "k \<notin> set keys" "\<not> (\<exists>q \<in> ?P. k = RecycledKey s q)" "k \<noteq> RecycledCountKey s" for k
      using that by (simp add: M')
    have "M' (ChunkMetaKey c) = M (ChunkMetaKey c)" "M' (CreatedKey s' p) = M (CreatedKey s' p)"
      "M' (RecycledKey s' p) = M (RecycledKey s' p)" "M' (RemovedKey s' t p) = M (RemovedKey s' t p)" for c t
      using nokey rkey [of s' t p] False by (intro keep; simp; blast?)+
    then have eq: "owns M' s' p x = owns M s' p x" by (cases x) simp_all
    show ?thesis unfolding if_not_P [OF False] by (rule eq)
  qed
  show "distinct (map key_pos keys)"
    unfolding distinct_map
  proof (intro conjI dist inj_onI)
    fix k k' assume k: "k \<in> set keys" "k' \<in> set keys" "key_pos k = key_pos k'"
    obtain t p where t: "k = RemovedKey s t p" using bspec [OF keys k(1)] removed_keyD by blast
    moreover obtain t' p' where t': "k' = RemovedKey s t' p'" using bspec [OF keys k(2)] removed_keyD by blast
    ultimately have p: "p' = p" using k(3) by simp
    have "owns M s p (Removed t)" "owns M s p (Removed t')"
      using bspec [OF keys k(1)] bspec [OF keys k(2)] t t' p by simp_all
    then have "t = t'" using one_ownerD [OF inv] by blast
    then show "k = k'" using t t' p by simp
  qed
  show "\<not> owns M s p Recycled \<and> \<not> owns M s p Created" if "p \<in> ?P" for p
    using own [OF that] one_ownerD [OF inv, of s p] by blast
  show "kv_inv M'"
  proof (rule kv_inv_change [OF inv])
    show "(\<forall>x. owns M' s' p x \<longrightarrow> owns M s' p x) \<or> (\<exists>z y. (\<forall>x. owns M' s' p x \<longrightarrow> x = z) \<and> owns M s' p y)" for s' p
      using own [of p] unfolding ow by (cases "s' = s \<and> p \<in> ?P") (auto simp del: owns.simps)
    show "numbers_typed M'" using inv nokey by (auto simp: numbers_typed_def kv_inv_def M')
  qed (rule fe)
qed

lemma commit_recycle_keeps:
  assumes fr: "framed F D st" and keys: "\<forall>k \<in> set keys. is_removed s k \<and> map_of (cm_kv st) k \<noteq> None" "distinct keys"
  shows "framed F D (snd (commit_recycle s keys oldest st))"
proof -
  define n where "n = as_recycledCount (alloc_of s st) + length keys"
  define M where "M = map_of (cm_kv st)"
  define a where "a = (alloc_of s st)\<lparr>as_recycledCount := n, as_oldestRemovedTimestamp := oldest,
    as_recycledChunks := as_recycledChunks (alloc_of s st) @ map key_pos keys\<rparr>"
  let ?ops = "recycle_ops s keys n"
  have inv: "kv_inv M" "\<And>s'. alloc_inv M s' (alloc_of s' st)" "files_long st M"
    using fr by (simp_all add: framed_def meta_inv_def M_def)
  note keys = keys [folded M_def]
  note r = recycle_map(1-4) [OF inv(1) keys, where n = n] and r' = recycle_map(5,6) [OF inv(1) keys]
  have ai: "alloc_inv (fold apply_map ?ops M) s a"
    unfolding alloc_inv_def
  proof (intro conjI impI)
    note i = inv(2) [of s, unfolded alloc_inv_def]
    show "\<forall>idx m. map_of (as_fileSize a) idx = Some m \<longrightarrow> file_end (fold apply_map ?ops M) s idx \<le> m"
      using i by (simp add: a_def r(2))
    assume "as_loaded a"
    then have l: "as_loaded (alloc_of s st)" by (simp add: a_def)
    show "distinct (as_createdChunks a)" using l i by (simp add: a_def)
    have "p \<notin> key_pos ` set keys" if "owns M s p Created" for p using r'(2) that by blast
    then show "set (as_createdChunks a) = {p. owns (fold apply_map ?ops M) s p Created}"
      unfolding r(4) using l i by (auto simp: a_def simp del: owns.simps)
    show "distinct (as_recycledChunks a)" using l i r' by (auto simp: a_def simp del: owns.simps)
    show "set (as_recycledChunks a) = {p. owns (fold apply_map ?ops M) s p Recycled}"
      unfolding r(4) using l i by (auto simp: a_def simp del: owns.simps)
  qed
  have others: "alloc_inv (fold apply_map ?ops M) s' (alloc_of s' st)" if "s' \<noteq> s" for s'
    using that by (intro alloc_inv_change [OF inv(2)]) (auto simp: r(2,4) simp del: owns.simps)
  have ok: "framed F D (set_alloc s a (st\<lparr>cm_writeFaults := q', cm_kv := fold apply_op ?ops (cm_kv st)\<rparr>))" for q'
    by (rule framed_commit_alloc [OF fr]) (use r(1,3) ai others inv(3) in \<open>simp_all add: files_long_def r(2) flip: M_def\<close>)
  show ?thesis
  proof (rule kv_commit_cases [of ?ops st])
    fix q' assume "kv_commit ?ops st = (Ret (), st\<lparr>cm_writeFaults := q', cm_kv := fold apply_op ?ops (cm_kv st)\<rparr>)"
    then show ?thesis using ok [of q'] by (simp add: commit_recycle_def upd_alloc_def modify_def a_def n_def Let_def)
  next
    fix q' assume "kv_commit ?ops st = (Err (Common kKVStoreSetError), st\<lparr>cm_writeFaults := q'\<rparr>)"
    then show ?thesis using fr by (simp add: commit_recycle_def n_def Let_def)
  qed
qed

lemma recycle_batch_keeps: "keeps (framed F D) (recycle_batch s)"
  unfolding keeps_def
proof (intro allI impI)
  fix st :: "'a meta_store_scheme" assume fr: "framed F D st"
  let ?ks = "sorted_keys (is_removed s) st"
  let ?keys = "take (mc_recycle_batch_size (cm_config st)) ?ks"
  have q: "cm_readFaults st = []" using fr by (rule framed_reads)
  have keys: "\<forall>k \<in> set ?keys. is_removed s k \<and> map_of (cm_kv st) k \<noteq> None" "distinct ?keys"
    using sorted_keys_distinct [of st "is_removed s"] fr
    by (auto simp: sorted_keys_set framed_def meta_inv_def dest!: in_set_takeD)
  show "framed F D (snd (recycle_batch s st))"
    using fr commit_recycle_keeps [OF fr keys]
    by (simp add: recycle_batch_def sbind_def gets_def quiet_reads(2) [OF q] ret_def)
qed

lemma recycleRemovedChunks_keeps: "keeps (framed F D) (recycleRemovedChunks w s)"
  unfolding recycleRemovedChunks_def by (rule keeps_finally [OF recycle_batch_keeps clear_flag(2)])

lemma run_job_keeps: "keeps (framed F D) run_job"
  unfolding keeps_def
proof (intro allI impI)
  fix st :: "'a meta_store_scheme" assume fr: "framed F D st"
  then have fr': "framed F D (st\<lparr>cm_jobs := js\<rparr>)" for js by simp
  show "framed F D (snd (run_job st))"
    using fr keepsD [OF allocateChunks_keeps fr'] keepsD [OF recycleRemovedChunks_keeps fr']
    by (auto simp: run_job_def split: list.split job.split)
qed

subsection \<open>Setting, creating and removing\<close>

text \<open>New metadata of a chunk at the position it has.\<close>

lemma meta_set_result:
  assumes "framed F D st" "F c = Some (MetaV m)" "md_innerFileId meta = md_innerFileId m"
    "md_innerOffset meta = md_innerOffset m" "meta_set c meta st = (r, st')"
  shows "r = Ret () \<and> framed (F(c \<mapsto> MetaV meta)) D st' \<or> r = Err (Storage kChunkMetadataSetError) \<and> framed F D st'"
proof -
  let ?ops = "set_ops c meta"
  define M where "M = map_of (cm_kv st)"
  define M' where "M' = fold apply_map ?ops M"
  have inv: "kv_inv M" "\<And>s'. alloc_inv M s' (alloc_of s' st)" "files_long st M" "distinct (map fst (cm_kv st))"
    "cm_readFaults st = []"
    using assms(1) by (simp_all add: framed_def meta_inv_def M_def)
  have old: "M (ChunkMetaKey c) = Some (MetaV m)" using assms(1,2) by (auto simp: framed_def metas_def M_def)
  have slot: "size_of meta = size_of m" "position_of meta = position_of m"
    using assms(3,4) by (simp_all add: size_of_def position_of_def)
  have M': "M' k = (if k = ChunkMetaKey c then Some (MetaV meta)
      else if k = UncommittedChunkKey c then (if md_chunkState meta = COMMIT then None else Some EmptyV) else M k)" for k
    by (simp add: M'_def set_ops_def)
  have ow: "owns M' s p x = owns M s p x" for s p x
    using old slot by (cases x) (auto simp: M')
  have fe: "file_end M' s i = file_end M s i" for s i by (simp add: file_end_def M')
  have kv: "kv_inv M'" by (rule kv_inv_change [OF inv(1)]) (use ow fe inv(1) in \<open>auto simp: kv_inv_def numbers_typed_def M' simp del: owns.simps\<close>)
  have al: "alloc_inv M' s (alloc_of s st)" for s by (rule alloc_inv_change [OF inv(2)]) (rule ow fe)+
  have fr: "framed (F(c \<mapsto> MetaV meta)) D (st\<lparr>cm_writeFaults := q, cm_kv := fold apply_op ?ops (cm_kv st)\<rparr>)" for q
  proof -
    have "meta_inv (st\<lparr>cm_writeFaults := q, cm_kv := fold apply_op ?ops (cm_kv st)\<rparr>)"
      using inv kv al by (simp add: meta_inv_def map_of_apply distinct_apply files_long_def fe flip: M_def M'_def)
    moreover have "metas (st\<lparr>cm_writeFaults := q, cm_kv := fold apply_op ?ops (cm_kv st)\<rparr>) = F(c \<mapsto> MetaV meta)"
      using assms(1) by (auto simp: metas_def map_of_apply framed_def fun_eq_iff M' simp flip: M_def M'_def)
    moreover have "chunk_bytes st meta = chunk_bytes st m"
      using assms(3,4) by (simp add: chunk_bytes_def size_of_def)
    ultimately show ?thesis using assms(1,2) by (auto simp: framed_def chunk_bytes_def)
  qed
  show ?thesis
    by (rule kv_commit_cases [of ?ops st]) (use assms(1,5) fr in \<open>auto simp: meta_set_def\<close>)
qed

text \<open>
  Taking a position out of a pool and committing the chunk: the position passes from the pool to the
  chunk, or goes back to the end of the pool.
\<close>

definition pool :: "bool \<Rightarrow> AllocateState \<Rightarrow> ChunkPosition list" where
  "pool reused a = (if reused then as_recycledChunks a else as_createdChunks a)"

definition pool_key :: "bool \<Rightarrow> 32 word \<Rightarrow> ChunkPosition \<Rightarrow> meta_key" where
  "pool_key reused s p = (if reused then RecycledKey s p else CreatedKey s p)"

definition pool_taken :: "bool \<Rightarrow> AllocateState \<Rightarrow> AllocateState" where
  "pool_taken reused a =
    (if reused then a\<lparr>as_recycledChunks := butlast (as_recycledChunks a), as_reusedCount := as_reusedCount a + 1\<rparr>
     else a\<lparr>as_createdChunks := butlast (as_createdChunks a), as_usedCount := as_usedCount a + 1\<rparr>)"

lemma pool_back: "pool reused a \<noteq> [] \<Longrightarrow> give_back s (last (pool reused a)) reused (pool_taken reused a) = a"
  by (cases reused) (simp_all add: pool_def pool_taken_def give_back_def)

lemma create_map:
  fixes n :: nat and ck :: meta_key and v :: meta_value and c :: chunk_id and meta :: ChunkMetadata
  assumes inv: "kv_inv M" and own: "owns M s pos z" and z: "z = (if reused then Recycled else Created)" and plain: "plain_key ck"
  defines "M' \<equiv> fold apply_map [BPut ck v, BRemove (pool_key reused s pos),
    BPut (ChunkMetaKey c) (MetaV (place s pos meta)), BPut CreatedSizeKey (NumV n)] M"
  shows "kv_inv M'" "file_end M' s' i = file_end M s' i"
    "M' (ChunkMetaKey c') = (if c' = c then Some (MetaV (place s pos meta)) else M (ChunkMetaKey c'))"
    "owns M' s' p x \<longleftrightarrow> (if x = Live c then s' = s \<and> p = pos else owns M s' p x \<and> \<not> (s' = s \<and> p = pos \<and> x = z))"
proof -
  let ?m = "place s pos meta"
  have slot: "size_of ?m = s" "position_of ?m = pos" by (simp_all add: place_def size_of_def position_of_def)
  have ck: "ck \<noteq> ChunkMetaKey c'" "ck \<noteq> CreatedKey s' p" "ck \<noteq> RecycledKey s' p" "ck \<noteq> RemovedKey s' t p"
    "ck \<noteq> FileSizeKey f" for c' s' p t f
    using plain by auto
  have M': "M' k = (if k = CreatedSizeKey then Some (NumV n) else if k = ChunkMetaKey c then Some (MetaV ?m)
      else if k = pool_key reused s pos then None else if k = ck then Some v else M k)" for k
    by (simp add: M'_def)
  show mk: "M' (ChunkMetaKey c') = (if c' = c then Some (MetaV ?m) else M (ChunkMetaKey c'))" for c'
    using ck(1) [of c', THEN not_sym] by (simp add: M' pool_key_def)
  have keys: "M' (CreatedKey s' p) = (if \<not> reused \<and> s' = s \<and> p = pos then None else M (CreatedKey s' p))"
    "M' (RecycledKey s' p) = (if reused \<and> s' = s \<and> p = pos then None else M (RecycledKey s' p))"
    "M' (RemovedKey s' t p) = M (RemovedKey s' t p)" "M' (FileSizeKey f) = M (FileSizeKey f)" for s' p t f
    using ck(2) [of s' p, THEN not_sym] ck(3) [of s' p, THEN not_sym] ck(4) [of s' t p, THEN not_sym]
      ck(5) [of f, THEN not_sym]
    by (simp_all add: M' pool_key_def)
  show fe: "file_end M' s' i = file_end M s' i" for s' i by (simp add: file_end_def keys)
  show ow: "owns M' s' p x \<longleftrightarrow> (if x = Live c then s' = s \<and> p = pos
      else owns M s' p x \<and> \<not> (s' = s \<and> p = pos \<and> x = z))" for s' p x
    using slot z by (cases x) (auto simp: mk keys)
  have only: "x = z" if "owns M s pos x" for x using one_ownerD [OF inv that own] .
  show "kv_inv M'"
  proof (rule kv_inv_change [OF inv])
    show "(\<forall>x. owns M' s' p x \<longrightarrow> owns M s' p x) \<or> (\<exists>z y. (\<forall>x. owns M' s' p x \<longrightarrow> x = z) \<and> owns M s' p y)" for s' p
    proof (cases "s' = s \<and> p = pos")
      case True
      have "x = Live c" if "owns M' s' p x" for x
        using that only [of x] True unfolding ow by (cases "x = Live c") (simp_all del: owns.simps)
      then show ?thesis using own True by blast
    next
      case False
      have "owns M s' p x" if "owns M' s' p x" for x
        using that False unfolding ow by (cases "x = Live c") (simp_all del: owns.simps)
      then show ?thesis by blast
    qed
    show "numbers_typed M'" using inv by (simp add: kv_inv_def numbers_typed_def keys)
  qed (rule fe)
qed

lemma pool_taken_inv:
  assumes "alloc_inv M s a" "as_loaded a" "pool reused a \<noteq> []" "z = (if reused then Recycled else Created)"
    and "\<And>p y. y = Created \<or> y = Recycled \<Longrightarrow>
      owns M' s p y \<longleftrightarrow> owns M s p y \<and> \<not> (p = last (pool reused a) \<and> y = z)"
    and "\<And>i. file_end M' s i = file_end M s i"
  shows "alloc_inv M' s (pool_taken reused a)"
proof -
  have bl: "distinct (butlast xs) \<and> set (butlast xs) = set xs - {last xs}" if "distinct xs" "xs \<noteq> []"
    for xs :: "ChunkPosition list"
    using that by (cases xs rule: rev_cases) auto
  have pools: "{p. owns M' s p y} = (if y = z then {p. owns M s p y} - {last (pool reused a)} else {p. owns M s p y})"
    if "y = Created \<or> y = Recycled" for y
    using assms(5) [OF that] by (auto simp del: owns.simps)
  have i: "distinct (as_createdChunks a)" "set (as_createdChunks a) = {p. owns M s p Created}"
    "distinct (as_recycledChunks a)" "set (as_recycledChunks a) = {p. owns M s p Recycled}"
    "\<forall>idx n. map_of (as_fileSize a) idx = Some n \<longrightarrow> file_end M' s idx \<le> n"
    using assms(1,2,6) by (simp_all add: alloc_inv_def del: owns.simps)
  show ?thesis
  proof (cases reused)
    case True
    then have "z = Recycled" "as_recycledChunks a \<noteq> []" "last (pool reused a) = last (as_recycledChunks a)"
      using assms(3,4) by (simp_all add: pool_def)
    then show ?thesis
      using True i(1,2,5) bl [OF i(3)] i(4) pools [of Created] pools [of Recycled]
      by (simp add: alloc_inv_def pool_taken_def del: owns.simps)
  next
    case False
    then have "z = Created" "as_createdChunks a \<noteq> []" "last (pool reused a) = last (as_createdChunks a)"
      using assms(3,4) by (simp_all add: pool_def)
    then show ?thesis
      using False i(3,4,5) bl [OF i(1)] i(2) pools [of Created] pools [of Recycled]
      by (simp add: alloc_inv_def pool_taken_def del: owns.simps)
  qed
qed

lemma commit_create_result:
  assumes fr: "framed F D st" and l: "as_loaded (alloc_of s st)" "pool reused (alloc_of s st) \<noteq> []"
    and plain: "plain_key ck"
  defines "pos \<equiv> last (pool reused (alloc_of s st))"
  assumes r: "commit_create c meta s (pos, reused, [BPut ck v, BRemove (pool_key reused s pos)])
    (set_alloc s (pool_taken reused (alloc_of s st)) st) = (r, st')"
  shows "r = Ret (place s pos meta) \<and>
      framed (F(c \<mapsto> MetaV (place s pos meta))) (D(c := chunk_bytes st (place s pos meta))) st' \<or>
    r = Err (Storage kChunkMetadataSetError) \<and> framed F D st'"
proof -
  define a where "a = alloc_of s st"
  define b where "b = pool_taken reused a"
  define st1 where "st1 = set_alloc s b st"
  define n where "n = cm_createdSize st + unat s"
  let ?m = "place s pos meta"
  define ops where "ops = [BPut ck v, BRemove (pool_key reused s pos), BPut (ChunkMetaKey c) (MetaV ?m), BPut CreatedSizeKey (NumV n)]"
  define M where "M = map_of (cm_kv st)"
  define M' where "M' = fold apply_map ops M"
  define z where "z = (if reused then Recycled else Created)"
  have inv: "kv_inv M" "\<And>s'. alloc_inv M s' (alloc_of s' st)" "files_long st M" "distinct (map fst (cm_kv st))"
    "cm_readFaults st = []"
    using fr by (simp_all add: framed_def meta_inv_def M_def)
  have "pos \<in> set (pool reused a)" using l(2) by (simp add: pos_def a_def)
  then have own: "owns M s pos z"
    using inv(2) [of s] l(1) by (cases reused) (simp_all add: alloc_inv_def a_def pool_def z_def)
  note cm = create_map [OF inv(1) own z_def plain, where v = v and c = c and meta = meta and n = n, folded ops_def M'_def]
  have ab: "alloc_inv M' s b"
    unfolding b_def
    by (rule pool_taken_inv [OF inv(2) [of s, folded a_def] l [folded a_def] z_def])
      (auto simp: cm(2,4) pos_def a_def simp del: owns.simps)
  have others: "alloc_inv M' s' (alloc_of s' st)" if "s' \<noteq> s" for s'
    by (rule alloc_inv_change [OF inv(2)]) (use that in \<open>simp_all add: cm(2,4) del: owns.simps\<close>)
  have ok: "framed (F(c \<mapsto> MetaV ?m)) (D(c := chunk_bytes st ?m))
      (set_alloc s b (st\<lparr>cm_writeFaults := q, cm_kv := fold apply_op ops (cm_kv st)\<rparr>))" for q
  proof -
    let ?st = "set_alloc s b (st\<lparr>cm_writeFaults := q, cm_kv := fold apply_op ops (cm_kv st)\<rparr>)"
    have kv': "map_of (cm_kv ?st) = M'" by (simp add: map_of_apply M'_def M_def)
    have "meta_inv ?st"
      unfolding meta_inv_def kv' using inv cm(1) ab others distinct_apply [OF inv(4), of ops]
      by (simp add: files_long_def cm(2))
    moreover have "metas ?st = F(c \<mapsto> MetaV ?m)"
      unfolding metas_def kv' fun_eq_iff cm(3) using fr by (simp add: framed_def metas_def M_def fun_eq_iff)
    moreover have "chunk_bytes ?st m = chunk_bytes st m" for m by (simp add: chunk_bytes_def)
    ultimately show ?thesis using fr by (simp add: framed_def)
  qed
  have restored: "framed F D (set_alloc s (give_back s pos reused b) (set_alloc s b st))"
  proof -
    have "AList.update s x (AList.update s y l) = AList.update s x l" for x y and l :: "(32 word \<times> AllocateState) list"
      by (induction l) auto
    then have "set_alloc s a (set_alloc s b st) = set_alloc s a st" by (simp add: set_alloc_def)
    moreover have "give_back s pos reused b = a" using pool_back l(2) by (simp add: pos_def b_def a_def)
    ultimately show ?thesis using framed_set_alloc [OF fr, of s a] inv(2) [of s] by (simp add: a_def M_def)
  qed
  have step: "commit_create c meta s (pos, reused, [BPut ck v, BRemove (pool_key reused s pos)]) st1 =
    (case kv_commit ops st1 of (Ret _, st2) \<Rightarrow> (Ret ?m, st2\<lparr>cm_createdSize := n\<rparr>)
     | (_, st2) \<Rightarrow> (Err (Storage kChunkMetadataSetError), set_alloc s (give_back s pos reused (alloc_of s st2)) st2))"
    unfolding n_def ops_def by (simp add: commit_create_def Let_def st1_def)
  show ?thesis
  proof (rule kv_commit_cases [of ops st1])
    fix q assume "kv_commit ops st1 = (Ret (), st1\<lparr>cm_writeFaults := q, cm_kv := fold apply_op ops (cm_kv st1)\<rparr>)"
    moreover have "st1\<lparr>cm_writeFaults := q, cm_kv := fold apply_op ops (cm_kv st1)\<rparr>
      = set_alloc s b (st\<lparr>cm_writeFaults := q, cm_kv := fold apply_op ops (cm_kv st)\<rparr>)"
      by (simp add: st1_def set_alloc_def)
    ultimately have "r = Ret ?m" "st' = (set_alloc s b (st\<lparr>cm_writeFaults := q, cm_kv := fold apply_op ops (cm_kv st)\<rparr>))
        \<lparr>cm_createdSize := n\<rparr>"
      using r [folded a_def, folded b_def, folded st1_def] unfolding step by simp_all
    then show ?thesis using ok [of q] by simp
  next
    fix q assume "kv_commit ops st1 = (Err (Common kKVStoreSetError), st1\<lparr>cm_writeFaults := q\<rparr>)"
    moreover have "set_alloc s x (st1\<lparr>cm_writeFaults := q\<rparr>) = (set_alloc s x st1)\<lparr>cm_writeFaults := q\<rparr>" for x
      by (simp add: set_alloc_def)
    ultimately have "r = Err (Storage kChunkMetadataSetError)"
      "st' = (set_alloc s (give_back s pos reused b) st1)\<lparr>cm_writeFaults := q\<rparr>"
      using r [folded a_def, folded b_def, folded st1_def] unfolding step by (simp_all add: st1_def)
    then show ?thesis using restored by (simp add: st1_def)
  qed
qed

end
