(* ===== verification/Chunk_Safety.thy ===== *)
theory Chunk_Safety
  imports Chunk_Allocation
begin

text \<open>
  The operations of the store of metadata as a whole: each gives or takes away the metadata of the one
  chunk it is about and leaves the metadata and the bytes of every other chunk alone. Over every
  sequence of operations, failed writes, jobs of the executor and restarts, no byte of a file belongs to two
  chunks.
\<close>

section \<open>Creating a chunk\<close>

text \<open>A chunk size stays loaded.\<close>

definition loaded :: "32 word \<Rightarrow> 'a meta_store_scheme \<Rightarrow> bool" where
  "loaded s st \<longleftrightarrow> as_loaded (alloc_of s st)"

lemma loaded_upd: "(\<And>a. as_loaded a \<Longrightarrow> as_loaded (f a)) \<Longrightarrow> keeps (loaded s) (upd_alloc s' f)"
  by (auto simp: upd_alloc_def loaded_def intro!: keeps_modify)

lemma loaded_reads: "keeps (loaded s) (kv_num k)" "keeps (loaded s) (iterateKeysWithPrefix P)"
  by (auto simp: keeps_def loaded_def kv_num_def kv_get_def iterateKeysWithPrefix_def read_fault_def
      split: list.split option.split)

lemma loaded_commit: "keeps (loaded s) (kv_commit ops)"
  by (simp add: keeps_def loaded_def kv_commit_alloc)

lemma loaded_allocate: "keeps (loaded s) (run_result (file_allocate fid off n))"
  unfolding keeps_def
proof (intro allI impI)
  fix st :: "'a meta_store_scheme" assume "loaded s st"
  moreover obtain r st' where fa: "file_allocate fid off n st = (r, st')" by fastforce
  ultimately show "loaded s (snd (run_result (file_allocate fid off n) st))"
    using disk_only_meta(3) [OF file_allocate_state(1) [OF fa]] by (simp add: loaded_def run_result_def)
qed

lemma loaded_allocateChunks: "keeps (loaded s) (allocateChunks w s')"
proof -
  have lf: "keeps (loaded s) (load_fileSize s' idx)" for idx
    unfolding load_fileSize_def keeps_def
    by (auto split: option.split intro!: keepsD [of "loaded s"] keeps_sbind loaded_upd loaded_reads)
  have "keeps (loaded s) (grow_file s' idx n)" for idx n
    unfolding grow_file_def Let_def
    by (rule keeps_arg) (auto split: option.split intro!: keeps_sbind loaded_upd loaded_allocate loaded_commit)
  then have "keeps (loaded s) (allocate_more s')"
    unfolding allocate_more_def by (auto intro!: keeps_sbind lf)
  then show ?thesis
    unfolding allocateChunks_def by (rule keeps_finally) (simp add: loaded_upd)
qed

lemma loaded_commit_recycle: "keeps (loaded s) (commit_recycle s' keys oldest)"
  unfolding keeps_def
proof (intro allI impI)
  fix st :: "'a meta_store_scheme" assume l: "loaded s st"
  show "loaded s (snd (commit_recycle s' keys oldest st))"
    by (rule_tac ops = "recycle_ops s' keys (as_recycledCount (alloc_of s' st) + length keys)" and st = st in kv_commit_cases)
      (use l in \<open>auto simp: commit_recycle_def loaded_def Let_def upd_alloc_def modify_def\<close>)
qed

lemma loaded_recycle: "keeps (loaded s) (recycleRemovedChunks w s')"
proof -
  have "keeps (loaded s) (recycle_batch s')"
    unfolding recycle_batch_def by (auto intro!: keeps_sbind loaded_reads loaded_commit_recycle)
  then show ?thesis
    unfolding recycleRemovedChunks_def by (rule keeps_finally) (simp add: loaded_upd)
qed

definition ready ::
  "32 word \<Rightarrow> (chunk_id \<Rightarrow> meta_value option) \<Rightarrow> (chunk_id \<Rightarrow> bytes) \<Rightarrow> 'a meta_store_scheme \<Rightarrow> bool" where
  "ready s F D st \<longleftrightarrow> framed F D st \<and> loaded s st"

lemma ready_flags:
  assumes "ready s F D st"
  shows "ready s F D ((set_alloc s' ((alloc_of s' st)\<lparr>as_recycling := b\<rparr>) st)\<lparr>cm_jobs := js\<rparr>)"
    "ready s F D ((set_alloc s' ((alloc_of s' st)\<lparr>as_allocating := b\<rparr>) st)\<lparr>cm_jobs := js\<rparr>)"
proof -
  have "alloc_inv (map_of (cm_kv st)) s' (alloc_of s' st)"
    using assms by (simp add: ready_def framed_def meta_inv_def)
  then have "alloc_inv (map_of (cm_kv st)) s' ((alloc_of s' st)\<lparr>as_recycling := b\<rparr>)"
    "alloc_inv (map_of (cm_kv st)) s' ((alloc_of s' st)\<lparr>as_allocating := b\<rparr>)"
    by (simp_all add: alloc_inv_def del: owns.simps)
  then show "ready s F D ((set_alloc s' ((alloc_of s' st)\<lparr>as_recycling := b\<rparr>) st)\<lparr>cm_jobs := js\<rparr>)"
    "ready s F D ((set_alloc s' ((alloc_of s' st)\<lparr>as_allocating := b\<rparr>) st)\<lparr>cm_jobs := js\<rparr>)"
    using assms framed_set_alloc by (auto simp: ready_def loaded_def)
qed

lemma ready_keeps: "keeps (framed F D) m \<Longrightarrow> keeps (loaded s) m \<Longrightarrow> keeps (ready s F D) m"
  by (simp add: keeps_def ready_def)

lemma recycle_if_needed_keeps: "keeps (ready s F D) (recycle_if_needed now s')"
  unfolding keeps_def recycle_if_needed_def Let_def
  by (auto intro!: keepsD [OF ready_keeps [OF recycleRemovedChunks_keeps loaded_recycle]] ready_flags)

lemma allocate_if_needed_keeps: "keeps (ready s F D) (allocate_if_needed s')"
  unfolding keeps_def allocate_if_needed_def Let_def
  by (auto intro!: keepsD [OF ready_keeps [OF allocateChunks_keeps loaded_allocateChunks]] ready_flags)

lemma take_position_result:
  assumes rd: "ready s F D st" and r: "take_position s allow st = (r, st')"
  shows "(\<exists>st1 reused ck v. ready s F D st1 \<and> pool reused (alloc_of s st1) \<noteq> [] \<and> plain_key ck \<and>
      r = Ret (last (pool reused (alloc_of s st1)), reused,
        [BPut ck v, BRemove (pool_key reused s (last (pool reused (alloc_of s st1))))]) \<and>
      st' = set_alloc s (pool_taken reused (alloc_of s st1)) st1) \<or>
    (\<forall>x. r \<noteq> Ret x) \<and> framed F D st'"
proof (cases "as_recycledChunks (alloc_of s st) = []")
  case False
  then have "r = Ret (last (pool True (alloc_of s st)), True,
      [BPut (ReusedCountKey s) (NumV (as_reusedCount (alloc_of s st) + 1)),
       BRemove (pool_key True s (last (pool True (alloc_of s st))))])"
    "st' = set_alloc s (pool_taken True (alloc_of s st)) st"
    using r by (simp_all add: take_position_def Let_def pool_def pool_key_def pool_taken_def)
  moreover have "pool True (alloc_of s st) \<noteq> []" using False by (simp add: pool_def)
  moreover have "plain_key (ReusedCountKey s)" by simp
  ultimately show ?thesis using rd by blast
next
  case True
  show ?thesis
  proof (cases allow)
    case False
    then show ?thesis using r True rd by (auto simp: take_position_def ready_def)
  next
    case allow: True
    obtain r1 st1 where an: "allocate_if_needed s st = (r1, st1)" by fastforce
    have rd1: "ready s F D st1" using keepsD [OF allocate_if_needed_keeps rd, of s] an by simp
    show ?thesis
    proof (cases "r1 = Ret () \<and> as_createdChunks (alloc_of s st1) \<noteq> []")
      case False
      then show ?thesis
        using r True allow an rd1 by (cases r1) (auto simp: take_position_def sbind_def ready_def Let_def)
    next
      case created: True
      then have "r = Ret (last (pool False (alloc_of s st1)), False,
          [BPut (UsedCountKey s) (NumV (as_usedCount (alloc_of s st1) + 1)),
           BRemove (pool_key False s (last (pool False (alloc_of s st1))))])"
        "st' = set_alloc s (pool_taken False (alloc_of s st1)) st1"
        using r True allow an
        by (simp_all add: take_position_def sbind_def Let_def pool_def pool_key_def pool_taken_def)
      moreover have "pool False (alloc_of s st1) \<noteq> []" using created by (simp add: pool_def)
      moreover have "plain_key (UsedCountKey s)" by simp
      ultimately show ?thesis using rd1 by blast
    qed
  qed
qed

lemma meta_createChunk_result:
  assumes fr: "framed F D st" and r: "meta_createChunk now c meta s allow st = (r, st')"
  shows "(\<exists>pos b. r = Ret (place s pos meta) \<and> framed (F(c \<mapsto> MetaV (place s pos meta))) (D(c := b)) st') \<or>
    (\<forall>x. r \<noteq> Ret x) \<and> framed F D st'"
proof -
  obtain r1 st1 where la: "loadAllocateState s st = (r1, st1)" by fastforce
  note l = loadAllocateState_result [OF fr la]
  show ?thesis
  proof (cases "r1 = Ret ()")
    case False
    then show ?thesis using r la l(1) by (cases r1) (auto simp: meta_createChunk_def sbind_def)
  next
    case True
    then have "ready s F D st1" using l by (simp add: ready_def loaded_def)
    then have rd: "ready s F D (snd (recycle_if_needed now s st1))" by (rule keepsD [OF recycle_if_needed_keeps])
    obtain r2 st2 where rn: "recycle_if_needed now s st1 = (r2, st2)" by fastforce
    obtain r3 st3 where tp: "take_position s allow st2 = (r3, st3)" by fastforce
    have rd2: "ready s F D st2" using rd rn by simp
    have eq: "meta_createChunk now c meta s allow st = sbind (\<lambda>_. (r2, st2)) (\<lambda>_. sbind (take_position s allow)
        (\<lambda>claim. commit_create c meta s claim)) st1"
      using la rn True by (simp add: meta_createChunk_def sbind_def)
    show ?thesis
    proof (cases "r2 = Ret ()")
      case False
      then show ?thesis using r rd2 unfolding eq by (cases r2) (auto simp: sbind_def ready_def)
    next
      case r2: True
      have eq': "meta_createChunk now c meta s allow st = sbind (\<lambda>_. (r3, st3)) (\<lambda>claim. commit_create c meta s claim) st1"
        unfolding eq using r2 tp by (simp add: sbind_def)
      from take_position_result [OF rd2 tp] show ?thesis
      proof (elim disjE exE conjE)
        fix st4 :: "'a meta_store_scheme" and reused ck v
        let ?pos = "last (pool reused (alloc_of s st4))"
        assume st4: "ready s F D st4" "pool reused (alloc_of s st4) \<noteq> []" "plain_key ck"
          "r3 = Ret (?pos, reused, [BPut ck v, BRemove (pool_key reused s ?pos)])"
          "st3 = set_alloc s (pool_taken reused (alloc_of s st4)) st4"
        then have "commit_create c meta s (?pos, reused, [BPut ck v, BRemove (pool_key reused s ?pos)])
          (set_alloc s (pool_taken reused (alloc_of s st4)) st4) = (r, st')"
          using r unfolding eq' by (simp add: sbind_def)
        from commit_create_result [OF _ _ st4(2,3) this] st4(1)
        show ?thesis by (auto simp: ready_def loaded_def)
      next
        assume "\<forall>x. r3 \<noteq> Ret x" "framed F D st3"
        then show ?thesis using r unfolding eq' by (cases r3) (auto simp: sbind_def)
      qed
    qed
  qed
qed

section \<open>Removing a chunk\<close>

text \<open>A hole in the range of a position leaves the chunks that do not own it alone.\<close>

lemma punch_frames:
  assumes fr: "framed F D st" and own: "owns (map_of (cm_kv st)) s p x"
    and ph: "file_punchHole \<lparr>fi_chunkSize = s, fi_chunkIdx = cp_fileIdx p\<rparr> (cp_offset p) st = (r, st')"
  shows "\<exists>D'. framed F D' st' \<and> (\<forall>c. x \<noteq> Live c \<longrightarrow> D' c = D c)"
proof (intro exI conjI)
  define D' where "D' c = (case F c of Some (MetaV m) \<Rightarrow> if x = Live c then chunk_bytes st' m else D c | _ \<Rightarrow> D c)" for c
  note f = file_punchHole_state [OF ph]
  have inv: "kv_inv (map_of (cm_kv st))" using fr by (simp add: framed_def meta_inv_def)
  have same: "chunk_bytes st' m = chunk_bytes st m" if m: "F c = Some (MetaV m)" "x \<noteq> Live c" for c m
  proof -
    have own': "owns (map_of (cm_kv st)) (size_of m) (position_of m) (Live c)"
      using fr m(1) by (auto simp: framed_def metas_def)
    have len: "md_innerOffset m + unat (size_of m) \<le> length (contents st (md_innerFileId m))"
      using live_range [of st c m] fr m(1) by (simp add: framed_def)
    have "md_innerFileId m \<noteq> \<lparr>fi_chunkSize = s, fi_chunkIdx = cp_fileIdx p\<rparr> \<or>
      md_innerOffset m + unat (size_of m) \<le> cp_offset p \<or>
      cp_offset p + unat (fi_chunkSize \<lparr>fi_chunkSize = s, fi_chunkIdx = cp_fileIdx p\<rparr>) \<le> md_innerOffset m"
      using slots_disjoint [OF inv own own' m(2)] by (auto simp: size_of_def position_of_def)
    from f(3) [OF this len] show ?thesis by (simp add: chunk_bytes_def)
  qed
  have "framed F D' st'"
  proof -
    have "files_long st' (map_of (cm_kv st))"
      using fr f(2) by (simp add: framed_def meta_inv_def files_long_def)
    then have "meta_inv st'" "metas st' = F"
      using fr disk_only_meta [OF f(1)] by (auto simp: framed_def meta_inv_def metas_def fun_eq_iff)
    then show ?thesis using same fr by (auto simp: framed_def D'_def)
  qed
  then show "framed F D' st'" .
  show "\<forall>c. x \<noteq> Live c \<longrightarrow> D' c = D c" by (auto simp: D'_def split: option.split meta_value.split)
qed

lemma framed_commit_to:
  assumes "framed F D st" "kv_inv (fold apply_map ops (map_of (cm_kv st)))"
    and "\<And>s'. alloc_inv (fold apply_map ops (map_of (cm_kv st))) s' (if s' = s then a else alloc_of s' st)"
    and "\<And>s' i. file_end (fold apply_map ops (map_of (cm_kv st))) s' i = file_end (map_of (cm_kv st)) s' i"
    and "\<And>c. fold apply_map ops (map_of (cm_kv st)) (ChunkMetaKey c) = F' c"
    and "\<And>c m. F' c = Some (MetaV m) \<Longrightarrow> chunk_bytes st m = D' c"
  shows "framed F' D' (set_alloc s a (st\<lparr>cm_writeFaults := q, cm_kv := fold apply_op ops (cm_kv st)\<rparr>))"
proof -
  have "alloc_inv (fold apply_map ops (map_of (cm_kv st))) s a" using assms(3) [of s] by simp
  moreover have "alloc_inv (fold apply_map ops (map_of (cm_kv st))) s' (alloc_of s' st)" if "s' \<noteq> s" for s'
    using that assms(3) [of s'] by simp
  ultimately show ?thesis
    using assms(1,2,4-6)
    by (auto simp: framed_def meta_inv_def metas_def chunk_bytes_def files_long_def fun_eq_iff map_of_apply distinct_apply)
qed

definition remove_ops :: "32 word \<Rightarrow> 64 word \<Rightarrow> chunk_id \<Rightarrow> ChunkPosition \<Rightarrow> bool \<Rightarrow> nat \<Rightarrow> nat \<Rightarrow> batch_op list" where
  "remove_ops s t c p hole n sz =
    [BRemove (ChunkMetaKey c), BRemove (UncommittedChunkKey c)] @
    (if hole then [] else [BPut (RemovedKey s t p) EmptyV, BPut (RemovedCountKey s) (NumV n)]) @
    [BPut RemovedSizeKey (NumV sz)]"

lemma remove_map:
  fixes t :: "64 word" and hole :: bool and n sz :: nat
  assumes inv: "kv_inv M" and own: "owns M s pos (Live c)"
  defines "M' \<equiv> fold apply_map (remove_ops s t c pos hole n sz) M"
  shows "kv_inv M'" "file_end M' s' i = file_end M s' i"
    "M' (ChunkMetaKey c') = (if c' = c then None else M (ChunkMetaKey c'))"
    "owns M' s' p Created = owns M s' p Created" "owns M' s' p Recycled = owns M s' p Recycled"
proof -
  have M': "M' k = (if k = RemovedSizeKey then Some (NumV sz)
      else if \<not> hole \<and> k = RemovedCountKey s then Some (NumV n)
      else if \<not> hole \<and> k = RemovedKey s t pos then Some EmptyV
      else if k = ChunkMetaKey c \<or> k = UncommittedChunkKey c then None else M k)" for k
    by (simp add: M'_def remove_ops_def)
  show fe: "file_end M' s' i = file_end M s' i" for s' i by (simp add: file_end_def M')
  show "M' (ChunkMetaKey c') = (if c' = c then None else M (ChunkMetaKey c'))" for c' by (simp add: M')
  show "owns M' s' p Created = owns M s' p Created" "owns M' s' p Recycled = owns M s' p Recycled" by (simp_all add: M')
  have ow: "owns M' s' p x \<longleftrightarrow> x \<noteq> Live c \<and> owns M s' p x \<or> \<not> hole \<and> s' = s \<and> p = pos \<and> x = Removed t" for s' p x
    by (cases x) (auto simp: M')
  have only: "x = Live c" if "owns M s pos x" for x using one_ownerD [OF inv that own] .
  show "kv_inv M'"
  proof (rule kv_inv_change [OF inv])
    show "(\<forall>x. owns M' s' p x \<longrightarrow> owns M s' p x) \<or> (\<exists>z y. (\<forall>x. owns M' s' p x \<longrightarrow> x = z) \<and> owns M s' p y)" for s' p
      using only own unfolding ow by blast
    show "numbers_typed M'" using inv by (auto simp: kv_inv_def numbers_typed_def M')
  qed (rule fe)
qed

lemma commit_remove_result:
  assumes fr: "framed F D st" and c: "F c = Some (MetaV m)"
    and slot: "md_innerFileId meta = md_innerFileId m" "md_innerOffset meta = md_innerOffset m"
    and r: "commit_remove now c meta hole st = (r, st')"
  shows "r = Ret () \<and> framed (F(c := None)) D st' \<or> (\<forall>x. r \<noteq> Ret x) \<and> framed F D st'"
proof -
  define s where "s = size_of meta"
  define a where "a = alloc_of s st"
  define b where "b = a\<lparr>as_removedCount := (if hole then as_removedCount a else as_removedCount a + 1),
    as_oldestRemovedTimestamp := (if as_oldestRemovedTimestamp a = 0 then now else as_oldestRemovedTimestamp a)\<rparr>"
  define n where "n = cm_removedSize st + unat s"
  define ops where "ops = remove_ops s (word_of_int now) c (position_of meta) hole (as_removedCount a + 1) n"
  define M where "M = map_of (cm_kv st)"
  have inv: "kv_inv M" "\<And>s'. alloc_inv M s' (alloc_of s' st)"
    using fr by (simp_all add: framed_def meta_inv_def M_def)
  have own: "owns M s (position_of meta) (Live c)"
    using fr c slot by (auto simp: framed_def metas_def M_def s_def size_of_def position_of_def)
  note rm = remove_map [OF inv(1) own, where t = "word_of_int now" and hole = hole and sz = n
      and n = "as_removedCount a + 1", folded ops_def]
  have ab: "alloc_inv M s b" using inv(2) [of s] by (simp add: b_def a_def alloc_inv_def del: owns.simps)
  have al: "alloc_inv (fold apply_map ops M) s' (if s' = s then b else alloc_of s' st)" for s'
    by (rule alloc_inv_change [of M]) (use ab inv(2) [of s'] in \<open>simp_all add: rm(2,4,5) del: owns.simps\<close>)
  have bytes: "chunk_bytes st m' = D c'" if "(F(c := None)) c' = Some (MetaV m')" for c' m'
    using that fr by (auto simp: framed_def split: if_splits)
  have keys: "fold apply_map ops M (ChunkMetaKey c') = (F(c := None)) c'" for c'
    using fr rm(3) by (auto simp: framed_def metas_def M_def)
  have ok: "framed (F(c := None)) D (set_alloc s b (st\<lparr>cm_writeFaults := q, cm_kv := fold apply_op ops (cm_kv st)\<rparr>))" for q
    by (rule framed_commit_to [of F D st ops s b, folded M_def, OF fr rm(1) al rm(2) keys bytes])
  have step: "commit_remove now c meta hole st = (case kv_commit ops st of
      (Ret _, st') \<Rightarrow> (Ret (), (set_alloc s b st')\<lparr>cm_removedSize := n\<rparr>)
    | (_, st') \<Rightarrow> (Err (Storage kChunkMetadataSetError), st'))"
    unfolding commit_remove_def Let_def ops_def remove_ops_def b_def a_def n_def s_def by simp
  show ?thesis
    by (rule kv_commit_cases [of ops st]) (use r fr ok in \<open>auto simp: step\<close>)
qed

lemma fid_eta: "\<lparr>fi_chunkSize = fi_chunkSize f, fi_chunkIdx = fi_chunkIdx f\<rparr> = f"
  by simp

lemma meta_remove_result:
  assumes fr: "framed F D st" and c: "F c = Some (MetaV m)"
    and slot: "md_innerFileId meta = md_innerFileId m" "md_innerOffset meta = md_innerOffset m"
    and r: "meta_remove now c meta st = (r, st')"
  shows "\<exists>b. r = Ret () \<and> framed (F(c := None)) (D(c := b)) st' \<or> (\<forall>x. r \<noteq> Ret x) \<and> framed F (D(c := b)) st'"
proof -
  let ?s = "size_of meta"
  obtain r1 st1 where la: "loadAllocateState ?s st = (r1, st1)" by fastforce
  note l = loadAllocateState_result [OF fr la]
  have id: "D(c := D c) = D" by simp
  define hole where "hole \<longleftrightarrow> md_innerOffset meta < as_startingPoint (alloc_of ?s st1)"
  obtain r2 st2 where ph: "(if hole then run_result (file_punchHole (md_innerFileId meta) (md_innerOffset meta)) else ret ()) st1 = (r2, st2)"
    by fastforce
  have "\<exists>b. framed F (D(c := b)) st2"
  proof (cases hole)
    case True
    have own: "owns (map_of (cm_kv st1)) (size_of m) (position_of m) (Live c)"
      using l(1) c by (auto simp: framed_def metas_def)
    obtain r' where "file_punchHole (md_innerFileId m) (md_innerOffset m) st1 = (r', st2)"
      using ph True slot run_result_state by (metis (full_types))
    then have "file_punchHole \<lparr>fi_chunkSize = size_of m, fi_chunkIdx = cp_fileIdx (position_of m)\<rparr>
        (cp_offset (position_of m)) st1 = (r', st2)"
      by (simp add: size_of_def position_of_def fid_eta)
    from punch_frames [OF l(1) own this]
    obtain D' where D': "framed F D' st2" "\<forall>c'. Live c \<noteq> Live c' \<longrightarrow> D' c' = D c'" by blast
    then have "D' = D(c := D' c)" by (auto simp: fun_eq_iff)
    then show ?thesis using D'(1) by metis
  next
    case False
    then have "framed F (D(c := D c)) st2" using l(1) ph by (simp add: ret_def)
    then show ?thesis by blast
  qed
  then obtain b where fr2: "framed F (D(c := b)) st2" by blast
  have eq: "meta_remove now c meta st = sbind (\<lambda>_. (r1, st1)) (\<lambda>_. sbind (\<lambda>_. (r2, st2)) (\<lambda>_. commit_remove now c meta hole)) st"
    using la ph by (auto simp: meta_remove_def sbind_def gets_def hole_def split: outcome.split)
  have fr1: "framed F (D(c := D c)) st1" using l(1) by simp
  show ?thesis
    using r fr1 fr2 commit_remove_result [OF fr2 c slot, of now hole r st'] unfolding eq
    by (cases r1; cases r2) (auto simp: sbind_def simp del: fun_upd_triv)
qed

section \<open>Writing the bytes of a chunk\<close>

lemma written_frames:
  assumes fr: "framed F D st" and c: "F c = Some (MetaV m)" and fits: "off + length data \<le> unat (size_of m)"
    and w: "written (md_innerFileId m) (off + md_innerOffset m) data st st'"
  shows "framed F (D(c := overwrite off data (D c))) st'"
proof -
  let ?f = "md_innerFileId m" and ?o = "md_innerOffset m" and ?n = "unat (size_of m)"
  have inv: "kv_inv (map_of (cm_kv st))" using fr by (simp add: framed_def meta_inv_def)
  have cs: "contents st' f = (if f = ?f then write_at (off + ?o) data (contents st ?f) else contents st f)" for f
    using w by (simp add: written_def)
  obtain fs q where st': "st' = st\<lparr>dk_files := fs, dk_writes := q\<rparr>" using w unfolding written_def by blast
  have range: "md_innerOffset m' + unat (size_of m') \<le> length (contents st (md_innerFileId m'))"
    if "F c' = Some (MetaV m')" for c' m'
    using live_range [of st c' m'] fr that by (simp add: framed_def)
  have own: "owns (map_of (cm_kv st)) (size_of m') (position_of m') (Live c')" if "F c' = Some (MetaV m')" for c' m'
    using fr that by (auto simp: framed_def metas_def)
  have mine: "chunk_bytes st' m = overwrite off data (D c)"
    using piece_write_at [of ?o ?n "contents st ?f" off data] range [OF c] fits fr c
    by (auto simp: chunk_bytes_def cs framed_def max_def add.commute split: if_splits)
  have other: "chunk_bytes st' m' = chunk_bytes st m'" if m': "F c' = Some (MetaV m')" "c' \<noteq> c" for c' m'
  proof (cases "md_innerFileId m' = ?f")
    case True
    have "md_innerOffset m' + unat (size_of m') \<le> off + ?o \<or> off + ?o + length data \<le> md_innerOffset m'"
      using slots_disjoint [OF inv own [OF m'(1)] own [OF c]] m'(2) True fits
      by (auto simp: size_of_def position_of_def)
    then show ?thesis
      using piece_write_at_disjoint range [OF m'(1)] True by (simp add: chunk_bytes_def cs)
  qed (simp add: chunk_bytes_def cs)
  have len: "length (contents st f) \<le> length (contents st' f)" for f by (simp add: cs length_write_at)
  have "files_long st' (map_of (cm_kv st))"
    using fr len unfolding framed_def meta_inv_def files_long_def by (meson order_trans)
  moreover have "cm_kv st' = cm_kv st" "cm_readFaults st' = cm_readFaults st" "alloc_of s st' = alloc_of s st" for s
    using st' by (simp_all add: alloc_of_def)
  ultimately have "meta_inv st'" "metas st' = F"
    using fr by (auto simp: framed_def meta_inv_def metas_def fun_eq_iff)
  then show ?thesis using mine other fr c by (auto simp: framed_def)
qed

lemma view_write_frames:
  assumes fr: "framed F D st" and c: "F c = Some (MetaV m)"
    and slot: "md_innerFileId meta = md_innerFileId m" "md_innerOffset meta = md_innerOffset m"
    and r: "view_write (md_innerFileId m) data off meta st = (res, st')"
  shows "res = Inl (Common kInvalidArg) \<and> st' = st \<and> unat (size_of m) < off + length data \<or>
    res = Inr (length data) \<and> off + length data \<le> unat (size_of m) \<and> framed F (D(c := overwrite off data (D c))) st' \<or>
    res = Inl (Storage kChunkWriteFailed) \<and> off + length data \<le> unat (size_of m) \<and>
      (\<exists>k < length data. framed F (D(c := overwrite off (take k data) (D c))) st')"
proof (cases "unat (size_of m) < length data + off")
  case True
  then show ?thesis using r slot by (simp add: view_write_def size_of_def add.commute)
next
  case False
  let ?f = "md_innerFileId m"
  have wl: "write_loop ?f data (off + md_innerOffset m) 0 (mk_retry 100 5000 30000) st = (res, st')"
    using r slot False by (simp add: view_write_def size_of_def)
  have fits: "off + length data \<le> unat (size_of m)" using False by simp
  from write_loop_result [OF wl] show ?thesis
  proof (elim disjE conjE exE)
    assume "res = Inr (0 + length data)" "written ?f (off + md_innerOffset m) data st st'"
    then show ?thesis using written_frames [OF fr c fits] fits by simp
  next
    fix k assume k: "res = Inl (Storage kChunkWriteFailed)" "k < length data"
      "written ?f (off + md_innerOffset m) (take k data) st st'"
    then have "off + length (take k data) \<le> unat (size_of m)" using fits by simp
    from written_frames [OF fr c this k(3)] k(1,2) fits show ?thesis by blast
  qed
qed

section \<open>Punching holes\<close>

lemma punch_removed_keeps:
  assumes "map_of kv (RemovedKey s t p) \<noteq> None"
  shows "keeps (\<lambda>st. framed F D st \<and> cm_kv st = kv)
    (run_result (file_punchHole \<lparr>fi_chunkSize = s, fi_chunkIdx = cp_fileIdx p\<rparr> (cp_offset p)))"
  unfolding keeps_def
proof (intro allI impI)
  let ?m = "file_punchHole \<lparr>fi_chunkSize = s, fi_chunkIdx = cp_fileIdx p\<rparr> (cp_offset p)"
  fix st :: "'a meta_store_scheme" assume fr: "framed F D st \<and> cm_kv st = kv"
  obtain r st' where ph: "?m st = (r, st')" by fastforce
  have "owns (map_of (cm_kv st)) s p (Removed t)" using assms fr by simp
  from punch_frames [OF _ this ph] fr obtain D' where "framed F D' st'" "\<forall>c. D' c = D c" by blast
  moreover from this have "D' = D" by blast
  ultimately show "framed F D (snd (run_result ?m st)) \<and> cm_kv (snd (run_result ?m st)) = kv"
    using ph fr disk_only_meta(1) [OF file_punchHole_state(1) [OF ph]] by (simp add: run_result_def)
qed

lemma punch_loop_keeps:
  assumes "\<forall>k \<in> set ks. is_removed s k \<and> map_of kv k \<noteq> None"
  shows "keeps (\<lambda>st. framed F D st \<and> cm_kv st = kv) (punch_loop e batch ks n done)"
  using assms
proof (induction ks arbitrary: n "done")
  case (Cons k ks)
  obtain t p where k: "k = RemovedKey s t p" "map_of kv (RemovedKey s t p) \<noteq> None"
    using Cons.prems removed_keyD by (metis list.set_intros(1))
  then show ?case using Cons punch_removed_keeps [OF k(2)] by (auto intro!: keeps_sbind)
qed simp

lemma punch_loop_keys:
  "punch_loop e batch ks n done st = (Ret (removed, oldest), st') \<Longrightarrow> set removed \<subseteq> set done \<union> set ks"
proof (induction ks arbitrary: n "done" st)
  case (Cons k ks)
  show ?case
  proof (cases "(e < key_time k \<or> batch \<le> n) \<or> (\<forall>s t p. k \<noteq> RemovedKey s t p)")
    case True
    then show ?thesis using Cons by (cases k) (auto simp: ret_def split: if_splits)
  next
    case False
    then obtain st1 where "punch_loop e batch ks (n + 1) (done @ [k]) st1 = (Ret (removed, oldest), st')"
      using Cons.prems by (auto elim!: sbind_cases)
    from Cons.IH [OF this] show ?thesis by auto
  qed
qed (simp add: ret_def)

lemma framed_forget_removed:
  assumes fr: "framed F D st" and ks: "\<forall>k \<in> set ks. is_removed s k" and n: "plain_key ck"
  shows "framed F D (snd (kv_commit (map BRemove ks @ [BPut ck v]) st))"
proof -
  define M where "M = map_of (cm_kv st)"
  let ?ops = "map BRemove ks @ [BPut ck v]"
  have inv: "kv_inv M" "\<And>s'. alloc_inv M s' (alloc_of s' st)" "files_long st M"
    using fr by (simp_all add: framed_def meta_inv_def M_def)
  have "\<forall>x \<in> set ?ops. forgets s x" using ks n by auto
  note f = forgotten_fold [OF this, of M, unfolded forgotten_def]
  have "CreatedKey s' p \<notin> set ks" "RecycledKey s' p \<notin> set ks" for s' p using ks by auto
  then have "owns (fold apply_map ?ops M) s' p x = owns M s' p x" if "x = Created \<or> x = Recycled" for s' p x
    using that n by (auto simp: fold_removes)
  then have "alloc_inv (fold apply_map ?ops M) s' (alloc_of s' st)" for s'
    using f by (intro alloc_inv_change [OF inv(2)]) (simp_all del: owns.simps)
  then show ?thesis
    using inv f fr by (intro framed_kv_commit) (auto simp: files_long_def simp flip: M_def simp del: owns.simps)
qed

lemma punchHoleRemovedChunks_keeps: "keeps (framed F D) (punchHoleRemovedChunks s e)"
  unfolding keeps_def
proof (intro allI impI)
  fix st :: "'a meta_store_scheme" assume fr: "framed F D st"
  let ?ks = "sorted_keys (is_removed s) st" and ?batch = "mc_punch_hole_batch_size (cm_config st)"
  have q: "cm_readFaults st = []" using fr by (rule framed_reads)
  obtain r st1 where pl: "punch_loop e ?batch ?ks 0 [] st = (r, st1)" by fastforce
  have ks: "\<forall>k \<in> set ?ks. is_removed s k \<and> map_of (cm_kv st) k \<noteq> None" by (auto simp: sorted_keys_set)
  have fr1: "framed F D st1"
    using keepsD [OF punch_loop_keeps [OF ks], of F D st e ?batch 0 "[]"] fr pl by simp
  have upd: "keeps (framed F D) (upd_alloc s (\<lambda>a. a\<lparr>as_oldestRemovedTimestamp := t\<rparr>))"
    "keeps (framed F D) (upd_alloc s (\<lambda>a. a\<lparr>as_holeCount := n, as_oldestRemovedTimestamp := t\<rparr>))" for t n
    by (auto intro!: keeps_upd_alloc simp: alloc_inv_def simp del: owns.simps)
  show "framed F D (snd (punchHoleRemovedChunks s e st))"
  proof (cases r)
    case (Ret x)
    obtain removed oldest where x: "x = (removed, oldest)" by fastforce
    let ?n = "as_holeCount (alloc_of s st1) + length removed"
    have rem: "\<forall>k \<in> set removed. is_removed s k"
      using punch_loop_keys [of e ?batch ?ks 0 "[]" st removed oldest st1] pl Ret x ks by auto
    have com: "framed F D (snd (kv_commit (map BRemove removed @ [BPut (HoleCountKey s) (NumV ?n)]) st1))"
      by (rule framed_forget_removed [OF fr1 rem]) simp
    obtain r2 st2 where kc: "kv_commit (map BRemove removed @ [BPut (HoleCountKey s) (NumV ?n)]) st1 = (r2, st2)"
      by fastforce
    have fr2: "framed F D st2" using com kc by simp
    show ?thesis
      using pl Ret x kc fr2 keepsD [OF keeps_sbind [OF upd(1) keeps_basic(1)] fr1]
        keepsD [OF keeps_sbind [OF upd(2) keeps_basic(1)] fr2]
      by (auto simp: punchHoleRemovedChunks_def sbind_def [of "gets _"] sbind_def [of "iterateKeysWithPrefix _"]
          sbind_def [of "punch_loop _ _ _ _ _"] gets_def quiet_reads(2) [OF q] split: outcome.split)
  qed (use pl fr1 in \<open>simp_all add: punchHoleRemovedChunks_def sbind_def gets_def quiet_reads(2) [OF q]\<close>)
qed

lemma loadAllocateState_keeps: "keeps (framed F D) (loadAllocateState s)"
  unfolding keeps_def using loadAllocateState_result(1) by (metis prod.collapse)

lemma punch_sizes_keeps: "keeps (framed F D) (punch_sizes e ss acc)"
  by (induction ss arbitrary: acc) (auto intro!: keeps_sbind loadAllocateState_keeps punchHoleRemovedChunks_keeps)

lemma meta_punchHole_keeps: "keeps (framed F D) (meta_punchHole now)"
  unfolding keeps_def meta_punchHole_def Let_def using keepsD [OF punch_sizes_keeps] by blast

lemma unused_sizes_keeps: "keeps (framed F D) (unused_sizes ss r u)"
  by (induction ss arbitrary: r u) (auto intro!: keeps_sbind loadAllocateState_keeps split: prod.split)

lemma unusedSize_keeps: "keeps (framed F D) unusedSize"
  unfolding keeps_def unusedSize_def using keepsD [OF unused_sizes_keeps] by blast

section \<open>Opening again\<close>

text \<open>What a process that opens the store again finds: the files and the key-value store.\<close>

definition closed :: "'a meta_store_scheme \<Rightarrow> 'a meta_store_scheme" where
  "closed st = st\<lparr>dk_open := [], cm_allocateState := [], cm_jobs := [], cm_uncommitted := []\<rparr>"

lemma alloc_inv_init: "alloc_inv M s (init_AllocateState s)"
  by (simp add: alloc_inv_def init_AllocateState_def)

lemma framed_cong:
  assumes "framed F D st" "cm_kv st' = cm_kv st" "cm_readFaults st' = cm_readFaults st" "contents st' = contents st"
    and "\<And>s. alloc_of s st' = alloc_of s st \<or> alloc_of s st' = init_AllocateState s"
  shows "framed F D st'"
proof -
  have "alloc_inv (map_of (cm_kv st)) s (alloc_of s st')" for s
    using assms(1,5) alloc_inv_init [of "map_of (cm_kv st)" s] unfolding framed_def meta_inv_def by metis
  then show ?thesis using assms(1-4) by (auto simp: framed_def meta_inv_def metas_def files_long_def chunk_bytes_def fun_eq_iff)
qed

lemma framed_closed: "framed F D st \<Longrightarrow> framed F D (closed st)"
  by (erule framed_cong) (simp_all add: closed_def contents_def fun_eq_iff alloc_of_def)

lemma createAllocateState_keeps: "framed F D st \<Longrightarrow> framed F D (createAllocateState s st)"
  by (erule framed_cong) (simp_all add: createAllocateState_def alloc_of_def set_alloc_def contents_def fun_eq_iff update_conv')

lemma createAllocateStates_keeps: "framed F D st \<Longrightarrow> framed F D (foldl (\<lambda>st s. createAllocateState s st) st ss)"
  by (induction ss arbitrary: st) (simp_all add: createAllocateState_keeps)

lemma framed_open_fields [simp]:
  "framed F D (st\<lparr>cm_sentinel := x, cm_hasSentinel := b\<rparr>) = framed F D st"
  "framed F D (st\<lparr>cm_physicalFileCount := n\<rparr>) = framed F D st"
  "framed F D (st\<lparr>cm_uncommitted := u\<rparr>) = framed F D st"
  by (auto simp: framed_def meta_inv_def metas_def chunk_bytes_def files_long_def contents_def alloc_of_def fun_eq_iff)

lemma meta_load_keeps: "keeps (framed F D) (meta_load sentinel has n ss)"
proof -
  have chk: "keeps (framed F D) (checkSentinel k)" for k
    unfolding checkSentinel_def by (intro keeps_sbind keeps_reads) (auto simp: keeps_def)
  have unc: "keeps (framed F D) load_uncommitted"
    by (auto simp: keeps_def load_uncommitted_def quiet_reads(2) framed_reads)
  have cnt: "keeps (framed F D) (\<lambda>st. case read_fault st of (fails, st') \<Rightarrow>
      if fails then (Err (Storage kChunkStoreInitFailed), st') else (Ret (), st'\<lparr>cm_physicalFileCount := n\<rparr>))"
    by (auto simp: keeps_def read_fault_def framed_reads)
  show ?thesis
    unfolding meta_load_def
    by (intro keeps_sbind keeps_modify keeps_reads unc cnt) (auto intro!: keeps_sbind chk createAllocateStates_keeps)
qed

lemma meta_addChunkSize_keeps: "keeps (framed F D) (meta_addChunkSize ss)"
  by (induction ss)
    (auto simp: kv_put_def intro!: keeps_sbind keeps_kv_plain keeps_modify createAllocateState_keeps)

lemma meta_sync_keeps: "keeps (framed F D) meta_sync"
  unfolding meta_sync_def kv_put_def by (rule keeps_kv_plain) simp

section \<open>All sequences of operations\<close>

text \<open>
  One operation on the store, labelled with the chunk it is about. Setting, removing and writing use the
  metadata the store has, as far as the place of the chunk is concerned. The environment decides which of the
  next writes and reads fail; a process that dies in an operation has its last writes fail and then reopens.
\<close>

definition same_place :: "ChunkMetadata \<Rightarrow> ChunkMetadata \<Rightarrow> bool" where
  "same_place m m' \<longleftrightarrow> md_innerFileId m' = md_innerFileId m \<and> md_innerOffset m' = md_innerOffset m"

inductive meta_step :: "'a meta_store_scheme \<Rightarrow> chunk_id option \<Rightarrow> 'a meta_store_scheme \<Rightarrow> bool" where
  step_create: "meta_step st (Some c) (snd (meta_createChunk now c meta s allow st))"
| step_set: "metas st c = Some (MetaV m) \<Longrightarrow> same_place m meta \<Longrightarrow> meta_step st (Some c) (snd (meta_set c meta st))"
| step_remove: "metas st c = Some (MetaV m) \<Longrightarrow> same_place m meta \<Longrightarrow>
    meta_step st (Some c) (snd (meta_remove now c meta st))"
| step_write: "metas st c = Some (MetaV m) \<Longrightarrow> same_place m meta \<Longrightarrow>
    meta_step st (Some c) (snd (view_write (md_innerFileId m) data off meta st))"
| step_job: "meta_step st None (snd (run_job st))"
| step_punch: "meta_step st None (snd (meta_punchHole now st))"
| step_unused: "meta_step st None (snd (unusedSize st))"
| step_sizes: "meta_step st None (snd (meta_addChunkSize ss st))"
| step_sync: "meta_step st None (snd (meta_sync st))"
| step_reopen: "meta_step st None (snd (meta_load sentinel has n ss (closed st)))"
| step_environment: "meta_step st None
    (st\<lparr>dk_writes := w, dk_reads := r, dk_faults := f, cm_writeFaults := q, cm_emergencyRecycling := b\<rparr>)"

definition apart :: "ChunkMetadata \<Rightarrow> ChunkMetadata \<Rightarrow> bool" where
  "apart m m' \<longleftrightarrow> md_innerFileId m \<noteq> md_innerFileId m' \<or>
    md_innerOffset m + unat (size_of m) \<le> md_innerOffset m' \<or> md_innerOffset m' + unat (size_of m') \<le> md_innerOffset m"

text \<open>Every step keeps a framed state, but for the chunk of its label.\<close>

definition framed_but ::
  "chunk_id option \<Rightarrow> (chunk_id \<Rightarrow> meta_value option) \<Rightarrow> (chunk_id \<Rightarrow> bytes) \<Rightarrow> 'a meta_store_scheme \<Rightarrow> bool" where
  "framed_but l F D st \<longleftrightarrow> (\<exists>F' D'. framed F' D' st \<and> (\<forall>c. l \<noteq> Some c \<longrightarrow> F' c = F c \<and> D' c = D c))"

lemma framed_butI: "framed F D st \<Longrightarrow> framed_but l F D st"
  unfolding framed_but_def by blast

lemma framed_but_chunk: "framed (F(c := x)) (D(c := b)) st \<Longrightarrow> framed_but (Some c) F D st"
  unfolding framed_but_def by (intro exI conjI) (assumption, simp)

lemma framed_but_triv: "framed (F(c := x)) D st \<Longrightarrow> framed_but (Some c) F D st"
  "framed F (D(c := b)) st \<Longrightarrow> framed_but (Some c) F D st"
  using framed_but_chunk [of F c x D "D c" st] framed_but_chunk [of F c "F c" D b st] by simp_all

lemma view_write_but:
  assumes fr: "framed F D st" and c: "F c = Some (MetaV m)" "same_place m meta"
  shows "framed_but (Some c) F D (snd (view_write (md_innerFileId m) data off meta st))"
proof -
  obtain res st' where r: "view_write (md_innerFileId m) data off meta st = (res, st')" by fastforce
  have slot: "md_innerFileId meta = md_innerFileId m" "md_innerOffset meta = md_innerOffset m"
    using c(2) by (simp_all add: same_place_def)
  from view_write_frames [OF fr c(1) slot r] fr show ?thesis
    unfolding r snd_conv by (elim disjE conjE exE) (auto intro: framed_butI framed_but_triv(2))
qed

lemma meta_step_frames:
  assumes "meta_step st l st'" "framed F D st"
  shows "framed_but l F D st'"
  using assms
proof (induction rule: meta_step.induct)
  case (step_create st c now meta s allow)
  from meta_createChunk_result [OF step_create prod.collapse [symmetric], of now c meta s allow]
  show ?case by (elim disjE exE conjE) (erule framed_but_chunk framed_butI)+
next
  case (step_set st c m meta)
  then have "F c = Some (MetaV m)" by (simp add: framed_def)
  from meta_set_result [OF step_set(3) this _ _ prod.collapse [symmetric], of meta] step_set(2)
  show ?case by (auto simp: same_place_def intro: framed_but_triv(1) framed_butI)
next
  case (step_remove st c m meta now)
  then have "F c = Some (MetaV m)" by (simp add: framed_def)
  from meta_remove_result [OF step_remove(3) this _ _ prod.collapse [symmetric], of meta now] step_remove(2)
  show ?case by (auto simp: same_place_def intro: framed_but_triv(2) framed_but_chunk)
next
  case (step_write st c m meta data off)
  then have "F c = Some (MetaV m)" by (simp add: framed_def)
  then show ?case using view_write_but step_write by blast
next
  case (step_reopen st sentinel has n ss)
  then show ?case by (intro framed_butI keepsD [OF meta_load_keeps framed_closed])
next
  case (step_environment st b q f r w)
  show ?case
    by (rule framed_butI, rule framed_cong [OF step_environment]) (simp_all add: contents_def fun_eq_iff alloc_of_def)
qed (erule framed_butI [OF keepsD [OF run_job_keeps]] framed_butI [OF keepsD [OF meta_punchHole_keeps]]
    framed_butI [OF keepsD [OF unusedSize_keeps]] framed_butI [OF keepsD [OF meta_addChunkSize_keeps]]
    framed_butI [OF keepsD [OF meta_sync_keeps]])+

lemma framed_metas: "meta_inv st \<Longrightarrow> framed (metas st) (\<lambda>c. case metas st c of Some (MetaV m) \<Rightarrow> chunk_bytes st m | _ \<Rightarrow> []) st"
  by (simp add: framed_def)

lemma meta_step_inv: "meta_step st l st' \<Longrightarrow> meta_inv st \<Longrightarrow> meta_inv st'"
  using meta_step_frames [OF _ framed_metas] framed_inv unfolding framed_but_def by blast

lemma new_store_inv:
  assumes "cm_kv st = []" "cm_readFaults st = []" "cm_allocateState st = []"
  shows "meta_inv st"
proof -
  have none: "\<not> owns Map.empty s p x" for s p x by (cases x) simp_all
  have "alloc_of s st = init_AllocateState s" for s using assms(3) by (simp add: alloc_of_def)
  then show ?thesis
    using assms alloc_inv_init none
    by (simp add: meta_inv_def kv_inv_def one_owner_def in_files_def numbers_typed_def files_long_def file_end_def del: owns.simps)
qed

text \<open>C6: From an empty store on, over every sequence of operations in which writes, to the key-value store and to
  the files, fail at will, jobs run in between and the process restarts, two chunks never share a byte: each
  lies within its file, and their ranges are apart.\<close>

theorem chunks_never_overlap:
  assumes "(\<lambda>a b. \<exists>l. meta_step a l b)\<^sup>*\<^sup>* st0 st"
    and "cm_kv st0 = []" "cm_readFaults st0 = []" "cm_allocateState st0 = []"
    and "metas st c = Some (MetaV m)" "metas st c' = Some (MetaV m')" "c \<noteq> c'"
  shows "apart m m' \<and> md_innerOffset m + unat (size_of m) \<le> length (contents st (md_innerFileId m))"
proof -
  have inv: "meta_inv st"
    using assms(1)
  proof (induction rule: rtranclp_induct)
    case base
    then show ?case using new_store_inv assms(2-4) by blast
  next
    case (step y z)
    then show ?case using meta_step_inv by blast
  qed
  have own: "owns (map_of (cm_kv st)) (size_of m) (position_of m) (Live c)"
    "owns (map_of (cm_kv st)) (size_of m') (position_of m') (Live c')"
    using assms(5,6) by (simp_all add: metas_def)
  have "kv_inv (map_of (cm_kv st))" using inv by (simp add: meta_inv_def)
  from slots_disjoint [OF this own] assms(7)
  have "apart m m'" by (auto simp: apart_def size_of_def position_of_def)
  then show ?thesis using live_range [OF inv assms(5)] by blast
qed

text \<open>C7: One operation changes the metadata and the bytes of no chunk but its own, whether it succeeds or fails.\<close>

theorem operations_isolate_chunks:
  assumes "meta_inv st" "meta_step st l st'" "l \<noteq> Some c" "metas st c = Some (MetaV m)"
  shows "metas st' c = Some (MetaV m) \<and> chunk_bytes st' m = chunk_bytes st m"
  using meta_step_frames [OF assms(2) framed_metas [OF assms(1)]] assms(3,4)
  by (auto simp: framed_but_def framed_def)

section \<open>An example\<close>

definition example_disk :: meta_store where
  "example_disk = \<lparr>dk_files = [(\<lparr>fi_chunkSize = 4, fi_chunkIdx = 0\<rparr>, [])], dk_open = [], dk_writes = [], dk_reads = [], dk_faults = [],
     cm_config = \<lparr>mc_allocate_size = 8, mc_recycle_batch_size = 2, mc_punch_hole_batch_size = 2,
       mc_removed_chunk_expiration_time = 10, mc_removed_chunk_force_recycled_time = 5\<rparr>,
     cm_kv = [], cm_readFaults = [], cm_writeFaults = [], cm_sentinel = [], cm_hasSentinel = False,
     cm_physicalFileCount = 1, cm_createdSize = 0, cm_removedSize = 0, cm_uncommitted = [],
     cm_emergencyRecycling = False, cm_allocateState = [], cm_jobs = []\<rparr>"

definition example_1 :: meta_store where
  "example_1 = snd (meta_addChunkSize [4] example_disk)"
definition example_2 :: meta_store where
  "example_2 = snd (meta_createChunk 1 ''a'' default_ChunkMetadata 4 True example_1)"
definition example_3 :: meta_store where
  "example_3 = snd (meta_createChunk 2 ''b'' default_ChunkMetadata 4 True example_2)"

definition example_meta :: "nat \<Rightarrow> ChunkMetadata" where
  "example_meta off = place 4 \<lparr>cp_fileIdx = 0, cp_offset = off\<rparr> default_ChunkMetadata"

lemma example_steps:
  "meta_step example_disk None example_1" "meta_step example_1 (Some ''a'') example_2"
  "meta_step example_2 (Some ''b'') example_3"
  unfolding example_1_def example_2_def example_3_def by (rule meta_step.intros)+

lemma example_reached: "(\<lambda>a b. \<exists>l. meta_step a l b)\<^sup>*\<^sup>* example_disk example_3"
  by (rule converse_rtranclp_into_rtranclp, rule exI, rule example_steps)+ simp

lemma example_metas:
  "metas example_3 ''a'' = Some (MetaV (example_meta 0))" "metas example_3 ''b'' = Some (MetaV (example_meta 4))"
  "metas example_2 ''a'' = Some (MetaV (example_meta 0))"
  by code_simp+

lemma example_inv: "meta_inv example_2"
proof -
  have "meta_inv example_disk" by (rule new_store_inv) (simp_all add: example_disk_def)
  then show ?thesis using example_steps(1,2) meta_step_inv by blast
qed

theorem chunks_never_overlap_witness:
  "apart (example_meta 0) (example_meta 4) \<and> 4 \<le> length (contents example_3 (md_innerFileId (example_meta 0)))"
proof -
  have "md_innerOffset (example_meta 0) + unat (size_of (example_meta 0)) = 4" by code_simp
  then show ?thesis
    using chunks_never_overlap [OF example_reached _ _ _ example_metas(1,2)]
    by (simp add: example_disk_def)
qed

theorem operations_isolate_chunks_witness:
  "metas example_3 ''a'' = Some (MetaV (example_meta 0)) \<and>
    chunk_bytes example_3 (example_meta 0) = chunk_bytes example_2 (example_meta 0)"
  using operations_isolate_chunks [OF example_inv example_steps(3) _ example_metas(3)] by simp

section \<open>A failed read\<close>

lemma chunk_offsets_eq: "0 < step \<Longrightarrow> chunk_offsets step off (off + step * k) = Some (map (\<lambda>i. off + step * i) [0..<k])"
proof (induction k arbitrary: off)
  case 0
  then show ?case by (subst chunk_offsets.simps) simp
next
  case (Suc k)
  have "[0..<Suc k] = 0 # map Suc [0..<k]" by (simp add: map_Suc_upt upt_conv_Cons del: upt_Suc)
  then show ?case
    using Suc.IH [of "off + step"] Suc.prems by (subst chunk_offsets.simps) (simp add: add.assoc comp_def del: upt_Suc)
qed

lemma fold_put_ops:
  assumes "\<forall>x \<in> set ops. \<exists>k v. x = BPut k v"
  shows "map_of (fold apply_op ops kv) k \<noteq> None \<longleftrightarrow> map_of kv k \<noteq> None \<or> (\<exists>v. BPut k v \<in> set ops)"
    "\<forall>v. BPut k v \<notin> set ops \<Longrightarrow> map_of (fold apply_op ops kv) k = map_of kv k"
  using assms by (induction ops arbitrary: kv) (auto simp: update_conv' split: if_splits)

lemma failed_load_fileSize:
  assumes "cm_readFaults st = True # q" "map_of (as_fileSize (alloc_of s st)) idx = None"
  shows "load_fileSize s idx st = (Err (Common kKVStoreGetError),
    (set_alloc s ((alloc_of s st)\<lparr>as_fileSize := AList.update idx 0 (as_fileSize (alloc_of s st))\<rparr>) st)\<lparr>cm_readFaults := q\<rparr>)"
  using assms by (simp add: load_fileSize_def sbind_def upd_alloc_def modify_def kv_num_def kv_get_def read_fault_def)

lemma file_allocate_works:
  assumes "dk_faults st = []" "map_of (dk_files st) fid \<noteq> None" "file_allocate fid off n st = (r, st')"
  shows "r = Inr () \<and> disk_only st st'"
  using assms file_allocate_state(1) [OF assms(3)]
  by (auto simp: file_allocate_def openInnerFile_def next_fault_def Let_def set_file_def split: if_splits)

text \<open>With the size 0 in memory the whole first part of the file is handed out.\<close>

lemma grow_from_zero:
  assumes "cm_writeFaults st = []" "dk_faults st = []" "map_of (dk_files st) \<lparr>fi_chunkSize = s, fi_chunkIdx = idx\<rparr> \<noteq> None"
    and sz: "0 < unat s" "unat s dvd mc_allocate_size (cm_config st)" "0 < mc_allocate_size (cm_config st)"
  defines "ps \<equiv> {\<lparr>cp_fileIdx = idx, cp_offset = x\<rparr> | x. unat s dvd x \<and> x < mc_allocate_size (cm_config st)}"
  shows "\<exists>st'. grow_file s idx 0 st = (Ret (), st') \<and> ps \<subseteq> set (as_createdChunks (alloc_of s st')) \<and>
    last (as_createdChunks (alloc_of s st')) = \<lparr>cp_fileIdx = idx, cp_offset = 0\<rparr> \<and>
    (\<forall>p \<in> ps. map_of (cm_kv st') (CreatedKey s p) \<noteq> None) \<and> metas st' = metas st"
proof -
  let ?alloc = "mc_allocate_size (cm_config st)" and ?fid = "\<lparr>fi_chunkSize = s, fi_chunkIdx = idx\<rparr>"
  obtain k where k: "?alloc = unat s * k" using sz(2) by blast
  then have k0: "0 < k" using sz(3) by (cases k) simp_all
  define offs where "offs = map (\<lambda>i. unat s * i) [0..<k]"
  have off: "chunk_offsets (unat s) 0 ?alloc = Some offs" using chunk_offsets_eq [OF sz(1), of 0 k] by (simp add: k offs_def)
  have so: "set (new_positions idx offs) = ps"
    using sz(1) by (auto simp: offs_def ps_def new_positions_def k image_iff elim!: dvdE)
  have hd: "offs = 0 # tl offs" using k0 by (cases k) (simp_all add: offs_def upt_conv_Cons del: upt_Suc)
  obtain r0 st1 where fa: "file_allocate ?fid 0 ?alloc st = (r0, st1)" by fastforce
  note f = file_allocate_works [OF assms(2,3) fa]
  note d = disk_only_meta [OF conjunct2 [OF f]]
  have wf: "cm_writeFaults st1 = []" using f assms(1) by (auto simp: disk_only_def)
  define nxt where "nxt = (idx + 1) mod cm_physicalFileCount st"
  define cnt where "cnt = as_createdCount (alloc_of s st) + length (new_positions idx offs)"
  define ops where "ops = grow_ops s idx nxt ?alloc (new_positions idx offs) cnt"
  define st2 where "st2 = st1\<lparr>cm_kv := fold apply_op ops (cm_kv st)\<rparr>"
  let ?a = "(alloc_of s st)\<lparr>as_allocateIndex := nxt, as_createdChunks := as_createdChunks (alloc_of s st) @ rev (new_positions idx offs),
    as_createdCount := cnt, as_fileSize := AList.update idx ?alloc (as_fileSize (alloc_of s st))\<rparr>"
  have al: "alloc_of s st2 = alloc_of s st" by (simp add: st2_def alloc_of_def d)
  have run: "grow_file s idx 0 st = (Ret (), set_alloc s ?a st2)"
    using f fa off wf al d
    by (simp add: grow_file_def Let_def sbind_def run_result_def gets_def kv_commit_def write_fault_def upd_alloc_def modify_def
        st2_def ops_def cnt_def nxt_def)
  have puts: "\<forall>x \<in> set ops. \<exists>k v. x = BPut k v" by (auto simp: ops_def grow_ops_def)
  have "map_of (cm_kv st2) (CreatedKey s p) \<noteq> None" if "p \<in> ps" for p
    using that fold_put_ops(1) [OF puts] by (auto simp: st2_def ops_def grow_ops_def so)
  moreover have "metas st2 = metas st"
    using fold_put_ops(2) [OF puts] by (auto simp: metas_def fun_eq_iff st2_def ops_def grow_ops_def)
  moreover have "last (rev (new_positions idx offs)) = \<lparr>cp_fileIdx = idx, cp_offset = 0\<rparr>" "new_positions idx offs \<noteq> []"
    by (subst hd, simp add: new_positions_def)+
  ultimately show ?thesis
    by (intro exI [of _ "set_alloc s ?a st2"]) (simp add: run so metas_def fun_eq_iff)
qed

text \<open>
  C37: What the invariant needs of reads. In a store that keeps the invariant, let the size of the file
  in which chunks are created next not be in memory yet, as after a restart, and let the read of that
  size fail, once, and nothing else. The allocation fails, but the entry 0 stays in
  \<open>fileSize\<close>. The next allocation succeeds and hands out positions from the start of the
  file again: a chunk that lies in the first part of the file keeps its metadata, its position is one of
  a new chunk as well, the first position to be taken is the start of the file, and the invariant is
  lost.
\<close>

theorem failed_read_overlaps_chunks:
  assumes inv: "meta_inv (st\<lparr>cm_readFaults := []\<rparr>)" and fails: "cm_readFaults st = [True]" "cm_writeFaults st = []" "dk_faults st = []"
    and idx: "as_allocateIndex (alloc_of s st) = idx" "map_of (as_fileSize (alloc_of s st)) idx = None"
      "map_of (dk_files st) \<lparr>fi_chunkSize = s, fi_chunkIdx = idx\<rparr> \<noteq> None"
    and sz: "0 < unat s" "unat s dvd mc_allocate_size (cm_config st)"
    and m: "metas st c = Some (MetaV m)" "md_innerFileId m = \<lparr>fi_chunkSize = s, fi_chunkIdx = idx\<rparr>"
      "md_innerOffset m < mc_allocate_size (cm_config st)"
  shows "\<exists>st1 st2. allocateChunks w s st = (Err (Common kKVStoreGetError), st1) \<and>
    map_of (as_fileSize (alloc_of s st1)) idx = Some 0 \<and>
    allocateChunks w' s st1 = (Ret (), st2) \<and> metas st2 c = Some (MetaV m) \<and>
    position_of m \<in> set (as_createdChunks (alloc_of s st2)) \<and>
    last (as_createdChunks (alloc_of s st2)) = \<lparr>cp_fileIdx = idx, cp_offset = 0\<rparr> \<and> \<not> meta_inv st2"
proof -
  let ?a = "alloc_of s st" and ?clear = "\<lambda>w st. if w then st else snd (upd_alloc s (\<lambda>a. a\<lparr>as_allocating := False\<rparr>) st)"
  let ?b = "?a\<lparr>as_fileSize := AList.update idx 0 (as_fileSize ?a)\<rparr>"
  define st1 where "st1 = ?clear w ((set_alloc s ?b st)\<lparr>cm_readFaults := []\<rparr>)"
  have a1: "allocateChunks w s st = (Err (Common kKVStoreGetError), st1)"
    using failed_load_fileSize [OF fails(1) idx(2)] idx(1)
    by (simp add: allocateChunks_def allocate_more_def sbind_def gets_def st1_def)
  have al1: "as_fileSize (alloc_of s st1) = AList.update idx 0 (as_fileSize ?a)" "as_allocateIndex (alloc_of s st1) = idx"
    using idx(1) by (auto simp: st1_def upd_alloc_def modify_def alloc_of_def set_alloc_def update_conv')
  have f1: "cm_writeFaults st1 = []" "dk_faults st1 = []" "dk_files st1 = dk_files st" "cm_config st1 = cm_config st" "metas st1 = metas st"
    using fails by (auto simp: st1_def upd_alloc_def modify_def set_alloc_def metas_def)
  have ld: "load_fileSize s idx st1 = (Ret (), st1)" by (simp add: load_fileSize_def al1 update_conv')
  obtain st2 where g: "grow_file s idx 0 st1 = (Ret (), st2)"
    "{\<lparr>cp_fileIdx = idx, cp_offset = x\<rparr> | x. unat s dvd x \<and> x < mc_allocate_size (cm_config st)} \<subseteq> set (as_createdChunks (alloc_of s st2))"
    "last (as_createdChunks (alloc_of s st2)) = \<lparr>cp_fileIdx = idx, cp_offset = 0\<rparr>"
    "\<forall>p \<in> {\<lparr>cp_fileIdx = idx, cp_offset = x\<rparr> | x. unat s dvd x \<and> x < mc_allocate_size (cm_config st)}. map_of (cm_kv st2) (CreatedKey s p) \<noteq> None"
    "metas st2 = metas st"
    using grow_from_zero [OF f1(1,2), of s idx] idx(3) sz m(3) by (auto simp: f1)
  define st3 where "st3 = ?clear w' st2"
  have a2: "allocateChunks w' s st1 = (Ret (), st3)"
    using ld g(1) by (simp add: allocateChunks_def allocate_more_def sbind_def gets_def al1 update_conv' st3_def)
  have same: "as_createdChunks (alloc_of s st3) = as_createdChunks (alloc_of s st2)" "cm_kv st3 = cm_kv st2" "metas st3 = metas st2"
    by (auto simp: st3_def upd_alloc_def modify_def metas_def)
  have own: "owns (map_of (cm_kv st)) s (position_of m) (Live c)" using m(1,2) by (simp add: metas_def size_of_def)
  then have "unat s dvd md_innerOffset m" using in_filesD(1) inv by (fastforce simp: meta_inv_def position_of_def simp del: owns.simps)
  then have p: "position_of m \<in> {\<lparr>cp_fileIdx = idx, cp_offset = x\<rparr> | x. unat s dvd x \<and> x < mc_allocate_size (cm_config st)}"
    using m(2,3) by (simp add: position_of_def)
  have "owns (map_of (cm_kv st3)) s (position_of m) Created" using g(4) p same(2) by simp
  moreover have "owns (map_of (cm_kv st3)) s (position_of m) (Live c)"
    using m(1,2) g(5) same(3) by (simp add: metas_def fun_eq_iff size_of_def)
  ultimately have "\<not> meta_inv st3" unfolding meta_inv_def using one_ownerD by blast
  then show ?thesis using a1 a2 al1 g(2,3,5) p same m(1) by (intro exI [of _ st1] exI [of _ st3]) (auto simp: update_conv')
qed

text \<open>A store with one chunk of 4096 bytes at the start of a file of 64 MiB, just opened.\<close>

definition reopened_meta :: ChunkMetadata where
  "reopened_meta = place 4096 \<lparr>cp_fileIdx = 0, cp_offset = 0\<rparr> default_ChunkMetadata"

definition reopened :: meta_store where
  "reopened = example_disk\<lparr>dk_files := [(\<lparr>fi_chunkSize = 4096, fi_chunkIdx = 0\<rparr>, replicate 67108864 0)],
     cm_config := (cm_config example_disk)\<lparr>mc_allocate_size := 67108864\<rparr>,
     cm_kv := [(ChunkMetaKey ''a'', MetaV reopened_meta),
       (FileSizeKey \<lparr>fi_chunkSize = 4096, fi_chunkIdx = 0\<rparr>, NumV 67108864)],
     cm_readFaults := [True], cm_allocateState := [(4096, (init_AllocateState 4096)\<lparr>as_loaded := True\<rparr>)]\<rparr>"

lemma reopened_owns:
  "owns (map_of (cm_kv reopened)) s p x \<longleftrightarrow> x = Live ''a'' \<and> s = 4096 \<and> p = \<lparr>cp_fileIdx = 0, cp_offset = 0\<rparr>"
  by (cases x) (auto simp: reopened_def reopened_meta_def place_def size_of_def position_of_def)

lemma reopened_file_end:
  "file_end (map_of (cm_kv reopened)) s i = (if s = 4096 \<and> i = 0 then 67108864 else 0)"
  by (simp add: reopened_def file_end_def)

lemma reopened_inv: "meta_inv (reopened\<lparr>cm_readFaults := []\<rparr>)"
proof -
  have "kv_inv (map_of (cm_kv reopened))"
    by (auto simp: kv_inv_def one_owner_def in_files_def numbers_typed_def reopened_owns reopened_file_end simp del: owns.simps)
      (auto simp: reopened_def split: if_splits)
  moreover have "alloc_inv (map_of (cm_kv reopened)) s (alloc_of s reopened)" for s
    by (auto simp: alloc_inv_def reopened_owns simp del: owns.simps)
      (auto simp: reopened_def alloc_of_def init_AllocateState_def split: if_splits)
  moreover have "files_long reopened (map_of (cm_kv reopened))"
    by (simp add: files_long_def reopened_file_end) (simp add: reopened_def contents_def)
  moreover have "distinct (map fst (cm_kv reopened))" by (simp add: reopened_def)
  ultimately show ?thesis by (simp add: meta_inv_def alloc_of_def files_long_def contents_def)
qed

theorem failed_read_overlaps_chunks_witness:
  "\<exists>st1 st2. allocateChunks True 4096 reopened = (Err (Common kKVStoreGetError), st1) \<and>
    allocateChunks True 4096 st1 = (Ret (), st2) \<and> metas st2 ''a'' = Some (MetaV reopened_meta) \<and>
    \<lparr>cp_fileIdx = 0, cp_offset = 0\<rparr> \<in> set (as_createdChunks (alloc_of 4096 st2)) \<and> \<not> meta_inv st2"
proof -
  have f: "cm_readFaults reopened = [True]" "cm_writeFaults reopened = []" "dk_faults reopened = []"
    "as_allocateIndex (alloc_of 4096 reopened) = 0" "map_of (as_fileSize (alloc_of 4096 reopened)) 0 = None"
    "map_of (dk_files reopened) \<lparr>fi_chunkSize = 4096, fi_chunkIdx = 0\<rparr> \<noteq> None"
    "unat (4096 :: 32 word) dvd mc_allocate_size (cm_config reopened)"
    "metas reopened ''a'' = Some (MetaV reopened_meta)"
    "md_innerOffset reopened_meta < mc_allocate_size (cm_config reopened)"
    by (simp_all add: reopened_def example_disk_def alloc_of_def init_AllocateState_def metas_def reopened_meta_def place_def)
  have m: "md_innerFileId reopened_meta = \<lparr>fi_chunkSize = 4096, fi_chunkIdx = 0\<rparr>"
    "position_of reopened_meta = \<lparr>cp_fileIdx = 0, cp_offset = 0\<rparr>"
    by (simp_all add: reopened_meta_def place_def position_of_def)
  show ?thesis
    using failed_read_overlaps_chunks [OF reopened_inv f(1-6) _ f(7,8) m(1) f(9), of True True] m(2) by fastforce
qed

end
