(* ===== verification/Chunk_Store.thy ===== *)
theory Chunk_Store
  imports Chunk_Safety
begin

text \<open>
  The store of chunks (\<^verbatim>\<open>src/src/storage/store/ChunkStore.cc\<close>): a cache of the metadata over the store of
  metadata and the files. The 32 maps of the source, among which an identifier is chosen by its hash, are
  one map here. The lemmas say that the cache agrees with the stored metadata on where a chunk lies, and that
  a query returns the chunks of its range.
\<close>

section \<open>State and operations\<close>

text \<open>A chunk in memory: its metadata and the file of its descriptors, None before it is opened.\<close>

record ChunkInfo =
  ck_meta :: ChunkMetadata
  ck_view :: "ChunkFileId option"

record chunk_store = meta_store +
  cs_map :: "(chunk_id \<times> ChunkInfo) list"
  cs_forcePersist :: bool

text \<open>New files and keys for chunk sizes.\<close>

definition store_create :: "string \<Rightarrow> bool \<Rightarrow> nat \<Rightarrow> nat list \<Rightarrow> ('a meta_store_scheme, unit) action" where
  "store_create sentinel hasSentinel n sizes =
    sbind (run_result (file_addChunkSize n sizes)) (\<lambda>_.
    meta_create sentinel hasSentinel (of_nat n) (map of_nat sizes))"

definition store_addChunkSize :: "nat \<Rightarrow> nat list \<Rightarrow> ('a meta_store_scheme, unit) action" where
  "store_addChunkSize n sizes =
    sbind (run_result (file_addChunkSize n sizes)) (\<lambda>_. meta_addChunkSize (map of_nat sizes))"

definition cache_put :: "chunk_id \<Rightarrow> ChunkInfo \<Rightarrow> ('a chunk_store_scheme, unit) action" where
  "cache_put c info = modify (\<lambda>st. st\<lparr>cs_map := AList.update c info (cs_map st)\<rparr>)"

definition store_get :: "chunk_id \<Rightarrow> ('a chunk_store_scheme, ChunkInfo) action" where
  "store_get c st = (case map_of (cs_map st) c of
      Some info \<Rightarrow> (Ret info, st)
    | None \<Rightarrow>
        sbind (meta_get c) (\<lambda>meta.
        sbind (run_result (file_open (md_innerFileId meta))) (\<lambda>_.
        let info = \<lparr>ck_meta = meta, ck_view = Some (md_innerFileId meta)\<rparr> in
        sbind (cache_put c info) (\<lambda>_. ret info))) st)"

definition store_createChunk ::
  "int \<Rightarrow> chunk_id \<Rightarrow> 32 word \<Rightarrow> ChunkInfo \<Rightarrow> bool \<Rightarrow> ('a chunk_store_scheme, ChunkInfo) action" where
  "store_createChunk now c s info allow =
    sbind (meta_createChunk now c (ck_meta info) s allow) (\<lambda>meta.
    sbind (run_result (file_open (md_innerFileId meta))) (\<lambda>_.
    let info = \<lparr>ck_meta = meta, ck_view = Some (md_innerFileId meta)\<rparr> in
    sbind (cache_put c info) (\<lambda>_. ret info)))"

definition store_set :: "chunk_id \<Rightarrow> ChunkInfo \<Rightarrow> bool \<Rightarrow> ('a chunk_store_scheme, unit) action" where
  "store_set c info persist =
    sbind (gets (\<lambda>st. persist \<or> cs_forcePersist st)) (\<lambda>write.
    sbind (if write then meta_set c (ck_meta info) else ret ()) (\<lambda>_.
    cache_put c info))"

definition store_remove :: "int \<Rightarrow> chunk_id \<Rightarrow> ChunkInfo \<Rightarrow> ('a chunk_store_scheme, unit) action" where
  "store_remove now c info =
    (if \<not> readyToRemove (ck_meta info) then fail (Storage kChunkNotReadyToRemove)
     else sbind (store_get c) (\<lambda>_.
       sbind (meta_remove now c (ck_meta info)) (\<lambda>_.
       modify (\<lambda>st. st\<lparr>cs_map := AList.delete c (cs_map st)\<rparr>))))"

subsection \<open>Queries\<close>

text \<open>
  The iterator over the metadata: the keys from that of a prefix on, in the order of their bytes, without
  the lower sentinel if it comes first.
\<close>

fun is_meta :: "meta_key \<Rightarrow> bool" where
  "is_meta (ChunkMetaKey c) = True"
| "is_meta _ = False"

definition iterator_seek :: "string \<Rightarrow> meta_key list \<Rightarrow> meta_key list" where
  "iterator_seek pre ks = (case dropWhile (\<lambda>k. key_bytes k < key_bytes (ChunkMetaKey pre)) ks of
      [] \<Rightarrow> []
    | k # ks' \<Rightarrow> if k = kMinKey then ks' else k # ks')"

definition meta_iterator :: "string \<Rightarrow> ('a meta_store_scheme, (chunk_id \<times> meta_value) list) action" where
  "meta_iterator pre st = (case read_fault st of (fails, st') \<Rightarrow>
     if fails then (Err (Storage kMetaStoreInvalidIterator), st')
     else (Ret (map (\<lambda>k. (key_chunk k, the (map_of (cm_kv st') k))) (iterator_seek pre (sorted_keys is_meta st'))), st'))"

definition iterator_status :: "('a meta_store_scheme, unit) action" where
  "iterator_status st = (case read_fault st of (fails, st') \<Rightarrow>
     (if fails then Err (Common kKVStoreGetError) else Ret (), st'))"

definition iterator_meta :: "meta_value \<Rightarrow> ChunkMetadata result" where
  "iterator_meta v = (case v of MetaV m \<Rightarrow> Inr m | _ \<Rightarrow> Inl (Common kDataCorruption))"

record ChunkIdRange =
  cr_begin :: chunk_id
  cr_end :: chunk_id
  cr_max :: nat

fun query_loop ::
  "ChunkIdRange \<Rightarrow> (chunk_id \<times> meta_value) list \<Rightarrow> (chunk_id \<times> ChunkMetadata) list
    \<Rightarrow> (chunk_id \<times> ChunkMetadata) list result" where
  "query_loop r [] acc = Inr acc"
| "query_loop r ((c, v) # its) acc =
    (if cr_max r \<le> length acc then Inr acc
     else if c = cr_end r then query_loop r its acc
     else if c < cr_begin r then Inr acc
     else case iterator_meta v of Inl e \<Rightarrow> Inl e | Inr m \<Rightarrow> query_loop r its (acc @ [(c, m)]))"

definition queryChunks :: "ChunkIdRange \<Rightarrow> ('a meta_store_scheme, (chunk_id \<times> ChunkMetadata) list) action" where
  "queryChunks r =
    sbind (meta_iterator (cr_end r)) (\<lambda>its.
    sbind (try_result (query_loop r its [])) (\<lambda>chunks.
    sbind iterator_status (\<lambda>_. ret chunks)))"

record ChunkMeta =
  cx_chunkId :: chunk_id
  cx_updateVer :: "32 word"
  cx_commitVer :: "32 word"
  cx_chainVer :: "32 word"
  cx_chunkState :: ChunkState
  cx_checksum :: ChecksumInfo
  cx_length :: "32 word"

definition chunk_meta_of :: "chunk_id \<Rightarrow> ChunkMetadata \<Rightarrow> ChunkMeta" where
  "chunk_meta_of c m = \<lparr>cx_chunkId = c, cx_updateVer = md_updateVer m, cx_commitVer = md_commitVer m,
     cx_chainVer = md_chainVer m, cx_chunkState = md_chunkState m, cx_checksum = meta_checksum m, cx_length = md_size m\<rparr>"

fun collect_metas :: "(chunk_id \<times> meta_value) list \<Rightarrow> ChunkMeta list result" where
  "collect_metas [] = Inr []"
| "collect_metas ((c, v) # its) = (case iterator_meta v of
      Inl e \<Rightarrow> Inl e
    | Inr m \<Rightarrow> (case collect_metas its of Inl e \<Rightarrow> Inl e | Inr ms \<Rightarrow> Inr (chunk_meta_of c m # ms)))"

definition getAllMetadata :: "('a meta_store_scheme, ChunkMeta list) action" where
  "getAllMetadata =
    sbind (meta_iterator []) (\<lambda>its.
    sbind (try_result (collect_metas its)) (\<lambda>ms.
    sbind iterator_status (\<lambda>_. ret ms)))"

section \<open>A query is complete\<close>

lemma dropWhile_sorted:
  fixes a :: "'b::linorder"
  shows "sorted (map f xs) \<Longrightarrow> dropWhile (\<lambda>x. f x < a) xs = filter (\<lambda>x. a \<le> f x) xs"
proof (induction xs)
  case (Cons x xs)
  show ?case
  proof (cases "f x < a")
    case False
    then have "\<forall>y \<in> set xs. a \<le> f y" using Cons.prems by auto
    then show ?thesis using False by simp
  qed (use Cons in auto)
qed simp

lemma query_loop_result:
  assumes "sorted_wrt (>) ids" "length acc \<le> cr_max r"
  shows "query_loop r (map (\<lambda>c. (c, MetaV (f c))) ids) acc =
    Inr (acc @ take (cr_max r - length acc) (map (\<lambda>c. (c, f c)) (filter (\<lambda>c. c \<noteq> cr_end r \<and> cr_begin r \<le> c) ids)))"
  using assms
proof (induction ids arbitrary: acc)
  case (Cons c ids)
  have below: "filter (\<lambda>c. c \<noteq> cr_end r \<and> cr_begin r \<le> c) ids = []" if "c < cr_begin r"
    using Cons.prems(1) that by (auto simp: filter_empty_conv)
  consider "cr_max r \<le> length acc" | "length acc < cr_max r" "c = cr_end r"
    | "length acc < cr_max r" "c \<noteq> cr_end r" "c < cr_begin r" | "length acc < cr_max r" "c \<noteq> cr_end r" "cr_begin r \<le> c"
    by force
  then show ?case
  proof cases
    case 4
    then have "cr_max r - length acc = Suc (cr_max r - Suc (length acc))" by simp
    then show ?thesis using 4 Cons.IH [of "acc @ [(c, f c)]"] Cons.prems by (simp add: iterator_meta_def)
  qed (use Cons below in simp_all)
qed simp

lemma meta_key_order:
  "length c = length d \<Longrightarrow> key_bytes (ChunkMetaKey c) < key_bytes (ChunkMetaKey d) \<longleftrightarrow> d < c"
  "d \<noteq> [] \<Longrightarrow> key_bytes kMinKey < key_bytes (ChunkMetaKey d)"
  by (simp_all add: reverseBits_less) (cases d; simp add: reverseBits_def)

lemma is_metaE: "is_meta k \<Longrightarrow> \<exists>c. k = ChunkMetaKey c"
  by (cases k) simp_all

text \<open>The identifiers the iterator gives from \<open>e\<close> on, when all have one length.\<close>

definition ids_of_length :: "nat \<Rightarrow> 'a meta_store_scheme \<Rightarrow> bool" where
  "ids_of_length n st \<longleftrightarrow> (\<forall>c v. metas st c = Some v \<longrightarrow> c \<noteq> [] \<longrightarrow> length c = n \<and> (\<exists>m. v = MetaV m))"

definition listed :: "'a meta_store_scheme \<Rightarrow> chunk_id \<Rightarrow> ChunkMetadata" where
  "listed st c = (case metas st c of Some (MetaV m) \<Rightarrow> m | _ \<Rightarrow> default_ChunkMetadata)"

lemma iterator_seek_ids:
  assumes dist: "distinct (map fst (cm_kv st))" and len: "ids_of_length n st" "length e = n" "0 < n"
  defines "ks \<equiv> iterator_seek e (sorted_keys is_meta st)"
  shows "sorted_wrt (>) (map key_chunk ks)" "set (map key_chunk ks) = {c. c \<noteq> [] \<and> metas st c \<noteq> None \<and> c \<le> e}"
    "\<forall>k \<in> set ks. the (map_of (cm_kv st) k) = MetaV (listed st (key_chunk k))"
proof -
  let ?ks = "sorted_keys is_meta st" and ?b = "key_bytes (ChunkMetaKey e)"
  define ls where "ls = filter (\<lambda>k. ?b \<le> key_bytes k) ?ks"
  have srt: "sorted (map key_bytes ?ks)" by (simp add: sorted_keys_def)
  have e: "e \<noteq> []" using len(2,3) by auto
  have "kMinKey \<notin> set ls" using meta_key_order(2) [OF e] by (auto simp: ls_def simp del: key_bytes.simps)
  then have ks: "ks = ls"
    unfolding ks_def iterator_seek_def dropWhile_sorted [OF srt] ls_def [symmetric] by (cases ls) auto
  have mem: "\<exists>c. k = ChunkMetaKey c \<and> c \<noteq> [] \<and> length c = n \<and> metas st c = Some (MetaV (listed st c)) \<and> c \<le> e"
    if "k \<in> set ls" for k
  proof -
    have k: "is_meta k" "map_of (cm_kv st) k \<noteq> None" "?b \<le> key_bytes k"
      using that by (simp_all add: ls_def sorted_keys_set del: key_bytes.simps)
    obtain c where c: "k = ChunkMetaKey c" using is_metaE [OF k(1)] by blast
    have ne: "c \<noteq> []" using k(3) meta_key_order(2) [OF e] unfolding c by (auto simp del: key_bytes.simps)
    obtain v where v: "metas st c = Some v" using k(2) by (auto simp: c metas_def)
    have "length c = n \<and> (\<exists>m. v = MetaV m)" using len(1) v ne unfolding ids_of_length_def by blast
    then have l: "length c = n" "metas st c = Some (MetaV (listed st c))" using v by (auto simp: listed_def)
    have "\<not> e < c" using k(3) meta_key_order(1) [of c e] l(1) len(2) unfolding c by (metis leD)
    then have "c \<le> e" by simp
    then show ?thesis using c ne l by blast
  qed
  show "set (map key_chunk ks) = {c. c \<noteq> [] \<and> metas st c \<noteq> None \<and> c \<le> e}"
  proof (intro equalityI subsetI)
    fix c assume "c \<in> set (map key_chunk ks)"
    then obtain k where k: "k \<in> set ls" "c = key_chunk k" by (auto simp: ks)
    obtain d where "k = ChunkMetaKey d" "d \<noteq> []" "metas st d = Some (MetaV (listed st d))" "d \<le> e"
      using mem [OF k(1)] by blast
    then show "c \<in> {c. c \<noteq> [] \<and> metas st c \<noteq> None \<and> c \<le> e}" using k(2) by simp
  next
    fix c assume c: "c \<in> {c. c \<noteq> [] \<and> metas st c \<noteq> None \<and> c \<le> e}"
    then have "length c = n" using len(1) unfolding ids_of_length_def by blast
    then have "\<not> key_bytes (ChunkMetaKey c) < ?b" using c meta_key_order(1) [of c e] len(2) by (simp add: not_less del: key_bytes.simps)
    then have "?b \<le> key_bytes (ChunkMetaKey c)" by (rule leI)
    then have "ChunkMetaKey c \<in> set ls" using c by (simp add: ls_def sorted_keys_set metas_def del: key_bytes.simps)
    then show "c \<in> set (map key_chunk ks)" by (force simp: ks)
  qed
  show "\<forall>k \<in> set ks. the (map_of (cm_kv st) k) = MetaV (listed st (key_chunk k))"
  proof
    fix k assume "k \<in> set ks"
    then obtain c where "k = ChunkMetaKey c" "metas st c = Some (MetaV (listed st c))" using mem ks by blast
    then show "the (map_of (cm_kv st) k) = MetaV (listed st (key_chunk k))" by (simp add: metas_def)
  qed
  have "distinct ls" "sorted (map key_bytes ls)"
    using sorted_keys_distinct [OF dist, of is_meta] sorted_filter [OF srt] by (simp_all add: ls_def)
  then show "sorted_wrt (>) (map key_chunk ks)"
    using mem unfolding ks
  proof (induction ls)
    case (Cons k ls)
    obtain c where c: "k = ChunkMetaKey c" "length c = n" using Cons.prems(3) [OF list.set_intros(1)] by blast
    have "d < c" if "d \<in> key_chunk ` set ls" for d
    proof -
      obtain k' where k': "k' \<in> set ls" "d = key_chunk k'" using \<open>d \<in> key_chunk ` set ls\<close> by blast
      obtain d' where d': "k' = ChunkMetaKey d'" "length d' = n" using Cons.prems(3) [OF list.set_intros(2) [OF k'(1)]] by blast
      have "d' \<noteq> c" "key_bytes (ChunkMetaKey c) \<le> key_bytes (ChunkMetaKey d')"
        using Cons.prems(1,2) k'(1) c(1) d'(1) by (auto simp del: key_bytes.simps)
      then have "\<not> key_bytes (ChunkMetaKey d') < key_bytes (ChunkMetaKey c)" by (simp add: not_less del: key_bytes.simps)
      then have "\<not> c < d'" using meta_key_order(1) [of d' c] c(2) d'(2) by simp
      then show ?thesis using \<open>d' \<noteq> c\<close> k'(2) d'(1) by simp
    qed
    moreover have "sorted_wrt (>) (map key_chunk ls)"
      by (rule Cons.IH) (use Cons.prems(1,2) Cons.prems(3) [OF list.set_intros(2)] in \<open>simp_all del: key_bytes.simps\<close>)
    ultimately show ?case using c(1) by simp
  qed simp
qed

text \<open>C33: On a store whose identifiers have one length, a query returns the chunks of the half-open range, at most as many as
  it asks for, from the largest identifier down, and with the stored metadata.\<close>

theorem queryChunks_complete:
  assumes "meta_inv st" "ids_of_length n st" "length (cr_begin r) = n" "length (cr_end r) = n" "0 < n"
  shows "queryChunks r st = (Ret (take (cr_max r) (map (\<lambda>c. (c, listed st c))
    (rev (sorted_list_of_set {c. cr_begin r \<le> c \<and> c < cr_end r \<and> metas st c \<noteq> None})))), st)"
proof -
  let ?ks = "iterator_seek (cr_end r) (sorted_keys is_meta st)"
  let ?S = "{c. cr_begin r \<le> c \<and> c < cr_end r \<and> metas st c \<noteq> None}"
  define ids where "ids = map key_chunk ?ks"
  have dist: "distinct (map fst (cm_kv st))" and q: "cm_readFaults st = []" using assms(1) by (simp_all add: meta_inv_def)
  note i = iterator_seek_ids [OF dist assms(2,4,5), folded ids_def]
  have its: "map (\<lambda>k. (key_chunk k, the (map_of (cm_kv st) k))) ?ks = map (\<lambda>c. (c, MetaV (listed st c))) ids"
    using i(3) by (simp add: ids_def)
  define fs where "fs = filter (\<lambda>c. c \<noteq> cr_end r \<and> cr_begin r \<le> c) ids"
  have "sorted_wrt (<) (rev fs)" using i(1) sorted_wrt_filter by (simp add: fs_def sorted_wrt_rev)
  moreover have "set (rev fs) = ?S"
  proof -
    obtain x xs where b: "cr_begin r = x # xs" using assms(3,5) by (cases "cr_begin r") simp_all
    have ne: "c \<noteq> []" if "cr_begin r \<le> c" for c using that unfolding b by (cases c) simp_all
    have "set (rev fs) = {c \<in> set ids. c \<noteq> cr_end r \<and> cr_begin r \<le> c}" by (auto simp: fs_def)
    also have "\<dots> = ?S" unfolding i(2) using ne by (simp add: less_le) blast
    finally show ?thesis .
  qed
  ultimately have "sorted_list_of_set ?S = rev fs"
    using sorted_list_of_set.idem_if_sorted_distinct [of "rev fs"] by (simp only: strict_sorted_iff)
  then have fs: "fs = rev (sorted_list_of_set ?S)" by (simp only: rev_rev_ident)
  have loop: "query_loop r (map (\<lambda>c. (c, MetaV (listed st c))) ids) [] = Inr (take (cr_max r) (map (\<lambda>c. (c, listed st c)) fs))"
    using query_loop_result [OF i(1), of "[]" r "listed st"] by (simp add: fs_def)
  have it: "meta_iterator (cr_end r) st = (Ret (map (\<lambda>c. (c, MetaV (listed st c))) ids), st)"
    using its q by (simp add: meta_iterator_def read_fault_def)
  show ?thesis
    unfolding fs [symmetric] using loop it q
    by (simp add: queryChunks_def iterator_status_def read_fault_def sbind_def try_result_def ret_def)
qed

theorem queryChunks_complete_witness:
  "queryChunks \<lparr>cr_begin = ''a'', cr_end = ''c'', cr_max = 5\<rparr> example_3 =
    (Ret [(''b'', example_meta 4), (''a'', example_meta 0)], example_3)"
proof -
  have inv: "meta_inv example_3" using example_inv example_steps(3) meta_step_inv by blast
  have keys: "map fst (cm_kv example_3) = [VersionKey 4, AllocateStartKey 4, BareVersionKey 4, AllocateIndexKey 4,
      FileSizeKey \<lparr>fi_chunkSize = 4, fi_chunkIdx = 0\<rparr>, CreatedCountKey 4, UsedCountKey 4, ChunkMetaKey ''a'',
      CreatedSizeKey, ChunkMetaKey ''b'']"
    by code_simp
  have dom: "c = ''a'' \<or> c = ''b''" if "metas example_3 c = Some v" for c v
  proof -
    have "ChunkMetaKey c \<in> set (map fst (cm_kv example_3))"
      using that by (force simp: metas_def dest: map_of_SomeD)
    then show ?thesis unfolding keys by simp
  qed
  have len: "ids_of_length 1 example_3" unfolding ids_of_length_def using dom example_metas by (metis length_Cons list.size(3) One_nat_def option.inject)
  let ?S = "{c. ''a'' \<le> c \<and> c < ''c'' \<and> metas example_3 c \<noteq> None}"
  have S: "?S = set [''a'', ''b'']"
  proof (intro equalityI subsetI)
    fix c assume "c \<in> ?S"
    then show "c \<in> set [''a'', ''b'']" using dom by auto
  next
    fix c assume "c \<in> set [''a'', ''b'']"
    then have "c = ''a'' \<or> c = ''b''" by simp
    then show "c \<in> ?S" using example_metas by auto
  qed
  have "sorted_list_of_set (set [''a'', ''b'']) = [''a'', ''b'']"
    by (rule sorted_list_of_set.idem_if_sorted_distinct) simp_all
  then have l: "sorted_list_of_set ?S = [''a'', ''b'']" unfolding S .
  have "queryChunks \<lparr>cr_begin = ''a'', cr_end = ''c'', cr_max = 5\<rparr> example_3 =
      (Ret (take 5 (map (\<lambda>c. (c, listed example_3 c)) (rev (sorted_list_of_set ?S)))), example_3)"
    using queryChunks_complete [OF inv len, of "\<lparr>cr_begin = ''a'', cr_end = ''c'', cr_max = 5\<rparr>"] by simp
  then show ?thesis unfolding l using example_metas by (simp add: listed_def)
qed

section \<open>The cache\<close>

lemma keeps_sbind_arg:
  assumes "\<And>a. keeps P (A a)" "\<And>a x. keeps P (B a x)"
  shows "keeps P (\<lambda>st. sbind (A st) (B st) st)"
  unfolding keeps_def
proof (intro allI impI)
  fix st assume "P st"
  have "keeps P (sbind (A st) (B st))" by (rule keeps_sbind) (rule assms)+
  then show "P (snd (sbind (A st) (B st) st))" using \<open>P st\<close> by (rule keepsD)
qed

lemma commit_case:
  assumes "P (snd (kv_commit ops st))" "\<And>x st'. P st' \<Longrightarrow> P (snd (h x st'))" "\<And>st'. P st' \<Longrightarrow> P (g st')"
  shows "P (snd (case kv_commit ops st of (Ret x, st') \<Rightarrow> h x st' | (_, st') \<Rightarrow> (e, g st')))"
proof (cases "kv_commit ops st")
  case (Pair r st')
  then show ?thesis using assms by (cases r) auto
qed

text \<open>The operations on metadata and files do not touch the cache.\<close>

definition same_more :: "'a \<Rightarrow> 'a meta_store_scheme \<Rightarrow> bool" where
  "same_more x st \<longleftrightarrow> meta_store.more st = x"

lemma more_reads:
  "keeps (same_more x) (kv_get k)" "keeps (same_more x) (kv_num k)" "keeps (same_more x) (iterateKeysWithPrefix P)"
  by (auto simp: keeps_def same_more_def kv_num_def kv_get_def iterateKeysWithPrefix_def read_fault_def
      split: list.split option.split)

lemma more_getSize: "keeps (same_more x) (getSize k)"
  unfolding getSize_def by (intro keeps_sbind more_reads keeps_basic)

lemma more_commit: "keeps (same_more x) (kv_commit ops)"
  unfolding keeps_def
proof (intro allI impI)
  fix st :: "'a meta_store_scheme" assume "same_more x st"
  then show "same_more x (snd (kv_commit ops st))"
    by (rule_tac ops = ops and st = st in kv_commit_cases) (simp_all add: same_more_def)
qed

lemma more_alloc: "keeps (same_more x) (upd_alloc s f)" "same_more x (set_alloc s a st) = same_more x st"
  by (auto simp: upd_alloc_def same_more_def set_alloc_def intro!: keeps_modify)

lemma more_disk:
  assumes "\<And>st r st'. m st = (r, st') \<Longrightarrow> disk_only st st'"
  shows "keeps (same_more x) (run_result m)"
  unfolding keeps_def
proof (intro allI impI)
  fix st assume "same_more x st"
  moreover obtain r st' where "m st = (r, st')" by fastforce
  ultimately show "same_more x (snd (run_result m st))"
    using assms [of st r st'] by (auto simp: same_more_def run_result_def disk_only_def)
qed

lemma more_files:
  "keeps (same_more x) (run_result (file_allocate fid off n))" "keeps (same_more x) (run_result (file_punchHole fid off))"
  "keeps (same_more x) (run_result (file_open fid))"
  by (rule more_disk, erule file_allocate_state(1), rule more_disk, erule file_punchHole_state(1),
      rule more_disk, unfold file_open_def, erule openInnerFile_state(1))

lemmas more_steps = keeps_sbind keeps_basic more_reads more_getSize more_commit more_alloc(1) more_files

lemma more_load: "keeps (same_more x) (loadAllocateState s)"
proof -
  have "keeps (same_more x) (load_index s)" "keeps (same_more x) (load_start s)" "keeps (same_more x) (load_counts s)"
    unfolding load_index_def load_start_def load_counts_def kv_put_def Let_def
    by (intro more_steps allI | auto split: option.split intro!: more_steps)+
  moreover have "keeps (same_more x) (fix_counts s v)" for v
    unfolding fix_counts_def by (auto intro!: more_steps)
  ultimately have "keeps (same_more x) (sbind (getSize (BareVersionKey s)) (\<lambda>version. sbind (load_index s) (\<lambda>_.
      sbind (load_start s) (\<lambda>_. sbind (fix_counts s version) (\<lambda>_. load_chunks s)))))"
    unfolding load_chunks_def by (intro more_steps)
  then show ?thesis unfolding loadAllocateState_def keeps_def by (auto split: option.split)
qed

lemma more_allocate: "keeps (same_more x) (allocateChunks w s)"
proof -
  have lf: "keeps (same_more x) (load_fileSize s idx)" for idx
    unfolding load_fileSize_def keeps_def
    by (auto split: option.split intro!: keepsD [of "same_more x"] more_steps)
  have "keeps (same_more x) (grow_file s idx n)" for idx n
    unfolding grow_file_def Let_def by (rule keeps_sbind_arg) (auto split: option.split intro!: more_steps)
  then have "keeps (same_more x) (allocate_more s)"
    unfolding allocate_more_def by (auto intro!: keeps_sbind lf)
  then show ?thesis unfolding allocateChunks_def by (rule keeps_finally) (rule more_alloc)
qed

lemma more_commit_recycle: "keeps (same_more x) (commit_recycle s keys oldest)"
  unfolding keeps_def
proof (intro allI impI)
  fix st :: "'a meta_store_scheme" assume "same_more x st"
  then show "same_more x (snd (commit_recycle s keys oldest st))"
    by (rule_tac ops = "recycle_ops s keys (as_recycledCount (alloc_of s st) + length keys)" and st = st in kv_commit_cases)
      (auto simp: commit_recycle_def same_more_def Let_def upd_alloc_def modify_def set_alloc_def)
qed

lemma more_recycle: "keeps (same_more x) (recycleRemovedChunks w s)"
proof -
  have "keeps (same_more x) (recycle_batch s)"
    unfolding recycle_batch_def by (auto intro!: more_steps more_commit_recycle)
  then show ?thesis unfolding recycleRemovedChunks_def by (rule keeps_finally) (rule more_alloc)
qed

lemma more_fields [simp]:
  "same_more x (st\<lparr>cm_jobs := js\<rparr>) = same_more x st" "same_more x (st\<lparr>cm_createdSize := n\<rparr>) = same_more x st"
  "same_more x (st\<lparr>cm_removedSize := n\<rparr>) = same_more x st"
  by (simp_all add: same_more_def)

lemma more_take_position: "keeps (same_more x) (take_position s allow)"
proof -
  have al: "keeps (same_more x) (allocate_if_needed s)"
    unfolding keeps_def allocate_if_needed_def Let_def
    by (auto intro!: keepsD [OF more_allocate] simp: more_alloc)
  show ?thesis
    unfolding keeps_def take_position_def Let_def
    by (auto intro!: keepsD [of "same_more x"] keeps_sbind al simp: more_alloc) (simp add: keeps_def more_alloc)
qed

lemma more_createChunk: "keeps (same_more x) (meta_createChunk now c meta s allow)"
proof -
  have "keeps (same_more x) (recycle_if_needed now s)"
    unfolding keeps_def recycle_if_needed_def Let_def
    by (auto intro!: keepsD [OF more_recycle] simp: more_alloc)
  moreover have "keeps (same_more x) (commit_create c meta s claim)" for claim
    unfolding keeps_def commit_create_def Let_def
    by (cases claim) (auto intro!: commit_case [of "same_more x"] keepsD [OF more_commit] simp: more_alloc)
  ultimately show ?thesis unfolding meta_createChunk_def by (intro keeps_sbind more_load more_take_position)
qed

lemma more_meta_set: "keeps (same_more x) (meta_set c meta)"
  unfolding keeps_def meta_set_def by (auto intro!: commit_case [of "same_more x"] keepsD [OF more_commit])

lemma more_meta_remove: "keeps (same_more x) (meta_remove now c meta)"
proof -
  have "keeps (same_more x) (commit_remove now c meta hole)" for hole
    unfolding keeps_def commit_remove_def Let_def
    by (auto simp del: append.simps intro!: commit_case [of "same_more x"] keepsD [OF more_commit] simp: more_alloc)
  then show ?thesis unfolding meta_remove_def by (auto intro!: more_steps more_load)
qed

subsection \<open>What the store holds\<close>

text \<open>
  The abstract contents of the store: the metadata of each chunk, where the cache has precedence, and
  its bytes. A cached chunk lies where the stored metadata say, and its descriptors are those of its file.
\<close>

definition current ::
  "(chunk_id \<Rightarrow> meta_value option) \<Rightarrow> (chunk_id \<Rightarrow> ChunkInfo option) \<Rightarrow> chunk_id \<Rightarrow> ChunkMetadata option" where
  "current F C c = (case C c of Some info \<Rightarrow> Some (ck_meta info)
    | None \<Rightarrow> (case F c of Some (MetaV m) \<Rightarrow> Some m | _ \<Rightarrow> None))"

definition view_ok :: "ChunkInfo \<Rightarrow> bool" where
  "view_ok info \<longleftrightarrow> ck_view info = Some (md_innerFileId (ck_meta info))"

definition cache_ok :: "(chunk_id \<Rightarrow> meta_value option) \<Rightarrow> (chunk_id \<Rightarrow> ChunkInfo option) \<Rightarrow> bool" where
  "cache_ok F C \<longleftrightarrow> (\<forall>c info. C c = Some info \<longrightarrow>
     view_ok info \<and> (\<exists>m. F c = Some (MetaV m) \<and> same_place m (ck_meta info)))"

definition stored ::
  "(chunk_id \<Rightarrow> meta_value option) \<Rightarrow> (chunk_id \<Rightarrow> ChunkInfo option) \<Rightarrow> (chunk_id \<Rightarrow> bytes) \<Rightarrow> 'a chunk_store_scheme \<Rightarrow> bool" where
  "stored F C D st \<longleftrightarrow> framed F D st \<and> map_of (cs_map st) = C \<and> cache_ok F C"

definition holds ::
  "(chunk_id \<Rightarrow> ChunkMetadata option) \<Rightarrow> (chunk_id \<Rightarrow> bytes) \<Rightarrow> 'a chunk_store_scheme \<Rightarrow> bool" where
  "holds G D st \<longleftrightarrow> (\<exists>F C. stored F C D st \<and> current F C = G)"

lemma holdsI: "stored F C D st \<Longrightarrow> holds (current F C) D st"
  unfolding holds_def by blast

lemma same_place_refl [simp]: "same_place m m"
  by (simp add: same_place_def)

lemma same_place_trans: "same_place a b \<Longrightarrow> same_place b c \<Longrightarrow> same_place a c"
  by (simp add: same_place_def)

text \<open>A chunk of the store has stored metadata at its place.\<close>

lemma current_place:
  assumes "stored F C D st" "current F C c = Some m"
  shows "\<exists>m'. F c = Some (MetaV m') \<and> same_place m' m"
  using assms
  by (fastforce simp: stored_def cache_ok_def current_def split: option.splits meta_value.splits)

lemma stored_bytes:
  assumes "stored F C D st" "current F C c = Some m"
  shows "chunk_bytes st m = D c" "length (D c) = unat (size_of m)"
proof -
  obtain m' where m': "F c = Some (MetaV m')" "same_place m' m" using current_place [OF assms] by blast
  have fr: "framed F D st" using assms(1) by (simp add: stored_def)
  have b: "chunk_bytes st m' = D c" "md_innerOffset m' + unat (size_of m') \<le> length (contents st (md_innerFileId m'))"
    using fr m'(1) live_range [of st c m'] by (simp_all add: framed_def)
  have p: "md_innerFileId m = md_innerFileId m'" "md_innerOffset m = md_innerOffset m'" "size_of m = size_of m'"
    using m'(2) by (simp_all add: same_place_def size_of_def)
  show "chunk_bytes st m = D c" using b(1) p by (simp add: chunk_bytes_def)
  then show "length (D c) = unat (size_of m)" using b(2) p by (simp add: chunk_bytes_def flip: b(1))
qed

lemma cs_map_more: "meta_store.more st' = meta_store.more st \<Longrightarrow> cs_map st' = cs_map st \<and> cs_forcePersist st' = cs_forcePersist st"
  for st st' :: "'a chunk_store_scheme"
  by (cases st; cases st') simp

lemma keeps_cs_map:
  fixes m :: "('a chunk_store_scheme, 'b) action"
  assumes "\<And>x. keeps (same_more x) m" "m st = (r, st')"
  shows "cs_map st' = cs_map st \<and> cs_forcePersist st' = cs_forcePersist st"
  using keepsD [OF assms(1), of "meta_store.more st" st] assms(2) by (intro cs_map_more) (simp add: same_more_def)

lemma stored_step:
  fixes m :: "('a chunk_store_scheme, 'b) action"
  assumes "stored F C D st" "m st = (r, st')" "\<And>x. keeps (same_more x) m" "framed F' D' st'" "cache_ok F' C"
  shows "stored F' C D' st'"
  using assms keeps_cs_map [OF assms(3,2)] by (simp add: stored_def)

lemma framed_cs_map [simp]: "framed F D (st\<lparr>cs_map := x\<rparr>) = framed F D st"
  for st :: "'a chunk_store_scheme"
  by (auto simp: framed_def meta_inv_def metas_def chunk_bytes_def files_long_def contents_def alloc_of_def fun_eq_iff)

lemma stored_put:
  assumes "stored F C D st" "view_ok info" "F c = Some (MetaV m)" "same_place m (ck_meta info)"
  shows "stored F (C(c \<mapsto> info)) D (snd (cache_put c info st))"
  using assms by (auto simp: stored_def cache_put_def modify_def update_conv' cache_ok_def)

lemma current_upd [simp]:
  "current (F(c \<mapsto> MetaV m)) (C(c := None)) = (current F C)(c \<mapsto> m)"
  "current F (C(c \<mapsto> info)) = (current F C)(c \<mapsto> ck_meta info)"
  "current (F(c := x)) (C(c \<mapsto> info)) = (current F C)(c \<mapsto> ck_meta info)"
  "current (F(c := None)) (C(c := None)) = (current F C)(c := None)"
  by (auto simp: current_def fun_eq_iff split: option.split)

lemma file_open_result:
  assumes "file_open fid st = (r, st')"
  shows "r = Inr () \<or> r = Inl (Storage kChunkOpenFailed)" "framed F D st \<Longrightarrow> framed F D st'"
proof -
  show "r = Inr () \<or> r = Inl (Storage kChunkOpenFailed)"
    using assms by (auto simp: file_open_def openInnerFile_def split: prod.splits if_splits)
  note o = openInnerFile_state [OF assms [unfolded file_open_def]]
  show "framed F D st'" if "framed F D st"
    by (rule framed_disk [OF that o(1)]) (simp_all add: o(2) chunk_bytes_def)
qed

lemma meta_get_result:
  assumes "framed F D st" "meta_get c st = (r, st')"
  shows "st' = st" "r = (case F c of None \<Rightarrow> Err (Storage kChunkMetadataNotFound)
    | Some v \<Rightarrow> (case v of MetaV m \<Rightarrow> Ret m | _ \<Rightarrow> Err (Common kDataCorruption)))"
proof -
  have q: "cm_readFaults st = []" "map_of (cm_kv st) (ChunkMetaKey c) = F c"
    using assms(1) by (auto simp: framed_def meta_inv_def metas_def)
  then show "st' = st" "r = (case F c of None \<Rightarrow> Err (Storage kChunkMetadataNotFound)
      | Some v \<Rightarrow> (case v of MetaV m \<Rightarrow> Ret m | _ \<Rightarrow> Err (Common kDataCorruption)))"
    using assms(2) by (auto simp: meta_get_def kv_get_def read_fault_def split: option.splits meta_value.splits)
qed

text \<open>Looking up a chunk returns its metadata and leaves the contents alone.\<close>

lemma store_get_holds:
  assumes h: "holds G D st" and r: "store_get c st = (r, st')"
  shows "holds G D st' \<and> ((\<exists>info. r = Ret info \<and> G c = Some (ck_meta info) \<and> view_ok info) \<or>
    (\<exists>e. r = Err e \<and> (e = Storage kChunkMetadataNotFound \<longrightarrow> G c = None)))"
proof -
  obtain F C where s: "stored F C D st" and G: "current F C = G" using h unfolding holds_def by blast
  have fr: "framed F D st" and C: "map_of (cs_map st) = C" and ok: "cache_ok F C" using s by (simp_all add: stored_def)
  show ?thesis
  proof (cases "C c")
    case (Some info)
    then have "r = Ret info" "st' = st" using r C by (auto simp: store_get_def)
    then show ?thesis using h ok Some G by (auto simp: cache_ok_def current_def)
  next
    case None
    obtain r1 st1 where mg: "meta_get c st = (r1, st1)" by fastforce
    note m = meta_get_result [OF fr mg]
    show ?thesis
    proof (cases "\<exists>m. F c = Some (MetaV m)")
      case False
      then have "st' = st" "\<exists>e. r = Err e \<and> (e = Storage kChunkMetadataNotFound \<longrightarrow> F c = None)"
        using r None C mg m by (auto simp: store_get_def sbind_def split: option.splits meta_value.splits)
      then show ?thesis using h None G by (auto simp: current_def)
    next
      case True
      then obtain m where F: "F c = Some (MetaV m)" by blast
      then have r1: "r1 = Ret m" "st1 = st" using m by simp_all
      obtain r2 st2 where fo: "file_open (md_innerFileId m) st = (r2, st2)" by fastforce
      note f = file_open_result [OF fo]
      have s2: "stored F C D st2"
        by (rule stored_step [OF s, of "run_result (file_open (md_innerFileId m))"])
          (use fo f(2) [OF fr] ok more_files in \<open>simp_all add: run_result_def\<close>)
      let ?info = "\<lparr>ck_meta = m, ck_view = Some (md_innerFileId m)\<rparr>"
      have eq: "store_get c st = (case r2 of Inr _ \<Rightarrow> (Ret ?info, snd (cache_put c ?info st2)) | Inl e \<Rightarrow> (Err e, st2))"
        using None C mg r1 fo
        by (simp add: store_get_def sbind_def run_result_def Let_def cache_put_def modify_def ret_def split: sum.split)
      have s3: "stored F (C(c \<mapsto> ?info)) D (snd (cache_put c ?info st2))"
        by (rule stored_put [OF s2 _ F]) (simp_all add: view_ok_def)
      have Gc: "G c = Some m" "G(c \<mapsto> m) = G" using None F G by (auto simp: current_def)
      show ?thesis
        using r f(1) holdsI [OF s2] holdsI [OF s3] G Gc unfolding eq by (auto simp: view_ok_def)
    qed
  qed
qed

text \<open>Setting the metadata of a chunk at its place.\<close>

lemma store_set_holds:
  assumes h: "holds G D st" and c: "G c = Some m" "same_place m (ck_meta info)" "view_ok info"
    and r: "store_set c info persist st = (r, st')"
  shows "r = Ret () \<and> holds (G(c \<mapsto> ck_meta info)) D st' \<or> (\<exists>e. r = Err e) \<and> holds G D st'"
proof -
  obtain F C where s: "stored F C D st" and G: "current F C = G" using h unfolding holds_def by blast
  have fr: "framed F D st" and ok: "cache_ok F C" using s by (simp_all add: stored_def)
  obtain m0 where m0: "F c = Some (MetaV m0)" "same_place m0 m" using current_place [OF s] G c(1) by blast
  have pl: "same_place m0 (ck_meta info)" using m0(2) c(2) same_place_trans by blast
  obtain r1 st1 where ms: "(if persist \<or> cs_forcePersist st then meta_set c (ck_meta info) else ret ()) st = (r1, st1)"
    by fastforce
  have eq: "store_set c info persist st = sbind (\<lambda>_. (r1, st1)) (\<lambda>_. cache_put c info) st"
    using ms by (simp add: store_set_def sbind_def gets_def)
  have put: "holds (G(c \<mapsto> ck_meta info)) D (snd (cache_put c info st1))" 
    if s1: "stored F' C D st1" and F': "F' = F \<or> F' = F(c \<mapsto> MetaV (ck_meta info))" for F'
  proof -
    obtain m1 where "F' c = Some (MetaV m1)" "same_place m1 (ck_meta info)" using F' m0 pl by auto
    then have "stored F' (C(c \<mapsto> info)) D (snd (cache_put c info st1))" by (rule stored_put [OF s1 c(3)])
    moreover have "current F' (C(c \<mapsto> info)) = G(c \<mapsto> ck_meta info)"
      using F' unfolding G [symmetric] by (elim disjE; hypsubst) (rule current_upd)+
    ultimately show ?thesis unfolding holds_def by blast
  qed
  have "r1 = Ret () \<and> (\<exists>F'. stored F' C D st1 \<and> (F' = F \<or> F' = F(c \<mapsto> MetaV (ck_meta info)))) \<or>
      (\<exists>e. r1 = Err e) \<and> stored F C D st1"
  proof (cases "persist \<or> cs_forcePersist st")
    case False
    then show ?thesis using ms s by (auto simp: ret_def)
  next
    case True
    then have m1: "meta_set c (ck_meta info) st = (r1, st1)" using ms by simp
    have ok': "cache_ok (F(c \<mapsto> MetaV (ck_meta info))) C"
      using ok m0 pl same_place_trans by (fastforce simp: cache_ok_def same_place_def)
    from meta_set_result [OF fr m0(1) _ _ m1] pl
    show ?thesis
      using stored_step [OF s m1 more_meta_set] ok ok' unfolding same_place_def by blast
  qed
  then show ?thesis
    using r put holdsI [of F C D st1] G unfolding eq by (auto simp: sbind_def cache_put_def modify_def)
qed

text \<open>Creating a chunk that is not there; when its file cannot be opened the chunk exists all the same.\<close>

lemma store_createChunk_holds:
  assumes h: "holds G D st" and c: "G c = None"
    and r: "store_createChunk now c s info allow st = (r, st')"
  shows "(\<exists>pos b info'. r = Ret info' \<and> ck_meta info' = place s pos (ck_meta info) \<and> view_ok info' \<and>
      holds (G(c \<mapsto> ck_meta info')) (D(c := b)) st') \<or>
    (\<forall>x. r \<noteq> Ret x) \<and> (holds G D st' \<or> (\<exists>pos b. holds (G(c \<mapsto> place s pos (ck_meta info))) (D(c := b)) st'))"
proof -
  obtain F C where s: "stored F C D st" and G: "current F C = G" using h unfolding holds_def by blast
  have fr: "framed F D st" and ok: "cache_ok F C" using s by (simp_all add: stored_def)
  have Cc: "C c = None" using c G by (auto simp: current_def split: option.splits)
  obtain r1 st1 where mc: "meta_createChunk now c (ck_meta info) s allow st = (r1, st1)" by fastforce
  have step: "stored F' C D' st1" if "framed F' D' st1" "cache_ok F' C" for F' D'
    using stored_step [OF s mc more_createChunk that] .
  from meta_createChunk_result [OF fr mc] show ?thesis
  proof (elim disjE exE conjE)
    fix pos b
    let ?m = "place s pos (ck_meta info)"
    let ?F = "F(c \<mapsto> MetaV ?m)" and ?D = "D(c := b)" and ?info = "\<lparr>ck_meta = ?m, ck_view = Some (md_innerFileId ?m)\<rparr>"
    assume r1: "r1 = Ret ?m" and fr1: "framed ?F ?D st1"
    have ok1: "cache_ok ?F C" using ok Cc by (auto simp: cache_ok_def)
    have s1: "stored ?F C ?D st1" by (rule step [OF fr1 ok1])
    obtain r2 st2 where fo: "file_open (md_innerFileId ?m) st1 = (r2, st2)" by fastforce
    note f = file_open_result [OF fo]
    have s2: "stored ?F C ?D st2"
      by (rule stored_step [OF s1, of "run_result (file_open (md_innerFileId ?m))"])
        (use fo f(2) [OF fr1] ok1 more_files in \<open>simp_all add: run_result_def\<close>)
    have s3: "stored ?F (C(c \<mapsto> ?info)) ?D (snd (cache_put c ?info st2))"
      by (rule stored_put [OF s2, where m = ?m]) (simp_all add: view_ok_def)
    have "C(c := None) = C" using Cc by auto
    then have cur: "current ?F C = G(c \<mapsto> ?m)" using current_upd(1) [of F c ?m C] G by simp
    have cur': "current ?F (C(c \<mapsto> ?info)) = G(c \<mapsto> ?m)" using cur by simp
    have eq: "store_createChunk now c s info allow st =
        (case r2 of Inr _ \<Rightarrow> (Ret ?info, snd (cache_put c ?info st2)) | Inl e \<Rightarrow> (Err e, st2))"
      using mc r1 fo
      by (simp add: store_createChunk_def sbind_def run_result_def Let_def cache_put_def modify_def ret_def split: sum.split)
    have "holds (G(c \<mapsto> ?m)) ?D st2" "holds (G(c \<mapsto> ?m)) ?D (snd (cache_put c ?info st2))"
      using holdsI [OF s2] holdsI [OF s3] unfolding cur cur' by simp_all
    then show ?thesis using r f(1) unfolding eq by (fastforce simp: view_ok_def)
  next
    assume "\<forall>x. r1 \<noteq> Ret x" "framed F D st1"
    then have "(\<forall>x. r \<noteq> Ret x) \<and> st' = st1" "stored F C D st1"
      using r mc step ok by (cases r1; auto simp: store_createChunk_def sbind_def)+
    then show ?thesis using holdsI [of F C D st1] G by auto
  qed
qed

text \<open>Removing a chunk; its bytes may be gone even when that fails.\<close>

lemma store_remove_holds:
  assumes h: "holds G D st" and c: "G c = Some m" "same_place m (ck_meta info)"
    and r: "store_remove now c info st = (r, st')"
  shows "\<exists>b. r = Ret () \<and> holds (G(c := None)) (D(c := b)) st' \<or> (\<forall>x. r \<noteq> Ret x) \<and> holds G (D(c := b)) st'"
proof (cases "readyToRemove (ck_meta info)")
  case False
  then have "\<forall>x. r \<noteq> Ret x" "st' = st" using r by (auto simp: store_remove_def fail_def)
  then show ?thesis using h by (intro exI [of _ "D c"]) simp
next
  case True
  obtain r1 st1 where sg: "store_get c st = (r1, st1)" by fastforce
  have g: "holds G D st1" "(\<exists>i. r1 = Ret i) \<or> (\<exists>e. r1 = Err e)" using store_get_holds [OF h sg] by blast+
  obtain F C where s: "stored F C D st1" and G: "current F C = G" using g(1) unfolding holds_def by blast
  have fr: "framed F D st1" and ok: "cache_ok F C" using s by (simp_all add: stored_def)
  obtain m0 where m0: "F c = Some (MetaV m0)" "same_place m0 m" using current_place [OF s] G c(1) by blast
  have pl: "same_place m0 (ck_meta info)" using m0(2) c(2) same_place_trans by blast
  obtain r2 st2 where mr: "meta_remove now c (ck_meta info) st1 = (r2, st2)" by fastforce
  let ?del = "\<lambda>st. st\<lparr>cs_map := AList.delete c (cs_map st)\<rparr>"
  have eq: "store_remove now c info st = sbind (\<lambda>_. (r1, st1)) (\<lambda>_. sbind (\<lambda>_. (r2, st2)) (\<lambda>_. modify ?del)) st"
    using True sg mr by (simp add: store_remove_def sbind_def split: outcome.split)
  obtain b where b: "r2 = Ret () \<and> framed (F(c := None)) (D(c := b)) st2 \<or> (\<forall>x. r2 \<noteq> Ret x) \<and> framed F (D(c := b)) st2"
    using meta_remove_result [OF fr m0(1) _ _ mr] pl by (auto simp: same_place_def)
  have map2: "map_of (cs_map st2) = C" using keeps_cs_map [OF more_meta_remove mr] s by (simp add: stored_def)
  have gone: "holds (G(c := None)) (D(c := b)) (?del st2)" if "framed (F(c := None)) (D(c := b)) st2"
  proof -
    have "stored (F(c := None)) (C(c := None)) (D(c := b)) (?del st2)"
      using that ok map2 by (auto simp: stored_def cache_ok_def delete_conv' split: if_splits)
    moreover have "current (F(c := None)) (C(c := None)) = G(c := None)"
      unfolding G [symmetric] by (rule current_upd)
    ultimately show ?thesis unfolding holds_def by blast
  qed
  have kept: "holds G (D(c := b)) st2" if "framed F (D(c := b)) st2"
    using that ok map2 G unfolding holds_def stored_def by blast
  show ?thesis
    using r g b gone kept unfolding eq
    by (cases r1; cases r2) (auto simp: sbind_def modify_def intro: exI [of _ "D c"])
qed

text \<open>Writing bytes of a chunk.\<close>

lemma view_write_holds:
  assumes h: "holds G D st" and c: "G c = Some m" and slot: "same_place m meta" and fid: "fid = md_innerFileId meta"
    and r: "view_write fid data off meta st = (res, st')"
  shows "res = Inl (Common kInvalidArg) \<and> st' = st \<and> unat (size_of m) < off + length data \<or>
    res = Inr (length data) \<and> off + length data \<le> unat (size_of m) \<and> holds G (D(c := overwrite off data (D c))) st' \<or>
    res = Inl (Storage kChunkWriteFailed) \<and> (\<exists>b. holds G (D(c := b)) st')"
proof -
  obtain F C where s: "stored F C D st" and G: "current F C = G" using h unfolding holds_def by blast
  have fr: "framed F D st" using s by (simp add: stored_def)
  obtain m0 where m0: "F c = Some (MetaV m0)" "same_place m0 m" using current_place [OF s] G c(1) by blast
  have pl: "md_innerFileId meta = md_innerFileId m0" "md_innerOffset meta = md_innerOffset m0" "size_of m = size_of m0"
    using m0(2) slot by (simp_all add: same_place_def size_of_def)
  have wr: "disk_only st st'" if w: "written f o' d st st'" for f o' d
  proof -
    obtain fs q where st': "st' = st\<lparr>dk_files := fs, dk_writes := q\<rparr>" using w unfolding written_def by blast
    have "disk_only st (st\<lparr>dk_files := fs\<rparr>)" "disk_only (st\<lparr>dk_files := fs\<rparr>) (st\<lparr>dk_files := fs, dk_writes := q\<rparr>)" by simp_all
    then show ?thesis unfolding st' by (rule disk_only_trans)
  qed
  have "disk_only st st'"
  proof (cases "unat (fi_chunkSize (md_innerFileId meta)) < length data + off")
    case False
    then have "write_loop fid data (off + md_innerOffset meta) 0 (mk_retry 100 5000 30000) st = (res, st')"
      using r by (simp add: view_write_def)
    from write_loop_result [OF this] show ?thesis using wr by blast
  qed (use r in \<open>simp add: view_write_def\<close>)
  then have "cs_map st' = cs_map st" by (auto simp: disk_only_def)
  then have up: "holds G D' st'" if "framed F D' st'" for D'
    using that s G unfolding holds_def stored_def by metis
  from view_write_frames [OF fr m0(1) pl(1,2), of data off res st'] r fid pl
  show ?thesis by (auto intro: up)
qed

end
