(* ===== verification/Chunk_Replica.thy ===== *)
theory Chunk_Replica
  imports Chunk_Store "HOL-Library.Code_Target_Nat"
begin

text \<open>
  The updates of one replica of a chunk (\<^verbatim>\<open>src/src/storage/store/ChunkReplica.cc\<close>): writes, truncations,
  extensions and removals with their versions and checksums, commits, the two halves of a read, and the reset of
  uncommitted chunks after a restart. The lemmas say what a successful update makes of the contents of a chunk,
  its versions and its checksum, and that a failed one leaves the chunk as it was or marks it dirty.

  The state extends the store of chunks by the result of the job that is executed and by what an asynchronous
  read gets. The bytes of a write are those at \<^verbatim>\<open>state.data\<close>. The build is a release one: DFATAL logs do not
  abort and the error injected by \<^verbatim>\<open>doRealWrite\<close> for tests is not compiled in. A job runs as one step, under the
  lock of its chunk.
\<close>

unbundle bit_operations_syntax

section \<open>Jobs\<close>

datatype UpdateType = UT_INVALID | UT_WRITE | UT_REMOVE | UT_TRUNCATE | UT_EXTEND | UT_COMMIT

record UpdateIO =
  uio_offset :: "32 word"
  uio_length :: "32 word"
  uio_chunkSize :: "32 word"
  uio_chunkId :: chunk_id
  uio_chainVer :: "32 word"
  uio_updateVer :: "32 word"
  uio_updateType :: UpdateType
  uio_checksum :: ChecksumInfo

definition isWrite :: "UpdateIO \<Rightarrow> bool" where "isWrite io \<longleftrightarrow> uio_updateType io = UT_WRITE"
definition isTruncate :: "UpdateIO \<Rightarrow> bool" where "isTruncate io \<longleftrightarrow> uio_updateType io = UT_TRUNCATE"
definition isRemove :: "UpdateIO \<Rightarrow> bool" where "isRemove io \<longleftrightarrow> uio_updateType io = UT_REMOVE"
definition isExtend :: "UpdateIO \<Rightarrow> bool" where "isExtend io \<longleftrightarrow> uio_updateType io = UT_EXTEND"

record CommitIO =
  cio_chunkId :: chunk_id
  cio_commitVer :: "32 word"
  cio_commitChainVer :: "32 word"
  cio_isRemove :: bool
  cio_isForce :: bool

record UpdateOptions =
  uo_isSyncing :: bool
  uo_commitChainVer :: "32 word"

record IOResult =
  io_lengthInfo :: "(32 word) result"
  io_commitVer :: "32 word"
  io_updateVer :: "32 word"
  io_checksum :: ChecksumInfo
  io_commitChainVer :: "32 word"

record UpdateJob =
  uj_type :: UpdateType
  uj_updateIO :: UpdateIO
  uj_commitIO :: CommitIO
  uj_options :: UpdateOptions
  uj_data :: bytes
  uj_allowToAllocate :: bool
  uj_requestId :: "64 word"
  uj_clientUuid :: string

definition job_commitChainVer :: "UpdateJob \<Rightarrow> 32 word" where
  "job_commitChainVer job =
    (if uo_isSyncing (uj_options job) then uo_commitChainVer (uj_options job)
     else if uj_type job = UT_COMMIT then cio_commitChainVer (uj_commitIO job)
     else uio_chainVer (uj_updateIO job))"

definition job_data :: "UpdateJob \<Rightarrow> bytes" where
  "job_data job = take (unat (uio_length (uj_updateIO job))) (uj_data job)"

text \<open>What an asynchronous read gets: the file, the aligned range and the length and checksum of the chunk.\<close>

record ReadState =
  rs_chunkLen :: "32 word"
  rs_chunkChecksum :: ChecksumInfo
  rs_readLength :: "32 word"
  rs_readFile :: "ChunkFileId option"
  rs_readOffset :: nat

record replica = chunk_store +
  rp_result :: IOResult
  rp_read :: ReadState

definition set_result :: "(IOResult \<Rightarrow> IOResult) \<Rightarrow> ('a replica_scheme, unit) action" where
  "set_result f = modify (\<lambda>st. st\<lparr>rp_result := f (rp_result st)\<rparr>)"

section \<open>Updates\<close>

text \<open>The range of an update; the sum is one of 32 bits.\<close>

definition range_exceeds :: "UpdateIO \<Rightarrow> bool" where
  "range_exceeds io \<longleftrightarrow> \<not> isRemove io \<and>
    (uio_chunkSize io \<le> uio_offset io \<or> uio_chunkSize io < uio_offset io + uio_length io)"

text \<open>
  The chunk to update and whether it has to be created. None is the removal of a chunk that is not there,
  which is done.
\<close>

definition new_chunk :: "UpdateJob \<Rightarrow> ChunkInfo" where
  "new_chunk job = \<lparr>ck_meta = default_ChunkMetadata\<lparr>md_chainVer := job_commitChainVer job, md_chunkState := CLEAN,
     md_innerFileId := \<lparr>fi_chunkSize = uio_chunkSize (uj_updateIO job), fi_chunkIdx = 0\<rparr>\<rparr>, ck_view = None\<rparr>"

definition update_get :: "UpdateJob \<Rightarrow> ('a replica_scheme, (ChunkInfo \<times> bool) option) action" where
  "update_get job st = (let io = uj_updateIO job in case store_get (uio_chunkId io) st of
      (Ret info, st') \<Rightarrow> (Ret (Some (info, False)), st')
    | (Err e, st') \<Rightarrow>
        if e = Storage kChunkMetadataNotFound then
          if isRemove io then
            (Ret None, snd (set_result (\<lambda>r. r\<lparr>io_commitVer := uio_updateVer io, io_updateVer := uio_updateVer io,
               io_commitChainVer := job_commitChainVer job\<rparr>) st'))
          else (Ret (Some (new_chunk job, True)), st')
        else (Err e, st')
    | (Crash, st') \<Rightarrow> (Crash, st')
    | (Pending, st') \<Rightarrow> (Pending, st'))"

definition check_chunk :: "checksum_lib \<Rightarrow> UpdateJob \<Rightarrow> ChunkMetadata \<Rightarrow> unit result" where
  "check_chunk lib job meta =
    (let io = uj_updateIO job;
         chunkSize = (if isRemove io then size_of meta else uio_chunkSize io) in
     if size_of meta \<noteq> chunkSize then Inl (Storage kChunkSizeMismatch)
     else if md_chunkState meta = DIRTY \<and> \<not> uo_isSyncing (uj_options job) then Inl (Storage kChunkNotClean)
     else if job_commitChainVer job < md_chainVer meta \<and> md_chunkState meta = COMMIT
       then Inl (Storage kChainVersionMismatch)
     else if cs_type (uio_checksum io) \<noteq> NONE \<and> uio_length io \<noteq> 0 \<and>
         checksum_bytes lib (cs_type (uio_checksum io)) (job_data job) \<noteq> uio_checksum io
       then Inl (Storage kChecksumMismatch)
     else Inr ())"

text \<open>The version protocol.\<close>

definition next_version :: "UpdateJob \<Rightarrow> ChunkMetadata \<Rightarrow> ChunkMetadata result" where
  "next_version job meta =
    (let v = uio_updateVer (uj_updateIO job) in
     if uo_isSyncing (uj_options job)
       then Inr (meta\<lparr>md_updateVer := v, md_commitVer := v - 1, md_recycleState := NORMAL\<rparr>)
     else if 0 < v then
       if v \<le> md_commitVer meta then Inl (Storage kChunkCommittedUpdate)
       else if v \<le> md_updateVer meta then Inl (Storage kChunkStaleUpdate)
       else if md_updateVer meta + 1 < v then Inl (Storage kChunkMissingUpdate)
       else Inr (meta\<lparr>md_updateVer := v\<rparr>)
     else if md_commitVer meta + 1 < md_updateVer meta + 1 then Inl (Storage kChunkAdvanceUpdate)
     else Inr (meta\<lparr>md_updateVer := md_updateVer meta + 1\<rparr>))"

definition stamp :: "UpdateJob \<Rightarrow> int \<Rightarrow> ChunkMetadata \<Rightarrow> ChunkMetadata" where
  "stamp job now meta = meta\<lparr>md_lastRequestId := uj_requestId job, md_lastClientUuid := uj_clientUuid job,
     md_timestamp := now\<rparr>"

text \<open>Writing bytes through the descriptors of a chunk; a chunk without them is never written.\<close>

definition info_write :: "ChunkInfo \<Rightarrow> bytes \<Rightarrow> 32 word \<Rightarrow> ('a replica_scheme, 32 word) action" where
  "info_write info data off = (case ck_view info of
      None \<Rightarrow> crash
    | Some fid \<Rightarrow> sbind (run_result (view_write fid data (unat off) (ck_meta info))) (\<lambda>n. ret (of_nat n)))"

definition doRealWrite :: "ChunkInfo \<Rightarrow> bytes \<Rightarrow> 32 word \<Rightarrow> ('a replica_scheme, 32 word \<times> ChunkMetadata) action" where
  "doRealWrite info data off =
    sbind (info_write info data off) (\<lambda>n.
    ret (n, (ck_meta info)\<lparr>md_size := max (md_size (ck_meta info)) (off + n)\<rparr>))"

definition zeros :: "32 word \<Rightarrow> bytes" where
  "zeros n = replicate (unat n) 0"

text \<open>The third phase: the bytes are changed; the result and the new metadata.\<close>

definition write_phase :: "UpdateJob \<Rightarrow> ChunkInfo \<Rightarrow> ('a replica_scheme, 32 word \<times> ChunkMetadata) action" where
  "write_phase job info =
    (let io = uj_updateIO job; meta = ck_meta info in
     if isTruncate io \<or> isExtend io then
       if uio_length io \<le> md_size meta then
         if isTruncate io then ret (uio_length io, meta\<lparr>md_size := uio_length io\<rparr>)
         else ret (md_size meta, meta)
       else sbind (doRealWrite info (zeros (uio_length io - md_size meta)) (md_size meta)) (\<lambda>(_, meta').
         ret (md_size meta', meta'))
     else if isRemove io then
       ret (0, if readyToRemove meta then meta else meta\<lparr>md_recycleState := REMOVAL_IN_PROGRESS\<rparr>)
     else
       sbind (if md_size meta < uio_offset io
         then info_write info (zeros (uio_offset io - md_size meta)) (md_size meta) else ret 0) (\<lambda>_.
       sbind (doRealWrite info (job_data job) (uio_offset io)) (\<lambda>(n, meta').
       ret (n, if uo_isSyncing (uj_options job) then meta'\<lparr>md_size := uio_length io\<rparr> else meta'))))"

definition info_checksum ::
  "checksum_lib \<Rightarrow> ChunkInfo \<Rightarrow> ChecksumType \<Rightarrow> 32 word \<Rightarrow> 32 word \<Rightarrow> ('a replica_scheme, ChecksumInfo) action" where
  "info_checksum lib info t len off = (case ck_view info of
      None \<Rightarrow> crash
    | Some fid \<Rightarrow> run_result (view_checksum lib fid t (unat len) (unat off) (ck_meta info)))"

definition set_checksum :: "ChecksumType \<Rightarrow> 32 word \<Rightarrow> ChunkMetadata \<Rightarrow> ChunkMetadata" where
  "set_checksum t v meta = meta\<lparr>md_checksumType := t, md_checksumValue := v\<rparr>"

text \<open>The checksum of a chunk whose prefix and suffix have to be read.\<close>

definition read_checksum ::
  "checksum_lib \<Rightarrow> ChunkInfo \<Rightarrow> ChecksumInfo \<Rightarrow> 32 word \<Rightarrow> 32 word \<Rightarrow> ('a replica_scheme, ChunkMetadata) action" where
  "read_checksum lib info cs off len =
    (let meta = ck_meta info; t = cs_type cs;
         suffixStart = min (off + len) (md_size meta); suffixLength = md_size meta - suffixStart in
     sbind (info_checksum lib info t off 0) (\<lambda>p.
     sbind (info_checksum lib info t suffixLength suffixStart) (\<lambda>s.
     ret (set_checksum t (cs_value (snd (combine lib (snd (combine lib p cs (unat len))) s (unat suffixLength)))) meta))))"

definition updateChecksum ::
  "checksum_lib \<Rightarrow> ChunkInfo \<Rightarrow> UpdateIO \<Rightarrow> 32 word \<Rightarrow> bool \<Rightarrow> ('a replica_scheme, ChunkMetadata) action" where
  "updateChecksum lib info io sizeBefore isAppendWrite =
    (let meta = ck_meta info;
         chunkChecksum = meta_checksum meta;
         combineChecksum = (0 < sizeBefore \<and> isAppendWrite);
         resize = (isTruncate io \<or> isExtend io);
         cs = (if resize then checksum_bytes lib (md_checksumType meta) [] else uio_checksum io);
         off = (if resize then md_size meta else uio_offset io);
         len = (if resize then 0 else uio_length io) in
     if cs_type cs = NONE \<or> md_size meta = 0 then ret (set_checksum (cs_type cs) 0 meta)
     else if off = 0 \<and> len = md_size meta then ret (set_checksum (cs_type cs) (cs_value cs) meta)
     else if cs_type cs = cs_type chunkChecksum \<and> combineChecksum then
       (case combine lib chunkChecksum cs (unat len) of
          (Inl e, _) \<Rightarrow> fail e
        | (Inr _, c) \<Rightarrow> ret (set_checksum (cs_type cs) (cs_value c) meta))
     else read_checksum lib info cs off len)"

text \<open>The last phases: the chunk is marked dirty, changed and marked clean.\<close>

definition begin_update ::
  "UpdateJob \<Rightarrow> int \<Rightarrow> ChunkInfo \<Rightarrow> bool \<Rightarrow> bool \<Rightarrow> ('a replica_scheme, ChunkInfo) action" where
  "begin_update job now info create skipPersist =
    (let io = uj_updateIO job in
     if create then store_createChunk now (uio_chunkId io) (uio_chunkSize io) info (uj_allowToAllocate job)
     else sbind (store_set (uio_chunkId io) info (\<not> skipPersist)) (\<lambda>_. ret info))"

definition finish_update ::
  "checksum_lib \<Rightarrow> UpdateJob \<Rightarrow> ChunkInfo \<Rightarrow> bool \<Rightarrow> bool \<Rightarrow> ('a replica_scheme, 32 word) action" where
  "finish_update lib job info isAppendWrite skipPersist =
    sbind (write_phase job info) (\<lambda>(n, meta).
    sbind (updateChecksum lib (info\<lparr>ck_meta := meta\<rparr>) (uj_updateIO job) (md_size (ck_meta info)) isAppendWrite) (\<lambda>meta'.
    let meta'' = meta'\<lparr>md_chunkState := CLEAN\<rparr> in
    sbind (store_set (uio_chunkId (uj_updateIO job)) (info\<lparr>ck_meta := meta''\<rparr>) (\<not> skipPersist)) (\<lambda>_.
    sbind (set_result (\<lambda>r. r\<lparr>io_checksum := meta_checksum meta'', io_commitVer := md_commitVer meta'',
      io_commitChainVer := md_chainVer meta''\<rparr>)) (\<lambda>_.
    ret n))))"

definition update_chunk ::
  "checksum_lib \<Rightarrow> UpdateJob \<Rightarrow> int \<Rightarrow> ChunkInfo \<Rightarrow> bool \<Rightarrow> ('a replica_scheme, 32 word) action" where
  "update_chunk lib job now info create =
    (let io = uj_updateIO job; meta = ck_meta info in
     sbind (set_result (\<lambda>r. r\<lparr>io_commitVer := md_commitVer meta, io_updateVer := md_updateVer meta,
       io_checksum := meta_checksum meta, io_commitChainVer := md_chainVer meta\<rparr>)) (\<lambda>_.
     sbind (try_result (check_chunk lib job meta)) (\<lambda>_.
     sbind (try_result (next_version job meta)) (\<lambda>meta1.
     let meta2 = stamp job now (meta1\<lparr>md_chunkState := DIRTY, md_chainVer := job_commitChainVer job\<rparr>);
         isAppendWrite = (uio_offset io = md_size meta2);
         skipPersist = (isWrite io \<and> isAppendWrite \<or> isTruncate io \<or> isExtend io) in
     sbind (begin_update job now (info\<lparr>ck_meta := meta2\<rparr>) create skipPersist) (\<lambda>info'.
     sbind (set_result (\<lambda>r. r\<lparr>io_commitChainVer := md_chainVer meta2, io_updateVer := md_updateVer meta2\<rparr>)) (\<lambda>_.
     finish_update lib job info' isAppendWrite skipPersist))))))"

definition update :: "checksum_lib \<Rightarrow> UpdateJob \<Rightarrow> int \<Rightarrow> ('a replica_scheme, 32 word) action" where
  "update lib job now =
    (if range_exceeds (uj_updateIO job) then fail (Common kInvalidArg)
     else sbind (update_get job) (\<lambda>got. case got of
         None \<Rightarrow> ret 0
       | Some (info, create) \<Rightarrow> update_chunk lib job now info create))"

section \<open>Commits\<close>

definition commit_meta :: "UpdateJob \<Rightarrow> int \<Rightarrow> ChunkMetadata \<Rightarrow> ChunkMetadata result" where
  "commit_meta job now meta =
    (let io = uj_commitIO job in
     if job_commitChainVer job < md_chainVer meta then Inl (Storage kChainVersionMismatch)
     else if md_updateVer meta < cio_commitVer io then Inl (Storage kChunkVersionMismatch)
     else if \<not> cio_isForce io \<and> md_chunkState meta = DIRTY then Inl (Storage kChunkNotClean)
     else if \<not> cio_isForce io \<and> cio_commitVer io \<le> md_commitVer meta then Inl (Storage kChunkStaleCommit)
     else
       let meta1 = (if cio_isForce io then meta\<lparr>md_chunkState := CLEAN, md_commitVer := cio_commitVer io\<rparr>
             else meta\<lparr>md_commitVer := cio_commitVer io\<rparr>);
           meta2 = (if md_commitVer meta1 = md_updateVer meta1
             then meta1\<lparr>md_chunkState := COMMIT, md_chainVer := job_commitChainVer job\<rparr> else meta1)
       in Inr (stamp job now meta2))"

definition commit :: "UpdateJob \<Rightarrow> int \<Rightarrow> ('a replica_scheme, 32 word) action" where
  "commit job now st = (let io = uj_commitIO job; c = cio_chunkId io in case store_get c st of
      (Ret info, st') \<Rightarrow>
        (let meta = ck_meta info in
         sbind (set_result (\<lambda>r. r\<lparr>io_commitVer := md_commitVer meta, io_updateVer := md_updateVer meta,
           io_commitChainVer := md_chainVer meta\<rparr>)) (\<lambda>_.
         sbind (try_result (commit_meta job now meta)) (\<lambda>meta'.
         sbind (if readyToRemove meta' then store_remove now c (info\<lparr>ck_meta := meta'\<rparr>)
           else store_set c (info\<lparr>ck_meta := meta'\<rparr>) True) (\<lambda>_.
         sbind (set_result (\<lambda>r. r\<lparr>io_commitVer := md_commitVer meta', io_commitChainVer := md_chainVer meta'\<rparr>)) (\<lambda>_.
         ret 0)))) st')
    | (Err e, st') \<Rightarrow>
        if cio_isRemove io \<and> e = Storage kChunkMetadataNotFound then
          (Ret 0, snd (set_result (\<lambda>r. r\<lparr>io_commitVer := cio_commitVer io, io_updateVer := cio_commitVer io,
            io_commitChainVer := cio_commitChainVer io\<rparr>) st'))
        else (Err e, st')
    | (Crash, st') \<Rightarrow> (Crash, st')
    | (Pending, st') \<Rightarrow> (Pending, st'))"

definition default_IOResult :: IOResult where
  "default_IOResult = \<lparr>io_lengthInfo = Inl (StorageClient kNotInitialized), io_commitVer = 0, io_updateVer = 0,
     io_checksum = no_checksum, io_commitChainVer = 0\<rparr>"

text \<open>The dispatch of a target that has no chunk engine; the job gets the value or the error.\<close>

definition updateChunk :: "checksum_lib \<Rightarrow> UpdateJob \<Rightarrow> int \<Rightarrow> ('a replica_scheme, unit) action" where
  "updateChunk lib job now st =
    (case (if uj_type job = UT_COMMIT then commit job now st else update lib job now st) of
       (Ret n, st') \<Rightarrow> set_result (\<lambda>r. r\<lparr>io_lengthInfo := Inr n\<rparr>) st'
     | (Err e, st') \<Rightarrow> set_result (\<lambda>r. r\<lparr>io_lengthInfo := Inl e\<rparr>) st'
     | (Crash, st') \<Rightarrow> (Crash, st')
     | (Pending, st') \<Rightarrow> (Pending, st'))"

text \<open>Each uncommitted chunk is committed by force at its last version; failures are skipped.\<close>

definition Uuid_max :: string where
  "Uuid_max = replicate 16 (CHR 0xFF)"

definition reset_job :: "chunk_id \<Rightarrow> 32 word \<Rightarrow> 32 word \<Rightarrow> UpdateJob" where
  "reset_job c ver chainVer = \<lparr>uj_type = UT_COMMIT,
     uj_updateIO = \<lparr>uio_offset = 0, uio_length = 0, uio_chunkSize = 0, uio_chunkId = [], uio_chainVer = 0, uio_updateVer = 0,
       uio_updateType = UT_INVALID, uio_checksum = no_checksum\<rparr>,
     uj_commitIO = \<lparr>cio_chunkId = c, cio_commitVer = ver, cio_commitChainVer = chainVer, cio_isRemove = False, cio_isForce = True\<rparr>,
     uj_options = \<lparr>uo_isSyncing = False, uo_commitChainVer = 0\<rparr>, uj_data = [], uj_allowToAllocate = True,
     uj_requestId = 0, uj_clientUuid = Uuid_max\<rparr>"

fun reset_chunks :: "32 word \<Rightarrow> int \<Rightarrow> chunk_id list \<Rightarrow> 'a replica_scheme \<Rightarrow> 'a replica_scheme" where
  "reset_chunks chainVer now [] st = st"
| "reset_chunks chainVer now (c # cs) st = reset_chunks chainVer now cs
    (case store_get c st of
       (Ret info, st') \<Rightarrow>
         snd (commit (reset_job c (md_updateVer (ck_meta info)) chainVer) now (st'\<lparr>rp_result := default_IOResult\<rparr>))
     | (_, st') \<Rightarrow> st')"

definition resetUncommitted :: "32 word \<Rightarrow> int \<Rightarrow> 'a replica_scheme \<Rightarrow> 'a replica_scheme" where
  "resetUncommitted chainVer now st =
    (reset_chunks chainVer now (cm_uncommitted st) st)\<lparr>cm_uncommitted := []\<rparr>"

section \<open>Reads\<close>

record ReadJob =
  rj_chunkId :: chunk_id
  rj_offset :: "32 word"
  rj_length :: "32 word"
  rj_headLength :: "32 word"
  rj_tailLength :: "32 word"
  rj_readUncommitted :: bool

definition alignedOffset :: "ReadJob \<Rightarrow> 32 word" where
  "alignedOffset job = rj_offset job - rj_headLength job"

definition alignedLength :: "ReadJob \<Rightarrow> 32 word" where
  "alignedLength job = rj_length job + rj_headLength job + rj_tailLength job"

definition set_read :: "(ReadState \<Rightarrow> ReadState) \<Rightarrow> ('a replica_scheme, unit) action" where
  "set_read f = modify (\<lambda>st. st\<lparr>rp_read := f (rp_read st)\<rparr>)"

definition aioPrepareRead :: "ReadJob \<Rightarrow> ('a replica_scheme, unit) action" where
  "aioPrepareRead job =
    sbind (store_get (rj_chunkId job)) (\<lambda>info.
    let meta = ck_meta info in
    sbind (set_result (\<lambda>r. r\<lparr>io_commitVer := md_commitVer meta, io_updateVer := md_updateVer meta,
      io_commitChainVer := md_chainVer meta\<rparr>)) (\<lambda>_.
    sbind (set_read (\<lambda>s. s\<lparr>rs_chunkLen := md_size meta, rs_chunkChecksum := meta_checksum meta\<rparr>)) (\<lambda>_.
    if md_commitVer meta \<noteq> md_updateVer meta \<and> \<not> rj_readUncommitted job then fail (Storage kChunkNotCommit)
    else set_read (\<lambda>s. s\<lparr>rs_readLength := alignedLength job, rs_readFile := ck_view info,
      rs_readOffset := md_innerOffset meta + unat (alignedOffset job)\<rparr>))))"

definition aioFinishRead :: "ReadJob \<Rightarrow> ('a replica_scheme, unit) action" where
  "aioFinishRead job =
    sbind (store_get (rj_chunkId job)) (\<lambda>info st.
    if io_updateVer (rp_result st) \<noteq> md_updateVer (ck_meta info) then (Err (Storage kChunkNotCommit), st) else (Ret (), st))"

section \<open>The store under a job\<close>

lemma framed_job [simp]:
  "framed F D (st\<lparr>rp_result := x\<rparr>) = framed F D st" "framed F D (st\<lparr>rp_read := y\<rparr>) = framed F D st"
  for st :: "'a replica_scheme"
  by (auto simp: framed_def meta_inv_def metas_def chunk_bytes_def files_long_def contents_def alloc_of_def fun_eq_iff)

lemma holds_job [simp]:
  "holds G D (st\<lparr>rp_result := x\<rparr>) = holds G D st" "holds G D (st\<lparr>rp_read := y\<rparr>) = holds G D st"
  for st :: "'a replica_scheme"
  by (simp_all add: holds_def stored_def)

lemma set_result_holds: "set_result f st = (r, st') \<Longrightarrow> r = Ret () \<and> holds G D st' = holds G D st"
  by (auto simp: set_result_def modify_def)

lemma holds_length:
  assumes "holds G D st" "G c = Some m"
  shows "length (D c) = unat (size_of m)"
  using assms stored_bytes(2) unfolding holds_def by blast

lemma holds_disk:
  assumes "holds G D st" "st' = st\<lparr>dk_reads := q\<rparr>"
  shows "holds G D st'"
proof -
  obtain F C where s: "stored F C D st" "current F C = G" using assms(1) unfolding holds_def by blast
  have "framed F D st'"
    by (rule framed_disk [of _ _ st]) (use s assms(2) in \<open>simp_all add: stored_def contents_def chunk_bytes_def\<close>)
  then show ?thesis using s assms(2) unfolding holds_def stored_def by auto
qed

lemma stored_range:
  assumes "stored F C D st" "current F C c = Some m"
  shows "md_innerOffset m + unat (size_of m) \<le> length (contents st (md_innerFileId m))"
proof -
  obtain m' where m': "F c = Some (MetaV m')" "same_place m' m" using current_place [OF assms] by blast
  then show ?thesis
    using assms(1) live_range [of st c m'] by (auto simp: stored_def framed_def same_place_def size_of_def)
qed

text \<open>Bytes written through the descriptors of a chunk.\<close>

lemma info_write_holds:
  assumes h: "holds G D st" and c: "G c = Some m" "same_place m (ck_meta info)" "view_ok info"
    and r: "info_write info data off st = (r, st')"
  shows "r = Ret (of_nat (length data)) \<and> unat off + length data \<le> unat (size_of m) \<and>
      holds G (D(c := overwrite (unat off) data (D c))) st' \<or>
    (\<exists>e. r = Err e) \<and> (\<exists>b. holds G (D(c := b)) st')"
proof -
  obtain w st1 where w: "view_write (md_innerFileId (ck_meta info)) data (unat off) (ck_meta info) st = (w, st1)"
    by fastforce
  have eq: "info_write info data off st = (map_outcome of_nat (of_result w), st1)"
    using c(3) w by (cases w) (simp_all add: info_write_def view_ok_def sbind_def run_result_def ret_def)
  have "\<exists>b. holds G (D(c := b)) st" using h by (intro exI [of _ "D c"]) simp
  then show ?thesis using r view_write_holds [OF h c(1,2) refl w] unfolding eq by auto
qed

text \<open>The checksum of a range of a chunk.\<close>

lemma info_checksum_holds:
  assumes lib: "checksum_lib_ok lib" "t \<noteq> NONE" and h: "holds G D st"
    and c: "G c = Some m" "same_place m (ck_meta info)" "view_ok info"
    and r: "info_checksum lib info t len off st = (r, st')"
  shows "holds G D st'" "(\<exists>e. r = Err e) \<or>
    unat off + unat len \<le> unat (size_of m) \<and> r = Ret (checksum_of lib t (piece (unat off) (unat len) (D c)))"
proof -
  let ?meta = "ck_meta info" and ?fid = "md_innerFileId (ck_meta info)"
  obtain w st1 where w: "view_checksum lib ?fid t (unat len) (unat off) ?meta st = (w, st1)" by fastforce
  have eq: "info_checksum lib info t len off st = (of_result w, st1)"
    using c(3) w by (simp add: info_checksum_def view_ok_def run_result_def)
  obtain F C where s: "stored F C D st" "current F C = G" using h unfolding holds_def by blast
  have pl: "?fid = md_innerFileId m" "md_innerOffset ?meta = md_innerOffset m" "fi_chunkSize ?fid = size_of m"
    using c(2) by (simp_all add: same_place_def size_of_def)
  have fit: "md_innerOffset m + unat (size_of m) \<le> length (contents st ?fid)"
    using stored_range [OF s(1), of c m] s(2) c(1) pl(1) by simp
  have b: "D c = piece (md_innerOffset m) (unat (size_of m)) (contents st ?fid)"
    using stored_bytes(1) [OF s(1), of c m] s(2) c(1) pl(1) by (simp add: chunk_bytes_def)
  have "holds G D st1 \<and> ((\<exists>e. w = Inl e) \<or>
    unat off + unat len \<le> unat (size_of m) \<and> w = Inr (checksum_of lib t (piece (unat off) (unat len) (D c))))"
  proof (cases "unat off + unat len \<le> unat (size_of m)")
    case True
    then have "piece (md_innerOffset m + unat off) (unat len) (contents st ?fid) = piece (unat off) (unat len) (D c)"
      unfolding b by (simp add: piece_def drop_take add.commute)
    then show ?thesis
      using view_checksum_result [OF lib, of "unat off" "unat len" ?meta st ?fid w st1] True fit pl w holds_disk [OF h] by auto
  next
    case False
    then show ?thesis using w h pl(3) by (auto simp: view_checksum_def)
  qed
  then show "holds G D st'" "(\<exists>e. r = Err e) \<or>
    unat off + unat len \<le> unat (size_of m) \<and> r = Ret (checksum_of lib t (piece (unat off) (unat len) (D c)))"
    using r unfolding eq by auto
qed

section \<open>What an update makes of the contents\<close>

definition content :: "ChunkMetadata \<Rightarrow> bytes \<Rightarrow> bytes" where
  "content m b = take (unat (md_size m)) b"

definition padded :: "nat \<Rightarrow> bytes \<Rightarrow> bytes" where
  "padded n b = b @ replicate (n - length b) 0"

definition new_content :: "UpdateJob \<Rightarrow> bytes \<Rightarrow> bytes" where
  "new_content job old =
    (let io = uj_updateIO job; len = unat (uio_length io); off = unat (uio_offset io) in
     if isTruncate io then take len (padded len old)
     else if isExtend io then padded len old
     else if isRemove io then old
     else let new = overwrite off (job_data job) (padded off old)
       in if uo_isSyncing (uj_options job) then take len new else new)"

definition resizes :: "UpdateIO \<Rightarrow> bool" where
  "resizes io \<longleftrightarrow> isTruncate io \<or> isExtend io"

lemma type_cases [simp]:
  "isTruncate io \<Longrightarrow> \<not> isRemove io" "isExtend io \<Longrightarrow> \<not> isRemove io" "isTruncate io \<Longrightarrow> \<not> isExtend io"
  by (simp_all add: isTruncate_def isRemove_def isExtend_def)

lemma take_overwrite_append:
  assumes "n \<le> length b" "n + length z \<le> length b"
  shows "take (n + length z) (overwrite n z b) = take n b @ z"
  using assms by (cases z) (simp_all add: overwrite_def)

lemma padded_id [simp]: "n \<le> length b \<Longrightarrow> padded n b = b"
  by (simp add: padded_def)

lemma length_padded [simp]: "length (padded n b) = max (length b) n"
  by (simp add: padded_def)

text \<open>A write past the end of the old content, after the gap was filled.\<close>

lemma take_overwrite:
  assumes "k \<le> length b" "off \<le> k" "off + length d \<le> length b"
  shows "take (max k (off + length d)) (overwrite off d b) = overwrite off d (take k b)"
  using assms by (intro nth_equalityI) (auto simp: nth_overwrite length_overwrite)

lemma fill_content:
  assumes "n < off" "off \<le> length b"
  shows "take off (overwrite n (replicate (off - n) 0) b) = padded off (take n b)"
  using assms take_overwrite_append [of n b "replicate (off - n) 0"] by (simp add: padded_def)

lemma unat_sum: "unat a + n \<le> unat b \<Longrightarrow> unat (a + of_nat n) = unat a + n \<and> unat (of_nat n :: 32 word) = n"
  for a b :: "32 word"
  using unsigned_less [of b, where ?'a = nat] by (simp add: unat_word_ariths unat_of_nat)

lemma unat_diff: "a < b \<Longrightarrow> unat (b - a) = unat b - unat a" for a b :: "32 word"
  by (simp add: unat_sub)

lemma unat_max: "unat (max a b) = max (unat a) (unat b)" for a b :: "32 word"
  by (simp add: max_def word_le_nat_alt)

lemma doRealWrite_holds:
  assumes h: "holds G D st" and c: "G c = Some (ck_meta info)" "view_ok info"
    and sz: "md_size (ck_meta info) \<le> size_of (ck_meta info)"
    and r: "doRealWrite info data off st = (r, st')"
  shows "(\<exists>n. r = Ret (of_nat (length data), (ck_meta info)\<lparr>md_size := n\<rparr>) \<and>
      unat n = max (unat (md_size (ck_meta info))) (unat off + length data) \<and>
      unat off + length data \<le> unat (size_of (ck_meta info)) \<and>
      holds G (D(c := overwrite (unat off) data (D c))) st') \<or>
    (\<exists>e. r = Err e) \<and> (\<exists>b. holds G (D(c := b)) st')"
proof -
  obtain w st1 where w: "info_write info data off st = (w, st1)" by fastforce
  show ?thesis
    using info_write_holds [OF h c(1) same_place_refl c(2) w] w r unat_sum [of off "length data" "size_of (ck_meta info)"]
    by (auto simp: doRealWrite_def sbind_def ret_def unat_max)
qed

text \<open>
  The bytes a phase of writing leaves: the content is what the job asks for, or the phase failed and only the
  bytes of this chunk are unknown.
\<close>

definition recycled :: "UpdateIO \<Rightarrow> RecycleState \<Rightarrow> RecycleState" where
  "recycled io r = (if isRemove io \<and> r = NORMAL then REMOVAL_IN_PROGRESS else r)"

definition phase_result :: "UpdateJob \<Rightarrow> 32 word \<Rightarrow> 32 word" where
  "phase_result job n =
    (if resizes (uj_updateIO job) then n else if isRemove (uj_updateIO job) then 0 else uio_length (uj_updateIO job))"

definition write_done :: "UpdateJob \<Rightarrow> ChunkMetadata \<Rightarrow> bytes \<Rightarrow> ChunkMetadata \<Rightarrow> bytes \<Rightarrow> bool" where
  "write_done job meta old meta' new \<longleftrightarrow>
    meta' = meta\<lparr>md_size := md_size meta', md_recycleState := recycled (uj_updateIO job) (md_recycleState meta)\<rparr> \<and>
    md_size meta' \<le> size_of meta \<and> content meta' new = new_content job (content meta old) \<and>
    (\<not> resizes (uj_updateIO job) \<and> \<not> isRemove (uj_updateIO job) \<longrightarrow>
      unat (uio_offset (uj_updateIO job)) + unat (uio_length (uj_updateIO job)) \<le> unat (size_of meta))"

lemma resize_phase:
  assumes h: "holds G D st" and c: "G c = Some (ck_meta info)" "view_ok info"
    and sz: "md_size (ck_meta info) \<le> size_of (ck_meta info)" and rs: "resizes (uj_updateIO job)"
    and r: "write_phase job info st = (r, st')"
  shows "(\<exists>meta' b. r = Ret (md_size meta', meta') \<and> write_done job (ck_meta info) (D c) meta' b \<and>
      holds G (D(c := b)) st') \<or> (\<exists>e. r = Err e) \<and> (\<exists>b. holds G (D(c := b)) st')"
proof -
  let ?io = "uj_updateIO job" and ?m = "ck_meta info"
  have len: "length (D c) = unat (size_of ?m)" "unat (md_size ?m) \<le> unat (size_of ?m)"
    using holds_length [OF h c(1)] sz by (simp_all add: word_le_nat_alt)
  have nr: "\<not> isRemove ?io" using rs by (auto simp: resizes_def)
  have D: "holds G (D(c := D c)) st" using h by simp
  show ?thesis
  proof (cases "uio_length ?io \<le> md_size ?m")
    case True
    let ?meta = "if isTruncate ?io then ?m\<lparr>md_size := uio_length ?io\<rparr> else ?m"
    have "r = Ret (md_size ?meta, ?meta)" "st' = st"
      using r rs True by (auto simp: write_phase_def resizes_def Let_def ret_def split: if_splits)
    moreover have "write_done job ?m (D c) ?meta (D c)"
      using True rs nr sz len
      by (auto simp: write_done_def recycled_def content_def new_content_def resizes_def word_le_nat_alt Let_def)
    ultimately show ?thesis using D by blast
  next
    case False
    let ?z = "zeros (uio_length ?io - md_size ?m)"
    have lz: "unat (md_size ?m) + length ?z = unat (uio_length ?io)"
      using False by (simp add: zeros_def unat_diff not_le word_less_nat_alt)
    obtain w st1 where w: "doRealWrite info ?z (md_size ?m) st = (w, st1)" by fastforce
    have eq: "write_phase job info st = sbind (\<lambda>_. (w, st1)) (\<lambda>(_, meta'). ret (md_size meta', meta')) st"
      using w rs False by (auto simp: write_phase_def resizes_def Let_def sbind_def)
    show ?thesis
      using doRealWrite_holds [OF h c sz w]
    proof (elim disjE exE conjE)
      fix n assume a: "w = Ret (of_nat (length ?z), ?m\<lparr>md_size := n\<rparr>)"
        "unat n = max (unat (md_size ?m)) (unat (md_size ?m) + length ?z)"
        "unat (md_size ?m) + length ?z \<le> unat (size_of ?m)"
        "holds G (D(c := overwrite (unat (md_size ?m)) ?z (D c))) st1"
      let ?meta = "?m\<lparr>md_size := n\<rparr>"
      have "content ?meta (overwrite (unat (md_size ?m)) ?z (D c)) = content ?m (D c) @ ?z"
        using a(2,3) len take_overwrite_append [of "unat (md_size ?m)" "D c" ?z] by (simp add: content_def)
      moreover have "new_content job (content ?m (D c)) = content ?m (D c) @ ?z"
        using rs len lz False
        by (auto simp: new_content_def resizes_def content_def padded_def zeros_def unat_diff not_le Let_def isExtend_def isTruncate_def)
      ultimately have "write_done job ?m (D c) ?meta (overwrite (unat (md_size ?m)) ?z (D c))"
        using a(2,3) nr rs by (simp add: write_done_def recycled_def word_le_nat_alt)
      moreover have "r = Ret (md_size ?meta, ?meta)" "st' = st1" using r a(1) unfolding eq by (auto simp: sbind_def ret_def)
      ultimately show ?thesis using a(4) by blast
    qed (use r in \<open>auto simp: eq sbind_def\<close>)
  qed
qed

text \<open>Filling the gap and writing the data.\<close>

lemma plain_write:
  assumes h: "holds G D st" and c: "G c = Some (ck_meta info)" "view_ok info"
    and sz: "md_size (ck_meta info) \<le> size_of (ck_meta info)"
    and r: "sbind (if md_size (ck_meta info) < off
      then info_write info (zeros (off - md_size (ck_meta info))) (md_size (ck_meta info)) else ret 0)
      (\<lambda>_. doRealWrite info data off) st = (r, st')"
  shows "(\<exists>n b. r = Ret (of_nat (length data), (ck_meta info)\<lparr>md_size := n\<rparr>) \<and> unat off + length data \<le> unat (size_of (ck_meta info)) \<and>
      unat n = max (unat (md_size (ck_meta info))) (unat off + length data) \<and>
      take (unat n) b = overwrite (unat off) data (padded (unat off) (content (ck_meta info) (D c))) \<and>
      holds G (D(c := b)) st') \<or> (\<exists>e. r = Err e) \<and> (\<exists>b. holds G (D(c := b)) st')"
proof -
  let ?m = "ck_meta info" and ?off = "unat off" and ?n = "unat (md_size (ck_meta info))"
  have len: "length (D c) = unat (size_of ?m)" "?n \<le> unat (size_of ?m)"
    using holds_length [OF h c(1)] sz by (simp_all add: word_le_nat_alt)
  have step: ?thesis if h1: "holds G (D(c := b)) st1" and w: "doRealWrite info data off st1 = (r, st')"
    and b: "take (max ?n ?off) b = padded ?off (content ?m (D c))" "length b = unat (size_of ?m)" "max ?n ?off \<le> length b \<or> ?off + length data > length b"
    for b st1
    using doRealWrite_holds [OF h1 c sz w]
  proof (elim disjE exE conjE)
    fix n assume a: "r = Ret (of_nat (length data), ?m\<lparr>md_size := n\<rparr>)"
      "unat n = max ?n (?off + length data)" "?off + length data \<le> unat (size_of ?m)"
      "holds G ((D(c := b))(c := overwrite ?off data ((D(c := b)) c))) st'"
    have "take (unat n) (overwrite ?off data b) = overwrite ?off data (padded ?off (content ?m (D c)))"
      using a(2,3) b take_overwrite [of "max ?n ?off" b ?off data] by (simp add: max.assoc)
    then show ?thesis
      using a by (intro disjI1 exI [of _ n] exI [of _ "overwrite ?off data b"]) simp
  qed (use that in auto)
  show ?thesis
  proof (cases "md_size ?m < off")
    case False
    then have "doRealWrite info data off st = (r, st')" using r by (simp add: sbind_def ret_def)
    moreover have "?off \<le> ?n" using False by (simp add: not_less word_le_nat_alt)
    ultimately show ?thesis
      using h len by (intro step [of "D c" st]) (simp_all add: content_def max_def)
  next
    case True
    let ?z = "zeros (off - md_size ?m)"
    obtain w st1 where w: "info_write info ?z (md_size ?m) st = (w, st1)" by fastforce
    have lt: "?n < ?off" "?z = replicate (?off - ?n) 0"
      using True by (simp_all add: zeros_def unat_diff word_less_nat_alt)
    show ?thesis
      using info_write_holds [OF h c(1) same_place_refl c(2) w]
    proof (elim disjE conjE exE)
      assume a: "w = Ret (of_nat (length ?z))" "?n + length ?z \<le> unat (size_of ?m)" "holds G (D(c := overwrite ?n ?z (D c))) st1"
      have "doRealWrite info data off st1 = (r, st')" using r True w a(1) by (simp add: sbind_def)
      then show ?thesis
        using a(2) lt len fill_content [of ?n ?off "D c"]
        by (intro step [OF a(3)]) (simp_all add: content_def length_overwrite)
    qed (use r True w in \<open>auto simp: sbind_def\<close>)
  qed
qed

definition has_data :: "UpdateJob \<Rightarrow> bool" where
  "has_data job \<longleftrightarrow> resizes (uj_updateIO job) \<or> isRemove (uj_updateIO job) \<or>
    unat (uio_length (uj_updateIO job)) \<le> length (uj_data job)"

lemma sbind_assoc: "sbind (sbind m f) g s = sbind m (\<lambda>x. sbind (f x) g) s"
  by (simp add: sbind_def split: prod.split outcome.split)

lemma write_phase_holds:
  assumes h: "holds G D st" and c: "G c = Some (ck_meta info)" "view_ok info"
    and sz: "md_size (ck_meta info) \<le> size_of (ck_meta info)" and data: "has_data job"
    and r: "write_phase job info st = (r, st')"
  shows "(\<exists>meta' b. r = Ret (phase_result job (md_size meta'), meta') \<and> write_done job (ck_meta info) (D c) meta' b \<and>
      holds G (D(c := b)) st') \<or> (\<exists>e. r = Err e) \<and> (\<exists>b. holds G (D(c := b)) st')"
proof -
  let ?io = "uj_updateIO job" and ?m = "ck_meta info"
  consider "resizes ?io" | "isRemove ?io" | "\<not> resizes ?io" "\<not> isRemove ?io" by blast
  then show ?thesis
  proof cases
    case 1
    then show ?thesis using resize_phase [OF h c sz 1 r] by (simp add: phase_result_def)
  next
    case 2
    let ?meta = "if readyToRemove ?m then ?m else ?m\<lparr>md_recycleState := REMOVAL_IN_PROGRESS\<rparr>"
    have ty: "\<not> isTruncate ?io" "\<not> isExtend ?io" using 2 by auto
    have "r = Ret (phase_result job (md_size ?meta), ?meta)" "st' = st"
      using r 2 ty by (auto simp: write_phase_def Let_def ret_def phase_result_def resizes_def)
    moreover have "write_done job ?m (D c) ?meta (D c)"
      using 2 ty sz by (auto simp: write_done_def recycled_def content_def new_content_def readyToRemove_def resizes_def Let_def)
    moreover have "holds G (D(c := D c)) st" using h by simp
    ultimately show ?thesis by blast
  next
    case 3
    have ty: "\<not> isTruncate ?io" "\<not> isExtend ?io" using 3(1) by (simp_all add: resizes_def)
    have ld: "length (job_data job) = unat (uio_length ?io)" using data 3 by (simp add: has_data_def job_data_def)
    let ?w = "sbind (if md_size ?m < uio_offset ?io then info_write info (zeros (uio_offset ?io - md_size ?m)) (md_size ?m)
      else ret 0) (\<lambda>_. doRealWrite info (job_data job) (uio_offset ?io))"
    obtain w st1 where w: "?w st = (w, st1)" by fastforce
    have "write_phase job info st = sbind ?w (\<lambda>(n, meta').
        ret (n, if uo_isSyncing (uj_options job) then meta'\<lparr>md_size := uio_length ?io\<rparr> else meta')) st"
      using 3(2) ty unfolding write_phase_def Let_def sbind_assoc by simp
    then have eq: "write_phase job info st = (case w of
        Ret (n, meta') \<Rightarrow> (Ret (n, if uo_isSyncing (uj_options job) then meta'\<lparr>md_size := uio_length ?io\<rparr> else meta'), st1)
      | Err e \<Rightarrow> (Err e, st1) | Crash \<Rightarrow> (Crash, st1) | Pending \<Rightarrow> (Pending, st1))"
      unfolding sbind_def [of ?w] w by (simp add: ret_def split: outcome.split prod.split)
    show ?thesis
      using plain_write [OF h c sz w]
    proof (elim disjE exE conjE)
      fix n b assume a: "w = Ret (of_nat (length (job_data job)), ?m\<lparr>md_size := n\<rparr>)"
        "unat (uio_offset ?io) + length (job_data job) \<le> unat (size_of ?m)"
        "unat n = max (unat (md_size ?m)) (unat (uio_offset ?io) + length (job_data job))"
        "take (unat n) b = overwrite (unat (uio_offset ?io)) (job_data job) (padded (unat (uio_offset ?io)) (content ?m (D c)))"
        "holds G (D(c := b)) st1"
      define n' where "n' = (if uo_isSyncing (uj_options job) then uio_length ?io else n)"
      have le: "unat n' \<le> unat n" "unat n \<le> unat (size_of ?m)"
        using a(2,3) ld sz by (auto simp: n'_def word_le_nat_alt)
      have "take (unat n') b = take (unat n') (take (unat n) b)" using le(1) by simp
      also have "\<dots> = new_content job (content ?m (D c))"
        using 3(2) ty by (cases "uo_isSyncing (uj_options job)") (simp_all add: new_content_def n'_def Let_def a(4) [symmetric])
      finally have "take (unat n') b = new_content job (content ?m (D c))" .
      then have "write_done job ?m (D c) (?m\<lparr>md_size := n'\<rparr>) b"
        using a(2) le 3(2) ld by (simp add: write_done_def recycled_def content_def word_le_nat_alt)
      moreover have "r = Ret (phase_result job n', ?m\<lparr>md_size := n'\<rparr>)" "st' = st1"
        using r a(1) ld 3 unfolding eq by (auto simp: phase_result_def n'_def)
      ultimately show ?thesis using a(5) by (intro disjI1 exI [of _ "?m\<lparr>md_size := n'\<rparr>"] exI [of _ b]) simp
    qed (use r in \<open>auto simp: eq\<close>)
  qed
qed

section \<open>The checksum of a chunk\<close>

text \<open>The value stored for an empty chunk is 0, not the CRC of no bytes.\<close>

definition checksum_valid :: "checksum_lib \<Rightarrow> ChunkMetadata \<Rightarrow> bytes \<Rightarrow> bool" where
  "checksum_valid lib m data \<longleftrightarrow> meta_checksum m =
    (if data = [] then \<lparr>cs_type = md_checksumType m, cs_value = 0\<rparr> else checksum_of lib (md_checksumType m) data)"

definition checksum_fits :: "checksum_lib \<Rightarrow> ChecksumInfo \<Rightarrow> bytes \<Rightarrow> bool" where
  "checksum_fits lib cs data \<longleftrightarrow> (cs_type cs \<noteq> NONE \<and> data \<noteq> [] \<longrightarrow> cs = checksum_of lib (cs_type cs) data)"

lemma combine_fits:
  assumes "checksum_lib_ok lib" "cs_type cs \<noteq> NONE" "checksum_fits lib cs data"
  shows "combine lib (checksum_of lib (cs_type cs) a) cs (length data) = (Inr (), checksum_of lib (cs_type cs) (a @ data))"
proof (cases "data = []")
  case True
  then show ?thesis using assms(2) combine_empty [of "checksum_of lib (cs_type cs) a" cs lib] by simp
next
  case False
  then have "cs = checksum_of lib (cs_type cs) data" using assms(2,3) by (simp add: checksum_fits_def)
  then show ?thesis using combine_correct [OF assms(1,2), of a data] by metis
qed

lemma combine_same_type: "cs_type a = cs_type b \<Longrightarrow> \<exists>x. combine lib a b n = (Inr (), x)"
  by (cases "cs_type b") (simp_all add: combine_def)

lemma set_checksum_valid:
  "t = NONE \<or> data = [] \<Longrightarrow> checksum_valid lib (set_checksum t 0 m) data"
  "data \<noteq> [] \<Longrightarrow> t \<noteq> NONE \<Longrightarrow> checksum_valid lib (set_checksum t (cs_value (checksum_of lib t data)) m) data"
  by (auto simp: checksum_valid_def set_checksum_def meta_checksum_def checksum_of_def no_checksum_def)

lemma read_checksum_holds:
  assumes lib: "checksum_lib_ok lib" "cs_type cs \<noteq> NONE" and h: "holds G D st"
    and c: "G c = Some m" "same_place m (ck_meta info)" "view_ok info"
    and r: "read_checksum lib info cs off len st = (r, st')"
  shows "holds G D st' \<and> ((\<exists>e. r = Err e) \<or> (\<exists>v. r = Ret (set_checksum (cs_type cs) v (ck_meta info)) \<and>
    (\<forall>data. checksum_fits lib cs data \<and> unat len = length data \<and> unat off + length data \<le> unat (md_size (ck_meta info)) \<longrightarrow>
      v = cs_value (checksum_of lib (cs_type cs) (take (unat off) (D c) @ data @
        piece (unat off + length data) (unat (md_size (ck_meta info)) - (unat off + length data)) (D c))))))"
proof -
  let ?t = "cs_type cs" and ?s = "md_size (ck_meta info)"
  let ?start = "min (off + len) ?s" let ?sl = "?s - ?start"
  obtain p st1 where p: "info_checksum lib info ?t off 0 st = (p, st1)" by fastforce
  note hp = info_checksum_holds [OF lib h c p]
  obtain q st2 where q: "info_checksum lib info ?t ?sl ?start st1 = (q, st2)" by fastforce
  note hq = info_checksum_holds [OF lib hp(1) c q]
  have sfx: "unat ?start = unat off + length data" "unat ?sl = unat ?s - (unat off + length data)"
    if "unat len = length data" "unat off + length data \<le> unat ?s" for data :: bytes
  proof -
    have "len = of_nat (length data)" unfolding that(1) [symmetric] by simp
    then have a: "unat (off + len) = unat off + length data" using that(2) unat_sum [of off "length data" ?s] by simp
    then have "?start = off + len" using that by (simp add: min_def word_le_nat_alt)
    then show "unat ?start = unat off + length data" "unat ?sl = unat ?s - (unat off + length data)"
      using a that by (simp_all add: unat_sub word_le_nat_alt)
  qed
  have eq: "read_checksum lib info cs off len st = sbind (\<lambda>_. (p, st1)) (\<lambda>p. sbind (\<lambda>_. (q, st2)) (\<lambda>s.
      ret (set_checksum ?t (cs_value (snd (combine lib (snd (combine lib p cs (unat len))) s (unat ?sl)))) (ck_meta info)))) st"
    using p q by (simp add: read_checksum_def Let_def sbind_def split: outcome.split)
  show ?thesis
  proof (cases "(\<exists>e. p = Err e) \<or> (\<exists>e. q = Err e)")
    case True
    then show ?thesis using r hp hq unfolding eq by (auto simp: sbind_def)
  next
    case False
    let ?pv = "checksum_of lib ?t (take (unat off) (D c))" and ?qv = "checksum_of lib ?t (piece (unat ?start) (unat ?sl) (D c))"
    let ?v = "cs_value (snd (combine lib (snd (combine lib ?pv cs (unat len))) ?qv (unat ?sl)))"
    have pq: "p = Ret ?pv" "q = Ret ?qv" "unat ?start + unat ?sl \<le> unat (size_of m)"
      using False hp(2) hq(2) by (auto simp: piece_def)
    have v: "?v = cs_value (checksum_of lib ?t (take (unat off) (D c) @ data @
        piece (unat off + length data) (unat ?s - (unat off + length data)) (D c)))"
      if d: "checksum_fits lib cs data" "unat len = length data" "unat off + length data \<le> unat ?s" for data
    proof -
      let ?suf = "piece (unat ?start) (unat ?sl) (D c)"
      have "length ?suf = unat ?sl" using pq(3) holds_length [OF h c(1)] by simp
      then have "combine lib (checksum_of lib ?t (take (unat off) (D c) @ data)) ?qv (unat ?sl) =
          (Inr (), checksum_of lib ?t ((take (unat off) (D c) @ data) @ ?suf))"
        using combine_correct [OF lib, of "take (unat off) (D c) @ data" ?suf] by simp
      then show ?thesis using combine_fits [OF lib d(1)] d(2) sfx [OF d(2,3)] by simp
    qed
    have "r = Ret (set_checksum ?t ?v (ck_meta info))" "st' = st2"
      using r unfolding eq pq(1,2) by (auto simp: sbind_def ret_def)
    then show ?thesis using hq(1) v by blast
  qed
qed

text \<open>
  The bytes \<open>data\<close> with the checksum \<open>cs\<close> are those of the content from \<open>off\<close> on, and an append adds them to a
  content the old checksum was right for.
\<close>

definition checksum_case :: "checksum_lib \<Rightarrow> ChecksumInfo \<Rightarrow> 32 word \<Rightarrow> 32 word \<Rightarrow> ChunkMetadata \<Rightarrow> bool \<Rightarrow> bytes \<Rightarrow> bytes \<Rightarrow> bool" where
  "checksum_case lib cs off len meta app old new \<longleftrightarrow> (\<exists>data. checksum_fits lib cs data \<and> unat len = length data \<and>
    unat off + length data \<le> length new \<and> new = take (unat off) new @ data @ drop (unat off + length data) new \<and>
    (app \<longrightarrow> new = old @ data \<and> old \<noteq> [] \<and> checksum_valid lib meta old))"

definition io_range :: "checksum_lib \<Rightarrow> UpdateIO \<Rightarrow> ChunkMetadata \<Rightarrow> ChecksumInfo \<times> 32 word \<times> 32 word" where
  "io_range lib io meta = (if resizes io then (checksum_bytes lib (md_checksumType meta) [], md_size meta, 0)
    else (uio_checksum io, uio_offset io, uio_length io))"

lemma updateChecksum_holds:
  assumes lib: "checksum_lib_ok lib" and h: "holds G D st"
    and c: "G c = Some m" "same_place m (ck_meta info)" "view_ok info"
    and sz: "unat (md_size (ck_meta info)) \<le> length (D c)"
    and io: "io_range lib io (ck_meta info) = (cs, off, len)"
    and r: "updateChecksum lib info io sizeBefore app st = (r, st')"
  shows "holds G D st' \<and> ((\<exists>e. r = Err e) \<or> (\<exists>v. r = Ret (set_checksum (cs_type cs) v (ck_meta info)) \<and>
    (\<forall>old. checksum_case lib cs off len (ck_meta info) (0 < sizeBefore \<and> app) old (content (ck_meta info) (D c)) \<longrightarrow>
      checksum_valid lib (set_checksum (cs_type cs) v (ck_meta info)) (content (ck_meta info) (D c)))))"
proof -
  let ?meta = "ck_meta info" and ?t = "cs_type cs" and ?new = "content (ck_meta info) (D c)"
  have ln: "length ?new = unat (md_size ?meta)" using sz by (simp add: content_def)
  have eq: "updateChecksum lib info io sizeBefore app =
    (if ?t = NONE \<or> md_size ?meta = 0 then ret (set_checksum ?t 0 ?meta)
     else if off = 0 \<and> len = md_size ?meta then ret (set_checksum ?t (cs_value cs) ?meta)
     else if ?t = md_checksumType ?meta \<and> 0 < sizeBefore \<and> app then
       (case combine lib (meta_checksum ?meta) cs (unat len) of
          (Inl e, _) \<Rightarrow> fail e | (Inr _, x) \<Rightarrow> ret (set_checksum ?t (cs_value x) ?meta))
     else read_checksum lib info cs off len)"
    using io unfolding updateChecksum_def io_range_def resizes_def Let_def
    by (cases "isTruncate io \<or> isExtend io") (auto simp: meta_checksum_def)
  consider "?t = NONE \<or> md_size ?meta = 0" | "?t \<noteq> NONE" "md_size ?meta \<noteq> 0" "off = 0 \<and> len = md_size ?meta"
    | "?t \<noteq> NONE" "md_size ?meta \<noteq> 0" "\<not> (off = 0 \<and> len = md_size ?meta)" "?t = md_checksumType ?meta \<and> 0 < sizeBefore \<and> app"
    | "?t \<noteq> NONE" "md_size ?meta \<noteq> 0" "\<not> (off = 0 \<and> len = md_size ?meta)" "\<not> (?t = md_checksumType ?meta \<and> 0 < sizeBefore \<and> app)"
    by blast
  then show ?thesis
  proof cases
    case 1
    then have "?t = NONE \<or> ?new = []" using ln by auto
    then show ?thesis using r h 1 set_checksum_valid(1) [of ?t ?new] unfolding eq by (auto simp: ret_def)
  next
    case 2
    have "checksum_valid lib (set_checksum ?t (cs_value cs) ?meta) ?new" if cc: "checksum_case lib cs off len ?meta a old ?new" for a old
    proof -
      obtain data where d: "checksum_fits lib cs data" "unat len = length data" "?new = take (unat off) ?new @ data @ drop (unat off + length data) ?new"
        using cc unfolding checksum_case_def by blast
      have "drop (unat off + length data) ?new = []" using d(2) 2(3) ln by simp
      then have "?new = data" using d(3) 2(3) by simp
      moreover have "?new \<noteq> []" using ln 2(2) by (auto simp: unat_eq_0)
      ultimately have "cs_value cs = cs_value (checksum_of lib ?t ?new)" "?new \<noteq> []"
        using d(1) 2(1) by (metis checksum_fits_def)+
      then show ?thesis using 2(1) set_checksum_valid(2) [of ?new ?t] by simp
    qed
    then show ?thesis using r h 2 unfolding eq by (auto simp: ret_def)
  next
    case 3
    obtain x where x: "combine lib (meta_checksum ?meta) cs (unat len) = (Inr (), x)"
      using 3(4) combine_same_type [of "meta_checksum ?meta" cs lib "unat len"] by (auto simp: meta_checksum_def)
    have "checksum_valid lib (set_checksum ?t (cs_value x) ?meta) ?new" if cc: "checksum_case lib cs off len ?meta True old ?new" for old
    proof -
      obtain data where d: "checksum_fits lib cs data" "unat len = length data" "?new = old @ data" "old \<noteq> []" "checksum_valid lib ?meta old"
        using cc unfolding checksum_case_def by blast
      have "meta_checksum ?meta = checksum_of lib ?t old" using d(4,5) 3(4) by (simp add: checksum_valid_def)
      then have "x = checksum_of lib ?t ?new" using combine_fits [OF lib 3(1) d(1), of old] x d(2,3) by simp
      then show ?thesis using set_checksum_valid(2) [of ?new ?t] 3(1) d(3,4) by simp
    qed
    then show ?thesis using r h 3 x unfolding eq by (auto simp: ret_def)
  next
    case 4
    then have rc: "read_checksum lib info cs off len st = (r, st')" using r unfolding eq by (simp split: if_splits)
    have "take (unat off) (D c) @ data @ piece (unat off + length data) (unat (md_size ?meta) - (unat off + length data)) (D c) = ?new"
      if "unat off + length data \<le> length ?new" "?new = take (unat off) ?new @ data @ drop (unat off + length data) ?new" for data
      using that ln by (simp add: content_def piece_def drop_take)
    moreover have "?new \<noteq> []" using ln 4(2) by (auto simp: unat_eq_0)
    ultimately show ?thesis
      using read_checksum_holds [OF lib 4(1) h c rc] set_checksum_valid(2) [of ?new ?t] 4(1) ln
      unfolding checksum_case_def by metis
  qed
qed

section \<open>Updates of a chunk\<close>

definition finished ::
  "checksum_lib \<Rightarrow> UpdateJob \<Rightarrow> bool \<Rightarrow> ChunkMetadata \<Rightarrow> bytes \<Rightarrow> ChunkMetadata \<Rightarrow> bytes \<Rightarrow> 32 word \<Rightarrow> bool" where
  "finished lib job app meta old m b n \<longleftrightarrow> (\<exists>meta' cs off len v.
    write_done job meta old meta' b \<and> io_range lib (uj_updateIO job) meta' = (cs, off, len) \<and>
    m = (set_checksum (cs_type cs) v meta')\<lparr>md_chunkState := CLEAN\<rparr> \<and> n = phase_result job (md_size meta') \<and>
    (\<forall>old. checksum_case lib cs off len meta' (0 < md_size meta \<and> app) old (content meta' b) \<longrightarrow>
      checksum_valid lib m (content meta' b)))"

lemma checksum_valid_state [simp]: "checksum_valid lib (m\<lparr>md_chunkState := s\<rparr>) data = checksum_valid lib m data"
  by (simp add: checksum_valid_def meta_checksum_def)

lemma write_done_place: "write_done job meta old meta' b \<Longrightarrow> same_place meta meta' \<and> size_of meta' = size_of meta"
  unfolding write_done_def same_place_def size_of_def by (metis ChunkMetadata.select_convs ChunkMetadata.surjective ChunkMetadata.update_convs)

lemma finish_update_holds:
  assumes lib: "checksum_lib_ok lib" and h: "holds G D st"
    and c: "G c = Some (ck_meta info)" "view_ok info" "c = uio_chunkId (uj_updateIO job)"
    and sz: "md_size (ck_meta info) \<le> size_of (ck_meta info)" and data: "has_data job"
    and r: "finish_update lib job info app skip st = (r, st')"
  shows "(\<exists>m b n. r = Ret n \<and> finished lib job app (ck_meta info) (D c) m b n \<and> holds (G(c \<mapsto> m)) (D(c := b)) st') \<or>
    (\<exists>e. r = Err e) \<and> (\<exists>b. holds G (D(c := b)) st')"
proof -
  let ?io = "uj_updateIO job" and ?m = "ck_meta info"
  obtain w st1 where w: "write_phase job info st = (w, st1)" by fastforce
  from write_phase_holds [OF h c(1,2) sz data w] show ?thesis
  proof (elim disjE exE conjE)
    fix meta' b
    assume w': "w = Ret (phase_result job (md_size meta'), meta')" and wd: "write_done job ?m (D c) meta' b"
      and h1: "holds G (D(c := b)) st1"
    let ?info = "info\<lparr>ck_meta := meta'\<rparr>"
    note pl = write_done_place [OF wd]
    have vw: "view_ok ?info" using c(2) pl by (simp add: view_ok_def same_place_def)
    have len: "unat (md_size (ck_meta ?info)) \<le> length ((D(c := b)) c)"
      using holds_length [OF h1 c(1)] wd by (simp add: write_done_def word_le_nat_alt)
    obtain cs off len where io: "io_range lib ?io (ck_meta ?info) = (cs, off, len)" by (metis prod_cases3)
    obtain u st2 where u: "updateChecksum lib ?info ?io (md_size ?m) app st1 = (u, st2)" by fastforce
    have hu: "holds G (D(c := b)) st2" "(\<exists>e. u = Err e) \<or> (\<exists>v. u = Ret (set_checksum (cs_type cs) v meta') \<and>
        (\<forall>old. checksum_case lib cs off len meta' (0 < md_size ?m \<and> app) old (content meta' b) \<longrightarrow>
          checksum_valid lib (set_checksum (cs_type cs) v meta') (content meta' b)))"
      using updateChecksum_holds [OF lib h1 c(1) _ vw len io u] pl by (simp_all add: fun_upd_def)
    show ?thesis
    proof (cases "\<exists>e. u = Err e")
      case True
      then show ?thesis using r w w' u hu(1) by (auto simp: finish_update_def sbind_def)
    next
      case False
      then obtain v where v: "u = Ret (set_checksum (cs_type cs) v meta')"
        "\<forall>old. checksum_case lib cs off len meta' (0 < md_size ?m \<and> app) old (content meta' b) \<longrightarrow>
          checksum_valid lib (set_checksum (cs_type cs) v meta') (content meta' b)"
        using hu(2) by blast
      define m where "m = (set_checksum (cs_type cs) v meta')\<lparr>md_chunkState := CLEAN\<rparr>"
      have fin: "finished lib job app ?m (D c) m b (phase_result job (md_size meta'))"
        using wd io v(2) unfolding finished_def m_def by fastforce
      have pm: "same_place ?m m" using pl by (simp add: m_def set_checksum_def same_place_def)
      then have vm: "view_ok (info\<lparr>ck_meta := m\<rparr>)" using c(2) by (simp add: view_ok_def same_place_def)
      obtain x st3 where x: "store_set c (info\<lparr>ck_meta := m\<rparr>) (\<not> skip) st2 = (x, st3)" by fastforce
      have "x = Ret () \<and> holds (G(c \<mapsto> m)) (D(c := b)) st3 \<or> (\<exists>e. x = Err e) \<and> holds G (D(c := b)) st3"
        using store_set_holds [OF hu(1) c(1) _ vm x] pm by simp
      then show ?thesis
        using r w w' u v(1) x c(3) fin
        by (auto simp: finish_update_def sbind_def Let_def set_result_def modify_def ret_def m_def)
    qed
  qed (use r w in \<open>auto simp: finish_update_def sbind_def\<close>)
qed

definition begun_meta :: "UpdateJob \<Rightarrow> int \<Rightarrow> ChunkMetadata \<Rightarrow> ChunkMetadata" where
  "begun_meta job now meta = stamp job now (meta\<lparr>md_chunkState := DIRTY, md_chainVer := job_commitChainVer job\<rparr>)"

lemma begun_fields [simp]:
  "md_size (begun_meta job now meta) = md_size meta" "md_chunkState (begun_meta job now meta) = DIRTY"
  "md_updateVer (begun_meta job now meta) = md_updateVer meta" "md_commitVer (begun_meta job now meta) = md_commitVer meta"
  "md_chainVer (begun_meta job now meta) = job_commitChainVer job" "size_of (begun_meta job now meta) = size_of meta"
  "md_innerFileId (begun_meta job now meta) = md_innerFileId meta" "md_innerOffset (begun_meta job now meta) = md_innerOffset meta"
  "md_checksumType (begun_meta job now meta) = md_checksumType meta" "md_recycleState (begun_meta job now meta) = md_recycleState meta"
  "meta_checksum (begun_meta job now meta) = meta_checksum meta"
  by (simp_all add: begun_meta_def stamp_def size_of_def meta_checksum_def)

lemma next_version_fields:
  assumes "next_version job meta = Inr meta1"
  shows "md_size meta1 = md_size meta" "size_of meta1 = size_of meta" "same_place meta meta1" "meta_checksum meta1 = meta_checksum meta"
    "md_checksumType meta1 = md_checksumType meta" "md_innerFileId meta1 = md_innerFileId meta"
  using assms by (auto simp: next_version_def Let_def size_of_def same_place_def meta_checksum_def split: if_splits)

text \<open>
  A chunk to be updated as it is found: it is in the store, or it is new. \<open>begun\<close> relates the metadata that was
  found to the metadata marked dirty.
\<close>

definition begun :: "UpdateJob \<Rightarrow> int \<Rightarrow> ChunkMetadata \<Rightarrow> ChunkMetadata \<Rightarrow> bool" where
  "begun job now m0 meta \<longleftrightarrow> (\<exists>meta1 f o'. next_version job m0 = Inr meta1 \<and>
    meta = (begun_meta job now meta1)\<lparr>md_innerFileId := f, md_innerOffset := o'\<rparr>)"

definition found ::
  "UpdateJob \<Rightarrow> (chunk_id \<Rightarrow> ChunkMetadata option) \<Rightarrow> chunk_id \<Rightarrow> ChunkInfo \<Rightarrow> bool \<Rightarrow> bool" where
  "found job G c info create \<longleftrightarrow>
    (if create then G c = None \<and> info = new_chunk job else G c = Some (ck_meta info) \<and> view_ok info)"

lemma begin_update_holds:
  assumes h: "holds G D st" and f: "found job G c info create" and c: "c = uio_chunkId (uj_updateIO job)"
    and v: "next_version job (ck_meta info) = Inr meta1"
    and r: "begin_update job now (info\<lparr>ck_meta := begun_meta job now meta1\<rparr>) create skip st = (r, st')"
  shows "(\<exists>info' b. r = Ret info' \<and> view_ok info' \<and> begun job now (ck_meta info) (ck_meta info') \<and>
      holds (G(c \<mapsto> ck_meta info')) (D(c := b)) st' \<and>
      (\<not> create \<longrightarrow> b = D c \<and> size_of (ck_meta info') = size_of (ck_meta info))) \<or>
    (\<forall>x. r \<noteq> Ret x) \<and> (holds G D st' \<or>
      (\<exists>m b. begun job now (ck_meta info) m \<and> create \<and> holds (G(c \<mapsto> m)) (D(c := b)) st'))"
proof (cases create)
  case True
  let ?s = "uio_chunkSize (uj_updateIO job)" and ?info = "info\<lparr>ck_meta := begun_meta job now meta1\<rparr>"
  have G: "G c = None" using f True by (simp add: found_def)
  have cr: "store_createChunk now c ?s ?info (uj_allowToAllocate job) st = (r, st')"
    using r True c by (simp add: begin_update_def Let_def)
  have b: "begun job now (ck_meta info) (place ?s pos (begun_meta job now meta1))" for pos
    using v unfolding begun_def place_def by blast
  then show ?thesis using store_createChunk_holds [OF h G cr] True by auto
next
  case False
  let ?info = "info\<lparr>ck_meta := begun_meta job now meta1\<rparr>"
  have G: "G c = Some (ck_meta info)" "view_ok info" using f False by (simp_all add: found_def)
  note n = next_version_fields [OF v]
  have pl: "same_place (ck_meta info) (ck_meta ?info)" "view_ok ?info"
    using n G(2) by (simp_all add: same_place_def view_ok_def)
  obtain x st1 where x: "store_set c ?info (\<not> skip) st = (x, st1)" by fastforce
  have "ck_meta ?info = (begun_meta job now meta1)\<lparr>md_innerFileId := md_innerFileId meta1, md_innerOffset := md_innerOffset meta1\<rparr>"
    by (simp add: begun_meta_def stamp_def)
  then have b: "begun job now (ck_meta info) (ck_meta ?info)" using v unfolding begun_def by blast
  have eq: "begin_update job now ?info create skip st = sbind (\<lambda>_. (x, st1)) (\<lambda>_. ret ?info) st"
    using x False c by (simp add: begin_update_def sbind_def Let_def)
  show ?thesis
    using store_set_holds [OF h G(1) pl x]
  proof (elim disjE conjE exE)
    assume a: "x = Ret ()" "holds (G(c \<mapsto> ck_meta ?info)) D st1"
    have "r = Ret ?info" "st' = st1" using r a(1) unfolding eq by (auto simp: sbind_def ret_def)
    then show ?thesis using a(2) b pl(2) n(2) by (intro disjI1 exI [of _ ?info] exI [of _ "D c"]) simp
  qed (use r in \<open>auto simp: eq sbind_def\<close>)
qed

definition sizes_ok :: "(chunk_id \<Rightarrow> ChunkMetadata option) \<Rightarrow> bool" where
  "sizes_ok G \<longleftrightarrow> (\<forall>c m. G c = Some m \<longrightarrow> md_size m \<le> size_of m)"

definition content_of :: "(chunk_id \<Rightarrow> ChunkMetadata option) \<Rightarrow> (chunk_id \<Rightarrow> bytes) \<Rightarrow> chunk_id \<Rightarrow> bytes" where
  "content_of G D c = (case G c of None \<Rightarrow> [] | Some m \<Rightarrow> content m (D c))"

text \<open>A finished update of the chunk that was found.\<close>

definition updated ::
  "checksum_lib \<Rightarrow> UpdateJob \<Rightarrow> int \<Rightarrow> ChunkMetadata \<Rightarrow> bytes \<Rightarrow> ChunkMetadata \<Rightarrow> bytes \<Rightarrow> 32 word \<Rightarrow> bool" where
  "updated lib job now m0 old m b n \<longleftrightarrow> (\<exists>meta d. begun job now m0 meta \<and> content meta d = old \<and>
    finished lib job (uio_offset (uj_updateIO job) = md_size m0) meta d m b n)"

lemma begun_size:
  assumes "begun job now m0 meta"
  shows "md_size meta = md_size m0" "md_chunkState meta = DIRTY" "meta_checksum meta = meta_checksum m0"
  using assms next_version_fields unfolding begun_def by (auto simp: begun_meta_def stamp_def meta_checksum_def)

lemma update_chunk_holds:
  assumes lib: "checksum_lib_ok lib" and h: "holds G D st" and sz: "sizes_ok G"
    and f: "found job G c info create" and c: "c = uio_chunkId (uj_updateIO job)" and data: "has_data job"
    and r: "update_chunk lib job now info create st = (r, st')"
  shows "(\<exists>m b n. r = Ret n \<and> check_chunk lib job (ck_meta info) = Inr () \<and>
      updated lib job now (ck_meta info) (content_of G D c) m b n \<and> holds (G(c \<mapsto> m)) (D(c := b)) st') \<or>
    (\<forall>x. r \<noteq> Ret x) \<and> (holds G D st' \<or>
      (\<exists>m b. begun job now (ck_meta info) m \<and> md_size m \<le> size_of m \<and> holds (G(c \<mapsto> m)) (D(c := b)) st'))"
proof -
  let ?io = "uj_updateIO job"
  define st0 where "st0 = st\<lparr>rp_result := (rp_result st)\<lparr>io_commitVer := md_commitVer (ck_meta info),
    io_updateVer := md_updateVer (ck_meta info), io_checksum := meta_checksum (ck_meta info), io_commitChainVer := md_chainVer (ck_meta info)\<rparr>\<rparr>"
  have h0: "holds G D st0" using h by (simp add: st0_def)
  show ?thesis
  proof (cases "\<exists>meta1. check_chunk lib job (ck_meta info) = Inr () \<and> next_version job (ck_meta info) = Inr meta1")
    case False
    then have "(\<forall>x. r \<noteq> Ret x) \<and> st' = st0"
      using r by (auto simp: update_chunk_def Let_def sbind_def set_result_def modify_def try_result_def st0_def
          split: outcome.splits; cases "check_chunk lib job (ck_meta info)"; cases "next_version job (ck_meta info)"; simp)
    then show ?thesis using h0 by blast
  next
    case True
    then obtain meta1 where v: "check_chunk lib job (ck_meta info) = Inr ()" "next_version job (ck_meta info) = Inr meta1" by blast
    let ?meta = "begun_meta job now meta1" let ?app = "uio_offset ?io = md_size (ck_meta info)"
    let ?skip = "isWrite ?io \<and> ?app \<or> isTruncate ?io \<or> isExtend ?io"
    have ms: "md_size meta1 = md_size (ck_meta info)" using next_version_fields [OF v(2)] by simp
    obtain x st1 where x: "begin_update job now (info\<lparr>ck_meta := ?meta\<rparr>) create ?skip st0 = (x, st1)" by fastforce
    let ?res = "\<lambda>st. st\<lparr>rp_result := (rp_result st)\<lparr>io_commitChainVer := md_chainVer ?meta, io_updateVer := md_updateVer ?meta\<rparr>\<rparr>"
    have eq: "update_chunk lib job now info create st =
        sbind (\<lambda>_. (x, st1)) (\<lambda>info' st. finish_update lib job info' ?app ?skip (?res st)) st"
      using v x ms
      by (cases x) (simp_all add: update_chunk_def Let_def sbind_def set_result_def modify_def try_result_def
          begun_meta_def [symmetric] st0_def [symmetric])
    show ?thesis
      using begin_update_holds [OF h0 f c v(2) x]
    proof (elim disjE exE conjE)
      fix info' b assume a: "x = Ret info'" "view_ok info'" "begun job now (ck_meta info) (ck_meta info')"
        "holds (G(c \<mapsto> ck_meta info')) (D(c := b)) st1"
        "\<not> create \<longrightarrow> b = D c \<and> size_of (ck_meta info') = size_of (ck_meta info)"
      let ?m = "ck_meta info'"
      note bs = begun_size [OF a(3)]
      have old: "content ?m b = content_of G D c" "md_size ?m \<le> size_of ?m"
        using a(5) f bs(1) sz by (auto simp: found_def new_chunk_def default_ChunkMetadata_def content_of_def content_def
            sizes_ok_def split: if_splits)
      have fu: "finish_update lib job info' ?app ?skip (?res st1) = (r, st')" using r a(1) unfolding eq by (simp add: sbind_def)
      have "holds (G(c \<mapsto> ?m)) (D(c := b)) (?res st1)" using a(4) by simp
      from finish_update_holds [OF lib this _ a(2) c old(2) data fu]
      have "(\<exists>m b' n. r = Ret n \<and> finished lib job ?app ?m b m b' n \<and> holds (G(c \<mapsto> m)) (D(c := b')) st') \<or>
          (\<exists>e. r = Err e) \<and> (\<exists>b'. holds (G(c \<mapsto> ?m)) (D(c := b')) st')" by simp
      then show ?thesis using a(3) old v(1) unfolding updated_def by blast
    next
      fix m b assume a: "\<forall>y. x \<noteq> Ret y" "begun job now (ck_meta info) m" create "holds (G(c \<mapsto> m)) (D(c := b)) st1"
      have "md_size m = 0" using begun_size(1) [OF a(2)] f a(3) by (simp add: found_def new_chunk_def default_ChunkMetadata_def)
      moreover have "(\<forall>y. r \<noteq> Ret y) \<and> st' = st1" using r a(1) unfolding eq by (cases x) (auto simp: sbind_def)
      ultimately show ?thesis using a by auto
    next
      assume a: "\<forall>y. x \<noteq> Ret y" "holds G D st1"
      have "(\<forall>y. r \<noteq> Ret y) \<and> st' = st1" using r a(1) unfolding eq by (cases x) (auto simp: sbind_def)
      then show ?thesis using a(2) by blast
    qed
  qed
qed

text \<open>The metadata an update starts from; a new chunk starts from nothing.\<close>

definition before :: "UpdateJob \<Rightarrow> (chunk_id \<Rightarrow> ChunkMetadata option) \<Rightarrow> chunk_id \<Rightarrow> ChunkMetadata" where
  "before job G c = (case G c of None \<Rightarrow> ck_meta (new_chunk job) | Some m \<Rightarrow> m)"

lemma update_holds:
  assumes lib: "checksum_lib_ok lib" and h: "holds G D st" and sz: "sizes_ok G"
    and c: "c = uio_chunkId (uj_updateIO job)" and data: "has_data job"
    and r: "update lib job now st = (r, st')"
  shows "(r = Ret 0 \<and> isRemove (uj_updateIO job) \<and> G c = None \<and> holds G D st') \<or>
    (\<exists>m b n. r = Ret n \<and> check_chunk lib job (before job G c) = Inr () \<and> \<not> range_exceeds (uj_updateIO job) \<and>
      \<not> (isRemove (uj_updateIO job) \<and> G c = None) \<and>
      updated lib job now (before job G c) (content_of G D c) m b n \<and> holds (G(c \<mapsto> m)) (D(c := b)) st') \<or>
    (\<forall>x. r \<noteq> Ret x) \<and> (holds G D st' \<or>
      (\<exists>m b. begun job now (before job G c) m \<and> md_size m \<le> size_of m \<and> holds (G(c \<mapsto> m)) (D(c := b)) st'))"
proof (cases "range_exceeds (uj_updateIO job)")
  case True
  then show ?thesis using r h by (auto simp: update_def fail_def)
next
  case False
  let ?io = "uj_updateIO job"
  obtain g st1 where g: "store_get c st = (g, st1)" by fastforce
  have up: "update lib job now st = sbind (update_get job) (\<lambda>got. case got of None \<Rightarrow> ret 0
      | Some (info, create) \<Rightarrow> update_chunk lib job now info create) st"
    using False by (simp add: update_def)
  have fin: ?thesis if f: "found job G c info create" and hu: "holds G D st2" "update_chunk lib job now info create st2 = (r, st')"
    and nr: "create \<longrightarrow> \<not> isRemove ?io" for info create st2
  proof -
    have "ck_meta info = before job G c" "\<not> (isRemove ?io \<and> G c = None)" using f nr by (auto simp: found_def before_def split: if_splits)
    then show ?thesis using update_chunk_holds [OF lib hu(1) sz f c data hu(2)] False by auto
  qed
  from store_get_holds [OF h g] show ?thesis
  proof (elim conjE disjE exE)
    fix info assume a: "holds G D st1" "g = Ret info" "G c = Some (ck_meta info)" "view_ok info"
    have "update_chunk lib job now info False st1 = (r, st')"
      using r g a(2) c unfolding up by (simp add: sbind_def update_get_def Let_def)
    then show ?thesis using a by (intro fin [of info False st1]) (simp_all add: found_def)
  next
    fix e assume a: "holds G D st1" "g = Err e" "e = Storage kChunkMetadataNotFound \<longrightarrow> G c = None"
    show ?thesis
    proof (cases "e = Storage kChunkMetadataNotFound \<and> \<not> isRemove ?io")
      case True
      then have "update_chunk lib job now (new_chunk job) True st1 = (r, st')"
        using r g a(2) c unfolding up by (simp add: sbind_def update_get_def Let_def)
      then show ?thesis using a True by (intro fin [of "new_chunk job" True st1]) (simp_all add: found_def)
    next
      case F: False
      then show ?thesis
        using r g a c unfolding up
        by (auto simp: sbind_def update_get_def Let_def set_result_def modify_def ret_def split: if_splits)
    qed
  qed
qed

lemma updated_meta:
  assumes "updated lib job now m0 old m b n"
  shows "content m b = new_content job old" "md_size m \<le> size_of m" "md_chunkState m = CLEAN"
    "md_chainVer m = job_commitChainVer job" "n = phase_result job (md_size m)"
    "\<exists>meta1. next_version job m0 = Inr meta1 \<and> md_updateVer m = md_updateVer meta1 \<and> md_commitVer m = md_commitVer meta1 \<and>
      md_recycleState m = recycled (uj_updateIO job) (md_recycleState meta1)"
proof -
  obtain meta1 f o' d meta' t v where n: "next_version job m0 = Inr meta1"
    and meta: "content ((begun_meta job now meta1)\<lparr>md_innerFileId := f, md_innerOffset := o'\<rparr>) d = old"
    and w: "write_done job ((begun_meta job now meta1)\<lparr>md_innerFileId := f, md_innerOffset := o'\<rparr>) d meta' b"
    and m: "m = (set_checksum t v meta')\<lparr>md_chunkState := CLEAN\<rparr>" "n = phase_result job (md_size meta')"
    using assms unfolding updated_def finished_def begun_def by blast
  obtain s r where meta': "meta' = (begun_meta job now meta1)\<lparr>md_innerFileId := f, md_innerOffset := o', md_size := s,
      md_recycleState := recycled (uj_updateIO job) (md_recycleState meta1)\<rparr>"
    using w unfolding write_done_def by auto
  have "content meta' b = new_content job old" "md_size meta' \<le> size_of meta'"
    using w meta unfolding write_done_def meta' by (simp_all add: size_of_def)
  then show "content m b = new_content job old" "md_size m \<le> size_of m" "md_chunkState m = CLEAN"
    "md_chainVer m = job_commitChainVer job" "n = phase_result job (md_size m)"
    "\<exists>meta1. next_version job m0 = Inr meta1 \<and> md_updateVer m = md_updateVer meta1 \<and> md_commitVer m = md_commitVer meta1 \<and>
      md_recycleState m = recycled (uj_updateIO job) (md_recycleState meta1)"
    using n unfolding m meta' by (simp_all add: set_checksum_def content_def size_of_def)
qed

lemma overwrite_parts:
  assumes "off \<le> length p"
  shows "overwrite off d p = take off (overwrite off d p) @ d @ drop (off + length d) (overwrite off d p)"
  using assms by (simp add: overwrite_def)

lemma write_case:
  assumes lib: "checksum_lib_ok lib" and ck: "check_chunk lib job m0 = Inr ()"
    and ty: "\<not> resizes (uj_updateIO job)" "\<not> isRemove (uj_updateIO job)" and data: "has_data job"
    and old: "length old = unat (md_size m0)" "checksum_valid lib meta old"
    and sync: "uo_isSyncing (uj_options job) \<longrightarrow> uio_offset (uj_updateIO job) = 0"
  shows "checksum_case lib (uio_checksum (uj_updateIO job)) (uio_offset (uj_updateIO job)) (uio_length (uj_updateIO job)) meta
    (0 < md_size m0 \<and> uio_offset (uj_updateIO job) = md_size m0) old (new_content job old)"
proof -
  let ?io = "uj_updateIO job" and ?d = "job_data job" and ?off = "unat (uio_offset (uj_updateIO job))"
  have ld: "length ?d = unat (uio_length ?io)" using data ty by (simp add: has_data_def job_data_def)
  have fits: "checksum_fits lib (uio_checksum ?io) ?d"
    using ck checksum_bytes_correct [OF lib] ld
    by (auto simp: checksum_fits_def check_chunk_def Let_def split: if_splits)
  have new: "new_content job old = (if uo_isSyncing (uj_options job) then ?d else overwrite ?off ?d (padded ?off old))"
    using ty sync ld by (auto simp: new_content_def Let_def resizes_def overwrite_def)
  have app: "new_content job old = old @ ?d" "old \<noteq> []" if "0 < md_size m0" "uio_offset ?io = md_size m0"
    using that old(1) sync unfolding new by (auto simp: overwrite_def word_less_nat_alt)
  show ?thesis
    unfolding checksum_case_def
  proof (intro exI [of _ ?d] conjI impI)
    show "?off + length ?d \<le> length (new_content job old)" using sync unfolding new by (auto simp: length_overwrite)
    show "new_content job old = take ?off (new_content job old) @ ?d @ drop (?off + length ?d) (new_content job old)"
      using sync overwrite_parts [of ?off "padded ?off old" ?d] unfolding new by auto
  qed (use fits ld app old(2) in auto)
qed

lemma updated_checksum:
  assumes lib: "checksum_lib_ok lib" and up: "updated lib job now m0 old m b n" and ck: "check_chunk lib job m0 = Inr ()"
    and data: "has_data job" and old: "length old = unat (md_size m0)" "checksum_valid lib m0 old"
    and len: "length (content m b) = unat (md_size m)" and nr: "\<not> isRemove (uj_updateIO job)"
    and sync: "uo_isSyncing (uj_options job) \<longrightarrow> resizes (uj_updateIO job) \<or> uio_offset (uj_updateIO job) = 0"
    and res: "resizes (uj_updateIO job) \<and> 0 < md_size m0 \<and> uio_offset (uj_updateIO job) = md_size m0 \<longrightarrow> new_content job old = old"
  shows "checksum_valid lib m (content m b)"
proof -
  let ?io = "uj_updateIO job" and ?app = "uio_offset (uj_updateIO job) = md_size m0"
  obtain meta d meta' cs off len v where bg: "begun job now m0 meta" and wd: "write_done job meta d meta' b"
    and io: "io_range lib ?io meta' = (cs, off, len)" and m: "m = (set_checksum (cs_type cs) v meta')\<lparr>md_chunkState := CLEAN\<rparr>"
    and val: "\<forall>old. checksum_case lib cs off len meta' (0 < md_size meta \<and> ?app) old (content meta' b) \<longrightarrow>
      checksum_valid lib m (content meta' b)"
    using up unfolding updated_def finished_def by blast
  have cm: "content m b = content meta' b" "md_size m = md_size meta'" by (simp_all add: m content_def set_checksum_def)
  have new: "content meta' b = new_content job old" using updated_meta(1) [OF up] cm(1) by simp
  have "meta_checksum meta' = meta_checksum meta" using wd unfolding write_done_def meta_checksum_def
    by (metis ChunkMetadata.select_convs ChunkMetadata.surjective ChunkMetadata.update_convs)
  then have old': "checksum_valid lib meta' old"
    using begun_size(3) [OF bg] old(2) by (simp add: checksum_valid_def meta_checksum_def)
  have sb: "md_size meta = md_size m0" by (rule begun_size(1) [OF bg])
  have "checksum_case lib cs off len meta' (0 < md_size meta \<and> ?app) old (content meta' b)"
  proof (cases "resizes ?io")
    case True
    then have e: "off = md_size meta'" "len = 0" using io by (simp_all add: io_range_def)
    have "old \<noteq> []" if "0 < md_size m0" using that old(1) by (auto simp: word_less_nat_alt)
    then show ?thesis
      unfolding checksum_case_def
      using e len cm res True old' new sb by (intro exI [of _ "[]"]) (auto simp: checksum_fits_def)
  next
    case False
    then have "cs = uio_checksum ?io" "off = uio_offset ?io" "len = uio_length ?io" using io by (simp_all add: io_range_def)
    then show ?thesis using write_case [OF lib ck False nr data old(1) old'] sync False unfolding new sb by simp
  qed
  then show ?thesis unfolding cm(1) using val by blast
qed

section \<open>Commits of a chunk\<close>

lemma commit_meta_fields:
  assumes "commit_meta job now m = Inr m'"
  shows "same_place m m'" "md_size m' = md_size m" "md_updateVer m' = md_updateVer m" "md_recycleState m' = md_recycleState m"
    "size_of m' = size_of m" "meta_checksum m' = meta_checksum m" "md_commitVer m' = cio_commitVer (uj_commitIO job)"
    "cio_commitVer (uj_commitIO job) \<le> md_updateVer m" "md_chainVer m \<le> job_commitChainVer job"
    "\<not> cio_isForce (uj_commitIO job) \<Longrightarrow> md_chunkState m \<noteq> DIRTY \<and> md_commitVer m < cio_commitVer (uj_commitIO job)"
    "md_chunkState m' = (if md_commitVer m' = md_updateVer m' then COMMIT
      else if cio_isForce (uj_commitIO job) then CLEAN else md_chunkState m)"
  using assms
  by (auto simp: commit_meta_def Let_def stamp_def same_place_def size_of_def meta_checksum_def not_less not_le split: if_splits)

text \<open>A commit that is applied sets the metadata or removes the chunk; one that fails keeps the metadata.\<close>

lemma commit_holds:
  assumes h: "holds G D st" and c: "c = cio_chunkId (uj_commitIO job)" and r: "commit job now st = (r, st')"
  shows "(r = Ret 0 \<and> cio_isRemove (uj_commitIO job) \<and> G c = None \<and> holds G D st') \<or>
    (\<exists>m m'. r = Ret 0 \<and> G c = Some m \<and> commit_meta job now m = Inr m' \<and>
      (if readyToRemove m then \<exists>b. holds (G(c := None)) (D(c := b)) st' else holds (G(c \<mapsto> m')) D st')) \<or>
    (\<forall>x. r \<noteq> Ret x) \<and> (holds G D st' \<or> (\<exists>m b. G c = Some m \<and> readyToRemove m \<and> holds G (D(c := b)) st'))"
proof -
  obtain g st1 where g: "store_get c st = (g, st1)" by fastforce
  from store_get_holds [OF h g] show ?thesis
  proof (elim conjE disjE exE)
    fix e assume a: "holds G D st1" "g = Err e" "e = Storage kChunkMetadataNotFound \<longrightarrow> G c = None"
    then show ?thesis
      using r g c by (auto simp: commit_def Let_def set_result_def modify_def split: if_splits)
  next
    fix info assume a: "holds G D st1" "g = Ret info" "G c = Some (ck_meta info)" "view_ok info"
    let ?m = "ck_meta info"
    define st2 where "st2 = st1\<lparr>rp_result := (rp_result st1)\<lparr>io_commitVer := md_commitVer ?m, io_updateVer := md_updateVer ?m,
      io_commitChainVer := md_chainVer ?m\<rparr>\<rparr>"
    have h2: "holds G D st2" using a(1) by (simp add: st2_def)
    show ?thesis
    proof (cases "commit_meta job now ?m")
      case (Inl e)
      then have "r = Err e" "st' = st2"
        using r g a(2) c by (auto simp: commit_def Let_def sbind_def set_result_def modify_def try_result_def st2_def)
      then show ?thesis using h2 by blast
    next
      case (Inr m')
      note f = commit_meta_fields [OF Inr]
      let ?info = "info\<lparr>ck_meta := m'\<rparr>"
      have rr: "readyToRemove m' = readyToRemove ?m" using f(4) by (simp add: readyToRemove_def)
      have vw: "view_ok ?info" using a(4) f(1) by (simp add: view_ok_def same_place_def)
      obtain x st3 where x: "(if readyToRemove m' then store_remove now c ?info else store_set c ?info True) st2 = (x, st3)"
        by fastforce
      have rx: "(x = Ret () \<longrightarrow> r = Ret 0) \<and> ((\<forall>y. x \<noteq> Ret y) \<longrightarrow> (\<forall>y. r \<noteq> Ret y)) \<and> (\<forall>G D. holds G D st3 \<longrightarrow> holds G D st')"
        using r g a(2) c Inr x
        by (cases x) (auto simp: commit_def Let_def sbind_def set_result_def modify_def try_result_def ret_def st2_def)
      show ?thesis
      proof (cases "readyToRemove ?m")
        case True
        then have "store_remove now c ?info st2 = (x, st3)" using x rr by simp
        from store_remove_holds [OF h2 a(3) _ this] f(1) obtain b where
          "x = Ret () \<and> holds (G(c := None)) (D(c := b)) st3 \<or> (\<forall>y. x \<noteq> Ret y) \<and> holds G (D(c := b)) st3" by auto
        then show ?thesis using True Inr a(3) rx by (elim disjE conjE) (simp, blast)+
      next
        case False
        then have "store_set c ?info True st2 = (x, st3)" using x rr by simp
        from store_set_holds [OF h2 a(3) _ vw this] f(1)
        have "x = Ret () \<and> holds (G(c \<mapsto> m')) D st3 \<or> (\<exists>e. x = Err e) \<and> holds G D st3" by simp
        then show ?thesis using False Inr a(3) rx by auto
      qed
    qed
  qed
qed

section \<open>Properties\<close>

definition versions_ok :: "(chunk_id \<Rightarrow> ChunkMetadata option) \<Rightarrow> bool" where
  "versions_ok G \<longleftrightarrow> (\<forall>c m. G c = Some m \<longrightarrow> md_commitVer m \<le> md_updateVer m \<and>
    (md_chunkState m = COMMIT \<longrightarrow> md_commitVer m = md_updateVer m))"

definition job_chunk :: "UpdateJob \<Rightarrow> chunk_id" where
  "job_chunk job = (if uj_type job = UT_COMMIT then cio_chunkId (uj_commitIO job) else uio_chunkId (uj_updateIO job))"

text \<open>Versions do not wrap: a synchronised version is not 0, and a chunk is not at the last version.\<close>

definition versions_left :: "UpdateJob \<Rightarrow> (chunk_id \<Rightarrow> ChunkMetadata option) \<Rightarrow> bool" where
  "versions_left job G \<longleftrightarrow> (uo_isSyncing (uj_options job) \<longrightarrow> 0 < uio_updateVer (uj_updateIO job)) \<and>
    (\<forall>m. G (job_chunk job) = Some m \<longrightarrow> md_updateVer m < - 1)"

lemma unat_succ: "a < - 1 \<Longrightarrow> unat (a + 1) = unat a + 1" for a :: "32 word"
  using unat_sum [of a 1 "- 1"] by (simp add: word_less_nat_alt)

lemma unat_pred: "0 < a \<Longrightarrow> unat (a - 1) = unat a - 1" for a :: "32 word"
  by (simp add: unat_sub word_le_nat_alt word_less_nat_alt)

text \<open>The versions of an accepted update.\<close>

definition versions_after :: "UpdateJob \<Rightarrow> ChunkMetadata \<Rightarrow> ChunkMetadata \<Rightarrow> bool" where
  "versions_after job m m' \<longleftrightarrow> (let v = uio_updateVer (uj_updateIO job) in
    if uo_isSyncing (uj_options job) then md_updateVer m' = v \<and> md_commitVer m' = v - 1
    else md_updateVer m' = md_updateVer m + 1 \<and> md_commitVer m' = md_commitVer m \<and>
      (v = 0 \<and> md_updateVer m + 1 \<le> md_commitVer m + 1 \<or> 0 < v \<and> v = md_updateVer m + 1))"

lemma next_version_after:
  assumes n: "next_version job m = Inr m'"
  shows "versions_after job m m'"
proof (cases "\<not> uo_isSyncing (uj_options job) \<and> 0 < uio_updateVer (uj_updateIO job)")
  case True
  let ?v = "uio_updateVer (uj_updateIO job)"
  have v: "md_updateVer m < ?v" "?v \<le> md_updateVer m + 1" "m' = m\<lparr>md_updateVer := ?v\<rparr>"
    using n True by (auto simp: next_version_def Let_def not_less not_le split: if_splits)
  have "md_updateVer m < - 1" using v(1) by (rule order.strict_trans2) simp
  then have "?v = md_updateVer m + 1"
    using v(1,2) unat_succ unfolding word_less_nat_alt word_le_nat_alt by (intro word_unat_eq_iff [THEN iffD2]) fastforce
  then show ?thesis using v(3) True by (simp add: versions_after_def)
qed (use n in \<open>auto simp: next_version_def versions_after_def Let_def not_less split: if_splits\<close>)

lemma versions_after_ok:
  assumes "versions_after job m m'" "md_commitVer m \<le> md_updateVer m" "md_updateVer m < - 1"
    "uo_isSyncing (uj_options job) \<Longrightarrow> 0 < uio_updateVer (uj_updateIO job)"
  shows "md_commitVer m' \<le> md_updateVer m'"
  using assms unat_succ [OF assms(3)] unat_pred [of "uio_updateVer (uj_updateIO job)"]
  by (auto simp: versions_after_def Let_def word_le_nat_alt split: if_splits)

lemma versions_after_same:
  assumes "next_version job m = Inr m1" "md_updateVer m' = md_updateVer m1" "md_commitVer m' = md_commitVer m1"
  shows "versions_after job m m'"
  using next_version_after [OF assms(1)] assms(2,3) unfolding versions_after_def Let_def by simp

lemma updated_versions: "updated lib job now m0 old m b n \<Longrightarrow> versions_after job m0 m"
  using updated_meta(6) versions_after_same by metis

lemma begun_versions: "begun job now m0 m \<Longrightarrow> versions_after job m0 m"
  unfolding begun_def by (elim exE conjE) (rule versions_after_same; simp)

text \<open>
  C13: a successful update changes the content of its chunk the way the request asks. A write puts the
  data at the offset and fills a gap before it with zeros, a truncation cuts or fills, an extension only
  fills, a removal keeps the bytes. The chunk becomes clean at the chain version of the job. Its update
  version is the next one, with the request at that version or at 0 when no update is pending, and the
  commit version stays; a synchronising update takes the version of the request instead, with the one
  before as commit version. The store holds the same metadata and bytes of every other chunk. The update
  is not the removal of a missing chunk, the bytes of a write are there, no chunk is longer than its
  place, reads of the key-value store succeed, and the functions for checksums obey their law.
\<close>

theorem update_changes_content:
  assumes "checksum_lib_ok lib" "holds G D st" "sizes_ok G" "has_data job" "update lib job now st = (Ret n, st')"
    and "c = uio_chunkId (uj_updateIO job)" "isRemove (uj_updateIO job) \<Longrightarrow> G c \<noteq> None"
  shows "\<exists>m b. holds (G(c \<mapsto> m)) (D(c := b)) st' \<and> sizes_ok (G(c \<mapsto> m)) \<and>
    content m b = new_content job (content_of G D c) \<and> n = phase_result job (md_size m) \<and>
    md_chunkState m = CLEAN \<and> md_chainVer m = job_commitChainVer job \<and>
    versions_after job (before job G c) m"
proof -
  obtain m b where h: "holds (G(c \<mapsto> m)) (D(c := b)) st'" and u: "updated lib job now (before job G c) (content_of G D c) m b n"
    using update_holds [OF assms(1-3,6,4,5)] assms(7) by auto
  note f = updated_meta [OF u]
  have "sizes_ok (G(c \<mapsto> m))" using assms(3) f(2) by (simp add: sizes_ok_def)
  then show ?thesis using h f(1,3-5) updated_versions [OF u] by blast
qed

text \<open>
  C14: an update that does not succeed, under the same conditions and whatever step failed, leaves the
  metadata and bytes of all chunks as they were, or its own chunk, an existing or a new one, dirty at
  the version of the update, and every other chunk as it was. A dirty chunk takes no further update but
  a synchronisation: the check of any other one fails.
\<close>

theorem failed_update_leaves_dirty:
  assumes "checksum_lib_ok lib" "holds G D st" "sizes_ok G" "has_data job" "update lib job now st = (r, st')" "\<forall>n. r \<noteq> Ret n"
    and "c = uio_chunkId (uj_updateIO job)"
  shows "holds G D st' \<or> (\<exists>m b. holds (G(c \<mapsto> m)) (D(c := b)) st' \<and> sizes_ok (G(c \<mapsto> m)) \<and> md_chunkState m = DIRTY \<and>
    versions_after job (before job G c) m \<and>
    (\<forall>job'. \<not> uo_isSyncing (uj_options job') \<longrightarrow> (\<exists>e. check_chunk lib job' m = Inl e)))"
proof -
  have "(\<exists>e. check_chunk lib job' m = Inl e)" if "md_chunkState m = DIRTY" "\<not> uo_isSyncing (uj_options job')" for job' m
    using that by (simp add: check_chunk_def Let_def)
  moreover have "sizes_ok (G(c \<mapsto> m))" if "md_size m \<le> size_of m" for m using assms(3) that by (simp add: sizes_ok_def)
  ultimately show ?thesis
    using update_holds [OF assms(1-3,7,4,5)] assms(6) begun_size(2) begun_versions by metis
qed

text \<open>
  C15: a successful write, truncation or extension, under the same conditions, leaves the chunk with the
  checksum of its new content if the old one was that of the old content, whether it takes the checksum
  of the request, combines it with the old one or reads the chunk. A synchronising write has to start at
  0, and a truncation or extension of a chunk that is not empty must not have the size of the chunk as
  its offset unless the content stays; the offsets the service sends for them are 0.
\<close>

theorem update_keeps_checksum:
  assumes "checksum_lib_ok lib" "holds G D st" "sizes_ok G" "has_data job" "update lib job now st = (Ret n, st')"
    and "c = uio_chunkId (uj_updateIO job)" "\<not> isRemove (uj_updateIO job)"
    and "checksum_valid lib (before job G c) (content_of G D c)"
    and "uo_isSyncing (uj_options job) \<longrightarrow> resizes (uj_updateIO job) \<or> uio_offset (uj_updateIO job) = 0"
    and "resizes (uj_updateIO job) \<and> 0 < md_size (before job G c) \<and> uio_offset (uj_updateIO job) = md_size (before job G c)
      \<longrightarrow> new_content job (content_of G D c) = content_of G D c"
  shows "\<exists>m b. holds (G(c \<mapsto> m)) (D(c := b)) st' \<and> content m b = new_content job (content_of G D c) \<and>
    checksum_valid lib m (content m b)"
proof -
  obtain m b where h: "holds (G(c \<mapsto> m)) (D(c := b)) st'" and u: "updated lib job now (before job G c) (content_of G D c) m b n"
    and ck: "check_chunk lib job (before job G c) = Inr ()"
    using update_holds [OF assms(1-3,6,4,5)] assms(7) by auto
  have "length b = unat (size_of m)" using holds_length [OF h, of c m] by simp
  then have len: "length (content m b) = unat (md_size m)" using updated_meta(2) [OF u] by (simp add: content_def word_le_nat_alt)
  have "length (content_of G D c) = unat (md_size (before job G c))"
    using holds_length [OF assms(2)] assms(3)
    by (auto simp: content_of_def before_def content_def new_chunk_def default_ChunkMetadata_def sizes_ok_def word_le_nat_alt
        split: option.split)
  from updated_checksum [OF assms(1) u ck assms(4) this assms(8) len assms(7,9,10)]
  show ?thesis using h updated_meta(1) [OF u] by blast
qed

text \<open>
  A successful commit of a chunk sets its commit version to the one asked for, which is at most its last
  update and, unless forced, above the last commit and not on a dirty chunk. The chunk is in state
  commit exactly when all its updates are committed, at the chain version of the job, which is not an
  older one. A chunk marked for removal is removed; of any other the content and the checksum stay. No
  other chunk changes.
\<close>

lemma commit_effect:
  assumes "holds G D st" "G c = Some m" "c = cio_chunkId (uj_commitIO job)" "commit job now st = (Ret n, st')" "versions_ok G"
  shows "n = 0 \<and> cio_commitVer (uj_commitIO job) \<le> md_updateVer m \<and> md_chainVer m \<le> job_commitChainVer job \<and>
    (cio_isForce (uj_commitIO job) \<or> md_chunkState m \<noteq> DIRTY \<and> md_commitVer m < cio_commitVer (uj_commitIO job)) \<and>
    (if md_recycleState m \<noteq> NORMAL then \<exists>b. holds (G(c := None)) (D(c := b)) st'
     else \<exists>m'. holds (G(c \<mapsto> m')) D st' \<and> md_commitVer m' = cio_commitVer (uj_commitIO job) \<and>
       md_updateVer m' = md_updateVer m \<and> (md_chunkState m' = COMMIT \<longleftrightarrow> md_commitVer m' = md_updateVer m') \<and>
       (md_chunkState m' = COMMIT \<longrightarrow> md_chainVer m' = job_commitChainVer job) \<and>
       content m' (D c) = content m (D c) \<and> meta_checksum m' = meta_checksum m)"
proof -
  obtain m' where cm: "commit_meta job now m = Inr m'" and n: "n = 0"
    and h: "if readyToRemove m then \<exists>b. holds (G(c := None)) (D(c := b)) st' else holds (G(c \<mapsto> m')) D st'"
    using commit_holds [OF assms(1,3,4)] assms(2) by auto
  note f = commit_meta_fields [OF cm]
  have v: "md_chunkState m = COMMIT \<Longrightarrow> md_commitVer m = md_updateVer m" using assms(2,5) by (simp add: versions_ok_def)
  have st: "md_chunkState m' = COMMIT \<longleftrightarrow> md_commitVer m' = md_updateVer m'"
    using f(3,7,8,10,11) v by (cases "cio_isForce (uj_commitIO job)") auto
  have "md_chunkState m' = COMMIT \<longrightarrow> md_chainVer m' = job_commitChainVer job"
    unfolding st using cm by (auto simp: commit_meta_def Let_def stamp_def split: if_splits)
  then show ?thesis using n h f st by (auto simp: readyToRemove_def content_def)
qed

lemma commit_versions:
  assumes "versions_ok G" "G c = Some m" "commit_meta job now m = Inr m'"
  shows "md_commitVer m' \<le> md_updateVer m' \<and> (md_chunkState m' = COMMIT \<longrightarrow> md_commitVer m' = md_updateVer m')"
  using commit_meta_fields [OF assms(3)] assms(1,2) by (auto simp: versions_ok_def split: if_splits)

definition replica_ok :: "(chunk_id \<Rightarrow> ChunkMetadata option) \<Rightarrow> bool" where
  "replica_ok G \<longleftrightarrow> sizes_ok G \<and> versions_ok G"

lemma replica_ok_upd:
  assumes "replica_ok G" "md_size m \<le> size_of m" "md_commitVer m \<le> md_updateVer m"
    "md_chunkState m = COMMIT \<Longrightarrow> md_commitVer m = md_updateVer m"
  shows "replica_ok (G(c \<mapsto> m))"
  using assms by (auto simp: replica_ok_def sizes_ok_def versions_ok_def)

lemma replica_ok_del: "replica_ok G \<Longrightarrow> replica_ok (G(c := None))"
  by (auto simp: replica_ok_def sizes_ok_def versions_ok_def)

lemma commit_keeps_ok:
  assumes "holds G D st" "replica_ok G" "c = cio_chunkId (uj_commitIO job)" "commit job now st = (r, st')"
  shows "\<exists>g b. holds (G(c := g)) (D(c := b)) st' \<and> replica_ok (G(c := g))"
proof -
  have same: ?thesis if "holds G D st'" using that assms(2) by (intro exI [of _ "G c"] exI [of _ "D c"]) simp
  have upd: "replica_ok (G(c \<mapsto> m'))" if "G c = Some m" "commit_meta job now m = Inr m'" for m m'
  proof (rule replica_ok_upd [OF assms(2)])
    have ok: "versions_ok G" "md_size m \<le> size_of m" using assms(2) that(1) by (simp_all add: replica_ok_def sizes_ok_def)
    show "md_size m' \<le> size_of m'" using ok(2) commit_meta_fields(2,5) [OF that(2)] by simp
    show "md_commitVer m' \<le> md_updateVer m'" "md_chunkState m' = COMMIT \<Longrightarrow> md_commitVer m' = md_updateVer m'"
      using commit_versions [OF ok(1) that] by simp_all
  qed
  from commit_holds [OF assms(1,3,4)] show ?thesis
  proof (elim disjE exE conjE)
    fix m m' assume a: "G c = Some m" "commit_meta job now m = Inr m'"
      "if readyToRemove m then \<exists>b. holds (G(c := None)) (D(c := b)) st' else holds (G(c \<mapsto> m')) D st'"
    show ?thesis
    proof (cases "readyToRemove m")
      case True
      then show ?thesis using a(3) replica_ok_del [OF assms(2)] by auto
    next
      case False
      then have "holds (G(c \<mapsto> m')) (D(c := D c)) st'" using a(3) by simp
      then show ?thesis using upd [OF a(1,2)] by blast
    qed
  next
    fix m b assume "holds G (D(c := b)) st'"
    then have "holds (G(c := G c)) (D(c := b)) st' \<and> replica_ok (G(c := G c))" using assms(2) by simp
    then show ?thesis by blast
  qed (use same in blast)+
qed

lemma update_keeps_ok:
  assumes lib: "checksum_lib_ok lib" and h: "holds G D st" and ok: "replica_ok G" and data: "has_data job"
    and c: "c = uio_chunkId (uj_updateIO job)" and left: "uo_isSyncing (uj_options job) \<longrightarrow> 0 < uio_updateVer (uj_updateIO job)"
      "\<forall>m. G c = Some m \<longrightarrow> md_updateVer m < - 1"
    and r: "update lib job now st = (r, st')"
  shows "\<exists>g b. holds (G(c := g)) (D(c := b)) st' \<and> replica_ok (G(c := g))"
proof -
  have same: ?thesis if "holds G D st'" using that ok by (intro exI [of _ "G c"] exI [of _ "D c"]) simp
  have sz: "sizes_ok G" using ok by (simp add: replica_ok_def)
  have b0: "md_commitVer (before job G c) \<le> md_updateVer (before job G c)" "md_updateVer (before job G c) < - 1"
    using ok left(2) by (auto simp: before_def replica_ok_def versions_ok_def new_chunk_def default_ChunkMetadata_def word_gt_0
        split: option.split)
  have upd: "replica_ok (G(c \<mapsto> m))" if "versions_after job (before job G c) m" "md_size m \<le> size_of m" "md_chunkState m \<noteq> COMMIT" for m
    using that versions_after_ok [OF that(1) b0] left(1) ok by (intro replica_ok_upd) auto
  from update_holds [OF lib h sz c data r] show ?thesis
  proof (elim disjE exE conjE)
    fix m b n assume "updated lib job now (before job G c) (content_of G D c) m b n" "holds (G(c \<mapsto> m)) (D(c := b)) st'"
    then show ?thesis
      using upd [of m] updated_meta(2,3) [of lib job now "before job G c" "content_of G D c" m b n]
        updated_versions [of lib job now "before job G c" "content_of G D c" m b n] by auto
  next
    fix m b assume "begun job now (before job G c) m" "md_size m \<le> size_of m" "holds (G(c \<mapsto> m)) (D(c := b)) st'"
    then show ?thesis using upd [of m] begun_size(2) [of job now _ m] begun_versions [of job now _ m] by auto
  qed (use ok same in blast)+
qed

text \<open>
  C16: whatever a job of a target does and however it ends, the store holds a state that differs at most
  in the metadata and the bytes of its own chunk; no chunk is longer than its place, no commit version
  is above the update version, and a chunk in state commit has no update that is not committed. Versions
  must not wrap: a synchronised version is not 0 and the chunk of the job is not at the last version.
  The bytes of a write are there, reads of the key-value store succeed, and the functions for checksums
  obey their law.
\<close>

theorem updateChunk_keeps_invariant:
  assumes "checksum_lib_ok lib" "holds G D st" "replica_ok G" "uj_type job \<noteq> UT_COMMIT \<Longrightarrow> has_data job" "versions_left job G"
    and "updateChunk lib job now st = (r, st')"
  shows "\<exists>g b. holds (G(job_chunk job := g)) (D(job_chunk job := b)) st' \<and> replica_ok (G(job_chunk job := g))"
proof -
  obtain x st1 where x: "(if uj_type job = UT_COMMIT then commit job now st else update lib job now st) = (x, st1)" by fastforce
  have "\<exists>g b. holds (G(job_chunk job := g)) (D(job_chunk job := b)) st1 \<and> replica_ok (G(job_chunk job := g))"
  proof (cases "uj_type job = UT_COMMIT")
    case True
    then show ?thesis using x by (intro commit_keeps_ok [OF assms(2,3)]) (simp_all add: job_chunk_def)
  next
    case False
    then show ?thesis
      using x assms(4,5) by (intro update_keeps_ok [OF assms(1-3)]) (simp_all add: job_chunk_def versions_left_def)
  qed
  moreover have "holds G' D' st' = holds G' D' st1" for G' D'
    using assms(6) x by (cases x) (auto simp: updateChunk_def set_result_def modify_def)
  ultimately show ?thesis by simp
qed

section \<open>Resetting and reading\<close>

text \<open>Resetting the uncommitted chunks touches only those and keeps the invariant.\<close>

lemma reset_chunks_keeps:
  assumes "holds G D st" "replica_ok G"
  shows "\<exists>G' D'. holds G' D' (reset_chunks chainVer now cs st) \<and> replica_ok G' \<and>
    (\<forall>c. c \<notin> set cs \<longrightarrow> G' c = G c \<and> D' c = D c)"
  using assms
proof (induction cs arbitrary: G D st)
  case Nil
  then show ?case by auto
next
  case (Cons c cs)
  obtain g st1 where g: "store_get c st = (g, st1)" by fastforce
  note sg = store_get_holds [OF Cons.prems(1) g]
  define st2 where "st2 = (case g of Ret info \<Rightarrow> snd (commit (reset_job c (md_updateVer (ck_meta info)) chainVer) now
    (st1\<lparr>rp_result := default_IOResult\<rparr>)) | _ \<Rightarrow> st1)"
  have eq: "reset_chunks chainVer now (c # cs) st = reset_chunks chainVer now cs st2"
    using g by (simp add: st2_def split: outcome.split)
  have "\<exists>x b. holds (G(c := x)) (D(c := b)) st2 \<and> replica_ok (G(c := x))"
  proof (cases "\<exists>info. g = Ret info")
    case True
    then obtain info where i: "g = Ret info" by blast
    let ?job = "reset_job c (md_updateVer (ck_meta info)) chainVer"
    have h: "holds G D (st1\<lparr>rp_result := default_IOResult\<rparr>)" using sg by simp
    have "c = cio_chunkId (uj_commitIO ?job)" by (simp add: reset_job_def)
    from commit_keeps_ok [OF h Cons.prems(2) this] show ?thesis using i by (metis st2_def outcome.case(1) prod.collapse)
  next
    case False
    then have "st2 = st1" using sg by (auto simp: st2_def)
    then show ?thesis using sg Cons.prems(2) by (intro exI [of _ "G c"] exI [of _ "D c"]) simp
  qed
  then obtain x b where "holds (G(c := x)) (D(c := b)) st2" "replica_ok (G(c := x))" by blast
  from Cons.IH [OF this] show ?case unfolding eq by fastforce
qed

text \<open>A read is prepared for the current version, which is the committed one unless the request takes any.\<close>

lemma aioPrepareRead_result:
  assumes "holds G D st" "aioPrepareRead job st = (Ret (), st')"
  shows "\<exists>m. G (rj_chunkId job) = Some m \<and> (rj_readUncommitted job \<or> md_commitVer m = md_updateVer m) \<and>
    io_updateVer (rp_result st') = md_updateVer m \<and> rs_chunkLen (rp_read st') = md_size m \<and>
    rs_readFile (rp_read st') = Some (md_innerFileId m) \<and>
    rs_readOffset (rp_read st') = md_innerOffset m + unat (alignedOffset job) \<and> holds G D st'"
proof -
  obtain g st1 where g: "store_get (rj_chunkId job) st = (g, st1)" by fastforce
  then show ?thesis
    using store_get_holds [OF assms(1) g] assms(2)
    by (auto simp: aioPrepareRead_def sbind_def Let_def set_result_def set_read_def modify_def fail_def view_ok_def split: if_splits)
qed

section \<open>Examples\<close>

definition no_read :: ReadState where
  "no_read = \<lparr>rs_chunkLen = 0, rs_chunkChecksum = no_checksum, rs_readLength = 0, rs_readFile = None, rs_readOffset = 0\<rparr>"

definition fresh_replica :: replica where
  "fresh_replica = meta_store.extend example_disk \<lparr>cs_map = [], cs_forcePersist = False, rp_result = default_IOResult, rp_read = no_read\<rparr>"

text \<open>The exclusive or of the bytes obeys the law of the library of checksums too, and is quick to evaluate.\<close>

definition xor_bytes :: "bytes \<Rightarrow> 32 word \<Rightarrow> 32 word" where
  "xor_bytes data v = foldl (\<lambda>r b. r XOR ucast b) v data"

definition xor_lib :: checksum_lib where
  "xor_lib = \<lparr>crc32c = xor_bytes, crc32c_combine = (\<lambda>x y n. x XOR y), crc32 = xor_bytes, crc32_combine = (\<lambda>x y n. x XOR y)\<rparr>"

lemma xor_bytes_linear: "x XOR xor_bytes data v = xor_bytes data (x XOR v)"
  by (induction data arbitrary: v) (simp_all add: xor_bytes_def xor.assoc)

lemma xor_lib_ok: "checksum_lib_ok xor_lib"
  by (simp add: checksum_lib_ok_def crc_ok_def xor_lib_def xor_bytes_linear) (simp add: xor_bytes_def)

definition ready_replica :: replica where
  "ready_replica = snd (meta_addChunkSize [4] fresh_replica)"

definition example_job :: "UpdateType \<Rightarrow> 32 word \<Rightarrow> bytes \<Rightarrow> 32 word \<Rightarrow> UpdateJob" where
  "example_job t off data ver = \<lparr>uj_type = t,
     uj_updateIO = \<lparr>uio_offset = off, uio_length = of_nat (length data), uio_chunkSize = 4, uio_chunkId = ''a'', uio_chainVer = 1,
       uio_updateVer = ver, uio_updateType = t, uio_checksum = checksum_bytes xor_lib CRC32C data\<rparr>,
     uj_commitIO = \<lparr>cio_chunkId = ''a'', cio_commitVer = ver, cio_commitChainVer = 1, cio_isRemove = False, cio_isForce = False\<rparr>,
     uj_options = \<lparr>uo_isSyncing = False, uo_commitChainVer = 0\<rparr>, uj_data = data, uj_allowToAllocate = True,
     uj_requestId = 7, uj_clientUuid = ''u''\<rparr>"

abbreviation "gap_write \<equiv> example_job UT_WRITE 1 [2, 3] 0"

definition written_replica :: replica where
  "written_replica = snd (update xor_lib gap_write 5 ready_replica)"

lemma ready_holds: "holds Map.empty D ready_replica"
proof -
  have "meta_inv fresh_replica" by (rule new_store_inv) (simp_all add: fresh_replica_def example_disk_def meta_store.defs)
  then have "framed Map.empty D fresh_replica"
    by (simp add: framed_def metas_def fresh_replica_def example_disk_def meta_store.defs fun_eq_iff)
  then have f: "framed Map.empty D ready_replica" unfolding ready_replica_def by (rule keepsD [OF meta_addChunkSize_keeps])
  have "cs_map ready_replica = []" by code_simp
  then have "stored Map.empty Map.empty D ready_replica" using f by (simp add: stored_def cache_ok_def)
  moreover have "current Map.empty Map.empty = Map.empty" by (simp add: current_def fun_eq_iff)
  ultimately show ?thesis unfolding holds_def by blast
qed

lemma gap_write_runs: "fst (update xor_lib gap_write 5 ready_replica) = Ret 2"
  by code_simp

lemma gap_write_facts:
  "update xor_lib gap_write 5 ready_replica = (Ret 2, written_replica)" "has_data gap_write" "\<not> isRemove (uj_updateIO gap_write)"
  "\<not> resizes (uj_updateIO gap_write)" "sizes_ok Map.empty" "uio_chunkId (uj_updateIO gap_write) = ''a''"
  "new_content gap_write [] = [0, 2, 3]" "\<not> uo_isSyncing (uj_options gap_write)" "job_chunk gap_write = ''a''"
  "replica_ok Map.empty"
proof -
  show "update xor_lib gap_write 5 ready_replica = (Ret 2, written_replica)"
    using gap_write_runs unfolding written_replica_def by (metis prod.collapse)
  show "has_data gap_write" "\<not> isRemove (uj_updateIO gap_write)" "\<not> resizes (uj_updateIO gap_write)"
    "uio_chunkId (uj_updateIO gap_write) = ''a''" "new_content gap_write [] = [0, 2, 3]" "\<not> uo_isSyncing (uj_options gap_write)"
    "job_chunk gap_write = ''a''"
    by code_simp+
  show "sizes_ok Map.empty" "replica_ok Map.empty" by (simp_all add: sizes_ok_def replica_ok_def versions_ok_def)
qed

lemma empty_chunk: "content_of Map.empty D c = []" "before job Map.empty c = ck_meta (new_chunk job)"
  by (simp_all add: content_of_def before_def)

theorem update_changes_content_witness:
  "\<exists>m b. holds [''a'' \<mapsto> m] ((\<lambda>_. [])(''a'' := b)) written_replica \<and> content m b = [0, 2, 3] \<and> md_chunkState m = CLEAN"
  using update_changes_content [OF xor_lib_ok ready_holds gap_write_facts(5,2,1) refl, of "\<lambda>_. []"] gap_write_facts(3)
  unfolding gap_write_facts(6,7) empty_chunk by blast

text \<open>The prefix of the chunk cannot be read.\<close>

definition unreadable_replica :: replica where
  "unreadable_replica = ready_replica\<lparr>dk_reads := [None]\<rparr>"

theorem failed_update_leaves_dirty_witness:
  "fst (update xor_lib gap_write 5 unreadable_replica) = Err (Storage kChunkReadFailed) \<and>
    (holds Map.empty (\<lambda>_. []) (snd (update xor_lib gap_write 5 unreadable_replica)) \<or>
     (\<exists>m b. holds [''a'' \<mapsto> m] ((\<lambda>_. [])(''a'' := b)) (snd (update xor_lib gap_write 5 unreadable_replica)) \<and> md_chunkState m = DIRTY))"
proof -
  have h: "holds Map.empty (\<lambda>_. []) unreadable_replica" by (rule holds_disk [OF ready_holds]) (simp add: unreadable_replica_def)
  have e: "fst (update xor_lib gap_write 5 unreadable_replica) = Err (Storage kChunkReadFailed)" by code_simp
  then show ?thesis
    using failed_update_leaves_dirty [OF xor_lib_ok h gap_write_facts(5,2) surjective_pairing _ refl, where now = 5]
    unfolding gap_write_facts(6) by simp blast
qed

theorem update_keeps_checksum_witness:
  "\<exists>m b. holds [''a'' \<mapsto> m] ((\<lambda>_. [])(''a'' := b)) written_replica \<and> content m b = [0, 2, 3] \<and> checksum_valid xor_lib m [0, 2, 3]"
proof -
  have "checksum_valid xor_lib (ck_meta (new_chunk gap_write)) []"
    by (simp add: checksum_valid_def meta_checksum_def new_chunk_def default_ChunkMetadata_def)
  then have "\<exists>m b. holds [''a'' \<mapsto> m] ((\<lambda>_. [])(''a'' := b)) written_replica \<and> content m b = [0, 2, 3] \<and>
      checksum_valid xor_lib m (content m b)"
    using update_keeps_checksum [OF xor_lib_ok ready_holds gap_write_facts(5,2,1) refl gap_write_facts(3), of "\<lambda>_. []"]
      gap_write_facts(4,8)
    unfolding gap_write_facts(6,7) empty_chunk by simp
  then show ?thesis by metis
qed

theorem updateChunk_keeps_invariant_witness:
  "\<exists>g b. holds (Map.empty(''a'' := g)) ((\<lambda>_. [])(''a'' := b)) (snd (updateChunk xor_lib gap_write 5 ready_replica)) \<and>
    replica_ok (Map.empty(''a'' := g))"
  using updateChunk_keeps_invariant [OF xor_lib_ok ready_holds gap_write_facts(10) gap_write_facts(2) _ surjective_pairing]
    gap_write_facts(8)
  unfolding gap_write_facts(9) versions_left_def by simp

text \<open>The write is committed.\<close>

lemma commit_effect_witness:
  "\<exists>m' b. holds [''a'' \<mapsto> m'] ((\<lambda>_. [])(''a'' := b)) (snd (commit (example_job UT_COMMIT 0 [] 1) 6 written_replica)) \<and>
    md_commitVer m' = 1 \<and> md_chunkState m' = COMMIT"
proof -
  let ?job = "example_job UT_COMMIT 0 [] 1"
  obtain m b where h: "holds [''a'' \<mapsto> m] ((\<lambda>_. [])(''a'' := b)) written_replica"
    and u: "updated xor_lib gap_write 5 (ck_meta (new_chunk gap_write)) [] m b 2"
    using update_holds [OF xor_lib_ok ready_holds gap_write_facts(5) refl gap_write_facts(2,1), of "\<lambda>_. []"] gap_write_facts(3)
    unfolding gap_write_facts(6) empty_chunk by auto
  have n: "next_version gap_write (ck_meta (new_chunk gap_write)) = Inr ((ck_meta (new_chunk gap_write))\<lparr>md_updateVer := 1\<rparr>)" by code_simp
  have m: "md_updateVer m = 1" "md_commitVer m = 0" "md_recycleState m = NORMAL" "md_chunkState m = CLEAN"
    using updated_meta(3,6) [OF u] n gap_write_facts(3) by (auto simp: recycled_def new_chunk_def default_ChunkMetadata_def)
  have v: "versions_ok [''a'' \<mapsto> m]" using m by (auto simp: versions_ok_def)
  have c: "fst (commit ?job 6 written_replica) = Ret 0" by code_simp
  have io: "cio_chunkId (uj_commitIO ?job) = ''a''" "cio_commitVer (uj_commitIO ?job) = 1" by (simp_all add: example_job_def)
  have "commit ?job 6 written_replica = (Ret 0, snd (commit ?job 6 written_replica))" using c by (metis prod.collapse)
  from commit_effect [OF h _ io(1) [symmetric] this v] m io(2)
  have "\<exists>m'. holds [''a'' \<mapsto> m'] ((\<lambda>_. [])(''a'' := b)) (snd (commit ?job 6 written_replica)) \<and> md_commitVer m' = 1 \<and> md_chunkState m' = COMMIT"
    by auto
  then show ?thesis by blast
qed

end
