(* ===== verification/Spec2Isabelle.thy ===== *)
theory Spec2Isabelle
  imports Serializability Mgmtd_Service Chunk_Replica
begin

text \<open>
  Verification of 3FS, a distributed file system. First its cluster manager, from the encoding of keys in
  the store up to the service with its background tasks and several managers competing for the lease; then
  the chunks of a storage target, from the bytes of their files up to the store that caches their metadata.

  \<^bold>\<open>The program.\<close> A cluster manager (\<^verbatim>\<open>src/src/mgmtd\<close>) decides which storage targets form a replication
  chain and which of them serve. It keeps nodes, chains, chain tables, configurations, tags and a lease
  in a transactional key-value store (\<^verbatim>\<open>src/src/mgmtd/store\<close> over \<^verbatim>\<open>src/src/common/kv\<close>) and a copy of them,
  with the state reported by heartbeats, in memory (\<^verbatim>\<open>src/src/mgmtd/service\<close>). Clients and servers call its
  operations (\<^verbatim>\<open>src/src/mgmtd/ops\<close>); tasks in the background (\<^verbatim>\<open>src/src/mgmtd/background\<close>) extend the
  lease, react to missing heartbeats, recompute chains and persist locations. Only the manager that holds
  the lease, the primary, changes anything. A storage target (\<^verbatim>\<open>src/src/storage/store\<close>) keeps chunks at
  positions of a few large files, and their metadata, together with the free positions, in a local key-value
  store.

  \<^bold>\<open>Conventions.\<close> In the cluster manager ids, versions and offsets are words of their width, with
  wrap-around, and so are ids, versions and sizes of chunks in a storage target; offsets and sizes of files,
  counters of positions and retries and lengths of lists, which are \<^verbatim>\<open>uint64_t\<close> or \<^verbatim>\<open>size_t\<close> in the source,
  are natural numbers, without a wrap at 2^64. Times are \<open>int\<close> in microseconds. Hash maps are association lists with distinct keys (their order is the order of an
  iteration, which no theorem fixes), ordered maps are sorted ones (\<open>omap\<close>). An error is \<open>Inl\<close> of a status or
  \<open>Err\<close>; a FATAL log, a failed lookup with \<^verbatim>\<open>at\<close> and undefined behaviour are \<open>None\<close> or \<open>Crash\<close>; an
  operation that still retries is \<open>Pending\<close>. Clocks, the outcome of each attempt of a transaction
  (committed, failed while reading, failed, or unknown although it was applied), the user store, the
  configuration listener and the UUID parser are arguments (\<open>op_env\<close>). Logs and metrics are left out.

  \<^bold>\<open>Prelude.\<close> Status codes (\<^verbatim>\<open>StatusCodeDetails.h\<close>), results, outcomes and actions, folds that may abort,
  ordered maps, and lemmas on maps that are filled in loops.

  \<^bold>\<open>Chains.\<close> \<^theory_text>\<open>Chain_Update\<close> models \<^verbatim>\<open>updateChain.cc\<close> function by function (\<open>generateNewChain\<close>,
  \<open>rotateLastSrv\<close>, \<open>rotateAsPreferredOrder\<close>, \<open>shutdownChain\<close>). No target is lost, exactly the right targets
  serve, the head keeps its authority, the result has a fixed shape, and repeated updates converge.

  \<^bold>\<open>Data.\<close> \<^theory_text>\<open>App_Info\<close>, \<^theory_text>\<open>Ring_Buffer\<close> and \<^theory_text>\<open>Mgmtd_Types\<close> hold the structs. The ring buffer refines a bounded
  list; iterating over it ends exactly while it is not full. \<^theory_text>\<open>Routing_Info\<close> models \<^verbatim>\<open>RoutingInfo.cc\<close> with the
  invariant \<open>ri_wf\<close> (chains, targets, orphan targets and new chains fit together); \<^theory_text>\<open>Mgmtd_Data\<close> models
  \<^verbatim>\<open>MgmtdData.cc\<close>: versioned configurations, snapshots with their cache, and the changes of chains.

  \<^bold>\<open>Stores.\<close> \<^theory_text>\<open>Byte_Keys\<close> models the serialiser of keys and \<^theory_text>\<open>Mem_Kv\<close>, \<^theory_text>\<open>Mem_Transaction\<close> the in-memory
  multi-version store with its transactions; \<^theory_text>\<open>Serializability\<close> shows that every interleaving of transactions
  equals a serial run in commit order. \<^theory_text>\<open>Kv_Helpers\<close> models the paged listing and the retry loop, over a
  locale for readers of ranges that the transactions interpret. \<^theory_text>\<open>Mgmtd_Store\<close> models \<^verbatim>\<open>MgmtdStore.cc\<close>; its
  abstraction \<open>abs_store\<close> is a record of typed tables, and every operation refines the one on tables. Listing a prefix is one step there; that the paged listing
  returns the same is the theorem on it in \<^theory_text>\<open>Kv_Helpers\<close>. A
  stored value is the record it serialises, tagged with its type.

  \<^bold>\<open>Operations.\<close> \<^theory_text>\<open>Mgmtd_State\<close> models the state of a process and the helpers of its operations, among them
  \<open>withReadWriteTxn\<close> with its retries and the check of the lease on every write. \<^theory_text>\<open>Mgmtd_Invariant\<close> has the
  invariant \<open>mgmtd_inv\<close> (memory is well-formed and agrees with the store), the contract \<open>op_post\<close> of an
  operation and the locale \<open>writer\<close>, which lifts the contract to sequences. \<^theory_text>\<open>Mgmtd_Node_Ops\<close>,
  \<^theory_text>\<open>Mgmtd_Config_Ops\<close>, \<^theory_text>\<open>Mgmtd_Chain_Ops\<close> and \<^theory_text>\<open>Mgmtd_Session_Ops\<close> model the 23 operations, \<^theory_text>\<open>Mgmtd_Background\<close>
  and \<^theory_text>\<open>Mgmtd_Locations\<close> the tasks, each with an interpretation of \<open>writer\<close>. \<^theory_text>\<open>Mgmtd_Service\<close> dispatches
  requests and tasks and interprets \<open>writer\<close> once more: any sequence of admissible requests runs without an
  abort and keeps the invariant as long as no commit ends with an unknown result, and versions identify the
  chains with their targets. A request or task runs as one step there.

  \<^bold>\<open>Lease.\<close> \<^theory_text>\<open>Mgmtd_Lease\<close> models \<^verbatim>\<open>MgmtdLeaseExtender.cc\<close>: extending the lease, and the reload of the whole
  state by a new primary, after which the invariant holds. \<^theory_text>\<open>Lease_Protocol\<close> has several managers whose
  steps interleave, with clocks that differ; the operations of the other theories are shown to be steps.
  At most one manager takes itself for the primary, and one that lost the lease cannot write unless the
  check of the lease on writes is switched off.

  \<^bold>\<open>Chunks.\<close> \<^theory_text>\<open>Checksums\<close> models the checksums of \<^verbatim>\<open>fbs/storage/Common.h\<close> over a parameter for the CRC
  functions, whose law a bitwise CRC satisfies; the loop over blocks is proved once, in a locale for
  iterators that memory and files interpret. \<^theory_text>\<open>Chunk_File\<close> models \<^verbatim>\<open>ChunkFileView.cc\<close> and \<^verbatim>\<open>ChunkFileStore.cc\<close>:
  a write changes its range and nothing else, a failed one a prefix of it. \<^theory_text>\<open>Chunk_Keys\<close> has the keys of the
  metadata and their bytes, \<^theory_text>\<open>Chunk_Meta_Store\<close> the operations of \<^verbatim>\<open>ChunkMetaStore.cc\<close>. \<^theory_text>\<open>Chunk_Allocation\<close> has the
  invariant \<open>meta_inv\<close> (a position has one owner: a chunk or the pool of created, recycled or removed
  positions; positions lie within their files; the lists in memory are the pools) and \<open>framed\<close>, which
  says that an operation leaves all metadata and bytes of chunks alone. \<^theory_text>\<open>Chunk_Safety\<close> composes them: over all
  sequences of operations, failed writes, jobs and restarts chunks never overlap, and an operation touches
  no chunk but its own. \<^theory_text>\<open>Chunk_Store\<close> models the cache of \<^verbatim>\<open>ChunkStore.cc\<close>, refines it to the abstract
  contents \<open>holds\<close>, and shows that queries are complete. \<^theory_text>\<open>Chunk_Replica\<close> models \<^verbatim>\<open>ChunkReplica.cc\<close>
  over it: what an update makes of the content, the versions and the checksum of its chunk, that a failed one
  leaves the chunk dirty, what a commit does, and the reset of uncommitted chunks after a restart. The state of each layer extends the record of the
  layer below, so that the operations of a lower layer are operations of the upper one. What system calls
  and the key-value store do next (transfer some bytes, fail) is in queues of the state, empty for success;
  the invariant is for reads of the key-value store that do not fail, and a theorem shows why.

  \<^bold>\<open>Bounds.\<close> Loops over containers are structural recursions. The retry loops of transactions and of
  \<open>OperationDriver\<close> consume the list of their attempts, as long as the environment makes it; a run that is
  cut off by the end of the list is \<open>Pending\<close>, and the contracts hold for it too. Paging ends because every
  page moves the lower end of the range. The iteration over a ring buffer, which need not end, is a
  function to \<open>option\<close> with the criterion for its end proved; so is the loop over the positions of newly
  allocated space (\<open>chunk_offsets\<close>). The loop of a checksum has fuel for one round more than there are
  bytes; a round that goes on consumes at least one. Versions are 32-bit words: theorems on their
  order say for how many steps they hold.

  \<^bold>\<open>Not modelled.\<close> The interleaving of two operations of one chunk size, which the source guards by locks; the
  service of a storage node above the store of chunks, which forwards updates along a chain by remote
  calls, and its second, Rust store. The clients, the metadata service, the file system in user space, the network, the
  reflection-based serialiser, logs, metrics, configuration files, start-up code and the FoundationDB and
  RocksDB bindings: they are input and output, generated code, or calls of libraries whose source is not in
  the repository. \<^verbatim>\<open>PROJECT.json\<close> lists every part with its reason.
\<close>

end
